(* ===== verification/Prelude.thy ===== *)
theory Prelude
  imports Main "HOL-Library.Word"
begin

text \<open>
  Shared vocabulary of the development: the machine types of the program, the I/O
  error values, little- and big-endian integers, byte slices and fixed-size chunks, and the
  iteration order of Rust's hash containers. The collections \<open>bytes_simps\<close> and
  \<open>codec_simps\<close> carry the facts the byte-format components rewrite with.

  Unsigned integers that are only counted, compared and used as indices (\<open>u64\<close>, \<open>u32\<close>,
  \<open>usize\<close>; the target is 64-bit) are \<open>nat\<close>; a truncating cast is written
  \<open>mod 2 ^ w\<close>, a \<open>checked_\<close> operation returns \<open>None\<close> from \<open>2 ^ 64\<close> on, a
  \<open>saturating_sub\<close> is subtraction on \<open>nat\<close>. Bytes and integers that are shifted and
  masked are words.
\<close>

named_theorems bytes_simps
named_theorems codec_simps

type_synonym byte = "8 word"
type_synonym bytes = "8 word list"

subsection \<open>Errors\<close>

datatype error_kind = InvalidData | InvalidInput | NotFound | PermissionDenied | UnexpectedEof | Unsupported | WouldBlock | Other

datatype io_error = Io error_kind string

type_synonym 'a io_result = "io_error + 'a"

text \<open>A panic of the program (an index out of range, a division by zero) is an error value of its own.\<close>

definition panic :: "string \<Rightarrow> 'a io_result" where
  "panic what = Inl (Io Other (''panic: '' @ what))"

fun bind_result :: "'e + 'a \<Rightarrow> ('a \<Rightarrow> 'e + 'b) \<Rightarrow> 'e + 'b" where
  "bind_result (Inl e) f = Inl e"
| "bind_result (Inr x) f = f x"

lemma bind_result_Inr_iff: "bind_result r f = Inr y \<longleftrightarrow> (\<exists>x. r = Inr x \<and> f x = Inr y)"
  by (cases r) auto

text \<open>The \<open>?\<close> operator: an error ends the operation and keeps the state reached.\<close>

definition and_then :: "'a io_result \<times> 's \<Rightarrow> ('a \<Rightarrow> 's \<Rightarrow> 'b io_result \<times> 's) \<Rightarrow> 'b io_result \<times> 's" where
  "and_then r f = (case r of (Inl e, s) \<Rightarrow> (Inl e, s) | (Inr x, s) \<Rightarrow> f x s)"

lemma and_then_simps [simp]: "and_then (Inl e, s) f = (Inl e, s)" "and_then (Inr x, s) f = f x s"
  by (simp_all add: and_then_def)

lemma and_then_ok: "and_then r f = (Inr y, s') \<longleftrightarrow> (\<exists>x s. r = (Inr x, s) \<and> f x s = (Inr y, s'))"
  by (cases r; cases "fst r") (auto simp: and_then_def)

lemma and_then_assoc: "and_then r (\<lambda>x s. and_then (f x s) g) = and_then (and_then r f) g"
  by (cases r; cases "fst r") (auto simp: and_then_def)

fun is_ok :: "'e + 'a \<Rightarrow> bool" where
  "is_ok (Inl _) = False"
| "is_ok (Inr _) = True"

lemma is_ok_iff: "is_ok r \<longleftrightarrow> (\<exists>x. r = Inr x)"
  by (cases r) auto

subsection \<open>Arithmetic of the 64-bit target\<close>

abbreviation U64_SIZE :: nat where "U64_SIZE \<equiv> 2 ^ 64"
abbreviation U32_SIZE :: nat where "U32_SIZE \<equiv> 2 ^ 32"
abbreviation U16_SIZE :: nat where "U16_SIZE \<equiv> 2 ^ 16"

definition checked_add :: "nat \<Rightarrow> nat \<Rightarrow> nat option" where
  "checked_add a b = (if a + b < U64_SIZE then Some (a + b) else None)"

definition checked_mul :: "nat \<Rightarrow> nat \<Rightarrow> nat option" where
  "checked_mul a b = (if a * b < U64_SIZE then Some (a * b) else None)"

text \<open>A subtraction of the release build.\<close>

definition wrapping_sub :: "nat \<Rightarrow> nat \<Rightarrow> nat" where
  "wrapping_sub a b = (a + U64_SIZE - b) mod U64_SIZE"

lemma wrapping_sub_le: "b \<le> a \<Longrightarrow> a < U64_SIZE \<Longrightarrow> wrapping_sub a b = a - b"
proof -
  assume ba: "b \<le> a" and a: "a < U64_SIZE"
  then have "a + U64_SIZE - b = (a - b) + U64_SIZE" "a - b < U64_SIZE" by simp_all
  then show ?thesis by (simp only: wrapping_sub_def mod_add_self2 mod_less)
qed

definition div_ceil :: "nat \<Rightarrow> nat \<Rightarrow> nat" where
  "div_ceil a b = a div b + (if a mod b = 0 then 0 else 1)"

lemma checked_add_Some [simp]: "checked_add a b = Some c \<longleftrightarrow> c = a + b \<and> a + b < U64_SIZE"
  by (auto simp: checked_add_def)

lemma checked_add_None [simp]: "checked_add a b = None \<longleftrightarrow> U64_SIZE \<le> a + b"
  by (auto simp: checked_add_def)

lemma checked_mul_Some [simp]: "checked_mul a b = Some c \<longleftrightarrow> c = a * b \<and> a * b < U64_SIZE"
  by (auto simp: checked_mul_def)

lemma checked_mul_None [simp]: "checked_mul a b = None \<longleftrightarrow> U64_SIZE \<le> a * b"
  by (auto simp: checked_mul_def)

lemma div_ceil_0 [simp]: "div_ceil 0 b = 0"
  by (simp add: div_ceil_def)

lemma less_div_ceil_iff:
  assumes "0 < b"
  shows "i < div_ceil a b \<longleftrightarrow> i * b < a"
proof -
  define q r where "q = a div b" and "r = a mod b"
  have a: "a = q * b + r" and r: "r < b" using assms by (simp_all add: q_def r_def)
  have lt: "Suc i * b \<le> q * b" if "i < q" using that by (intro mult_le_mono1) simp
  have gt: "Suc q * b \<le> i * b" if "q < i" using that by (intro mult_le_mono1) simp
  have "i < q + (if r = 0 then 0 else 1) \<longleftrightarrow> i * b < q * b + r"
    using r lt gt by (cases i q rule: linorder_cases) auto
  then show ?thesis by (simp add: div_ceil_def a [symmetric] flip: q_def r_def)
qed

subsection \<open>Integers as bytes\<close>

fun le_bytes :: "nat \<Rightarrow> nat \<Rightarrow> bytes" where
  "le_bytes 0 n = []"
| "le_bytes (Suc k) n = word_of_nat n # le_bytes k (n div 256)"

fun le_val :: "bytes \<Rightarrow> nat" where
  "le_val [] = 0"
| "le_val (b # bs) = unat b + 256 * le_val bs"

definition be_bytes :: "nat \<Rightarrow> nat \<Rightarrow> bytes" where
  "be_bytes k n = rev (le_bytes k n)"

definition be_val :: "bytes \<Rightarrow> nat" where
  "be_val bs = le_val (rev bs)"

lemma length_le_bytes [simp]: "length (le_bytes k n) = k"
  by (induction k arbitrary: n) auto

lemma length_be_bytes [simp]: "length (be_bytes k n) = k"
  by (simp add: be_bytes_def)

lemma unat_byte_of_nat: "unat (word_of_nat n :: byte) = n mod 256"
  by (simp add: unat_of_nat)

lemma le_val_le_bytes: "le_val (le_bytes k n) = n mod 256 ^ k"
proof (induction k arbitrary: n)
  case (Suc k)
  have "n mod 256 + 256 * (n div 256 mod 256 ^ k) = n mod (256 * 256 ^ k)"
    by (simp add: mod_mult2_eq)
  then show ?case by (simp add: Suc unat_byte_of_nat)
qed simp

lemma le_val_bytes [bytes_simps]: "n < 256 ^ k \<Longrightarrow> le_val (le_bytes k n) = n"
  by (simp add: le_val_le_bytes)

lemma be_val_bytes [bytes_simps]: "n < 256 ^ k \<Longrightarrow> be_val (be_bytes k n) = n"
  by (simp add: be_val_def be_bytes_def le_val_bytes)

lemma le_val_bound: "le_val bs < 256 ^ length bs"
proof (induction bs)
  case (Cons b bs)
  have "unat b < 256" using unsigned_less [of b] by simp
  moreover have "256 * Suc (le_val bs) \<le> 256 * 256 ^ length bs"
    using Cons by (intro mult_le_mono) auto
  ultimately show ?case by simp
qed simp

lemma be_val_bound: "be_val bs < 256 ^ length bs"
  using le_val_bound [of "rev bs"] by (simp add: be_val_def)

lemma le_bytes_le_val: "le_bytes (length bs) (le_val bs) = bs"
proof (induction bs)
  case (Cons b bs)
  have lt: "unat b < 256" using unsigned_less [of b] by simp
  have "(word_of_nat (unat b + 256 * le_val bs) :: byte) = b"
    using lt by (simp only: word_unat_eq_iff unat_byte_of_nat) simp
  moreover have "(unat b + 256 * le_val bs) div 256 = le_val bs" using lt by simp
  ultimately show ?case using Cons by simp
qed simp

lemma le_bytes_inj:
  assumes "le_bytes k a = le_bytes k b" "a < 256 ^ k" "b < 256 ^ k"
  shows "a = b"
  using assms by (metis le_val_bytes)

subsection \<open>Slices, padding and chunks\<close>

definition bslice :: "nat \<Rightarrow> nat \<Rightarrow> 'a list \<Rightarrow> 'a list" where
  "bslice off n xs = take n (drop off xs)"

text \<open>Rust's checked sub-slice \<open>buf.get(off..off + n)\<close>.\<close>

definition get_slice :: "'a list \<Rightarrow> nat \<Rightarrow> nat \<Rightarrow> 'a list option" where
  "get_slice xs off n = (if off + n \<le> length xs then Some (bslice off n xs) else None)"

text \<open>Rust's checked element access \<open>xs.get(i)\<close>.\<close>

definition get :: "'a list \<Rightarrow> nat \<Rightarrow> 'a option" where
  "get xs i = (if i < length xs then Some (xs ! i) else None)"

definition zeros :: "nat \<Rightarrow> bytes" where
  "zeros n = replicate n 0"

lemma length_zeros [simp]: "length (zeros n) = n"
  by (simp add: zeros_def)

lemma length_bslice [simp]: "length (bslice off n xs) = min n (length xs - off)"
  by (simp add: bslice_def)

lemma bslice_append_left [bytes_simps]:
  "off + n \<le> length xs \<Longrightarrow> bslice off n (xs @ ys) = bslice off n xs"
  by (simp add: bslice_def)

lemma bslice_append_right [bytes_simps]:
  "length xs \<le> off \<Longrightarrow> bslice off n (xs @ ys) = bslice (off - length xs) n ys"
  by (simp add: bslice_def)

lemma bslice_0_append [bytes_simps]: "length xs = n \<Longrightarrow> bslice 0 n (xs @ ys) = xs"
  by (simp add: bslice_def)

lemma bslice_0_all [bytes_simps]: "length xs \<le> n \<Longrightarrow> bslice 0 n xs = xs"
  by (simp add: bslice_def)

lemma get_Some_iff [simp]: "get xs i = Some x \<longleftrightarrow> i < length xs \<and> xs ! i = x"
  by (auto simp: get_def)

lemma get_None_iff [simp]: "get xs i = None \<longleftrightarrow> length xs \<le> i"
  by (auto simp: get_def)

text \<open>Rust's \<open>chunks(n)\<close>: it panics at \<open>n = 0\<close>; callers here pass a positive size.\<close>

function chunks :: "nat \<Rightarrow> 'a list \<Rightarrow> 'a list list" where
  "chunks n xs = (if n = 0 \<or> xs = [] then [] else take n xs # chunks n (drop n xs))"
  by pat_completeness auto
termination
  by (relation "measure (\<lambda>(n, xs). length xs)") auto

declare chunks.simps [simp del]

lemma chunks_Nil [simp]: "chunks n [] = []"
  by (simp add: chunks.simps)

lemma chunks_step:
  "0 < n \<Longrightarrow> xs \<noteq> [] \<Longrightarrow> chunks n xs = take n xs # chunks n (drop n xs)"
  by (simp add: chunks.simps [of n xs])

lemma concat_chunks: "0 < n \<Longrightarrow> concat (chunks n xs) = xs"
proof (induction n xs rule: chunks.induct)
  case (1 n xs)
  then show ?case by (cases "xs = []") (simp_all add: chunks_step)
qed

lemma chunks_bounded:
  assumes "c \<in> set (chunks n xs)" "0 < n"
  shows "c \<noteq> [] \<and> length c \<le> n"
  using assms
proof (induction n xs rule: chunks.induct)
  case (1 n xs)
  then show ?case by (cases "xs = []") (auto simp: chunks_step)
qed

lemma chunks_append:
  assumes "length xs = n" "0 < n"
  shows "chunks n (xs @ ys) = xs # chunks n ys"
proof -
  have "xs @ ys \<noteq> []" using assms by auto
  then show ?thesis using assms by (simp add: chunks_step)
qed

lemma chunks_concat_equal:
  assumes "\<And>x. x \<in> set xss \<Longrightarrow> length x = n" "0 < n"
  shows "chunks n (concat xss) = xss"
  using assms by (induction xss) (simp_all add: chunks_append)

lemma length_le_concat: "x \<in> set xss \<Longrightarrow> length x \<le> length (concat xss)"
  by (induction xss) auto

lemma length_concat_equal:
  assumes "\<And>x. x \<in> set xss \<Longrightarrow> length x = n"
  shows "length (concat xss) = length xss * n"
  using assms by (induction xss) simp_all

lemma bslice_concat_equal:
  assumes "\<And>x. x \<in> set xss \<Longrightarrow> length x = n" "i < length xss"
  shows "bslice (i * n) n (concat xss) = xss ! i"
  using assms
proof (induction xss arbitrary: i)
  case (Cons x xss)
  show ?case
  proof (cases i)
    case 0
    then show ?thesis using Cons.prems by (simp add: bslice_def)
  next
    case (Suc j)
    then have "bslice (i * n) n (concat (x # xss)) = bslice (j * n) n (concat xss)"
      using Cons.prems by (simp add: bslice_def)
    then show ?thesis using Suc Cons by simp
  qed
qed simp

lemma take_upt_min: "take k [a..<n] = [a..<a + min k (n - a)]"
proof (cases "a + k \<le> n")
  case True
  then have "min k (n - a) = k" by simp
  then show ?thesis using True by (simp add: take_upt)
next
  case False
  then show ?thesis by (cases "a \<le> n") (simp_all add: min_def)
qed

lemma drop_upt_min: "drop k [a..<n] = [a + min k (n - a)..<n]"
  by (auto simp: min_def)

lemma in_set_map_filter: "y \<in> set (List.map_filter f xs) \<longleftrightarrow> (\<exists>x \<in> set xs. f x = Some y)"
  by (induction xs) (auto simp: map_filter_simps split: option.splits)

lemma distinct_concat_nth:
  assumes "distinct (concat xss)" "g < length xss" "i < length (xss ! g)"
    and "g' < length xss" "i' < length (xss ! g')" "xss ! g ! i = xss ! g' ! i'"
  shows "g = g' \<and> i = i'"
  using assms
proof (induction xss arbitrary: g g')
  case (Cons xs xss)
  have mem: "xss ! k ! j \<in> set (concat xss)" if "k < length xss" "j < length (xss ! k)" for k j
    using that by (auto intro!: bexI [of _ "xss ! k"])
  have sep: "xs ! j \<notin> set (concat xss)" if "j < length xs" for j
    using that Cons.prems(1) nth_mem by fastforce
  show ?case
    using Cons.prems Cons.IH mem sep
    by (cases g; cases g') (auto simp: nth_eq_iff_index_eq, metis+)
qed simp

subsection \<open>Maps filled by a loop of inserts\<close>

definition insert_all :: "('k \<times> 'v) list \<Rightarrow> ('k \<rightharpoonup> 'v) \<Rightarrow> ('k \<rightharpoonup> 'v)" where
  "insert_all kvs m = fold (\<lambda>(k, v) m. m(k \<mapsto> v)) kvs m"

lemma insert_all_Nil [simp]: "insert_all [] m = m"
  by (simp add: insert_all_def)

lemma insert_all_Cons [simp]: "insert_all ((k, v) # kvs) m = insert_all kvs (m(k \<mapsto> v))"
  by (simp add: insert_all_def)

lemma insert_all_append: "insert_all (xs @ ys) m = insert_all ys (insert_all xs m)"
  by (simp add: insert_all_def)

lemma insert_all_other: "k \<notin> fst ` set kvs \<Longrightarrow> insert_all kvs m k = m k"
  by (induction kvs arbitrary: m) auto

lemma insert_all_in: "k \<in> fst ` set kvs \<Longrightarrow> \<exists>v. insert_all kvs m k = Some v \<and> (k, v) \<in> set kvs"
proof (induction kvs arbitrary: m)
  case (Cons kv kvs)
  obtain k' v' where kv: "kv = (k', v')" by (cases kv)
  show ?case
  proof (cases "k \<in> fst ` set kvs")
    case True
    then obtain v where "insert_all kvs (m(k' \<mapsto> v')) k = Some v" "(k, v) \<in> set kvs"
      using Cons.IH by blast
    then show ?thesis by (simp add: kv)
  next
    case False
    then show ?thesis using Cons.prems by (auto simp: kv insert_all_other)
  qed
qed simp

text \<open>The inserts agree on every key: the order of the loop does not matter.\<close>

lemma insert_all_functional:
  assumes "\<And>k v v'. (k, v) \<in> set kvs \<Longrightarrow> (k, v') \<in> set kvs \<Longrightarrow> v = v'"
  shows "insert_all kvs m k = Some v \<longleftrightarrow> (k, v) \<in> set kvs \<or> k \<notin> fst ` set kvs \<and> m k = Some v"
proof (cases "k \<in> fst ` set kvs")
  case True
  then obtain w where "insert_all kvs m k = Some w" "(k, w) \<in> set kvs"
    using insert_all_in [of k kvs m] by auto
  then show ?thesis using assms True by auto
next
  case False
  then have "(k, v) \<notin> set kvs" by force
  then show ?thesis using False by (simp add: insert_all_other)
qed

subsection \<open>Iteration order of hash containers\<close>

text \<open>
  Rust leaves the iteration order of \<open>HashSet\<close> and \<open>HashMap\<close> open. A definition that
  iterates takes the order as an argument: a function from a (finite) set to the list of its
  elements. The contract of such an enumeration is this interface.
\<close>

locale hash_iteration =
  fixes iter :: "'a set \<Rightarrow> 'a list"
  assumes set_iter: "finite S \<Longrightarrow> set (iter S) = S"
    and distinct_iter: "finite S \<Longrightarrow> distinct (iter S)"
begin

lemma length_iter: "finite S \<Longrightarrow> length (iter S) = card S"
  using set_iter [of S] distinct_card [of "iter S"] distinct_iter [of S] by simp

lemma iter_empty: "iter {} = []"
  using set_iter [of "{}"] by simp

end

interpretation sorted_iter: hash_iteration "sorted_list_of_set :: 'a::linorder set \<Rightarrow> 'a list"
  by unfold_locales simp_all

end
