(* ===== verification/Cache_File.thy ===== *)
theory Cache_File
  imports Prelude "HOL-Library.Multiset"
begin

text \<open>
  The local cache file and the index of its compressed form (\<open>CacheIndex\<close> and
  \<open>compact_compressed_cache\<close> of \<open>src/src/tiered/disk_cache.rs\<close>). The file is its bytes.
  A positional write past the end fills the gap with zeros. The \<open>n\<close>-th write or resize may
  fail: \<open>dk_fault n\<close> gives the error and how many bytes of the write reached the file, so a
  failed write may be torn. Reads fail only past the end. File offsets stay below \<open>2 ^ 64\<close>, as
  on every file system; a product of page number and stride may wrap and says so.
\<close>

subsection \<open>Positional I/O\<close>

record disk =
  dk_file :: bytes
  dk_fault :: "nat \<Rightarrow> (io_error \<times> nat) option"
  dk_ops :: nat

definition pwrite :: "nat \<Rightarrow> bytes \<Rightarrow> bytes \<Rightarrow> bytes" where
  "pwrite off data file =
     (if data = [] then file
      else take off file @ zeros (off - length file) @ data @ drop (off + length data) file)"

definition write_all_at :: "nat \<Rightarrow> bytes \<Rightarrow> disk \<Rightarrow> unit io_result \<times> disk" where
  "write_all_at off data d =
     (case dk_fault d (dk_ops d) of
        None \<Rightarrow> (Inr (), d\<lparr>dk_file := pwrite off data (dk_file d), dk_ops := dk_ops d + 1\<rparr>)
      | Some (e, k) \<Rightarrow> (Inl e, d\<lparr>dk_file := pwrite off (take k data) (dk_file d), dk_ops := dk_ops d + 1\<rparr>))"

definition set_len :: "nat \<Rightarrow> disk \<Rightarrow> unit io_result \<times> disk" where
  "set_len n d =
     (case dk_fault d (dk_ops d) of
        None \<Rightarrow> (Inr (), d\<lparr>dk_file := take n (dk_file d) @ zeros (n - length (dk_file d)), dk_ops := dk_ops d + 1\<rparr>)
      | Some (e, _) \<Rightarrow> (Inl e, d\<lparr>dk_ops := dk_ops d + 1\<rparr>))"

definition read_exact_at :: "nat \<Rightarrow> nat \<Rightarrow> disk \<Rightarrow> bytes io_result" where
  "read_exact_at off n d =
     (if n = 0 \<or> off + n \<le> length (dk_file d) then Inr (bslice off n (dk_file d))
      else Inl (Io UnexpectedEof ''failed to fill whole buffer''))"

text \<open>\<open>fallocate\<close> with \<open>PUNCH_HOLE\<close> and \<open>KEEP_SIZE\<close>: zeros inside the file, no growth.\<close>

definition punch_hole :: "nat \<Rightarrow> nat \<Rightarrow> disk \<Rightarrow> disk" where
  "punch_hole off n d = d\<lparr>dk_file := take off (dk_file d) @ zeros (min n (length (dk_file d) - off)) @ drop (off + n) (dk_file d)\<rparr>"

definition no_faults :: "disk \<Rightarrow> bool" where
  "no_faults d \<longleftrightarrow> (\<forall>n. dk_fault d n = None)"

subsection \<open>The index\<close>

record cache_index_entry =
  ce_offset :: nat
  ce_len :: nat

record cache_index =
  ci_entries :: "nat \<rightharpoonup> cache_index_entry"
  ci_next_offset :: nat

definition empty_index :: cache_index where
  "empty_index = \<lparr>ci_entries = Map.empty, ci_next_offset = 0\<rparr>"

definition index_with_state :: "cache_index option \<Rightarrow> cache_index" where
  "index_with_state state = (case state of Some st \<Rightarrow> st | None \<Rightarrow> empty_index)"

definition index_get :: "cache_index \<Rightarrow> nat \<Rightarrow> cache_index_entry option" where
  "index_get ix page_num = ci_entries ix page_num"

definition index_insert :: "nat \<Rightarrow> nat \<Rightarrow> cache_index \<Rightarrow> nat \<times> cache_index" where
  "index_insert page_num compressed_len ix =
     (let offset = ci_next_offset ix in
      (offset, ix\<lparr>ci_entries := (ci_entries ix)(page_num \<mapsto> \<lparr>ce_offset = offset, ce_len = compressed_len\<rparr>),
                  ci_next_offset := offset + compressed_len\<rparr>))"

definition index_insert_at :: "nat \<Rightarrow> nat \<Rightarrow> nat \<Rightarrow> cache_index \<Rightarrow> cache_index" where
  "index_insert_at page_num offset compressed_len ix =
     (let end_off = offset + compressed_len;
          ix = ix\<lparr>ci_entries := (ci_entries ix)(page_num \<mapsto> \<lparr>ce_offset = offset, ce_len = compressed_len\<rparr>)\<rparr>
      in if ci_next_offset ix < end_off then ix\<lparr>ci_next_offset := end_off\<rparr> else ix)"

definition index_contains :: "cache_index \<Rightarrow> nat \<Rightarrow> bool" where
  "index_contains ix page_num \<longleftrightarrow> page_num \<in> dom (ci_entries ix)"

definition live_bytes :: "(nat set \<Rightarrow> nat list) \<Rightarrow> cache_index \<Rightarrow> nat" where
  "live_bytes iter ix = sum_list (map (\<lambda>p. ce_len (the (ci_entries ix p))) (iter (dom (ci_entries ix))))"

definition index_remove :: "nat \<Rightarrow> cache_index \<Rightarrow> cache_index" where
  "index_remove page_num ix = ix\<lparr>ci_entries := (ci_entries ix)(page_num := None)\<rparr>"

definition index_clear :: "cache_index \<Rightarrow> cache_index" where
  "index_clear ix = empty_index"

subsection \<open>Compaction\<close>

fun compact_loop ::
  "(nat \<times> cache_index_entry) list \<Rightarrow> (nat \<rightharpoonup> cache_index_entry) \<Rightarrow> nat \<Rightarrow> disk
     \<Rightarrow> ((nat \<rightharpoonup> cache_index_entry) \<times> nat) io_result \<times> disk" where
  "compact_loop [] new_entries cursor d = (Inr (new_entries, cursor), d)"
| "compact_loop ((page_num, e) # es) new_entries cursor d =
     (case read_exact_at (ce_offset e) (ce_len e) d of
        Inl _ \<Rightarrow> compact_loop es new_entries cursor d
      | Inr blob \<Rightarrow>
          (case (if cursor \<noteq> ce_offset e then write_all_at cursor blob d else (Inr (), d)) of
             (Inl err, d) \<Rightarrow> (Inl err, d)
           | (Inr _, d) \<Rightarrow>
               compact_loop es (new_entries(page_num \<mapsto> \<lparr>ce_offset = cursor, ce_len = ce_len e\<rparr>))
                 (cursor + ce_len e) d))"

definition index_snapshot :: "(nat set \<Rightarrow> nat list) \<Rightarrow> cache_index \<Rightarrow> (nat \<times> cache_index_entry) list" where
  "index_snapshot iter ix =
     sort_key (\<lambda>(_, e). ce_offset e) (map (\<lambda>p. (p, the (ci_entries ix p))) (iter (dom (ci_entries ix))))"

text \<open>The result is the packed index, the new file length, and the disk.\<close>

definition compact_index ::
  "(nat set \<Rightarrow> nat list) \<Rightarrow> cache_index \<Rightarrow> disk \<Rightarrow> (cache_index \<times> nat) io_result \<times> disk" where
  "compact_index iter ix d =
     (case compact_loop (index_snapshot iter ix) Map.empty 0 d of
        (Inl e, d) \<Rightarrow> (Inl e, d)
      | (Inr (new_entries, cursor), d) \<Rightarrow>
          (case set_len cursor d of
             (Inl e, d) \<Rightarrow> (Inl e, d)
           | (Inr _, d) \<Rightarrow> (Inr (\<lparr>ci_entries = new_entries, ci_next_offset = cursor\<rparr>, cursor), d)))"

subsection \<open>Bytes of the file\<close>

lemma pwrite_Nil [simp]: "pwrite off [] file = file"
  by (simp add: pwrite_def)

lemma length_pwrite: "length (pwrite off data file) = (if data = [] then length file else max (length file) (off + length data))"
  by (auto simp: pwrite_def max_def min_def)

lemma pwrite_same: "bslice off (length data) (pwrite off data file) = data"
  by (simp add: pwrite_def bslice_def)

lemma pwrite_nth_other:
  assumes "i < off \<or> off + length data \<le> i" "i < length file"
  shows "pwrite off data file ! i = file ! i"
  using assms by (auto simp: pwrite_def nth_append)

lemma bslice_eq_nth:
  assumes "off + n \<le> length xs" "off + n \<le> length ys" "\<And>i. off \<le> i \<Longrightarrow> i < off + n \<Longrightarrow> xs ! i = ys ! i"
  shows "bslice off n xs = bslice off n ys"
  using assms by (intro nth_equalityI) (simp_all add: bslice_def)

lemma pwrite_other:
  assumes "o2 + n \<le> length file" "o2 + n \<le> off \<or> off + length data \<le> o2 \<or> n = 0"
  shows "bslice o2 n (pwrite off data file) = bslice o2 n file"
proof (cases "n = 0")
  case False
  have "o2 + n \<le> length (pwrite off data file)" using assms(1) by (auto simp: length_pwrite max_def)
  then show ?thesis using assms False by (intro bslice_eq_nth pwrite_nth_other) auto
qed (simp add: bslice_def)

lemma punch_hole_other:
  assumes "o2 + k \<le> length (dk_file d)" "o2 + k \<le> off \<or> off + n \<le> o2"
  shows "bslice o2 k (dk_file (punch_hole off n d)) = bslice o2 k (dk_file d)"
proof (rule bslice_eq_nth)
  show "o2 + k \<le> length (dk_file (punch_hole off n d))" using assms by (simp add: punch_hole_def)
  show "o2 \<le> i \<Longrightarrow> i < o2 + k \<Longrightarrow> dk_file (punch_hole off n d) ! i = dk_file d ! i" for i
    using assms by (auto simp: punch_hole_def nth_append)
qed (use assms in simp)

lemma length_punch_hole [simp]: "length (dk_file (punch_hole off n d)) = length (dk_file d)"
  by (simp add: punch_hole_def)

lemma write_all_at_ok: "no_faults d \<Longrightarrow> write_all_at off data d = (Inr (), d\<lparr>dk_file := pwrite off data (dk_file d), dk_ops := dk_ops d + 1\<rparr>)"
  by (simp add: write_all_at_def no_faults_def)

lemma set_len_ok: "no_faults d \<Longrightarrow> set_len n d
    = (Inr (), d\<lparr>dk_file := take n (dk_file d) @ zeros (n - length (dk_file d)), dk_ops := dk_ops d + 1\<rparr>)"
  by (simp add: set_len_def no_faults_def)

lemma no_faults_update [simp]: "no_faults (dk_file_update f d) = no_faults d" "no_faults (dk_ops_update g d) = no_faults d"
  by (simp_all add: no_faults_def)

lemma no_faults_punch [simp]: "no_faults (punch_hole off n d) = no_faults d"
  by (simp add: punch_hole_def)


subsection \<open>Compaction keeps every blob\<close>

definition entry_end :: "cache_index_entry \<Rightarrow> nat" where
  "entry_end e = ce_offset e + ce_len e"

definition blob_of :: "cache_index_entry \<Rightarrow> disk \<Rightarrow> bytes" where
  "blob_of e d = bslice (ce_offset e) (ce_len e) (dk_file d)"

definition apart :: "cache_index_entry \<Rightarrow> cache_index_entry \<Rightarrow> bool" where
  "apart e f \<longleftrightarrow> entry_end e \<le> ce_offset f \<or> entry_end f \<le> ce_offset e"

definition index_ok :: "cache_index \<Rightarrow> bool" where
  "index_ok ix \<longleftrightarrow> finite (dom (ci_entries ix))
     \<and> (\<forall>p e. ci_entries ix p = Some e \<longrightarrow> entry_end e \<le> ci_next_offset ix)
     \<and> (\<forall>p q e f. ci_entries ix p = Some e \<longrightarrow> ci_entries ix q = Some f \<longrightarrow> p \<noteq> q \<longrightarrow> apart e f)"

lemma index_insert_ok:
  assumes "index_ok ix"
  shows "index_ok (snd (index_insert p n ix))" "index_ok (index_insert_at p (ci_next_offset ix) n ix)"
    "index_ok (index_remove p ix)" "index_ok empty_index"
proof -
  have "e \<in> ran (ci_entries ix) \<Longrightarrow> apart e \<lparr>ce_offset = ci_next_offset ix, ce_len = n\<rparr> \<and> apart \<lparr>ce_offset = ci_next_offset ix, ce_len = n\<rparr> e" for e
    using assms by (auto simp: index_ok_def apart_def ran_def)
  then have new: "ci_entries ix q = Some e \<Longrightarrow> apart e \<lparr>ce_offset = ci_next_offset ix, ce_len = n\<rparr> \<and> apart \<lparr>ce_offset = ci_next_offset ix, ce_len = n\<rparr> e" for q e
    by (auto simp: ran_def)
  have le: "ci_entries ix q = Some e \<Longrightarrow> entry_end e \<le> ci_next_offset ix + k" for q e k
    using assms by (force simp: index_ok_def)
  show "index_ok (snd (index_insert p n ix))" "index_ok (index_insert_at p (ci_next_offset ix) n ix)"
    using assms new le [of _ _ n] by (auto simp: index_ok_def index_insert_def index_insert_at_def Let_def entry_end_def)
  show "index_ok (index_remove p ix)" "index_ok empty_index"
    using assms by (auto simp: index_ok_def index_remove_def empty_index_def)
qed

text \<open>The snapshot in file order: a later entry starts after an earlier one, or is empty.\<close>

definition packed_order :: "(nat \<times> cache_index_entry) list \<Rightarrow> bool" where
  "packed_order es \<longleftrightarrow> sorted_wrt (\<lambda>(_, e) (_, f). entry_end e \<le> ce_offset f \<or> ce_len f = 0) es"

lemma blob_of_write:
  assumes "entry_end e \<le> length (dk_file d)" "entry_end e \<le> off \<or> off + length data \<le> ce_offset e \<or> ce_len e = 0"
  shows "blob_of e (d\<lparr>dk_file := pwrite off data (dk_file d), dk_ops := k\<rparr>) = blob_of e d"
  using assms by (simp add: blob_of_def entry_end_def pwrite_other)

lemma read_blob: "entry_end e \<le> length (dk_file d) \<Longrightarrow> read_exact_at (ce_offset e) (ce_len e) d = Inr (blob_of e d)"
  by (simp add: read_exact_at_def entry_end_def blob_of_def)

lemma length_blob_of: "entry_end e \<le> length (dk_file d) \<Longrightarrow> length (blob_of e d) = ce_len e"
  by (simp add: blob_of_def entry_end_def)

definition moved_entry :: "nat \<Rightarrow> cache_index_entry \<Rightarrow> cache_index_entry" where
  "moved_entry cursor e = \<lparr>ce_offset = cursor, ce_len = ce_len e\<rparr>"

text \<open>One move: the blob arrives at the cursor and nothing before it or still to come changes.\<close>

lemma move_blob:
  assumes ok: "no_faults d" and fits: "entry_end e \<le> length (dk_file d)" and low: "ce_len e = 0 \<or> cursor \<le> ce_offset e"
  shows "\<exists>d1. (if cursor \<noteq> ce_offset e then write_all_at cursor (blob_of e d) d else (Inr (), d)) = (Inr (), d1)
    \<and> no_faults d1 \<and> length (dk_file d1) = length (dk_file d)
    \<and> blob_of (moved_entry cursor e) d1 = blob_of e d
    \<and> (\<forall>f. entry_end f \<le> length (dk_file d) \<longrightarrow> entry_end f \<le> cursor \<or> cursor + ce_len e \<le> ce_offset f \<or> ce_len f = 0
        \<longrightarrow> blob_of f d1 = blob_of f d)"
proof (cases "cursor = ce_offset e")
  case True
  then show ?thesis using ok by (simp add: moved_entry_def blob_of_def)
next
  case False
  let ?d1 = "d\<lparr>dk_file := pwrite cursor (blob_of e d) (dk_file d), dk_ops := dk_ops d + 1\<rparr>"
  have len: "length (blob_of e d) = ce_len e" using fits by (rule length_blob_of)
  have "length (dk_file ?d1) = length (dk_file d)"
    using fits low len by (auto simp: length_pwrite entry_end_def)
  moreover have "blob_of (moved_entry cursor e) ?d1 = blob_of e d"
    using pwrite_same [of cursor "blob_of e d" "dk_file d"] len by (simp add: blob_of_def moved_entry_def)
  ultimately show ?thesis
    using False ok len blob_of_write [of _ d cursor "blob_of e d" "dk_ops d + 1"] by (simp add: write_all_at_ok)
qed


definition compacted ::
  "(nat \<times> cache_index_entry) list \<Rightarrow> nat \<Rightarrow> disk \<Rightarrow> (nat \<rightharpoonup> cache_index_entry) \<Rightarrow> (nat \<rightharpoonup> cache_index_entry) \<Rightarrow> disk \<Rightarrow> bool" where
  "compacted es cursor d old new d' \<longleftrightarrow>
     (\<forall>p. p \<notin> fst ` set es \<longrightarrow> new p = old p)
     \<and> (\<forall>(p, e) \<in> set es. \<exists>c. new p = Some (moved_entry c e) \<and> cursor \<le> c \<and> c + ce_len e \<le> cursor + sum_list (map (ce_len \<circ> snd) es)
          \<and> blob_of (moved_entry c e) d' = blob_of e d)
     \<and> (\<forall>p q e f. p \<in> fst ` set es \<longrightarrow> q \<in> fst ` set es \<longrightarrow> p \<noteq> q \<longrightarrow> new p = Some e \<longrightarrow> new q = Some f \<longrightarrow> apart e f)"

lemma compacted_Cons:
  assumes rest: "compacted es (cursor + ce_len e) d1 (new(p \<mapsto> moved_entry cursor e)) new' d'"
    and p: "p \<notin> fst ` set es"
    and head: "blob_of (moved_entry cursor e) d' = blob_of e d"
    and same: "\<And>q f. (q, f) \<in> set es \<Longrightarrow> blob_of f d1 = blob_of f d"
  shows "compacted ((p, e) # es) cursor d new new' d'"
proof -
  let ?n = "cursor + ce_len e + sum_list (map (ce_len \<circ> snd) es)"
  have p': "new' p = Some (moved_entry cursor e)" using rest p by (simp add: compacted_def)
  have mem: "\<exists>c. new' q = Some (moved_entry c f) \<and> cursor + ce_len e \<le> c \<and> c + ce_len f \<le> ?n \<and> blob_of (moved_entry c f) d' = blob_of f d"
    if "(q, f) \<in> set es" for q f
    using rest that same [OF that] by (fastforce simp: compacted_def)
  have ap: "apart a b \<and> apart b a" if "new' p = Some a" "q \<in> fst ` set es" "new' q = Some b" for a b q
    using mem p' that by (force simp: apart_def entry_end_def moved_entry_def)
  have ap2: "apart a b" if "q \<in> fst ` set es" "r \<in> fst ` set es" "q \<noteq> r" "new' q = Some a" "new' r = Some b" for a b q r
    using rest that by (simp add: compacted_def)
  have "\<forall>(q, f) \<in> set ((p, e) # es). \<exists>c. new' q = Some (moved_entry c f) \<and> cursor \<le> c
      \<and> c + ce_len f \<le> cursor + sum_list (map (ce_len \<circ> snd) ((p, e) # es)) \<and> blob_of (moved_entry c f) d' = blob_of f d"
    using mem p' head by (fastforce simp: add.assoc)
  moreover have "\<forall>q. q \<notin> fst ` set ((p, e) # es) \<longrightarrow> new' q = new q" using rest by (auto simp: compacted_def)
  ultimately show ?thesis using ap ap2 unfolding compacted_def by (metis (no_types, lifting) fst_conv image_insert insert_iff list.simps(15))
qed

lemma compact_loop_spec:
  assumes "no_faults d" "packed_order es" "distinct (map fst es)"
    and "\<forall>(p, e) \<in> set es. entry_end e \<le> length (dk_file d) \<and> (ce_len e = 0 \<or> cursor \<le> ce_offset e)"
  shows "\<exists>new' d'. compact_loop es new cursor d = (Inr (new', cursor + sum_list (map (ce_len \<circ> snd) es)), d')
    \<and> no_faults d' \<and> length (dk_file d') = length (dk_file d)
    \<and> (\<forall>f. entry_end f \<le> length (dk_file d) \<longrightarrow> entry_end f \<le> cursor \<longrightarrow> blob_of f d' = blob_of f d)
    \<and> compacted es cursor d new new' d'"
  using assms
proof (induction es arbitrary: new cursor d)
  case Nil
  then show ?case by (simp add: compacted_def)
next
  case (Cons pe es)
  obtain p e where pe: "pe = (p, e)" by (cases pe)
  have fits: "entry_end e \<le> length (dk_file d)" and low: "ce_len e = 0 \<or> cursor \<le> ce_offset e"
    using Cons.prems(4) pe by auto
  obtain d1 where d1: "(if cursor \<noteq> ce_offset e then write_all_at cursor (blob_of e d) d else (Inr (), d)) = (Inr (), d1)"
    "no_faults d1" "length (dk_file d1) = length (dk_file d)" "blob_of (moved_entry cursor e) d1 = blob_of e d"
    "\<And>f. entry_end f \<le> length (dk_file d) \<Longrightarrow> entry_end f \<le> cursor \<or> cursor + ce_len e \<le> ce_offset f \<or> ce_len f = 0
        \<Longrightarrow> blob_of f d1 = blob_of f d"
    using move_blob [OF Cons.prems(1) fits low] by blast
  have later: "cursor + ce_len e \<le> ce_offset f \<or> ce_len f = 0" if "(q, f) \<in> set es" for q f
    using Cons.prems(2,4) pe that low by (force simp: packed_order_def entry_end_def)
  have "packed_order es" "distinct (map fst es)" using Cons.prems(2,3) by (simp_all add: packed_order_def)
  moreover have "\<forall>(q, f) \<in> set es. entry_end f \<le> length (dk_file d1) \<and> (ce_len f = 0 \<or> cursor + ce_len e \<le> ce_offset f)"
    using Cons.prems(4) later d1(3) by fastforce
  ultimately obtain new' d' where IH:
    "compact_loop es (new(p \<mapsto> moved_entry cursor e)) (cursor + ce_len e) d1
       = (Inr (new', cursor + ce_len e + sum_list (map (ce_len \<circ> snd) es)), d')"
    "no_faults d'" "length (dk_file d') = length (dk_file d1)"
    "\<And>f. entry_end f \<le> length (dk_file d1) \<Longrightarrow> entry_end f \<le> cursor + ce_len e \<Longrightarrow> blob_of f d' = blob_of f d1"
    "compacted es (cursor + ce_len e) d1 (new(p \<mapsto> moved_entry cursor e)) new' d'"
    using Cons.IH [OF d1(2), of "cursor + ce_len e" "new(p \<mapsto> moved_entry cursor e)"] by blast
  have head: "blob_of (moved_entry cursor e) d' = blob_of e d"
  proof (cases "ce_len e = 0")
    case True
    then show ?thesis by (simp add: blob_of_def moved_entry_def bslice_def)
  next
    case False
    then have "entry_end (moved_entry cursor e) \<le> length (dk_file d1)"
      using low fits d1(3) by (simp add: entry_end_def moved_entry_def)
    then show ?thesis using IH(4) d1(4) by (simp add: entry_end_def moved_entry_def)
  qed
  have same: "blob_of f d1 = blob_of f d" if "(q, f) \<in> set es" for q f
    using d1(5) later [OF that] Cons.prems(4) that by fastforce
  have "p \<notin> fst ` set es" using Cons.prems(3) pe by auto
  then have "compacted ((p, e) # es) cursor d new new' d'" by (rule compacted_Cons [OF IH(5) _ head]) (rule same)
  moreover have "blob_of f d' = blob_of f d" if "entry_end f \<le> length (dk_file d)" "entry_end f \<le> cursor" for f
    using IH(4) d1(3,5) that by simp
  moreover have "compact_loop (pe # es) new cursor d = (Inr (new', cursor + sum_list (map (ce_len \<circ> snd) (pe # es))), d')"
    using IH(1) d1(1) pe by (simp add: read_blob [OF fits] moved_entry_def add.assoc)
  ultimately show ?case using IH(2) trans [OF IH(3) d1(3)] unfolding pe by blast
qed


lemma snapshot_facts:
  assumes iter: "hash_iteration iter" and ok: "index_ok ix"
  shows "packed_order (index_snapshot iter ix)" "distinct (map fst (index_snapshot iter ix))"
    "set (index_snapshot iter ix) = {(p, e). ci_entries ix p = Some e}"
    "sum_list (map (ce_len \<circ> snd) (index_snapshot iter ix)) = live_bytes iter ix"
proof -
  let ?xs = "map (\<lambda>p. (p, the (ci_entries ix p))) (iter (dom (ci_entries ix)))"
  let ?es = "index_snapshot iter ix"
  have fin: "finite (dom (ci_entries ix))" using ok by (simp add: index_ok_def)
  have perm: "mset ?es = mset ?xs" by (simp add: index_snapshot_def)
  have "map fst ?xs = iter (dom (ci_entries ix))" by (simp add: comp_def)
  then have "distinct (map fst ?xs)" using hash_iteration.distinct_iter [OF iter fin] by simp
  then show dist: "distinct (map fst ?es)" using perm by (metis mset_map mset_eq_imp_distinct_iff)
  have "set ?xs = {(p, e). ci_entries ix p = Some e}" using hash_iteration.set_iter [OF iter fin] by force
  then show set: "set ?es = {(p, e). ci_entries ix p = Some e}" by (simp add: index_snapshot_def)
  have "sum_mset (image_mset (ce_len \<circ> snd) (mset ?es)) = sum_mset (image_mset (ce_len \<circ> snd) (mset ?xs))" by (simp only: perm)
  then show "sum_list (map (ce_len \<circ> snd) ?es) = live_bytes iter ix"
    by (simp add: live_bytes_def comp_def sum_mset_sum_list flip: mset_map)
  have srt: "sorted (map (\<lambda>(_, e). ce_offset e) ?es)" by (simp add: index_snapshot_def)
  show "packed_order ?es" unfolding packed_order_def sorted_wrt_iff_nth_less
  proof (intro allI impI)
    fix i j assume ij: "i < j" "j < length ?es"
    obtain p e q f where pe: "?es ! i = (p, e)" "?es ! j = (q, f)" by (meson surj_pair)
    have "p \<noteq> q" using dist ij pe nth_eq_iff_index_eq [OF dist, of i j] by auto
    moreover have "ci_entries ix p = Some e" "ci_entries ix q = Some f"
      using set ij pe nth_mem [of i ?es] nth_mem [of j ?es] by auto
    ultimately have "apart e f" using ok unfolding index_ok_def by blast
    moreover have "ce_offset e \<le> ce_offset f" using sorted_nth_mono [OF srt, of i j] ij pe by simp
    ultimately show "(case ?es ! i of (_, e) \<Rightarrow> \<lambda>(_, f). entry_end e \<le> ce_offset f \<or> ce_len f = 0) (?es ! j)"
      using pe by (auto simp: apart_def entry_end_def)
  qed
qed

lemma compact_index_spec:
  assumes "hash_iteration iter" and "no_faults d" and "index_ok ix"
    and "\<forall>p e. ci_entries ix p = Some e \<longrightarrow> entry_end e \<le> length (dk_file d)"
  shows "\<exists>ix' d'. compact_index iter ix d = (Inr (ix', live_bytes iter ix), d') \<and> index_ok ix'
    \<and> ci_next_offset ix' = live_bytes iter ix \<and> length (dk_file d') = live_bytes iter ix
    \<and> dom (ci_entries ix') = dom (ci_entries ix) \<and> no_faults d'
    \<and> (\<forall>p e. ci_entries ix p = Some e \<longrightarrow>
        (\<exists>e'. ci_entries ix' p = Some e' \<and> ce_len e' = ce_len e \<and> entry_end e' \<le> live_bytes iter ix \<and> blob_of e' d' = blob_of e d))"
proof -
  note snap = snapshot_facts [OF assms(1,3)]
  let ?n = "live_bytes iter ix"
  have "\<forall>(p, e) \<in> set (index_snapshot iter ix). entry_end e \<le> length (dk_file d) \<and> (ce_len e = 0 \<or> 0 \<le> ce_offset e)"
    using assms(4) snap(3) by auto
  from compact_loop_spec [OF assms(2) snap(1,2) this, of Map.empty]
  obtain new d1 where run: "compact_loop (index_snapshot iter ix) Map.empty 0 d = (Inr (new, ?n), d1)" "no_faults d1"
    "length (dk_file d1) = length (dk_file d)" "compacted (index_snapshot iter ix) 0 d Map.empty new d1"
    by (auto simp: snap(4))
  let ?d2 = "d1\<lparr>dk_file := take ?n (dk_file d1) @ zeros (?n - length (dk_file d1)), dk_ops := dk_ops d1 + 1\<rparr>"
  let ?ix = "\<lparr>ci_entries = new, ci_next_offset = ?n\<rparr>"
  have pages: "fst ` set (index_snapshot iter ix) = dom (ci_entries ix)" using snap(3) by force
  have old: "\<exists>c. new p = Some (moved_entry c e) \<and> c + ce_len e \<le> ?n \<and> blob_of (moved_entry c e) d1 = blob_of e d"
    if "ci_entries ix p = Some e" for p e
    using run(4) that snap(3,4) by (force simp: compacted_def)
  have none: "ci_entries ix p = None \<Longrightarrow> new p = None" for p using run(4) pages by (auto simp: compacted_def dom_def)
  have "new p \<noteq> None \<longleftrightarrow> ci_entries ix p \<noteq> None" for p
    using old none by (cases "ci_entries ix p") fastforce+
  then have dom: "dom new = dom (ci_entries ix)" by (simp add: dom_def)
  have ends: "entry_end e \<le> ?n" if at: "new p = Some e" for p e
  proof -
    obtain e0 where "ci_entries ix p = Some e0" using none [of p] at by (cases "ci_entries ix p") auto
    then show ?thesis using old at by (fastforce simp: entry_end_def moved_entry_def)
  qed
  have "index_ok ?ix"
  proof -
    have "apart e f" if "new p = Some e" "new q = Some f" "p \<noteq> q" for p q e f
    proof -
      have "p \<in> fst ` set (index_snapshot iter ix)" "q \<in> fst ` set (index_snapshot iter ix)"
        using that dom unfolding pages by blast+
      then show ?thesis using run(4) that unfolding compacted_def by blast
    qed
    then show ?thesis using assms(3) dom ends by (auto simp: index_ok_def)
  qed
  moreover have "blob_of (moved_entry c e) ?d2 = blob_of e d"
    if "ci_entries ix p = Some e" "c + ce_len e \<le> ?n" "blob_of (moved_entry c e) d1 = blob_of e d" for p c e
  proof (cases "ce_len e = 0")
    case True
    then show ?thesis by (simp add: blob_of_def moved_entry_def bslice_def)
  next
    case False
    have "length (blob_of (moved_entry c e) d1) = ce_len e" using that assms(4) by (simp add: length_blob_of)
    then have "c + ce_len e \<le> length (dk_file d1)" using False by (simp add: blob_of_def moved_entry_def)
    then have "bslice c (ce_len e) (dk_file ?d2) = bslice c (ce_len e) (dk_file d1)"
      using that(2) by (intro bslice_eq_nth) (auto simp: nth_append)
    then show ?thesis using that(3) by (simp add: blob_of_def moved_entry_def)
  qed
  moreover have "compact_index iter ix d = (Inr (?ix, ?n), ?d2)"
    using run(1,2) by (simp add: compact_index_def set_len_ok)
  moreover have "length (dk_file ?d2) = ?n" "no_faults ?d2" using run(2) by simp_all
  ultimately show ?thesis using dom old
    by (intro exI [of _ ?ix] exI [of _ ?d2]) (fastforce simp: entry_end_def moved_entry_def)
qed

text \<open>
  C34: Compacting the compressed cache file packs the blobs to exactly the live bytes and keeps
  every page: each indexed page has an entry of the same length whose bytes in the packed file are
  the bytes it had, the entries are disjoint, and the file ends where the next append goes. Moving
  blobs in place, front to back in file order, never overwrites one that is still to be moved.
\<close>

theorem compaction_keeps_blobs:
  assumes "hash_iteration iter" and "no_faults d" and "index_ok ix"
    and "\<forall>p e. ci_entries ix p = Some e \<longrightarrow> entry_end e \<le> length (dk_file d)"
  shows "\<exists>ix' d'. compact_index iter ix d = (Inr (ix', live_bytes iter ix), d') \<and> index_ok ix'
    \<and> ci_next_offset ix' = live_bytes iter ix \<and> length (dk_file d') = live_bytes iter ix
    \<and> dom (ci_entries ix') = dom (ci_entries ix) \<and> no_faults d'
    \<and> (\<forall>p e. ci_entries ix p = Some e \<longrightarrow>
        (\<exists>e'. ci_entries ix' p = Some e' \<and> ce_len e' = ce_len e \<and> entry_end e' \<le> live_bytes iter ix \<and> blob_of e' d' = blob_of e d))"
  using assms by (rule compact_index_spec)

definition sample_disk :: disk where
  "sample_disk = \<lparr>dk_file = [9, 9, 9, 1, 2, 9, 3, 4, 5], dk_fault = (\<lambda>_. None), dk_ops = 0\<rparr>"

definition sample_index :: cache_index where
  "sample_index = \<lparr>ci_entries = [7 \<mapsto> \<lparr>ce_offset = 6, ce_len = 3\<rparr>, 4 \<mapsto> \<lparr>ce_offset = 3, ce_len = 2\<rparr>], ci_next_offset = 9\<rparr>"

lemma sample_index_ok: "index_ok sample_index" "live_bytes sorted_list_of_set sample_index = 5" "no_faults sample_disk"
    "\<forall>p e. ci_entries sample_index p = Some e \<longrightarrow> entry_end e \<le> length (dk_file sample_disk)"
  by (auto simp: index_ok_def sample_index_def sample_disk_def no_faults_def apart_def entry_end_def live_bytes_def split: if_splits)

theorem compaction_keeps_blobs_witness:
  "\<exists>ix' d'. compact_index sorted_list_of_set sample_index sample_disk = (Inr (ix', 5), d') \<and> length (dk_file d') = 5
    \<and> (\<exists>e'. ci_entries ix' 7 = Some e' \<and> blob_of e' d' = [3, 4, 5])"
proof -
  have e: "ci_entries sample_index 7 = Some \<lparr>ce_offset = 6, ce_len = 3\<rparr>" "blob_of \<lparr>ce_offset = 6, ce_len = 3\<rparr> sample_disk = [3, 4, 5]"
    by (simp_all add: sample_index_def sample_disk_def blob_of_def bslice_def)
  show ?thesis
    using compaction_keeps_blobs [OF sorted_iter.hash_iteration_axioms sample_index_ok(3,1,4), unfolded sample_index_ok(2)] e by metis
qed

end
