(* ===== verification/Keys.thy ===== *)
theory Keys
  imports Prelude
begin

text \<open>
  Object keys and encryption slot identities (\<open>src/src/tiered/keys.rs\<close>). Rust's decimal
  \<open>format!\<close> of an unsigned integer is \<open>nat_str\<close>. The abstract view of a stored object
  is a \<open>slot\<close>; the two properties say that keys name (slot, version) pairs and that the
  additional authenticated data names slots, each without collisions.
\<close>

subsection \<open>Decimal formatting\<close>

definition digit_char :: "nat \<Rightarrow> char" where
  "digit_char d = char_of (48 + d)"

fun nat_str :: "nat \<Rightarrow> string" where
  "nat_str n = (if n < 10 then [digit_char n] else nat_str (n div 10) @ [digit_char (n mod 10)])"

declare nat_str.simps [simp del]

definition is_digit :: "char \<Rightarrow> bool" where
  "is_digit c \<longleftrightarrow> 48 \<le> (of_char c :: nat) \<and> (of_char c :: nat) < 58"

definition str_val :: "string \<Rightarrow> nat" where
  "str_val s = foldl (\<lambda>a c. 10 * a + (of_char c - 48)) 0 s"

lemma of_char_digit_char: "d < 10 \<Longrightarrow> (of_char (digit_char d) :: nat) = 48 + d"
  by (simp add: digit_char_def)

lemma nat_str_digits: "c \<in> set (nat_str n) \<Longrightarrow> is_digit c"
proof (induction n rule: nat_str.induct)
  case (1 n)
  then show ?case
    by (cases "n < 10") (auto simp: nat_str.simps [of n] is_digit_def of_char_digit_char)
qed

lemma str_val_nat_str: "str_val (nat_str n) = n"
proof (induction n rule: nat_str.induct)
  case (1 n)
  then show ?case
    by (cases "n < 10") (simp_all add: nat_str.simps [of n] str_val_def of_char_digit_char)
qed

lemma nat_str_inj [simp]: "nat_str a = nat_str b \<longleftrightarrow> a = b"
  by (metis str_val_nat_str)

lemma digits_split:
  assumes "xs @ c # r = ys @ d # s"
    and "\<And>x. x \<in> set xs \<Longrightarrow> is_digit x" "\<And>y. y \<in> set ys \<Longrightarrow> is_digit y"
    and "\<not> is_digit c" "\<not> is_digit d"
  shows "xs = ys \<and> c = d \<and> r = s"
proof -
  have "takeWhile is_digit (xs @ c # r) = xs" "takeWhile is_digit (ys @ d # s) = ys"
    using assms(2-5) by (simp_all add: takeWhile_append)
  then have "xs = ys" using assms(1) by simp
  then show ?thesis using assms(1) by simp
qed

lemma nat_str_split:
  assumes "nat_str a @ c # r = nat_str b @ d # s" "\<not> is_digit c" "\<not> is_digit d"
  shows "a = b \<and> c = d \<and> r = s"
  using digits_split [OF assms(1) nat_str_digits nat_str_digits assms(2,3)] by simp

subsection \<open>Object keys\<close>

definition MANIFEST_KEY :: string where
  "MANIFEST_KEY = ''manifest.msgpack''"

definition page_group_key :: "nat \<Rightarrow> nat \<Rightarrow> string" where
  "page_group_key group_id version = ''p/d/'' @ nat_str group_id @ ''_v'' @ nat_str version"

definition interior_chunk_key :: "nat \<Rightarrow> nat \<Rightarrow> string" where
  "interior_chunk_key chunk_id version = ''p/it/'' @ nat_str chunk_id @ ''_v'' @ nat_str version"

definition index_chunk_key :: "nat \<Rightarrow> nat \<Rightarrow> string" where
  "index_chunk_key chunk_id version = ''p/ix/'' @ nat_str chunk_id @ ''_v'' @ nat_str version"

definition override_frame_key :: "nat \<Rightarrow> nat \<Rightarrow> nat \<Rightarrow> string" where
  "override_frame_key group_id frame_idx version =
     ''p/d/'' @ nat_str group_id @ ''_f'' @ nat_str frame_idx @ ''_v'' @ nat_str version"

subsection \<open>Additional authenticated data\<close>

definition aad_page_group :: "nat \<Rightarrow> bytes" where
  "aad_page_group gid = [103] @ le_bytes 8 gid"

definition aad_interior_bundle :: "nat \<Rightarrow> bytes" where
  "aad_interior_bundle chunk_id = [105] @ le_bytes 4 chunk_id"

definition aad_index_bundle :: "nat \<Rightarrow> bytes" where
  "aad_index_bundle chunk_id = [120] @ le_bytes 4 chunk_id"

definition aad_override_frame :: "nat \<Rightarrow> nat \<Rightarrow> bytes" where
  "aad_override_frame gid frame_idx = [111] @ le_bytes 8 gid @ le_bytes 8 frame_idx"

subsection \<open>Slots\<close>

text \<open>What a key and an AAD are meant to identify.\<close>

datatype slot =
    PageGroupSlot nat
  | InteriorSlot nat
  | IndexSlot nat
  | OverrideSlot nat nat

fun key_of :: "slot \<Rightarrow> nat \<Rightarrow> string" where
  "key_of (PageGroupSlot g) v = page_group_key g v"
| "key_of (InteriorSlot c) v = interior_chunk_key c v"
| "key_of (IndexSlot c) v = index_chunk_key c v"
| "key_of (OverrideSlot g f) v = override_frame_key g f v"

fun aad_of :: "slot \<Rightarrow> bytes" where
  "aad_of (PageGroupSlot g) = aad_page_group g"
| "aad_of (InteriorSlot c) = aad_interior_bundle c"
| "aad_of (IndexSlot c) = aad_index_bundle c"
| "aad_of (OverrideSlot g f) = aad_override_frame g f"

text \<open>The identifiers fit their Rust types (\<open>u64\<close> group ids and frame indices, \<open>u32\<close> chunk ids).\<close>

fun slot_in_range :: "slot \<Rightarrow> bool" where
  "slot_in_range (PageGroupSlot g) \<longleftrightarrow> g < U64_SIZE"
| "slot_in_range (InteriorSlot c) \<longleftrightarrow> c < U32_SIZE"
| "slot_in_range (IndexSlot c) \<longleftrightarrow> c < U32_SIZE"
| "slot_in_range (OverrideSlot g f) \<longleftrightarrow> g < U64_SIZE \<and> f < U64_SIZE"

lemmas key_defs = page_group_key_def interior_chunk_key_def index_chunk_key_def override_frame_key_def
lemmas aad_defs = aad_page_group_def aad_interior_bundle_def aad_index_bundle_def aad_override_frame_def

lemma sep_not_digit [simp]: "\<not> is_digit CHR ''_''"
  by (simp add: is_digit_def)

lemma key_of_inject: "key_of s v = key_of s' v' \<longleftrightarrow> s = s' \<and> v = v'"
  by (cases s; cases s') (auto simp: key_defs dest!: nat_str_split)

text \<open>
  the object keys collide for no two versioned slots: equal keys name the same kind of object,
  the same ids and the same version. Page groups and override frames, which share the prefix
  \<open>p/d/\<close>, are kept apart by the separator after the group id.
\<close>

lemma key_of_injective: "key_of s v = key_of s' v' \<longleftrightarrow> s = s' \<and> v = v'"
  by (rule key_of_inject)

text \<open>
  The additional authenticated data binds a frame to one slot: for identifiers in the range of
  their types, equal data means the same slot, across the four kinds of objects.
\<close>

lemma aad_of_injective:
  assumes "slot_in_range s" "slot_in_range s'"
  shows "aad_of s = aad_of s' \<longleftrightarrow> s = s'"
  using assms by (cases s; cases s') (auto simp: aad_defs dest!: le_bytes_inj)

end
