(* ===== verification/Staging.thy ===== *)
theory Staging
  imports Keys
begin

text \<open>
  The append-only staging log (\<open>src/src/tiered/staging.rs\<close>): a four-byte page size, page
  records, and an optional manifest trailer behind a magic page number. A log file is its byte
  content; a writer is the content written so far. The operating system's answers are not part of
  the model: a write either appends its bytes or the crash is modelled as a truncated file, and the
  reading functions are given whatever bytes are on disk.
\<close>

definition MANIFEST_MAGIC :: nat where
  "MANIFEST_MAGIC = 0xCAFEFACEDEADBEEF"

definition is_power_of_two :: "nat \<Rightarrow> bool" where
  "is_power_of_two n \<longleftrightarrow> list_ex (\<lambda>k. n = 2 ^ k) [0..<32]"

definition is_valid_page_size :: "nat \<Rightarrow> bool" where
  "is_valid_page_size ps \<longleftrightarrow> is_power_of_two ps \<and> 512 \<le> ps \<and> ps \<le> 65536"

record pending_flush =
  pf_staging_path :: string
  pf_version :: nat
  pf_page_size :: nat

record staging_writer =
  sw_content :: bytes
  sw_path :: string
  sw_page_size :: nat
  sw_pages_written :: nat

definition open_writer :: "string \<Rightarrow> nat \<Rightarrow> nat \<Rightarrow> staging_writer" where
  "open_writer staging_dir version page_size =
     \<lparr>sw_content = le_bytes 4 page_size,
      sw_path = staging_dir @ ''/'' @ nat_str version @ ''.log'',
      sw_page_size = page_size, sw_pages_written = 0\<rparr>"

definition append_page :: "staging_writer \<Rightarrow> nat \<Rightarrow> bytes \<Rightarrow> staging_writer" where
  "append_page w page_num data =
     w\<lparr>sw_content := sw_content w @ le_bytes 8 page_num @ data,
       sw_pages_written := sw_pages_written w + 1\<rparr>"

definition append_manifest :: "staging_writer \<Rightarrow> bytes \<Rightarrow> staging_writer" where
  "append_manifest w manifest_bytes =
     w\<lparr>sw_content := sw_content w @ le_bytes 8 MANIFEST_MAGIC
        @ le_bytes 8 (length manifest_bytes) @ manifest_bytes\<rparr>"

definition finalize_writer :: "staging_writer \<Rightarrow> bytes \<times> string \<times> nat" where
  "finalize_writer w = (sw_content w, sw_path w, sw_pages_written w)"

subsection \<open>Reading the pages back\<close>

text \<open>
  The read loop over the bytes after the header. A \<open>read_exact\<close> that meets the end of the
  file stops the loop and keeps the complete records before it.
\<close>

function read_pages :: "nat \<Rightarrow> bytes \<Rightarrow> (nat \<rightharpoonup> bytes) \<Rightarrow> (nat \<rightharpoonup> bytes)" where
  "read_pages ps bs pages =
     (if length bs < 8 then pages
      else let page_num = le_val (take 8 bs); rest = drop 8 bs in
        if page_num = MANIFEST_MAGIC then pages
        else if length rest < ps then pages
        else read_pages ps (drop ps rest) (pages(page_num \<mapsto> take ps rest)))"
  by pat_completeness auto
termination
  by (relation "measure (\<lambda>(ps, bs, pages). length bs)") auto

declare read_pages.simps [simp del]

definition read_staging_log :: "bytes \<Rightarrow> nat \<Rightarrow> (nat \<rightharpoonup> bytes) io_result" where
  "read_staging_log file unused_page_size =
     (if length file < 4 then Inr Map.empty
      else let page_size = le_val (take 4 file) in
        if \<not> is_valid_page_size page_size then Inr Map.empty
        else Inr (read_pages page_size (drop 4 file) Map.empty))"

function read_manifest_loop :: "nat \<Rightarrow> nat \<Rightarrow> bytes \<Rightarrow> bytes option io_result" where
  "read_manifest_loop ps file_len bs =
     (if length bs < 8 then Inr None
      else let val = le_val (take 8 bs); rest = drop 8 bs in
        if val = MANIFEST_MAGIC then
          (if length rest < 8 then Inl (Io UnexpectedEof ''failed to fill whole buffer'')
           else let manifest_len = le_val (take 8 rest); body = drop 8 rest in
             if manifest_len > file_len then Inr None
             else if length body < manifest_len
               then Inl (Io UnexpectedEof ''failed to fill whole buffer'')
             else Inr (Some (take manifest_len body)))
        else if length rest < ps then Inl (Io UnexpectedEof ''failed to fill whole buffer'')
        else read_manifest_loop ps file_len (drop ps rest))"
  by pat_completeness auto
termination
  by (relation "measure (\<lambda>(ps, file_len, bs). length bs)") auto

declare read_manifest_loop.simps [simp del]

definition read_staging_manifest :: "bytes \<Rightarrow> nat \<Rightarrow> bytes option io_result" where
  "read_staging_manifest file unused_page_size =
     (let file_len = length file in
      if file_len < 4 then Inr None
      else let page_size = le_val (take 4 file) in
        if \<not> is_valid_page_size page_size then Inr None
        else read_manifest_loop page_size file_len (drop 4 file))"

subsection \<open>Recovery scan\<close>

text \<open>
  A directory entry is a file name and its content. \<open>parse_log_name\<close> is the extension test,
  the file stem and \<open>str::parse::<u64>\<close> (decimal digits with an optional plus sign, in range).
\<close>

definition parse_u64 :: "string \<Rightarrow> nat option" where
  "parse_u64 s = (let ds = (case s of c # cs \<Rightarrow> if c = CHR ''+'' then cs else s | [] \<Rightarrow> []) in
     if ds \<noteq> [] \<and> list_all is_digit ds \<and> str_val ds < U64_SIZE then Some (str_val ds) else None)"

definition parse_log_name :: "string \<Rightarrow> nat option" where
  "parse_log_name name =
     (let n = length name in
      if 4 < n \<and> drop (n - 4) name = ''.log'' then parse_u64 (take (n - 4) name) else None)"

definition header_page_size :: "bytes \<Rightarrow> nat \<Rightarrow> nat" where
  "header_page_size file page_size =
     (if length file < 4 then page_size
      else let ps = le_val (take 4 file) in if 0 < ps \<and> ps \<le> 65536 then ps else page_size)"

definition recover_entry :: "string \<Rightarrow> nat \<Rightarrow> string \<times> bytes \<Rightarrow> pending_flush option" where
  "recover_entry staging_dir page_size e =
     (case parse_log_name (fst e) of
        None \<Rightarrow> None
      | Some version \<Rightarrow>
          if snd e = [] then None
          else Some \<lparr>pf_staging_path = staging_dir @ ''/'' @ fst e, pf_version = version,
                     pf_page_size = header_page_size (snd e) page_size\<rparr>)"

definition removes_entry :: "string \<times> bytes \<Rightarrow> bool" where
  "removes_entry e \<longleftrightarrow> parse_log_name (fst e) \<noteq> None \<and> snd e = []"

text \<open>The scan returns the pending flushes and the directory after it removed the empty logs.\<close>

definition recover_staging_logs ::
  "string \<Rightarrow> (string \<times> bytes) list option \<Rightarrow> nat \<Rightarrow> pending_flush list \<times> (string \<times> bytes) list option" where
  "recover_staging_logs staging_dir entries page_size =
     (case entries of None \<Rightarrow> ([], None)
      | Some es \<Rightarrow> (sort_key pf_version (List.map_filter (recover_entry staging_dir page_size) es),
                    Some (filter (\<lambda>e. \<not> removes_entry e) es)))"

subsection \<open>Logs as written\<close>

definition rec_bytes :: "nat \<times> bytes \<Rightarrow> bytes" where
  "rec_bytes r = le_bytes 8 (fst r) @ snd r"

definition wf_rec :: "nat \<Rightarrow> nat \<times> bytes \<Rightarrow> bool" where
  "wf_rec ps r \<longleftrightarrow> fst r < U64_SIZE \<and> fst r \<noteq> MANIFEST_MAGIC \<and> length (snd r) = ps"

definition trailer_bytes :: "bytes option \<Rightarrow> bytes" where
  "trailer_bytes t = (case t of None \<Rightarrow> []
     | Some mb \<Rightarrow> le_bytes 8 MANIFEST_MAGIC @ le_bytes 8 (length mb) @ mb)"

text \<open>A session of the writer: open, append the pages, append the trailer if there is one.\<close>

definition write_log :: "string \<Rightarrow> nat \<Rightarrow> nat \<Rightarrow> (nat \<times> bytes) list \<Rightarrow> bytes option \<Rightarrow> staging_writer" where
  "write_log dir version ps recs t =
     (let w = fold (\<lambda>r w. append_page w (fst r) (snd r)) recs (open_writer dir version ps)
      in case t of None \<Rightarrow> w | Some mb \<Rightarrow> append_manifest w mb)"

lemma append_pages_content:
  "sw_content (fold (\<lambda>r w. append_page w (fst r) (snd r)) recs w) = sw_content w @ concat (map rec_bytes recs)"
  by (induction recs arbitrary: w) (auto simp: append_page_def rec_bytes_def)

lemma append_pages_count:
  "sw_pages_written (fold (\<lambda>r w. append_page w (fst r) (snd r)) recs w) = sw_pages_written w + length recs"
  by (induction recs arbitrary: w) (auto simp: append_page_def)

lemma write_log_content:
  "sw_content (write_log dir v ps recs t) = le_bytes 4 ps @ concat (map rec_bytes recs) @ trailer_bytes t"
  by (cases t) (simp_all add: write_log_def Let_def append_pages_content open_writer_def
      append_manifest_def trailer_bytes_def)

lemma magic_in_range: "MANIFEST_MAGIC < 256 ^ 8"
  by (simp add: MANIFEST_MAGIC_def)

lemma trailer_take8:
  "length (take n (trailer_bytes t)) < 8 \<or> le_val (take 8 (take n (trailer_bytes t))) = MANIFEST_MAGIC"
proof (cases t)
  case (Some mb)
  then show ?thesis
    by (cases "n < 8") (simp_all add: trailer_bytes_def min_def le_val_bytes [OF magic_in_range])
qed (simp add: trailer_bytes_def)

lemma length_rec_bytes: "wf_rec ps r \<Longrightarrow> length (rec_bytes r) = 8 + ps"
  by (simp add: rec_bytes_def wf_rec_def)

text \<open>The loop on any prefix of a log returns the records that are complete in the prefix.\<close>

lemma read_pages_prefix:
  assumes "list_all (wf_rec ps) recs"
  shows "read_pages ps (take n (concat (map rec_bytes recs) @ trailer_bytes t)) m
    = fold (\<lambda>r m. m(fst r \<mapsto> snd r)) (take (n div (8 + ps)) recs) m"
  using assms
proof (induction recs arbitrary: n m)
  case Nil
  then show ?case
    using trailer_take8 [of n t] by (subst read_pages.simps) (auto simp: Let_def)
next
  case (Cons r recs)
  let ?tail = "concat (map rec_bytes recs) @ trailer_bytes t"
  have wf: "wf_rec ps r" and len: "length (rec_bytes r) = 8 + ps"
    using Cons.prems by (simp_all add: length_rec_bytes)
  show ?case
  proof (cases "8 + ps \<le> n")
    case True
    then have pre: "take n (rec_bytes r @ ?tail) = rec_bytes r @ take (n - (8 + ps)) ?tail"
      by (simp add: len)
    have num: "le_val (le_bytes 8 (fst r)) = fst r" using wf by (intro le_val_bytes) (simp add: wf_rec_def)
    have step: "read_pages ps (rec_bytes r @ xs) m = read_pages ps xs (m(fst r \<mapsto> snd r))" for xs
      using wf by (subst read_pages.simps) (simp add: rec_bytes_def wf_rec_def Let_def num)
    have "n div (8 + ps) = Suc ((n - (8 + ps)) div (8 + ps))"
      using True by (simp add: le_div_geq)
    moreover have "list_all (wf_rec ps) recs" using Cons.prems by simp
    moreover have "take n (concat (map rec_bytes (r # recs)) @ trailer_bytes t)
      = rec_bytes r @ take (n - (8 + ps)) ?tail" using pre by (simp del: take_append)
    ultimately show ?thesis by (simp only: step Cons.IH take_Suc_Cons fold_simps)
  next
    case False
    then have zero: "n div (8 + ps) = 0" by simp
    have "le_val (take 8 (take n (rec_bytes r @ ?tail))) \<noteq> MANIFEST_MAGIC" if "8 \<le> n"
    proof -
      have "take 8 (take n (rec_bytes r @ ?tail)) = le_bytes 8 (fst r)"
        using that by (simp add: rec_bytes_def min_def)
      moreover have "le_val (le_bytes 8 (fst r)) = fst r"
        using wf by (intro le_val_bytes) (simp add: wf_rec_def)
      ultimately show ?thesis using wf by (simp add: wf_rec_def)
    qed
    then show ?thesis using False zero len
      by (subst read_pages.simps) (auto simp: Let_def)
  qed
qed

lemma valid_page_size_bounds: "is_valid_page_size ps \<Longrightarrow> 0 < ps \<and> ps < 256 ^ 4"
  by (simp add: is_valid_page_size_def)

lemma valid_page_size_512: "is_valid_page_size 512"
proof -
  have "(512 :: nat) = 2 ^ 9" by simp
  then have "is_power_of_two 512" unfolding is_power_of_two_def list_ex_iff by (intro bexI [of _ 9]) simp_all
  then show ?thesis by (simp add: is_valid_page_size_def)
qed

lemma read_log_prefix:
  assumes "is_valid_page_size ps" "list_all (wf_rec ps) recs"
  shows "read_staging_log (take n (sw_content (write_log dir v ps recs t))) any
    = Inr (map_of (rev (take ((n - 4) div (8 + ps)) recs)))"
proof -
  let ?body = "concat (map rec_bytes recs) @ trailer_bytes t"
  have upd: "fold (\<lambda>r m. m(fst r \<mapsto> snd r)) rs Map.empty = map_of (rev rs)" for rs :: "(nat \<times> bytes) list"
    by (induction rs rule: rev_induct) auto
  have ps: "le_val (le_bytes 4 ps) = ps"
    using valid_page_size_bounds [OF assms(1)] by (intro le_val_bytes) simp
  show ?thesis
  proof (cases "n < 4")
    case True
    then show ?thesis by (simp add: read_staging_log_def write_log_content)
  next
    case False
    then have "take n (le_bytes 4 ps @ ?body) = le_bytes 4 ps @ take (n - 4) ?body" by simp
    moreover note read_pages_prefix [OF assms(2), of "n - 4" t Map.empty]
    ultimately show ?thesis
      using assms(1) ps by (simp add: read_staging_log_def write_log_content Let_def upd)
  qed
qed

text \<open>A whole log gives back every page.\<close>

lemma read_log_whole:
  assumes "is_valid_page_size ps" "list_all (wf_rec ps) recs" "distinct (map fst recs)"
  shows "read_staging_log (sw_content (write_log dir v ps recs t)) any = Inr (map_of recs)"
proof -
  let ?c = "sw_content (write_log dir v ps recs t)"
  have "length (concat (map rec_bytes recs)) = length recs * (8 + ps)"
    using assms(2) by (induction recs) (simp_all add: length_rec_bytes)
  then have "length recs * (8 + ps) \<le> length ?c - 4" by (simp add: write_log_content)
  then have "length recs \<le> (length ?c - 4) div (8 + ps)" by (simp add: less_eq_div_iff_mult_less_eq)
  moreover have "map_of (rev recs) = map_of recs" using assms(3) by (intro map_of_inject_set [THEN iffD2]) (simp_all add: rev_map [symmetric])
  ultimately show ?thesis using read_log_prefix [OF assms(1,2), of "length ?c" dir v t any] by simp
qed

text \<open>
  C12: a staging log survives a crash at any byte: reading any prefix of what a writer session wrote
  succeeds and returns exactly the pages whose records are complete in the prefix, the later record
  winning for a page written twice; the whole file returns every page, with or without a manifest
  trailer behind them.
\<close>

theorem staging_log_prefix:
  assumes "is_valid_page_size ps" "list_all (wf_rec ps) recs"
  shows "read_staging_log (take n (sw_content (write_log dir v ps recs t))) any
    = Inr (map_of (rev (take ((n - 4) div (8 + ps)) recs)))"
  using assms by (rule read_log_prefix)

theorem staging_log_prefix_witness:
  "read_staging_log (take 1050 (sw_content (write_log ''d'' 1 512
      [(7, replicate 512 17), (7, replicate 512 34), (9, zeros 512)] None))) 0
   = Inr [7 \<mapsto> replicate 512 34]"
proof -
  note ps = valid_page_size_512
  have wf: "list_all (wf_rec 512) [(7, replicate 512 17), (7, replicate 512 34), (9, zeros 512)]"
    by (simp add: wf_rec_def MANIFEST_MAGIC_def)
  have "rev (take ((1050 - 4) div (8 + 512)) [(7::nat, a), (7, b), (9, c)]) = [(7, b), (7, a)]"
    for a b c :: bytes by simp
  moreover have "map_of [(7::nat, b), (7, a)] = [7 \<mapsto> b]" for a b :: bytes by auto
  ultimately show ?thesis by (simp only: staging_log_prefix [OF ps wf])
qed

subsection \<open>The manifest trailer\<close>

lemma manifest_loop_trailer:
  assumes "8 + 8 + length mb \<le> file_len" "length mb < U64_SIZE"
  shows "read_manifest_loop ps file_len (trailer_bytes (Some mb)) = Inr (Some mb)"
proof -
  have "le_val (le_bytes 8 (length mb)) = length mb" "le_val (le_bytes 8 MANIFEST_MAGIC) = MANIFEST_MAGIC"
    using assms(2) magic_in_range by (simp_all add: le_val_bytes)
  then show ?thesis using assms(1)
    by (subst read_manifest_loop.simps) (simp add: trailer_bytes_def Let_def)
qed

lemma manifest_loop_torn_trailer:
  assumes "n < length (trailer_bytes t)" "\<And>mb. t = Some mb \<Longrightarrow> length mb < U64_SIZE"
  shows "read_manifest_loop ps file_len (take n (trailer_bytes t)) \<noteq> Inr (Some mb)"
proof (cases t)
  case (Some b)
  have v: "le_val (le_bytes 8 (length b)) = length b" "le_val (le_bytes 8 MANIFEST_MAGIC) = MANIFEST_MAGIC"
    using assms(2) Some magic_in_range by (simp_all add: le_val_bytes)
  consider "n < 8" | "8 \<le> n" "n < 16" | "16 \<le> n" by linarith
  then show ?thesis
  proof cases
    case 3
    then have "take n (trailer_bytes t)
      = le_bytes 8 MANIFEST_MAGIC @ le_bytes 8 (length b) @ take (n - 16) b"
      by (simp add: trailer_bytes_def Some)
    moreover have "n - 16 < length b" using assms(1) 3 by (simp add: trailer_bytes_def Some)
    ultimately show ?thesis by (subst read_manifest_loop.simps) (simp add: Let_def v)
  next
    case 2
    then have "take n (trailer_bytes t)
      = le_bytes 8 MANIFEST_MAGIC @ take (n - 8) (le_bytes 8 (length b))"
      by (simp add: trailer_bytes_def Some)
    then show ?thesis using 2 by (subst read_manifest_loop.simps) (auto simp: Let_def v)
  qed (subst read_manifest_loop.simps, auto simp: trailer_bytes_def Some)
qed (use assms(1) in \<open>simp add: trailer_bytes_def\<close>)

lemma manifest_loop_prefix:
  assumes "list_all (wf_rec ps) recs" "\<And>mb. t = Some mb \<Longrightarrow> length mb < U64_SIZE"
    and "length (trailer_bytes t) \<le> file_len \<or> n < length (concat (map rec_bytes recs) @ trailer_bytes t)"
  shows "read_manifest_loop ps file_len (take n (concat (map rec_bytes recs) @ trailer_bytes t)) = Inr (Some mb)
    \<longleftrightarrow> t = Some mb \<and> length (concat (map rec_bytes recs) @ trailer_bytes t) \<le> n"
  using assms(1,3)
proof (induction recs arbitrary: n)
  case Nil
  show ?case
  proof (cases "n < length (trailer_bytes t)")
    case True
    then show ?thesis using manifest_loop_torn_trailer assms(2) by simp
  next
    case False
    then have len: "length (trailer_bytes t) \<le> file_len" using Nil by simp
    show ?thesis
    proof (cases t)
      case None
      then show ?thesis by (subst read_manifest_loop.simps) (simp add: trailer_bytes_def)
    next
      case (Some b)
      then have "read_manifest_loop ps file_len (trailer_bytes t) = Inr (Some b)"
        using len assms(2) by (simp only: Some) (intro manifest_loop_trailer, simp_all add: trailer_bytes_def)
      then show ?thesis using False Some by auto
    qed
  qed
next
  case (Cons r recs)
  let ?tail = "concat (map rec_bytes recs) @ trailer_bytes t"
  have wf: "wf_rec ps r" and len: "length (rec_bytes r) = 8 + ps"
    using Cons.prems by (simp_all add: length_rec_bytes)
  have num: "le_val (le_bytes 8 (fst r)) = fst r" using wf by (intro le_val_bytes) (simp add: wf_rec_def)
  have all: "concat (map rec_bytes (r # recs)) @ trailer_bytes t = rec_bytes r @ ?tail" by simp
  show ?case
  proof (cases "8 + ps \<le> n")
    case True
    then have pre: "take n (rec_bytes r @ ?tail) = rec_bytes r @ take (n - (8 + ps)) ?tail"
      by (simp add: len)
    have step: "read_manifest_loop ps file_len (rec_bytes r @ xs) = read_manifest_loop ps file_len xs" for xs
      using wf by (subst read_manifest_loop.simps) (simp add: rec_bytes_def wf_rec_def Let_def num)
    have "length (rec_bytes r @ ?tail) \<le> n \<longleftrightarrow> length ?tail \<le> n - (8 + ps)"
      using True len by auto
    moreover have "length (trailer_bytes t) \<le> file_len \<or> n - (8 + ps) < length ?tail"
      using Cons.prems(2) True len by auto
    ultimately show ?thesis using Cons.prems(1) by (simp only: all pre step list.pred_inject Cons.IH)
  next
    case False
    have "le_val (take 8 (take n (rec_bytes r @ ?tail))) \<noteq> MANIFEST_MAGIC" if "8 \<le> n"
      using that wf num by (simp add: rec_bytes_def min_def wf_rec_def)
    then have "read_manifest_loop ps file_len (take n (rec_bytes r @ ?tail)) \<noteq> Inr (Some mb)"
      using False len by (subst read_manifest_loop.simps) (auto simp: Let_def)
    moreover have "\<not> length (rec_bytes r @ ?tail) \<le> n" using False len by simp
    ultimately show ?thesis by (simp only: all) simp
  qed
qed

text \<open>
  C13: the manifest embedded in a staging log is returned exactly when the whole log is on disk: a
  complete log with a trailer gives back the bytes that were appended, and no truncation of a log
  makes the reader return any manifest, whatever the page data holds.
\<close>

theorem staging_manifest_iff_complete:
  assumes "is_valid_page_size ps" "list_all (wf_rec ps) recs" "\<And>mb. t = Some mb \<Longrightarrow> length mb < U64_SIZE"
  shows "read_staging_manifest (take n (sw_content (write_log dir v ps recs t))) any = Inr (Some mb)
    \<longleftrightarrow> t = Some mb \<and> length (sw_content (write_log dir v ps recs t)) \<le> n"
proof -
  let ?body = "concat (map rec_bytes recs) @ trailer_bytes t"
  have ps: "le_val (le_bytes 4 ps) = ps"
    using valid_page_size_bounds [OF assms(1)] by (intro le_val_bytes) simp
  show ?thesis
  proof (cases "n < 4")
    case True
    then show ?thesis by (simp add: read_staging_manifest_def write_log_content)
  next
    case False
    then have pre: "take n (le_bytes 4 ps @ ?body) = le_bytes 4 ps @ take (n - 4) ?body" by simp
    have hdr: "read_staging_manifest (le_bytes 4 ps @ xs) any = read_manifest_loop ps (4 + length xs) xs" for xs
      using assms(1) ps by (simp add: read_staging_manifest_def Let_def)
    have "read_staging_manifest (le_bytes 4 ps @ take (n - 4) ?body) any
      = read_manifest_loop ps (4 + min (length ?body) (n - 4)) (take (n - 4) ?body)"
      by (simp only: hdr length_take)
    moreover have "length (trailer_bytes t) \<le> 4 + min (length ?body) (n - 4) \<or> n - 4 < length ?body"
      by auto
    ultimately show ?thesis
      using manifest_loop_prefix [OF assms(2,3), of t "4 + min (length ?body) (n - 4)" "n - 4" mb] False
      by (simp only: write_log_content pre) auto
  qed
qed

theorem staging_manifest_iff_complete_witness:
  "read_staging_manifest (take 600 (sw_content (write_log ''d'' 1 512 [(7, zeros 512)] (Some [1, 2, 3])))) 0
     = Inr (Some [1, 2, 3]) \<and>
   read_staging_manifest (take 542 (sw_content (write_log ''d'' 1 512 [(7, zeros 512)] (Some [1, 2, 3])))) 0
     \<noteq> Inr (Some [1, 2, 3])"
proof -
  note ps = valid_page_size_512
  have wf: "list_all (wf_rec 512) [(7, zeros 512)]" by (simp add: wf_rec_def MANIFEST_MAGIC_def)
  have len: "length (sw_content (write_log ''d'' 1 512 [(7, zeros 512)] (Some [1, 2, 3]))) = 543"
    by (simp add: write_log_content rec_bytes_def trailer_bytes_def)
  have t: "length mb < U64_SIZE" if "Some [1, 2, 3] = Some mb" for mb :: bytes using that by auto
  show ?thesis by (simp only: staging_manifest_iff_complete [OF ps wf t] len) simp
qed

subsection \<open>Recovery of a writer's log\<close>

lemma parse_u64_nat_str: "v < U64_SIZE \<Longrightarrow> parse_u64 (nat_str v) = Some v"
proof -
  assume v: "v < U64_SIZE"
  have d: "list_all is_digit (nat_str v)" by (simp add: list_all_iff nat_str_digits)
  moreover have ne: "nat_str v \<noteq> []" by (simp add: nat_str.simps [of v])
  moreover have "\<not> is_digit CHR ''+''" by (simp add: is_digit_def)
  then have "(case nat_str v of c # cs \<Rightarrow> if c = CHR ''+'' then cs else nat_str v | [] \<Rightarrow> []) = nat_str v"
    using d ne by (cases "nat_str v") auto
  ultimately show ?thesis using v by (simp add: parse_u64_def Let_def str_val_nat_str)
qed

lemma parse_log_name_nat_str: "v < U64_SIZE \<Longrightarrow> parse_log_name (nat_str v @ ''.log'') = Some v"
proof -
  assume v: "v < U64_SIZE"
  have "nat_str v \<noteq> []" by (simp add: nat_str.simps [of v])
  then show ?thesis using parse_u64_nat_str [OF v] by (simp add: parse_log_name_def Let_def)
qed

lemma write_log_path: "sw_path (write_log dir v ps recs t) = dir @ ''/'' @ nat_str v @ ''.log''"
proof -
  have "sw_path (fold (\<lambda>r w. append_page w (fst r) (snd r)) recs w) = sw_path w" for w
    by (induction recs arbitrary: w) (auto simp: append_page_def)
  then show ?thesis
    by (cases t) (simp_all add: write_log_def Let_def open_writer_def append_manifest_def)
qed

text \<open>
  C14: recovery finds the log of every writer whose header reached the disk, under its version, path
  and page size, wherever the log was cut afterwards, and hands the logs over oldest version first.
\<close>

theorem recovery_finds_log:
  assumes "is_valid_page_size ps" "v < U64_SIZE" "4 \<le> n"
    and "(nat_str v @ ''.log'', take n (sw_content (write_log dir v ps recs t))) \<in> set es"
  shows "\<lparr>pf_staging_path = sw_path (write_log dir v ps recs t), pf_version = v, pf_page_size = ps\<rparr>
      \<in> set (fst (recover_staging_logs dir (Some es) any))
    \<and> sorted (map pf_version (fst (recover_staging_logs dir (Some es) any)))"
proof -
  let ?c = "take n (sw_content (write_log dir v ps recs t))"
  have c: "?c = le_bytes 4 ps @ take (n - 4) (concat (map rec_bytes recs) @ trailer_bytes t)"
    using assms(3) by (simp add: write_log_content)
  have "header_page_size (le_bytes 4 ps @ xs) any = ps" for xs
  proof -
    have "le_val (le_bytes 4 ps) = ps"
      using valid_page_size_bounds [OF assms(1)] by (intro le_val_bytes) simp
    then show ?thesis using assms(1) by (simp add: header_page_size_def is_valid_page_size_def)
  qed
  then have "header_page_size ?c any = ps" by (simp only: c)
  moreover have "length ?c \<noteq> 0" using assms(3) by (simp only: c) simp
  then have "?c \<noteq> []" by auto
  ultimately have "recover_entry dir any (nat_str v @ ''.log'', ?c) =
    Some \<lparr>pf_staging_path = sw_path (write_log dir v ps recs t), pf_version = v, pf_page_size = ps\<rparr>"
    using parse_log_name_nat_str [OF assms(2)] by (simp add: recover_entry_def write_log_path)
  then show ?thesis
    using assms(4) by (force simp: recover_staging_logs_def map_filter_def)
qed

theorem recovery_finds_log_witness:
  "\<lparr>pf_staging_path = sw_path (write_log ''d'' 12 512 [(7, zeros 512)] None), pf_version = 12,
     pf_page_size = 512\<rparr>
   \<in> set (fst (recover_staging_logs ''d''
       (Some [(nat_str 12 @ ''.log'', take 100 (sw_content (write_log ''d'' 12 512 [(7, zeros 512)] None))),
              (''x.log'', [])]) 4096))"
proof -
  note ps = valid_page_size_512
  show ?thesis
    using recovery_finds_log [OF ps, of 12 100 "''d''" "[(7, zeros 512)]" None
      "[(nat_str 12 @ ''.log'', take 100 (sw_content (write_log ''d'' 12 512 [(7, zeros 512)] None))),
        (''x.log'', [])]" 4096] by simp
qed

end
