(* ===== verification/Manifest.thy ===== *)
theory Manifest
  imports Staging
begin

text \<open>
  The manifest (\<open>src/src/tiered/manifest.rs\<close>, the types of
  \<open>src/src/tiered/config.rs\<close> it is built from, and the page arithmetic of
  \<open>src/src/tiered/mod.rs\<close>): which group and which position inside the group a page has,
  under both grouping strategies, the checks a decoded manifest passes, and the reverse indexes
  built on load. The serialisation itself (msgpack through \<open>rmp_serde\<close>) is an argument.
\<close>

subsection \<open>Data\<close>

datatype grouping_strategy = Positional | BTreeAware

datatype group_state = GroupNone | Fetching | Present

record page_loc =
  pl_group_id :: nat
  pl_index :: nat

record btree_manifest_entry =
  be_name :: string
  be_obj_type :: string
  be_group_ids :: "nat list"
  be_pages :: "nat list"

record frame_entry =
  fe_offset :: nat
  fe_len :: nat

record subframe_override =
  so_key :: string
  so_entry :: frame_entry

record replay_cursor =
  rc_last_applied_seq :: nat
  rc_base_object_checksum :: bytes
  rc_epoch :: nat

record manifest =
  version :: nat
  change_counter :: nat
  page_count :: nat
  page_size :: nat
  pages_per_group :: nat
  page_group_keys :: "string list"
  interior_chunk_keys :: "nat \<rightharpoonup> string"
  index_chunk_keys :: "nat \<rightharpoonup> string"
  frame_tables :: "frame_entry list list"
  sub_pages_per_frame :: nat
  subframe_overrides :: "(nat \<rightharpoonup> subframe_override) list"
  strategy :: grouping_strategy
  group_pages :: "nat list list"
  btrees :: "nat \<rightharpoonup> btree_manifest_entry"
  page_index :: "nat \<rightharpoonup> page_loc"
  btree_groups :: "nat \<rightharpoonup> nat list"
  page_to_tree_name :: "nat \<rightharpoonup> string"
  tree_name_to_groups :: "string \<rightharpoonup> nat list"
  tree_name_to_root_page :: "string \<rightharpoonup> nat"
  group_to_tree_name :: "nat \<rightharpoonup> string"
  db_header :: "bytes option"
  discontinuity_stamp :: nat
  cursor :: replay_cursor
  writer_id :: string

definition default_strategy :: grouping_strategy where
  "default_strategy = Positional"

definition DEFAULT_PAGES_PER_GROUP :: nat where
  "DEFAULT_PAGES_PER_GROUP = 256"

definition DEFAULT_SUB_PAGES_PER_FRAME :: nat where
  "DEFAULT_SUB_PAGES_PER_FRAME = 4"

definition MAX_MANIFEST_BYTES :: nat where
  "MAX_MANIFEST_BYTES = 256 * 1024 * 1024"

definition default_cursor :: replay_cursor where
  "default_cursor = \<lparr>rc_last_applied_seq = 0, rc_base_object_checksum = [], rc_epoch = 0\<rparr>"

definition empty_manifest :: manifest where
  "empty_manifest =
     \<lparr>version = 0, change_counter = 0, page_count = 0, page_size = 0, pages_per_group = 0,
      page_group_keys = [], interior_chunk_keys = Map.empty, index_chunk_keys = Map.empty,
      frame_tables = [], sub_pages_per_frame = 0, subframe_overrides = [],
      strategy = Positional, group_pages = [], btrees = Map.empty, page_index = Map.empty,
      btree_groups = Map.empty, page_to_tree_name = Map.empty, tree_name_to_groups = Map.empty,
      tree_name_to_root_page = Map.empty, group_to_tree_name = Map.empty, db_header = None,
      discontinuity_stamp = 0, cursor = default_cursor, writer_id = []\<rparr>"

subsection \<open>Page arithmetic\<close>

definition group_id :: "nat \<Rightarrow> nat \<Rightarrow> nat" where
  "group_id page_num ppg = page_num div ppg"

definition local_idx_in_group :: "nat \<Rightarrow> nat \<Rightarrow> nat" where
  "local_idx_in_group page_num ppg = (page_num mod ppg) mod U32_SIZE"

definition group_start_page :: "nat \<Rightarrow> nat \<Rightarrow> nat" where
  "group_start_page gid ppg = (gid * ppg) mod U64_SIZE"

definition bundle_chunk_range :: "nat \<Rightarrow> nat" where
  "bundle_chunk_range ps = (32 * 1024 * 1024) div ps"

definition total_groups_for :: "nat \<Rightarrow> nat \<Rightarrow> nat" where
  "total_groups_for pc ppg = (if ppg = 0 \<or> pc = 0 then 0 else div_ceil pc ppg)"

definition total_groups :: "manifest \<Rightarrow> nat" where
  "total_groups m =
     (if group_pages m \<noteq> [] then length (group_pages m)
      else total_groups_for (page_count m) (pages_per_group m))"

definition page_location :: "manifest \<Rightarrow> nat \<Rightarrow> page_loc option" where
  "page_location m page_num =
     (case strategy m of
        Positional \<Rightarrow>
          if pages_per_group m = 0 \<or> page_count m \<le> page_num then None
          else Some \<lparr>pl_group_id = page_num div pages_per_group m,
                     pl_index = (page_num mod pages_per_group m) mod U32_SIZE\<rparr>
      | BTreeAware \<Rightarrow> page_index m page_num)"

text \<open>The release build wraps \<open>gid * ppg\<close> and \<open>start + ppg\<close>.\<close>

definition group_page_nums :: "manifest \<Rightarrow> nat \<Rightarrow> nat list" where
  "group_page_nums m gid =
     (case strategy m of
        Positional \<Rightarrow>
          let ppg = pages_per_group m;
              start = (gid * ppg) mod U64_SIZE;
              stop = min ((start + ppg) mod U64_SIZE) (page_count m)
          in [start..<stop]
      | BTreeAware \<Rightarrow> (case get (group_pages m) gid of Some pages \<Rightarrow> pages | None \<Rightarrow> []))"

definition group_size :: "manifest \<Rightarrow> nat \<Rightarrow> nat" where
  "group_size m gid =
     (case strategy m of
        Positional \<Rightarrow>
          let ppg = pages_per_group m; start = (gid * ppg) mod U64_SIZE
          in min ppg (page_count m - start)
      | BTreeAware \<Rightarrow> (case get (group_pages m) gid of Some pages \<Rightarrow> length pages | None \<Rightarrow> 0))"

subsection \<open>Reverse indexes\<close>

definition location_entries :: "nat list list \<Rightarrow> (nat \<times> page_loc) list" where
  "location_entries gps =
     concat (map (\<lambda>(gid, pages). map (\<lambda>(idx, page_num).
        (page_num, \<lparr>pl_group_id = gid, pl_index = idx mod U32_SIZE\<rparr>)) (List.enumerate 0 pages))
       (List.enumerate 0 gps))"

definition tree_name_entries :: "nat list list \<Rightarrow> btree_manifest_entry \<Rightarrow> (nat \<times> string) list" where
  "tree_name_entries gps e =
     (if be_pages e = []
      then concat (map (\<lambda>gid. case get gps gid of
             Some pages \<Rightarrow> map (\<lambda>p. (p, be_name e)) pages | None \<Rightarrow> []) (be_group_ids e))
      else map (\<lambda>p. (p, be_name e)) (be_pages e))"

definition index_btree :: "manifest \<Rightarrow> nat \<Rightarrow> manifest" where
  "index_btree m root =
     (case btrees m root of None \<Rightarrow> m
      | Some e \<Rightarrow> m\<lparr>
          btree_groups := insert_all (map (\<lambda>gid. (gid, be_group_ids e)) (be_group_ids e)) (btree_groups m),
          group_to_tree_name := insert_all (map (\<lambda>gid. (gid, be_name e)) (be_group_ids e)) (group_to_tree_name m),
          page_to_tree_name := insert_all (tree_name_entries (group_pages m) e) (page_to_tree_name m),
          tree_name_to_groups := (tree_name_to_groups m)(be_name e \<mapsto> be_group_ids e),
          tree_name_to_root_page := (tree_name_to_root_page m)(be_name e \<mapsto> root)\<rparr>)"

definition clear_indexes :: "manifest \<Rightarrow> manifest" where
  "clear_indexes m = m\<lparr>page_index := Map.empty, btree_groups := Map.empty,
     page_to_tree_name := Map.empty, tree_name_to_groups := Map.empty,
     tree_name_to_root_page := Map.empty, group_to_tree_name := Map.empty\<rparr>"

definition detect_strategy :: "manifest \<Rightarrow> manifest" where
  "detect_strategy m =
     (if group_pages m \<noteq> [] \<and> strategy m = Positional then m\<lparr>strategy := BTreeAware\<rparr> else m)"

definition build_page_index :: "(nat set \<Rightarrow> nat list) \<Rightarrow> manifest \<Rightarrow> manifest" where
  "build_page_index iter m =
     (let m = detect_strategy (clear_indexes m) in
      if strategy m = Positional then m
      else let m = m\<lparr>page_index := insert_all (location_entries (group_pages m)) (page_index m)\<rparr>
           in fold (\<lambda>root m. index_btree m root) (iter (dom (btrees m))) m)"

definition prefetch_siblings :: "manifest \<Rightarrow> nat \<Rightarrow> nat list" where
  "prefetch_siblings m gid = (case btree_groups m gid of Some gs \<Rightarrow> gs | None \<Rightarrow> [])"

definition normalize_overrides :: "manifest \<Rightarrow> manifest" where
  "normalize_overrides m = m\<lparr>subframe_overrides := subframe_overrides m @
     replicate (length (page_group_keys m) - length (subframe_overrides m)) Map.empty\<rparr>"

definition detect_and_normalize_strategy :: "(nat set \<Rightarrow> nat list) \<Rightarrow> manifest \<Rightarrow> manifest" where
  "detect_and_normalize_strategy iter m =
     build_page_index iter (normalize_overrides (detect_strategy m))"

subsection \<open>Validation and decoding\<close>

definition validate_field_ranges :: "manifest \<Rightarrow> unit io_result" where
  "validate_field_ranges m =
     (if page_size m \<noteq> 0 \<and> \<not> is_valid_page_size (page_size m)
        then Inl (Io InvalidData ''invalid manifest page_size'')
      else if 16384 < pages_per_group m
        then Inl (Io InvalidData ''pages_per_group exceeds 16384'')
      else if (U64_SIZE - 1) div 65536 < page_count m
        then Inl (Io InvalidData ''page_count exceeds allowed maximum'')
      else if length (page_group_keys m) < length (frame_tables m)
        then Inl (Io InvalidData ''frame_tables length exceeds page_group_keys length'')
      else if length (page_group_keys m) < length (subframe_overrides m)
        then Inl (Io InvalidData ''subframe_overrides length exceeds page_group_keys length'')
      else if length (page_group_keys m) < length (group_pages m)
        then Inl (Io InvalidData ''group_pages length exceeds page_group_keys length'')
      else Inr ())"

definition decode_manifest_bytes :: "(bytes \<Rightarrow> manifest option) \<Rightarrow> bytes \<Rightarrow> manifest io_result" where
  "decode_manifest_bytes from_slice data =
     (if MAX_MANIFEST_BYTES < length data then Inl (Io InvalidData ''manifest payload too large'')
      else case from_slice data of
        None \<Rightarrow> Inl (Io InvalidData ''deserialize manifest'')
      | Some m \<Rightarrow> (case validate_field_ranges m of Inl e \<Rightarrow> Inl e | Inr _ \<Rightarrow> Inr m))"

text \<open>The storage backend's answer (an error, no object, or the object's bytes) is an argument.\<close>

definition get_manifest ::
  "(nat set \<Rightarrow> nat list) \<Rightarrow> (bytes \<Rightarrow> manifest option) \<Rightarrow> bytes option io_result \<Rightarrow> manifest option io_result" where
  "get_manifest iter from_slice answer =
     (case answer of
        Inl e \<Rightarrow> Inl (Io Other ''fetch manifest'')
      | Inr None \<Rightarrow> Inr None
      | Inr (Some data) \<Rightarrow>
          (case decode_manifest_bytes from_slice data of
             Inl e \<Rightarrow> Inl e
           | Inr m \<Rightarrow> Inr (Some (build_page_index iter m))))"

definition read_file_change_counter :: "bytes \<Rightarrow> nat" where
  "read_file_change_counter page0 = (if length page0 < 28 then 0 else be_val (bslice 24 4 page0))"

definition validate_replay_cursor_page0 ::
  "nat \<Rightarrow> nat \<Rightarrow> bytes \<Rightarrow> bytes option \<Rightarrow> unit io_result" where
  "validate_replay_cursor_page0 cache_cc manifest_cc cache_page0 manifest_page0 =
     (if cache_cc = 0 \<and> manifest_cc = 0
        then Inl (Io InvalidData ''file change counter must be > 0 at checkpoint/flush time'')
      else if manifest_cc \<le> cache_cc then Inr ()
      else case manifest_page0 of None \<Rightarrow> Inr ()
      | Some mp0 \<Rightarrow>
          let compare_len = min (min 100 (length cache_page0)) (length mp0) in
          if compare_len < 100 then Inr ()
          else if take compare_len cache_page0 \<noteq> take compare_len mp0
            then Inl (Io InvalidData ''local cache page 0 does not match manifest replay base'')
          else Inr ())"

text \<open>The cache's answer to reading page 0 into a page-sized buffer is an argument.\<close>

definition resolve_manifest_replay_cursor :: "bytes io_result \<Rightarrow> manifest \<Rightarrow> nat io_result" where
  "resolve_manifest_replay_cursor read_page0 m =
     (case read_page0 of Inl e \<Rightarrow> Inl e
      | Inr page0 \<Rightarrow>
          let cache_cc = read_file_change_counter page0 in
          (case validate_replay_cursor_page0 cache_cc (change_counter m) page0 (db_header m) of
             Inl e \<Rightarrow> Inl e
           | Inr _ \<Rightarrow> Inr (max cache_cc (change_counter m))))"

text \<open>\<open>u16\<close> arithmetic of the release build wraps; \<open>hdr_offset as u16\<close> truncates.\<close>

definition is_valid_btree_page :: "bytes \<Rightarrow> nat \<Rightarrow> bool" where
  "is_valid_btree_page buf hdr_offset =
     (if length buf < hdr_offset + 8 then False
      else let cell_count = be_val (bslice (hdr_offset + 3) 2 buf);
               content_area = be_val (bslice (hdr_offset + 5) 2 buf);
               frag_bytes = unat (buf ! (hdr_offset + 7)) in
        if cell_count = 0 \<or> 10000 < cell_count then False
        else let min_content_offset = (hdr_offset mod U16_SIZE + 8 + 2 * cell_count) mod U16_SIZE in
          if content_area \<noteq> 0 \<and> (content_area < min_content_offset \<or> length buf < content_area) then False
          else frag_bytes \<le> 128)"

subsection \<open>Dirty frames\<close>

text \<open>Rust's \<open>iter().position(|y| y == x)\<close>.\<close>

fun position :: "'a list \<Rightarrow> 'a \<Rightarrow> nat option" where
  "position [] x = None"
| "position (y # ys) x = (if y = x then Some 0 else map_option Suc (position ys x))"

text \<open>The hash set of frame indices is drained and sorted: the order of draining is lost.\<close>

definition dirty_frames_for_group :: "nat list \<Rightarrow> nat list \<Rightarrow> frame_entry list \<Rightarrow> nat \<Rightarrow> nat list" where
  "dirty_frames_for_group dirty_page_nums pages frame_table spf =
     (if spf = 0 \<or> frame_table = [] then []
      else sorted_list_of_set (set (List.map_filter
        (\<lambda>p. map_option (\<lambda>pos. pos div spf) (position pages p)) dirty_page_nums)))"

subsection \<open>The page map\<close>

lemma set_location_entries:
  "(p, l) \<in> set (location_entries gps) \<longleftrightarrow>
     (\<exists>g i. g < length gps \<and> i < length (gps ! g) \<and> gps ! g ! i = p
        \<and> l = \<lparr>pl_group_id = g, pl_index = i mod U32_SIZE\<rparr>)"
  by (force simp: location_entries_def in_set_enumerate_eq)

lemma insert_location_entries:
  assumes "distinct (concat gps)" "\<And>pages. pages \<in> set gps \<Longrightarrow> length pages \<le> U32_SIZE"
  shows "insert_all (location_entries gps) Map.empty p = Some \<lparr>pl_group_id = g, pl_index = i\<rparr>
    \<longleftrightarrow> g < length gps \<and> i < length (gps ! g) \<and> gps ! g ! i = p"
proof -
  have small: "j mod U32_SIZE = j" if "k < length gps" "j < length (gps ! k)" for k j
  proof -
    have "length (gps ! k) \<le> U32_SIZE" using that(1) assms(2) by (simp del: power_Suc)
    then show ?thesis using that(2) by (intro mod_less) linarith
  qed
  have "v = v'" if "(q, v) \<in> set (location_entries gps)" "(q, v') \<in> set (location_entries gps)" for q v v'
    using that distinct_concat_nth [OF assms(1)] unfolding set_location_entries by metis
  then have "insert_all (location_entries gps) Map.empty p = Some l \<longleftrightarrow> (p, l) \<in> set (location_entries gps)" for l
    by (subst insert_all_functional) auto
  then show ?thesis using small by (auto simp: set_location_entries) (metis small)
qed

lemma index_btree_frame [simp]:
  "page_index (index_btree m r) = page_index m" "group_pages (index_btree m r) = group_pages m"
  "strategy (index_btree m r) = strategy m" "btrees (index_btree m r) = btrees m"
  "page_count (index_btree m r) = page_count m" "pages_per_group (index_btree m r) = pages_per_group m"
  "page_group_keys (index_btree m r) = page_group_keys m"
  "frame_tables (index_btree m r) = frame_tables m"
  "subframe_overrides (index_btree m r) = subframe_overrides m"
  "page_size (index_btree m r) = page_size m" "sub_pages_per_frame (index_btree m r) = sub_pages_per_frame m"
  "version (index_btree m r) = version m"
  by (simp_all add: index_btree_def split: option.splits)

lemma fold_index_btree_frame [simp]:
  "page_index (fold (\<lambda>r m. index_btree m r) rs m) = page_index m"
  "group_pages (fold (\<lambda>r m. index_btree m r) rs m) = group_pages m"
  "strategy (fold (\<lambda>r m. index_btree m r) rs m) = strategy m"
  "btrees (fold (\<lambda>r m. index_btree m r) rs m) = btrees m"
  "page_count (fold (\<lambda>r m. index_btree m r) rs m) = page_count m"
  "pages_per_group (fold (\<lambda>r m. index_btree m r) rs m) = pages_per_group m"
  "page_group_keys (fold (\<lambda>r m. index_btree m r) rs m) = page_group_keys m"
  "frame_tables (fold (\<lambda>r m. index_btree m r) rs m) = frame_tables m"
  "subframe_overrides (fold (\<lambda>r m. index_btree m r) rs m) = subframe_overrides m"
  "page_size (fold (\<lambda>r m. index_btree m r) rs m) = page_size m"
  "sub_pages_per_frame (fold (\<lambda>r m. index_btree m r) rs m) = sub_pages_per_frame m"
  "version (fold (\<lambda>r m. index_btree m r) rs m) = version m"
  by (induction rs arbitrary: m) simp_all

lemma detect_clear_frame [simp]:
  "group_pages (detect_strategy m) = group_pages m" "btrees (detect_strategy m) = btrees m"
  "page_count (detect_strategy m) = page_count m" "pages_per_group (detect_strategy m) = pages_per_group m"
  "page_group_keys (detect_strategy m) = page_group_keys m"
  "page_index (detect_strategy m) = page_index m" "frame_tables (detect_strategy m) = frame_tables m"
  "subframe_overrides (detect_strategy m) = subframe_overrides m"
  "page_size (detect_strategy m) = page_size m" "page_size (clear_indexes m) = page_size m"
  "sub_pages_per_frame (detect_strategy m) = sub_pages_per_frame m" "sub_pages_per_frame (clear_indexes m) = sub_pages_per_frame m"
  "version (detect_strategy m) = version m" "version (clear_indexes m) = version m"
  "frame_tables (clear_indexes m) = frame_tables m"
  "subframe_overrides (clear_indexes m) = subframe_overrides m"
  "group_pages (clear_indexes m) = group_pages m" "btrees (clear_indexes m) = btrees m"
  "page_count (clear_indexes m) = page_count m" "pages_per_group (clear_indexes m) = pages_per_group m"
  "page_group_keys (clear_indexes m) = page_group_keys m" "strategy (clear_indexes m) = strategy m"
  "page_index (clear_indexes m) = Map.empty"
  "group_pages (normalize_overrides m) = group_pages m" "btrees (normalize_overrides m) = btrees m"
  "page_count (normalize_overrides m) = page_count m"
  "pages_per_group (normalize_overrides m) = pages_per_group m"
  "page_group_keys (normalize_overrides m) = page_group_keys m"
  "strategy (normalize_overrides m) = strategy m"
  by (simp_all add: detect_strategy_def clear_indexes_def normalize_overrides_def)

lemma strategy_detect [simp]:
  "strategy (detect_strategy m) = (if group_pages m = [] then strategy m else BTreeAware)"
  by (cases "strategy m") (simp_all add: detect_strategy_def)

lemma build_page_index_frame [simp]:
  "group_pages (build_page_index iter m) = group_pages m"
  "btrees (build_page_index iter m) = btrees m"
  "page_count (build_page_index iter m) = page_count m"
  "pages_per_group (build_page_index iter m) = pages_per_group m"
  "page_group_keys (build_page_index iter m) = page_group_keys m"
  "frame_tables (build_page_index iter m) = frame_tables m"
  "subframe_overrides (build_page_index iter m) = subframe_overrides m"
  "page_size (build_page_index iter m) = page_size m"
  "sub_pages_per_frame (build_page_index iter m) = sub_pages_per_frame m"
  "version (build_page_index iter m) = version m"
  "strategy (build_page_index iter m) = (if group_pages m = [] then strategy m else BTreeAware)"
  by (simp_all add: build_page_index_def Let_def)

lemma page_index_build:
  "page_index (build_page_index iter m) =
     (if group_pages m = [] \<and> strategy m = Positional then Map.empty
      else insert_all (location_entries (group_pages m)) Map.empty)"
  by (simp add: build_page_index_def Let_def)

subsection \<open>Both directions of the page map\<close>

lemma validated_bounds:
  assumes "validate_field_ranges m = Inr ()"
  shows "pages_per_group m \<le> 16384" "page_count m < 2 ^ 48" "length (group_pages m) \<le> length (page_group_keys m)"
  using assms by (auto simp: validate_field_ranges_def split: if_splits)

lemma group_start_no_wrap:
  assumes "validate_field_ranges m = Inr ()" "gid < total_groups_for (page_count m) (pages_per_group m)"
  shows "gid * pages_per_group m < page_count m" "gid * pages_per_group m + pages_per_group m < U64_SIZE"
proof -
  show *: "gid * pages_per_group m < page_count m"
    using assms(2) by (simp add: total_groups_for_def less_div_ceil_iff split: if_splits)
  then show "gid * pages_per_group m + pages_per_group m < U64_SIZE"
    using validated_bounds [OF assms(1)] by simp
qed

text \<open>What a manifest must satisfy for its page map to be read in both directions.\<close>

definition wf_grouping :: "manifest \<Rightarrow> bool" where
  "wf_grouping m \<longleftrightarrow> is_ok (validate_field_ranges m) \<and>
     (if group_pages m = [] \<and> strategy m = Positional then 0 < pages_per_group m
      else distinct (concat (group_pages m))
        \<and> list_all (\<lambda>pages. length pages \<le> U32_SIZE) (group_pages m))"

lemma group_page_nums_positional:
  assumes "is_ok (validate_field_ranges m)" "strategy m = Positional"
    and "gid < total_groups_for (page_count m) (pages_per_group m)"
  shows "group_page_nums m gid
      = [gid * pages_per_group m..<min (gid * pages_per_group m + pages_per_group m) (page_count m)]"
    and "group_size m gid = min (pages_per_group m) (page_count m - gid * pages_per_group m)"
  using group_start_no_wrap [of m gid] assms
  by (auto simp: group_page_nums_def group_size_def Let_def is_ok_iff)

lemma div_mod_in_block:
  fixes p g i b :: nat
  assumes "0 < b"
  shows "p div b = g \<and> p mod b = i \<longleftrightarrow> i < b \<and> p = g * b + i"
  using assms by (auto simp: div_mult_self_is_m)

text \<open>
  C28: the page map of a loaded manifest is read consistently in both directions, under either
  grouping strategy: a page is located at position \<open>i\<close> of group \<open>g\<close> exactly when
  \<open>g\<close> is one of the groups, \<open>i\<close> is below the group's size, and the group's page list
  holds the page at \<open>i\<close>. Inside the validated ranges no 64-bit product wraps.
\<close>

theorem page_location_iff_group_page:
  assumes "wf_grouping m"
  shows "page_location (detect_and_normalize_strategy iter m) p = Some \<lparr>pl_group_id = g, pl_index = i\<rparr> \<longleftrightarrow>
    g < total_groups (detect_and_normalize_strategy iter m)
    \<and> i < group_size (detect_and_normalize_strategy iter m) g
    \<and> group_page_nums (detect_and_normalize_strategy iter m) g ! i = p"
proof (cases "group_pages m = [] \<and> strategy m = Positional")
  case True
  let ?b = "pages_per_group m" and ?m = "detect_and_normalize_strategy iter m"
  have b: "0 < ?b" "?b \<le> 16384" and ok: "is_ok (validate_field_ranges m)"
    using assms True validated_bounds [of m] by (auto simp: wf_grouping_def is_ok_iff)
  have m: "strategy ?m = Positional" "page_count ?m = page_count m" "pages_per_group ?m = ?b"
    "group_pages ?m = []" "total_groups ?m = total_groups_for (page_count m) ?b"
    using True by (simp_all add: detect_and_normalize_strategy_def total_groups_def)
  have wrap: "(g * ?b) mod U64_SIZE = g * ?b" "(g * ?b + ?b) mod U64_SIZE = g * ?b + ?b"
    if "g < total_groups_for (page_count m) ?b"
    using group_start_no_wrap [of m g] ok that by (auto simp: is_ok_iff)
  have tg: "g < total_groups_for (page_count m) ?b \<longleftrightarrow> g * ?b < page_count m"
    using b by (auto simp: total_groups_for_def less_div_ceil_iff)
  have "page_location ?m p = Some \<lparr>pl_group_id = g, pl_index = i\<rparr>
    \<longleftrightarrow> p < page_count m \<and> i < ?b \<and> p = g * ?b + i"
  proof -
    have "p mod ?b < ?b" using b by simp
    then have "p mod ?b < U32_SIZE" using b(2) by simp
    then show ?thesis using b div_mod_in_block [of ?b p g i] by (auto simp: page_location_def m)
  qed
  also have "\<dots> \<longleftrightarrow> g * ?b < page_count m \<and> i < ?b \<and> i < page_count m - g * ?b \<and> g * ?b + i = p"
    by auto
  also have "\<dots> \<longleftrightarrow> g < total_groups ?m \<and> i < group_size ?m g \<and> group_page_nums ?m g ! i = p"
    using wrap by (auto simp: m tg group_size_def group_page_nums_def Let_def min_def)
  finally show ?thesis .
next
  case False
  let ?m = "detect_and_normalize_strategy iter m"
  have d: "distinct (concat (group_pages m))" "\<And>q. q \<in> set (group_pages m) \<Longrightarrow> length q \<le> U32_SIZE"
    using assms False by (auto simp: wf_grouping_def list_all_iff split: if_splits)
  have m: "strategy ?m = BTreeAware" "group_pages ?m = group_pages m"
    "page_index ?m = insert_all (location_entries (group_pages m)) Map.empty"
    using False by (cases "strategy m"; auto simp: detect_and_normalize_strategy_def page_index_build)+
  have "g < total_groups ?m" if "g < length (group_pages m)"
    using that by (auto simp: total_groups_def m)
  moreover have "group_size ?m g = (if g < length (group_pages m) then length (group_pages m ! g) else 0)"
    "group_page_nums ?m g = (if g < length (group_pages m) then group_pages m ! g else [])"
    by (auto simp: group_size_def group_page_nums_def m get_def)
  ultimately show ?thesis
    by (auto simp: page_location_def m insert_location_entries [OF d])
qed

theorem page_location_iff_group_page_witness:
  "page_location (detect_and_normalize_strategy sorted_list_of_set
       (empty_manifest\<lparr>page_group_keys := [''a'', ''b''], group_pages := [[0, 4], [2]], page_count := 5\<rparr>)) 4
     = Some \<lparr>pl_group_id = 0, pl_index = 1\<rparr>"
proof -
  let ?m = "empty_manifest\<lparr>page_group_keys := [''a'', ''b''], group_pages := [[0, 4], [2]], page_count := 5\<rparr>"
  have wf: "wf_grouping ?m" by (simp add: wf_grouping_def empty_manifest_def validate_field_ranges_def)
  show ?thesis
    unfolding page_location_iff_group_page [OF wf]
    by (simp add: detect_and_normalize_strategy_def total_groups_def group_size_def group_page_nums_def get_def)
qed

subsection \<open>Positional groups\<close>

lemma concat_blocks:
  "concat (map (\<lambda>g. [g * b..<min (g * b + b) n]) [0..<k]) = [0..<min (k * b) n]"
proof (induction k)
  case (Suc k)
  have "[0..<min (k * b) n] @ [k * b..<min (k * b + b) n] = [0..<min (k * b + b) n]"
  proof (cases "k * b \<le> n")
    case True
    then have "[0..<min (k * b + b) n] = [0..<k * b] @ [k * b..<min (k * b + b) n]"
      by (metis le_add1 min.bounded_iff upt_add_eq_append zero_le le_iff_add)
    then show ?thesis using True by (simp add: min_def)
  next
    case False
    then show ?thesis by simp
  qed
  then show ?case using Suc by (simp add: add.commute)
qed simp

text \<open>
  the groups of a positional manifest cut the database into consecutive blocks: listing the
  pages of all groups in order lists every page once, in order, and each group has exactly the
  size that \<open>group_size\<close> reports without building the list.
\<close>

lemma positional_groups_partition:
  assumes "wf_grouping m" "strategy m = Positional" "group_pages m = []"
  shows "concat (map (group_page_nums m) [0..<total_groups m]) = [0..<page_count m]
    \<and> list_all (\<lambda>g. group_size m g = length (group_page_nums m g)) [0..<total_groups m]"
proof -
  let ?b = "pages_per_group m" and ?n = "page_count m"
  have ok: "is_ok (validate_field_ranges m)" and b: "0 < ?b" using assms by (simp_all add: wf_grouping_def)
  have tg: "total_groups m = total_groups_for ?n ?b" using assms(3) by (simp add: total_groups_def)
  note pos = group_page_nums_positional [OF ok assms(2)]
  have "?n \<le> total_groups m * ?b"
    using less_div_ceil_iff [OF b, of "total_groups m" ?n] b by (auto simp: tg total_groups_for_def split: if_splits)
  moreover have "map (group_page_nums m) [0..<total_groups m]
    = map (\<lambda>g. [g * ?b..<min (g * ?b + ?b) ?n]) [0..<total_groups m]"
    by (rule map_cong) (simp_all add: pos tg)
  ultimately have "concat (map (group_page_nums m) [0..<total_groups m]) = [0..<?n]"
    by (simp only: concat_blocks min_absorb2)
  moreover have "list_all (\<lambda>g. group_size m g = length (group_page_nums m g)) [0..<total_groups m]"
    by (auto simp: list_all_iff pos tg min_def)
  ultimately show ?thesis by simp
qed

subsection \<open>Tree names\<close>

lemma page_to_tree_name_fold:
  "page_to_tree_name (fold (\<lambda>r m. index_btree m r) rs m)
   = insert_all (concat (map (\<lambda>r. case btrees m r of None \<Rightarrow> [] | Some e \<Rightarrow> tree_name_entries (group_pages m) e) rs))
       (page_to_tree_name m)"
proof (induction rs arbitrary: m)
  case (Cons r rs)
  have "page_to_tree_name (index_btree m r) = insert_all
    (case btrees m r of None \<Rightarrow> [] | Some e \<Rightarrow> tree_name_entries (group_pages m) e) (page_to_tree_name m)"
    by (simp add: index_btree_def split: option.splits)
  then show ?case by (simp add: Cons insert_all_append cong: option.case_cong)
qed simp

text \<open>
  C29: the page-to-tree index does not depend on the order in which the hash map of trees is
  walked: when every tree lists its pages and no page belongs to two trees, a page is attributed to
  a name exactly when a tree of that name lists it.
\<close>

theorem page_to_tree_name_exact:
  assumes "hash_iteration iter" "finite (dom (btrees m))" "strategy m = BTreeAware"
    and "\<forall>e \<in> ran (btrees m). be_pages e \<noteq> []"
    and "\<forall>e \<in> ran (btrees m). \<forall>e' \<in> ran (btrees m). set (be_pages e) \<inter> set (be_pages e') \<noteq> {} \<longrightarrow> be_name e = be_name e'"
  shows "page_to_tree_name (build_page_index iter m) p = Some n
    \<longleftrightarrow> (\<exists>root e. btrees m root = Some e \<and> p \<in> set (be_pages e) \<and> be_name e = n)"
proof -
  let ?kvs = "concat (map (\<lambda>r. case btrees m r of None \<Rightarrow> []
    | Some e \<Rightarrow> tree_name_entries (group_pages m) e) (iter (dom (btrees m))))"
  have iter: "set (iter (dom (btrees m))) = dom (btrees m)"
    using hash_iteration.set_iter [OF assms(1,2)] .
  have mem: "(q, s) \<in> set ?kvs \<longleftrightarrow> (\<exists>root e. btrees m root = Some e \<and> q \<in> set (be_pages e) \<and> be_name e = s)"
    for q s
  proof -
    have "tree_name_entries (group_pages m) e = map (\<lambda>p. (p, be_name e)) (be_pages e)"
      if "btrees m root = Some e" for root e
      using that assms(4) ranI [of "btrees m" root e] by (auto simp: tree_name_entries_def)
    then have "(q, s) \<in> set (case btrees m root of None \<Rightarrow> [] | Some e \<Rightarrow> tree_name_entries (group_pages m) e)
      \<longleftrightarrow> (\<exists>e. btrees m root = Some e \<and> q \<in> set (be_pages e) \<and> be_name e = s)" for root
      by (cases "btrees m root") auto
    then show ?thesis by (simp add: iter) blast
  qed
  have "v = v'" if "(q, v) \<in> set ?kvs" "(q, v') \<in> set ?kvs" for q v v'
    using that assms(5) unfolding mem by (metis IntI empty_iff ranI)
  then have "insert_all ?kvs Map.empty p = Some n \<longleftrightarrow> (p, n) \<in> set ?kvs"
    by (subst insert_all_functional) auto
  moreover have "page_to_tree_name (build_page_index iter m) = insert_all ?kvs Map.empty"
    using assms(3) by (simp add: build_page_index_def Let_def page_to_tree_name_fold cong: option.case_cong)
      (simp add: detect_strategy_def clear_indexes_def)
  ultimately show ?thesis by (simp only: mem)
qed

theorem page_to_tree_name_exact_witness:
  "page_to_tree_name (build_page_index sorted_list_of_set (empty_manifest\<lparr>strategy := BTreeAware,
     btrees := [1 \<mapsto> \<lparr>be_name = ''t'', be_obj_type = ''table'', be_group_ids = [0], be_pages = [1, 3]\<rparr>,
                2 \<mapsto> \<lparr>be_name = ''i'', be_obj_type = ''index'', be_group_ids = [0], be_pages = [2]\<rparr>]\<rparr>)) 3
   = Some ''t''"
proof -
  let ?m = "empty_manifest\<lparr>strategy := BTreeAware,
     btrees := [1 \<mapsto> \<lparr>be_name = ''t'', be_obj_type = ''table'', be_group_ids = [0], be_pages = [1, 3]\<rparr>,
                2 \<mapsto> \<lparr>be_name = ''i'', be_obj_type = ''index'', be_group_ids = [0], be_pages = [2]\<rparr>]\<rparr>"
  have h: "hash_iteration (sorted_list_of_set :: nat set \<Rightarrow> nat list)" by (rule sorted_iter.hash_iteration_axioms)
  have r: "ran (btrees ?m) \<subseteq>
    {\<lparr>be_name = ''t'', be_obj_type = ''table'', be_group_ids = [0], be_pages = [1, 3]\<rparr>,
     \<lparr>be_name = ''i'', be_obj_type = ''index'', be_group_ids = [0], be_pages = [2]\<rparr>}"
    by (auto simp: ran_def split: if_splits)
  have c: "\<forall>e \<in> ran (btrees ?m). be_pages e \<noteq> []"
    "\<forall>e \<in> ran (btrees ?m). \<forall>e' \<in> ran (btrees ?m). set (be_pages e) \<inter> set (be_pages e') \<noteq> {} \<longrightarrow> be_name e = be_name e'"
    using r by (fastforce dest: subsetD)+
  have f: "finite (dom (btrees ?m))" "strategy ?m = BTreeAware" by simp_all
  show ?thesis unfolding page_to_tree_name_exact [OF h f c] by (intro exI [of _ 1]) simp
qed

subsection \<open>Dirty frames, B-tree headers and the replay cursor\<close>

lemma position_Some_iff:
  "distinct xs \<Longrightarrow> position xs x = Some i \<longleftrightarrow> i < length xs \<and> xs ! i = x"
proof (induction xs arbitrary: i)
  case (Cons y xs)
  have IH: "position xs x = Some j \<longleftrightarrow> j < length xs \<and> xs ! j = x" for j
    using Cons.IH Cons.prems by simp
  show ?case
  proof (cases i)
    case 0
    then show ?thesis by simp
  next
    case (Suc j)
    have "xs ! j \<noteq> y" if "j < length xs" using that Cons.prems by auto
    then show ?thesis using Suc IH [of j] by auto
  qed
qed simp

lemma dirty_frames_set:
  assumes "distinct pages" "0 < spf" "frame_table \<noteq> []"
  shows "(f \<in> set (dirty_frames_for_group dirty pages frame_table spf)
      \<longleftrightarrow> (\<exists>i < length pages. pages ! i \<in> set dirty \<and> f = i div spf))
    \<and> sorted_wrt (<) (dirty_frames_for_group dirty pages frame_table spf)"
proof -
  have "set (List.map_filter (\<lambda>p. map_option (\<lambda>pos. pos div spf) (position pages p)) dirty)
    = {f. \<exists>i < length pages. pages ! i \<in> set dirty \<and> f = i div spf}"
    using position_Some_iff [OF assms(1)] by (auto simp: in_set_map_filter) blast
  then show ?thesis using assms by (simp add: dirty_frames_for_group_def)
qed

text \<open>
  The frames selected for re-upload are exactly those that hold a dirty page of the group,
  each once and in increasing order: no frame with a dirty page is left out, and none without.
\<close>

lemma dirty_frames_exact:
  assumes "distinct pages" "0 < spf" "frame_table \<noteq> []"
  shows "(f \<in> set (dirty_frames_for_group dirty pages frame_table spf)
      \<longleftrightarrow> (\<exists>i < length pages. pages ! i \<in> set dirty \<and> f = i div spf))
    \<and> sorted_wrt (<) (dirty_frames_for_group dirty pages frame_table spf)"
  using assms by (rule dirty_frames_set)

lemma unat_byte_less: "unat (b :: byte) < 256"
  using unsigned_less [of b] by simp

text \<open>
  The 16-bit arithmetic of the B-tree header test never wraps where the program calls it (the
  header starts at byte 0, or at byte 100 of the first page): the test accepts a page exactly when
  the cell count is between 1 and 10000, the content area is 0 or lies between the end of the cell
  pointer array and the end of the page, and at most 128 bytes are fragmented.
\<close>

lemma is_valid_btree_page_iff:
  assumes "h \<le> 100" "h + 8 \<le> length buf"
  shows "is_valid_btree_page buf h \<longleftrightarrow>
    (1 \<le> be_val (bslice (h + 3) 2 buf) \<and> be_val (bslice (h + 3) 2 buf) \<le> 10000
     \<and> (be_val (bslice (h + 5) 2 buf) = 0
        \<or> h + 8 + 2 * be_val (bslice (h + 3) 2 buf) \<le> be_val (bslice (h + 5) 2 buf)
          \<and> be_val (bslice (h + 5) 2 buf) \<le> length buf)
     \<and> unat (buf ! (h + 7)) \<le> 128)"
  using assms by (auto simp: is_valid_btree_page_def Let_def)

end
