(* ===== verification/Bitmap.thy ===== *)
theory Bitmap
  imports Manifest
begin

text \<open>
  The page bitmap (\<open>PageBitmap\<close> of \<open>src/src/tiered/cache_tracking.rs\<close>): one bit per
  page, packed in bytes. The interface \<open>page_set\<close> says what its clients rely on, a set of
  pages below a capacity; the bitmap's own operations are an instance of it. Each atomic
  \<open>fetch_or\<close>, \<open>fetch_and\<close> and \<open>store\<close> is one step; the temporary file and rename of
  \<open>persist\<close> leave the content \<open>to_bytes\<close> on disk. The end of the range of \<open>clear_range\<close> is not reduced
  modulo \<open>2 ^ 64\<close>: page numbers are far below.
\<close>

unbundle bit_operations_syntax

record page_bitmap =
  bits :: bytes
  bm_path :: string

definition new_with_bytes :: "string \<Rightarrow> bytes \<Rightarrow> page_bitmap" where
  "new_with_bytes path raw = \<lparr>bits = raw, bm_path = path\<rparr>"

definition new_with_state :: "string \<Rightarrow> bytes option \<Rightarrow> page_bitmap" where
  "new_with_state path raw =
     (case raw of Some raw \<Rightarrow> new_with_bytes path raw | None \<Rightarrow> new_with_bytes path [])"

definition is_present :: "page_bitmap \<Rightarrow> nat \<Rightarrow> bool" where
  "is_present b page =
     (let byte_idx = page div 8; bit_idx = page mod 8 in
      if length (bits b) \<le> byte_idx then False
      else (bits b ! byte_idx) AND push_bit bit_idx 1 \<noteq> 0)"

definition mark_present :: "page_bitmap \<Rightarrow> nat \<Rightarrow> page_bitmap" where
  "mark_present b page =
     (let byte_idx = page div 8; bit_idx = page mod 8 in
      if byte_idx < length (bits b)
      then b\<lparr>bits := (bits b)[byte_idx := (bits b ! byte_idx) OR push_bit bit_idx 1]\<rparr> else b)"

definition clear_page :: "page_bitmap \<Rightarrow> nat \<Rightarrow> page_bitmap" where
  "clear_page b page =
     (let byte_idx = page div 8; bit_idx = page mod 8 in
      if byte_idx < length (bits b)
      then b\<lparr>bits := (bits b)[byte_idx := (bits b ! byte_idx) AND NOT (push_bit bit_idx 1)]\<rparr> else b)"

definition clear_range :: "page_bitmap \<Rightarrow> nat \<Rightarrow> nat \<Rightarrow> page_bitmap" where
  "clear_range b start count = foldl clear_page b [start..<start + count]"

definition clear_all_bits :: "page_bitmap \<Rightarrow> page_bitmap" where
  "clear_all_bits b = b\<lparr>bits := map (\<lambda>_. 0) (bits b)\<rparr>"

definition bit_capacity :: "page_bitmap \<Rightarrow> nat" where
  "bit_capacity b = length (bits b) * 8"

definition clear_at_or_above :: "page_bitmap \<Rightarrow> nat \<Rightarrow> page_bitmap" where
  "clear_at_or_above b floor_page = foldl clear_page b [floor_page..<bit_capacity b]"

definition resize_with :: "page_bitmap \<Rightarrow> nat \<Rightarrow> page_bitmap" where
  "resize_with b needed =
     (if length (bits b) < needed then b\<lparr>bits := bits b @ zeros (needed - length (bits b))\<rparr> else b)"

definition resize_bitmap :: "page_bitmap \<Rightarrow> nat \<Rightarrow> page_bitmap" where
  "resize_bitmap b pages = resize_with b (div_ceil pages 8)"

definition ensure_capacity :: "page_bitmap \<Rightarrow> nat \<Rightarrow> page_bitmap" where
  "ensure_capacity b page = resize_with b (page div 8 + 1)"

definition to_bytes :: "page_bitmap \<Rightarrow> bytes" where
  "to_bytes b = bits b"

subsection \<open>The interface: a set of pages below a capacity\<close>

locale page_set =
  fixes present :: "'s \<Rightarrow> nat \<Rightarrow> bool"
    and capacity :: "'s \<Rightarrow> nat"
    and mark :: "'s \<Rightarrow> nat \<Rightarrow> 's"
    and unmark :: "'s \<Rightarrow> nat \<Rightarrow> 's"
  assumes present_below: "present s p \<Longrightarrow> p < capacity s"
    and present_mark: "present (mark s p) q \<longleftrightarrow> present s q \<or> q = p \<and> p < capacity s"
    and present_unmark: "present (unmark s p) q \<longleftrightarrow> present s q \<and> q \<noteq> p"
    and capacity_mark: "capacity (mark s p) = capacity s"
    and capacity_unmark: "capacity (unmark s p) = capacity s"
begin

lemma capacity_unmarks: "capacity (foldl unmark s ps) = capacity s"
  by (induction ps arbitrary: s) (simp_all add: capacity_unmark)

lemma present_unmarks: "present (foldl unmark s ps) q \<longleftrightarrow> present s q \<and> q \<notin> set ps"
  by (induction ps arbitrary: s) (auto simp: present_unmark)

lemma present_marks: "present (foldl mark s ps) q \<longleftrightarrow> present s q \<or> q \<in> set ps \<and> q < capacity s"
  by (induction ps arbitrary: s) (auto simp: present_mark capacity_mark)

lemma unmark_above: "present (foldl unmark s [n..<capacity s]) q \<longleftrightarrow> present s q \<and> q < n"
  using present_below [of s q] by (auto simp: present_unmarks)

end

lemma is_present_bit:
  "is_present b page \<longleftrightarrow> page div 8 < length (bits b) \<and> bit (bits b ! (page div 8)) (page mod 8)"
  by (auto simp: is_present_def Let_def bit_iff_and_push_bit_not_eq_0)

lemma same_bit: "(q :: nat) = p \<longleftrightarrow> q div 8 = p div 8 \<and> q mod 8 = p mod 8"
  by (metis div_mult_mod_eq)

lemma bit_push_one: "bit (push_bit m 1 :: byte) n \<longleftrightarrow> n = m \<and> n < 8"
  by (auto simp: bit_simps)

lemma bit_pow2: "bit (2 ^ m :: byte) n \<longleftrightarrow> n = m \<and> n < 8"
  using bit_push_one by (simp add: push_bit_of_1)

lemma less_capacity: "p < bit_capacity b \<longleftrightarrow> p div 8 < length (bits b)"
  by (simp add: bit_capacity_def div_less_iff_less_mult)

interpretation bitmap: page_set is_present bit_capacity mark_present clear_page
proof
  fix s :: page_bitmap and p q :: nat
  have m: "q mod 8 < 8" by simp
  show "is_present (mark_present s p) q \<longleftrightarrow> is_present s q \<or> q = p \<and> p < bit_capacity s"
    using m unfolding is_present_bit less_capacity mark_present_def same_bit [of q p]
    by (auto simp: Let_def nth_list_update bit_or_iff bit_push_one bit_pow2)
  show "is_present (clear_page s p) q \<longleftrightarrow> is_present s q \<and> q \<noteq> p"
    using m unfolding is_present_bit clear_page_def same_bit [of q p]
    by (auto simp: Let_def nth_list_update bit_and_iff bit_not_iff bit_push_one bit_pow2)
qed (auto simp: is_present_bit less_capacity [symmetric] bit_capacity_def mark_present_def clear_page_def Let_def)

subsection \<open>Refinement of page sets\<close>

definition pages_of :: "page_bitmap \<Rightarrow> nat set" where
  "pages_of b = {p. is_present b p}"

lemma pages_of_resize_with: "pages_of (resize_with b n) = pages_of b"
  by (auto simp: pages_of_def is_present_bit resize_with_def nth_append zeros_def)

lemma pages_of_clear_all: "pages_of (clear_all_bits b) = {}"
  by (auto simp: pages_of_def is_present_bit clear_all_bits_def)

text \<open>
  C35: the bitmap implements a set of pages: every operation on the packed bytes is the set
  operation its name says, growing never adds or loses a page, and truncation leaves exactly the
  pages below the floor.
\<close>

theorem bitmap_refines_set:
  "pages_of (mark_present b p) = pages_of b \<union> (if p < bit_capacity b then {p} else {})
   \<and> pages_of (clear_page b p) = pages_of b - {p}
   \<and> pages_of (clear_range b p n) = pages_of b - {p..<p + n}
   \<and> pages_of (clear_at_or_above b p) = pages_of b \<inter> {..<p}
   \<and> pages_of (clear_all_bits b) = {}
   \<and> pages_of (resize_bitmap b n) = pages_of b
   \<and> pages_of (mark_present (ensure_capacity b p) p) = insert p (pages_of b)
   \<and> pages_of (new_with_state path (Some (to_bytes b))) = pages_of b"
proof -
  have "p < bit_capacity (ensure_capacity b p)"
    by (auto simp: less_capacity ensure_capacity_def resize_with_def)
  moreover have "pages_of (ensure_capacity b p) = pages_of b"
    by (simp add: ensure_capacity_def pages_of_resize_with)
  ultimately have "pages_of (mark_present (ensure_capacity b p) p) = insert p (pages_of b)"
    unfolding pages_of_def bitmap.present_mark by auto
  moreover have "pages_of (new_with_state path (Some (to_bytes b))) = pages_of b"
    by (simp add: pages_of_def is_present_bit new_with_state_def new_with_bytes_def to_bytes_def)
  moreover have "pages_of (mark_present b p) = pages_of b \<union> (if p < bit_capacity b then {p} else {})"
    "pages_of (clear_page b p) = pages_of b - {p}" "pages_of (clear_range b p n) = pages_of b - {p..<p + n}"
    "pages_of (clear_at_or_above b p) = pages_of b \<inter> {..<p}"
    using bitmap.present_below [of b]
    by (auto simp: pages_of_def bitmap.present_mark bitmap.present_unmark bitmap.present_unmarks clear_range_def clear_at_or_above_def)
  ultimately show ?thesis
    by (simp add: pages_of_clear_all pages_of_resize_with resize_bitmap_def)
qed

lemma bitmap_eqI: "length (bits a) = length (bits b) \<Longrightarrow> bm_path a = bm_path b
    \<Longrightarrow> (\<And>p. is_present a p \<longleftrightarrow> is_present b p) \<Longrightarrow> a = (b :: page_bitmap)"
proof -
  assume l: "length (bits a) = length (bits b)" and pth: "bm_path a = bm_path b"
    and eq: "\<And>p. is_present a p \<longleftrightarrow> is_present b p"
  have "bits a ! i = bits b ! i" if "i < length (bits a)" for i
  proof (rule bit_word_eqI)
    fix n assume n: "n < LENGTH(8)"
    then have "(i * 8 + n) div 8 = i" "(i * 8 + n) mod 8 = n" by auto
    then show "bit (bits a ! i) n \<longleftrightarrow> bit (bits b ! i) n"
      using eq [of "i * 8 + n"] that l by (simp add: is_present_bit)
  qed
  then have "bits a = bits b" using l by (intro nth_equalityI) simp_all
  then show "a = b" using pth by (cases a; cases b) simp
qed

text \<open>
  Marks from several threads may be interleaved in any order: two atomic marks commute as
  updates of the packed bytes, and a mark commutes with the clearing of another page.
\<close>

lemma bitmap_updates_commute:
  "mark_present (mark_present b p) q = mark_present (mark_present b q) p
   \<and> clear_page (clear_page b p) q = clear_page (clear_page b q) p
   \<and> (p = q \<or> mark_present (clear_page b p) q = clear_page (mark_present b q) p)"
proof -
  have frame: "length (bits (mark_present b p)) = length (bits b)" "bm_path (mark_present b p) = bm_path b"
    "length (bits (clear_page b p)) = length (bits b)" "bm_path (clear_page b p) = bm_path b" for b p
    by (simp_all add: mark_present_def clear_page_def Let_def)
  note laws = bitmap.present_mark bitmap.present_unmark bitmap.capacity_mark bitmap.capacity_unmark
  have "mark_present (mark_present b p) q = mark_present (mark_present b q) p"
    by (rule bitmap_eqI) (auto simp: frame laws)
  moreover have "clear_page (clear_page b p) q = clear_page (clear_page b q) p"
    by (rule bitmap_eqI) (auto simp: frame laws)
  moreover have "mark_present (clear_page b p) q = clear_page (mark_present b q) p" if "p \<noteq> q"
    using that by (intro bitmap_eqI) (auto simp: frame laws)
  ultimately show ?thesis by blast
qed

end
