(* ===== verification/Tracker.thy ===== *)
theory Tracker
  imports Bitmap "HOL-Library.Char_ord" Complex_Main
begin

text \<open>
  The sub-chunk tracker (\<open>SubChunkTracker\<close> of \<open>src/src/tiered/cache_tracking.rs\<close>) and
  its persisted form (\<open>tracker_entries\<close> and \<open>tracker_maps\<close> of
  \<open>src/src/tiered/local_state.rs\<close>). Times are exact rationals in seconds, and a score is the
  exact rational the \<open>f64\<close> expression denotes; the current time is an argument of every
  operation that reads the clock. Sums and products of \<open>u64\<close> byte counts wrap as in a release
  build. Hash sets are iterated in the order of the argument \<open>iter\<close>.
\<close>

subsection \<open>Identifiers and tiers\<close>

datatype sub_chunk_id = SubChunkId (sc_group_id: nat) (sc_frame_index: nat)

instantiation sub_chunk_id :: linorder
begin

definition less_eq_sub_chunk_id :: "sub_chunk_id \<Rightarrow> sub_chunk_id \<Rightarrow> bool" where
  "less_eq_sub_chunk_id a b \<longleftrightarrow> sc_group_id a < sc_group_id b
     \<or> sc_group_id a = sc_group_id b \<and> sc_frame_index a \<le> sc_frame_index b"

definition less_sub_chunk_id :: "sub_chunk_id \<Rightarrow> sub_chunk_id \<Rightarrow> bool" where
  "less_sub_chunk_id a b \<longleftrightarrow> a \<le> b \<and> \<not> b \<le> (a :: sub_chunk_id)"

instance
  by standard (auto simp: less_eq_sub_chunk_id_def less_sub_chunk_id_def sub_chunk_id.expand)

end

datatype sub_chunk_tier = Pinned | Index | Data

fun tier_byte :: "sub_chunk_tier \<Rightarrow> nat" where
  "tier_byte Pinned = 0"
| "tier_byte Index = 1"
| "tier_byte Data = 2"

instantiation sub_chunk_tier :: linorder
begin

definition less_eq_sub_chunk_tier :: "sub_chunk_tier \<Rightarrow> sub_chunk_tier \<Rightarrow> bool" where
  "less_eq_sub_chunk_tier a b \<longleftrightarrow> tier_byte a \<le> tier_byte b"

definition less_sub_chunk_tier :: "sub_chunk_tier \<Rightarrow> sub_chunk_tier \<Rightarrow> bool" where
  "less_sub_chunk_tier a b \<longleftrightarrow> tier_byte a < tier_byte b"

instance
proof
  fix a b :: sub_chunk_tier
  assume "a \<le> b" "b \<le> a"
  then show "a = b" by (cases a; cases b) (auto simp: less_eq_sub_chunk_tier_def)
qed (auto simp: less_eq_sub_chunk_tier_def less_sub_chunk_tier_def)

end

definition tier_of_byte :: "nat \<Rightarrow> sub_chunk_tier" where
  "tier_of_byte n = (if n = 0 then Pinned else if n = 1 then Index else Data)"

definition ACCESS_COUNT_CAP :: nat where
  "ACCESS_COUNT_CAP = 64"

definition RECENCY_WINDOW_SECS :: nat where
  "RECENCY_WINDOW_SECS = 3600"

record tracker =
  present :: "sub_chunk_id set"
  tiers :: "sub_chunk_id \<rightharpoonup> sub_chunk_tier"
  access_times :: "sub_chunk_id \<rightharpoonup> rat"
  access_counts :: "sub_chunk_id \<rightharpoonup> nat"
  current_cache_bytes :: nat
  sub_chunk_byte_size :: nat
  tk_pages_per_group :: nat
  tk_sub_pages_per_frame :: nat

record tracker_entry =
  te_id :: sub_chunk_id
  te_tier :: nat
  te_access_count :: nat

type_synonym tracker_parts =
  "sub_chunk_id set \<times> (sub_chunk_id \<rightharpoonup> sub_chunk_tier) \<times> (sub_chunk_id \<rightharpoonup> nat)"

subsection \<open>Persisted entries\<close>

definition tier_or_data :: "(sub_chunk_id \<rightharpoonup> sub_chunk_tier) \<Rightarrow> sub_chunk_id \<Rightarrow> sub_chunk_tier" where
  "tier_or_data ts i = (case ts i of Some t \<Rightarrow> t | None \<Rightarrow> Data)"

definition count_or_zero :: "(sub_chunk_id \<rightharpoonup> nat) \<Rightarrow> sub_chunk_id \<Rightarrow> nat" where
  "count_or_zero cs i = (case cs i of Some c \<Rightarrow> c | None \<Rightarrow> 0)"

definition tracker_entries ::
  "(sub_chunk_id set \<Rightarrow> sub_chunk_id list) \<Rightarrow> sub_chunk_id set \<Rightarrow> (sub_chunk_id \<rightharpoonup> sub_chunk_tier)
     \<Rightarrow> (sub_chunk_id \<rightharpoonup> nat) \<Rightarrow> tracker_entry list" where
  "tracker_entries iter ps ts cs =
     map (\<lambda>i. \<lparr>te_id = i, te_tier = tier_byte (tier_or_data ts i), te_access_count = count_or_zero cs i\<rparr>) (iter ps)"

definition tracker_maps :: "tracker_entry list \<Rightarrow> tracker_parts" where
  "tracker_maps entries =
     foldl (\<lambda>(ps, ts, cs) e. (insert (te_id e) ps, ts(te_id e \<mapsto> tier_of_byte (te_tier e)),
        if 0 < te_access_count e then cs(te_id e \<mapsto> te_access_count e) else cs))
       ({}, Map.empty, Map.empty) entries"

text \<open>
  The tracker's own file: JSON and AES-CTR are arguments. A nonce of eight bytes precedes the
  encrypted payload; every failure to read or decode yields an empty tracker.
\<close>

definition persist_tracker ::
  "(sub_chunk_id set \<Rightarrow> sub_chunk_id list) \<Rightarrow> ((sub_chunk_id \<times> nat \<times> nat) list \<Rightarrow> bytes)
     \<Rightarrow> (nat \<Rightarrow> bytes \<Rightarrow> bytes \<Rightarrow> bytes) \<Rightarrow> bytes option \<Rightarrow> bytes \<Rightarrow> tracker \<Rightarrow> bytes" where
  "persist_tracker iter to_vec encrypt_ctr key nonce t =
     (let data = to_vec (map (\<lambda>i. (i, tier_byte (tier_or_data (tiers t) i), count_or_zero (access_counts t) i))
                    (iter (present t)))
      in case key of Some k \<Rightarrow> nonce @ encrypt_ctr (le_val nonce) k data | None \<Rightarrow> data)"

definition decrypt_tracker_file :: "(nat \<Rightarrow> bytes \<Rightarrow> bytes \<Rightarrow> bytes option) \<Rightarrow> bytes option \<Rightarrow> bytes \<Rightarrow> bytes option" where
  "decrypt_tracker_file decrypt_ctr key data =
     (case key of None \<Rightarrow> Some data
      | Some k \<Rightarrow> if length data < 8 then None else decrypt_ctr (le_val (take 8 data)) k (drop 8 data))"

definition load_v2 :: "(sub_chunk_id \<times> nat \<times> nat) list \<Rightarrow> tracker_parts" where
  "load_v2 entries =
     foldl (\<lambda>(ps, ts, cs) (i, tb, c). (insert i ps, ts(i \<mapsto> tier_of_byte tb), if 0 < c then cs(i \<mapsto> c) else cs))
       ({}, Map.empty, Map.empty) entries"

definition load_v1 :: "(sub_chunk_id \<times> nat) list \<Rightarrow> tracker_parts" where
  "load_v1 entries =
     foldl (\<lambda>(ps, ts, cs) (i, tb). (insert i ps, ts(i \<mapsto> tier_of_byte tb), cs)) ({}, Map.empty, Map.empty) entries"

definition load_from_disk ::
  "(bytes \<Rightarrow> (sub_chunk_id \<times> nat \<times> nat) list option) \<Rightarrow> (bytes \<Rightarrow> (sub_chunk_id \<times> nat) list option)
     \<Rightarrow> (nat \<Rightarrow> bytes \<Rightarrow> bytes \<Rightarrow> bytes option) \<Rightarrow> bytes option \<Rightarrow> bytes option \<Rightarrow> tracker_parts" where
  "load_from_disk from_v2 from_v1 decrypt_ctr key file =
     (case file of None \<Rightarrow> ({}, Map.empty, Map.empty)
      | Some raw \<Rightarrow> (case decrypt_tracker_file decrypt_ctr key raw of
          None \<Rightarrow> ({}, Map.empty, Map.empty)
        | Some data \<Rightarrow> (case from_v2 data of
            Some entries \<Rightarrow> load_v2 entries
          | None \<Rightarrow> (case from_v1 data of
              Some entries \<Rightarrow> load_v1 entries
            | None \<Rightarrow> ({}, Map.empty, Map.empty)))))"

subsection \<open>Construction\<close>

definition from_parts :: "nat \<Rightarrow> nat \<Rightarrow> tracker_parts \<Rightarrow> rat \<Rightarrow> tracker" where
  "from_parts ppg spf parts now =
     (case parts of (ps, ts, cs) \<Rightarrow>
       \<lparr>present = ps, tiers = ts, access_times = (\<lambda>i. if i \<in> ps then Some now else None),
        access_counts = cs, current_cache_bytes = 0, sub_chunk_byte_size = 0,
        tk_pages_per_group = ppg, tk_sub_pages_per_frame = spf\<rparr>)"

definition tracker_with_state :: "nat \<Rightarrow> nat \<Rightarrow> tracker_entry list option \<Rightarrow> rat \<Rightarrow> tracker" where
  "tracker_with_state ppg spf entries now =
     from_parts ppg spf (case entries of Some es \<Rightarrow> tracker_maps es | None \<Rightarrow> ({}, Map.empty, Map.empty)) now"

definition sub_chunk_for_page :: "tracker \<Rightarrow> nat \<Rightarrow> sub_chunk_id" where
  "sub_chunk_for_page t page_num =
     (let ppg = tk_pages_per_group t; spf = tk_sub_pages_per_frame t in
      if ppg = 0 \<or> spf = 0 then SubChunkId 0 0
      else let gid = (page_num div ppg) mod U32_SIZE;
               page_in_group = (page_num mod ppg) mod U32_SIZE;
               frame_idx = page_in_group div spf
           in SubChunkId gid (frame_idx mod U16_SIZE))"

definition sub_chunk_id_for :: "tracker \<Rightarrow> nat \<Rightarrow> nat \<Rightarrow> sub_chunk_id" where
  "sub_chunk_id_for t gid index_in_group =
     (let spf = tk_sub_pages_per_frame t;
          frame_idx = (if spf = 0 then 0 else index_in_group div spf)
      in SubChunkId (gid mod U32_SIZE) (frame_idx mod U16_SIZE))"

definition is_sub_chunk_present :: "tracker \<Rightarrow> sub_chunk_id \<Rightarrow> bool" where
  "is_sub_chunk_present t i \<longleftrightarrow> i \<in> present t"

definition pages_for_sub_chunk :: "tracker \<Rightarrow> sub_chunk_id \<Rightarrow> nat \<Rightarrow> nat list" where
  "pages_for_sub_chunk t i pc =
     (let start = (sc_group_id i * tk_pages_per_group t + sc_frame_index i * tk_sub_pages_per_frame t) mod U64_SIZE;
          stop = min ((start + tk_sub_pages_per_frame t) mod U64_SIZE) pc
      in [start..<stop])"

subsection \<open>Updates\<close>

definition set_sub_chunk_byte_size :: "nat \<Rightarrow> tracker \<Rightarrow> tracker" where
  "set_sub_chunk_byte_size byte_size t =
     t\<lparr>sub_chunk_byte_size := byte_size, current_cache_bytes := (card (present t) * byte_size) mod U64_SIZE\<rparr>"

definition insert_present :: "sub_chunk_id \<Rightarrow> tracker \<Rightarrow> tracker" where
  "insert_present i t =
     (if i \<in> present t then t
      else t\<lparr>present := insert i (present t),
             current_cache_bytes := (current_cache_bytes t + sub_chunk_byte_size t) mod U64_SIZE\<rparr>)"

definition touch_time_if_absent :: "sub_chunk_id \<Rightarrow> rat \<Rightarrow> tracker \<Rightarrow> tracker" where
  "touch_time_if_absent i now t =
     (if access_times t i = None then t\<lparr>access_times := (access_times t)(i \<mapsto> now)\<rparr> else t)"

definition mark_chunk_present :: "sub_chunk_id \<Rightarrow> sub_chunk_tier \<Rightarrow> rat \<Rightarrow> tracker \<Rightarrow> tracker" where
  "mark_chunk_present i tier now t =
     (let t = insert_present i t;
          t = (case tiers t i of
                 Some t' \<Rightarrow> if t' \<le> tier then t else t\<lparr>tiers := (tiers t)(i \<mapsto> tier)\<rparr>
               | None \<Rightarrow> t\<lparr>tiers := (tiers t)(i \<mapsto> tier)\<rparr>)
      in t\<lparr>access_times := (access_times t)(i \<mapsto> now)\<rparr>)"

definition mark_pinned :: "sub_chunk_id \<Rightarrow> rat \<Rightarrow> tracker \<Rightarrow> tracker" where
  "mark_pinned i now t =
     (let t = insert_present i t; t = t\<lparr>tiers := (tiers t)(i \<mapsto> Pinned)\<rparr>
      in touch_time_if_absent i now t)"

definition mark_index :: "sub_chunk_id \<Rightarrow> rat \<Rightarrow> tracker \<Rightarrow> tracker" where
  "mark_index i now t =
     (let t = insert_present i t;
          t = (if tiers t i = Some Pinned then t else t\<lparr>tiers := (tiers t)(i \<mapsto> Index)\<rparr>)
      in touch_time_if_absent i now t)"

definition touch :: "sub_chunk_id \<Rightarrow> rat \<Rightarrow> tracker \<Rightarrow> tracker" where
  "touch i now t =
     (let count = count_or_zero (access_counts t) i in
      t\<lparr>access_times := (access_times t)(i \<mapsto> now),
        access_counts := (access_counts t)(i \<mapsto> (if count < ACCESS_COUNT_CAP then count + 1 else count))\<rparr>)"

definition remove_chunk :: "sub_chunk_id \<Rightarrow> tracker \<Rightarrow> tracker" where
  "remove_chunk i t =
     (let t = (if i \<in> present t
               then t\<lparr>present := present t - {i},
                      current_cache_bytes := current_cache_bytes t - sub_chunk_byte_size t\<rparr>
               else t)
      in t\<lparr>tiers := (tiers t)(i := None), access_times := (access_times t)(i := None),
           access_counts := (access_counts t)(i := None)\<rparr>)"

definition remove_where :: "(sub_chunk_id set \<Rightarrow> sub_chunk_id list) \<Rightarrow> (sub_chunk_id \<Rightarrow> bool) \<Rightarrow> tracker \<Rightarrow> tracker" where
  "remove_where iter P t = fold remove_chunk (filter P (iter (present t))) t"

definition remove_group :: "(sub_chunk_id set \<Rightarrow> sub_chunk_id list) \<Rightarrow> nat \<Rightarrow> tracker \<Rightarrow> tracker" where
  "remove_group iter gid t = remove_where iter (\<lambda>i. sc_group_id i = gid) t"

definition clear_data :: "(sub_chunk_id set \<Rightarrow> sub_chunk_id list) \<Rightarrow> tracker \<Rightarrow> tracker" where
  "clear_data iter t = remove_where iter (\<lambda>i. tier_or_data (tiers t) i \<noteq> Pinned) t"

definition clear_data_only :: "(sub_chunk_id set \<Rightarrow> sub_chunk_id list) \<Rightarrow> tracker \<Rightarrow> tracker" where
  "clear_data_only iter t = remove_where iter (\<lambda>i. tier_or_data (tiers t) i = Data) t"

definition clear_index_and_data :: "(sub_chunk_id set \<Rightarrow> sub_chunk_id list) \<Rightarrow> tracker \<Rightarrow> tracker" where
  "clear_index_and_data iter t = remove_where iter (\<lambda>i. tier_or_data (tiers t) i \<noteq> Pinned) t"

definition clear_all_chunks :: "tracker \<Rightarrow> tracker" where
  "clear_all_chunks t = t\<lparr>present := {}, tiers := Map.empty, access_times := Map.empty,
     access_counts := Map.empty, current_cache_bytes := 0\<rparr>"

definition count_tier :: "sub_chunk_tier \<Rightarrow> tracker \<Rightarrow> nat" where
  "count_tier tier t = card {i \<in> present t. tier_or_data (tiers t) i = tier}"

definition pinned_bytes :: "tracker \<Rightarrow> nat" where
  "pinned_bytes t = (count_tier Pinned t * sub_chunk_byte_size t) mod U64_SIZE"

subsection \<open>Scores and eviction\<close>

text \<open>\<open>Instant::duration_since\<close> saturates at zero.\<close>

definition duration_since :: "rat \<Rightarrow> rat \<Rightarrow> rat" where
  "duration_since now earlier = max 0 (now - earlier)"

fun tier_bonus :: "sub_chunk_tier \<Rightarrow> rat" where
  "tier_bonus Data = 0"
| "tier_bonus Index = 10"
| "tier_bonus Pinned = 0"

definition recency_score :: "tracker \<Rightarrow> rat \<Rightarrow> sub_chunk_id \<Rightarrow> rat" where
  "recency_score t now i =
     (let epoch = now - of_nat RECENCY_WINDOW_SECS;
          access = (case access_times t i of Some a \<Rightarrow> a | None \<Rightarrow> epoch);
          age_secs = duration_since now access
      in 1 - min (age_secs / of_nat RECENCY_WINDOW_SECS) 1)"

definition frequency_score :: "tracker \<Rightarrow> sub_chunk_id \<Rightarrow> rat" where
  "frequency_score t i = min (of_nat (count_or_zero (access_counts t) i) / of_nat ACCESS_COUNT_CAP) 1"

definition score :: "tracker \<Rightarrow> rat \<Rightarrow> sub_chunk_id \<Rightarrow> rat" where
  "score t now i = tier_bonus (tier_or_data (tiers t) i) + recency_score t now i + frequency_score t i"

definition evictable :: "tracker \<Rightarrow> nat set \<Rightarrow> sub_chunk_id \<Rightarrow> bool" where
  "evictable t skip_groups i \<longleftrightarrow> tier_or_data (tiers t) i \<noteq> Pinned \<and> sc_group_id i \<notin> skip_groups"

definition score_evictable ::
  "(sub_chunk_id set \<Rightarrow> sub_chunk_id list) \<Rightarrow> tracker \<Rightarrow> nat set \<Rightarrow> rat \<Rightarrow> (sub_chunk_id \<times> rat) list" where
  "score_evictable iter t skip_groups now =
     map (\<lambda>i. (i, score t now i)) (filter (evictable t skip_groups) (iter (present t)))"

fun better :: "sub_chunk_id \<Rightarrow> rat \<Rightarrow> (sub_chunk_id \<times> rat) option \<Rightarrow> (sub_chunk_id \<times> rat) option" where
  "better i s None = Some (i, s)"
| "better i s (Some (j, cs)) = (if s < cs then Some (i, s) else Some (j, cs))"

definition evict_one_skipping ::
  "(sub_chunk_id set \<Rightarrow> sub_chunk_id list) \<Rightarrow> nat set \<Rightarrow> rat \<Rightarrow> tracker \<Rightarrow> sub_chunk_id option \<times> tracker" where
  "evict_one_skipping iter skip_groups now t =
     (let candidate = fold (\<lambda>i c. if evictable t skip_groups i then better i (score t now i) c else c)
        (iter (present t)) None
      in case candidate of Some (i, _) \<Rightarrow> (Some i, remove_chunk i t) | None \<Rightarrow> (None, t))"

definition evict_one :: "(sub_chunk_id set \<Rightarrow> sub_chunk_id list) \<Rightarrow> rat \<Rightarrow> tracker \<Rightarrow> sub_chunk_id option \<times> tracker" where
  "evict_one iter now t = evict_one_skipping iter {} now t"

definition expired_in_tier :: "sub_chunk_tier \<Rightarrow> rat \<Rightarrow> rat \<Rightarrow> tracker \<Rightarrow> sub_chunk_id \<Rightarrow> bool" where
  "expired_in_tier tier ttl now t i \<longleftrightarrow> tier_or_data (tiers t) i = tier
     \<and> ttl < duration_since now (case access_times t i of Some a \<Rightarrow> a | None \<Rightarrow> now)"

definition evict_expired_in_tier ::
  "(sub_chunk_id set \<Rightarrow> sub_chunk_id list) \<Rightarrow> sub_chunk_tier \<Rightarrow> rat \<Rightarrow> rat \<Rightarrow> tracker \<Rightarrow> sub_chunk_id list \<times> tracker" where
  "evict_expired_in_tier iter tier ttl now t =
     (filter (expired_in_tier tier ttl now t) (iter (present t)),
      remove_where iter (expired_in_tier tier ttl now t) t)"

subsection \<open>Runs of the tracker\<close>

datatype tracker_op =
    MarkPresent sub_chunk_id sub_chunk_tier
  | MarkPinned sub_chunk_id
  | MarkIndex sub_chunk_id
  | Touch sub_chunk_id
  | Remove sub_chunk_id
  | RemoveGroup nat
  | ClearData
  | ClearDataOnly
  | ClearIndexAndData
  | ClearAll
  | SetByteSize nat
  | Evict "nat set"
  | EvictExpired sub_chunk_tier rat

fun run_op :: "(sub_chunk_id set \<Rightarrow> sub_chunk_id list) \<Rightarrow> rat \<Rightarrow> tracker_op \<Rightarrow> tracker \<Rightarrow> tracker" where
  "run_op iter now (MarkPresent i tier) t = mark_chunk_present i tier now t"
| "run_op iter now (MarkPinned i) t = mark_pinned i now t"
| "run_op iter now (MarkIndex i) t = mark_index i now t"
| "run_op iter now (Touch i) t = touch i now t"
| "run_op iter now (Remove i) t = remove_chunk i t"
| "run_op iter now (RemoveGroup g) t = remove_group iter g t"
| "run_op iter now ClearData t = clear_data iter t"
| "run_op iter now ClearDataOnly t = clear_data_only iter t"
| "run_op iter now ClearIndexAndData t = clear_index_and_data iter t"
| "run_op iter now ClearAll t = clear_all_chunks t"
| "run_op iter now (SetByteSize n) t = set_sub_chunk_byte_size n t"
| "run_op iter now (Evict skip) t = snd (evict_one_skipping iter skip now t)"
| "run_op iter now (EvictExpired tier ttl) t = snd (evict_expired_in_tier iter tier ttl now t)"

definition fits :: "tracker \<Rightarrow> bool" where
  "fits t \<longleftrightarrow> card (present t) * sub_chunk_byte_size t < U64_SIZE"

text \<open>States reached by any sequence of operations at any times, while the cache is below \<open>2 ^ 64\<close> bytes.\<close>

inductive tracker_reach :: "(sub_chunk_id set \<Rightarrow> sub_chunk_id list) \<Rightarrow> tracker \<Rightarrow> tracker \<Rightarrow> bool"
  for iter t where
  start: "tracker_reach iter t t"
| step: "tracker_reach iter t t' \<Longrightarrow> fits (run_op iter now op t') \<Longrightarrow> tracker_reach iter t (run_op iter now op t')"

definition tracker_inv :: "tracker \<Rightarrow> bool" where
  "tracker_inv t \<longleftrightarrow> finite (present t)
     \<and> current_cache_bytes t = card (present t) * sub_chunk_byte_size t
     \<and> (\<forall>i c. access_counts t i = Some c \<longrightarrow> c \<le> ACCESS_COUNT_CAP)"

lemma insert_present_inv:
  assumes "tracker_inv t" "fits (insert_present i t)"
  shows "tracker_inv (insert_present i t)"
proof (cases "i \<in> present t")
  case False
  then have "card (insert i (present t)) * sub_chunk_byte_size t = current_cache_bytes t + sub_chunk_byte_size t"
    using assms(1) by (simp add: tracker_inv_def)
  then show ?thesis using assms False by (simp add: insert_present_def tracker_inv_def fits_def)
qed (use assms in \<open>simp add: insert_present_def\<close>)

text \<open>The bytes, the set and the counts are all the invariant reads.\<close>

lemma tracker_inv_cong:
  assumes "present t = present t'" "current_cache_bytes t = current_cache_bytes t'"
    "sub_chunk_byte_size t = sub_chunk_byte_size t'" "access_counts t = access_counts t'"
  shows "tracker_inv t \<longleftrightarrow> tracker_inv t'" "fits t \<longleftrightarrow> fits t'"
  using assms by (simp_all add: tracker_inv_def fits_def)

lemma mark_inv:
  assumes "tracker_inv t"
  shows "fits (mark_chunk_present i tier now t) \<Longrightarrow> tracker_inv (mark_chunk_present i tier now t)"
    and "fits (mark_pinned i now t) \<Longrightarrow> tracker_inv (mark_pinned i now t)"
    and "fits (mark_index i now t) \<Longrightarrow> tracker_inv (mark_index i now t)"
  using insert_present_inv [OF assms, of i]
    tracker_inv_cong [of "mark_chunk_present i tier now t" "insert_present i t"]
    tracker_inv_cong [of "mark_pinned i now t" "insert_present i t"]
    tracker_inv_cong [of "mark_index i now t" "insert_present i t"]
  by (simp_all add: mark_chunk_present_def mark_pinned_def mark_index_def touch_time_if_absent_def
      Let_def split: option.splits if_splits)

lemma remove_chunk_inv:
  assumes "tracker_inv t"
  shows "tracker_inv (remove_chunk i t)"
proof (cases "i \<in> present t")
  case True
  then have "(card (present t) - 1) * sub_chunk_byte_size t = current_cache_bytes t - sub_chunk_byte_size t"
    using assms by (simp add: tracker_inv_def diff_mult_distrib)
  then show ?thesis using assms True by (simp add: remove_chunk_def tracker_inv_def)
qed (use assms in \<open>simp add: remove_chunk_def tracker_inv_def\<close>)

lemma present_remove_chunk [simp]: "present (remove_chunk i t) = present t - {i}"
  by (auto simp: remove_chunk_def Let_def)

lemma maps_remove_chunk [simp]:
  "tiers (remove_chunk i t) = (tiers t)(i := None)"
  "access_times (remove_chunk i t) = (access_times t)(i := None)"
  "access_counts (remove_chunk i t) = (access_counts t)(i := None)"
  by (simp_all add: remove_chunk_def Let_def)

lemma remove_chunks_inv: "tracker_inv t \<Longrightarrow> tracker_inv (fold remove_chunk is t)"
  by (induction "is" arbitrary: t) (simp_all add: remove_chunk_inv)

lemma present_remove_chunks: "present (fold remove_chunk is t) = present t - set is"
  by (induction "is" arbitrary: t) auto

lemma tiers_remove_chunks: "i \<notin> set is \<Longrightarrow> tiers (fold remove_chunk is t) i = tiers t i"
  by (induction "is" arbitrary: t) auto

lemma remove_where_inv: "tracker_inv t \<Longrightarrow> tracker_inv (remove_where iter P t)"
  by (simp add: remove_where_def remove_chunks_inv)

lemma evict_inv: "tracker_inv t \<Longrightarrow> tracker_inv (snd (evict_one_skipping iter skip now t))"
  by (simp add: evict_one_skipping_def Let_def remove_chunk_inv split: option.splits prod.splits)

lemma run_op_inv:
  assumes "tracker_inv t" "fits (run_op iter now op t)"
  shows "tracker_inv (run_op iter now op t)"
proof (cases op)
  case (SetByteSize n)
  then show ?thesis using assms by (simp add: set_sub_chunk_byte_size_def tracker_inv_def fits_def)
next
  case (Touch i)
  then show ?thesis using assms
    by (auto simp: touch_def Let_def tracker_inv_def count_or_zero_def le_antisym not_less split: option.splits)
next
  case ClearAll
  then show ?thesis by (simp add: clear_all_chunks_def tracker_inv_def)
qed (use assms mark_inv in \<open>simp_all add: remove_chunk_inv remove_where_inv evict_inv remove_group_def
    clear_data_def clear_data_only_def clear_index_and_data_def evict_expired_in_tier_def\<close>)

text \<open>
  C32: the cached-byte counter is exact in every state the tracker can reach: after any sequence of
  marks, touches, removals, clears, resizes and evictions it equals the number of cached sub-chunks
  times the sub-chunk size, and no access count exceeds the cap.
\<close>

theorem tracker_bytes_exact:
  assumes "tracker_reach iter t t'" "tracker_inv t"
  shows "current_cache_bytes t' = card (present t') * sub_chunk_byte_size t'
    \<and> (\<forall>i. count_or_zero (access_counts t') i \<le> ACCESS_COUNT_CAP)"
proof -
  have "tracker_inv t'" using assms by (induction rule: tracker_reach.induct) (simp_all add: run_op_inv)
  then show ?thesis by (auto simp: tracker_inv_def count_or_zero_def split: option.splits)
qed

theorem tracker_bytes_exact_witness:
  "current_cache_bytes (mark_pinned (SubChunkId 1 2) 5 (set_sub_chunk_byte_size 4096 (tracker_with_state 256 4 None 0))) = 4096"
proof -
  let ?t0 = "tracker_with_state 256 4 None 0"
  let ?t1 = "set_sub_chunk_byte_size 4096 ?t0" and ?t2 = "mark_pinned (SubChunkId 1 2) 5 (set_sub_chunk_byte_size 4096 ?t0)"
  have i: "tracker_inv ?t0" by (simp add: tracker_inv_def tracker_with_state_def from_parts_def)
  have p: "present ?t1 = {}" "sub_chunk_byte_size ?t1 = 4096" "present ?t2 = {SubChunkId 1 2}" "sub_chunk_byte_size ?t2 = 4096"
    by (simp_all add: set_sub_chunk_byte_size_def tracker_with_state_def from_parts_def mark_pinned_def
        insert_present_def touch_time_if_absent_def)
  have "tracker_reach sorted_list_of_set ?t0 ?t1"
    using tracker_reach.step [OF tracker_reach.start, of sorted_list_of_set 0 "SetByteSize 4096" ?t0] p by (simp add: fits_def)
  from tracker_reach.step [OF this, of 5 "MarkPinned (SubChunkId 1 2)"] have "tracker_reach sorted_list_of_set ?t0 ?t2"
    using p by (simp add: fits_def)
  from tracker_bytes_exact [OF this i] show ?thesis by (simp only: p) simp
qed

subsection \<open>The choice of a victim\<close>

lemma recency_bounds: "0 \<le> recency_score t now i" "recency_score t now i \<le> 1"
  by (auto simp: recency_score_def Let_def duration_since_def RECENCY_WINDOW_SECS_def min_def max_def)

lemma frequency_bounds: "0 \<le> frequency_score t i" "frequency_score t i \<le> 1"
  by (auto simp: frequency_score_def ACCESS_COUNT_CAP_def)

text \<open>The candidate is the first best one among the elements seen so far.\<close>

definition best_of :: "(sub_chunk_id \<Rightarrow> bool) \<Rightarrow> (sub_chunk_id \<Rightarrow> rat) \<Rightarrow> sub_chunk_id set \<Rightarrow> (sub_chunk_id \<times> rat) option \<Rightarrow> bool" where
  "best_of P f S c \<longleftrightarrow> (case c of None \<Rightarrow> \<forall>i \<in> S. \<not> P i
     | Some (j, s) \<Rightarrow> s = f j \<and> j \<in> S \<and> P j \<and> (\<forall>i \<in> S. P i \<longrightarrow> f j \<le> f i))"

lemma best_of_step:
  assumes "best_of P f S c"
  shows "best_of P f (insert i S) (if P i then better i (f i) c else c)"
proof (cases c)
  case (Some js)
  then show ?thesis using assms by (cases js) (auto simp: best_of_def)
qed (use assms in \<open>auto simp: best_of_def\<close>)

lemma best_of_fold:
  assumes "best_of P f S c"
  shows "best_of P f (S \<union> set is) (fold (\<lambda>i c. if P i then better i (f i) c else c) is c)"
  using assms
proof (induction "is" arbitrary: S c)
  case (Cons i "is")
  from Cons.IH [OF best_of_step [OF Cons.prems, of i]] show ?case by simp
qed simp

text \<open>
  C33: eviction takes the right victim. A sub-chunk is evicted exactly when some cached one is
  neither pinned nor in a skipped group; the victim is such a sub-chunk, has the least score among
  them, and is an index sub-chunk only when no data sub-chunk could be evicted. Exactly the victim
  leaves the cache.
\<close>

theorem evict_one_correct:
  assumes "hash_iteration iter" "finite (present t)"
  shows "case evict_one_skipping iter skip now t of
      (None, t') \<Rightarrow> t' = t \<and> (\<forall>i \<in> present t. \<not> evictable t skip i)
    | (Some v, t') \<Rightarrow> v \<in> present t \<and> evictable t skip v
        \<and> (\<forall>i \<in> present t. evictable t skip i \<longrightarrow> score t now v \<le> score t now i)
        \<and> (tier_or_data (tiers t) v = Index \<longrightarrow>
             (\<forall>i \<in> present t. evictable t skip i \<longrightarrow> tier_or_data (tiers t) i = Index))
        \<and> present t' = present t - {v}"
proof -
  have iter: "set (iter (present t)) = present t" using hash_iteration.set_iter [OF assms] .
  let ?c = "fold (\<lambda>i c. if evictable t skip i then better i (score t now i) c else c) (iter (present t)) None"
  have c: "case ?c of None \<Rightarrow> \<forall>i \<in> present t. \<not> evictable t skip i
    | Some (j, s) \<Rightarrow> j \<in> present t \<and> evictable t skip j \<and> (\<forall>i \<in> present t. evictable t skip i \<longrightarrow> score t now j \<le> score t now i)"
    using best_of_fold [of "evictable t skip" "score t now" "{}" None "iter (present t)"] iter
    by (auto simp: best_of_def split: option.splits)
  have dom: "tier_or_data (tiers t) i = Index"
    if "tier_or_data (tiers t) v = Index" "score t now v \<le> score t now i" "evictable t skip i" for v i
  proof (rule ccontr)
    assume "tier_or_data (tiers t) i \<noteq> Index"
    then have "tier_or_data (tiers t) i = Data" using that(3) by (cases "tier_or_data (tiers t) i") (auto simp: evictable_def)
    then show False
      using that(1,2) recency_bounds [of t now v] frequency_bounds [of t v] recency_bounds [of t now i] frequency_bounds [of t i]
      by (simp add: score_def)
  qed
  show ?thesis
  proof (cases ?c)
    case None
    then show ?thesis using c by (simp add: evict_one_skipping_def)
  next
    case (Some js)
    obtain j s where js: "js = (j, s)" by (cases js)
    then have j: "j \<in> present t" "evictable t skip j" "\<forall>i \<in> present t. evictable t skip i \<longrightarrow> score t now j \<le> score t now i"
      using c Some by simp_all
    then show ?thesis using dom Some js by (auto simp: evict_one_skipping_def Let_def)
  qed
qed

theorem evict_one_correct_witness:
  "fst (evict_one_skipping sorted_list_of_set {7} 100
     (mark_pinned (SubChunkId 5 0) 90 (mark_index (SubChunkId 2 0) 10 (mark_chunk_present (SubChunkId 3 0) Data 99
        (tracker_with_state 256 4 None 0)))))
   = Some (SubChunkId 3 0)"
proof -
  define t where "t = mark_pinned (SubChunkId 5 0) 90 (mark_index (SubChunkId 2 0) 10
    (mark_chunk_present (SubChunkId 3 0) Data 99 (tracker_with_state 256 4 None 0)))"
  have p: "present t = {SubChunkId 5 0, SubChunkId 2 0, SubChunkId 3 0}"
    and ti: "tiers t (SubChunkId 5 0) = Some Pinned" "tiers t (SubChunkId 2 0) = Some Index" "tiers t (SubChunkId 3 0) = Some Data"
    by (simp_all add: t_def mark_pinned_def mark_index_def mark_chunk_present_def insert_present_def
        touch_time_if_absent_def tracker_with_state_def from_parts_def)
  have h: "hash_iteration (sorted_list_of_set :: sub_chunk_id set \<Rightarrow> sub_chunk_id list)"
    by (rule sorted_iter.hash_iteration_axioms)
  have f: "finite (present t)" by (simp add: p)
  have "fst (evict_one_skipping sorted_list_of_set {7} 100 t) = Some (SubChunkId 3 0)"
  proof -
    obtain r t' where e: "evict_one_skipping sorted_list_of_set {7} 100 t = (r, t')"
      by (cases "evict_one_skipping sorted_list_of_set {7} 100 t")
    note correct = evict_one_correct [OF h f, of "{7}" 100, unfolded e]
    have ev: "evictable t {7} (SubChunkId 3 0)" "\<not> evictable t {7} (SubChunkId 5 0)"
      by (simp_all add: evictable_def tier_or_data_def ti)
    have data: "tier_or_data (tiers t) (SubChunkId 2 0) = Index" "tier_or_data (tiers t) (SubChunkId 3 0) = Data"
      by (simp_all add: tier_or_data_def ti)
    have "r = Some (SubChunkId 3 0)"
    proof (cases r)
      case None
      then show ?thesis using correct ev(1) by (simp add: p)
    next
      case (Some v)
      then have v: "v \<in> present t" "evictable t {7} v"
        "tier_or_data (tiers t) v = Index \<longrightarrow> (\<forall>i \<in> present t. evictable t {7} i \<longrightarrow> tier_or_data (tiers t) i = Index)"
        using correct by simp_all
      have three: "SubChunkId 3 0 \<in> present t" by (simp add: p)
      have "v \<noteq> SubChunkId 2 0"
      proof
        assume "v = SubChunkId 2 0"
        then have "tier_or_data (tiers t) (SubChunkId 3 0) = Index" using v(3) data(1) ev(1) three by simp
        then show False using data(2) by simp
      qed
      moreover have "v \<noteq> SubChunkId 5 0" using v(2) ev(2) by auto
      ultimately show ?thesis using v(1) Some by (simp add: p)
    qed
    then show ?thesis by (simp add: e)
  qed
  then show ?thesis by (simp only: t_def)
qed

subsection \<open>Persistence\<close>

lemma tracker_maps_append:
  "tracker_maps (es @ [e]) = (case tracker_maps es of (ps, ts, cs) \<Rightarrow>
     (insert (te_id e) ps, ts(te_id e \<mapsto> tier_of_byte (te_tier e)),
      if 0 < te_access_count e then cs(te_id e \<mapsto> te_access_count e) else cs))"
  by (simp add: tracker_maps_def split: prod.splits)

lemma tier_of_byte_tier_byte [simp]: "tier_of_byte (tier_byte t) = t"
  by (cases t) (simp_all add: tier_of_byte_def)

lemma tracker_maps_entries:
  assumes "distinct is"
  shows "tracker_maps (map (\<lambda>i. \<lparr>te_id = i, te_tier = tier_byte (f i), te_access_count = c i\<rparr>) is)
    = (set is, (\<lambda>i. if i \<in> set is then Some (f i) else None),
       (\<lambda>i. if i \<in> set is \<and> 0 < c i then Some (c i) else None))"
  using assms
proof (induction "is" rule: rev_induct)
  case (snoc x xs)
  then show ?case by (auto simp: tracker_maps_append)
qed (simp add: tracker_maps_def)

text \<open>
  saving and reloading the tracker loses nothing that eviction reads: the cached set is the
  same, every cached sub-chunk has the same tier and the same access count, and nothing else is
  recorded, whatever the order in which the hash set is written.
\<close>

lemma tracker_entries_roundtrip:
  assumes "hash_iteration iter" "finite (present t)"
  shows "case tracker_maps (tracker_entries iter (present t) (tiers t) (access_counts t)) of (ps, ts, cs) \<Rightarrow>
    ps = present t \<and> dom ts = present t \<and> dom cs \<subseteq> present t
    \<and> (\<forall>i \<in> present t. tier_or_data ts i = tier_or_data (tiers t) i
          \<and> count_or_zero cs i = count_or_zero (access_counts t) i)"
proof -
  have iter: "set (iter (present t)) = present t" "distinct (iter (present t))"
    using hash_iteration.set_iter [OF assms] hash_iteration.distinct_iter [OF assms] .
  have "tracker_maps (tracker_entries iter (present t) (tiers t) (access_counts t))
    = (present t, (\<lambda>i. if i \<in> present t then Some (tier_or_data (tiers t) i) else None),
       (\<lambda>i. if i \<in> present t \<and> 0 < count_or_zero (access_counts t) i
          then Some (count_or_zero (access_counts t) i) else None))"
    unfolding tracker_entries_def by (simp only: tracker_maps_entries [OF iter(2)] iter(1))
  then show ?thesis by (auto simp: tier_or_data_def [of "\<lambda>i. _ i"] count_or_zero_def [of "\<lambda>i. _ i"] dom_def split: if_splits)
qed

subsection \<open>Pages of a sub-chunk\<close>

text \<open>The identifiers of a page fit their types: 32 bits of group, 16 bits of frame.\<close>

definition id_in_range :: "tracker \<Rightarrow> nat \<Rightarrow> bool" where
  "id_in_range t p \<longleftrightarrow> 0 < tk_pages_per_group t \<and> 0 < tk_sub_pages_per_frame t
     \<and> tk_pages_per_group t < U32_SIZE \<and> tk_sub_pages_per_frame t < U32_SIZE
     \<and> p div tk_pages_per_group t < U32_SIZE \<and> (p mod tk_pages_per_group t) div tk_sub_pages_per_frame t < U16_SIZE"

lemma sub_chunk_for_page_in_range:
  assumes "id_in_range t p"
  shows "sub_chunk_for_page t p
    = SubChunkId (p div tk_pages_per_group t) ((p mod tk_pages_per_group t) div tk_sub_pages_per_frame t)"
proof -
  have "p mod tk_pages_per_group t < tk_pages_per_group t" using assms by (simp add: id_in_range_def)
  then have "p mod tk_pages_per_group t < U32_SIZE" using assms by (simp add: id_in_range_def)
  then show ?thesis using assms by (simp add: sub_chunk_for_page_def Let_def id_in_range_def)
qed

lemma pages_of_page:
  assumes "id_in_range t p" "p < pc" "pc < 2 ^ 48"
  defines "s \<equiv> p div tk_pages_per_group t * tk_pages_per_group t
    + (p mod tk_pages_per_group t) div tk_sub_pages_per_frame t * tk_sub_pages_per_frame t"
  shows "pages_for_sub_chunk t (sub_chunk_for_page t p) pc = [s..<min (s + tk_sub_pages_per_frame t) pc]"
    and "s \<le> p" "p < s + tk_sub_pages_per_frame t"
proof -
  let ?b = "tk_pages_per_group t" and ?f = "tk_sub_pages_per_frame t"
  have p: "p = p div ?b * ?b + p mod ?b" by simp
  have r: "p mod ?b = (p mod ?b) div ?f * ?f + (p mod ?b) mod ?f" by simp
  have m: "(p mod ?b) mod ?f < ?f" using assms(1) by (simp add: id_in_range_def)
  show le: "s \<le> p" "p < s + ?f" unfolding s_def using p r m by linarith+
  then have "s < U64_SIZE" "s + ?f < U64_SIZE" using assms(1-3) by (simp_all add: id_in_range_def)
  then show "pages_for_sub_chunk t (sub_chunk_for_page t p) pc = [s..<min (s + ?f) pc]"
    by (simp add: sub_chunk_for_page_in_range [OF assms(1)] pages_for_sub_chunk_def Let_def flip: s_def)
qed

text \<open>
  the page range of a sub-chunk is computed without wrap-around and contains the page it was
  looked up for; when the frame size divides the group size it contains only pages of that
  sub-chunk, so that clearing the range touches no other sub-chunk.
\<close>

lemma sub_chunk_pages:
  assumes "id_in_range t p" "p < pc" "pc < 2 ^ 48"
  shows "p \<in> set (pages_for_sub_chunk t (sub_chunk_for_page t p) pc)
    \<and> (tk_sub_pages_per_frame t dvd tk_pages_per_group t \<longrightarrow>
        (\<forall>q \<in> set (pages_for_sub_chunk t (sub_chunk_for_page t p) pc).
           sub_chunk_for_page t q = sub_chunk_for_page t p))"
proof -
  let ?b = "tk_pages_per_group t" and ?f = "tk_sub_pages_per_frame t"
  let ?s = "p div ?b * ?b + (p mod ?b) div ?f * ?f"
  note range = pages_of_page [OF assms]
  have same: "sub_chunk_for_page t q = sub_chunk_for_page t p" if d: "?f dvd ?b" and q: "?s \<le> q" "q < ?s + ?f" for q
  proof -
    obtain k where k: "?b = ?f * k" using d by auto
    have pos: "0 < ?b" "0 < ?f" using assms(1) by (simp_all add: id_in_range_def)
    define j where "j = (p mod ?b) div ?f"
    have "p mod ?b < ?f * k" using pos(1) by (simp flip: k)
    then have "j < k" by (simp add: j_def div_less_iff_less_mult pos(2) mult.commute)
    then have "Suc j * ?f \<le> k * ?f" by (intro mult_le_mono1) simp
    then have jb: "j * ?f + ?f \<le> ?b" by (simp add: k mult.commute)
    have s: "?s = p div ?b * ?b + j * ?f" by (simp add: j_def)
    obtain r where r: "q = p div ?b * ?b + (j * ?f + r)" "r < ?f" using q unfolding s
      by (metis add.assoc le_iff_add nat_add_left_cancel_less)
    then have "j * ?f + r < ?b" using jb by linarith
    then have qd: "q div ?b = p div ?b" "q mod ?b = j * ?f + r" using r(1) by simp_all
    then have "q mod ?b div ?f = j" using r(2) by simp
    then have "id_in_range t q" using assms(1) qd(1) by (simp add: id_in_range_def j_def)
    then show ?thesis
      using \<open>q mod ?b div ?f = j\<close> by (simp add: sub_chunk_for_page_in_range assms(1) qd(1) j_def)
  qed
  have "p \<in> set (pages_for_sub_chunk t (sub_chunk_for_page t p) pc)"
    unfolding range(1) using range(2,3) assms(2) by simp
  moreover have "sub_chunk_for_page t q = sub_chunk_for_page t p"
    if "?f dvd ?b" "q \<in> set (pages_for_sub_chunk t (sub_chunk_for_page t p) pc)" for q
    using that(2) unfolding range(1) by (intro same [OF that(1)]) simp_all
  ultimately show ?thesis by blast
qed

end
