(* ===== verification/Local_State.thy ===== *)
theory Local_State
  imports Cache_File Tracker
begin

text \<open>
  The local recovery state (\<open>src/src/tiered/local_state.rs\<close>): one msgpack file with the manifest,
  the pending groups, the page bitmap, the sub-chunk entries and the compressed index, rewritten
  through a temporary file and a rename under a process and a file lock. Serialisation
  (\<open>rmp_serde\<close>) is the argument \<open>serde\<close>. A write that fails before the rename leaves the old
  file; one that fails after it, in the directory sync, leaves the new file and returns the error.
\<close>

record local_state =
  ls_format_version :: nat
  ls_manifest :: "manifest option"
  ls_dirty_groups :: "nat list option"
  ls_page_bitmap :: "bytes option"
  ls_tracker :: "tracker_entry list option"
  ls_cache_index :: "cache_index option"

record serde =
  sd_to_vec :: "local_state \<Rightarrow> bytes option"
  sd_from_slice :: "bytes \<Rightarrow> local_state option"

datatype write_fault = NoFault | BeforeRename io_error | AfterRename io_error

definition default_state :: local_state where
  "default_state = \<lparr>ls_format_version = 0, ls_manifest = None, ls_dirty_groups = None, ls_page_bitmap = None,
     ls_tracker = None, ls_cache_index = None\<rparr>"

definition normalized :: "local_state \<Rightarrow> local_state" where
  "normalized st = (if ls_format_version st = 0 then st\<lparr>ls_format_version := 1\<rparr> else st)"

definition load_state :: "serde \<Rightarrow> bytes option \<Rightarrow> local_state option io_result" where
  "load_state sd file =
     (case file of None \<Rightarrow> Inr None
      | Some data \<Rightarrow> (case sd_from_slice sd data of
          None \<Rightarrow> Inl (Io InvalidData ''deserialize local_state.msgpack'')
        | Some st \<Rightarrow> Inr (Some (normalized st))))"

definition load_or_default :: "serde \<Rightarrow> bytes option \<Rightarrow> local_state io_result" where
  "load_or_default sd file =
     bind_result (load_state sd file) (\<lambda>st. Inr (normalized (case st of Some st \<Rightarrow> st | None \<Rightarrow> default_state)))"

definition persist_state :: "serde \<Rightarrow> write_fault \<Rightarrow> local_state \<Rightarrow> bytes option \<Rightarrow> unit io_result \<times> bytes option" where
  "persist_state sd fault st file =
     (case sd_to_vec sd ((normalized st)\<lparr>ls_format_version := 1\<rparr>) of
        None \<Rightarrow> (Inl (Io Other ''serialize local_state.msgpack''), file)
      | Some data \<Rightarrow>
          (case fault of
             NoFault \<Rightarrow> (Inr (), Some data)
           | BeforeRename e \<Rightarrow> (Inl e, file)
           | AfterRename e \<Rightarrow> (Inl e, Some data)))"

definition update_state :: "serde \<Rightarrow> write_fault \<Rightarrow> (local_state \<Rightarrow> local_state) \<Rightarrow> bytes option \<Rightarrow> unit io_result \<times> bytes option" where
  "update_state sd fault f file =
     (case load_or_default sd file of
        Inl e \<Rightarrow> (Inl e, file)
      | Inr st \<Rightarrow> persist_state sd fault (f st) file)"

text \<open>What the code relies on: what was serialised is read back.\<close>

definition serde_contract :: "serde \<Rightarrow> bool" where
  "serde_contract sd \<longleftrightarrow> (\<forall>st data. sd_to_vec sd st = Some data \<longrightarrow> sd_from_slice sd data = Some st)"

lemma normalized_version: "ls_format_version st \<noteq> 0 \<Longrightarrow> normalized st = st"
  by (simp add: normalized_def)

lemma update_state_loads:
  assumes "serde_contract sd" "load_or_default sd file = Inr st" "update_state sd NoFault f file = (Inr (), file')"
  shows "load_state sd file' = Inr (Some ((normalized (f st))\<lparr>ls_format_version := 1\<rparr>))"
proof -
  obtain data where "sd_to_vec sd ((normalized (f st))\<lparr>ls_format_version := 1\<rparr>) = Some data" "file' = Some data"
    using assms(2,3) by (auto simp: update_state_def persist_state_def split: option.splits)
  then show ?thesis using assms(1) by (simp add: load_state_def serde_contract_def normalized_def)
qed

lemma normalized_fields [simp]:
  "ls_page_bitmap (normalized st) = ls_page_bitmap st" "ls_tracker (normalized st) = ls_tracker st"
  "ls_cache_index (normalized st) = ls_cache_index st" "ls_manifest (normalized st) = ls_manifest st"
  "ls_dirty_groups (normalized st) = ls_dirty_groups st"
  by (simp_all add: normalized_def)

end
