(* ===== verification/Encoding.thy ===== *)
theory Encoding
  imports Manifest
begin

text \<open>
  The object formats (\<open>src/src/tiered/encoding.rs\<close>) over the compression and encryption
  wrappers of \<open>src/src/compress.rs\<close>: whole page groups, seekable page groups with a frame
  table, interior and index bundles, and override frames. The zstd and AES-GCM libraries are the
  fields of a \<open>codec\<close>, an argument of every definition; \<open>codec_contract\<close> states what they
  document. Random nonces are arguments. The compression level and dictionary are fixed inside the
  codec's fields.
\<close>

subsection \<open>Compression and encryption\<close>

record codec =
  zs_encode :: "bytes \<Rightarrow> bytes io_result"
  zs_stream :: "bytes \<Rightarrow> bytes \<times> io_error option"
  gcm_seal :: "bytes \<Rightarrow> bytes \<Rightarrow> bytes \<Rightarrow> bytes \<Rightarrow> bytes io_result"
  gcm_open :: "bytes \<Rightarrow> bytes \<Rightarrow> bytes \<Rightarrow> bytes \<Rightarrow> bytes io_result"

text \<open>
  \<open>zs_stream\<close> gives the bytes a streaming decoder delivers and the error it ends with, if any.
  \<open>gcm_seal\<close> and \<open>gcm_open\<close> take the key, the nonce, the associated data and the payload.
\<close>

definition compress :: "codec \<Rightarrow> bytes \<Rightarrow> bytes io_result" where
  "compress C data = zs_encode C data"

definition decompress_capped :: "codec \<Rightarrow> bytes \<Rightarrow> nat \<Rightarrow> bytes io_result" where
  "decompress_capped C data max_len =
     (case zs_stream C data of (out, err) \<Rightarrow>
        let cap = min (max_len + 1) (U64_SIZE - 1); output = take cap out in
        if length out < cap \<and> err \<noteq> None then Inl (the err)
        else if max_len < length output
          then Inl (Io InvalidData ''decompressed output exceeds cap (possible decompression bomb)'')
        else Inr output)"

definition encrypt_gcm_random_nonce :: "codec \<Rightarrow> bytes \<Rightarrow> bytes \<Rightarrow> bytes \<Rightarrow> bytes \<Rightarrow> bytes io_result" where
  "encrypt_gcm_random_nonce C nonce data aad key =
     bind_result (gcm_seal C key nonce aad data) (\<lambda>ciphertext. Inr (nonce @ ciphertext))"

definition decrypt_gcm_random_nonce :: "codec \<Rightarrow> bytes \<Rightarrow> bytes \<Rightarrow> bytes \<Rightarrow> bytes io_result" where
  "decrypt_gcm_random_nonce C data aad key =
     (if length data < 12 then Inl (Io InvalidData ''encrypted data too short for nonce'')
      else gcm_open C key (take 12 data) aad (drop 12 data))"

definition decrypt_if_needed :: "codec \<Rightarrow> bytes \<Rightarrow> bytes \<Rightarrow> bytes option \<Rightarrow> bytes io_result" where
  "decrypt_if_needed C data aad encryption_key =
     (case encryption_key of Some key \<Rightarrow> decrypt_gcm_random_nonce C data aad key | None \<Rightarrow> Inr data)"

definition MAX_TIERED_DECOMPRESSED_BYTES :: nat where
  "MAX_TIERED_DECOMPRESSED_BYTES = 2 ^ 30"

text \<open>The common tail of the encoders and the common head of the decoders.\<close>

definition seal_frame :: "codec \<Rightarrow> bytes \<Rightarrow> bytes \<Rightarrow> bytes option \<Rightarrow> bytes \<Rightarrow> bytes io_result" where
  "seal_frame C nonce aad encryption_key raw =
     bind_result (compress C raw) (\<lambda>compressed.
       case encryption_key of
         Some key \<Rightarrow> encrypt_gcm_random_nonce C nonce compressed aad key
       | None \<Rightarrow> Inr compressed)"

definition open_frame :: "codec \<Rightarrow> bytes \<Rightarrow> bytes option \<Rightarrow> nat \<Rightarrow> bytes \<Rightarrow> bytes io_result" where
  "open_frame C aad encryption_key cap data =
     bind_result (decrypt_if_needed C data aad encryption_key) (\<lambda>d. decompress_capped C d cap)"

subsection \<open>Page groups\<close>

definition page_bytes :: "nat \<Rightarrow> bytes option \<Rightarrow> bytes" where
  "page_bytes ps p = (case p of Some data \<Rightarrow> data @ zeros (ps - length data) | None \<Rightarrow> zeros ps)"

definition group_header :: "nat \<Rightarrow> nat \<Rightarrow> bytes" where
  "group_header n ps = le_bytes 4 n @ le_bytes 4 ps"

definition encode_page_group ::
  "codec \<Rightarrow> bytes \<Rightarrow> bytes option list \<Rightarrow> nat \<Rightarrow> bytes \<Rightarrow> bytes option \<Rightarrow> bytes io_result" where
  "encode_page_group C nonce pages ps aad encryption_key =
     (let n = length pages mod U32_SIZE in
      seal_frame C nonce aad encryption_key (group_header n ps @ concat (map (page_bytes ps) (take n pages))))"

definition checked_group_expected_len :: "nat \<Rightarrow> nat \<Rightarrow> nat io_result" where
  "checked_group_expected_len n ps =
     (case Option.bind (checked_mul n ps) (\<lambda>k. checked_add k 8) of
        Some k \<Rightarrow> Inr k
      | None \<Rightarrow> Inl (Io InvalidData ''page group header page_count * page_size overflows usize (corrupt/malformed)''))"

definition parse_group :: "bytes \<Rightarrow> (nat \<times> nat \<times> nat) io_result" where
  "parse_group raw =
     (if length raw < 8 then Inl (Io InvalidData ''page group too short for header'')
      else let n = le_val (bslice 0 4 raw); ps = le_val (bslice 4 4 raw) in
        bind_result (checked_group_expected_len n ps) (\<lambda>expected_len.
          if length raw < expected_len then Inl (Io InvalidData ''page group data truncated'')
          else Inr (n, ps, expected_len)))"

definition decode_page_group ::
  "codec \<Rightarrow> bytes \<Rightarrow> bytes \<Rightarrow> bytes option \<Rightarrow> (nat \<times> nat \<times> bytes list) io_result" where
  "decode_page_group C compressed aad encryption_key =
     bind_result (open_frame C aad encryption_key MAX_TIERED_DECOMPRESSED_BYTES compressed) (\<lambda>raw.
       bind_result (parse_group raw) (\<lambda>(n, ps, expected_len).
         Inr (n, ps, map (\<lambda>i. bslice (8 + i * ps) ps raw) [0..<n])))"

definition decode_page_group_bulk ::
  "codec \<Rightarrow> bytes \<Rightarrow> bytes \<Rightarrow> bytes option \<Rightarrow> (nat \<times> nat \<times> bytes) io_result" where
  "decode_page_group_bulk C compressed aad encryption_key =
     bind_result (open_frame C aad encryption_key MAX_TIERED_DECOMPRESSED_BYTES compressed) (\<lambda>raw.
       bind_result (parse_group raw) (\<lambda>(n, ps, expected_len).
         Inr (n, ps, bslice 8 (expected_len - 8) raw)))"

subsection \<open>Seekable page groups\<close>

definition frame_raw :: "nat \<Rightarrow> nat \<Rightarrow> bytes option list \<Rightarrow> nat \<Rightarrow> bytes" where
  "frame_raw ps sub_ppg pages frame_idx =
     (let start = frame_idx * sub_ppg; stop = min (start + sub_ppg) (length pages) in
      concat (map (\<lambda>i. page_bytes ps (pages ! i)) [start..<stop]))"

fun encode_frames ::
  "codec \<Rightarrow> (nat \<Rightarrow> bytes) \<Rightarrow> bytes \<Rightarrow> bytes option \<Rightarrow> nat \<Rightarrow> bytes list \<Rightarrow> bytes \<Rightarrow> frame_entry list
     \<Rightarrow> (bytes \<times> frame_entry list) io_result" where
  "encode_frames C nonces aad key k [] blob table = Inr (blob, table)"
| "encode_frames C nonces aad key k (raw # raws) blob table =
     bind_result (seal_frame C (nonces k) aad key raw) (\<lambda>frame_data.
       encode_frames C nonces aad key (k + 1) raws (blob @ frame_data)
         (table @ [\<lparr>fe_offset = length blob, fe_len = length frame_data mod U32_SIZE\<rparr>]))"

definition encode_page_group_seekable ::
  "codec \<Rightarrow> (nat \<Rightarrow> bytes) \<Rightarrow> bytes option list \<Rightarrow> nat \<Rightarrow> nat \<Rightarrow> bytes \<Rightarrow> bytes option
     \<Rightarrow> (bytes \<times> frame_entry list) io_result" where
  "encode_page_group_seekable C nonces pages ps sub_ppg aad encryption_key =
     (if sub_ppg = 0 then panic ''attempt to divide by zero''
      else encode_frames C nonces aad encryption_key 0
        (map (frame_raw ps sub_ppg pages) [0..<div_ceil (length pages) sub_ppg]) [] [])"

definition decode_seekable_subchunk :: "codec \<Rightarrow> bytes \<Rightarrow> bytes \<Rightarrow> bytes option \<Rightarrow> bytes io_result" where
  "decode_seekable_subchunk C compressed_frame aad encryption_key =
     open_frame C aad encryption_key MAX_TIERED_DECOMPRESSED_BYTES compressed_frame"

definition frame_cap :: "nat \<Rightarrow> nat \<Rightarrow> nat" where
  "frame_cap actual_pages ps =
     (case checked_mul actual_pages ps of
        Some n \<Rightarrow> if 0 < n then n else MAX_TIERED_DECOMPRESSED_BYTES
      | None \<Rightarrow> MAX_TIERED_DECOMPRESSED_BYTES)"

text \<open>The end of a frame is a wrapping sum; a slice whose start is past its end panics.\<close>

fun decode_frames :: "codec \<Rightarrow> bytes \<Rightarrow> bytes option \<Rightarrow> nat \<Rightarrow> bytes \<Rightarrow> frame_entry list \<Rightarrow> bytes \<Rightarrow> bytes io_result" where
  "decode_frames C aad key cap data [] output = Inr output"
| "decode_frames C aad key cap data (e # es) output =
     (let start = fe_offset e; stop = (start + fe_len e) mod U64_SIZE in
      if length data < stop then Inl (Io InvalidData ''frame extends beyond data'')
      else if stop < start then panic ''slice index starts after its end''
      else bind_result (open_frame C aad key cap (bslice start (stop - start) data)) (\<lambda>decompressed.
        decode_frames C aad key cap data es (output @ decompressed)))"

definition decode_page_group_seekable_full ::
  "codec \<Rightarrow> bytes \<Rightarrow> frame_entry list \<Rightarrow> nat \<Rightarrow> nat \<Rightarrow> nat \<Rightarrow> nat \<Rightarrow> bytes \<Rightarrow> bytes option
     \<Rightarrow> (nat \<times> nat \<times> bytes) io_result" where
  "decode_page_group_seekable_full C data frame_table ps ppg total_page_count group_start aad encryption_key =
     (let actual_pages = min ppg (total_page_count - group_start) mod U32_SIZE in
      bind_result (decode_frames C aad encryption_key (frame_cap actual_pages ps) data frame_table []) (\<lambda>output.
        if ps = 0 then panic ''attempt to divide by zero''
        else let decoded_pages = (length output div ps) mod U32_SIZE;
                 actual_pages = min actual_pages decoded_pages
             in Inr (actual_pages, ps, take (actual_pages * ps) output)))"

subsection \<open>Bundles and override frames\<close>

definition encode_interior_bundle ::
  "codec \<Rightarrow> bytes \<Rightarrow> (nat \<times> bytes) list \<Rightarrow> nat \<Rightarrow> bytes \<Rightarrow> bytes option \<Rightarrow> bytes io_result" where
  "encode_interior_bundle C nonce pages ps aad encryption_key =
     seal_frame C nonce aad encryption_key
       (group_header (length pages mod U32_SIZE) ps @ concat (map (\<lambda>(pnum, _). le_bytes 8 pnum) pages)
        @ concat (map (\<lambda>(_, data). page_bytes ps (Some data)) pages))"

definition parse_bundle :: "bytes \<Rightarrow> (nat \<times> bytes) list io_result" where
  "parse_bundle raw =
     (if length raw < 8 then Inl (Io InvalidData ''interior bundle too short for header'')
      else let n = le_val (bslice 0 4 raw); ps = le_val (bslice 4 4 raw) in
        case Option.bind (checked_mul n 8) (\<lambda>k. checked_add k 8) of
          None \<Rightarrow> Inl (Io InvalidData ''interior bundle page_count overflows usize (corrupt/malformed)'')
        | Some pnums_end \<Rightarrow>
            (case Option.bind (checked_mul n ps) (\<lambda>k. checked_add k pnums_end) of
               None \<Rightarrow> Inl (Io InvalidData ''interior bundle page_count * page_size overflows usize (corrupt/malformed)'')
             | Some expected_len \<Rightarrow>
                 if length raw < expected_len then Inl (Io InvalidData ''interior bundle truncated'')
                 else Inr (map (\<lambda>i. (le_val (bslice (8 + i * 8) 8 raw), bslice (pnums_end + i * ps) ps raw)) [0..<n])))"

definition decode_interior_bundle ::
  "codec \<Rightarrow> bytes \<Rightarrow> bytes \<Rightarrow> bytes option \<Rightarrow> (nat \<times> bytes) list io_result" where
  "decode_interior_bundle C compressed aad encryption_key =
     bind_result (open_frame C aad encryption_key MAX_TIERED_DECOMPRESSED_BYTES compressed) parse_bundle"

definition encode_override_frame ::
  "codec \<Rightarrow> bytes \<Rightarrow> (nat \<times> bytes) list \<Rightarrow> nat \<Rightarrow> bytes \<Rightarrow> bytes option \<Rightarrow> bytes io_result" where
  "encode_override_frame C nonce dirty_pages ps aad encryption_key =
     seal_frame C nonce aad encryption_key (concat (map (\<lambda>(_, data). page_bytes ps (Some data)) dirty_pages))"

subsection \<open>What the libraries promise\<close>

text \<open>
  Decompressing what was compressed gives it back, an authenticated payload opens under its own
  key, nonce and associated data, and under no other associated data.
\<close>

definition codec_contract :: "codec \<Rightarrow> bool" where
  "codec_contract C \<longleftrightarrow>
     (\<forall>x y. zs_encode C x = Inr y \<longrightarrow> zs_stream C y = (x, None))
     \<and> (\<forall>k n a x y. gcm_seal C k n a x = Inr y \<longrightarrow> gcm_open C k n a y = Inr x)
     \<and> (\<forall>k n a a' x y. gcm_seal C k n a x = Inr y \<and> a' \<noteq> a \<longrightarrow> \<not> is_ok (gcm_open C k n a' y))"

lemma open_seal [codec_simps]:
  assumes "codec_contract C" "seal_frame C nonce aad key raw = Inr out" "length nonce = 12"
    and "length raw \<le> cap" "cap + 1 < U64_SIZE"
  shows "open_frame C aad key cap out = Inr raw"
proof -
  obtain z where z: "zs_encode C raw = Inr z" "zs_stream C z = (raw, None)"
    "case key of Some k \<Rightarrow> encrypt_gcm_random_nonce C nonce z aad k = Inr out | None \<Rightarrow> out = z"
    using assms(1,2) by (auto simp: seal_frame_def compress_def bind_result_Inr_iff codec_contract_def split: option.splits)
  have "decrypt_if_needed C out aad key = Inr z"
  proof (cases key)
    case (Some k)
    then obtain c where "out = nonce @ c" "gcm_open C k nonce aad c = Inr z"
      using z(3) assms(1) by (auto simp: encrypt_gcm_random_nonce_def bind_result_Inr_iff codec_contract_def)
    then show ?thesis using Some assms(3) by (simp add: decrypt_if_needed_def decrypt_gcm_random_nonce_def)
  qed (use z(3) in \<open>simp add: decrypt_if_needed_def\<close>)
  then show ?thesis using z(2) assms(4,5) by (simp add: open_frame_def decompress_capped_def Let_def)
qed

lemma decompress_capped_bound: "decompress_capped C d cap = Inr r \<Longrightarrow> length r \<le> cap"
  by (cases "zs_stream C d") (auto simp: decompress_capped_def Let_def simp del: length_take split: if_splits)

lemma open_wrong_aad:
  assumes "codec_contract C" "seal_frame C nonce aad (Some k) raw = Inr out" "length nonce = 12" "aad' \<noteq> aad"
  shows "\<not> is_ok (open_frame C aad' (Some k) cap out)"
proof -
  obtain z c where "out = nonce @ c" "gcm_seal C k nonce aad z = Inr c"
    using assms(2) by (auto simp: seal_frame_def encrypt_gcm_random_nonce_def bind_result_Inr_iff)
  moreover from this have "\<not> is_ok (gcm_open C k nonce aad' c)"
    using assms(1,4) by (auto simp: codec_contract_def)
  ultimately show ?thesis using assms(3)
    by (cases "gcm_open C k nonce aad' c") (simp_all add: open_frame_def decrypt_if_needed_def decrypt_gcm_random_nonce_def)
qed

subsection \<open>Page groups\<close>

definition fits_page :: "nat \<Rightarrow> bytes option \<Rightarrow> bool" where
  "fits_page ps p = (case p of Some data \<Rightarrow> length data \<le> ps | None \<Rightarrow> True)"

lemma length_page_bytes [simp]: "fits_page ps p \<Longrightarrow> length (page_bytes ps p) = ps"
  by (simp add: fits_page_def page_bytes_def split: option.splits)

lemma length_page_list:
  "list_all (fits_page ps) pages \<Longrightarrow> length (concat (map (page_bytes ps) pages)) = length pages * ps"
  by (induction pages) simp_all

lemma length_group_header [simp]: "length (group_header n ps) = 8"
  by (simp add: group_header_def)

lemma group_header_fields:
  assumes "n < U32_SIZE" "ps < U32_SIZE"
  shows "le_val (bslice 0 4 (group_header n ps @ xs)) = n" "le_val (bslice 4 4 (group_header n ps @ xs)) = ps"
  using assms by (simp_all add: group_header_def bslice_def le_val_bytes)

lemma drop_header [simp]: "bslice (8 + k) n (group_header c ps @ xs) = bslice k n xs"
  by (simp add: bslice_def)

lemma parse_group_header:
  assumes "n < U32_SIZE" "ps < U32_SIZE" "length xs = n * ps" "8 + n * ps < U64_SIZE"
  shows "parse_group (group_header n ps @ xs) = Inr (n, ps, n * ps + 8)"
  using assms by (simp add: parse_group_def group_header_fields checked_group_expected_len_def Let_def
      checked_mul_def checked_add_def)

lemma split_pages:
  assumes "\<And>b. b \<in> set bs \<Longrightarrow> length b = ps"
  shows "map (\<lambda>i. bslice (i * ps) ps (concat bs)) [0..<length bs] = bs"
  using bslice_concat_equal [OF assms] by (intro nth_equalityI) simp_all

lemma small_group: "8 + n * ps \<le> MAX_TIERED_DECOMPRESSED_BYTES \<Longrightarrow> 8 + n * ps < U64_SIZE"
  by (simp add: MAX_TIERED_DECOMPRESSED_BYTES_def)

lemma page_group_decodes:
  assumes "codec_contract C" "encode_page_group C nonce pages ps aad key = Inr out" "length nonce = 12"
    and "list_all (fits_page ps) pages" "length pages < U32_SIZE" "ps < U32_SIZE"
    and "8 + length pages * ps \<le> MAX_TIERED_DECOMPRESSED_BYTES"
  shows "decode_page_group C out aad key = Inr (length pages, ps, map (page_bytes ps) pages)
    \<and> decode_page_group_bulk C out aad key = Inr (length pages, ps, concat (map (page_bytes ps) pages))"
proof -
  let ?bs = "map (page_bytes ps) pages" and ?n = "length pages"
  have len: "length b = ps" if "b \<in> set ?bs" for b using that assms(4) by (auto simp: list_all_iff)
  have total: "length (concat ?bs) = ?n * ps" using assms(4) by (rule length_page_list)
  have "seal_frame C nonce aad key (group_header ?n ps @ concat ?bs) = Inr out"
    using assms(2,5) by (simp add: encode_page_group_def Let_def)
  then have open_ok: "open_frame C aad key MAX_TIERED_DECOMPRESSED_BYTES out = Inr (group_header ?n ps @ concat ?bs)"
    using assms(1,3,7) total by (intro open_seal) (simp_all add: MAX_TIERED_DECOMPRESSED_BYTES_def)
  have parse: "parse_group (group_header ?n ps @ concat ?bs) = Inr (?n, ps, ?n * ps + 8)"
    using parse_group_header [OF assms(5,6) total small_group [OF assms(7)]] .
  have "map (\<lambda>i. bslice (i * ps) ps (concat ?bs)) [0..<?n] = ?bs" using split_pages [of ?bs ps, OF len] by (simp only: length_map)
  moreover have "bslice 8 (?n * ps) (group_header ?n ps @ concat ?bs) = concat ?bs"
    using drop_header [of 0 "?n * ps" ?n ps "concat ?bs"] total by (simp add: bslice_def)
  ultimately show ?thesis by (simp add: decode_page_group_def decode_page_group_bulk_def open_ok parse)
qed

text \<open>
  C21: a page group that was encoded decodes to the same pages: as many as were given, in order,
  each padded with zeros to the page size, empty pages as zero pages; the bulk decoder returns the
  same bytes as one buffer.
\<close>

theorem page_group_roundtrip:
  assumes "codec_contract C" "encode_page_group C nonce pages ps aad key = Inr out" "length nonce = 12"
    and "list_all (fits_page ps) pages" "length pages < U32_SIZE" "ps < U32_SIZE"
    and "8 + length pages * ps \<le> MAX_TIERED_DECOMPRESSED_BYTES"
  shows "decode_page_group C out aad key = Inr (length pages, ps, map (page_bytes ps) pages)
    \<and> decode_page_group_bulk C out aad key = Inr (length pages, ps, concat (map (page_bytes ps) pages))"
  using assms by (rule page_group_decodes)

text \<open>
  C23: decoding untrusted bytes is bounded: whatever the object holds, a successful decode returns as
  many pages as its header says, every one of the header's page size, and together they never
  exceed the decompression ceiling. The checked product keeps a hostile header from wrapping.
\<close>

theorem decode_page_group_bounded:
  assumes "decode_page_group C data aad key = Inr (n, ps, pages)"
  shows "length pages = n \<and> list_all (\<lambda>p. length p = ps) pages
    \<and> n * ps + 8 \<le> MAX_TIERED_DECOMPRESSED_BYTES"
proof -
  obtain raw k where raw: "open_frame C aad key MAX_TIERED_DECOMPRESSED_BYTES data = Inr raw"
    "parse_group raw = Inr (n, ps, k)" "pages = map (\<lambda>i. bslice (8 + i * ps) ps raw) [0..<n]"
    using assms by (auto simp: decode_page_group_def bind_result_Inr_iff)
  have k: "n * ps + 8 \<le> length raw"
    using raw(2) by (auto simp: parse_group_def checked_group_expected_len_def Let_def bind_result_Inr_iff
        split: if_splits option.splits bind_splits)
  have "length raw \<le> MAX_TIERED_DECOMPRESSED_BYTES"
    using raw(1) decompress_capped_bound by (auto simp: open_frame_def bind_result_Inr_iff)
  moreover have "length (bslice (8 + i * ps) ps raw) = ps" if "i < n" for i
  proof -
    have "Suc i * ps \<le> n * ps" using that by (intro mult_le_mono1) simp
    then show ?thesis using k by simp
  qed
  ultimately show ?thesis using k raw(3) by (auto simp: list_all_iff)
qed

text \<open>A codec that meets the contract: stored bytes unchanged, the associated data kept in the clear.\<close>

fun seal_aad :: "bytes \<Rightarrow> bytes \<Rightarrow> bytes" where
  "seal_aad [] x = 0 # x"
| "seal_aad (b # bs) x = 1 # b # seal_aad bs x"

fun open_aad :: "bytes \<Rightarrow> bytes \<Rightarrow> bytes io_result" where
  "open_aad [] (c # y) = (if c = 0 then Inr y else Inl (Io Other ''Decryption failed''))"
| "open_aad (b # bs) (c # d # y) = (if c = 1 \<and> b = d then open_aad bs y else Inl (Io Other ''Decryption failed''))"
| "open_aad _ _ = Inl (Io Other ''Decryption failed'')"

definition plain_codec :: codec where
  "plain_codec = \<lparr>zs_encode = Inr, zs_stream = (\<lambda>x. (x, None)),
     gcm_seal = (\<lambda>k n a x. Inr (seal_aad a x)), gcm_open = (\<lambda>k n a y. open_aad a y)\<rparr>"

lemma open_seal_aad: "open_aad a (seal_aad a x) = Inr x"
  by (induction a) simp_all

lemma open_other_aad: "a' \<noteq> a \<Longrightarrow> \<not> is_ok (open_aad a' (seal_aad a x))"
proof (induction a arbitrary: a')
  case Nil
  then show ?case by (cases a'; cases x) auto
next
  case (Cons b a)
  then show ?case by (cases a') auto
qed

lemma plain_codec_contract: "codec_contract plain_codec"
  by (simp add: codec_contract_def plain_codec_def open_seal_aad open_other_aad)

lemma plain_seal: "\<exists>out. seal_frame plain_codec nonce aad key raw = Inr out"
  by (cases key) (simp_all add: seal_frame_def compress_def encrypt_gcm_random_nonce_def plain_codec_def)

theorem page_group_roundtrip_witness:
  "\<exists>out. encode_page_group plain_codec (zeros 12) [Some [9, 8], None] 4 (aad_page_group 3) (Some []) = Inr out
     \<and> decode_page_group plain_codec out (aad_page_group 3) (Some []) = Inr (2, 4, [[9, 8, 0, 0], [0, 0, 0, 0]])"
proof -
  let ?pages = "[Some [9, 8], None]"
  obtain out where enc: "encode_page_group plain_codec (zeros 12) ?pages 4 (aad_page_group 3) (Some []) = Inr out"
    unfolding encode_page_group_def Let_def using plain_seal by blast
  have fit: "list_all (fits_page 4) ?pages" by (simp add: fits_page_def)
  have "decode_page_group plain_codec out (aad_page_group 3) (Some []) = Inr (length ?pages, 4, map (page_bytes 4) ?pages)"
    using page_group_roundtrip [OF plain_codec_contract enc _ fit] by (simp add: MAX_TIERED_DECOMPRESSED_BYTES_def)
  moreover have "page_bytes 4 (Some [9, 8]) = [9, 8, 0, 0]" "page_bytes 4 None = [0, 0, 0, 0]"
    by (simp_all add: page_bytes_def zeros_def numeral_eq_Suc)
  ultimately show ?thesis using enc by simp
qed

theorem decode_page_group_bounded_witness:
  "\<exists>n ps pages. decode_page_group plain_codec (group_header 1 2 @ [5, 6]) [] None = Inr (n, ps, pages)
     \<and> length pages = n \<and> n * ps + 8 \<le> MAX_TIERED_DECOMPRESSED_BYTES"
proof -
  have "parse_group (group_header 1 2 @ [5, 6]) = Inr (1, 2, 1 * 2 + 8)" by (rule parse_group_header) simp_all
  then have "decode_page_group plain_codec (group_header 1 2 @ [5, 6]) [] None
    = Inr (1, 2, map (\<lambda>i. bslice (8 + i * 2) 2 (group_header 1 2 @ [5, 6])) [0..<1])"
    by (simp add: decode_page_group_def open_frame_def decrypt_if_needed_def decompress_capped_def plain_codec_def
        MAX_TIERED_DECOMPRESSED_BYTES_def)
  from this decode_page_group_bounded [OF this] show ?thesis by blast
qed

subsection \<open>Seekable groups\<close>

fun entries_from :: "nat \<Rightarrow> bytes list \<Rightarrow> frame_entry list" where
  "entries_from off [] = []"
| "entries_from off (d # ds) = \<lparr>fe_offset = off, fe_len = length d mod U32_SIZE\<rparr> # entries_from (off + length d) ds"

lemma length_entries_from [simp]: "length (entries_from off ds) = length ds"
  by (induction ds arbitrary: off) simp_all

lemma encode_frames_result:
  assumes "encode_frames C nonces aad key k raws blob table = Inr (blob', table')"
  shows "\<exists>ds. list_all2 (\<lambda>raw d. \<exists>j. seal_frame C (nonces j) aad key raw = Inr d) raws ds
    \<and> blob' = blob @ concat ds \<and> table' = table @ entries_from (length blob) ds"
  using assms
proof (induction raws arbitrary: k blob table)
  case (Cons raw raws)
  then obtain d where d: "seal_frame C (nonces k) aad key raw = Inr d"
    and rest: "encode_frames C nonces aad key (k + 1) raws (blob @ d)
      (table @ [\<lparr>fe_offset = length blob, fe_len = length d mod U32_SIZE\<rparr>]) = Inr (blob', table')"
    by (auto simp: bind_result_Inr_iff)
  obtain ds where "list_all2 (\<lambda>raw d. \<exists>j. seal_frame C (nonces j) aad key raw = Inr d) raws ds"
    "blob' = (blob @ d) @ concat ds"
    "table' = (table @ [\<lparr>fe_offset = length blob, fe_len = length d mod U32_SIZE\<rparr>]) @ entries_from (length (blob @ d)) ds"
    using Cons.IH [OF rest] by blast
  then show ?case using d by (intro exI [of _ "d # ds"]) auto
qed simp

lemma entries_from_nth:
  assumes "i < length ds" "length (ds ! i) < U32_SIZE"
  shows "bslice (fe_offset (entries_from (length pre) ds ! i)) (fe_len (entries_from (length pre) ds ! i)) (pre @ concat ds) = ds ! i"
  using assms
proof (induction ds arbitrary: pre i)
  case (Cons d ds)
  show ?case
  proof (cases i)
    case 0
    then show ?thesis using Cons.prems by (simp add: bslice_def)
  next
    case (Suc j)
    then show ?thesis using Cons.prems Cons.IH [of j "pre @ d"] by simp
  qed
qed simp

lemma decode_frames_entries:
  assumes "list_all2 (\<lambda>raw d. open_frame C aad key cap d = Inr raw) raws ds"
    and "\<And>d. d \<in> set ds \<Longrightarrow> length d < U32_SIZE" "length (pre @ concat ds) < U64_SIZE"
  shows "decode_frames C aad key cap (pre @ concat ds) (entries_from (length pre) ds) output = Inr (output @ concat raws)"
  using assms
proof (induction raws ds arbitrary: pre "output" rule: list_all2_induct)
  case (Cons raw raws d ds)
  have "length d < 4294967296" "length pre + length d < 18446744073709551616" using Cons.prems by simp_all
  moreover have "bslice (length pre) (length d) (pre @ d @ concat ds) = d" by (simp add: bslice_def)
  moreover have "decode_frames C aad key cap ((pre @ d) @ concat ds) (entries_from (length (pre @ d)) ds) (output @ raw)
    = Inr ((output @ raw) @ concat raws)"
    using Cons.prems by (intro Cons.IH) simp_all
  ultimately show ?case using Cons.hyps(1) by (simp add: Let_def)
qed simp

lemma map_nth_upt: "map (\<lambda>i. f (xs ! i)) [a..<b] = map f (bslice a (b - a) xs)" if "b \<le> length xs"
  using that by (intro nth_equalityI) (auto simp: bslice_def)

lemma frame_raw_slice: "frame_raw ps spf pages k = concat (map (page_bytes ps) (bslice (k * spf) spf pages))"
proof -
  let ?n = "length pages"
  have "bslice (k * spf) (min (k * spf + spf) ?n - k * spf) pages = bslice (k * spf) spf pages"
    by (auto simp: bslice_def min_def)
  then show ?thesis by (simp add: frame_raw_def Let_def map_nth_upt)
qed

lemma concat_slices:
  assumes "0 < b"
  shows "concat (map (\<lambda>k. bslice (k * b) b xs) [0..<div_ceil (length xs) b]) = xs"
proof -
  have "concat (map (\<lambda>k. bslice (k * b) b xs) [0..<m]) = take (m * b) xs" for m
  proof (induction m)
    case (Suc m)
    have "Suc m * b = m * b + b" by simp
    then have "take (Suc m * b) xs = take (m * b) xs @ bslice (m * b) b xs" by (simp only: take_add bslice_def)
    then show ?case using Suc by simp
  qed simp
  moreover have "length xs \<le> div_ceil (length xs) b * b"
    using less_div_ceil_iff [OF assms, of "div_ceil (length xs) b" "length xs"] by simp
  ultimately show ?thesis by simp
qed

lemma concat_frame_raws:
  assumes "0 < spf"
  shows "concat (map (frame_raw ps spf pages) [0..<div_ceil (length pages) spf]) = concat (map (page_bytes ps) pages)"
proof -
  have "concat (map (frame_raw ps spf pages) [0..<m])
    = concat (map (page_bytes ps) (concat (map (\<lambda>k. bslice (k * spf) spf pages) [0..<m])))" for m
    by (induction m) (simp_all add: frame_raw_slice)
  then show ?thesis by (simp add: concat_slices [OF assms])
qed

lemma seekable_decodes:
  assumes "codec_contract C" "encode_page_group_seekable C nonces pages ps spf aad key = Inr (blob, table)"
    and "\<And>k. length (nonces k) = 12" "list_all (fits_page ps) pages" "0 < ps" "0 < spf"
    and "length pages < U32_SIZE" "length pages * ps \<le> MAX_TIERED_DECOMPRESSED_BYTES"
    and "length blob < U32_SIZE" "min ppg (page_total - first) = length pages"
  shows "length table = div_ceil (length pages) spf
    \<and> (\<forall>i < length table. decode_seekable_subchunk C (bslice (fe_offset (table ! i)) (fe_len (table ! i)) blob) aad key
         = Inr (concat (map (page_bytes ps) (bslice (i * spf) spf pages))))
    \<and> decode_page_group_seekable_full C blob table ps ppg page_total first aad key
         = Inr (length pages, ps, concat (map (page_bytes ps) pages))"
proof -
  let ?raws = "map (frame_raw ps spf pages) [0..<div_ceil (length pages) spf]" and ?n = "length pages"
  let ?all = "concat (map (page_bytes ps) pages)"
  obtain ds where sealed: "list_all2 (\<lambda>raw d. \<exists>j. seal_frame C (nonces j) aad key raw = Inr d) ?raws ds"
    and blob: "blob = concat ds" and table: "table = entries_from 0 ds"
    using assms(2,6) encode_frames_result [of C nonces aad key 0 ?raws "[]" "[]" blob table]
    by (auto simp: encode_page_group_seekable_def)
  have total: "length ?all = ?n * ps" using assms(4) by (rule length_page_list)
  have rawlen: "length raw \<le> ?n * ps" if "raw \<in> set ?raws" for raw
  proof -
    have "length raw \<le> length (concat ?raws)" using that by (rule length_le_concat)
    then show ?thesis by (simp only: concat_frame_raws [OF assms(6)] total)
  qed
  have opened: "list_all2 (\<lambda>raw d. open_frame C aad key cap d = Inr raw) ?raws ds" if "?n * ps \<le> cap" "cap + 1 < U64_SIZE" for cap
  proof (rule list.rel_mono_strong [OF sealed])
    fix raw d
    assume raw: "raw \<in> set ?raws" and "\<exists>j. seal_frame C (nonces j) aad key raw = Inr d"
    then obtain j where "seal_frame C (nonces j) aad key raw = Inr d" by blast
    then show "open_frame C aad key cap d = Inr raw"
      using order.trans [OF rawlen [OF raw] that(1)] that(2) assms(1,3) by (intro open_seal)
  qed
  have small: "length d < U32_SIZE" if "d \<in> set ds" for d
  proof -
    have "length d \<le> length (concat ds)" using that by (rule length_le_concat)
    then show ?thesis using assms(9) unfolding blob by (rule le_less_trans)
  qed
  have len: "length ds = div_ceil ?n spf" using list_all2_lengthD [OF sealed] by simp
  have max: "MAX_TIERED_DECOMPRESSED_BYTES + 1 < U64_SIZE" by (simp add: MAX_TIERED_DECOMPRESSED_BYTES_def)
  have "decode_seekable_subchunk C (bslice (fe_offset (table ! i)) (fe_len (table ! i)) blob) aad key
         = Inr (concat (map (page_bytes ps) (bslice (i * spf) spf pages)))" if "i < length table" for i
  proof -
    have i: "i < length ds" using that table by simp
    then have "bslice (fe_offset (table ! i)) (fe_len (table ! i)) blob = ds ! i"
      using entries_from_nth [of i ds "[]"] small by (simp add: table blob)
    moreover have "open_frame C aad key MAX_TIERED_DECOMPRESSED_BYTES (ds ! i) = Inr (frame_raw ps spf pages i)"
      using opened [OF assms(8) max] i len by (auto simp: list_all2_conv_all_nth)
    ultimately show ?thesis by (simp add: decode_seekable_subchunk_def frame_raw_slice)
  qed
  moreover have "decode_page_group_seekable_full C blob table ps ppg page_total first aad key = Inr (?n, ps, ?all)"
  proof -
    have cap: "?n * ps \<le> frame_cap ?n ps" "frame_cap ?n ps + 1 < U64_SIZE"
      using assms(8) by (auto simp: frame_cap_def checked_mul_def MAX_TIERED_DECOMPRESSED_BYTES_def)
    have "decode_frames C aad key (frame_cap ?n ps) ([] @ concat ds) (entries_from (length ([] :: bytes)) ds) [] = Inr ([] @ concat ?raws)"
      using opened [OF cap] small assms(9) blob by (intro decode_frames_entries) simp_all
    then have "decode_frames C aad key (frame_cap ?n ps) blob table [] = Inr ?all"
      using concat_frame_raws [OF assms(6)] by (simp add: blob table)
    then show ?thesis using assms(5,7,10) total by (simp add: decode_page_group_seekable_full_def Let_def)
  qed
  ultimately show ?thesis using len table by simp
qed

text \<open>
  C20: a seekable page group can be read frame by frame and as a whole: the frame table has one
  entry per frame, the byte range of entry \<open>i\<close> of the object opens to exactly the pages of frame
  \<open>i\<close>, and the full decode returns all pages in order.
\<close>

theorem seekable_roundtrip:
  assumes "codec_contract C" "encode_page_group_seekable C nonces pages ps spf aad key = Inr (blob, table)"
    and "\<And>k. length (nonces k) = 12" "list_all (fits_page ps) pages" "0 < ps" "0 < spf"
    and "length pages < U32_SIZE" "length pages * ps \<le> MAX_TIERED_DECOMPRESSED_BYTES"
    and "length blob < U32_SIZE" "min ppg (page_total - first) = length pages"
  shows "length table = div_ceil (length pages) spf
    \<and> (\<forall>i < length table. decode_seekable_subchunk C (bslice (fe_offset (table ! i)) (fe_len (table ! i)) blob) aad key
         = Inr (concat (map (page_bytes ps) (bslice (i * spf) spf pages))))
    \<and> decode_page_group_seekable_full C blob table ps ppg page_total first aad key
         = Inr (length pages, ps, concat (map (page_bytes ps) pages))"
  using assms by (rule seekable_decodes)

theorem seekable_roundtrip_witness:
  "\<exists>blob table. encode_page_group_seekable plain_codec (\<lambda>_. zeros 12) [Some [9], None, Some [7]] 1 2 [] None = Inr (blob, table)
     \<and> decode_page_group_seekable_full plain_codec blob table 1 8 3 0 [] None = Inr (3, 1, [9, 0, 7])"
proof -
  let ?pages = "[Some [9], None, Some [7]] :: bytes option list"
  have enc: "encode_page_group_seekable plain_codec (\<lambda>_. zeros 12) ?pages 1 2 [] None
    = Inr ([9, 0, 7], [\<lparr>fe_offset = 0, fe_len = 2\<rparr>, \<lparr>fe_offset = 2, fe_len = 1\<rparr>])"
  proof -
    have "div_ceil (length ?pages) 2 = Suc (Suc 0)" by (simp add: div_ceil_def)
    then have "map (frame_raw 1 2 ?pages) [0..<div_ceil (length ?pages) 2] = [[9, 0], [7]]"
      by (simp only:) (simp add: frame_raw_slice bslice_def page_bytes_def zeros_def)
    then show ?thesis
      by (simp add: encode_page_group_seekable_def seal_frame_def compress_def plain_codec_def)
  qed
  have fit: "list_all (fits_page 1) ?pages" by (simp add: fits_page_def)
  have "decode_page_group_seekable_full plain_codec [9, 0, 7] [\<lparr>fe_offset = 0, fe_len = 2\<rparr>, \<lparr>fe_offset = 2, fe_len = 1\<rparr>] 1 8 3 0 [] None
    = Inr (length ?pages, 1, concat (map (page_bytes 1) ?pages))"
    using seekable_roundtrip [OF plain_codec_contract enc _ fit, of 8 3 0]
    by (simp add: MAX_TIERED_DECOMPRESSED_BYTES_def)
  then show ?thesis using enc by (auto simp: page_bytes_def zeros_def)
qed

subsection \<open>Bundles\<close>

lemma concat_le_bytes_slice:
  assumes "i < length ns" "list_all (\<lambda>n. n < U64_SIZE) ns"
  shows "le_val (bslice (i * 8) 8 (concat (map (le_bytes 8) ns) @ xs)) = ns ! i"
proof -
  have len: "length b = 8" if "b \<in> set (map (le_bytes 8) ns)" for b using that by auto
  have total: "length (concat (map (le_bytes 8) ns)) = length ns * 8"
    using length_concat_equal [of "map (le_bytes 8) ns" 8, OF len] by (simp only: length_map)
  have "i * 8 + 8 \<le> length (concat (map (le_bytes 8) ns))" unfolding total using assms(1) by simp
  then have "bslice (i * 8) 8 (concat (map (le_bytes 8) ns) @ xs) = bslice (i * 8) 8 (concat (map (le_bytes 8) ns))"
    by (rule bslice_append_left)
  also have "\<dots> = le_bytes 8 (ns ! i)"
    using bslice_concat_equal [of "map (le_bytes 8) ns" 8, OF len] assms(1) by simp
  finally have "bslice (i * 8) 8 (concat (map (le_bytes 8) ns) @ xs) = le_bytes 8 (ns ! i)" .
  moreover have "ns ! i < 256 ^ 8" using assms by (auto simp: list_all_length)
  ultimately show ?thesis by (simp only: le_val_bytes)
qed

text \<open>
  C24: an interior or index bundle decodes to the page numbers and pages it was built from, in
  order, each page padded to the page size.
\<close>

theorem bundle_roundtrip:
  assumes "codec_contract C" "encode_interior_bundle C nonce pages ps aad key = Inr out" "length nonce = 12"
    and "list_all (\<lambda>(n, d). n < U64_SIZE \<and> length d \<le> ps) pages" "length pages < U32_SIZE" "ps < U32_SIZE"
    and "8 + length pages * 8 + length pages * ps \<le> MAX_TIERED_DECOMPRESSED_BYTES"
  shows "decode_interior_bundle C out aad key = Inr (map (\<lambda>(n, d). (n, page_bytes ps (Some d))) pages)"
proof -
  let ?n = "length pages" and ?nums = "concat (map (le_bytes 8) (map fst pages))"
  let ?bs = "map (page_bytes ps) (map (Some \<circ> snd) pages)"
  let ?raw = "group_header ?n ps @ ?nums @ concat ?bs"
  have fit: "list_all (fits_page ps) (map (Some \<circ> snd) pages)"
    using assms(4) by (auto simp: list_all_iff fits_page_def)
  have blen: "length (concat ?bs) = ?n * ps" using length_page_list [OF fit] by simp
  have nlen: "length ?nums = ?n * 8" by (induction pages) simp_all
  have raw: "group_header (?n mod U32_SIZE) ps @ concat (map (\<lambda>(pnum, _). le_bytes 8 pnum) pages)
      @ concat (map (\<lambda>(_, data). page_bytes ps (Some data)) pages) = ?raw"
    using assms(5) by (simp add: case_prod_unfold comp_def)
  have "seal_frame C nonce aad key ?raw = Inr out"
    using assms(2) unfolding encode_interior_bundle_def raw .
  moreover have len: "length ?raw = ?n * ps + (?n * 8 + 8)" using blen nlen by (simp only: length_append length_group_header)
  ultimately have op: "open_frame C aad key MAX_TIERED_DECOMPRESSED_BYTES out = Inr ?raw"
    using assms(7) by (intro open_seal [OF assms(1) _ assms(3)]) (simp_all only: len, simp_all add: MAX_TIERED_DECOMPRESSED_BYTES_def)
  have nums: "le_val (bslice (8 + i * 8) 8 ?raw) = fst (pages ! i)" if "i < ?n" for i
    using concat_le_bytes_slice [of i "map fst pages" "concat ?bs"] that assms(4)
    by (simp add: list_all_iff case_prod_unfold)
  have data: "bslice (8 + ?n * 8 + i * ps) ps ?raw = page_bytes ps (Some (snd (pages ! i)))" if "i < ?n" for i
  proof -
    have len: "length b = ps" if "b \<in> set ?bs" for b using that fit by (auto simp: list_all_iff)
    have "bslice (8 + (?n * 8 + i * ps)) ps ?raw = bslice (i * ps) ps (concat ?bs)"
      using nlen by (simp only: drop_header) (simp add: bslice_append_right)
    also have "\<dots> = ?bs ! i" using bslice_concat_equal [of ?bs ps, OF len] that by simp
    finally show ?thesis using that by (simp add: add.assoc)
  qed
  have "parse_bundle ?raw = Inr (map (\<lambda>i. (le_val (bslice (8 + i * 8) 8 ?raw), bslice (8 + ?n * 8 + i * ps) ps ?raw)) [0..<?n])"
    using assms(5-7) len unfolding parse_bundle_def group_header_fields [OF assms(5,6)]
    by (simp add: Let_def checked_mul_def checked_add_def MAX_TIERED_DECOMPRESSED_BYTES_def add.commute)
  also have "map (\<lambda>i. (le_val (bslice (8 + i * 8) 8 ?raw), bslice (8 + ?n * 8 + i * ps) ps ?raw)) [0..<?n]
    = map (\<lambda>i. (fst (pages ! i), page_bytes ps (Some (snd (pages ! i))))) [0..<?n]"
    by (rule map_cong [OF refl]) (simp only: nums data set_upt atLeastLessThan_iff)
  also have "\<dots> = map (\<lambda>(n, d). (n, page_bytes ps (Some d))) pages"
    by (rule nth_equalityI) (simp_all add: case_prod_unfold)
  finally show ?thesis by (simp only: decode_interior_bundle_def op bind_result.simps)
qed

theorem bundle_roundtrip_witness:
  "\<exists>out. encode_interior_bundle plain_codec (zeros 12) [(5, [1]), (9, [2, 3])] 2 (aad_interior_bundle 0) (Some []) = Inr out
     \<and> decode_interior_bundle plain_codec out (aad_interior_bundle 0) (Some []) = Inr [(5, [1, 0]), (9, [2, 3])]"
proof -
  let ?pages = "[(5, [1]), (9, [2, 3])] :: (nat \<times> bytes) list"
  obtain out where enc: "encode_interior_bundle plain_codec (zeros 12) ?pages 2 (aad_interior_bundle 0) (Some []) = Inr out"
    unfolding encode_interior_bundle_def using plain_seal by blast
  have ok: "list_all (\<lambda>(n, d). n < U64_SIZE \<and> length d \<le> 2) ?pages" by simp
  have "decode_interior_bundle plain_codec out (aad_interior_bundle 0) (Some [])
    = Inr (map (\<lambda>(n, d). (n, page_bytes 2 (Some d))) ?pages)"
    using bundle_roundtrip [OF plain_codec_contract enc _ ok] by (simp add: MAX_TIERED_DECOMPRESSED_BYTES_def)
  then show ?thesis using enc by (simp add: page_bytes_def zeros_def)
qed

subsection \<open>Binding to the slot\<close>

lemma aad_of_inj:
  assumes "slot_in_range s" "slot_in_range s'" "s \<noteq> s'"
  shows "aad_of s' \<noteq> aad_of s"
  using assms by (cases s; cases s') (auto simp: aad_defs dest!: le_bytes_inj)

lemma decode_frames_rejects:
  assumes "d \<in> set ds" "\<not> is_ok (open_frame C aad key cap d)" "\<And>d. d \<in> set ds \<Longrightarrow> length d < U32_SIZE" "length (pre @ concat ds) < U64_SIZE"
  shows "\<not> is_ok (decode_frames C aad key cap (pre @ concat ds) (entries_from (length pre) ds) output)"
  using assms
proof (induction ds arbitrary: pre "output")
  case (Cons x ds)
  have x: "length x < 4294967296" "length pre + length x < 18446744073709551616" using Cons.prems(3,4) by simp_all
  have slice: "bslice (length pre) (length x) (pre @ x @ concat ds) = x" by (simp add: bslice_def)
  show ?case
  proof (cases "open_frame C aad key cap x")
    case (Inl e)
    then show ?thesis using x slice by (simp add: Let_def)
  next
    case (Inr raw)
    then have "d \<in> set ds" using Cons.prems(1,2) by auto
    then have "\<not> is_ok (decode_frames C aad key cap ((pre @ x) @ concat ds) (entries_from (length (pre @ x)) ds) (output @ raw))"
      using Cons.prems(2-4) by (intro Cons.IH) simp_all
    then show ?thesis using x slice Inr by (simp add: Let_def)
  qed
qed simp

text \<open>No frame of a seekable group opens under another slot, and so the group does not decode there.\<close>

lemma relocated_frames_rejected:
  assumes "codec_contract C" "aad' \<noteq> aad" "\<And>j. length (nonces j) = 12" "pages \<noteq> []" "length blob < U32_SIZE"
    and "encode_page_group_seekable C nonces pages ps spf aad (Some k) = Inr (blob, table)"
  shows "(\<forall>e \<in> set table. \<not> is_ok (decode_seekable_subchunk C (bslice (fe_offset e) (fe_len e) blob) aad' (Some k)))
    \<and> \<not> is_ok (decode_page_group_seekable_full C blob table ps' ppg page_total first aad' (Some k))"
proof -
  let ?raws = "map (frame_raw ps spf pages) [0..<div_ceil (length pages) spf]"
  have spf: "spf \<noteq> 0" using assms(6) by (auto simp: encode_page_group_seekable_def panic_def split: if_splits)
  obtain ds where sealed: "list_all2 (\<lambda>raw d. \<exists>j. seal_frame C (nonces j) aad (Some k) raw = Inr d) ?raws ds"
    and blob: "blob = concat ds" and table: "table = entries_from 0 ds"
    using assms(6) spf encode_frames_result [of C nonces aad "Some k" 0 ?raws "[]" "[]" blob table] by (auto simp: encode_page_group_seekable_def)
  have closed: "\<not> is_ok (open_frame C aad' (Some k) cap d)" if "d \<in> set ds" for d cap
  proof -
    obtain raw j where "seal_frame C (nonces j) aad (Some k) raw = Inr d" using sealed \<open>d \<in> set ds\<close> by (auto simp: list_all2_conv_all_nth in_set_conv_nth)
    then show ?thesis by (rule open_wrong_aad [OF assms(1) _ assms(3,2)])
  qed
  have small: "length d < U32_SIZE" if "d \<in> set ds" for d
    using length_le_concat [OF that] assms(5) unfolding blob by (rule le_less_trans)
  have "length ds = div_ceil (length pages) spf" using list_all2_lengthD [OF sealed] by simp
  then have "ds \<noteq> []" using assms(4) spf by (auto simp: div_ceil_def mod_eq_0_iff_dvd div_eq_0_iff dvd_imp_le split: if_splits)
  then obtain d where d: "d \<in> set ds" by (cases ds) auto
  have frames: "\<not> is_ok (decode_seekable_subchunk C (bslice (fe_offset e) (fe_len e) blob) aad' (Some k))" if "e \<in> set table" for e
  proof -
    obtain i where i: "i < length ds" "e = entries_from 0 ds ! i" using \<open>e \<in> set table\<close> unfolding table by (metis in_set_conv_nth length_entries_from)
    then have "bslice (fe_offset e) (fe_len e) blob = ds ! i" using entries_from_nth [of i ds "[]"] small by (simp add: blob)
    then show ?thesis using closed [OF nth_mem [OF i(1)]] by (simp add: decode_seekable_subchunk_def)
  qed
  have "length blob < U64_SIZE" using assms(5) by simp
  then have "\<not> is_ok (decode_frames C aad' (Some k) cap blob table [])" for cap
    using decode_frames_rejects [OF d closed [OF d] small, of "[]" cap "[]"] by (simp add: blob table)
  then have "\<exists>e. decode_frames C aad' (Some k) cap blob table [] = Inl e" for cap by (metis is_ok.simps(2) sum.exhaust)
  then have "\<not> is_ok (decode_page_group_seekable_full C blob table ps' ppg page_total first aad' (Some k))"
    unfolding decode_page_group_seekable_full_def Let_def by (metis bind_result.simps(1) is_ok.simps(1))
  then show ?thesis using frames by blast
qed

text \<open>
  C22: an encrypted object cannot be moved to another slot. What was encrypted as one piece for one slot (a
  page group, a bundle, an override frame) is rejected by the group decoders, the bundle decoder
  and the frame decoder when it is read under the identity of any other slot. A seekable page group, the default
  format, of at least one page is rejected there too: each range of its frame table by the frame decoder, and the whole object with its
  frame table by the full decoder, whatever geometry that is given. (A full decode with an empty frame table reads
  nothing and rejects nothing.)
\<close>

theorem relocated_object_rejected:
  assumes "codec_contract C" "slot_in_range s" "slot_in_range s'" "s \<noteq> s'" "\<And>j. length (nonces j) = 12"
  shows "(encode_page_group C (nonces 0) pages ps (aad_of s) (Some k) = Inr out
        \<or> encode_interior_bundle C (nonces 0) bundle ps (aad_of s) (Some k) = Inr out
        \<or> encode_override_frame C (nonces 0) dirty ps (aad_of s) (Some k) = Inr out
      \<longrightarrow> \<not> is_ok (decode_page_group C out (aad_of s') (Some k))
        \<and> \<not> is_ok (decode_page_group_bulk C out (aad_of s') (Some k))
        \<and> \<not> is_ok (decode_interior_bundle C out (aad_of s') (Some k))
        \<and> \<not> is_ok (decode_seekable_subchunk C out (aad_of s') (Some k)))
    \<and> (encode_page_group_seekable C nonces pages ps spf (aad_of s) (Some k) = Inr (blob, table) \<and> pages \<noteq> [] \<and> length blob < U32_SIZE
      \<longrightarrow> (\<forall>e \<in> set table. \<not> is_ok (decode_seekable_subchunk C (bslice (fe_offset e) (fe_len e) blob) (aad_of s') (Some k)))
        \<and> \<not> is_ok (decode_page_group_seekable_full C blob table ps' ppg page_total first (aad_of s') (Some k)))"
proof (intro conjI impI)
  note aad = aad_of_inj [OF assms(2-4)]
  assume "encode_page_group C (nonces 0) pages ps (aad_of s) (Some k) = Inr out
      \<or> encode_interior_bundle C (nonces 0) bundle ps (aad_of s) (Some k) = Inr out
      \<or> encode_override_frame C (nonces 0) dirty ps (aad_of s) (Some k) = Inr out"
  then obtain raw where "seal_frame C (nonces 0) (aad_of s) (Some k) raw = Inr out"
    unfolding encode_page_group_def encode_interior_bundle_def encode_override_frame_def Let_def by blast
  then have "\<not> is_ok (open_frame C (aad_of s') (Some k) cap out)" for cap
    using open_wrong_aad [OF assms(1) _ assms(5) aad] by blast
  then have "\<exists>e. open_frame C (aad_of s') (Some k) MAX_TIERED_DECOMPRESSED_BYTES out = Inl e"
    by (metis is_ok.simps(2) sum.exhaust)
  then show "\<not> is_ok (decode_page_group C out (aad_of s') (Some k))" "\<not> is_ok (decode_page_group_bulk C out (aad_of s') (Some k))"
      "\<not> is_ok (decode_interior_bundle C out (aad_of s') (Some k))" "\<not> is_ok (decode_seekable_subchunk C out (aad_of s') (Some k))"
    by (auto simp: decode_page_group_def decode_page_group_bulk_def decode_interior_bundle_def decode_seekable_subchunk_def)
next
  assume e: "encode_page_group_seekable C nonces pages ps spf (aad_of s) (Some k) = Inr (blob, table) \<and> pages \<noteq> [] \<and> length blob < U32_SIZE"
  then have e: "encode_page_group_seekable C nonces pages ps spf (aad_of s) (Some k) = Inr (blob, table)" "pages \<noteq> []" "length blob < U32_SIZE" by simp_all
  note rejected = relocated_frames_rejected [OF assms(1) aad_of_inj [OF assms(2-4)] assms(5) e(2,3,1)]
  show "\<forall>e \<in> set table. \<not> is_ok (decode_seekable_subchunk C (bslice (fe_offset e) (fe_len e) blob) (aad_of s') (Some k))"
      "\<not> is_ok (decode_page_group_seekable_full C blob table ps' ppg page_total first (aad_of s') (Some k))"
    using rejected by blast+
qed

theorem relocated_object_rejected_witness:
  "(\<exists>out. encode_override_frame plain_codec (zeros 12) [(5, [1])] 2 (aad_of (OverrideSlot 3 0)) (Some []) = Inr out
     \<and> \<not> is_ok (decode_seekable_subchunk plain_codec out (aad_of (PageGroupSlot 3)) (Some [])))
   \<and> (\<exists>blob table. encode_page_group_seekable plain_codec (\<lambda>_. zeros 12) [Some [9]] 1 2 (aad_of (PageGroupSlot 3)) (Some []) = Inr (blob, table)
     \<and> \<not> is_ok (decode_page_group_seekable_full plain_codec blob table 1 8 1 0 (aad_of (PageGroupSlot 4)) (Some [])))"
proof -
  have nonces: "\<And>j. length ((\<lambda>_. zeros 12) j) = 12" by simp
  have slots: "slot_in_range (OverrideSlot 3 0)" "slot_in_range (PageGroupSlot 3)" "OverrideSlot 3 0 \<noteq> PageGroupSlot 3"
      "slot_in_range (PageGroupSlot 4)" "PageGroupSlot 3 \<noteq> PageGroupSlot 4" by simp_all
  obtain out where enc: "encode_override_frame plain_codec (zeros 12) [(5, [1])] 2 (aad_of (OverrideSlot 3 0)) (Some []) = Inr out"
    unfolding encode_override_frame_def using plain_seal by blast
  have sealed: "length (seal_aad a x) = 2 * length a + 1 + length x" for a x by (induction a) simp_all
  have frames: "map (frame_raw 1 2 [Some [9]]) [0..<div_ceil (length [Some [9 :: byte]]) 2] = [[9]]"
    by (simp add: div_ceil_def frame_raw_slice bslice_def page_bytes_def zeros_def)
  have "\<exists>blob table. encode_page_group_seekable plain_codec (\<lambda>_. zeros 12) [Some [9]] 1 2 (aad_of (PageGroupSlot 3)) (Some []) = Inr (blob, table)
      \<and> length blob < U32_SIZE"
    unfolding encode_page_group_seekable_def frames
    by (simp add: seal_frame_def compress_def encrypt_gcm_random_nonce_def plain_codec_def sealed aad_defs)
  then obtain blob table where g: "encode_page_group_seekable plain_codec (\<lambda>_. zeros 12) [Some [9]] 1 2 (aad_of (PageGroupSlot 3)) (Some []) = Inr (blob, table)"
      "length blob < U32_SIZE" by blast
  have "\<not> is_ok (decode_seekable_subchunk plain_codec out (aad_of (PageGroupSlot 3)) (Some []))"
    using relocated_object_rejected [OF plain_codec_contract slots(1-3) nonces, THEN conjunct1, THEN mp] enc by blast
  moreover have "\<not> is_ok (decode_page_group_seekable_full plain_codec blob table 1 8 1 0 (aad_of (PageGroupSlot 4)) (Some []))"
    using relocated_object_rejected [OF plain_codec_contract slots(2,4,5) nonces, THEN conjunct2, THEN mp] g by blast
  ultimately show ?thesis using enc g by blast
qed

end
