(* ===== verification/Disk_Cache.thy ===== *)
theory Disk_Cache
  imports Local_State Bitmap Encoding
begin

text \<open>
  The local page cache (\<open>DiskCache\<close> of \<open>src/src/tiered/disk_cache.rs\<close>): the cache file in
  its plain, encrypted and compressed forms, the in-memory page table, the page bitmap, the
  sub-chunk tracker, the compressed index and the group states. Every operation runs on the state
  as one step: the source holds the eviction lock (and, for compressed pages, the compaction lock)
  across the steps that must not interleave. The clock is the argument \<open>now\<close>; the random nonces
  of the page frames are arguments; \<open>iter\<close> and \<open>piter\<close> are the iteration orders of the hash
  sets of sub-chunks and of numbers.
\<close>

subsection \<open>State\<close>

record disk_cache =
  dc_disk :: disk
  dc_file_len :: nat
  dc_mem :: "bytes option list option"
  dc_mem_budget :: nat
  dc_mem_bytes :: nat
  dc_generation :: nat
  dc_tracker :: tracker
  dc_bitmap :: page_bitmap
  dc_group_states :: "group_state list"
  dc_interior_groups :: "nat set"
  dc_interior_pages :: "nat set"
  dc_index_pages :: "nat set"
  dc_group_access :: "nat \<rightharpoonup> rat"
  dc_ttl_secs :: nat
  dc_ppg :: nat
  dc_spf :: nat
  dc_page_size :: nat
  dc_key :: "bytes option"
  dc_group_pages :: "nat list list"
  dc_compression :: bool
  dc_index :: cache_index
  dc_tainted :: bool
  dc_budget_bytes :: nat
  dc_eviction_counter :: nat
  dc_stat_evictions :: nat
  dc_stat_bytes_evicted :: nat
  dc_stat_peak :: nat
  dc_stat_last_evictions :: nat

type_synonym 'a cache_op = "disk_cache \<Rightarrow> 'a io_result \<times> disk_cache"

definition on_disk :: "(disk \<Rightarrow> 'a io_result \<times> disk) \<Rightarrow> 'a cache_op" where
  "on_disk f dc = (case f (dc_disk dc) of (r, d) \<Rightarrow> (r, dc\<lparr>dc_disk := d\<rparr>))"

subsection \<open>In-memory pages\<close>

definition ensure_mem_cache_capacity :: "nat \<Rightarrow> disk_cache \<Rightarrow> disk_cache" where
  "ensure_mem_cache_capacity page_num dc =
     (case dc_mem dc of None \<Rightarrow> dc
      | Some mc \<Rightarrow> dc\<lparr>dc_mem := Some (mc @ replicate (page_num + 1 - length mc) None)\<rparr>)"

definition install_mem_cache_page :: "nat \<Rightarrow> bytes \<Rightarrow> disk_cache \<Rightarrow> disk_cache" where
  "install_mem_cache_page pnum data dc =
     (if dc_mem dc = None \<or> dc_page_size dc = 0 then dc
      else let ps = dc_page_size dc;
               dc = ensure_mem_cache_capacity pnum dc;
               mc = the (dc_mem dc);
               is_new = (mc ! pnum = None)
           in if is_new \<and> dc_mem_budget dc < dc_mem_bytes dc + ps then dc
              else let page_buf = take ps data @ zeros (ps - length data);
                       dc = dc\<lparr>dc_mem := Some (mc[pnum := Some page_buf])\<rparr>
                   in if is_new then dc\<lparr>dc_mem_bytes := dc_mem_bytes dc + ps\<rparr> else dc)"

definition drop_mem_slot :: "nat \<Rightarrow> nat \<Rightarrow> disk_cache \<Rightarrow> disk_cache" where
  "drop_mem_slot ps pn dc =
     (case dc_mem dc of None \<Rightarrow> dc
      | Some mc \<Rightarrow>
          if pn < length mc \<and> mc ! pn \<noteq> None
          then dc\<lparr>dc_mem := Some (mc[pn := None]), dc_mem_bytes := wrapping_sub (dc_mem_bytes dc) ps\<rparr> else dc)"

definition clear_pages_from_mem_cache :: "nat list \<Rightarrow> disk_cache \<Rightarrow> disk_cache" where
  "clear_pages_from_mem_cache page_nums dc =
     (if dc_mem dc = None \<or> dc_page_size dc = 0 then dc
      else fold (drop_mem_slot (dc_page_size dc)) page_nums dc)"

definition page_slice :: "nat \<Rightarrow> bytes \<Rightarrow> nat \<Rightarrow> bytes" where
  "page_slice ps raw_data i = bslice (i * ps) ps raw_data"

definition install_pages :: "(nat \<times> bytes) list \<Rightarrow> disk_cache \<Rightarrow> disk_cache" where
  "install_pages ps dc = fold (\<lambda>(pnum, data). install_mem_cache_page pnum data) ps dc"

definition promote_scattered_to_mem_cache :: "nat list \<Rightarrow> bytes \<Rightarrow> unit cache_op" where
  "promote_scattered_to_mem_cache page_nums raw_data dc =
     (let ps = dc_page_size dc in
      if ps = 0 \<or> page_nums = [] then (Inr (), dc)
      else if length raw_data < length page_nums * ps
        then (Inl (Io InvalidData ''promote_scattered_to_mem_cache: data too short''), dc)
      else (Inr (), install_pages (zip page_nums (map (page_slice ps raw_data) [0..<length page_nums])) dc))"

definition promote_bulk_to_mem_cache :: "nat \<Rightarrow> bytes \<Rightarrow> nat \<Rightarrow> unit cache_op" where
  "promote_bulk_to_mem_cache start_page raw_data num_pages dc =
     (let ps = dc_page_size dc in
      if ps = 0 then (Inr (), dc)
      else if length raw_data < num_pages * ps
        then (Inl (Io InvalidData ''promote_bulk_to_mem_cache: data too short''), dc)
      else (Inr (), install_pages (map (\<lambda>i. (start_page + i, page_slice ps raw_data i)) [0..<num_pages]) dc))"

definition bump_generation :: "disk_cache \<Rightarrow> nat \<times> disk_cache" where
  "bump_generation dc = (dc_generation dc, dc\<lparr>dc_generation := (dc_generation dc + 1) mod U64_SIZE\<rparr>)"

subsection \<open>Slots of the cache file\<close>

definition GCM_RANDOM_NONCE_OVERHEAD :: nat where
  "GCM_RANDOM_NONCE_OVERHEAD = 12 + 16"

definition stride_for :: "bytes option \<Rightarrow> nat \<Rightarrow> nat" where
  "stride_for key ps = (case key of Some _ \<Rightarrow> ps + GCM_RANDOM_NONCE_OVERHEAD | None \<Rightarrow> ps)"

definition slot_stride :: "disk_cache \<Rightarrow> nat" where
  "slot_stride dc = stride_for (dc_key dc) (dc_page_size dc)"

definition slot_offset :: "disk_cache \<Rightarrow> nat \<Rightarrow> nat" where
  "slot_offset dc page_num = (page_num * slot_stride dc) mod U64_SIZE"

definition ensure_file_len :: "nat \<Rightarrow> unit cache_op" where
  "ensure_file_len needed dc =
     (if needed \<le> dc_file_len dc then (Inr (), dc)
      else and_then (on_disk (set_len needed) dc) (\<lambda>_ dc. (Inr (), dc\<lparr>dc_file_len := needed\<rparr>)))"

definition check_tainted :: "unit cache_op" where
  "check_tainted dc =
     (if dc_tainted dc then (Inl (Io Other ''DiskCache is tainted (replay rollback failed)''), dc) else (Inr (), dc))"

text \<open>The frame a page is stored as: itself, or a sealed frame with an inline nonce.\<close>

definition page_frame :: "codec \<Rightarrow> bytes option \<Rightarrow> bytes \<Rightarrow> bytes \<Rightarrow> bytes io_result" where
  "page_frame C key nonce data =
     (case key of Some k \<Rightarrow> encrypt_gcm_random_nonce C nonce data [] k | None \<Rightarrow> Inr data)"

definition compressed_blob :: "codec \<Rightarrow> bytes option \<Rightarrow> bytes \<Rightarrow> bytes \<Rightarrow> bytes io_result" where
  "compressed_blob C key nonce data = bind_result (compress C data) (page_frame C key nonce)"

definition write_slot :: "nat \<Rightarrow> bytes \<Rightarrow> unit cache_op" where
  "write_slot offset data dc =
     and_then (ensure_file_len ((offset + length data) mod U64_SIZE) dc) (\<lambda>_ dc.
       on_disk (write_all_at offset data) dc)"


subsection \<open>Reads\<close>

definition copy_prefix :: "nat \<Rightarrow> bytes \<Rightarrow> bytes \<Rightarrow> bytes" where
  "copy_prefix n src buf = take n src @ drop n buf"

definition read_page_compressed :: "codec \<Rightarrow> nat \<Rightarrow> bytes \<Rightarrow> disk_cache \<Rightarrow> bytes io_result" where
  "read_page_compressed C page_num buf dc =
     (case index_get (dc_index dc) page_num of
        None \<Rightarrow> Inl (Io NotFound ''page not in compressed cache index'')
      | Some entry \<Rightarrow>
          bind_result (read_exact_at (ce_offset entry) (ce_len entry) (dc_disk dc)) (\<lambda>compressed.
          bind_result (decrypt_if_needed C compressed [] (dc_key dc)) (\<lambda>compressed.
          bind_result (decompress_capped C compressed (dc_page_size dc)) (\<lambda>decompressed.
            if length buf \<le> length decompressed then Inr (take (length buf) decompressed)
            else Inl (Io InvalidData ''decompressed page too small'')))))"

definition mem_hit :: "nat \<Rightarrow> disk_cache \<Rightarrow> bytes option" where
  "mem_hit page_num dc =
     (case dc_mem dc of None \<Rightarrow> None
      | Some mc \<Rightarrow> if page_num < length mc then mc ! page_num else None)"

definition read_page :: "codec \<Rightarrow> nat \<Rightarrow> bytes \<Rightarrow> disk_cache \<Rightarrow> bytes io_result" where
  "read_page C page_num buf dc =
     (if dc_tainted dc then Inl (Io Other ''DiskCache is tainted (replay rollback failed)'')
      else if dc_compression dc then read_page_compressed C page_num buf dc
      else case mem_hit page_num dc of
        Some page \<Rightarrow> Inr (copy_prefix (min (length buf) (dc_page_size dc)) page buf)
      | None \<Rightarrow>
          (case dc_key dc of
             Some key \<Rightarrow>
               let stride = dc_page_size dc + GCM_RANDOM_NONCE_OVERHEAD in
               bind_result (read_exact_at ((page_num * stride) mod U64_SIZE) stride (dc_disk dc)) (\<lambda>frame.
               bind_result (decrypt_gcm_random_nonce C frame [] key) (\<lambda>plain.
                 Inr (copy_prefix (min (length buf) (length plain)) plain buf)))
           | None \<Rightarrow> read_exact_at ((page_num * dc_page_size dc) mod U64_SIZE) (length buf) (dc_disk dc)))"

definition dc_is_present :: "nat \<Rightarrow> disk_cache \<Rightarrow> bool" where
  "dc_is_present page_num dc \<longleftrightarrow>
     (if dc_compression dc \<and> is_present (dc_bitmap dc) page_num then index_contains (dc_index dc) page_num
      else is_present (dc_bitmap dc) page_num)"

definition read_page_if_present :: "codec \<Rightarrow> nat \<Rightarrow> bytes \<Rightarrow> disk_cache \<Rightarrow> bytes option io_result" where
  "read_page_if_present C page_num buf dc =
     (if dc_is_present page_num dc then map_sum id Some (read_page C page_num buf dc) else Inr None)"

subsection \<open>Writes\<close>

text \<open>
  \<open>write_page_no_visibility\<close> and its rollback variant change bytes only; in a production build
  the rollback variant is the shared inner write without the taint check.
\<close>

definition write_page_no_visibility_inner :: "codec \<Rightarrow> bytes \<Rightarrow> nat \<Rightarrow> bytes \<Rightarrow> unit cache_op" where
  "write_page_no_visibility_inner C nonce page_num data dc =
     (if dc_compression dc
      then (Inl (Io Unsupported ''write_page_no_visibility: compressed cache mode is not supported by direct hybrid page replay''), dc)
      else case page_frame C (dc_key dc) nonce data of
        Inl e \<Rightarrow> (Inl e, dc)
      | Inr data \<Rightarrow> write_slot (slot_offset dc page_num) data dc)"

definition write_page_no_visibility :: "codec \<Rightarrow> bytes \<Rightarrow> nat \<Rightarrow> bytes \<Rightarrow> unit cache_op" where
  "write_page_no_visibility C nonce page_num data dc =
     and_then (check_tainted dc) (\<lambda>_. write_page_no_visibility_inner C nonce page_num data)"

definition write_page_no_visibility_rollback :: "codec \<Rightarrow> bytes \<Rightarrow> nat \<Rightarrow> bytes \<Rightarrow> unit cache_op" where
  "write_page_no_visibility_rollback C nonce page_num data dc = write_page_no_visibility_inner C nonce page_num data dc"

definition bitmap_mark :: "nat \<Rightarrow> disk_cache \<Rightarrow> disk_cache" where
  "bitmap_mark page_num dc =
     (if page_num div 8 + 1 \<le> length (bits (dc_bitmap dc))
      then dc\<lparr>dc_bitmap := mark_present (dc_bitmap dc) page_num\<rparr>
      else dc\<lparr>dc_bitmap := mark_present (ensure_capacity (dc_bitmap dc) page_num) page_num\<rparr>)"

definition bitmap_ensure :: "nat \<Rightarrow> disk_cache \<Rightarrow> disk_cache" where
  "bitmap_ensure page_num dc = dc\<lparr>dc_bitmap := ensure_capacity (dc_bitmap dc) page_num\<rparr>"

definition bitmap_marks :: "nat list \<Rightarrow> disk_cache \<Rightarrow> disk_cache" where
  "bitmap_marks page_nums dc = dc\<lparr>dc_bitmap := foldl mark_present (dc_bitmap dc) page_nums\<rparr>"

definition track_chunks :: "sub_chunk_id list \<Rightarrow> rat \<Rightarrow> disk_cache \<Rightarrow> disk_cache" where
  "track_chunks ids now dc = dc\<lparr>dc_tracker := fold (\<lambda>i. mark_chunk_present i Data now) ids (dc_tracker dc)\<rparr>"

definition write_page_compressed :: "codec \<Rightarrow> bytes \<Rightarrow> rat \<Rightarrow> nat \<Rightarrow> bytes \<Rightarrow> unit cache_op" where
  "write_page_compressed C nonce now page_num data dc =
     (case compressed_blob C (dc_key dc) nonce data of
        Inl e \<Rightarrow> (Inl e, dc)
      | Inr blob \<Rightarrow>
          (case index_insert page_num (length blob mod U32_SIZE) (dc_index dc) of
             (offset, index) \<Rightarrow>
               let dc = bitmap_ensure page_num (dc\<lparr>dc_index := index\<rparr>) in
               and_then (ensure_file_len (offset + length blob mod U32_SIZE) dc) (\<lambda>_ dc.
               and_then (on_disk (write_all_at offset blob) dc) (\<lambda>_ dc.
                 let dc = bitmap_mark page_num dc
                 in (Inr (), track_chunks [sub_chunk_for_page (dc_tracker dc) page_num] now dc)))))"

definition write_page :: "codec \<Rightarrow> bytes \<Rightarrow> rat \<Rightarrow> nat \<Rightarrow> bytes \<Rightarrow> unit cache_op" where
  "write_page C nonce now page_num data dc =
     and_then (check_tainted dc) (\<lambda>_ dc.
       if dc_compression dc then write_page_compressed C nonce now page_num data dc
       else case page_frame C (dc_key dc) nonce data of
         Inl e \<Rightarrow> (Inl e, dc)
       | Inr frame \<Rightarrow>
           and_then (write_slot (slot_offset dc page_num) frame (bitmap_ensure page_num dc)) (\<lambda>_ dc.
             (Inr (), install_mem_cache_page page_num data (bitmap_mark page_num dc))))"


subsection \<open>Batches\<close>

text \<open>
  A batch compresses or seals its pages one by one and stops at the first error. Page counts times
  page sizes stay below \<open>2 ^ 64\<close>: the data of a batch is in memory. With no pages and start
  page 0 the bulk write asks for a bitmap of \<open>2 ^ 61\<close> bytes, which aborts.
\<close>

fun collect_results :: "'a io_result list \<Rightarrow> 'a list io_result" where
  "collect_results [] = Inr []"
| "collect_results (r # rs) = bind_result r (\<lambda>x. bind_result (collect_results rs) (\<lambda>xs. Inr (x # xs)))"

fun index_blobs :: "(nat \<times> bytes) list \<Rightarrow> nat \<Rightarrow> cache_index \<Rightarrow> cache_index" where
  "index_blobs [] offset ix = ix"
| "index_blobs ((page_num, blob) # rest) offset ix =
     index_blobs rest (offset + length blob) (index_insert_at page_num offset (length blob mod U32_SIZE) ix)"

definition dedup_first :: "'a list \<Rightarrow> 'a list" where
  "dedup_first xs = rev (remdups (rev xs))"

definition append_blobs :: "codec \<Rightarrow> (nat \<Rightarrow> bytes) \<Rightarrow> nat list \<Rightarrow> nat \<Rightarrow> bytes \<Rightarrow> nat \<Rightarrow> unit cache_op" where
  "append_blobs C nonces page_nums last_page data ps dc =
     (case collect_results (map (\<lambda>i. compressed_blob C (dc_key dc) (nonces i) (page_slice ps data i)) [0..<length page_nums]) of
        Inl e \<Rightarrow> (Inl e, dc)
      | Inr blobs \<Rightarrow>
          let base = ci_next_offset (dc_index dc);
              dc = dc\<lparr>dc_index := index_blobs (zip page_nums blobs) base (dc_index dc)\<rparr>;
              dc = bitmap_ensure last_page dc;
              blob = concat blobs
          in and_then (ensure_file_len (base + length blob) dc) (\<lambda>_ dc.
             and_then (on_disk (write_all_at base blob) dc) (\<lambda>_ dc.
               (Inr (), bitmap_marks page_nums dc))))"

definition write_pages_bulk_compressed :: "codec \<Rightarrow> (nat \<Rightarrow> bytes) \<Rightarrow> rat \<Rightarrow> nat \<Rightarrow> bytes \<Rightarrow> nat \<Rightarrow> unit cache_op" where
  "write_pages_bulk_compressed C nonces now start_page data num_pages dc =
     (if start_page + num_pages = 0 then (panic ''capacity overflow'', dc)
      else let page_nums = map (\<lambda>i. start_page + i) [0..<num_pages] in
        and_then (append_blobs C nonces page_nums (start_page + num_pages - 1) data (dc_page_size dc) dc) (\<lambda>_ dc.
          (Inr (), track_chunks (dedup_first (map (sub_chunk_for_page (dc_tracker dc)) page_nums)) now dc)))"

definition write_pages_bulk :: "codec \<Rightarrow> (nat \<Rightarrow> bytes) \<Rightarrow> rat \<Rightarrow> nat \<Rightarrow> bytes \<Rightarrow> nat \<Rightarrow> unit cache_op" where
  "write_pages_bulk C nonces now start_page data num_pages dc =
     and_then (check_tainted dc) (\<lambda>_ dc.
       let ps = dc_page_size dc in
       if ps = 0 then (Inr (), dc)
       else if length data < num_pages * ps then (Inl (Io InvalidData ''write_pages_bulk: data too short''), dc)
       else if dc_compression dc then write_pages_bulk_compressed C nonces now start_page data num_pages dc
       else and_then (promote_bulk_to_mem_cache start_page data num_pages dc) (\<lambda>_ dc.
         let page_nums = map (\<lambda>i. start_page + i) [0..<num_pages] in
         case (case dc_key dc of
                 Some _ \<Rightarrow> bind_result (collect_results
                     (map (\<lambda>i. page_frame C (dc_key dc) (nonces i) (page_slice ps data i)) [0..<num_pages])) (\<lambda>frames. Inr (concat frames))
               | None \<Rightarrow> Inr data) of
           Inl e \<Rightarrow> (Inl e, dc)
         | Inr frames \<Rightarrow>
             if start_page + num_pages = 0 then (panic ''capacity overflow'', dc)
             else and_then (write_slot (slot_offset dc start_page) frames (bitmap_ensure (start_page + num_pages - 1) dc)) (\<lambda>_ dc.
               let dc = bitmap_marks page_nums dc
               in (Inr (), track_chunks (dedup_first (map (sub_chunk_for_page (dc_tracker dc)) page_nums)) now dc))))"

fun write_frames :: "codec \<Rightarrow> (nat \<Rightarrow> bytes) \<Rightarrow> nat \<Rightarrow> (nat \<times> bytes) list \<Rightarrow> unit cache_op" where
  "write_frames C nonces i [] dc = (Inr (), dc)"
| "write_frames C nonces i ((pnum, page_data) # rest) dc =
     (case page_frame C (dc_key dc) (nonces i) page_data of
        Inl e \<Rightarrow> (Inl e, dc)
      | Inr frame \<Rightarrow>
          and_then (on_disk (write_all_at (slot_offset dc pnum) frame) dc) (\<lambda>_ dc.
            write_frames C nonces (i + 1) rest dc))"

definition group_chunks :: "disk_cache \<Rightarrow> nat \<Rightarrow> nat \<Rightarrow> nat \<Rightarrow> sub_chunk_id list" where
  "group_chunks dc gid start_index n =
     map (\<lambda>i. sub_chunk_id_for (dc_tracker dc) gid ((start_index + i) mod U32_SIZE)) [0..<n]"

definition writable_count :: "nat list \<Rightarrow> bytes \<Rightarrow> nat \<Rightarrow> nat" where
  "writable_count page_nums data ps =
     length (takeWhile (\<lambda>i. (i + 1) * ps \<le> length data) [0..<length page_nums])"

definition write_pages_scattered_compressed ::
  "codec \<Rightarrow> (nat \<Rightarrow> bytes) \<Rightarrow> rat \<Rightarrow> nat list \<Rightarrow> bytes \<Rightarrow> nat \<Rightarrow> nat \<Rightarrow> nat \<Rightarrow> unit cache_op" where
  "write_pages_scattered_compressed C nonces now written_pages data ps gid start_index dc =
     and_then (append_blobs C nonces written_pages (Max (set written_pages)) data ps dc) (\<lambda>_ dc.
       (Inr (), track_chunks (group_chunks dc gid start_index (length written_pages)) now dc))"

definition write_pages_scattered ::
  "codec \<Rightarrow> (nat \<Rightarrow> bytes) \<Rightarrow> rat \<Rightarrow> nat list \<Rightarrow> bytes \<Rightarrow> nat \<Rightarrow> nat \<Rightarrow> unit cache_op" where
  "write_pages_scattered C nonces now page_nums data gid start_index dc =
     and_then (check_tainted dc) (\<lambda>_ dc.
       let ps = dc_page_size dc in
       if page_nums = [] \<or> ps = 0 then (Inr (), dc)
       else let written_pages = take (writable_count page_nums data ps) page_nums in
         if written_pages = [] then (Inr (), dc)
         else if dc_compression dc
           then write_pages_scattered_compressed C nonces now written_pages data ps gid start_index dc
         else and_then (promote_scattered_to_mem_cache written_pages data dc) (\<lambda>_ dc.
           let max_page = Max (set written_pages);
               needed = ((max_page + 1) * slot_stride dc) mod U64_SIZE in
           and_then (ensure_file_len needed (bitmap_ensure max_page dc)) (\<lambda>_ dc.
           and_then (write_frames C nonces 0 (zip written_pages (map (page_slice ps data) [0..<length written_pages])) dc) (\<lambda>_ dc.
             let dc = bitmap_marks written_pages dc
             in (Inr (), track_chunks (group_chunks dc gid start_index (length written_pages)) now dc)))))"


subsection \<open>Group states\<close>

definition ensure_group_capacity :: "nat \<Rightarrow> disk_cache \<Rightarrow> disk_cache" where
  "ensure_group_capacity n_groups dc =
     dc\<lparr>dc_group_states := dc_group_states dc @ replicate (n_groups - length (dc_group_states dc)) GroupNone\<rparr>"

definition get_group_state :: "nat \<Rightarrow> disk_cache \<Rightarrow> group_state" where
  "get_group_state gid dc = (if gid < length (dc_group_states dc) then dc_group_states dc ! gid else GroupNone)"

definition store_group_state :: "nat \<Rightarrow> group_state \<Rightarrow> disk_cache \<Rightarrow> disk_cache" where
  "store_group_state gid st dc = dc\<lparr>dc_group_states := (dc_group_states dc)[gid := st]\<rparr>"

definition try_claim_group :: "nat \<Rightarrow> disk_cache \<Rightarrow> bool \<times> disk_cache" where
  "try_claim_group gid dc =
     (let dc = ensure_group_capacity (gid + 1) dc in
      if dc_group_states dc ! gid = GroupNone then (True, store_group_state gid Fetching dc) else (False, dc))"

definition unclaim_group :: "nat \<Rightarrow> disk_cache \<Rightarrow> disk_cache" where
  "unclaim_group gid dc = store_group_state gid GroupNone dc"

definition unclaim_if_fetching :: "nat \<Rightarrow> disk_cache \<Rightarrow> bool \<times> disk_cache" where
  "unclaim_if_fetching gid dc =
     (if gid < length (dc_group_states dc) \<and> dc_group_states dc ! gid = Fetching
      then (True, store_group_state gid GroupNone dc) else (False, dc))"

definition fetching_group_ids :: "disk_cache \<Rightarrow> nat set" where
  "fetching_group_ids dc = set (filter (\<lambda>i. dc_group_states dc ! i = Fetching) [0..<length (dc_group_states dc)])"

definition set_cache_budget_bytes :: "nat \<Rightarrow> disk_cache \<Rightarrow> disk_cache" where
  "set_cache_budget_bytes budget dc = dc\<lparr>dc_budget_bytes := budget\<rparr>"

definition set_group_pages :: "nat list list \<Rightarrow> disk_cache \<Rightarrow> disk_cache" where
  "set_group_pages gp dc = dc\<lparr>dc_group_pages := gp\<rparr>"

definition set_page_size :: "nat \<Rightarrow> disk_cache \<Rightarrow> disk_cache" where
  "set_page_size new_page_size dc =
     (let dc = dc\<lparr>dc_page_size := new_page_size,
                  dc_tracker := set_sub_chunk_byte_size (dc_spf dc * new_page_size) (dc_tracker dc)\<rparr>
      in case dc_mem dc of None \<Rightarrow> dc
         | Some mc \<Rightarrow>
             if 0 < dc_mem_budget dc \<and> 0 < new_page_size
             then dc\<lparr>dc_mem := Some (mc @ replicate (max (dc_mem_budget dc div new_page_size) 1 - length mc) None)\<rparr>
             else dc)"

text \<open>
  \<open>wait_for_group\<close> polls the state under a deadline. The argument lists what successive polls
  observe: the state, and whether the deadline has passed.
\<close>

fun wait_for_group :: "(group_state \<times> bool) list \<Rightarrow> group_state option" where
  "wait_for_group [] = None"
| "wait_for_group ((st, expired) # obs) =
     (case st of
        Present \<Rightarrow> Some Present
      | Fetching \<Rightarrow> if expired then Some Fetching else wait_for_group obs
      | GroupNone \<Rightarrow> (case obs of [] \<Rightarrow> None | (st', _) # _ \<Rightarrow> Some st'))"

subsection \<open>Annotations and access times\<close>

definition touch_group :: "nat \<Rightarrow> rat \<Rightarrow> disk_cache \<Rightarrow> disk_cache" where
  "touch_group gid now dc =
     (let num_pages = (if gid < length (dc_group_pages dc) then length (dc_group_pages dc ! gid) mod U32_SIZE else dc_ppg dc);
          frames = (if 0 < dc_spf dc then div_ceil num_pages (dc_spf dc) else 1)
      in dc\<lparr>dc_group_access := (dc_group_access dc)(gid \<mapsto> now),
            dc_tracker := fold (\<lambda>fi. touch (SubChunkId (gid mod U32_SIZE) (fi mod U16_SIZE)) now) [0..<frames] (dc_tracker dc)\<rparr>)"

definition mark_interior_group :: "nat \<Rightarrow> nat \<Rightarrow> nat \<Rightarrow> rat \<Rightarrow> disk_cache \<Rightarrow> disk_cache" where
  "mark_interior_group gid page_num index_in_group now dc =
     (let i = sub_chunk_id_for (dc_tracker dc) gid index_in_group;
          dc = dc\<lparr>dc_interior_groups := insert gid (dc_interior_groups dc),
                  dc_interior_pages := insert page_num (dc_interior_pages dc)\<rparr>
      in if is_sub_chunk_present (dc_tracker dc) i then dc\<lparr>dc_tracker := mark_pinned i now (dc_tracker dc)\<rparr> else dc)"

definition mark_index_page :: "nat \<Rightarrow> nat \<Rightarrow> nat \<Rightarrow> rat \<Rightarrow> disk_cache \<Rightarrow> disk_cache" where
  "mark_index_page page_num gid index_in_group now dc =
     (let i = sub_chunk_id_for (dc_tracker dc) gid index_in_group;
          dc = dc\<lparr>dc_index_pages := insert page_num (dc_index_pages dc)\<rparr>
      in if is_sub_chunk_present (dc_tracker dc) i then dc\<lparr>dc_tracker := mark_index i now (dc_tracker dc)\<rparr> else dc)"

subsection \<open>Eviction\<close>

definition dc_group_page_nums :: "nat \<Rightarrow> disk_cache \<Rightarrow> nat list" where
  "dc_group_page_nums gid dc =
     (if gid < length (dc_group_pages dc) then dc_group_pages dc ! gid
      else let start = (gid * dc_ppg dc) mod U64_SIZE in [start..<(start + dc_ppg dc) mod U64_SIZE])"

definition sub_chunk_page_nums :: "sub_chunk_id \<Rightarrow> disk_cache \<Rightarrow> nat list" where
  "sub_chunk_page_nums i dc =
     (if sc_group_id i < length (dc_group_pages dc) then
        let explicit = dc_group_pages dc ! sc_group_id i; start = sc_frame_index i * dc_spf dc
        in bslice start (dc_spf dc) explicit
      else let start = (sc_group_id i * dc_ppg dc + sc_frame_index i * dc_spf dc) mod U64_SIZE
           in [start..<(start + dc_spf dc) mod U64_SIZE])"

definition punch_slots :: "nat \<Rightarrow> nat list \<Rightarrow> disk \<Rightarrow> disk" where
  "punch_slots stride page_nums d = fold (\<lambda>pnum. punch_hole ((pnum * stride) mod U64_SIZE) stride) page_nums d"

definition clear_pages_from_disk :: "nat list \<Rightarrow> disk_cache \<Rightarrow> disk_cache" where
  "clear_pages_from_disk page_nums dc =
     (let dc = dc\<lparr>dc_bitmap := foldl clear_page (dc_bitmap dc) page_nums\<rparr>;
          dc = fold (drop_mem_slot (dc_page_size dc)) page_nums dc;
          stride = slot_stride dc
      in if dc_compression dc then dc\<lparr>dc_index := fold index_remove page_nums (dc_index dc)\<rparr>
         else dc\<lparr>dc_disk := punch_slots stride page_nums (dc_disk dc)\<rparr>)"

definition evict_group :: "(sub_chunk_id set \<Rightarrow> sub_chunk_id list) \<Rightarrow> nat \<Rightarrow> disk_cache \<Rightarrow> disk_cache" where
  "evict_group iter gid dc =
     (let page_nums = dc_group_page_nums gid dc;
          dc = clear_pages_from_mem_cache page_nums (clear_pages_from_disk page_nums dc);
          dc = dc\<lparr>dc_tracker := remove_group iter (gid mod U32_SIZE) (dc_tracker dc)\<rparr>
      in store_group_state gid GroupNone dc)"

definition group_expired :: "rat \<Rightarrow> disk_cache \<Rightarrow> nat \<Rightarrow> bool" where
  "group_expired now dc gid \<longleftrightarrow> gid \<notin> dc_interior_groups dc
     \<and> of_nat (dc_ttl_secs dc) < duration_since now (the (dc_group_access dc gid))"

definition evict_expired ::
  "(nat set \<Rightarrow> nat list) \<Rightarrow> (sub_chunk_id set \<Rightarrow> sub_chunk_id list) \<Rightarrow> rat \<Rightarrow> disk_cache \<Rightarrow> disk_cache" where
  "evict_expired piter iter now dc =
     (if dc_ttl_secs dc = 0 then dc
      else fold (\<lambda>gid dc. let dc = evict_group iter gid dc in dc\<lparr>dc_group_access := (dc_group_access dc)(gid := None)\<rparr>)
        (filter (group_expired now dc) (piter (dom (dc_group_access dc)))) dc)"

definition evict_chunk :: "sub_chunk_id \<Rightarrow> disk_cache \<Rightarrow> disk_cache" where
  "evict_chunk i dc =
     (let dc = clear_pages_from_disk (sub_chunk_page_nums i dc) dc; scbs = sub_chunk_byte_size (dc_tracker dc)
      in dc\<lparr>dc_tracker := remove_chunk i (dc_tracker dc),
            dc_stat_evictions := (dc_stat_evictions dc + 1) mod U64_SIZE,
            dc_stat_bytes_evicted := (dc_stat_bytes_evicted dc + scbs) mod U64_SIZE\<rparr>)"

fun evict_victims :: "nat \<Rightarrow> sub_chunk_id list \<Rightarrow> nat \<Rightarrow> disk_cache \<Rightarrow> nat \<times> disk_cache" where
  "evict_victims budget [] evicted dc = (evicted, dc)"
| "evict_victims budget (i # is) evicted dc =
     (if current_cache_bytes (dc_tracker dc) \<le> budget then (evicted, dc)
      else if get_group_state (sc_group_id i) dc = Fetching then evict_victims budget is evicted dc
      else evict_victims budget is (evicted + 1) (evict_chunk i dc))"

definition compact_compressed_cache :: "(nat set \<Rightarrow> nat list) \<Rightarrow> unit cache_op" where
  "compact_compressed_cache piter dc =
     (if \<not> dc_compression dc then (Inr (), dc)
      else and_then (on_disk (compact_index piter (dc_index dc)) dc) (\<lambda>(index, len) dc.
        (Inr (), dc\<lparr>dc_index := index, dc_file_len := len\<rparr>)))"

definition maybe_compact :: "(nat set \<Rightarrow> nat list) \<Rightarrow> nat \<Rightarrow> disk_cache \<Rightarrow> disk_cache" where
  "maybe_compact piter evicted dc =
     (let physical = ci_next_offset (dc_index dc); live = live_bytes piter (dc_index dc) in
      if dc_compression dc \<and> 0 < evicted \<and> 0 < live \<and> min (live * 2) (U64_SIZE - 1) < physical \<and> 2 ^ 20 < physical
      then snd (compact_compressed_cache piter dc) else dc)"

definition victims :: "(sub_chunk_id set \<Rightarrow> sub_chunk_id list) \<Rightarrow> nat set \<Rightarrow> rat \<Rightarrow> tracker \<Rightarrow> sub_chunk_id list" where
  "victims iter skip_groups now t = map fst (sort_key snd (score_evictable iter t skip_groups now))"

definition evict_to_budget ::
  "(nat set \<Rightarrow> nat list) \<Rightarrow> (sub_chunk_id set \<Rightarrow> sub_chunk_id list) \<Rightarrow> rat \<Rightarrow> nat \<Rightarrow> nat set \<Rightarrow> disk_cache \<Rightarrow> nat \<times> disk_cache" where
  "evict_to_budget piter iter now budget skip_groups dc =
     (let t = dc_tracker dc in
      if current_cache_bytes t \<le> budget \<or> current_cache_bytes t \<le> pinned_bytes t then (0, dc)
      else case evict_victims budget (victims iter skip_groups now t) 0 dc of
        (evicted, dc) \<Rightarrow> (evicted, maybe_compact piter evicted (dc\<lparr>dc_stat_last_evictions := evicted\<rparr>)))"

definition mark_group_present ::
  "(nat set \<Rightarrow> nat list) \<Rightarrow> (sub_chunk_id set \<Rightarrow> sub_chunk_id list) \<Rightarrow> rat \<Rightarrow> nat \<Rightarrow> disk_cache \<Rightarrow> disk_cache" where
  "mark_group_present piter iter now gid dc =
     (let dc = store_group_state gid Present (ensure_group_capacity (gid + 1) dc);
          count = dc_eviction_counter dc;
          dc = dc\<lparr>dc_stat_peak := max (dc_stat_peak dc) (current_cache_bytes (dc_tracker dc)),
                  dc_eviction_counter := (count + 1) mod U64_SIZE\<rparr>
      in if count mod 64 = 0 then
           let dc = evict_expired piter iter now dc in
           if 0 < dc_budget_bytes dc
           then snd (evict_to_budget piter iter now (dc_budget_bytes dc) (fetching_group_ids dc) dc) else dc
         else dc)"


subsection \<open>Invalidation, truncation and external restores\<close>

definition invalidate_group :: "(sub_chunk_id set \<Rightarrow> sub_chunk_id list) \<Rightarrow> nat \<Rightarrow> nat \<Rightarrow> disk_cache \<Rightarrow> disk_cache" where
  "invalidate_group iter gid ppg dc =
     (let start = (gid * ppg) mod U64_SIZE; stop = (start + ppg) mod U64_SIZE;
          dc = dc\<lparr>dc_bitmap := clear_range (dc_bitmap dc) start ppg,
                  dc_tracker := remove_group iter (gid mod U32_SIZE) (dc_tracker dc),
                  dc_interior_pages := dc_interior_pages dc - {start..<stop},
                  dc_index_pages := dc_index_pages dc - {start..<stop}\<rparr>
      in clear_pages_from_mem_cache [start..<stop] dc)"

definition invalidate_all_groups :: "(sub_chunk_id set \<Rightarrow> sub_chunk_id list) \<Rightarrow> disk_cache \<Rightarrow> disk_cache" where
  "invalidate_all_groups iter dc =
     fold (\<lambda>gid. invalidate_group iter gid (max (dc_ppg dc) 1)) [0..<length (dc_group_states dc)] dc"

definition drop_states_from :: "nat \<Rightarrow> disk_cache \<Rightarrow> disk_cache" where
  "drop_states_from n dc =
     dc\<lparr>dc_group_states := map (\<lambda>(gid, st). if n \<le> gid then GroupNone else st) (List.enumerate 0 (dc_group_states dc))\<rparr>"

definition stale_chunk :: "nat \<Rightarrow> disk_cache \<Rightarrow> sub_chunk_id \<Rightarrow> bool" where
  "stale_chunk pc dc i \<longleftrightarrow> (\<forall>p \<in> set (sub_chunk_page_nums i dc). pc \<le> p)"

definition truncate_to_page_count ::
  "(nat set \<Rightarrow> nat list) \<Rightarrow> (sub_chunk_id set \<Rightarrow> sub_chunk_id list) \<Rightarrow> nat \<Rightarrow> nat \<Rightarrow> unit cache_op" where
  "truncate_to_page_count piter iter pc ps dc =
     (let new_len = (pc * stride_for (dc_key dc) ps) mod U64_SIZE in
      and_then (on_disk (set_len new_len) dc) (\<lambda>_ dc.
        let dc = dc\<lparr>dc_file_len := new_len\<rparr>;
            old_capacity = bit_capacity (dc_bitmap dc);
            truncated_pages = [pc..<old_capacity];
            dc = (if pc < old_capacity then dc\<lparr>dc_bitmap := clear_range (dc_bitmap dc) pc (old_capacity - pc)\<rparr> else dc);
            dc = (if truncated_pages = [] then dc else clear_pages_from_mem_cache truncated_pages dc);
            dc = dc\<lparr>dc_tracker := fold remove_chunk (filter (stale_chunk pc dc) (iter (present (dc_tracker dc)))) (dc_tracker dc)\<rparr>;
            dc = (if dc_compression dc
                  then dc\<lparr>dc_index := fold index_remove (filter (\<lambda>p. pc \<le> p) (piter (dom (ci_entries (dc_index dc))))) (dc_index dc)\<rparr>
                  else dc)
        in (Inr (), if 0 < dc_ppg dc then drop_states_from (div_ceil pc (dc_ppg dc)) dc else dc)))"

definition mark_all_pages_present :: "nat \<Rightarrow> disk_cache \<Rightarrow> disk_cache" where
  "mark_all_pages_present pc dc =
     (let dc = dc\<lparr>dc_bitmap := clear_at_or_above (foldl mark_present (resize_bitmap (dc_bitmap dc) pc) [0..<pc]) pc\<rparr>
      in if 0 < dc_ppg dc then
           let group_count = div_ceil pc (dc_ppg dc); dc = ensure_group_capacity group_count dc
           in dc\<lparr>dc_group_states := map (\<lambda>gid. if gid < group_count then Present else GroupNone) [0..<length (dc_group_states dc)]\<rparr>
         else dc)"

definition clear_pages_at_or_above :: "nat \<Rightarrow> disk_cache \<Rightarrow> disk_cache" where
  "clear_pages_at_or_above pc dc =
     (let dc = dc\<lparr>dc_bitmap := clear_at_or_above (dc_bitmap dc) pc\<rparr>
      in if 0 < dc_ppg dc then drop_states_from (div_ceil pc (dc_ppg dc)) dc else dc)"

definition mark_pages_present :: "nat list \<Rightarrow> disk_cache \<Rightarrow> disk_cache" where
  "mark_pages_present page_nums dc =
     (if page_nums = [] then dc
      else let max_page = Max (set page_nums); dc = bitmap_marks page_nums (bitmap_ensure max_page dc) in
        if 0 < dc_ppg dc
        then fold (\<lambda>pnum. store_group_state (pnum div dc_ppg dc) Present) page_nums
               (ensure_group_capacity (max_page div dc_ppg dc + 1) dc)
        else dc)"


subsection \<open>Persistence and opening\<close>

definition persist_bitmap ::
  "(sub_chunk_id set \<Rightarrow> sub_chunk_id list) \<Rightarrow> serde \<Rightarrow> write_fault \<Rightarrow> disk_cache \<Rightarrow> bytes option \<Rightarrow> unit io_result \<times> bytes option" where
  "persist_bitmap iter sd fault dc file =
     (let t = dc_tracker dc in
      update_state sd fault (\<lambda>st. st\<lparr>
        ls_page_bitmap := Some (to_bytes (dc_bitmap dc)),
        ls_tracker := Some (tracker_entries iter (present t) (tiers t) (access_counts t)),
        ls_cache_index := (if dc_compression dc then Some (dc_index dc) else None)\<rparr>) file)"

definition prune_cache_index ::
  "(nat set \<Rightarrow> nat list) \<Rightarrow> (sub_chunk_id set \<Rightarrow> sub_chunk_id list) \<Rightarrow> serde \<Rightarrow> write_fault \<Rightarrow> nat set
     \<Rightarrow> disk_cache \<times> bytes option \<Rightarrow> disk_cache \<times> bytes option" where
  "prune_cache_index piter iter sd fault keep_pages s =
     (case s of (dc, file) \<Rightarrow>
        if \<not> dc_compression dc then (dc, file)
        else let dc = dc\<lparr>dc_index := fold index_remove
                     (filter (\<lambda>p. p \<notin> keep_pages) (piter (dom (ci_entries (dc_index dc))))) (dc_index dc)\<rparr>
             in (dc, snd (persist_bitmap iter sd fault dc file)))"

definition clear_cache_index ::
  "(sub_chunk_id set \<Rightarrow> sub_chunk_id list) \<Rightarrow> serde \<Rightarrow> write_fault \<Rightarrow> disk_cache \<times> bytes option \<Rightarrow> disk_cache \<times> bytes option" where
  "clear_cache_index iter sd fault s =
     (case s of (dc, file) \<Rightarrow>
        if \<not> dc_compression dc then (dc, file)
        else let dc = dc\<lparr>dc_index := index_clear (dc_index dc)\<rparr>
             in (dc, snd (persist_bitmap iter sd fault dc file)))"

record cache_config =
  cc_ttl_secs :: nat
  cc_ppg :: nat
  cc_sub_pages :: nat
  cc_page_size :: nat
  cc_page_count :: nat
  cc_key :: "bytes option"
  cc_group_pages :: "nat list list"
  cc_compression :: bool
  cc_mem_budget :: nat

definition initial_group_state :: "cache_config \<Rightarrow> page_bitmap \<Rightarrow> nat \<Rightarrow> group_state" where
  "initial_group_state cfg bm gid =
     (let pages = (if gid < length (cc_group_pages cfg) then cc_group_pages cfg ! gid
                   else let start = gid * cc_ppg cfg in [start..<min (start + cc_ppg cfg) (cc_page_count cfg)])
      in if 0 < cc_page_count cfg \<and> pages \<noteq> [] \<and> list_all (is_present bm) pages then Present else GroupNone)"

definition presize_file :: "cache_config \<Rightarrow> disk \<Rightarrow> unit io_result \<times> disk" where
  "presize_file cfg d =
     (let target_size = (cc_page_count cfg * stride_for (cc_key cfg) (cc_page_size cfg)) mod U64_SIZE in
      if \<not> cc_compression cfg \<and> 0 < cc_page_count cfg \<and> 0 < cc_page_size cfg \<and> length (dk_file d) < target_size
      then set_len target_size d else (Inr (), d))"

definition initial_mem :: "cache_config \<Rightarrow> bytes option list option" where
  "initial_mem cfg =
     (if 0 < cc_mem_budget cfg
      then Some (replicate (if 0 < cc_page_size cfg then max (cc_mem_budget cfg div cc_page_size cfg) 1 else 0) None)
      else None)"

text \<open>
  Opening: \<open>enc_parts\<close> is what the encrypted tracker file holds (used only with a key), and the
  cache file with the local state is what the last process left.
\<close>

definition new_with_compression_at ::
  "serde \<Rightarrow> cache_config \<Rightarrow> tracker_parts \<Rightarrow> rat \<Rightarrow> bytes option \<Rightarrow> disk \<Rightarrow> disk_cache io_result" where
  "new_with_compression_at sd cfg enc_parts now file d =
     (case presize_file cfg d of
        (Inl e, _) \<Rightarrow> Inl e
      | (Inr _, d') \<Rightarrow>
          bind_result (load_state sd file) (\<lambda>ls.
            let was_empty = (dk_file d = []);
                index = index_with_state (Option.bind ls ls_cache_index);
                index = (if cc_compression cfg
                         then (if dk_file d' = [] \<and> ci_entries index \<noteq> Map.empty then index_clear index else index)
                         else (if ci_entries index \<noteq> Map.empty then index_clear index else index));
                spf = (if 0 < cc_sub_pages cfg then cc_sub_pages cfg else cc_ppg cfg);
                t = (case cc_key cfg of
                       Some _ \<Rightarrow> from_parts (cc_ppg cfg) spf enc_parts now
                     | None \<Rightarrow> tracker_with_state (cc_ppg cfg) spf (Option.bind ls ls_tracker) now);
                t = (if 0 < cc_page_size cfg \<and> 0 < spf then set_sub_chunk_byte_size (spf * cc_page_size cfg) t else t);
                bm = new_with_state ''page_bitmap'' (Option.bind ls ls_page_bitmap);
                bm = (if 0 < cc_page_count cfg then resize_bitmap bm (cc_page_count cfg) else bm);
                bm = (if was_empty then clear_all_bits bm else bm);
                t = (if was_empty then clear_all_chunks t else t);
                index = (if was_empty then index_clear index else index);
                n_groups = (if 0 < cc_ppg cfg \<and> 0 < cc_page_count cfg then div_ceil (cc_page_count cfg) (cc_ppg cfg) else 0)
            in Inr \<lparr>dc_disk = d', dc_file_len = length (dk_file d'), dc_mem = initial_mem cfg, dc_mem_budget = cc_mem_budget cfg,
                 dc_mem_bytes = 0, dc_generation = 0, dc_tracker = t, dc_bitmap = bm,
                 dc_group_states = map (initial_group_state cfg bm) [0..<n_groups],
                 dc_interior_groups = {}, dc_interior_pages = {}, dc_index_pages = {}, dc_group_access = Map.empty,
                 dc_ttl_secs = cc_ttl_secs cfg, dc_ppg = cc_ppg cfg, dc_spf = spf, dc_page_size = cc_page_size cfg,
                 dc_key = cc_key cfg, dc_group_pages = cc_group_pages cfg, dc_compression = cc_compression cfg,
                 dc_index = index, dc_tainted = False, dc_budget_bytes = 0, dc_eviction_counter = 0,
                 dc_stat_evictions = 0, dc_stat_bytes_evicted = 0, dc_stat_peak = 0, dc_stat_last_evictions = 0\<rparr>))"

end
