(* ===== verification/Cache_View.thy ===== *)
theory Cache_View
  imports Disk_Cache
begin

text \<open>
  What the page cache means: a partial map from page numbers to pages, whatever the storage form.
  \<open>stored\<close> says which page the cache file holds, \<open>cache_view\<close> is what a reader sees, and
  \<open>cache_inv\<close> ties the bitmap, the in-memory table and the file together. Writes extend the map,
  evictions restrict it, compaction and reopening keep it.
\<close>

subsection \<open>Frames\<close>

text \<open>
  What the cache relies on of zstd and AES-GCM: decoding inverts encoding, the tag has sixteen
  bytes, a zstd frame is not empty (it has a header) and not much longer than its input.
\<close>

definition cache_codec :: "codec \<Rightarrow> bool" where
  "cache_codec C \<longleftrightarrow>
     (\<forall>x y. zs_encode C x = Inr y \<longrightarrow> zs_stream C y = (x, None) \<and> y \<noteq> [] \<and> length y \<le> 2 * length x + 128)
     \<and> (\<forall>k n x y. gcm_seal C k n [] x = Inr y \<longrightarrow> gcm_open C k n [] y = Inr x \<and> length y = length x + 16)"

lemma frame_opens:
  assumes "cache_codec C" "page_frame C key nonce data = Inr f" "length nonce = 12"
  shows "decrypt_if_needed C f [] key = Inr data" "length f = stride_for key (length data)"
proof -
  have "decrypt_if_needed C f [] key = Inr data \<and> length f = stride_for key (length data)"
  proof (cases key)
    case (Some k)
    then obtain c where c: "f = nonce @ c" "gcm_seal C k nonce [] data = Inr c"
      using assms(2) by (auto simp: page_frame_def encrypt_gcm_random_nonce_def bind_result_Inr_iff)
    then have "gcm_open C k nonce [] c = Inr data \<and> length c = length data + 16" using assms(1) by (simp add: cache_codec_def)
    then show ?thesis using c Some assms(3)
      by (simp add: decrypt_if_needed_def decrypt_gcm_random_nonce_def stride_for_def GCM_RANDOM_NONCE_OVERHEAD_def)
  qed (use assms(2) in \<open>simp add: page_frame_def decrypt_if_needed_def stride_for_def\<close>)
  then show "decrypt_if_needed C f [] key = Inr data" "length f = stride_for key (length data)" by simp_all
qed

definition open_blob :: "codec \<Rightarrow> bytes option \<Rightarrow> nat \<Rightarrow> bytes \<Rightarrow> bytes io_result" where
  "open_blob C key ps blob = bind_result (decrypt_if_needed C blob [] key) (\<lambda>x. decompress_capped C x ps)"

lemma blob_opens:
  assumes "cache_codec C" "compressed_blob C key nonce data = Inr blob" "length nonce = 12"
    and "length data = ps" "ps \<le> 65536"
  shows "open_blob C key ps blob = Inr data" "length blob < U32_SIZE" "blob \<noteq> []"
proof -
  obtain z where z: "zs_encode C data = Inr z" "page_frame C key nonce z = Inr blob"
    using assms(2) by (auto simp: compressed_blob_def compress_def bind_result_Inr_iff)
  then have zs: "zs_stream C z = (data, None)" "length z \<le> 2 * ps + 128" "z \<noteq> []" using assms(1,4) by (auto simp: cache_codec_def)
  note f = frame_opens [OF assms(1) z(2) assms(3)]
  show "open_blob C key ps blob = Inr data"
    using f(1) zs(1) assms(4,5) by (simp add: open_blob_def decompress_capped_def Let_def)
  have "stride_for key (length z) \<le> length z + 28" by (cases key) (simp_all add: stride_for_def GCM_RANDOM_NONCE_OVERHEAD_def)
  then show "length blob < U32_SIZE" using f(2) zs(2) assms(5) by simp
  have "length z \<le> length blob" using f(2) by (cases key) (simp_all add: stride_for_def)
  then show "blob \<noteq> []" using zs(3) by auto
qed

subsection \<open>The view\<close>

definition slot_fits :: "disk_cache \<Rightarrow> nat \<Rightarrow> bool" where
  "slot_fits dc p \<longleftrightarrow> (p + 1) * slot_stride dc < U64_SIZE"

definition stored :: "codec \<Rightarrow> disk_cache \<Rightarrow> nat \<Rightarrow> bytes \<Rightarrow> bool" where
  "stored C dc p data \<longleftrightarrow> length data = dc_page_size dc \<and>
     (if dc_compression dc
      then \<exists>e. ci_entries (dc_index dc) p = Some e \<and> entry_end e \<le> length (dk_file (dc_disk dc))
             \<and> open_blob C (dc_key dc) (dc_page_size dc) (blob_of e (dc_disk dc)) = Inr data
      else slot_fits dc p \<and> (p + 1) * slot_stride dc \<le> length (dk_file (dc_disk dc))
             \<and> decrypt_if_needed C (bslice (p * slot_stride dc) (slot_stride dc) (dk_file (dc_disk dc))) [] (dc_key dc) = Inr data)"

definition cache_view :: "codec \<Rightarrow> disk_cache \<Rightarrow> nat \<rightharpoonup> bytes" where
  "cache_view C dc p =
     (case read_page_if_present C p (zeros (dc_page_size dc)) dc of Inr r \<Rightarrow> r | Inl _ \<Rightarrow> None)"

definition index_in_file :: "disk_cache \<Rightarrow> bool" where
  "index_in_file dc \<longleftrightarrow> (dc_compression dc \<longrightarrow>
     (\<forall>p e. ci_entries (dc_index dc) p = Some e \<longrightarrow> entry_end e \<le> length (dk_file (dc_disk dc))))"

definition cache_inv :: "codec \<Rightarrow> disk_cache \<Rightarrow> bool" where
  "cache_inv C dc \<longleftrightarrow> 0 < dc_page_size dc \<and> dc_page_size dc \<le> 65536 \<and> \<not> dc_tainted dc
     \<and> dc_file_len dc = length (dk_file (dc_disk dc)) \<and> index_ok (dc_index dc) \<and> index_in_file dc
     \<and> (\<forall>p. dc_is_present p dc \<longrightarrow> (\<exists>data. stored C dc p data))
     \<and> (\<not> dc_compression dc \<longrightarrow> (\<forall>p page. mem_hit p dc = Some page \<longrightarrow> dc_is_present p dc \<longrightarrow> stored C dc p page))"

lemma stored_unique: "stored C dc p a \<Longrightarrow> stored C dc p b \<Longrightarrow> a = b"
  by (auto simp: stored_def split: if_splits)

text \<open>A reader sees exactly the stored page of every present page number.\<close>

lemma read_plain_buf:
  assumes ok: "\<not> dc_tainted dc" "\<not> dc_compression dc" and st: "stored C dc p data"
    and mem: "\<And>page. mem_hit p dc = Some page \<Longrightarrow> page = data" and buf: "length buf = dc_page_size dc"
  shows "read_page C p buf dc = Inr data"
proof -
  have len: "length data = dc_page_size dc" using st by (simp add: stored_def)
  show ?thesis
  proof (cases "mem_hit p dc")
    case (Some page)
    then show ?thesis using mem [OF Some] ok len buf by (simp add: read_page_def copy_prefix_def)
  next
    case None
    let ?s = "slot_stride dc"
    have fits: "(p + 1) * ?s < U64_SIZE" "(p + 1) * ?s \<le> length (dk_file (dc_disk dc))"
      and opn: "decrypt_if_needed C (bslice (p * ?s) ?s (dk_file (dc_disk dc))) [] (dc_key dc) = Inr data"
      using st ok by (auto simp: stored_def slot_fits_def)
    have nowrap: "(p * ?s) mod U64_SIZE = p * ?s" using fits(1) by simp
    have read: "read_exact_at (p * ?s) ?s (dc_disk dc) = Inr (bslice (p * ?s) ?s (dk_file (dc_disk dc)))"
      using fits(2) by (simp add: read_exact_at_def)
    show ?thesis
      using None ok opn read nowrap len buf
      by (cases "dc_key dc") (simp_all add: read_page_def decrypt_if_needed_def slot_stride_def stride_for_def copy_prefix_def Let_def)
  qed
qed

lemma read_stored_buf:
  assumes inv: "cache_inv C dc" and p: "dc_is_present p dc" and st: "stored C dc p data" and buf: "length buf = dc_page_size dc"
  shows "read_page C p buf dc = Inr data"
proof (cases "dc_compression dc")
  case True
  then obtain e where e: "ci_entries (dc_index dc) p = Some e" "entry_end e \<le> length (dk_file (dc_disk dc))"
    "open_blob C (dc_key dc) (dc_page_size dc) (blob_of e (dc_disk dc)) = Inr data" "length data = dc_page_size dc"
    using st by (auto simp: stored_def)
  from e(3) obtain x where "decrypt_if_needed C (blob_of e (dc_disk dc)) [] (dc_key dc) = Inr x"
    "decompress_capped C x (dc_page_size dc) = Inr data" by (auto simp: open_blob_def bind_result_Inr_iff)
  then show ?thesis using inv True e buf
    by (simp add: read_page_def cache_inv_def read_page_compressed_def index_get_def read_blob)
next
  case False
  have "page = data" if "mem_hit p dc = Some page" for page
    using inv p False that stored_unique [OF _ st, of page] by (simp add: cache_inv_def)
  then show ?thesis using inv False by (intro read_plain_buf st buf) (simp_all add: cache_inv_def)
qed

lemma read_plain:
  assumes "\<not> dc_tainted dc" "\<not> dc_compression dc" "stored C dc p data" "\<And>page. mem_hit p dc = Some page \<Longrightarrow> page = data"
  shows "read_page C p (zeros (dc_page_size dc)) dc = Inr data"
  using assms by (rule read_plain_buf) simp_all

lemma read_stored:
  assumes "cache_inv C dc" "dc_is_present p dc" "stored C dc p data"
  shows "read_page C p (zeros (dc_page_size dc)) dc = Inr data"
  using assms by (rule read_stored_buf) simp

lemma view_iff:
  assumes "cache_inv C dc"
  shows "cache_view C dc p = Some data \<longleftrightarrow> dc_is_present p dc \<and> stored C dc p data"
proof (cases "dc_is_present p dc")
  case True
  then obtain d where d: "stored C dc p d" using assms by (auto simp: cache_inv_def)
  then have "cache_view C dc p = Some d" using True read_stored [OF assms True d] by (simp add: cache_view_def read_page_if_present_def)
  then show ?thesis using d True stored_unique by auto
qed (simp add: cache_view_def read_page_if_present_def)

lemma view_None: "\<not> dc_is_present p dc \<Longrightarrow> cache_view C dc p = None"
  by (simp add: cache_view_def read_page_if_present_def)


text \<open>
  How every operation below is proved: name the map a reader should see afterwards and check it
  against the new state.
\<close>

lemma establish_view:
  assumes "0 < dc_page_size dc" "dc_page_size dc \<le> 65536" "\<not> dc_tainted dc" "dc_file_len dc = length (dk_file (dc_disk dc))"
    and "index_ok (dc_index dc)" "index_in_file dc"
    and dom: "\<And>q. dc_is_present q dc \<longleftrightarrow> m q \<noteq> None"
    and st: "\<And>q data. m q = Some data \<Longrightarrow> stored C dc q data"
    and mem: "\<And>q page. \<not> dc_compression dc \<Longrightarrow> mem_hit q dc = Some page \<Longrightarrow> m q \<noteq> None \<Longrightarrow> m q = Some page"
  shows "cache_inv C dc \<and> cache_view C dc = m"
proof
  show inv: "cache_inv C dc" unfolding cache_inv_def using assms(1-6) dom st mem by blast
  show "cache_view C dc = m"
  proof
    fix p
    show "cache_view C dc p = m p"
      using view_iff [OF inv, of p] dom [of p] st [of p] view_None [of p dc C] by (cases "m p") auto
  qed
qed

lemma stored_cong:
  assumes "dc_page_size dc' = dc_page_size dc" "dc_compression dc' = dc_compression dc" "dc_key dc' = dc_key dc"
    "dc_index dc' = dc_index dc" "dc_disk dc' = dc_disk dc"
  shows "stored C dc' p data \<longleftrightarrow> stored C dc p data"
  using assms by (simp add: stored_def slot_fits_def slot_stride_def)

lemma read_view:
  assumes "cache_inv C dc" "length buf = dc_page_size dc"
  shows "read_page_if_present C p buf dc = Inr (cache_view C dc p)"
proof (cases "dc_is_present p dc")
  case True
  then obtain d where "stored C dc p d" using assms(1) by (auto simp: cache_inv_def)
  then show ?thesis using True read_stored_buf [OF assms(1) True _ assms(2)] view_iff [OF assms(1), of p d] by (simp add: read_page_if_present_def)
qed (simp add: view_None read_page_if_present_def)

lemma view_stored: "cache_inv C dc \<Longrightarrow> cache_view C dc q = Some data \<Longrightarrow> stored C dc q data"
  by (simp add: view_iff)

lemma view_present: "cache_inv C dc \<Longrightarrow> cache_view C dc q \<noteq> None \<longleftrightarrow> dc_is_present q dc"
proof -
  assume inv: "cache_inv C dc"
  then have "dc_is_present q dc \<Longrightarrow> \<exists>data. stored C dc q data" by (simp add: cache_inv_def)
  then show ?thesis using view_iff [OF inv, of q] view_None [of q dc C] by blast
qed

lemma view_mem:
  assumes "cache_inv C dc" "\<not> dc_compression dc" "mem_hit q dc = Some page" "cache_view C dc q \<noteq> None"
  shows "cache_view C dc q = Some page"
proof -
  have "dc_is_present q dc" using assms(1,4) by (simp only: view_present)
  then have "stored C dc q page" using assms(1-3) unfolding cache_inv_def by blast
  then show ?thesis using assms(1) \<open>dc_is_present q dc\<close> view_iff by blast
qed

subsection \<open>Frames of the operations\<close>

text \<open>The fields that decide what is stored and present.\<close>

definition same_store :: "disk_cache \<Rightarrow> disk_cache \<Rightarrow> bool" where
  "same_store dc' dc \<longleftrightarrow> dc_disk dc' = dc_disk dc \<and> dc_file_len dc' = dc_file_len dc \<and> dc_page_size dc' = dc_page_size dc
     \<and> dc_compression dc' = dc_compression dc \<and> dc_key dc' = dc_key dc \<and> dc_index dc' = dc_index dc
     \<and> dc_tainted dc' = dc_tainted dc \<and> dc_bitmap dc' = dc_bitmap dc"

lemma same_store_refl [simp]: "same_store dc dc"
  by (simp add: same_store_def)

lemma same_store_trans: "same_store a b \<Longrightarrow> same_store b c \<Longrightarrow> same_store a c"
  by (simp add: same_store_def)

lemma install_same_store [simp]: "same_store (install_mem_cache_page p data dc) dc"
  by (simp add: install_mem_cache_page_def ensure_mem_cache_capacity_def Let_def same_store_def split: option.splits)

lemma track_chunks_same [simp]: "same_store (track_chunks is now dc) dc" "mem_hit q (track_chunks is now dc) = mem_hit q dc"
  by (simp_all add: track_chunks_def same_store_def mem_hit_def)

lemma same_store_facts:
  assumes "same_store dc' dc"
  shows "stored C dc' = stored C dc" "dc_is_present p dc' = dc_is_present p dc"
  using assms by (auto simp: same_store_def stored_def slot_fits_def slot_stride_def dc_is_present_def fun_eq_iff)

lemma mem_hit_install:
  assumes "0 < dc_page_size dc" "length data = dc_page_size dc"
  shows "mem_hit q (install_mem_cache_page p data dc) =
    (if q = p then (if mem_hit p (install_mem_cache_page p data dc) = None then None else Some data) else mem_hit q dc)"
  using assms
  by (auto simp: mem_hit_def install_mem_cache_page_def ensure_mem_cache_capacity_def Let_def nth_append nth_list_update zeros_def
      split: option.splits if_splits)

lemma present_mark_ensured:
  "dc_is_present q (bitmap_mark p dc) \<longleftrightarrow> dc_is_present q dc \<or> q = p \<and> (dc_compression dc \<longrightarrow> index_contains (dc_index dc) p)"
proof -
  have "is_present (dc_bitmap (bitmap_mark p dc)) q \<longleftrightarrow> is_present (dc_bitmap dc) q \<or> q = p"
  proof (cases "p div 8 + 1 \<le> length (bits (dc_bitmap dc))")
    case True
    then show ?thesis by (auto simp: bitmap_mark_def bitmap.present_mark less_capacity)
  next
    case False
    have "p < bit_capacity (ensure_capacity (dc_bitmap dc) p)"
      using False by (simp add: less_capacity ensure_capacity_def resize_with_def)
    moreover have "is_present (ensure_capacity (dc_bitmap dc) p) q = is_present (dc_bitmap dc) q"
      using pages_of_resize_with [of "dc_bitmap dc"] by (auto simp: ensure_capacity_def pages_of_def)
    ultimately show ?thesis using False by (simp add: bitmap_mark_def bitmap.present_mark)
  qed
  then show ?thesis by (auto simp: dc_is_present_def bitmap_mark_def)
qed

lemma present_ensure [simp]: "dc_is_present q (bitmap_ensure p dc) = dc_is_present q dc"
  using pages_of_resize_with [of "dc_bitmap dc"] by (auto simp: dc_is_present_def bitmap_ensure_def ensure_capacity_def pages_of_def)

lemma bitmap_fields [simp]:
  "dc_disk (bitmap_ensure p dc) = dc_disk dc" "dc_file_len (bitmap_ensure p dc) = dc_file_len dc"
  "dc_page_size (bitmap_ensure p dc) = dc_page_size dc" "dc_compression (bitmap_ensure p dc) = dc_compression dc"
  "dc_key (bitmap_ensure p dc) = dc_key dc" "dc_index (bitmap_ensure p dc) = dc_index dc"
  "dc_tainted (bitmap_ensure p dc) = dc_tainted dc" "mem_hit q (bitmap_ensure p dc) = mem_hit q dc"
  "dc_disk (bitmap_mark p dc) = dc_disk dc" "dc_file_len (bitmap_mark p dc) = dc_file_len dc"
  "dc_page_size (bitmap_mark p dc) = dc_page_size dc" "dc_compression (bitmap_mark p dc) = dc_compression dc"
  "dc_key (bitmap_mark p dc) = dc_key dc" "dc_index (bitmap_mark p dc) = dc_index dc"
  "dc_tainted (bitmap_mark p dc) = dc_tainted dc" "mem_hit q (bitmap_mark p dc) = mem_hit q dc"
  by (simp_all add: bitmap_ensure_def bitmap_mark_def mem_hit_def)

text \<open>A write into the file, growing it first: the bytes arrive and nothing else changes.\<close>

lemma pwrite_extended:
  assumes "data \<noteq> []" and that: "length file \<le> n" "n \<le> off + length data"
  shows "pwrite off data (take n file @ zeros (n - length file)) = pwrite off data file"
proof (rule nth_equalityI)
  show "length (pwrite off data (take n file @ zeros (n - length file))) = length (pwrite off data file)"
    using that assms by (simp add: length_pwrite max_def)
  fix i assume "i < length (pwrite off data (take n file @ zeros (n - length file)))"
  then have "i < off + length data" using that assms by (auto simp: length_pwrite max_def split: if_splits)
  then show "pwrite off data (take n file @ zeros (n - length file)) ! i = pwrite off data file ! i"
    using assms that by (auto simp: pwrite_def nth_append zeros_def min_def)
qed

definition wrote :: "nat \<Rightarrow> bytes \<Rightarrow> disk_cache \<Rightarrow> disk_cache \<Rightarrow> bool" where
  "wrote off data dc dc' \<longleftrightarrow> dk_file (dc_disk dc') = pwrite off data (dk_file (dc_disk dc)) \<and> no_faults (dc_disk dc')
     \<and> dc_file_len dc' = length (dk_file (dc_disk dc'))
     \<and> dc_page_size dc' = dc_page_size dc \<and> dc_compression dc' = dc_compression dc \<and> dc_key dc' = dc_key dc
     \<and> dc_index dc' = dc_index dc \<and> dc_tainted dc' = dc_tainted dc \<and> dc_bitmap dc' = dc_bitmap dc \<and> dc_mem dc' = dc_mem dc"

lemma wrote_facts:
  assumes "wrote off data dc dc'"
  shows "no_faults (dc_disk dc')" "dc_file_len dc' = length (dk_file (dc_disk dc'))" "dc_page_size dc' = dc_page_size dc"
    "dc_compression dc' = dc_compression dc" "dc_index dc' = dc_index dc" "dc_tainted dc' = dc_tainted dc"
    "mem_hit q dc' = mem_hit q dc" "dc_is_present q dc' = dc_is_present q dc" "dc_key dc' = dc_key dc"
  using assms by (simp_all add: wrote_def mem_hit_def dc_is_present_def)

lemma ensure_then_write:
  assumes "no_faults (dc_disk dc)" "dc_file_len dc = length (dk_file (dc_disk dc))" "data \<noteq> []"
  shows "\<exists>dc'. and_then (ensure_file_len (off + length data) dc) (\<lambda>_ dc. on_disk (write_all_at off data) dc) = (Inr (), dc') \<and> wrote off data dc dc'"
proof (cases "off + length data \<le> dc_file_len dc")
  case True
  then show ?thesis using assms
    by (simp add: ensure_file_len_def on_disk_def write_all_at_ok wrote_def length_pwrite)
next
  case False
  then have "length (dk_file (dc_disk dc)) \<le> off + length data" using assms(2) by simp
  from pwrite_extended [OF assms(3) this order_refl] False assms show ?thesis
    by (simp add: ensure_file_len_def on_disk_def write_all_at_ok set_len_ok wrote_def length_pwrite)
qed

lemma write_slot_ok:
  assumes "no_faults (dc_disk dc)" "dc_file_len dc = length (dk_file (dc_disk dc))" "off + length data < U64_SIZE" "data \<noteq> []"
  shows "\<exists>dc'. write_slot off data dc = (Inr (), dc') \<and> wrote off data dc dc'"
proof -
  have "(off + length data) mod U64_SIZE = off + length data" using assms(3) by simp
  then show ?thesis using ensure_then_write [OF assms(1,2,4)] by (simp only: write_slot_def)
qed

text \<open>Slots of different pages do not overlap.\<close>

lemma slots_apart:
  assumes "(p :: nat) \<noteq> q"
  shows "(q + 1) * s \<le> p * s \<or> (p + 1) * s \<le> q * s"
proof -
  have "q + 1 \<le> p \<or> p + 1 \<le> q" using assms by linarith
  then show ?thesis using mult_le_mono1 by blast
qed

lemma wrote_slot_stored:
  assumes w: "wrote (p * slot_stride dc) frame dc dc'" and plain: "\<not> dc_compression dc"
    and frame: "length frame = slot_stride dc" "frame \<noteq> []" "decrypt_if_needed C frame [] (dc_key dc) = Inr data"
    and len: "length data = dc_page_size dc" and fits: "slot_fits dc p"
  shows "stored C dc' p data" and "q \<noteq> p \<Longrightarrow> stored C dc q d \<Longrightarrow> stored C dc' q d"
proof -
  let ?s = "slot_stride dc" and ?file = "dk_file (dc_disk dc)"
  have s: "slot_stride dc' = ?s" "\<And>r. slot_fits dc' r = slot_fits dc r"
    using w by (simp_all add: wrote_def slot_stride_def slot_fits_def)
  have fl: "dk_file (dc_disk dc') = pwrite (p * ?s) frame ?file" using w by (simp add: wrote_def)
  have long: "length ?file \<le> length (dk_file (dc_disk dc'))" "(p + 1) * ?s \<le> length (dk_file (dc_disk dc'))"
    using fl frame(1,2) by (simp_all add: length_pwrite)
  have "bslice (p * ?s) ?s (dk_file (dc_disk dc')) = frame" using pwrite_same [of "p * ?s" frame ?file] fl frame(1) by simp
  then show "stored C dc' p data" using w plain frame(3) len fits s long(2) by (simp add: stored_def wrote_def)
  assume q: "q \<noteq> p" "stored C dc q d"
  then have sq: "q * ?s + ?s \<le> length ?file" "slot_fits dc q" using plain by (auto simp: stored_def)
  have "bslice (q * ?s) ?s (dk_file (dc_disk dc')) = bslice (q * ?s) ?s ?file"
    unfolding fl using sq(1) slots_apart [OF q(1), of ?s] frame(1) by (intro pwrite_other) auto
  then show "stored C dc' q d" using w plain q(2) s long(1) by (auto simp: stored_def wrote_def)
qed

subsection \<open>Single pages\<close>

lemma write_page_plain:
  assumes codec: "cache_codec C" and inv: "cache_inv C dc" and ok: "no_faults (dc_disk dc)" and plain: "\<not> dc_compression dc"
    and len: "length data = dc_page_size dc" "length nonce = 12" and fits: "slot_fits dc p"
    and frame: "page_frame C (dc_key dc) nonce data = Inr frame"
  shows "\<exists>dc'. write_page C nonce now p data dc = (Inr (), dc') \<and> no_faults (dc_disk dc')
    \<and> cache_inv C dc' \<and> cache_view C dc' = (cache_view C dc)(p \<mapsto> data)"
proof -
  note f = frame_opens [OF codec frame len(2)]
  have i: "0 < dc_page_size dc" "dc_page_size dc \<le> 65536" "\<not> dc_tainted dc" "dc_file_len dc = length (dk_file (dc_disk dc))"
    "index_ok (dc_index dc)" using inv by (simp_all add: cache_inv_def)
  have fl: "length frame = slot_stride dc" using f(2) len(1) by (simp add: slot_stride_def)
  have "0 < slot_stride dc" using i(1) by (simp add: slot_stride_def stride_for_def split: option.splits)
  then have ne: "frame \<noteq> []" using fl by auto
  have off: "slot_offset dc p = p * slot_stride dc" "p * slot_stride dc + length frame < U64_SIZE"
    using fits fl by (simp_all add: slot_fits_def slot_offset_def add.commute)
  let ?e = "bitmap_ensure p dc"
  obtain d1 where d1: "write_slot (slot_offset dc p) frame ?e = (Inr (), d1)" "wrote (p * slot_stride dc) frame ?e d1"
    using write_slot_ok [of ?e "p * slot_stride dc" frame] ok i(4) off(2) ne unfolding off(1) bitmap_fields by blast
  have s: "slot_stride ?e = slot_stride dc" "slot_fits ?e p" "\<And>q d. stored C ?e q d = stored C dc q d"
    using fits by (simp_all add: slot_stride_def slot_fits_def stored_def)
  have e: "wrote (p * slot_stride ?e) frame ?e d1" "\<not> dc_compression ?e" "length frame = slot_stride ?e"
    "decrypt_if_needed C frame [] (dc_key ?e) = Inr data" "length data = dc_page_size ?e"
    using d1(2) plain fl f(1) len(1) s(1) by simp_all
  note st = wrote_slot_stored [OF e(1-3) ne e(4,5) s(2)]
  have st1: "stored C d1 p data" "\<And>q d. q \<noteq> p \<Longrightarrow> stored C dc q d \<Longrightarrow> stored C d1 q d"
    using st s(3) by blast+
  let ?m = "bitmap_mark p d1" and ?d2 = "install_mem_cache_page p data (bitmap_mark p d1)"
  have w: "no_faults (dc_disk d1)" "dc_file_len d1 = length (dk_file (dc_disk d1))" "dc_page_size d1 = dc_page_size dc"
    "dc_compression d1 = dc_compression dc" "dc_index d1 = dc_index dc" "dc_tainted d1 = dc_tainted dc" "\<And>q. mem_hit q d1 = mem_hit q dc"
    "\<And>q. dc_is_present q d1 = dc_is_present q dc"
    using wrote_facts [OF d1(2)] by simp_all
  note same = same_store_facts [OF install_same_store [of p data ?m]]
  have m: "stored C ?m q d = stored C d1 q d" for q d by (rule stored_cong) simp_all
  have fields: "dc_page_size ?d2 = dc_page_size dc" "dc_tainted ?d2 = dc_tainted dc" "dc_file_len ?d2 = length (dk_file (dc_disk ?d2))"
    "dc_index ?d2 = dc_index dc" "dc_compression ?d2 = dc_compression dc" "dc_disk ?d2 = dc_disk d1"
    using install_same_store [of p data ?m] w by (simp_all add: same_store_def)
  have "cache_inv C ?d2 \<and> cache_view C ?d2 = (cache_view C dc)(p \<mapsto> data)"
  proof (rule establish_view)
    show "dc_is_present q ?d2 \<longleftrightarrow> ((cache_view C dc)(p \<mapsto> data)) q \<noteq> None" for q
      using view_present [OF inv, of q] plain w(4,8) by (simp add: same present_mark_ensured)
    show "((cache_view C dc)(p \<mapsto> data)) q = Some d \<Longrightarrow> stored C ?d2 q d" for q d
      using st1 view_stored [OF inv, of q d] by (simp add: same m split: if_splits)
    show "((cache_view C dc)(p \<mapsto> data)) q = Some page"
      if "mem_hit q ?d2 = Some page" "((cache_view C dc)(p \<mapsto> data)) q \<noteq> None" for q page
      using that mem_hit_install [of ?m data q p] w(3,7) i(1) len(1) view_mem [OF inv plain, of q page]
      by (auto split: if_splits)
  qed (use fields i plain in \<open>simp_all add: index_in_file_def\<close>)
  then show ?thesis using d1(1) i(3) plain frame w(1) fields(6)
    by (simp add: write_page_def check_tainted_def)
qed

lemma wrote_keeps_blob:
  assumes "wrote off data dc dc'" "entry_end e \<le> off" "entry_end e \<le> length (dk_file (dc_disk dc))"
  shows "blob_of e (dc_disk dc') = blob_of e (dc_disk dc)" "entry_end e \<le> length (dk_file (dc_disk dc'))"
proof -
  have fl: "dk_file (dc_disk dc') = pwrite off data (dk_file (dc_disk dc))" using assms(1) by (simp add: wrote_def)
  show "blob_of e (dc_disk dc') = blob_of e (dc_disk dc)"
    unfolding blob_of_def fl using assms(2,3) by (intro pwrite_other) (auto simp: entry_end_def)
  show "entry_end e \<le> length (dk_file (dc_disk dc'))" using assms(3) by (auto simp: fl length_pwrite max_def)
qed

lemma wrote_new_blob:
  assumes "wrote off data dc dc'" "data \<noteq> []"
  shows "blob_of \<lparr>ce_offset = off, ce_len = length data\<rparr> (dc_disk dc') = data"
    "entry_end \<lparr>ce_offset = off, ce_len = length data\<rparr> \<le> length (dk_file (dc_disk dc'))"
  using assms pwrite_same [of off data] by (simp_all add: wrote_def blob_of_def entry_end_def length_pwrite)

text \<open>
  Appending a blob for page \<open>p\<close>: \<open>dc\<close> is the state before, \<open>mid\<close> the state with the new
  index entry, \<open>dc'\<close> the state after the blob is in the file.
\<close>

lemma appended_stored:
  assumes ok: "index_ok (dc_index dc)" and comp: "dc_compression dc"
    and mid: "dc_index mid = snd (index_insert p (length blob) (dc_index dc))" "dc_disk mid = dc_disk dc"
      "dc_page_size mid = dc_page_size dc" "dc_compression mid = dc_compression dc" "dc_key mid = dc_key dc"
    and w: "wrote (ci_next_offset (dc_index dc)) blob mid dc'" and ne: "blob \<noteq> []"
    and opn: "open_blob C (dc_key dc) (dc_page_size dc) blob = Inr data" "length data = dc_page_size dc"
  shows "stored C dc' p data" and "q \<noteq> p \<Longrightarrow> stored C dc q d \<Longrightarrow> stored C dc' q d"
proof -
  note f = wrote_facts [OF w]
  show "stored C dc' p data"
    using wrote_new_blob [OF w ne] opn comp mid f by (simp add: stored_def index_insert_def Let_def)
  assume q: "q \<noteq> p" "stored C dc q d"
  then obtain e where e: "ci_entries (dc_index dc) q = Some e" "entry_end e \<le> length (dk_file (dc_disk dc))"
    "open_blob C (dc_key dc) (dc_page_size dc) (blob_of e (dc_disk dc)) = Inr d" "length d = dc_page_size dc"
    using comp by (auto simp: stored_def)
  then have "entry_end e \<le> ci_next_offset (dc_index dc)" using ok by (simp add: index_ok_def)
  from wrote_keeps_blob [OF w this] e q(1) comp mid f show "stored C dc' q d"
    by (simp add: stored_def index_insert_def Let_def)
qed

lemma write_page_comp:
  assumes codec: "cache_codec C" and inv: "cache_inv C dc" and ok: "no_faults (dc_disk dc)" and comp: "dc_compression dc"
    and len: "length data = dc_page_size dc" "length nonce = 12"
    and blob: "compressed_blob C (dc_key dc) nonce data = Inr blob"
  shows "\<exists>dc'. write_page C nonce now p data dc = (Inr (), dc') \<and> no_faults (dc_disk dc')
    \<and> cache_inv C dc' \<and> cache_view C dc' = (cache_view C dc)(p \<mapsto> data)"
proof -
  have i: "0 < dc_page_size dc" "dc_page_size dc \<le> 65536" "\<not> dc_tainted dc" "dc_file_len dc = length (dk_file (dc_disk dc))"
    "index_ok (dc_index dc)" using inv by (simp_all add: cache_inv_def)
  note b = blob_opens [OF codec blob len(2,1) i(2)]
  let ?off = "ci_next_offset (dc_index dc)"
  let ?mid = "bitmap_ensure p (dc\<lparr>dc_index := snd (index_insert p (length blob) (dc_index dc))\<rparr>)"
  obtain d1 where d1: "and_then (ensure_file_len (?off + length blob) ?mid) (\<lambda>_ dc. on_disk (write_all_at ?off blob) dc) = (Inr (), d1)"
    "wrote ?off blob ?mid d1"
    using ensure_then_write [of ?mid blob ?off] ok i(4) b(3) by auto
  have "dc_disk ?mid = dc_disk dc" "dc_page_size ?mid = dc_page_size dc" "dc_compression ?mid = dc_compression dc" "dc_key ?mid = dc_key dc"
    "dc_index ?mid = snd (index_insert p (length blob) (dc_index dc))" by simp_all
  note mid = this(5,1-4)
  note st = appended_stored [OF i(5) comp mid d1(2) b(3,1) len(1)]
  note w = wrote_facts [OF d1(2)]
  let ?d2 = "track_chunks [sub_chunk_for_page (dc_tracker (bitmap_mark p d1)) p] now (bitmap_mark p d1)"
  note same = same_store_facts [OF track_chunks_same(1)]
  have m: "stored C (bitmap_mark p d1) q d = stored C d1 q d" for q d by (rule stored_cong) simp_all
  have fields: "dc_page_size ?d2 = dc_page_size dc" "dc_tainted ?d2 = dc_tainted dc" "dc_file_len ?d2 = length (dk_file (dc_disk ?d2))"
    "dc_index ?d2 = snd (index_insert p (length blob) (dc_index dc))" "dc_compression ?d2 = dc_compression dc" "dc_disk ?d2 = dc_disk d1"
    using w by (simp_all add: track_chunks_def)
  have pres: "dc_is_present q d1 \<longleftrightarrow> dc_is_present q dc \<or> q = p \<and> is_present (dc_bitmap dc) p" for q
  proof -
    have "dc_is_present q d1 \<longleftrightarrow> dc_is_present q (dc\<lparr>dc_index := snd (index_insert p (length blob) (dc_index dc))\<rparr>)"
      using w(8) [of q] by simp
    also have "\<dots> \<longleftrightarrow> dc_is_present q dc \<or> q = p \<and> is_present (dc_bitmap dc) p"
      using comp by (auto simp: dc_is_present_def index_contains_def index_insert_def Let_def)
    finally show ?thesis .
  qed
  have inside: "index_in_file ?d2"
  proof -
    have "entry_end e \<le> length (dk_file (dc_disk d1))" if "ci_entries (dc_index dc) q = Some e" for q e
      using wrote_keeps_blob(2) [OF d1(2), of e] i(5) inv comp that mid(2) by (simp add: index_ok_def cache_inv_def index_in_file_def)
    then show ?thesis using wrote_new_blob(2) [OF d1(2) b(3)] fields
      by (simp add: index_in_file_def index_insert_def Let_def)
  qed
  have "cache_inv C ?d2 \<and> cache_view C ?d2 = (cache_view C dc)(p \<mapsto> data)"
  proof (rule establish_view)
    show "dc_is_present q ?d2 \<longleftrightarrow> ((cache_view C dc)(p \<mapsto> data)) q \<noteq> None" for q
      using view_present [OF inv, of q] comp w(4,5) pres [of q]
      by (auto simp: same present_mark_ensured index_contains_def index_insert_def Let_def)
    show "((cache_view C dc)(p \<mapsto> data)) q = Some d \<Longrightarrow> stored C ?d2 q d" for q d
      using st view_stored [OF inv, of q d] by (simp add: same m split: if_splits)
  qed (use fields i comp inside index_insert_ok(1) [OF i(5)] in simp_all)
  moreover have "length blob mod U32_SIZE = length blob" using b(2) by simp
  moreover have "fst (index_insert p (length blob) (dc_index dc)) = ?off"
    by (simp add: index_insert_def Let_def)
  ultimately show ?thesis using d1(1) i(3) comp blob w(1) fields(6)
    by (simp add: write_page_def check_tainted_def write_page_compressed_def Let_def and_then_assoc case_prod_beta)
qed

subsection \<open>Evictions\<close>

lemma drop_mem_slots [simp]:
  "same_store (fold (drop_mem_slot ps) pns dc) dc"
  "mem_hit q (fold (drop_mem_slot ps) pns dc) = (if q \<in> set pns then None else mem_hit q dc)"
  "dc_tracker (fold (drop_mem_slot ps) pns dc) = dc_tracker dc"
  "dc_group_states (fold (drop_mem_slot ps) pns dc) = dc_group_states dc"
  "dc_group_pages (fold (drop_mem_slot ps) pns dc) = dc_group_pages dc"
  "dc_ppg (fold (drop_mem_slot ps) pns dc) = dc_ppg dc" "dc_spf (fold (drop_mem_slot ps) pns dc) = dc_spf dc"
proof -
  have one: "same_store (drop_mem_slot ps p dc) dc" "mem_hit q (drop_mem_slot ps p dc) = (if q = p then None else mem_hit q dc)"
    "dc_tracker (drop_mem_slot ps p dc) = dc_tracker dc" "dc_group_states (drop_mem_slot ps p dc) = dc_group_states dc"
    "dc_group_pages (drop_mem_slot ps p dc) = dc_group_pages dc" "dc_ppg (drop_mem_slot ps p dc) = dc_ppg dc"
    "dc_spf (drop_mem_slot ps p dc) = dc_spf dc" for p q dc
    by (auto simp: drop_mem_slot_def same_store_def mem_hit_def split: option.splits)
  show "same_store (fold (drop_mem_slot ps) pns dc) dc"
    by (induction pns arbitrary: dc) (auto intro: same_store_trans one)
  show "mem_hit q (fold (drop_mem_slot ps) pns dc) = (if q \<in> set pns then None else mem_hit q dc)"
    by (induction pns arbitrary: dc) (simp_all add: one)
  show "dc_tracker (fold (drop_mem_slot ps) pns dc) = dc_tracker dc"
    "dc_group_states (fold (drop_mem_slot ps) pns dc) = dc_group_states dc"
    "dc_group_pages (fold (drop_mem_slot ps) pns dc) = dc_group_pages dc"
    "dc_ppg (fold (drop_mem_slot ps) pns dc) = dc_ppg dc" "dc_spf (fold (drop_mem_slot ps) pns dc) = dc_spf dc"
    by (induction pns arbitrary: dc; simp add: one)+
qed

lemma punch_slots_frame [simp]:
  "length (dk_file (punch_slots s pns d)) = length (dk_file d)" "no_faults (punch_slots s pns d) = no_faults d"
  unfolding punch_slots_def by (induction pns arbitrary: d; simp)+

lemma punch_slots_other:
  assumes "\<And>p. p \<in> set pns \<Longrightarrow> (p + 1) * s < U64_SIZE" "q \<notin> set pns" "(q + 1) * s \<le> length (dk_file d)"
  shows "bslice (q * s) s (dk_file (punch_slots s pns d)) = bslice (q * s) s (dk_file d)"
  using assms
proof (induction pns arbitrary: d)
  case (Cons p pns)
  have "(p * s) mod U64_SIZE = p * s" using Cons.prems(1) [of p] by simp
  then have "punch_slots s (p # pns) d = punch_slots s pns (punch_hole (p * s) s d)" by (simp add: punch_slots_def)
  moreover have "bslice (q * s) s (dk_file (punch_hole (p * s) s d)) = bslice (q * s) s (dk_file d)"
    using Cons.prems(2,3) slots_apart [of p q s] by (intro punch_hole_other) auto
  moreover have "bslice (q * s) s (dk_file (punch_slots s pns (punch_hole (p * s) s d))) = bslice (q * s) s (dk_file (punch_hole (p * s) s d))"
    using Cons.prems by (intro Cons.IH) auto
  ultimately show ?case by simp
qed (simp add: punch_slots_def)

lemma index_removes:
  "ci_entries (fold index_remove pns ix) q = (if q \<in> set pns then None else ci_entries ix q)"
  "index_ok ix \<Longrightarrow> index_ok (fold index_remove pns ix)"
proof -
  show "ci_entries (fold index_remove pns ix) q = (if q \<in> set pns then None else ci_entries ix q)"
    by (induction pns arbitrary: ix) (auto simp: index_remove_def)
  show "index_ok ix \<Longrightarrow> index_ok (fold index_remove pns ix)"
    by (induction pns arbitrary: ix) (auto intro: index_insert_ok(3))
qed

text \<open>Clearing pages removes exactly them from the view.\<close>

lemma clear_pages_view:
  assumes inv: "cache_inv C dc" and fits: "\<And>p. p \<in> set pns \<Longrightarrow> slot_fits dc p"
  shows "cache_inv C (clear_pages_from_disk pns dc) \<and> cache_view C (clear_pages_from_disk pns dc) = cache_view C dc |` (- set pns)"
proof -
  have i: "0 < dc_page_size dc" "dc_page_size dc \<le> 65536" "\<not> dc_tainted dc" "dc_file_len dc = length (dk_file (dc_disk dc))"
    "index_ok (dc_index dc)" using inv by (simp_all add: cache_inv_def)
  let ?b = "dc\<lparr>dc_bitmap := foldl clear_page (dc_bitmap dc) pns\<rparr>"
  let ?f = "fold (drop_mem_slot (dc_page_size dc)) pns ?b"
  let ?d = "clear_pages_from_disk pns dc"
  have f: "dc_disk ?f = dc_disk dc" "dc_file_len ?f = dc_file_len dc" "dc_page_size ?f = dc_page_size dc" "dc_compression ?f = dc_compression dc"
    "dc_key ?f = dc_key dc" "dc_index ?f = dc_index dc" "dc_tainted ?f = dc_tainted dc" "dc_bitmap ?f = foldl clear_page (dc_bitmap dc) pns"
    using drop_mem_slots(1) [of "dc_page_size dc" pns ?b] by (simp_all add: same_store_def)
  have stride: "slot_stride ?f = slot_stride dc" using f by (simp add: slot_stride_def)
  have d: "?d = (if dc_compression dc then ?f\<lparr>dc_index := fold index_remove pns (dc_index dc)\<rparr>
      else ?f\<lparr>dc_disk := punch_slots (slot_stride dc) pns (dc_disk dc)\<rparr>)"
    using f stride by (simp add: clear_pages_from_disk_def Let_def)
  have mem: "mem_hit q ?d = (if q \<in> set pns then None else mem_hit q dc)" for q
    using drop_mem_slots(2) [of q "dc_page_size dc" pns ?b] by (simp add: d mem_hit_def)
  have bm: "is_present (dc_bitmap ?d) q \<longleftrightarrow> is_present (dc_bitmap dc) q \<and> q \<notin> set pns" for q
    by (simp add: d f(8) bitmap.present_unmarks)
  have pres: "dc_is_present q ?d \<longleftrightarrow> dc_is_present q dc \<and> q \<notin> set pns" for q
    using bm [of q] f(4,6) by (auto simp: dc_is_present_def d index_contains_def index_removes(1) domIff)
  have kept: "stored C ?d q data" if "stored C dc q data" "q \<notin> set pns" for q data
  proof (cases "dc_compression dc")
    case True
    then show ?thesis using that f by (simp add: stored_def d index_removes(1))
  next
    case False
    then have q: "(q + 1) * slot_stride dc \<le> length (dk_file (dc_disk dc))" using that(1) by (simp add: stored_def)
    have "bslice (q * slot_stride dc) (slot_stride dc) (dk_file (punch_slots (slot_stride dc) pns (dc_disk dc)))
        = bslice (q * slot_stride dc) (slot_stride dc) (dk_file (dc_disk dc))"
      using fits that(2) q by (intro punch_slots_other) (auto simp: slot_fits_def)
    then show ?thesis using that(1) False f by (simp add: stored_def d slot_fits_def slot_stride_def)
  qed
  show ?thesis
  proof (rule establish_view)
    show "dc_is_present q ?d \<longleftrightarrow> (cache_view C dc |` (- set pns)) q \<noteq> None" for q
      using pres [of q] view_present [OF inv, of q] by (simp add: restrict_map_def)
    show "(cache_view C dc |` (- set pns)) q = Some data \<Longrightarrow> stored C ?d q data" for q data
      using kept [of q data] view_stored [OF inv, of q data] by (auto simp: restrict_map_def split: if_splits)
    show "(cache_view C dc |` (- set pns)) q = Some page"
      if "\<not> dc_compression ?d" "mem_hit q ?d = Some page" "(cache_view C dc |` (- set pns)) q \<noteq> None" for q page
      using that mem [of q] view_mem [OF inv, of q page] f(4) d by (auto simp: restrict_map_def split: if_splits)
  qed (use inv i f index_removes(2) [OF i(5)] in \<open>simp_all add: d index_in_file_def index_removes(1) cache_inv_def\<close>)
qed

text \<open>Compaction keeps the view.\<close>

lemma compact_view:
  assumes inv: "cache_inv C dc" and ok: "no_faults (dc_disk dc)" and iter: "hash_iteration piter"
  shows "cache_inv C (snd (compact_compressed_cache piter dc)) \<and> cache_view C (snd (compact_compressed_cache piter dc)) = cache_view C dc
    \<and> no_faults (dc_disk (snd (compact_compressed_cache piter dc)))"
proof (cases "dc_compression dc")
  case True
  have i: "0 < dc_page_size dc" "dc_page_size dc \<le> 65536" "\<not> dc_tainted dc" "index_ok (dc_index dc)"
    "\<forall>p e. ci_entries (dc_index dc) p = Some e \<longrightarrow> entry_end e \<le> length (dk_file (dc_disk dc))"
    using inv True by (simp_all add: cache_inv_def index_in_file_def)
  obtain ix d n where run: "compact_index piter (dc_index dc) (dc_disk dc) = (Inr (ix, n), d)" "index_ok ix" "length (dk_file d) = n"
    "dom (ci_entries ix) = dom (ci_entries (dc_index dc))"
    "\<And>p e. ci_entries (dc_index dc) p = Some e \<Longrightarrow> \<exists>e'. ci_entries ix p = Some e' \<and> entry_end e' \<le> n \<and> blob_of e' d = blob_of e (dc_disk dc)"
    "no_faults d"
    using compact_index_spec [OF iter ok i(4,5)] by blast
  let ?d = "dc\<lparr>dc_disk := d, dc_index := ix, dc_file_len := n\<rparr>"
  have snd: "snd (compact_compressed_cache piter dc) = ?d"
    using run(1) True by (simp add: compact_compressed_cache_def on_disk_def)
  have in_file: "entry_end e' \<le> n" if at: "ci_entries ix p = Some e'" for p e'
  proof -
    obtain e where "ci_entries (dc_index dc) p = Some e" using run(4) at by (metis domD domI)
    then show ?thesis using run(5) at by fastforce
  qed
  have "cache_inv C ?d \<and> cache_view C ?d = cache_view C dc"
  proof (rule establish_view)
    show "dc_is_present q ?d \<longleftrightarrow> cache_view C dc q \<noteq> None" for q
      using view_present [OF inv, of q] run(4) by (simp add: dc_is_present_def index_contains_def)
    show "stored C ?d q data" if view: "cache_view C dc q = Some data" for q data
    proof -
      obtain e where "ci_entries (dc_index dc) q = Some e" "open_blob C (dc_key dc) (dc_page_size dc) (blob_of e (dc_disk dc)) = Inr data"
        "length data = dc_page_size dc"
        using view_stored [OF inv view] True by (auto simp: stored_def)
      then show ?thesis using run(3,5) True by (fastforce simp: stored_def)
    qed
  qed (use i run in_file True in \<open>simp_all add: index_in_file_def\<close>)
  then show ?thesis using snd run(6) by simp
qed (use assms in \<open>simp add: compact_compressed_cache_def\<close>)

lemma clear_pages_frame [simp]:
  "dc_tracker (clear_pages_from_disk pns dc) = dc_tracker dc" "dc_group_states (clear_pages_from_disk pns dc) = dc_group_states dc"
  "dc_group_pages (clear_pages_from_disk pns dc) = dc_group_pages dc" "dc_ppg (clear_pages_from_disk pns dc) = dc_ppg dc"
  "dc_spf (clear_pages_from_disk pns dc) = dc_spf dc" "no_faults (dc_disk (clear_pages_from_disk pns dc)) = no_faults (dc_disk dc)"
  "slot_stride (clear_pages_from_disk pns dc) = slot_stride dc"
proof -
  have "same_store (fold (drop_mem_slot (dc_page_size dc)) pns (dc\<lparr>dc_bitmap := foldl clear_page (dc_bitmap dc) pns\<rparr>))
    (dc\<lparr>dc_bitmap := foldl clear_page (dc_bitmap dc) pns\<rparr>)" by (rule drop_mem_slots)
  then show "no_faults (dc_disk (clear_pages_from_disk pns dc)) = no_faults (dc_disk dc)"
    "slot_stride (clear_pages_from_disk pns dc) = slot_stride dc"
    by (simp_all add: clear_pages_from_disk_def Let_def same_store_def slot_stride_def)
qed (simp_all add: clear_pages_from_disk_def Let_def)

lemma evict_chunk_frame [simp]:
  "dc_tracker (evict_chunk i dc) = remove_chunk i (dc_tracker dc)" "dc_group_states (evict_chunk i dc) = dc_group_states dc"
  "dc_group_pages (evict_chunk i dc) = dc_group_pages dc" "dc_ppg (evict_chunk i dc) = dc_ppg dc" "dc_spf (evict_chunk i dc) = dc_spf dc"
  "no_faults (dc_disk (evict_chunk i dc)) = no_faults (dc_disk dc)" "slot_stride (evict_chunk i dc) = slot_stride dc"
  by (simp_all add: evict_chunk_def Let_def slot_stride_def) (metis clear_pages_frame(7) slot_stride_def)

lemma chunk_pages_cong:
  "dc_group_pages dc' = dc_group_pages dc \<Longrightarrow> dc_ppg dc' = dc_ppg dc \<Longrightarrow> dc_spf dc' = dc_spf dc
    \<Longrightarrow> sub_chunk_page_nums i dc' = sub_chunk_page_nums i dc"
  by (simp add: sub_chunk_page_nums_def)

lemma cache_inv_cong:
  assumes "same_store dc' dc" "\<And>q. mem_hit q dc' = mem_hit q dc"
  shows "cache_inv C dc' = cache_inv C dc" "cache_inv C dc \<Longrightarrow> cache_view C dc' = cache_view C dc"
proof -
  show inv: "cache_inv C dc' = cache_inv C dc"
    using assms same_store_facts [OF assms(1)] by (simp add: cache_inv_def index_in_file_def same_store_def)
  assume "cache_inv C dc"
  then have "cache_inv C dc'" by (simp add: inv)
  then have "cache_view C dc' p = Some d \<longleftrightarrow> cache_view C dc p = Some d" for p d
    using \<open>cache_inv C dc\<close> same_store_facts [OF assms(1)] by (simp add: view_iff)
  then show "cache_view C dc' = cache_view C dc" by (intro ext) (metis option.exhaust)
qed

lemma evict_chunk_view:
  assumes "cache_inv C dc" "\<And>p. p \<in> set (sub_chunk_page_nums i dc) \<Longrightarrow> slot_fits dc p"
  shows "cache_inv C (evict_chunk i dc)" "cache_view C (evict_chunk i dc) = cache_view C dc |` (- set (sub_chunk_page_nums i dc))"
proof -
  let ?c = "clear_pages_from_disk (sub_chunk_page_nums i dc) dc"
  have "same_store (evict_chunk i dc) ?c" "\<And>q. mem_hit q (evict_chunk i dc) = mem_hit q ?c"
    by (simp_all add: evict_chunk_def Let_def same_store_def mem_hit_def)
  from cache_inv_cong [OF this] clear_pages_view [OF assms]
  show "cache_inv C (evict_chunk i dc)" "cache_view C (evict_chunk i dc) = cache_view C dc |` (- set (sub_chunk_page_nums i dc))"
    by simp_all
qed

end
