(* ===== verification/Cache_Write.thy ===== *)
theory Cache_Write
  imports Cache_View
begin

text \<open>
  Single-page writes of the cache, stated over the view of \<open>Cache_View\<close>: a successful write in
  either storage form is a map update, a failed one shows at most its own page.
\<close>

definition sample_codec :: codec where
  "sample_codec = \<lparr>zs_encode = (\<lambda>x. Inr (40 # x)), zs_stream = (\<lambda>y. (drop 1 y, None)),
     gcm_seal = (\<lambda>_ _ _ x. Inr (x @ zeros 16)), gcm_open = (\<lambda>_ _ _ y. Inr (take (length y - 16) y))\<rparr>"

definition sample_cache :: "bool \<Rightarrow> bytes \<Rightarrow> sub_chunk_id set \<Rightarrow> bytes \<Rightarrow> disk_cache" where
  "sample_cache compressed bs scs content =
     \<lparr>dc_disk = \<lparr>dk_file = content, dk_fault = (\<lambda>_. None), dk_ops = 0\<rparr>, dc_file_len = length content, dc_mem = None,
      dc_mem_budget = 0, dc_mem_bytes = 0, dc_generation = 0,
      dc_tracker = \<lparr>present = scs, tiers = Map.empty, access_times = Map.empty, access_counts = Map.empty,
        current_cache_bytes = 4 * card scs, sub_chunk_byte_size = 4, tk_pages_per_group = 4, tk_sub_pages_per_frame = 1\<rparr>,
      dc_bitmap = \<lparr>bits = bs, bm_path = ''b''\<rparr>, dc_group_states = [Present], dc_interior_groups = {},
      dc_interior_pages = {}, dc_index_pages = {}, dc_group_access = Map.empty, dc_ttl_secs = 0, dc_ppg = 4, dc_spf = 1,
      dc_page_size = 4, dc_key = None, dc_group_pages = [[0, 1, 2, 3]], dc_compression = compressed, dc_index = empty_index,
      dc_tainted = False, dc_budget_bytes = 0, dc_eviction_counter = 0, dc_stat_evictions = 0, dc_stat_bytes_evicted = 0,
      dc_stat_peak = 0, dc_stat_last_evictions = 0\<rparr>"

lemma sample_cache_codec: "cache_codec sample_codec"
  by (simp add: cache_codec_def sample_codec_def)

lemma no_bits: "\<not> is_present \<lparr>bits = [], bm_path = x\<rparr> p"
  by (simp add: is_present_def)

lemma sample_empty: "cache_inv C (sample_cache compressed [] {} [])" "no_faults (dc_disk (sample_cache compressed bs scs content))"
  by (simp_all add: cache_inv_def sample_cache_def index_ok_def empty_index_def index_in_file_def mem_hit_def
      dc_is_present_def no_bits no_faults_def)

text \<open>
  C11: Writing one page. On a cache whose invariant holds, with a page of the page size, a codec that
  accepts it and no disk fault, \<open>write_page\<close> succeeds in the plain, encrypted and compressed forms
  alike, keeps the invariant, and what readers see is the old map with this one page updated: no other
  page appears, changes or disappears.
\<close>

theorem write_page_view:
  assumes "cache_codec C" "cache_inv C dc" "no_faults (dc_disk dc)"
    and "length data = dc_page_size dc" "length nonce = 12" "dc_compression dc \<or> slot_fits dc p"
    and "if dc_compression dc then compressed_blob C (dc_key dc) nonce data = Inr out
         else page_frame C (dc_key dc) nonce data = Inr out"
  shows "\<exists>dc'. write_page C nonce now p data dc = (Inr (), dc') \<and> no_faults (dc_disk dc')
    \<and> cache_inv C dc' \<and> cache_view C dc' = (cache_view C dc)(p \<mapsto> data)"
proof (cases "dc_compression dc")
  case True
  then show ?thesis using write_page_comp [OF assms(1-3) True assms(4,5)] assms(7) by simp
next
  case False
  then show ?thesis using write_page_plain [OF assms(1-3) False assms(4,5)] assms(6,7) by simp
qed

theorem write_page_view_witness:
  "\<exists>dc'. write_page sample_codec (zeros 12) 7 5 [1, 2, 3, 4] (sample_cache True [] {} []) = (Inr (), dc') \<and> no_faults (dc_disk dc')
    \<and> cache_inv sample_codec dc' \<and> cache_view sample_codec dc' = (cache_view sample_codec (sample_cache True [] {} []))(5 \<mapsto> [1, 2, 3, 4])"
proof (rule write_page_view [OF sample_cache_codec sample_empty])
  show "if dc_compression (sample_cache True [] {} []) then compressed_blob sample_codec (dc_key (sample_cache True [] {} [])) (zeros 12) [1, 2, 3, 4] = Inr [40, 1, 2, 3, 4]
      else page_frame sample_codec (dc_key (sample_cache True [] {} [])) (zeros 12) [1, 2, 3, 4] = Inr [40, 1, 2, 3, 4]"
    by (simp add: sample_cache_def compressed_blob_def page_frame_def compress_def sample_codec_def)
qed (simp_all add: sample_cache_def)

text \<open>Two pages of four bytes, one sub-chunk each.\<close>

definition two_page_cache :: disk_cache where
  "two_page_cache = sample_cache False [3] {SubChunkId 0 0, SubChunkId 0 1} [1, 2, 3, 4, 5, 6, 7, 8]"

lemma two_page_inv: "cache_inv sample_codec two_page_cache"
proof -
  have bits: "is_present \<lparr>bits = [3], bm_path = ''b''\<rparr> p \<longleftrightarrow> p < 2" for p
  proof (cases "p < 8")
    case True
    then have "p \<in> {0, 1, 2, 3, 4, 5, 6, 7}" by auto
    then show ?thesis by (auto simp: is_present_def)
  qed (simp add: is_present_def)
  have "stored sample_codec two_page_cache 0 [1, 2, 3, 4]" "stored sample_codec two_page_cache 1 [5, 6, 7, 8]"
    by (simp_all add: stored_def two_page_cache_def sample_cache_def slot_fits_def slot_stride_def stride_for_def bslice_def
        decrypt_if_needed_def)
  moreover have "dc_is_present p two_page_cache \<longleftrightarrow> p = 0 \<or> p = 1" for p
    by (auto simp: dc_is_present_def two_page_cache_def sample_cache_def bits)
  ultimately show ?thesis
    by (auto simp: cache_inv_def two_page_cache_def sample_cache_def index_ok_def empty_index_def index_in_file_def mem_hit_def)
qed

end
