(* ===== verification/Cache_Evict.thy ===== *)
theory Cache_Evict
  imports Cache_Write
begin

text \<open>
  Eviction down to a byte budget (\<open>disk_cache.rs\<close>, \<open>evict_to_budget\<close>): which sub-chunks go, in which
  order, when it stops, and what a reader of the cache still sees.
\<close>

subsection \<open>The eviction loop\<close>

lemma restrict_map_UNIV: "m |` UNIV = m"
  by (simp add: restrict_map_def fun_eq_iff)

text \<open>
  The eviction loop: \<open>out\<close> are the victims it evicts, the first \<open>k\<close> of its list without
  those of a group being fetched; it stops before the end only when the budget is met.
\<close>

definition chunk_pages :: "sub_chunk_id set \<Rightarrow> disk_cache \<Rightarrow> nat set" where
  "chunk_pages V dc = (\<Union>i \<in> V. set (sub_chunk_page_nums i dc))"

definition idle_chunks :: "disk_cache \<Rightarrow> sub_chunk_id list \<Rightarrow> sub_chunk_id list" where
  "idle_chunks dc is = filter (\<lambda>i. get_group_state (sc_group_id i) dc \<noteq> Fetching) is"

definition evicted_prefix ::
  "codec \<Rightarrow> nat \<Rightarrow> sub_chunk_id list \<Rightarrow> nat \<Rightarrow> disk_cache \<Rightarrow> nat \<Rightarrow> disk_cache \<Rightarrow> nat \<Rightarrow> bool" where
  "evicted_prefix C budget is n dc n' dc' k \<longleftrightarrow> k \<le> length is
     \<and> n' = n + length (idle_chunks dc (take k is))
     \<and> dc_tracker dc' = fold remove_chunk (idle_chunks dc (take k is)) (dc_tracker dc)
     \<and> cache_inv C dc' \<and> no_faults (dc_disk dc')
     \<and> cache_view C dc' = cache_view C dc |` (- chunk_pages (set (idle_chunks dc (take k is))) dc)
     \<and> (current_cache_bytes (dc_tracker dc') \<le> budget \<or> k = length is)
     \<and> (idle_chunks dc (take k is) \<noteq> [] \<longrightarrow>
           budget < current_cache_bytes (fold remove_chunk (butlast (idle_chunks dc (take k is))) (dc_tracker dc)))"

lemma evicted_none:
  assumes "cache_inv C dc" "no_faults (dc_disk dc)" "current_cache_bytes (dc_tracker dc) \<le> budget \<or> is = []"
  shows "evicted_prefix C budget is n dc n dc 0"
  using assms by (auto simp: evicted_prefix_def chunk_pages_def idle_chunks_def restrict_map_UNIV)

lemma evicted_skip:
  assumes "evicted_prefix C budget is n dc n' dc' k" "get_group_state (sc_group_id i) dc = Fetching"
  shows "evicted_prefix C budget (i # is) n dc n' dc' (Suc k)"
  using assms by (auto simp: evicted_prefix_def idle_chunks_def)

lemma evicted_one:
  assumes rest: "evicted_prefix C budget is (n + 1) (evict_chunk i dc) n' dc' k"
    and over: "\<not> current_cache_bytes (dc_tracker dc) \<le> budget"
    and idle: "get_group_state (sc_group_id i) dc \<noteq> Fetching" and inv: "cache_inv C dc"
    and fits: "\<And>p. p \<in> set (sub_chunk_page_nums i dc) \<Longrightarrow> slot_fits dc p"
  shows "evicted_prefix C budget (i # is) n dc n' dc' (Suc k)"
proof -
  let ?d = "evict_chunk i dc"
  have pages: "sub_chunk_page_nums j ?d = sub_chunk_page_nums j dc" for j by (rule chunk_pages_cong) simp_all
  have st: "get_group_state g ?d = get_group_state g dc" for g by (simp add: get_group_state_def)
  have same: "chunk_pages V ?d = chunk_pages V dc" "idle_chunks ?d xs = idle_chunks dc xs" for V xs
    by (simp_all add: chunk_pages_def pages idle_chunks_def st)
  have out: "idle_chunks dc (take (Suc k) (i # is)) = i # idle_chunks dc (take k is)" using idle by (simp add: idle_chunks_def)
  have "cache_view C dc' = cache_view C dc |` (- chunk_pages (set (i # idle_chunks dc (take k is))) dc)"
    using rest evict_chunk_view(2) [OF inv fits] unfolding evicted_prefix_def same by (simp add: chunk_pages_def Int_commute)
  then show ?thesis using rest over unfolding evicted_prefix_def same out by auto
qed

lemma evict_victims_spec:
  assumes "evict_victims budget is n dc = (n', dc')" "cache_inv C dc" "no_faults (dc_disk dc)"
    and "\<And>i p. i \<in> set is \<Longrightarrow> p \<in> set (sub_chunk_page_nums i dc) \<Longrightarrow> slot_fits dc p"
  shows "\<exists>k. evicted_prefix C budget is n dc n' dc' k"
  using assms
proof (induction "is" arbitrary: n dc)
  case Nil
  then show ?case using evicted_none [of C dc budget "[]"] by auto
next
  case (Cons i vs)
  consider (met) "current_cache_bytes (dc_tracker dc) \<le> budget"
    | (skip) "\<not> current_cache_bytes (dc_tracker dc) \<le> budget" "get_group_state (sc_group_id i) dc = Fetching"
    | (evict) "\<not> current_cache_bytes (dc_tracker dc) \<le> budget" "get_group_state (sc_group_id i) dc \<noteq> Fetching" by blast
  then show ?case
  proof cases
    case met
    then show ?thesis using Cons.prems evicted_none [of C dc budget "i # vs"] by auto
  next
    case skip
    then have run: "evict_victims budget vs n dc = (n', dc')" using Cons.prems(1) by simp
    have "\<exists>k. evicted_prefix C budget vs n dc n' dc' k"
      by (rule Cons.IH [OF run Cons.prems(2,3)]) (rule Cons.prems(4), simp_all)
    then show ?thesis using evicted_skip [OF _ skip(2)] by blast
  next
    case evict
    let ?d = "evict_chunk i dc"
    have pages: "sub_chunk_page_nums j ?d = sub_chunk_page_nums j dc" for j by (rule chunk_pages_cong) simp_all
    have fits: "slot_fits dc p" if "p \<in> set (sub_chunk_page_nums i dc)" for p using Cons.prems(4) [of i p] that by simp
    have run: "evict_victims budget vs (n + 1) ?d = (n', dc')" using Cons.prems(1) evict by simp
    have nf: "no_faults (dc_disk ?d)" using Cons.prems(3) by simp
    have more: "slot_fits ?d p" if "j \<in> set vs" "p \<in> set (sub_chunk_page_nums j ?d)" for j p
      using Cons.prems(4) [of j p] that by (simp add: pages slot_fits_def)
    have inv: "cache_inv C ?d" using evict_chunk_view(1) [OF Cons.prems(2)] fits by blast
    have "\<exists>k. evicted_prefix C budget vs (n + 1) ?d n' dc' k"
      by (rule Cons.IH [OF run inv nf]) (rule more)
    then show ?thesis using evicted_one [OF _ evict Cons.prems(2) fits] by blast
  qed
qed

lemma sort_key_pairs: "map fst (sort_key snd (map (\<lambda>i. (i, f i)) xs)) = sort_key f xs"
proof -
  have ins: "map fst (insort_key snd (i, f i) (map (\<lambda>i. (i, f i)) ys)) = insort_key f i ys
      \<and> insort_key snd (i, f i) (map (\<lambda>i. (i, f i)) ys) = map (\<lambda>i. (i, f i)) (insort_key f i ys)" for i ys
    by (induction ys) (simp_all add: comp_def)
  have "sort_key snd (map (\<lambda>i. (i, f i)) xs) = map (\<lambda>i. (i, f i)) (sort_key f xs)"
    by (induction xs) (simp_all add: ins)
  then show ?thesis by (simp add: comp_def)
qed

lemma victims_facts:
  assumes "hash_iteration iter" "finite (present t)"
  shows "set (victims iter skip now t) = {i \<in> present t. evictable t skip i}" "distinct (victims iter skip now t)"
    "sorted (map (score t now) (victims iter skip now t))"
proof -
  let ?xs = "filter (evictable t skip) (iter (present t))"
  have eq: "victims iter skip now t = sort_key (score t now) ?xs"
    by (simp add: victims_def score_evictable_def sort_key_pairs)
  show "set (victims iter skip now t) = {i \<in> present t. evictable t skip i}"
    using hash_iteration.set_iter [OF assms] by (auto simp: eq)
  show "distinct (victims iter skip now t)" using hash_iteration.distinct_iter [OF assms] by (simp add: eq)
  show "sorted (map (score t now) (victims iter skip now t))" by (simp add: eq)
qed

lemma pinned_full:
  assumes "tracker_inv t" "fits t" "current_cache_bytes t \<le> pinned_bytes t" "0 < current_cache_bytes t" "i \<in> present t"
  shows "tier_or_data (tiers t) i = Pinned"
proof -
  let ?P = "{i \<in> present t. tier_or_data (tiers t) i = Pinned}"
  have fin: "finite (present t)" and bytes: "current_cache_bytes t = card (present t) * sub_chunk_byte_size t"
    using assms(1) by (simp_all add: tracker_inv_def)
  have sub: "card ?P \<le> card (present t)" using fin by (intro card_mono) auto
  then have "card ?P * sub_chunk_byte_size t < U64_SIZE"
    using assms(2) by (metis fits_def le_less_trans mult_le_mono1)
  then have "pinned_bytes t = card ?P * sub_chunk_byte_size t" by (simp add: pinned_bytes_def count_tier_def)
  then have "card (present t) \<le> card ?P" using assms(3,4) bytes by simp
  then have "?P = present t" using fin sub by (intro card_subset_eq) auto
  then show ?thesis using assms(5) by blast
qed

subsection \<open>The outcome of an eviction\<close>

text \<open>
  The contract of \<open>evict_to_budget\<close>, as a relation between the cache before and after and the set
  \<open>V\<close> of evicted sub-chunks.
\<close>

definition may_evict :: "nat set \<Rightarrow> disk_cache \<Rightarrow> sub_chunk_id \<Rightarrow> bool" where
  "may_evict skip dc i \<longleftrightarrow> evictable (dc_tracker dc) skip i \<and> get_group_state (sc_group_id i) dc \<noteq> Fetching"

definition eviction_outcome ::
  "codec \<Rightarrow> nat \<Rightarrow> nat set \<Rightarrow> rat \<Rightarrow> disk_cache \<Rightarrow> sub_chunk_id set \<Rightarrow> disk_cache \<Rightarrow> bool" where
  "eviction_outcome C budget skip now dc V dc' \<longleftrightarrow>
     V \<subseteq> present (dc_tracker dc) \<and> present (dc_tracker dc') = present (dc_tracker dc) - V
     \<and> (\<forall>i \<in> V. may_evict skip dc i)
     \<and> (\<forall>i \<in> V. \<forall>j \<in> present (dc_tracker dc'). may_evict skip dc j \<longrightarrow> score (dc_tracker dc) now i \<le> score (dc_tracker dc) now j)
     \<and> (current_cache_bytes (dc_tracker dc') \<le> budget \<or> (\<forall>j \<in> present (dc_tracker dc'). \<not> may_evict skip dc j))
     \<and> (V \<noteq> {} \<longrightarrow> budget < current_cache_bytes (dc_tracker dc') + sub_chunk_byte_size (dc_tracker dc))
     \<and> tracker_inv (dc_tracker dc')
     \<and> cache_inv C dc' \<and> cache_view C dc' = cache_view C dc |` (- chunk_pages V dc)"

lemma sorted_prefix_le:
  assumes "sorted (map f xs)" "a \<in> set (take k xs)" "b \<in> set (drop k xs)"
  shows "f a \<le> f b"
proof -
  have "sorted (map f (take k xs) @ map f (drop k xs))" using assms(1) by (metis append_take_drop_id map_append)
  then show ?thesis using assms(2,3) by (auto simp: sorted_append)
qed

lemma bytes_size_remove_chunks: "sub_chunk_byte_size (fold remove_chunk vs t) = sub_chunk_byte_size t"
  by (induction vs arbitrary: t) (simp_all add: remove_chunk_def Let_def)

lemma bytes_remove_last:
  assumes "tracker_inv t" "vs \<noteq> []" "distinct vs" "set vs \<subseteq> present t"
  shows "current_cache_bytes (fold remove_chunk (butlast vs) t)
    = current_cache_bytes (fold remove_chunk vs t) + sub_chunk_byte_size t"
proof -
  have fin: "finite (present t)" using assms(1) by (simp add: tracker_inv_def)
  have bytes: "current_cache_bytes (fold remove_chunk us t) = card (present t - set us) * sub_chunk_byte_size t" for us
    using remove_chunks_inv [OF assms(1), of us] by (simp add: tracker_inv_def present_remove_chunks bytes_size_remove_chunks)
  have split: "vs = butlast vs @ [last vs]" using assms(2) by simp
  have "last vs \<notin> set (butlast vs)" using assms(3) by (metis split distinct_append disjoint_iff list.set_intros(1))
  moreover have "set vs = insert (last vs) (set (butlast vs))" by (subst split) simp
  ultimately have "present t - set (butlast vs) = insert (last vs) (present t - set vs)" "last vs \<notin> present t - set vs"
    using assms(4) by auto
  then have "card (present t - set (butlast vs)) = Suc (card (present t - set vs))" using fin by simp
  then show ?thesis by (simp add: bytes)
qed

lemma outcome_nothing:
  assumes "cache_inv C dc" "tracker_inv (dc_tracker dc)"
    and "current_cache_bytes (dc_tracker dc) \<le> budget \<or> (\<forall>j \<in> present (dc_tracker dc). \<not> may_evict skip dc j)"
  shows "eviction_outcome C budget skip now dc {} dc"
  using assms by (simp add: eviction_outcome_def chunk_pages_def restrict_map_UNIV)

lemma eviction_outcome_cong:
  assumes "dc_tracker d' = dc_tracker d" "cache_inv C d'" "cache_inv C d" "cache_view C d' = cache_view C d"
  shows "eviction_outcome C budget skip now dc V d' = eviction_outcome C budget skip now dc V d"
  by (simp add: eviction_outcome_def assms)

lemma maybe_compact_keeps:
  assumes "cache_inv C dc" "no_faults (dc_disk dc)" "hash_iteration piter"
  shows "cache_inv C (maybe_compact piter n dc)" "cache_view C (maybe_compact piter n dc) = cache_view C dc"
    "dc_tracker (maybe_compact piter n dc) = dc_tracker dc"
  using compact_view [OF assms] assms(1)
  by (auto simp: maybe_compact_def Let_def compact_compressed_cache_def and_then_def on_disk_def split: sum.splits prod.splits)

lemma outcome_of_prefix:
  assumes ev: "evicted_prefix C budget vs 0 dc n dc' k" and vs: "vs = victims iter skip now (dc_tracker dc)"
    and iter: "hash_iteration iter" and t: "tracker_inv (dc_tracker dc)"
  shows "eviction_outcome C budget skip now dc (set (idle_chunks dc (take k vs))) dc'"
    "n = card (set (idle_chunks dc (take k vs)))"
proof -
  let ?t = "dc_tracker dc" and ?out = "idle_chunks dc (take k vs)"
  have fin: "finite (present ?t)" using t by (simp add: tracker_inv_def)
  note v = victims_facts [OF iter fin, where skip = skip and now = now, folded vs]
  have dist: "distinct ?out" using v(2) by (simp add: idle_chunks_def)
  have out: "set ?out = {i \<in> set (take k vs). get_group_state (sc_group_id i) dc \<noteq> Fetching}" by (auto simp: idle_chunks_def)
  have may: "i \<in> present ?t \<and> may_evict skip dc i" if "i \<in> set ?out" for i
    using that v(1) in_set_takeD [of i k vs] by (auto simp: out may_evict_def)
  have n: "n = length ?out" and t': "dc_tracker dc' = fold remove_chunk ?out ?t"
    and view: "cache_inv C dc'" "cache_view C dc' = cache_view C dc |` (- chunk_pages (set ?out) dc)"
    and stop: "current_cache_bytes (dc_tracker dc') \<le> budget \<or> k = length vs"
    and need: "?out \<noteq> [] \<longrightarrow> budget < current_cache_bytes (fold remove_chunk (butlast ?out) ?t)"
    using ev unfolding evicted_prefix_def by auto
  have sub: "set ?out \<subseteq> present ?t" using may by blast
  have left: "j \<in> set (drop k vs)" if "j \<in> present ?t - set ?out" "may_evict skip dc j" for j
  proof -
    have "j \<in> set vs" using that v(1) by (simp add: may_evict_def)
    then have "j \<in> set (take k vs) \<or> j \<in> set (drop k vs)" by (metis Un_iff append_take_drop_id set_append)
    then show ?thesis using that by (auto simp: out may_evict_def)
  qed
  have low: "score ?t now i \<le> score ?t now j" if "i \<in> set ?out" "j \<in> present ?t - set ?out" "may_evict skip dc j" for i j
    using sorted_prefix_le [OF v(3), of i k j] that(1) left [OF that(2,3)] by (simp add: out)
  have least: "set ?out \<noteq> {} \<longrightarrow> budget < current_cache_bytes (dc_tracker dc') + sub_chunk_byte_size ?t"
    using need bytes_remove_last [OF t _ dist sub] by (simp add: t')
  have met: "current_cache_bytes (dc_tracker dc') \<le> budget \<or> (\<forall>j \<in> present ?t - set ?out. \<not> may_evict skip dc j)"
  proof (cases "k = length vs")
    case True
    then have "drop k vs = []" by simp
    then show ?thesis using left by (metis empty_iff empty_set)
  qed (use stop in simp)
  show "eviction_outcome C budget skip now dc (set ?out) dc'"
    unfolding eviction_outcome_def
    using sub may low met least view t' remove_chunks_inv [OF t, of ?out] by (simp add: present_remove_chunks)
  show "n = card (set ?out)" using n dist by (simp add: distinct_card)
qed

lemma evict_to_budget_spec:
  assumes "evict_to_budget piter iter now budget skip dc = (n, dc')"
    and inv: "cache_inv C dc" "no_faults (dc_disk dc)" "tracker_inv (dc_tracker dc)" "fits (dc_tracker dc)"
    and hash: "hash_iteration piter" "hash_iteration iter"
    and slots: "\<And>i p. i \<in> present (dc_tracker dc) \<Longrightarrow> p \<in> set (sub_chunk_page_nums i dc) \<Longrightarrow> slot_fits dc p"
  shows "\<exists>V. eviction_outcome C budget skip now dc V dc' \<and> n = card V"
proof -
  let ?t = "dc_tracker dc" and ?vs = "victims iter skip now (dc_tracker dc)"
  have fin: "finite (present ?t)" using inv(3) by (simp add: tracker_inv_def)
  consider (met) "current_cache_bytes ?t \<le> budget" | (pinned) "\<not> current_cache_bytes ?t \<le> budget" "current_cache_bytes ?t \<le> pinned_bytes ?t"
    | (evict) "\<not> (current_cache_bytes ?t \<le> budget \<or> current_cache_bytes ?t \<le> pinned_bytes ?t)" by blast
  then show ?thesis
  proof cases
    case met
    then have "eviction_outcome C budget skip now dc {} dc" using outcome_nothing [OF inv(1,3)] by blast
    then show ?thesis using assms(1) met by (auto simp: evict_to_budget_def intro!: exI [of _ "{}"])
  next
    case pinned
    then have "\<not> may_evict skip dc j" if "j \<in> present ?t" for j
      using pinned_full [OF inv(3,4) pinned(2) _ that] by (simp add: may_evict_def evictable_def)
    then have "eviction_outcome C budget skip now dc {} dc" using outcome_nothing [OF inv(1,3)] by blast
    then show ?thesis using assms(1) pinned by (auto simp: evict_to_budget_def intro!: exI [of _ "{}"])
  next
    case evict
    obtain m d where run: "evict_victims budget ?vs 0 dc = (m, d)" by force
    have res: "n = m" "dc' = maybe_compact piter m (d\<lparr>dc_stat_last_evictions := m\<rparr>)"
      using assms(1) evict run by (auto simp: evict_to_budget_def Let_def)
    have "\<exists>k. evicted_prefix C budget ?vs 0 dc m d k"
      by (rule evict_victims_spec [OF run inv(1,2)]) (use victims_facts(1) [OF hash(2) fin] slots in auto)
    then obtain k where k: "evicted_prefix C budget ?vs 0 dc m d k" by blast
    note o = outcome_of_prefix [OF k refl hash(2) inv(3)]
    let ?d = "d\<lparr>dc_stat_last_evictions := m\<rparr>"
    have same: "same_store ?d d" "\<And>q. mem_hit q ?d = mem_hit q d" by (simp_all add: same_store_def mem_hit_def)
    have "cache_inv C ?d" "cache_view C ?d = cache_view C d" "no_faults (dc_disk ?d)"
      using k cache_inv_cong [OF same, of C] by (simp_all add: evicted_prefix_def)
    note mc = maybe_compact_keeps [OF this(1,3) hash(1), of m]
    have "eviction_outcome C budget skip now dc (set (idle_chunks dc (take k ?vs))) dc'"
      using o(1) eviction_outcome_cong [of dc' d C] mc \<open>cache_view C ?d = _\<close> k by (simp add: res evicted_prefix_def)
    then show ?thesis using o(2) res(1) by blast
  qed
qed

text \<open>
  C10: Evicting to a byte budget. There is a set \<open>V\<close> of evicted sub-chunks, as many as the
  count returned, such that no evicted sub-chunk is pinned, belongs to a skipped group or to a group
  being fetched; none of them scores higher than a candidate that survives; afterwards the accounted
  bytes are within the budget, or no candidate is left; had one sub-chunk fewer gone, the budget would
  not be met; the accounting is still exact; and readers of the cache see exactly the pages they saw
  before, less the pages of \<open>V\<close> (whether or not the compressed file was compacted on the way).
\<close>

theorem evict_to_budget_correct:
  assumes "evict_to_budget piter iter now budget skip dc = (n, dc')"
    and "cache_inv C dc" "no_faults (dc_disk dc)" "tracker_inv (dc_tracker dc)" "fits (dc_tracker dc)"
    and "hash_iteration piter" "hash_iteration iter"
    and "\<And>i p. i \<in> present (dc_tracker dc) \<Longrightarrow> p \<in> set (sub_chunk_page_nums i dc) \<Longrightarrow> slot_fits dc p"
  shows "\<exists>V. eviction_outcome C budget skip now dc V dc' \<and> n = card V"
  using assms by (rule evict_to_budget_spec)

theorem evict_to_budget_correct_witness:
  "\<exists>V. eviction_outcome sample_codec 4 {} 0 two_page_cache V (snd (evict_to_budget sorted_list_of_set sorted_list_of_set 0 4 {} two_page_cache))
    \<and> fst (evict_to_budget sorted_list_of_set sorted_list_of_set 0 4 {} two_page_cache) = card V"
proof (rule evict_to_budget_correct [OF _ two_page_inv])
  show "no_faults (dc_disk two_page_cache)" "tracker_inv (dc_tracker two_page_cache)" "fits (dc_tracker two_page_cache)"
    by (simp_all add: two_page_cache_def sample_cache_def no_faults_def tracker_inv_def fits_def)
  show "slot_fits two_page_cache p" if "i \<in> present (dc_tracker two_page_cache)" "p \<in> set (sub_chunk_page_nums i two_page_cache)" for i p
    using that by (auto simp: two_page_cache_def sample_cache_def sub_chunk_page_nums_def slot_fits_def slot_stride_def
        stride_for_def bslice_def Let_def)
qed (simp | rule sorted_iter.hash_iteration_axioms)+

end
