(* ===== verification/Resize.thy ===== *)
theory Resize
  imports Manifest
begin

text \<open>
  Growing and shrinking the page map: \<open>assign_new_pages_to_groups\<close> and the manifest part of
  \<open>set_len\<close> (\<open>src/src/tiered/handle.rs\<close>), and \<open>set_replay_page_count\<close>
  (\<open>src/src/tiered/replay.rs\<close>). The result type is an option where the code can panic
  (\<open>chunks(0)\<close>); the subtraction \<open>ppg as usize - len\<close> wraps as in a release build.
\<close>

subsection \<open>Operations\<close>

definition push_page :: "nat \<Rightarrow> nat \<Rightarrow> manifest \<Rightarrow> manifest" where
  "push_page gid pnum m =
     (let pages = group_pages m ! gid @ [pnum] in
      m\<lparr>group_pages := (group_pages m)[gid := pages],
        page_index := (page_index m)(pnum \<mapsto>
          \<lparr>pl_group_id = gid, pl_index = (length pages - 1) mod U32_SIZE\<rparr>)\<rparr>)"

definition append_group :: "nat list \<Rightarrow> manifest \<Rightarrow> manifest" where
  "append_group chunk m =
     (let new_gid = length (group_pages m) in
      m\<lparr>page_index := insert_all (map (\<lambda>(i, pnum).
            (pnum, \<lparr>pl_group_id = new_gid, pl_index = i mod U32_SIZE\<rparr>)) (List.enumerate 0 chunk)) (page_index m),
        group_pages := group_pages m @ [chunk]\<rparr>)"

definition last_group_room :: "manifest \<Rightarrow> nat \<Rightarrow> nat" where
  "last_group_room m ppg =
     (if group_pages m \<noteq> []
      then wrapping_sub ppg (length (group_pages m ! (length (group_pages m) - 1)))
      else 0)"

definition assign_new_pages_to_groups :: "manifest \<Rightarrow> nat list \<Rightarrow> nat \<Rightarrow> manifest option" where
  "assign_new_pages_to_groups m unassigned ppg =
     (if unassigned = [] then Some m
      else if strategy m = Positional then
        Some (let max_page = Max (set unassigned) in
              if page_count m \<le> max_page then m\<lparr>page_count := (max_page + 1) mod U64_SIZE\<rparr> else m)
      else
        let sorted = sort unassigned;
            last_gid = length (group_pages m) - 1;
            room = last_group_room m ppg;
            fill = (if 0 < room \<and> group_pages m \<noteq> [] then min room (length sorted) else 0);
            m = fold (push_page last_gid) (take fill sorted) m
        in if ppg = 0 then None
           else Some (fold append_group (chunks ppg (drop fill sorted)) m))"

definition set_len_page_count :: "nat \<Rightarrow> nat \<Rightarrow> nat" where
  "set_len_page_count len ps = (if len = 0 then 0 else div_ceil len ps)"

definition set_len_manifest :: "(nat set \<Rightarrow> nat list) \<Rightarrow> manifest \<Rightarrow> nat \<Rightarrow> manifest option" where
  "set_len_manifest iter m new_page_count =
     (let old_page_count = page_count m; ppg = pages_per_group m;
          m = m\<lparr>page_count := new_page_count\<rparr> in
      if strategy m \<noteq> Positional then
        if new_page_count < old_page_count then
          Some (build_page_index iter
            (m\<lparr>group_pages := map (filter (\<lambda>pnum. pnum < new_page_count)) (group_pages m)\<rparr>))
        else if old_page_count < new_page_count then
          assign_new_pages_to_groups m [old_page_count..<new_page_count] ppg
        else Some m
      else Some m)"

function fill_last :: "nat \<Rightarrow> nat list \<Rightarrow> nat \<Rightarrow> nat \<Rightarrow> nat list \<times> nat" where
  "fill_last ppg pages next_page n =
     (if length pages < ppg \<and> next_page < n
      then fill_last ppg (pages @ [next_page]) (next_page + 1) n
      else (pages, next_page))"
  by pat_completeness auto
termination
  by (relation "measure (\<lambda>(ppg, pages, next_page, n). n - next_page)") auto

declare fill_last.simps [simp del]

function replay_new_groups :: "nat \<Rightarrow> nat \<Rightarrow> nat \<Rightarrow> nat list list" where
  "replay_new_groups ppg next_page n =
     (if 0 < ppg \<and> next_page < n
      then let k = min ppg (n - next_page) in
        [next_page..<next_page + k] # replay_new_groups ppg (next_page + k) n
      else [])"
  by pat_completeness auto
termination
  by (relation "measure (\<lambda>(ppg, next_page, n). n - next_page)") auto

declare replay_new_groups.simps [simp del]

text \<open>The parallel vectors after a shrink: one row per group that keeps at least one page.\<close>

definition or_default :: "'a list \<Rightarrow> 'a \<Rightarrow> nat \<Rightarrow> 'a" where
  "or_default xs d i = (case get xs i of Some x \<Rightarrow> x | None \<Rightarrow> d)"

definition kept_groups :: "manifest \<Rightarrow> nat \<Rightarrow> nat list" where
  "kept_groups m n =
     filter (\<lambda>i. filter (\<lambda>p. p < n) (group_pages m ! i) \<noteq> []) [0..<length (group_pages m)]"

definition shrink_groups :: "manifest \<Rightarrow> nat \<Rightarrow> manifest" where
  "shrink_groups m n = m\<lparr>
     group_pages := map (\<lambda>i. filter (\<lambda>p. p < n) (group_pages m ! i)) (kept_groups m n),
     page_group_keys := map (or_default (page_group_keys m) []) (kept_groups m n),
     frame_tables := map (or_default (frame_tables m) []) (kept_groups m n),
     subframe_overrides := map (or_default (subframe_overrides m) Map.empty) (kept_groups m n)\<rparr>"

definition grow_groups :: "manifest \<Rightarrow> nat \<Rightarrow> nat \<Rightarrow> manifest" where
  "grow_groups m old_page_count n =
     (let ppg = pages_per_group m in
      if 0 < ppg then
        (case group_pages m of
           [] \<Rightarrow> m\<lparr>group_pages := replay_new_groups ppg old_page_count n\<rparr>
         | _ \<Rightarrow> (case fill_last ppg (last (group_pages m)) old_page_count n of
             (pages, next_page) \<Rightarrow>
               m\<lparr>group_pages := butlast (group_pages m) @ [pages] @ replay_new_groups ppg next_page n\<rparr>))
      else m)"

definition set_replay_page_count :: "(nat set \<Rightarrow> nat list) \<Rightarrow> manifest \<Rightarrow> nat \<Rightarrow> nat \<Rightarrow> manifest" where
  "set_replay_page_count iter m old_page_count n =
     (let m = m\<lparr>page_count := n\<rparr> in
      if n \<le> old_page_count then
        (if strategy m = BTreeAware then build_page_index iter (shrink_groups m n) else m)
      else case strategy m of
        Positional \<Rightarrow> m
      | BTreeAware \<Rightarrow> build_page_index iter (grow_groups m old_page_count n))"

subsection \<open>The invariant of an explicit page map\<close>

definition index_consistent :: "manifest \<Rightarrow> bool" where
  "index_consistent m \<longleftrightarrow> (\<forall>p g i. page_index m p = Some \<lparr>pl_group_id = g, pl_index = i\<rparr>
     \<longleftrightarrow> g < length (group_pages m) \<and> i < length (group_pages m ! g) \<and> group_pages m ! g ! i = p)"

definition grouped :: "manifest \<Rightarrow> bool" where
  "grouped m \<longleftrightarrow> strategy m = BTreeAware \<and> index_consistent m
     \<and> 0 < pages_per_group m \<and> pages_per_group m < U32_SIZE
     \<and> distinct (concat (group_pages m)) \<and> set (concat (group_pages m)) = {..<page_count m}
     \<and> (\<forall>pages \<in> set (group_pages m). length pages \<le> pages_per_group m)"

lemma in_concat_nth:
  "p \<in> set (concat xss) \<longleftrightarrow> (\<exists>g i. g < length xss \<and> i < length (xss ! g) \<and> xss ! g ! i = p)"
  by (auto simp: in_set_conv_nth) (metis in_set_conv_nth)+

lemma index_consistent_build:
  assumes "distinct (concat (group_pages m))" "strategy m = BTreeAware"
    and "\<And>pages. pages \<in> set (group_pages m) \<Longrightarrow> length pages \<le> U32_SIZE"
  shows "index_consistent (build_page_index iter m)"
  using assms(2) insert_location_entries [OF assms(1,3)]
  by (simp add: index_consistent_def page_index_build)

subsection \<open>Steps of the assignment\<close>

lemma push_page_frame [simp]:
  "strategy (push_page g p m) = strategy m" "page_count (push_page g p m) = page_count m"
  "pages_per_group (push_page g p m) = pages_per_group m"
  "group_pages (push_page g p m) = (group_pages m)[g := group_pages m ! g @ [p]]"
  by (simp_all add: push_page_def Let_def)

lemma append_group_frame [simp]:
  "strategy (append_group c m) = strategy m" "page_count (append_group c m) = page_count m"
  "pages_per_group (append_group c m) = pages_per_group m"
  "group_pages (append_group c m) = group_pages m @ [c]"
  by (simp_all add: append_group_def Let_def)

lemma push_pages_frame [simp]:
  "strategy (fold (push_page g) ps m) = strategy m" "page_count (fold (push_page g) ps m) = page_count m"
  "pages_per_group (fold (push_page g) ps m) = pages_per_group m"
  "g < length (group_pages m) \<Longrightarrow> group_pages (fold (push_page g) ps m) = (group_pages m)[g := group_pages m ! g @ ps]"
  by (induction ps arbitrary: m) simp_all

lemma append_groups_frame [simp]:
  "strategy (fold append_group cs m) = strategy m" "page_count (fold append_group cs m) = page_count m"
  "pages_per_group (fold append_group cs m) = pages_per_group m"
  "group_pages (fold append_group cs m) = group_pages m @ cs"
  by (induction cs arbitrary: m) simp_all

lemma push_page_consistent:
  assumes "index_consistent m" "gid < length (group_pages m)" "p \<notin> set (concat (group_pages m))"
    and "length (group_pages m ! gid) < U32_SIZE"
  shows "index_consistent (push_page gid p m)"
proof -
  have fresh: "group_pages m ! g ! i \<noteq> p" if "g < length (group_pages m)" "i < length (group_pages m ! g)" for g i
    using that assms(3) in_concat_nth by metis
  have "page_index (push_page gid p m) = (page_index m)(p \<mapsto> \<lparr>pl_group_id = gid, pl_index = length (group_pages m ! gid)\<rparr>)"
    using assms(4) by (simp add: push_page_def Let_def)
  then show ?thesis
    using assms(1,2) fresh unfolding index_consistent_def
    by (auto simp: nth_list_update nth_append less_Suc_eq)
qed

lemma push_pages_consistent:
  assumes "index_consistent m" "gid < length (group_pages m)" "distinct ps"
    and "set ps \<inter> set (concat (group_pages m)) = {}" "length (group_pages m ! gid) + length ps \<le> U32_SIZE"
  shows "index_consistent (fold (push_page gid) ps m)"
  using assms
proof (induction ps arbitrary: m)
  case (Cons p ps)
  have "set (concat ((group_pages m)[gid := group_pages m ! gid @ [p]])) \<subseteq> insert p (set (concat (group_pages m)))"
    using Cons.prems(2) by (auto dest!: set_update_subset_insert [THEN subsetD])
  then have "set ps \<inter> set (concat (group_pages (push_page gid p m))) = {}"
    using Cons.prems(3,4) by auto
  moreover have "index_consistent (push_page gid p m)"
    using Cons.prems by (intro push_page_consistent) auto
  ultimately show ?case using Cons.prems by (simp add: Cons.IH)
qed simp

lemma append_group_consistent:
  assumes "index_consistent m" "distinct c" "set c \<inter> set (concat (group_pages m)) = {}" "length c \<le> U32_SIZE"
  shows "index_consistent (append_group c m)"
proof -
  let ?n = "length (group_pages m)"
  let ?kvs = "map (\<lambda>(i, pnum). (pnum, \<lparr>pl_group_id = ?n, pl_index = i mod U32_SIZE\<rparr>)) (List.enumerate 0 c)"
  have mem: "(q, l) \<in> set ?kvs \<longleftrightarrow> (\<exists>i < length c. c ! i = q \<and> l = \<lparr>pl_group_id = ?n, pl_index = i\<rparr>)" for q l
  proof -
    have "(q, l) \<in> set ?kvs \<longleftrightarrow> (\<exists>i < length c. c ! i = q \<and> l = \<lparr>pl_group_id = ?n, pl_index = i mod U32_SIZE\<rparr>)"
      by (force simp: in_set_enumerate_eq)
    moreover have "i mod U32_SIZE = i" if "i < length c" for i using that assms(4) by simp
    ultimately show ?thesis by (metis (no_types, lifting))
  qed
  have fst: "fst ` set ?kvs = set c"
  proof -
    have "map fst ?kvs = c" by (simp add: comp_def case_prod_unfold)
    then show ?thesis by (metis set_map)
  qed
  have fn: "v = v'" if "(q, v) \<in> set ?kvs" "(q, v') \<in> set ?kvs" for q v v'
    using that assms(2) unfolding mem by (auto simp: nth_eq_iff_index_eq)
  have idx: "page_index (append_group c m) = insert_all ?kvs (page_index m)"
    by (simp add: append_group_def Let_def)
  have old: "group_pages m ! g ! i \<notin> set c" if "g < ?n" "i < length (group_pages m ! g)" for g i
    using that assms(3) in_concat_nth by (metis disjoint_iff)
  have ins: "page_index (append_group c m) q = Some \<lparr>pl_group_id = g, pl_index = i\<rparr> \<longleftrightarrow>
    g = ?n \<and> i < length c \<and> c ! i = q \<or>
    q \<notin> set c \<and> g < ?n \<and> i < length (group_pages m ! g) \<and> group_pages m ! g ! i = q" for q g i
    using insert_all_functional [of ?kvs "page_index m" q "\<lparr>pl_group_id = g, pl_index = i\<rparr>", OF fn]
      assms(1) unfolding idx mem fst index_consistent_def by auto
  show ?thesis
    unfolding index_consistent_def ins using old by (auto simp: nth_append less_Suc_eq)
qed

lemma append_groups_consistent:
  assumes "index_consistent m" "distinct (concat cs)" "set (concat cs) \<inter> set (concat (group_pages m)) = {}"
    and "\<And>c. c \<in> set cs \<Longrightarrow> length c \<le> U32_SIZE"
  shows "index_consistent (fold append_group cs m)"
  using assms
proof (induction cs arbitrary: m)
  case (Cons c cs)
  have "index_consistent (append_group c m)" using Cons.prems by (intro append_group_consistent) auto
  moreover have "set (concat cs) \<inter> set (concat (group_pages (append_group c m))) = {}"
    using Cons.prems(2,3) by auto
  ultimately show ?case using Cons.prems by (simp add: Cons.IH)
qed simp

subsection \<open>Growth\<close>

lemma room_of_grouped:
  assumes "grouped m" "group_pages m \<noteq> []"
  shows "last_group_room m (pages_per_group m) = pages_per_group m - length (last (group_pages m))"
proof -
  let ?l = "length (last (group_pages m))"
  have le: "?l \<le> pages_per_group m" and ppg: "pages_per_group m < U32_SIZE"
    using assms by (auto simp: grouped_def)
  then have "wrapping_sub (pages_per_group m) ?l = pages_per_group m - ?l"
    by (intro wrapping_sub_le) simp_all
  then show ?thesis using assms(2) by (simp add: last_group_room_def last_conv_nth)
qed

text \<open>The groups after an assignment: the last group topped up, then full groups of the rest.\<close>

definition topped_up :: "nat list list \<Rightarrow> nat \<Rightarrow> nat list \<Rightarrow> nat list list" where
  "topped_up gps ppg ps =
     (if gps = [] then chunks ppg ps
      else let k = ppg - length (last gps) in
        butlast gps @ [last gps @ take k ps] @ chunks ppg (drop k ps))"

lemma update_last: "xs \<noteq> [] \<Longrightarrow> xs[length xs - Suc 0 := y] = butlast xs @ [y]"
  by (metis One_nat_def append_butlast_last_id length_butlast list_update_length)

lemma concat_topped_up:
  assumes "0 < ppg"
  shows "concat (topped_up gps ppg ps) = concat gps @ ps"
proof (cases "gps = []")
  case False
  then have "concat gps = concat (butlast gps) @ last gps"
    by (metis append_butlast_last_id concat_append concat.simps append_Nil2)
  then show ?thesis using assms False by (simp add: topped_up_def Let_def concat_chunks)
qed (simp add: topped_up_def concat_chunks assms)

lemma topped_up_bounded:
  assumes "0 < ppg" "\<And>g. g \<in> set gps \<Longrightarrow> length g \<le> ppg" "g \<in> set (topped_up gps ppg ps)"
  shows "length g \<le> ppg"
proof (cases "gps = []")
  case True
  then show ?thesis using assms chunks_bounded by (auto simp: topped_up_def)
next
  case False
  then have l: "length (last gps) \<le> ppg" using assms(2) by simp
  consider "g \<in> set (butlast gps)" | "g = last gps @ take (ppg - length (last gps)) ps"
    | "g \<in> set (chunks ppg (drop (ppg - length (last gps)) ps))"
    using assms(3) False by (auto simp: topped_up_def Let_def)
  then show ?thesis
  proof cases
    case 3
    then show ?thesis using chunks_bounded assms(1) by blast
  qed (use l assms(2) in \<open>auto dest: in_set_butlastD\<close>)
qed

lemma assign_grouped:
  assumes "grouped m" "distinct ps" "set ps \<inter> {..<page_count m} = {}" "sorted ps" "ps \<noteq> []"
  shows "\<exists>m'. assign_new_pages_to_groups (m\<lparr>page_count := n\<rparr>) ps (pages_per_group m) = Some m'
    \<and> group_pages m' = topped_up (group_pages m) (pages_per_group m) ps \<and> index_consistent m'
    \<and> strategy m' = BTreeAware \<and> page_count m' = n \<and> pages_per_group m' = pages_per_group m"
proof -
  let ?ppg = "pages_per_group m" and ?m = "m\<lparr>page_count := n\<rparr>" and ?g = "length (group_pages m) - 1"
  have g: "0 < ?ppg" "?ppg < U32_SIZE" "index_consistent ?m" "strategy ?m = BTreeAware"
    "set ps \<inter> set (concat (group_pages m)) = {}"
    using assms(1,3) by (auto simp: grouped_def index_consistent_def)
  define k where "k = (if group_pages m = [] then 0 else min (?ppg - length (last (group_pages m))) (length ps))"
  define m1 where "m1 = fold (push_page ?g) (take k ps) ?m"
  have k: "(if 0 < last_group_room ?m ?ppg \<and> group_pages ?m \<noteq> [] then min (last_group_room ?m ?ppg) (length ps) else 0) = k"
    using room_of_grouped [OF assms(1)] by (auto simp: k_def last_group_room_def)
  have chunk: "length c \<le> U32_SIZE" if "c \<in> set (chunks ?ppg (drop k ps))" for c
    using chunks_bounded [OF that g(1)] g(2) by simp
  have m1: "index_consistent m1 \<and> group_pages m1 = (if group_pages m = [] then [] else
      butlast (group_pages m) @ [last (group_pages m) @ take k ps])
    \<and> strategy m1 = BTreeAware \<and> page_count m1 = n \<and> pages_per_group m1 = ?ppg"
  proof (cases "group_pages m = []")
    case True
    then show ?thesis using g by (simp add: m1_def k_def)
  next
    case False
    have "length (last (group_pages m)) \<le> ?ppg" using assms(1) False by (simp add: grouped_def)
    then have "length (last (group_pages m)) + length (take k ps) \<le> U32_SIZE" using g(2) False by (simp add: k_def)
    moreover have "set (take k ps) \<inter> set (concat (group_pages m)) = {}"
      using g(5) set_take_subset [of k ps] by blast
    ultimately have "index_consistent m1" unfolding m1_def
      using g(3) False assms(2) by (intro push_pages_consistent) (simp_all add: last_conv_nth)
    then show ?thesis using False g(4) by (simp add: m1_def update_last last_conv_nth)
  qed
  have ds: "set (take k ps) \<inter> set (drop k ps) = {}" using assms(2) by (rule set_take_disj_set_drop_if_distinct) simp
  have "set (concat (group_pages m1)) \<subseteq> set (concat (group_pages m)) \<union> set (take k ps)"
    using m1 by (auto split: if_splits dest: in_set_butlastD intro: bexI [OF _ last_in_set])
  then have "set (drop k ps) \<inter> set (concat (group_pages m1)) = {}"
    using g(5) ds set_drop_subset [of k ps] by blast
  then have con: "index_consistent (fold append_group (chunks ?ppg (drop k ps)) m1)"
    using m1 assms(2) chunk by (intro append_groups_consistent) (simp_all add: concat_chunks g(1))
  have tu: "group_pages (fold append_group (chunks ?ppg (drop k ps)) m1) = topped_up (group_pages m) ?ppg ps"
    using m1 by (auto simp: topped_up_def k_def Let_def min_def)
  have sort: "sort ps = ps" using assms(4) by (simp add: sorted_sort_id)
  have "assign_new_pages_to_groups ?m ps ?ppg = Some (fold append_group (chunks ?ppg (drop k ps)) m1)"
    using assms(5) g(1,4) k by (simp add: assign_new_pages_to_groups_def Let_def sort m1_def)
  then show ?thesis using con m1 tu by simp
qed

lemma grouped_topped_up:
  assumes "grouped m" "page_count m \<le> n" "index_consistent m'" "strategy m' = BTreeAware" "page_count m' = n"
    and "pages_per_group m' = pages_per_group m"
    and "group_pages m' = topped_up (group_pages m) (pages_per_group m) [page_count m..<n]"
  shows "grouped m'"
  using assms topped_up_bounded [of "pages_per_group m" "group_pages m"]
  by (auto simp: grouped_def concat_topped_up)

lemma topped_up_keeps:
  assumes "g < length gps" "i < length (gps ! g)"
  shows "g < length (topped_up gps ppg ps) \<and> i < length (topped_up gps ppg ps ! g)
    \<and> topped_up gps ppg ps ! g ! i = gps ! g ! i"
proof -
  have "gps \<noteq> []" using assms by auto
  then obtain bs l where gps: "gps = bs @ [l]" by (metis append_butlast_last_id)
  then show ?thesis using assms by (cases "g = length bs") (auto simp: topped_up_def Let_def nth_append)
qed

lemma page_index_cases:
  assumes "index_consistent m"
  shows "page_index m p = Some l \<longleftrightarrow> pl_group_id l < length (group_pages m)
    \<and> pl_index l < length (group_pages m ! pl_group_id l) \<and> group_pages m ! pl_group_id l ! pl_index l = p"
  using assms by (cases l) (simp add: index_consistent_def)

lemma growth_keeps_location:
  assumes "index_consistent m" "index_consistent m'" "group_pages m' = topped_up (group_pages m) ppg ps"
    and "page_index m p = Some l"
  shows "page_index m' p = Some l"
  using assms(4) topped_up_keeps
  unfolding page_index_cases [OF assms(1)] page_index_cases [OF assms(2)] assms(3) by blast

text \<open>
  C15: growing the file keeps the page map sound: the assignment never panics and never wraps, every
  new page gets a location, no group exceeds the group size, each page is in exactly one group, and
  every page that had a location keeps it.
\<close>

theorem set_len_grow:
  assumes "grouped m" "page_count m < n"
  shows "\<exists>m'. set_len_manifest iter m n = Some m' \<and> grouped m' \<and> page_count m' = n
    \<and> (\<forall>p l. page_location m p = Some l \<longrightarrow> page_location m' p = Some l)"
proof -
  have "[page_count m..<n] \<noteq> []" "set [page_count m..<n] \<inter> {..<page_count m} = {}"
    "distinct [page_count m..<n]" "sorted [page_count m..<n]"
    using assms(2) by auto
  from assign_grouped [OF assms(1) this(3,2,4,1), of n]
  obtain m' where m': "assign_new_pages_to_groups (m\<lparr>page_count := n\<rparr>) [page_count m..<n] (pages_per_group m) = Some m'"
    "group_pages m' = topped_up (group_pages m) (pages_per_group m) [page_count m..<n]" "index_consistent m'"
    "strategy m' = BTreeAware" "page_count m' = n" "pages_per_group m' = pages_per_group m" by blast
  have st: "strategy m = BTreeAware" "index_consistent m" using assms(1) by (simp_all add: grouped_def)
  have "set_len_manifest iter m n = Some m'"
    using assms(2) m'(1) st by (simp add: set_len_manifest_def Let_def)
  moreover have "grouped m'" using grouped_topped_up [OF assms(1) _ m'(3-6) m'(2)] assms(2) by simp
  moreover have "\<forall>p l. page_location m p = Some l \<longrightarrow> page_location m' p = Some l"
    using growth_keeps_location [OF st(2) m'(3,2)] st(1) m'(4) by (simp add: page_location_def)
  ultimately show ?thesis using m'(5) by blast
qed

text \<open>A manifest with three pages in two groups of at most two pages.\<close>

definition sample_manifest :: manifest where
  "sample_manifest = build_page_index sorted_list_of_set (empty_manifest\<lparr>strategy := BTreeAware,
     page_count := 3, pages_per_group := 2, page_group_keys := [''a'', ''b''], group_pages := [[0, 2], [1]]\<rparr>)"

lemma sample_grouped: "grouped sample_manifest"
proof -
  have "index_consistent sample_manifest" unfolding sample_manifest_def
    by (rule index_consistent_build) auto
  then show ?thesis by (auto simp: grouped_def sample_manifest_def)
qed

theorem set_len_grow_witness:
  "\<exists>m'. set_len_manifest sorted_list_of_set sample_manifest 6 = Some m' \<and> grouped m' \<and> page_count m' = 6"
proof -
  have "page_count sample_manifest < 6" by (simp add: sample_manifest_def)
  from set_len_grow [OF sample_grouped this, of sorted_list_of_set] show ?thesis by blast
qed

subsection \<open>Truncation\<close>

lemma filter_concat_groups: "concat (map (filter P) xss) = filter P (concat xss)"
  by (induction xss) auto

lemma shrunk_grouped:
  assumes "grouped m" "n \<le> page_count m" "strategy m' = BTreeAware" "pages_per_group m' = pages_per_group m"
    and "concat (group_pages m') = filter (\<lambda>p. p < n) (concat (group_pages m))"
    and "\<And>pages. pages \<in> set (group_pages m') \<Longrightarrow> length pages \<le> pages_per_group m" "page_count m' = n"
  shows "grouped (build_page_index iter m')"
proof -
  have ppg: "pages_per_group m < U32_SIZE" "0 < pages_per_group m" and
    d: "distinct (concat (group_pages m'))" "set (concat (group_pages m')) = {..<n}"
    using assms(1,2) by (auto simp: grouped_def assms(5))
  have "index_consistent (build_page_index iter m')"
    using assms(3,6) ppg d by (intro index_consistent_build) (auto dest: assms(6))
  then show ?thesis using assms d ppg by (auto simp: grouped_def)
qed

lemma map_filter_groups_bounded:
  assumes "grouped m" "pages \<in> set (map (filter P) (group_pages m))"
  shows "length pages \<le> pages_per_group m"
proof -
  obtain g where g: "g \<in> set (group_pages m)" "pages = filter P g" using assms(2) by auto
  then have "length g \<le> pages_per_group m" using assms(1) unfolding grouped_def by blast
  then show ?thesis unfolding g(2) by (rule order.trans [OF length_filter_le])
qed

lemma sorted_filter_below:
  assumes "sorted xs" "i < length (xs :: nat list)" "xs ! i < n"
  shows "i < length (filter (\<lambda>p. p < n) xs) \<and> filter (\<lambda>p. p < n) xs ! i = xs ! i"
  using assms
proof (induction xs arbitrary: i)
  case (Cons x xs)
  then have "x < n" by (cases i) (auto, use nth_mem in fastforce)
  then show ?case using Cons by (cases i) auto
qed simp

text \<open>
  C16: truncating the file drops exactly the pages at or past the new end, and keeps the page map
  sound. Group ids never move, and where a group's pages are listed in increasing order the
  positions of the surviving pages inside their stored group do not move either.
\<close>

theorem set_len_truncate:
  assumes "grouped m" "n < page_count m"
  shows "\<exists>m'. set_len_manifest iter m n = Some m' \<and> grouped m' \<and> page_count m' = n
    \<and> (\<forall>p. page_location m' p \<noteq> None \<longleftrightarrow> p < n)
    \<and> (\<forall>p l. page_location m p = Some l \<and> p < n \<longrightarrow>
         (\<exists>l'. page_location m' p = Some l' \<and> pl_group_id l' = pl_group_id l
            \<and> (sorted (group_pages m ! pl_group_id l) \<longrightarrow> l' = l)))"
proof -
  let ?F = "filter (\<lambda>p. p < n)"
  define m1 where "m1 = m\<lparr>page_count := n, group_pages := map ?F (group_pages m)\<rparr>"
  define m' where "m' = build_page_index iter m1"
  have st: "strategy m = BTreeAware" and c: "index_consistent m" using assms(1) by (simp_all add: grouped_def)
  have len: "set_len_manifest iter m n = Some m'"
    using assms(2) st by (simp add: set_len_manifest_def Let_def m'_def m1_def)
  have g': "grouped m'" unfolding m'_def
    using assms st map_filter_groups_bounded [OF assms(1)]
    by (intro shrunk_grouped [OF assms(1)]) (simp_all add: m1_def filter_concat_groups)
  have gp: "group_pages m' = map ?F (group_pages m)" and st': "strategy m' = BTreeAware" and pc: "page_count m' = n"
    and c': "index_consistent m'"
    using g' st by (simp_all add: m'_def m1_def grouped_def)
  note loc = page_index_cases [OF c] and loc' = page_index_cases [OF c']
  have located: "page_location m' p \<noteq> None \<longleftrightarrow> p < n" for p
  proof -
    have "p \<in> set (concat (group_pages m')) \<longleftrightarrow> p < n" using g' pc by (simp add: grouped_def)
    moreover have "page_index m' p \<noteq> None \<longleftrightarrow> p \<in> set (concat (group_pages m'))"
      unfolding in_concat_nth using c' unfolding index_consistent_def
      by (metis (no_types, opaque_lifting) loc' not_None_eq page_loc.surjective)
    ultimately show ?thesis by (simp add: page_location_def st')
  qed
  have keeps: "\<exists>l'. page_index m' p = Some l' \<and> pl_group_id l' = pl_group_id l
      \<and> (sorted (group_pages m ! pl_group_id l) \<longrightarrow> l' = l)"
    if l: "page_index m p = Some l" and p: "p < n" for p l
  proof -
    let ?g = "pl_group_id l" and ?i = "pl_index l"
    have b: "?g < length (group_pages m)" "?i < length (group_pages m ! ?g)" "group_pages m ! ?g ! ?i = p"
      using l unfolding loc by simp_all
    then have "p \<in> set (?F (group_pages m ! ?g))" using p by auto
    then obtain j where "j < length (?F (group_pages m ! ?g))" "?F (group_pages m ! ?g) ! j = p"
      unfolding in_set_conv_nth by blast
    then have "page_index m' p = Some \<lparr>pl_group_id = ?g, pl_index = j\<rparr>" using b by (simp add: loc' gp)
    moreover have "page_index m' p = Some l" if "sorted (group_pages m ! ?g)"
      using sorted_filter_below [OF that, of ?i n] b p by (simp add: loc' gp)
    ultimately show ?thesis by (cases "sorted (group_pages m ! ?g)") auto
  qed
  then show ?thesis using len g' pc located st st' by (auto simp: page_location_def)
qed

theorem set_len_truncate_witness:
  "\<exists>m'. set_len_manifest sorted_list_of_set sample_manifest 2 = Some m' \<and> grouped m' \<and> page_location m' 2 = None"
proof -
  have "2 < page_count sample_manifest" by (simp add: sample_manifest_def)
  from set_len_truncate [OF sample_grouped this, of sorted_list_of_set] show ?thesis by blast
qed

subsection \<open>Replay\<close>

lemma fill_last_upt:
  "fill_last ppg pages a n = (let k = min (ppg - length pages) (n - a) in (pages @ [a..<a + k], a + k))"
proof (induction ppg pages a n rule: fill_last.induct)
  case (1 ppg pages a n)
  show ?case
  proof (cases "length pages < ppg \<and> a < n")
    case True
    let ?k = "min (ppg - length pages) (n - a)"
    have k: "?k = Suc (min (ppg - length (pages @ [a])) (n - (a + 1)))" using True by (simp add: min_def) arith
    have "[a..<a + ?k] = a # [a + 1..<a + ?k]" unfolding k by (subst upt_conv_Cons) simp_all
    then show ?thesis using True 1 by (simp add: fill_last.simps [of ppg pages a n] Let_def k)
  next
    case False
    then show ?thesis by (subst fill_last.simps) (auto simp: Let_def)
  qed
qed

lemma replay_new_groups_chunks: "0 < ppg \<Longrightarrow> replay_new_groups ppg a n = chunks ppg [a..<n]"
proof (induction ppg a n rule: replay_new_groups.induct)
  case (1 ppg a n)
  show ?case
  proof (cases "a < n")
    case True
    let ?k = "min ppg (n - a)"
    have "chunks ppg [a..<n] = [a..<a + ?k] # chunks ppg [a + ?k..<n]"
      using True 1(2) by (subst chunks_step) (simp_all add: take_upt_min drop_upt_min del: drop_upt)
    then show ?thesis
      using True 1 by (simp add: replay_new_groups.simps [of ppg a n] Let_def)
  next
    case False
    then show ?thesis by (simp add: replay_new_groups.simps [of ppg a n])
  qed
qed

lemma grow_groups_topped_up:
  assumes "0 < pages_per_group m"
  shows "grow_groups m a n = m\<lparr>group_pages := topped_up (group_pages m) (pages_per_group m) [a..<n]\<rparr>"
proof (cases "group_pages m")
  case Nil
  then show ?thesis using assms by (simp add: grow_groups_def topped_up_def replay_new_groups_chunks)
next
  case (Cons g gs)
  show ?thesis
    using assms Cons
    by (simp add: grow_groups_def topped_up_def fill_last_upt replay_new_groups_chunks Let_def
        take_upt_min drop_upt_min del: drop_upt)
qed

text \<open>
  C30: the replay path grows the page map exactly as the live write path does: its push loop and
  its group loop end with the same groups and the same location for every page as the bin packing
  of \<open>set_len\<close>, and leave the page map sound.
\<close>

theorem replay_growth_agrees:
  assumes "grouped m" "page_count m < n"
  shows "\<exists>m'. set_len_manifest iter m n = Some m'
    \<and> group_pages (set_replay_page_count iter m (page_count m) n) = group_pages m'
    \<and> page_location (set_replay_page_count iter m (page_count m) n) = page_location m'
    \<and> grouped (set_replay_page_count iter m (page_count m) n)"
proof -
  let ?r = "set_replay_page_count iter m (page_count m) n"
  have "[page_count m..<n] \<noteq> []" "set [page_count m..<n] \<inter> {..<page_count m} = {}"
    "distinct [page_count m..<n]" "sorted [page_count m..<n]"
    using assms(2) by auto
  from assign_grouped [OF assms(1) this(3,2,4,1), of n]
  obtain m' where m': "assign_new_pages_to_groups (m\<lparr>page_count := n\<rparr>) [page_count m..<n] (pages_per_group m) = Some m'"
    "group_pages m' = topped_up (group_pages m) (pages_per_group m) [page_count m..<n]" "index_consistent m'"
    "strategy m' = BTreeAware" "page_count m' = n" "pages_per_group m' = pages_per_group m" by blast
  have st: "strategy m = BTreeAware" "0 < pages_per_group m" "pages_per_group m < U32_SIZE"
    using assms(1) by (simp_all add: grouped_def)
  have g': "grouped m'" using grouped_topped_up [OF assms(1) _ m'(3-6) m'(2)] assms(2) by simp
  have r: "?r = build_page_index iter (m\<lparr>page_count := n, group_pages := group_pages m'\<rparr>)"
    using assms(2) st m'(2) by (simp add: set_replay_page_count_def Let_def grow_groups_topped_up)
  have c: "index_consistent ?r" unfolding r
    using g' st(1,3) m'(6) by (intro index_consistent_build) (auto simp: grouped_def dest!: bspec)
  have gp: "group_pages ?r = group_pages m'" "strategy ?r = BTreeAware" by (simp_all add: r st(1))
  have "page_index ?r p = page_index m' p" for p
    using page_index_cases [OF c, of p] page_index_cases [OF m'(3), of p] gp(1) by (intro option.expand) (metis not_None_eq option.sel)+
  then have "page_location ?r = page_location m'" using gp(2) m'(4) by (auto simp: page_location_def)
  moreover have "grouped ?r" using g' c st(1) m'(5,6) by (simp add: grouped_def r)
  moreover have "set_len_manifest iter m n = Some m'"
    using assms(2) m'(1) st(1) by (simp add: set_len_manifest_def Let_def)
  ultimately show ?thesis using gp(1) by blast
qed

theorem replay_growth_agrees_witness:
  "grouped (set_replay_page_count sorted_list_of_set sample_manifest 3 6)"
proof -
  have pc: "page_count sample_manifest = 3" by (simp add: sample_manifest_def)
  then have "page_count sample_manifest < 6" by simp
  from replay_growth_agrees [OF sample_grouped this, of sorted_list_of_set] show ?thesis by (auto simp: pc)
qed

lemma concat_kept:
  assumes "\<And>i. i \<notin> S \<Longrightarrow> f i = []"
  shows "concat (map f (filter (\<lambda>i. i \<in> S) is)) = concat (map f is)"
  using assms by (induction "is") auto

lemma shrink_groups_concat:
  "concat (group_pages (shrink_groups m n)) = filter (\<lambda>p. p < n) (concat (group_pages m))"
proof -
  let ?f = "\<lambda>i. filter (\<lambda>p. p < n) (group_pages m ! i)"
  have "concat (map ?f (filter (\<lambda>i. i \<in> {i. ?f i \<noteq> []}) [0..<length (group_pages m)]))
    = concat (map ?f [0..<length (group_pages m)])" by (rule concat_kept) simp
  also have "map ?f [0..<length (group_pages m)] = map (filter (\<lambda>p. p < n)) (map ((!) (group_pages m)) [0..<length (group_pages m)])"
    by simp
  finally show ?thesis by (simp add: shrink_groups_def kept_groups_def map_nth filter_concat_groups del: map_map)
qed

text \<open>
  C31: shrinking on replay keeps the page map sound and drops the groups that became empty, and the
  parallel vectors stay aligned: every surviving page is still found under the object key, frame
  table and overrides of the group it was stored in.
\<close>

theorem replay_shrink_aligned:
  assumes "grouped m" "n \<le> page_count m"
  shows "grouped (set_replay_page_count iter m (page_count m) n)
    \<and> list_all (\<lambda>pages. pages \<noteq> []) (group_pages (set_replay_page_count iter m (page_count m) n))
    \<and> (\<forall>p l l'. page_location m p = Some l \<and> page_location (set_replay_page_count iter m (page_count m) n) p = Some l' \<longrightarrow>
         get (page_group_keys (set_replay_page_count iter m (page_count m) n)) (pl_group_id l')
           = Some (or_default (page_group_keys m) [] (pl_group_id l))
         \<and> get (frame_tables (set_replay_page_count iter m (page_count m) n)) (pl_group_id l')
           = Some (or_default (frame_tables m) [] (pl_group_id l))
         \<and> get (subframe_overrides (set_replay_page_count iter m (page_count m) n)) (pl_group_id l')
           = Some (or_default (subframe_overrides m) Map.empty (pl_group_id l)))"
proof -
  let ?r = "set_replay_page_count iter m (page_count m) n" and ?F = "filter (\<lambda>p. p < n)"
  let ?m = "shrink_groups (m\<lparr>page_count := n\<rparr>) n"
  have st: "strategy m = BTreeAware" "index_consistent m" using assms(1) by (simp_all add: grouped_def)
  have r: "?r = build_page_index iter ?m"
    using assms(2) st by (simp add: set_replay_page_count_def Let_def)
  have gp: "group_pages ?r = map (\<lambda>i. ?F (group_pages m ! i)) (kept_groups m n)"
    and keys: "page_group_keys ?r = map (or_default (page_group_keys m) []) (kept_groups m n)"
      "frame_tables ?r = map (or_default (frame_tables m) []) (kept_groups m n)"
      "subframe_overrides ?r = map (or_default (subframe_overrides m) Map.empty) (kept_groups m n)"
    by (simp_all add: r shrink_groups_def kept_groups_def)
  have bounded: "length pages \<le> pages_per_group m" if "pages \<in> set (group_pages ?m)" for pages
    using that by (intro map_filter_groups_bounded [OF assms(1)]) (auto simp: shrink_groups_def kept_groups_def)
  have g: "grouped ?r" unfolding r
  proof (rule shrunk_grouped [OF assms(1,2)])
    show "concat (group_pages ?m) = ?F (concat (group_pages m))" by (simp add: shrink_groups_concat)
  qed (use bounded st in \<open>simp_all add: shrink_groups_def\<close>)
  have aligned: "get (page_group_keys ?r) (pl_group_id l') = Some (or_default (page_group_keys m) [] (pl_group_id l))
      \<and> get (frame_tables ?r) (pl_group_id l') = Some (or_default (frame_tables m) [] (pl_group_id l))
      \<and> get (subframe_overrides ?r) (pl_group_id l') = Some (or_default (subframe_overrides m) Map.empty (pl_group_id l))"
    if "page_index m p = Some l" "page_index ?r p = Some l'" for p l l'
  proof -
    have c: "index_consistent ?r" and d: "distinct (concat (group_pages m))" using g assms(1) by (simp_all add: grouped_def)
    let ?i = "kept_groups m n ! pl_group_id l'"
    have l': "pl_group_id l' < length (kept_groups m n)" "p \<in> set (group_pages m ! ?i)"
      using that(2) nth_mem [of "pl_index l'" "?F (group_pages m ! ?i)"]
      unfolding page_index_cases [OF c] gp by auto
    then have "?i < length (group_pages m)" using nth_mem [OF l'(1)] by (simp add: kept_groups_def)
    moreover obtain j where "j < length (group_pages m ! ?i)" "group_pages m ! ?i ! j = p"
      using l'(2) by (auto simp: in_set_conv_nth)
    ultimately have "?i = pl_group_id l"
      using that(1) distinct_concat_nth [OF d] unfolding page_index_cases [OF st(2)] by metis
    then show ?thesis using l'(1) by (simp add: keys)
  qed
  have "list_all (\<lambda>pages. pages \<noteq> []) (group_pages ?r)"
    by (auto simp: gp list_all_iff kept_groups_def)
  moreover have "strategy ?r = BTreeAware" using g by (simp add: grouped_def)
  ultimately show ?thesis using g aligned st(1) by (simp add: page_location_def) blast
qed

theorem replay_shrink_aligned_witness:
  "grouped (set_replay_page_count sorted_list_of_set sample_manifest 3 1)"
proof -
  have pc: "page_count sample_manifest = 3" by (simp add: sample_manifest_def)
  then have "1 \<le> page_count sample_manifest" by simp
  from replay_shrink_aligned [OF sample_grouped this, of sorted_list_of_set] show ?thesis by (auto simp: pc)
qed

end
