(* ===== verification/Replay.thy ===== *)
theory Replay
  imports Cache_Write Resize Staging
begin

text \<open>
  Direct page replay (\<open>src/src/tiered/replay.rs\<close>): the handle that stages decoded pages in
  memory and \<open>finalize\<close>, which installs them in the live cache, with the pre-image rollback of its
  commit phase. The replay gate and the flush lock are held across the commit phase, so it is one
  step. \<open>rx_logs\<close> are the files of the staging directory, \<open>rx_local\<close> is the local state file.

  Arguments for what the process is given: \<open>to_vec\<close> serialises a manifest, \<open>log_fault\<close> is
  the error the staging log meets on disk, if any, \<open>fw\<close> and \<open>rb\<close> give the random nonces of the
  forward and the rollback write of each page. Removing a staging log is best effort: \<open>removed\<close> says whether the
  removal succeeds, \<open>partial\<close> what a log that failed half-way left in the file.
\<close>

subsection \<open>State\<close>

record replay_context =
  rx_cache :: disk_cache
  rx_manifest :: manifest
  rx_page_count :: nat
  rx_pending :: "pending_flush list"
  rx_staging_seq :: nat
  rx_epoch :: nat
  rx_staging_dir :: string
  rx_logs :: "string \<rightharpoonup> bytes"
  rx_local :: "bytes option"

record replay_handle =
  rh_staged :: "(nat \<times> bytes) list"
  rh_target :: "nat option"
  rh_max_id :: nat
  rh_committed :: "nat list"
  rh_expected_next :: nat
  rh_page_size :: nat
  rh_consumed :: bool

record finalize_report =
  fr_installed :: "nat set"
  fr_page_count :: nat

record replay_env =
  re_codec :: codec
  re_to_vec :: "manifest \<Rightarrow> bytes io_result"
  re_log_fault :: "io_error option"
  re_removed :: bool
  re_partial :: "bytes option"
  re_fw :: "nat \<Rightarrow> bytes"
  re_rb :: "nat \<Rightarrow> bytes"
  re_serde :: serde
  re_persist_fault :: write_fault
  re_tree_iter :: "nat set \<Rightarrow> nat list"
  re_page_iter :: "nat set \<Rightarrow> nat list"
  re_chunk_iter :: "sub_chunk_id set \<Rightarrow> sub_chunk_id list"

text \<open>A \<open>BTreeMap\<close>: the entries in key order; an insert replaces the entry of its key.\<close>

fun btree_insert :: "nat \<Rightarrow> 'a \<Rightarrow> (nat \<times> 'a) list \<Rightarrow> (nat \<times> 'a) list" where
  "btree_insert k v [] = [(k, v)]"
| "btree_insert k v ((k', v') # es) =
     (if k < k' then (k, v) # (k', v') # es
      else if k = k' then (k, v) # es
      else (k', v') # btree_insert k v es)"

subsection \<open>Staging pages\<close>

definition new_replay :: "replay_context \<Rightarrow> replay_handle io_result" where
  "new_replay ctx =
     (let ps = page_size (rx_manifest ctx) in
      if ps = 0 then Inl (Io InvalidData ''begin_replay: manifest page_size is 0; cannot replay against an unsized cache'')
      else Inr \<lparr>rh_staged = [], rh_target = None, rh_max_id = 0, rh_committed = [], rh_expected_next = 1,
                rh_page_size = ps, rh_consumed = False\<rparr>)"

definition check_not_consumed :: "string \<Rightarrow> replay_handle \<Rightarrow> unit io_result" where
  "check_not_consumed what h =
     (if rh_consumed h then Inl (Io Other (''ReplayHandle::'' @ what @ '' called after finalize/abort'')) else Inr ())"

definition apply_page :: "nat \<Rightarrow> bytes \<Rightarrow> replay_handle \<Rightarrow> replay_handle io_result" where
  "apply_page sqlite_page_id data h =
     bind_result (check_not_consumed ''apply_page'' h) (\<lambda>_.
       if sqlite_page_id = 0
         then Inl (Io InvalidInput ''apply_page: sqlite_page_id 0 is invalid (SQLite page ids are 1-based)'')
       else if length data \<noteq> rh_page_size h
         then Inl (Io InvalidData ''apply_page: data.len() does not match manifest page_size'')
       else Inr (h\<lparr>rh_max_id := max (rh_max_id h) sqlite_page_id,
                   rh_staged := btree_insert (sqlite_page_id - 1) data (rh_staged h)\<rparr>))"

definition set_target_page_count :: "nat \<Rightarrow> replay_handle \<Rightarrow> replay_handle io_result" where
  "set_target_page_count pc h =
     bind_result (check_not_consumed ''set_target_page_count'' h) (\<lambda>_. Inr (h\<lparr>rh_target := Some pc\<rparr>))"

definition set_expected_next_changeset_seq :: "nat \<Rightarrow> replay_handle \<Rightarrow> replay_handle io_result" where
  "set_expected_next_changeset_seq next_seq h =
     bind_result (check_not_consumed ''set_expected_next_changeset_seq'' h) (\<lambda>_.
       if rh_committed h \<noteq> []
         then Inl (Io InvalidInput ''set_expected_next_changeset_seq must be called before commit_changeset'')
       else if next_seq = 0
         then Inl (Io InvalidInput ''changeset sequences are 1-based; expected next sequence cannot be 0'')
       else Inr (h\<lparr>rh_expected_next := next_seq\<rparr>))"

definition commit_changeset :: "nat \<Rightarrow> replay_handle \<Rightarrow> replay_handle io_result" where
  "commit_changeset seq h =
     bind_result (check_not_consumed ''commit_changeset'' h) (\<lambda>_.
       if seq \<noteq> rh_expected_next h then Inl (Io InvalidData ''commit_changeset: non-contiguous sequence'')
       else Inr (h\<lparr>rh_committed := rh_committed h @ [seq], rh_expected_next := (rh_expected_next h + 1) mod U64_SIZE\<rparr>))"

definition abort_replay :: "replay_handle \<Rightarrow> replay_handle" where
  "abort_replay h = h\<lparr>rh_consumed := True\<rparr>"

subsection \<open>Rollback\<close>

datatype rollback_outcome = AllRestored | PartialFailure "nat list"

fun rollback_loop :: "codec \<Rightarrow> (nat \<Rightarrow> bytes) \<Rightarrow> (nat \<times> bytes) list \<Rightarrow> nat list \<Rightarrow> disk_cache \<Rightarrow> nat list \<times> disk_cache" where
  "rollback_loop C rb [] failed dc = (failed, dc)"
| "rollback_loop C rb ((pnum, old) # images) failed dc =
     (case write_page_no_visibility_rollback C (rb pnum) pnum old dc of
        (Inl _, dc) \<Rightarrow> rollback_loop C rb images (failed @ [pnum]) dc
      | (Inr _, dc) \<Rightarrow> rollback_loop C rb images failed dc)"

definition rollback_pre_images ::
  "codec \<Rightarrow> (nat \<Rightarrow> bytes) \<Rightarrow> (nat \<times> bytes) list \<Rightarrow> disk_cache \<Rightarrow> rollback_outcome \<times> disk_cache" where
  "rollback_pre_images C rb images dc =
     (case rollback_loop C rb (rev images) [] dc of
        (failed, dc) \<Rightarrow> (if failed = [] then AllRestored else PartialFailure failed, dc))"

definition handle_commit_phase_failure ::
  "replay_env \<Rightarrow> (nat \<times> bytes) list \<Rightarrow> string \<Rightarrow> string \<Rightarrow> replay_context \<Rightarrow> io_error \<times> replay_context" where
  "handle_commit_phase_failure env images log_path primary_msg ctx =
     (case rollback_pre_images (re_codec env) (re_rb env) images (rx_cache ctx) of
        (AllRestored, dc) \<Rightarrow>
          (Io Other (primary_msg @ '' (rolled back; staging log removed; cache consistent)''),
           ctx\<lparr>rx_cache := dc, rx_logs := (if re_removed env then (rx_logs ctx)(log_path := None) else rx_logs ctx)\<rparr>)
      | (PartialFailure _, dc) \<Rightarrow>
          (Io Other (primary_msg @ '' (rollback FAILED; staging log KEPT for restart recovery; cache TAINTED)''),
           ctx\<lparr>rx_cache := dc\<lparr>dc_tainted := True\<rparr>\<rparr>))"

subsection \<open>Finalize\<close>

definition pre_image :: "codec \<Rightarrow> nat \<Rightarrow> nat \<Rightarrow> disk_cache \<Rightarrow> bytes option io_result" where
  "pre_image C ps pnum dc =
     (if dc_is_present pnum dc then
        (case read_page C pnum (zeros ps) dc of
           Inr buf \<Rightarrow> Inr (Some buf)
         | Inl (Io UnexpectedEof _) \<Rightarrow> Inr None
         | Inl e \<Rightarrow> Inl e)
      else Inr None)"

text \<open>The write loop of the commit phase: the pages written, or the pre-images to restore and the message.\<close>

fun install_staged ::
  "codec \<Rightarrow> (nat \<Rightarrow> bytes) \<Rightarrow> nat \<Rightarrow> (nat \<times> bytes) list \<Rightarrow> nat list \<Rightarrow> (nat \<times> bytes) list \<Rightarrow> disk_cache
     \<Rightarrow> ((nat \<times> bytes) list \<times> string + nat list) \<times> disk_cache" where
  "install_staged C fw ps [] written images dc = (Inr written, dc)"
| "install_staged C fw ps ((pnum, new_bytes) # staged) written images dc =
     (case pre_image C ps pnum dc of
        Inl e \<Rightarrow> (Inl (images, ''replay finalize: pre-image read failed''), dc)
      | Inr img \<Rightarrow>
          (case write_page_no_visibility C (fw pnum) pnum new_bytes dc of
             (Inl e, dc) \<Rightarrow> (Inl (images, ''replay finalize: cache.write_page_no_visibility failed''), dc)
           | (Inr _, dc) \<Rightarrow>
               install_staged C fw ps staged (written @ [pnum])
                 (case img of Some buf \<Rightarrow> images @ [(pnum, buf)] | None \<Rightarrow> images) dc))"

definition replay_page_count :: "manifest \<Rightarrow> replay_handle \<Rightarrow> nat" where
  "replay_page_count m h = (case rh_target h of Some n \<Rightarrow> n | None \<Rightarrow> max (page_count m) (rh_max_id h))"

definition SQLITE_DB_HEADER_LEN :: nat where
  "SQLITE_DB_HEADER_LEN = 100"

definition post_manifest :: "(nat set \<Rightarrow> nat list) \<Rightarrow> manifest \<Rightarrow> replay_handle \<Rightarrow> manifest" where
  "post_manifest iter pre h =
     (let n = replay_page_count pre h;
          m = (if n \<noteq> page_count pre then set_replay_page_count iter pre (page_count pre) n else pre);
          m = (case map_of (rh_staged h) 0 of
                 Some page0 \<Rightarrow> if SQLITE_DB_HEADER_LEN \<le> length page0 then m\<lparr>db_header := Some page0\<rparr> else m
               | None \<Rightarrow> m);
          m = m\<lparr>version := (version pre + 1) mod U64_SIZE\<rparr>
      in if rh_committed h = [] then m else m\<lparr>change_counter := max (change_counter m) (Max (set (rh_committed h)))\<rparr>)"

definition write_staging_log ::
  "replay_env \<Rightarrow> manifest \<Rightarrow> nat \<Rightarrow> replay_handle \<Rightarrow> replay_context \<Rightarrow> string io_result \<times> replay_context" where
  "write_staging_log env m ver h ctx =
     (let path = rx_staging_dir ctx @ ''/'' @ nat_str ver @ ''.log'';
          removed = ctx\<lparr>rx_logs := (rx_logs ctx)(path := (if re_removed env then None else re_partial env))\<rparr>
      in case re_log_fault env of
           Some e \<Rightarrow> (Inl e, removed)
         | None \<Rightarrow>
             (case re_to_vec env m of
                Inl e \<Rightarrow> (Inl e, removed)
              | Inr mb \<Rightarrow>
                  let w = write_log (rx_staging_dir ctx) ver (rh_page_size h) (rh_staged h) (Some mb)
                  in (Inr path, ctx\<lparr>rx_logs := (rx_logs ctx)(path \<mapsto> sw_content w)\<rparr>)))"

text \<open>Steps 5 to 8: visibility, the manifest, the pending flush and the persisted bitmap.\<close>

definition publish_replay ::
  "replay_env \<Rightarrow> manifest \<Rightarrow> nat \<Rightarrow> string \<Rightarrow> replay_handle \<Rightarrow> nat list \<Rightarrow> replay_context
     \<Rightarrow> finalize_report io_result \<times> replay_context" where
  "publish_replay env post ver log_path h written ctx =
     (let n = replay_page_count (rx_manifest ctx) h; pre_count = page_count (rx_manifest ctx);
          dc = mark_pages_present written (clear_pages_from_mem_cache written (rx_cache ctx))
      in case (if n < pre_count then truncate_to_page_count (re_page_iter env) (re_chunk_iter env) n (rh_page_size h) dc
               else (Inr (), dc)) of
           (Inl e, dc) \<Rightarrow> (Inl e, ctx\<lparr>rx_cache := dc\<rparr>)
         | (Inr _, dc) \<Rightarrow>
             let dc = snd (bump_generation dc);
                 ctx = ctx\<lparr>rx_cache := dc, rx_manifest := post, rx_page_count := n,
                           rx_pending := rx_pending ctx @ [\<lparr>pf_staging_path = log_path, pf_version = ver,
                             pf_page_size = rh_page_size h\<rparr>]\<rparr>
             in case persist_bitmap (re_chunk_iter env) (re_serde env) (re_persist_fault env) dc (rx_local ctx) of
                  (Inl e, fl) \<Rightarrow> (Inl e, ctx\<lparr>rx_local := fl\<rparr>)
                | (Inr _, fl) \<Rightarrow> (Inr \<lparr>fr_installed = set (map fst (rh_staged h)), fr_page_count = n\<rparr>, ctx\<lparr>rx_local := fl\<rparr>))"

definition finalize_inner :: "replay_env \<Rightarrow> replay_handle \<Rightarrow> replay_context \<Rightarrow> finalize_report io_result \<times> replay_context" where
  "finalize_inner env h ctx =
     (case check_not_consumed ''finalize'' h of
        Inl e \<Rightarrow> (Inl e, ctx)
      | Inr _ \<Rightarrow>
          let pre = rx_manifest ctx; n = replay_page_count pre h in
          if n < rh_max_id h
            then (Inl (Io InvalidData ''replay finalize: target_page_count is smaller than replayed sqlite page id''), ctx)
          else if rh_staged h = [] \<and> n = page_count pre
            then (Inr \<lparr>fr_installed = {}, fr_page_count = n\<rparr>, ctx)
          else let post = post_manifest (re_tree_iter env) pre h; ver = rx_staging_seq ctx;
                   ctx = ctx\<lparr>rx_staging_seq := (ver + 1) mod U64_SIZE\<rparr>
               in case write_staging_log env post ver h ctx of
                    (Inl e, ctx) \<Rightarrow> (Inl e, ctx)
                  | (Inr log_path, ctx) \<Rightarrow>
                      let ctx = ctx\<lparr>rx_epoch := (rx_epoch ctx + 1) mod U64_SIZE\<rparr> in
                      (case install_staged (re_codec env) (re_fw env) (rh_page_size h) (rh_staged h) [] [] (rx_cache ctx) of
                         (Inl (images, msg), dc) \<Rightarrow>
                           (case handle_commit_phase_failure env images log_path msg (ctx\<lparr>rx_cache := dc\<rparr>) of
                              (e, ctx) \<Rightarrow> (Inl e, ctx))
                       | (Inr written, dc) \<Rightarrow>
                           publish_replay env post ver log_path h written (ctx\<lparr>rx_cache := dc\<rparr>)))"

end
