(* ===== verification/Replay_Atomic.thy ===== *)
theory Replay_Atomic
  imports Replay
begin

text \<open>
  Atomicity of \<open>finalize\<close>: whatever error it meets, readers see the state before or the state
  after, or every read fails and the staging log with the new pages is on disk. The documented
  assumption on the disk is that the write of one page either happens or leaves the file as it was.
\<close>

subsection \<open>One write without visibility\<close>

definition whole_faults :: "disk \<Rightarrow> bool" where
  "whole_faults d \<longleftrightarrow> (\<forall>n e k. dk_fault d n = Some (e, k) \<longrightarrow> k = 0)"

definition raw_ok :: "disk_cache \<Rightarrow> bool" where
  "raw_ok dc \<longleftrightarrow> 0 < dc_page_size dc \<and> dc_file_len dc = length (dk_file (dc_disk dc)) \<and> whole_faults (dc_disk dc)
     \<and> \<not> dc_compression dc"

definition same_meta :: "disk_cache \<Rightarrow> disk_cache \<Rightarrow> bool" where
  "same_meta dc dc' \<longleftrightarrow> (\<exists>d n. dc' = dc\<lparr>dc_disk := d, dc_file_len := n\<rparr>)"

lemma same_meta_facts:
  assumes "same_meta dc dc'"
  shows "dc_page_size dc' = dc_page_size dc" "dc_compression dc' = dc_compression dc" "dc_key dc' = dc_key dc"
    "dc_bitmap dc' = dc_bitmap dc" "dc_index dc' = dc_index dc" "dc_tainted dc' = dc_tainted dc" "mem_hit q dc' = mem_hit q dc"
    "dc_is_present q dc' = dc_is_present q dc" "slot_fits dc' q = slot_fits dc q" "slot_stride dc' = slot_stride dc"
  using assms by (auto simp: same_meta_def mem_hit_def dc_is_present_def slot_fits_def slot_stride_def)

lemma same_meta_refl: "same_meta dc dc"
proof -
  have "dc = dc\<lparr>dc_disk := dc_disk dc, dc_file_len := dc_file_len dc\<rparr>" by simp
  then show ?thesis unfolding same_meta_def by blast
qed

lemma same_meta_trans: "same_meta a b \<Longrightarrow> same_meta b c \<Longrightarrow> same_meta a c"
proof -
  assume "same_meta a b" "same_meta b c"
  then obtain d n where "c = a\<lparr>dc_disk := d, dc_file_len := n\<rparr>" by (auto simp: same_meta_def)
  then show ?thesis unfolding same_meta_def by blast
qed

lemma same_meta_update:
  "same_meta dc (dc\<lparr>dc_disk := d\<rparr>)" "same_meta dc (dc\<lparr>dc_disk := d, dc_file_len := n\<rparr>)"
proof -
  have "dc\<lparr>dc_disk := d\<rparr> = dc\<lparr>dc_disk := d, dc_file_len := dc_file_len dc\<rparr>" by simp
  then show "same_meta dc (dc\<lparr>dc_disk := d\<rparr>)" unfolding same_meta_def by blast
  show "same_meta dc (dc\<lparr>dc_disk := d, dc_file_len := n\<rparr>)" unfolding same_meta_def by blast
qed

definition rewrote :: "codec \<Rightarrow> nat set \<Rightarrow> disk_cache \<Rightarrow> disk_cache \<Rightarrow> bool" where
  "rewrote C S dc dc' \<longleftrightarrow> same_meta dc dc' \<and> raw_ok dc'
     \<and> (\<forall>q data. q \<notin> S \<longrightarrow> stored C dc q data \<longrightarrow> stored C dc' q data)"

lemma rewrote_refl: "raw_ok dc \<Longrightarrow> rewrote C {} dc dc"
  by (simp add: rewrote_def same_meta_refl)

lemma rewrote_trans: "rewrote C S a b \<Longrightarrow> rewrote C T b c \<Longrightarrow> rewrote C (S \<union> T) a c"
  unfolding rewrote_def using same_meta_trans by blast

lemma write_slot_cases:
  assumes "raw_ok dc" "off + length data < U64_SIZE" "data \<noteq> []" "write_slot off data dc = (r, dc')"
  shows "same_meta dc dc'" "raw_ok dc'"
    and "\<And>u. r = Inr u \<Longrightarrow> dk_file (dc_disk dc') = pwrite off data (dk_file (dc_disk dc))"
    and "\<And>e. r = Inl e \<Longrightarrow> \<exists>n. dk_file (dc_disk dc') = dk_file (dc_disk dc) @ zeros n"
proof -
  have nowrap: "(off + length data) mod U64_SIZE = off + length data" using assms(2) by simp
  let ?n = "off + length data" and ?f = "dk_file (dc_disk dc)"
  have ext: "pwrite off data (?f @ zeros (?n - length ?f)) = pwrite off data ?f" if "length ?f < ?n"
    using pwrite_extended [OF assms(3), of ?f ?n off] that by simp
  have run: "write_slot off data dc = and_then (ensure_file_len ?n dc) (\<lambda>_. on_disk (write_all_at off data))"
    by (simp only: write_slot_def nowrap)
  have wr: "same_meta d d' \<and> raw_ok d' \<and> (case r of Inr _ \<Rightarrow> dk_file (dc_disk d') = pwrite off data (dk_file (dc_disk d))
      | Inl _ \<Rightarrow> dk_file (dc_disk d') = dk_file (dc_disk d))"
    if "on_disk (write_all_at off data) d = (r, d')" "raw_ok d" "?n \<le> dc_file_len d" for d d'
  proof (cases "dk_fault (dc_disk d) (dk_ops (dc_disk d))")
    case None
    then show ?thesis using that assms(3)
      by (auto simp: on_disk_def write_all_at_def same_meta_update raw_ok_def whole_faults_def length_pwrite)
  next
    case (Some x)
    obtain e k where x: "x = (e, k)" by force
    then have "k = 0" using that(2) Some by (auto simp: raw_ok_def whole_faults_def)
    then show ?thesis using that(1,2) Some x
      by (auto simp: on_disk_def write_all_at_def same_meta_update raw_ok_def whole_faults_def)
  qed
  have "same_meta dc dc' \<and> raw_ok dc'
      \<and> (case r of Inr _ \<Rightarrow> dk_file (dc_disk dc') = pwrite off data ?f | Inl _ \<Rightarrow> \<exists>n. dk_file (dc_disk dc') = ?f @ zeros n)"
  proof (cases "?n \<le> dc_file_len dc")
    case True
    then have "on_disk (write_all_at off data) dc = (r, dc')" using assms(4) by (simp add: run ensure_file_len_def)
    from wr [OF this assms(1) True] show ?thesis by (auto split: sum.splits intro!: exI [of _ 0] simp: zeros_def)
  next
    case False
    show ?thesis
    proof (cases "dk_fault (dc_disk dc) (dk_ops (dc_disk dc))")
      case (Some x)
      then show ?thesis using assms(1,4) False
        by (cases x) (auto simp: run ensure_file_len_def on_disk_def set_len_def same_meta_update raw_ok_def whole_faults_def
            zeros_def intro!: exI [of _ 0])
    next
      case None
      have len: "dc_file_len dc = length ?f" using assms(1) by (simp add: raw_ok_def)
      let ?d = "dc\<lparr>dc_disk := (dc_disk dc)\<lparr>dk_file := ?f @ zeros (?n - length ?f), dk_ops := dk_ops (dc_disk dc) + 1\<rparr>, dc_file_len := ?n\<rparr>"
      have d: "on_disk (write_all_at off data) ?d = (r, dc')" "raw_ok ?d" "?n \<le> dc_file_len ?d"
        using assms(1,4) False None len
        by (simp_all add: run ensure_file_len_def on_disk_def set_len_def raw_ok_def whole_faults_def)
      have sm: "same_meta dc ?d" by (rule same_meta_update)
      have len': "length ?f < ?n" using False len by simp
      have file': "dk_file (dc_disk ?d) = ?f @ zeros (?n - length ?f)" by simp
      from wr [OF d] show ?thesis using same_meta_trans [OF sm] ext [OF len'] unfolding file'
        by (auto split: sum.splits)
    qed
  qed
  then show "same_meta dc dc'" "raw_ok dc'"
    "\<And>u. r = Inr u \<Longrightarrow> dk_file (dc_disk dc') = pwrite off data (dk_file (dc_disk dc))"
    "\<And>e. r = Inl e \<Longrightarrow> \<exists>n. dk_file (dc_disk dc') = dk_file (dc_disk dc) @ zeros n"
    by auto
qed

lemma grown_stored:
  assumes "same_meta dc dc'" "dk_file (dc_disk dc') = dk_file (dc_disk dc) @ zeros n" "\<not> dc_compression dc" "stored C dc q data"
  shows "stored C dc' q data"
proof -
  note m = same_meta_facts [OF assms(1)]
  have q: "q * slot_stride dc + slot_stride dc \<le> length (dk_file (dc_disk dc))" using assms(3,4) by (simp add: stored_def)
  then have "bslice (q * slot_stride dc) (slot_stride dc) (dk_file (dc_disk dc')) = bslice (q * slot_stride dc) (slot_stride dc) (dk_file (dc_disk dc))"
    by (simp add: assms(2) bslice_def)
  then show ?thesis using assms(2-4) m by (simp add: stored_def)
qed

lemma pwrite_stored:
  assumes "same_meta dc dc'" "dk_file (dc_disk dc') = pwrite (p * slot_stride dc) frame (dk_file (dc_disk dc))"
    and "\<not> dc_compression dc" "length frame = slot_stride dc" "frame \<noteq> []"
  shows "q \<noteq> p \<Longrightarrow> stored C dc q data \<Longrightarrow> stored C dc' q data"
    and "decrypt_if_needed C frame [] (dc_key dc) = Inr new \<Longrightarrow> length new = dc_page_size dc \<Longrightarrow> slot_fits dc p \<Longrightarrow> stored C dc' p new"
proof -
  let ?s = "slot_stride dc" and ?file = "dk_file (dc_disk dc)"
  note m = same_meta_facts [OF assms(1)]
  have long: "length ?file \<le> length (dk_file (dc_disk dc'))" "(p + 1) * ?s \<le> length (dk_file (dc_disk dc'))"
    using assms(2,4,5) by (simp_all add: length_pwrite)
  have "bslice (p * ?s) ?s (dk_file (dc_disk dc')) = frame" using pwrite_same [of "p * ?s" frame ?file] assms(2,4) by simp
  then show "decrypt_if_needed C frame [] (dc_key dc) = Inr new \<Longrightarrow> length new = dc_page_size dc \<Longrightarrow> slot_fits dc p \<Longrightarrow> stored C dc' p new"
    using assms(3) long(2) m by (simp add: stored_def)
  assume q: "q \<noteq> p" "stored C dc q data"
  then have sq: "q * ?s + ?s \<le> length ?file" using assms(3) by (auto simp: stored_def)
  have "bslice (q * ?s) ?s (dk_file (dc_disk dc')) = bslice (q * ?s) ?s ?file"
    unfolding assms(2) using sq slots_apart [OF q(1), of ?s] assms(4) by (intro pwrite_other) auto
  then show "stored C dc' q data" using assms(3) q(2) long(1) m by (auto simp: stored_def)
qed

lemma no_visibility_write:
  assumes codec: "cache_codec C" and ok: "raw_ok dc" and fits: "slot_fits dc p"
    and len: "length data = dc_page_size dc" "length nonce = 12"
    and run: "write_page_no_visibility_inner C nonce p data dc = (r, dc')"
  shows "r = Inr u \<Longrightarrow> rewrote C {p} dc dc' \<and> stored C dc' p data" "r = Inl e \<Longrightarrow> rewrote C {} dc dc'"
proof -
  have c: "\<not> dc_compression dc" "0 < slot_stride dc"
    using ok by (simp_all add: raw_ok_def slot_stride_def stride_for_def split: option.splits)
  have "case r of Inr _ \<Rightarrow> rewrote C {p} dc dc' \<and> stored C dc' p data | Inl _ \<Rightarrow> rewrote C {} dc dc'"
  proof (cases "page_frame C (dc_key dc) nonce data")
    case (Inl e)
    then show ?thesis using run c rewrote_refl [OF ok] by (auto simp: write_page_no_visibility_inner_def)
  next
    case (Inr frame)
    note f = frame_opens [OF codec Inr len(2)]
    have fl: "length frame = slot_stride dc" "frame \<noteq> []" using f(2) len(1) c(2) by (auto simp: slot_stride_def)
    have room: "p * slot_stride dc + length frame < U64_SIZE" using fits fl(1) by (simp add: slot_fits_def)
    then have off: "slot_offset dc p = p * slot_stride dc" by (simp add: slot_offset_def)
    have "write_slot (p * slot_stride dc) frame dc = (r, dc')" using run c Inr off by (simp add: write_page_no_visibility_inner_def)
    note w = write_slot_cases [OF ok room fl(2) this]
    show ?thesis
    proof (cases r)
      case (Inr u)
      note ps = pwrite_stored [OF w(1) w(3) [OF Inr] c(1) fl, where C = C]
      show ?thesis using Inr w(1,2) ps(1) ps(2) [OF f(1) len(1) fits] by (simp add: rewrote_def)
    next
      case (Inl e)
      then show ?thesis using w grown_stored [OF w(1) _ c(1)] by (auto simp: rewrote_def)
    qed
  qed
  then show "r = Inr u \<Longrightarrow> rewrote C {p} dc dc' \<and> stored C dc' p data" "r = Inl e \<Longrightarrow> rewrote C {} dc dc'" by auto
qed

subsection \<open>The write loop and its rollback\<close>

text \<open>The pre-images kept for the pages \<open>W\<close> written so far: one for each page that readers could see.\<close>

definition images_for :: "codec \<Rightarrow> disk_cache \<Rightarrow> nat set \<Rightarrow> (nat \<times> bytes) list \<Rightarrow> bool" where
  "images_for C dc W images \<longleftrightarrow> distinct (map fst images) \<and> fst ` set images = {p \<in> W. dc_is_present p dc}
     \<and> (\<forall>(p, old) \<in> set images. stored C dc p old)"

lemma pre_image_known:
  assumes inv: "cache_inv C dc0" and rw: "rewrote C W dc0 dc" and p: "p \<notin> W"
  shows "\<exists>img. pre_image C (dc_page_size dc0) p dc = Inr img
    \<and> (case img of None \<Rightarrow> \<not> dc_is_present p dc0 | Some old \<Rightarrow> dc_is_present p dc0 \<and> stored C dc0 p old)"
proof (cases "dc_is_present p dc0")
  case True
  have sm: "same_meta dc0 dc" and ok: "raw_ok dc" using rw by (simp_all add: rewrote_def)
  note m = same_meta_facts [OF sm]
  have plain: "\<not> dc_compression dc0" "\<not> dc_compression dc" using ok m(2) by (simp_all add: raw_ok_def)
  from inv True obtain old where old: "stored C dc0 p old" unfolding cache_inv_def by blast
  then have "stored C dc p old" using rw p by (simp add: rewrote_def)
  moreover have "page = old" if "mem_hit p dc = Some page" for page
    using inv True plain that m(7) stored_unique [OF _ old, of page] by (simp add: cache_inv_def)
  ultimately have "read_page C p (zeros (dc_page_size dc)) dc = Inr old"
    using plain inv m(6) by (intro read_plain) (simp_all add: cache_inv_def)
  then show ?thesis using True old m(1,8) by (simp add: pre_image_def)
qed (use rw same_meta_facts(8) [of dc0 dc p] in \<open>simp add: pre_image_def rewrote_def\<close>)

definition staged_ok :: "disk_cache \<Rightarrow> (nat \<times> bytes) list \<Rightarrow> bool" where
  "staged_ok dc staged \<longleftrightarrow> (\<forall>(p, data) \<in> set staged. slot_fits dc p \<and> length data = dc_page_size dc)"

lemma images_for_snoc:
  assumes "images_for C dc W images" "p \<notin> W"
    and "case img of None \<Rightarrow> \<not> dc_is_present p dc | Some old \<Rightarrow> dc_is_present p dc \<and> stored C dc p old"
  shows "images_for C dc (insert p W) (case img of Some buf \<Rightarrow> images @ [(p, buf)] | None \<Rightarrow> images)"
  using assms by (cases img) (auto simp: images_for_def)

lemma install_staged_spec:
  assumes codec: "cache_codec C" "\<And>p. length (fw p) = 12" and inv: "cache_inv C dc0"
    and "install_staged C fw (dc_page_size dc0) staged written images dc = (r, dc')"
    and "rewrote C (set written) dc0 dc" "images_for C dc0 (set written) images" "staged_ok dc0 staged"
    and "distinct (map fst staged)" "fst ` set staged \<inter> set written = {}"
  shows "case r of
      Inr written' \<Rightarrow> written' = written @ map fst staged \<and> rewrote C (set written') dc0 dc'
        \<and> (\<forall>(p, data) \<in> set staged. stored C dc' p data) \<and> (\<forall>p data. p \<in> set written \<longrightarrow> stored C dc p data \<longrightarrow> stored C dc' p data)
    | Inl (images', _) \<Rightarrow> \<exists>W. rewrote C W dc0 dc' \<and> images_for C dc0 W images' \<and> W \<subseteq> set written \<union> fst ` set staged"
  using assms(4-)
proof (induction staged arbitrary: written images dc)
  case Nil
  then show ?case by auto
next
  case (Cons s staged)
  obtain p data where s: "s = (p, data)" by force
  have p: "p \<notin> set written" "p \<notin> fst ` set staged" using Cons.prems(5,6) s by auto
  have sm: "same_meta dc0 dc" and ok: "raw_ok dc" using Cons.prems(2) by (simp_all add: rewrote_def)
  note m = same_meta_facts [OF sm]
  from pre_image_known [OF inv Cons.prems(2) p(1)] obtain img where img: "pre_image C (dc_page_size dc0) p dc = Inr img"
    "case img of None \<Rightarrow> \<not> dc_is_present p dc0 | Some old \<Rightarrow> dc_is_present p dc0 \<and> stored C dc0 p old" by blast
  obtain r1 dc1 where w: "write_page_no_visibility_inner C (fw p) p data dc = (r1, dc1)" by force
  have "\<not> dc_tainted dc" using inv m(6) by (simp add: cache_inv_def)
  then have w': "write_page_no_visibility C (fw p) p data dc = (r1, dc1)"
    using w by (simp add: write_page_no_visibility_def check_tainted_def)
  have fits: "slot_fits dc p" "length data = dc_page_size dc" using Cons.prems(4) s m(1,9) by (simp_all add: staged_ok_def)
  note nv = no_visibility_write [OF codec(1) ok fits codec(2) w]
  show ?case
  proof (cases r1)
    case (Inl e)
    then have "rewrote C (set written) dc0 dc1" using rewrote_trans [OF Cons.prems(2) nv(2) [OF Inl]] by simp
    then show ?thesis using Cons.prems(1,3) s img(1) w' Inl by auto
  next
    case (Inr u)
    let ?images = "case img of Some buf \<Rightarrow> images @ [(p, buf)] | None \<Rightarrow> images"
    have run: "install_staged C fw (dc_page_size dc0) staged (written @ [p]) ?images dc1 = (r, dc')"
      using Cons.prems(1) s img(1) w' Inr by simp
    have set1: "set (written @ [p]) = insert p (set written)" by simp
    have rw1: "rewrote C (set (written @ [p])) dc0 dc1" using rewrote_trans [OF Cons.prems(2)] nv(1) [OF Inr] by (metis Un_insert_right set1 sup_bot_right)
    have im: "images_for C dc0 (set (written @ [p])) ?images"
      unfolding set1 by (rule images_for_snoc [OF Cons.prems(3) p(1) img(2)])
    have rest: "staged_ok dc0 staged" "distinct (map fst staged)" "fst ` set staged \<inter> set (written @ [p]) = {}"
      using Cons.prems(4-6) p s by (auto simp: staged_ok_def)
    note IH = Cons.IH [OF run rw1 im rest]
    have keep: "stored C dc1 q d" if "q \<in> set written" "stored C dc q d" for q d
      using nv(1) [OF Inr] that p(1) by (auto simp: rewrote_def)
    have new: "stored C dc1 p data" using nv(1) [OF Inr] by simp
    show ?thesis
    proof (cases r)
      case (Inr written')
      then show ?thesis using IH keep new s by auto
    next
      case (Inl x)
      then show ?thesis using IH s by (cases x) fastforce
    qed
  qed
qed

lemma rollback_loop_spec:
  assumes codec: "cache_codec C" "\<And>p. length (rb p) = 12"
    and "rollback_loop C rb images failed dc = (failed', dc')" "raw_ok dc"
    and "staged_ok dc images" "distinct (map fst images)"
  shows "rewrote C (fst ` set images) dc dc' \<and> (failed' = [] \<longrightarrow> failed = [] \<and> (\<forall>(p, old) \<in> set images. stored C dc' p old))"
  using assms(3-)
proof (induction images arbitrary: failed dc)
  case Nil
  then show ?case using rewrote_refl by auto
next
  case (Cons s images)
  obtain p old where s: "s = (p, old)" by force
  obtain r1 dc1 where w: "write_page_no_visibility_inner C (rb p) p old dc = (r1, dc1)" by force
  have fits: "slot_fits dc p" "length old = dc_page_size dc" using Cons.prems(3) s by (simp_all add: staged_ok_def)
  note nv = no_visibility_write [OF codec(1) Cons.prems(2) fits codec(2) w]
  have rw: "rewrote C {p} dc dc1" using nv by (cases r1) (auto simp: rewrote_def)
  then have sm: "same_meta dc dc1" and ok: "raw_ok dc1" by (simp_all add: rewrote_def)
  have st: "staged_ok dc1 images" using Cons.prems(3) same_meta_facts(1,9) [OF sm] s by (auto simp: staged_ok_def)
  let ?failed = "case r1 of Inl _ \<Rightarrow> failed @ [p] | Inr _ \<Rightarrow> failed"
  have run: "rollback_loop C rb images ?failed dc1 = (failed', dc')"
    using Cons.prems(1) s w by (cases r1) (simp_all add: write_page_no_visibility_rollback_def)
  have "distinct (map fst images)" "p \<notin> fst ` set images" using Cons.prems(4) s by auto
  note IH = Cons.IH [OF run ok st this(1)]
  have "rewrote C (fst ` set (s # images)) dc dc'" using rewrote_trans [OF rw conjunct1 [OF IH]] s by simp
  moreover have "failed = [] \<and> (\<forall>(p, old) \<in> set (s # images). stored C dc' p old)" if none: "failed' = []"
  proof (cases r1)
    case (Inr u)
    have "stored C dc1 p old" using nv(1) [OF Inr] by simp
    then have "stored C dc' p old" using IH \<open>p \<notin> _\<close> by (simp add: rewrote_def)
    then show ?thesis using IH none Inr s by auto
  qed (use IH none in auto)
  ultimately show ?case by blast
qed

subsection \<open>After the loop\<close>

lemma raw_ok_inv: "cache_inv C dc \<Longrightarrow> whole_faults (dc_disk dc) \<Longrightarrow> \<not> dc_compression dc \<Longrightarrow> raw_ok dc"
  by (simp add: cache_inv_def raw_ok_def)

lemma restored_view:
  assumes inv: "cache_inv C dc0" and rw: "rewrote C W dc0 dc" and im: "images_for C dc0 W images"
    and bk: "rewrote C (fst ` set images) dc dc'" "\<forall>(p, old) \<in> set images. stored C dc' p old"
  shows "cache_inv C dc' \<and> cache_view C dc' = cache_view C dc0"
proof (rule establish_view)
  have sm: "same_meta dc0 dc'" using rw bk(1) by (auto simp: rewrote_def intro: same_meta_trans)
  note m = same_meta_facts [OF sm]
  have plain: "\<not> dc_compression dc'" and len: "dc_file_len dc' = length (dk_file (dc_disk dc'))"
    using bk(1) by (simp_all add: rewrote_def raw_ok_def)
  show "dc_file_len dc' = length (dk_file (dc_disk dc'))" "index_in_file dc'" using len plain by (simp_all add: index_in_file_def)
  show "0 < dc_page_size dc'" "dc_page_size dc' \<le> 65536" "\<not> dc_tainted dc'" "index_ok (dc_index dc')"
    using inv m by (simp_all add: cache_inv_def)
  show "dc_is_present q dc' \<longleftrightarrow> cache_view C dc0 q \<noteq> None" for q using view_present [OF inv, of q] m(8) by simp
  show "stored C dc' q data" if "cache_view C dc0 q = Some data" for q data
  proof -
    have q: "dc_is_present q dc0" "stored C dc0 q data" using that view_iff [OF inv] by blast+
    show ?thesis
    proof (cases "q \<in> W")
      case True
      then obtain old where old: "(q, old) \<in> set images" using im q(1) by (force simp: images_for_def)
      then have "old = data" using im q(2) stored_unique by (fastforce simp: images_for_def)
      then show ?thesis using bk(2) old by auto
    next
      case False
      then show ?thesis using rw bk(1) im q(2) by (auto simp: rewrote_def images_for_def)
    qed
  qed
  show "cache_view C dc0 q = Some page" if "mem_hit q dc' = Some page" "cache_view C dc0 q \<noteq> None" "\<not> dc_compression dc'" for q page
    using view_mem [OF inv, of q page] that m(2,7) by simp
qed

lemma store_states: "\<exists>S. fold (\<lambda>pnum. store_group_state (f pnum) st) xs dc = dc\<lparr>dc_group_states := S\<rparr>"
proof (induction xs arbitrary: dc)
  case Nil
  have "dc = dc\<lparr>dc_group_states := dc_group_states dc\<rparr>" by simp
  then show ?case by (metis fold_simps(1))
next
  case (Cons x xs)
  from Cons.IH [of "store_group_state (f x) st dc"] show ?case by (auto simp: store_group_state_def)
qed

lemma mark_pages_shape:
  "\<exists>S. mark_pages_present pns dc = dc\<lparr>dc_bitmap := (if pns = [] then dc_bitmap dc
     else foldl mark_present (ensure_capacity (dc_bitmap dc) (Max (set pns))) pns), dc_group_states := S\<rparr>"
proof -
  obtain S where "fold (\<lambda>pnum. store_group_state (pnum div dc_ppg dc) Present) pns
    (ensure_group_capacity (Max (set pns) div dc_ppg dc + 1) (bitmap_marks pns (bitmap_ensure (Max (set pns)) dc)))
    = (ensure_group_capacity (Max (set pns) div dc_ppg dc + 1) (bitmap_marks pns (bitmap_ensure (Max (set pns)) dc)))\<lparr>dc_group_states := S\<rparr>"
    using store_states [of "\<lambda>pnum. pnum div dc_ppg dc" Present pns] by blast
  then show ?thesis
    by (cases "0 < dc_ppg dc"; cases "pns = []")
      (simp_all add: mark_pages_present_def Let_def bitmap_marks_def bitmap_ensure_def ensure_group_capacity_def
        exI [of _ S] exI [of _ "dc_group_states dc"])
qed

lemma present_marked:
  "is_present (dc_bitmap (mark_pages_present pns dc)) q \<longleftrightarrow> is_present (dc_bitmap dc) q \<or> q \<in> set pns"
proof -
  let ?b = "ensure_capacity (dc_bitmap dc) (Max (set pns))"
  have "Max (set pns) div 8 < length (bits ?b)" by (simp add: ensure_capacity_def resize_with_def)
  then have "Max (set pns) < bit_capacity ?b" by (simp add: less_capacity)
  then have "q < bit_capacity ?b" if "q \<in> set pns"
    using that Max_ge [of "set pns" q] by (meson List.finite_set le_less_trans)
  moreover have "is_present ?b q = is_present (dc_bitmap dc) q"
    using pages_of_resize_with [of "dc_bitmap dc"] by (auto simp: ensure_capacity_def pages_of_def)
  moreover obtain S where "mark_pages_present pns dc = dc\<lparr>dc_bitmap := (if pns = [] then dc_bitmap dc else foldl mark_present ?b pns), dc_group_states := S\<rparr>"
    using mark_pages_shape by blast
  ultimately show ?thesis by (auto simp: bitmap.present_marks)
qed

text \<open>Steps 5 on: the written pages become visible together.\<close>

lemma installed_view:
  assumes inv: "cache_inv C dc0" and rw: "rewrote C (set written) dc0 dc"
    and new: "\<forall>(p, data) \<in> set staged. stored C dc p data" and w: "written = map fst staged" "distinct (map fst staged)"
    and dc': "dc' = mark_pages_present written (clear_pages_from_mem_cache written dc)"
  shows "cache_inv C dc' \<and> cache_view C dc' = cache_view C dc0 ++ map_of staged"
proof (rule establish_view)
  let ?f = "clear_pages_from_mem_cache written dc"
  note m = same_meta_facts [OF conjunct1 [OF rw [unfolded rewrote_def]]]
  have ps: "0 < dc_page_size dc" and plain: "\<not> dc_compression dc" "dc_file_len dc = length (dk_file (dc_disk dc))"
    using rw by (simp_all add: rewrote_def raw_ok_def)
  have f: "same_store ?f dc" "mem_hit q ?f = (if q \<in> set written then None else mem_hit q dc)" for q
    using ps by (simp_all add: clear_pages_from_mem_cache_def) (simp add: mem_hit_def)
  obtain S B where shape: "mark_pages_present written ?f = ?f\<lparr>dc_bitmap := B, dc_group_states := S\<rparr>" using mark_pages_shape by blast
  have d: "dc_disk dc' = dc_disk dc" "dc_file_len dc' = dc_file_len dc" "dc_page_size dc' = dc_page_size dc" "dc_compression dc' = dc_compression dc"
    "dc_key dc' = dc_key dc" "dc_index dc' = dc_index dc" "dc_tainted dc' = dc_tainted dc"
    using f(1) by (simp_all add: dc' shape same_store_def)
  have mem: "mem_hit q dc' = (if q \<in> set written then None else mem_hit q dc)" for q
    using f(2) [of q] by (simp add: dc' shape mem_hit_def)
  have pres: "dc_is_present q dc' \<longleftrightarrow> dc_is_present q dc0 \<or> q \<in> set written" for q
    using present_marked [of written ?f q] f(1) m(2,4) plain(1) d(4)
    by (simp add: dc' shape dc_is_present_def same_store_def)
  have st: "stored C dc' q data = stored C dc q data" for q data by (rule stored_cong) (simp_all add: d)
  show "0 < dc_page_size dc'" "dc_page_size dc' \<le> 65536" "\<not> dc_tainted dc'" "index_ok (dc_index dc')"
    using inv m by (simp_all add: cache_inv_def d)
  show "dc_file_len dc' = length (dk_file (dc_disk dc'))" "index_in_file dc'" using plain by (simp_all add: d index_in_file_def)
  have dom: "set written = dom (map_of staged)" using w(1) by (simp add: dom_map_of_conv_image_fst)
  show "dc_is_present q dc' \<longleftrightarrow> (cache_view C dc0 ++ map_of staged) q \<noteq> None" for q
    using pres [of q] view_present [OF inv, of q] by (auto simp: dom map_add_def split: option.splits)
  show "stored C dc' q data" if v: "(cache_view C dc0 ++ map_of staged) q = Some data" for q data
  proof (cases "map_of staged q")
    case None
    then have "q \<notin> set written" "cache_view C dc0 q = Some data" using v dom by (auto simp: map_add_def)
    then show ?thesis using rw view_stored [OF inv] by (simp add: st rewrote_def)
  next
    case (Some x)
    then show ?thesis using v new map_of_SomeD [OF Some] by (auto simp: st map_add_def)
  qed
  show "(cache_view C dc0 ++ map_of staged) q = Some page"
    if "mem_hit q dc' = Some page" "(cache_view C dc0 ++ map_of staged) q \<noteq> None" for q page
  proof -
    have "q \<notin> set written" "mem_hit q dc0 = Some page" using that(1) mem [of q] m(7) by (auto split: if_splits)
    moreover from this have "map_of staged q = None" using dom by auto
    ultimately show ?thesis using view_mem [OF inv, of q page] that(2) plain(1) m(2) by (simp add: map_add_def)
  qed
qed

lemma bump_view: "cache_inv C (snd (bump_generation dc)) = cache_inv C dc" "cache_inv C dc \<Longrightarrow> cache_view C (snd (bump_generation dc)) = cache_view C dc"
proof -
  have "same_store (snd (bump_generation dc)) dc" "\<And>q. mem_hit q (snd (bump_generation dc)) = mem_hit q dc"
    by (simp_all add: bump_generation_def same_store_def mem_hit_def)
  from cache_inv_cong [OF this] show "cache_inv C (snd (bump_generation dc)) = cache_inv C dc"
    "cache_inv C dc \<Longrightarrow> cache_view C (snd (bump_generation dc)) = cache_view C dc" by simp_all
qed

text \<open>Truncating an uncompressed cache changes its file, bitmap and in-memory pages.\<close>

lemma truncate_shape:
  fixes dc :: disk_cache and n :: nat
  defines "b \<equiv> (if n < bit_capacity (dc_bitmap dc) then clear_range (dc_bitmap dc) n (bit_capacity (dc_bitmap dc) - n) else dc_bitmap dc)"
    and "d \<equiv> (dc_disk dc)\<lparr>dk_file := take (n * slot_stride dc) (dk_file (dc_disk dc)) @ zeros (n * slot_stride dc - length (dk_file (dc_disk dc))),
      dk_ops := dk_ops (dc_disk dc) + 1\<rparr>"
  assumes ps: "0 < dc_page_size dc" "ps = dc_page_size dc" and plain: "\<not> dc_compression dc" and fits: "n * slot_stride dc < U64_SIZE"
    and None: "dk_fault (dc_disk dc) (dk_ops (dc_disk dc)) = None" and run: "truncate_to_page_count piter iter n ps dc = (r, dc')"
  shows "r = Inr ()" "same_store dc' (dc\<lparr>dc_disk := d, dc_file_len := n * slot_stride dc, dc_bitmap := b\<rparr>)"
    "mem_hit q dc' = Some page \<Longrightarrow> mem_hit q dc = Some page"
proof -
  let ?s = "slot_stride dc" and ?e = "dc\<lparr>dc_disk := d, dc_file_len := n * slot_stride dc, dc_bitmap := b\<rparr>"
  let ?ps = "[n..<bit_capacity (dc_bitmap dc)]"
  have len: "(n * stride_for (dc_key dc) ps) mod U64_SIZE = n * ?s" using fits ps(2) by (simp add: slot_stride_def)
  define f where "f = (if ?ps = [] then ?e else clear_pages_from_mem_cache ?ps ?e)"
  have same: "same_store f ?e" by (simp add: f_def clear_pages_from_mem_cache_def)
  have comp: "\<not> dc_compression (f\<lparr>dc_tracker := t\<rparr>)" for t using plain same by (simp add: same_store_def)
  have "\<exists>t g. (r, dc') = (Inr (), f\<lparr>dc_tracker := t, dc_group_states := g\<rparr>)"
  proof -
    let ?x = "dc\<lparr>dc_disk := d, dc_file_len := n * ?s\<rparr>" and ?t = "fold remove_chunk (filter (stale_chunk n f) (iter (present (dc_tracker f)))) (dc_tracker f)"
    have set: "on_disk (set_len (n * ?s)) dc = (Inr (), dc\<lparr>dc_disk := d\<rparr>)" using None by (simp add: on_disk_def set_len_def d_def)
    have e1: "(if n < bit_capacity (dc_bitmap dc) then ?x\<lparr>dc_bitmap := clear_range (dc_bitmap dc) n (bit_capacity (dc_bitmap dc) - n)\<rparr> else ?x) = ?e"
      by (rule disk_cache.equality) (simp_all add: b_def)
    have e2: "dc_bitmap ?x = dc_bitmap dc" by simp
    have eq: "truncate_to_page_count piter iter n ps dc =
        (let dc = f\<lparr>dc_tracker := ?t\<rparr>;
             dc = (if dc_compression dc
                then dc\<lparr>dc_index := fold index_remove (filter (\<lambda>p. n \<le> p) (piter (dom (ci_entries (dc_index dc))))) (dc_index dc)\<rparr>
                else dc)
         in (Inr (), if 0 < dc_ppg dc then drop_states_from (div_ceil n (dc_ppg dc)) dc else dc))"
      by (simp only: truncate_to_page_count_def Let_def len set and_then_simps f_def e1 e2)
    have "\<exists>g'. (if 0 < k then drop_states_from j (f\<lparr>dc_tracker := t\<rparr>) else f\<lparr>dc_tracker := t\<rparr>) = f\<lparr>dc_tracker := t, dc_group_states := g'\<rparr>" for k j t
    proof (cases "0 < k")
      case False
      have "f\<lparr>dc_tracker := t\<rparr> = f\<lparr>dc_tracker := t, dc_group_states := dc_group_states f\<rparr>" by (rule disk_cache.equality) simp_all
      then show ?thesis unfolding if_not_P [OF False] by (rule exI)
    qed (auto simp: drop_states_from_def)
    then obtain g' where g': "(if 0 < dc_ppg (f\<lparr>dc_tracker := ?t\<rparr>) then drop_states_from (div_ceil n (dc_ppg (f\<lparr>dc_tracker := ?t\<rparr>))) (f\<lparr>dc_tracker := ?t\<rparr>)
        else f\<lparr>dc_tracker := ?t\<rparr>) = f\<lparr>dc_tracker := ?t, dc_group_states := g'\<rparr>" by blast
    from eq run have "(r, dc') = (Inr (), f\<lparr>dc_tracker := ?t, dc_group_states := g'\<rparr>)"
      unfolding Let_def if_not_P [OF comp] g' by (simp only: prod.inject)
    then show ?thesis by blast
  qed
  then obtain t g where res: "r = Inr ()" "dc' = f\<lparr>dc_tracker := t, dc_group_states := g\<rparr>" by blast
  show "r = Inr ()" "same_store dc' ?e" using res same by (simp_all add: same_store_def)
  have "mem_hit q ?e = mem_hit q dc" by (simp add: mem_hit_def)
  moreover have "mem_hit q f = Some page \<Longrightarrow> mem_hit q ?e = Some page"
    using ps(1) by (auto simp: f_def clear_pages_from_mem_cache_def split: if_splits)
  moreover have "mem_hit q dc' = mem_hit q f" by (simp add: res mem_hit_def)
  ultimately show "mem_hit q dc = Some page" if "mem_hit q dc' = Some page" using that by simp
qed

text \<open>Readers lose the pages from the new end on, or, when the file cannot be cut, nothing.\<close>

lemma truncate_view:
  assumes inv: "cache_inv C dc" and plain: "\<not> dc_compression dc" and fits: "n * slot_stride dc < U64_SIZE" and ps: "ps = dc_page_size dc"
    and run: "truncate_to_page_count piter iter n ps dc = (r, dc')"
  shows "cache_inv C dc' \<and> cache_view C dc' = (if is_ok r then cache_view C dc |` {..<n} else cache_view C dc)"
proof (cases "dk_fault (dc_disk dc) (dk_ops (dc_disk dc))")
  case (Some f)
  then have r: "\<not> is_ok r" "dc' = dc\<lparr>dc_disk := (dc_disk dc)\<lparr>dk_ops := dk_ops (dc_disk dc) + 1\<rparr>\<rparr>"
    using run by (auto simp: truncate_to_page_count_def Let_def on_disk_def set_len_def and_then_def split: prod.splits)
  have "cache_inv C dc' \<and> cache_view C dc' = cache_view C dc"
  proof (rule establish_view)
    have st: "stored C dc' q d = stored C dc q d" for q d using plain by (simp add: r stored_def slot_fits_def slot_stride_def)
    show "stored C dc' q d" if "cache_view C dc q = Some d" for q d using that view_stored [OF inv] st by simp
    show "dc_is_present q dc' \<longleftrightarrow> cache_view C dc q \<noteq> None" for q using view_present [OF inv, of q] by (simp add: r dc_is_present_def)
    show "cache_view C dc q = Some page" if "mem_hit q dc' = Some page" "cache_view C dc q \<noteq> None" for q page
      using view_mem [OF inv, of q page] that plain by (simp add: r mem_hit_def)
  qed (use inv in \<open>simp_all add: cache_inv_def r index_in_file_def\<close>)
  then show ?thesis using r(1) by simp
next
  case None
  let ?s = "slot_stride dc" and ?file = "dk_file (dc_disk dc)"
  let ?new = "take (n * ?s) ?file @ zeros (n * ?s - length ?file)"
  let ?d = "(dc_disk dc)\<lparr>dk_file := ?new, dk_ops := dk_ops (dc_disk dc) + 1\<rparr>"
  define b where "b = (if n < bit_capacity (dc_bitmap dc) then clear_range (dc_bitmap dc) n (bit_capacity (dc_bitmap dc) - n) else dc_bitmap dc)"
  have "0 < dc_page_size dc" using inv by (simp add: cache_inv_def)
  note shape = truncate_shape [OF this ps plain fits None run, folded b_def]
  then have d: "dc_disk dc' = ?d" "dc_file_len dc' = n * ?s" "dc_bitmap dc' = b" "dc_page_size dc' = dc_page_size dc" "\<not> dc_compression dc'"
      "dc_key dc' = dc_key dc" "dc_index dc' = dc_index dc" "dc_tainted dc' = dc_tainted dc"
    using plain by (simp_all add: same_store_def)
  note mem = shape(3)
  have stride: "slot_stride dc' = ?s" by (simp add: slot_stride_def d)
  have keep: "stored C dc' q x" if st: "stored C dc q x" and q: "q < n" for q x
  proof -
    have fit: "slot_fits dc q" "(q + 1) * ?s \<le> length ?file" using st plain by (simp_all add: stored_def)
    have qn: "(q + 1) * ?s \<le> n * ?s" using q by (intro mult_le_mono1) simp
    then have long: "(q + 1) * ?s \<le> length ?new" using fit(2) by simp
    have "bslice (q * ?s) ?s ?new = bslice (q * ?s) ?s ?file" using fit(2) qn by (simp add: bslice_def take_drop min_def) arith
    then show ?thesis using st plain long fit by (simp add: stored_def d stride slot_fits_def)
  qed
  have bits: "is_present b q \<longleftrightarrow> is_present (dc_bitmap dc) q \<and> q < n" for q
  proof -
    have "is_present (dc_bitmap dc) q \<Longrightarrow> q < bit_capacity (dc_bitmap dc)" by (simp add: is_present_def bit_capacity_def Let_def split: if_splits)
    then show ?thesis unfolding b_def clear_range_def by (auto simp: bitmap.present_unmarks)
  qed
  have "cache_inv C dc' \<and> cache_view C dc' = cache_view C dc |` {..<n}"
  proof (rule establish_view)
    show "dc_is_present q dc' \<longleftrightarrow> (cache_view C dc |` {..<n}) q \<noteq> None" for q
      using view_present [OF inv, of q] bits [of q] plain d by (simp add: dc_is_present_def restrict_map_def)
    show "stored C dc' q x" if "(cache_view C dc |` {..<n}) q = Some x" for q x
      using that keep view_stored [OF inv] by (auto simp: restrict_map_def split: if_splits)
    show "(cache_view C dc |` {..<n}) q = Some page" if "mem_hit q dc' = Some page" "(cache_view C dc |` {..<n}) q \<noteq> None" for q page
      using view_mem [OF inv, of q page] mem [OF that(1)] that(2) plain by (auto simp: restrict_map_def split: if_splits)
    show "dc_file_len dc' = length (dk_file (dc_disk dc'))" by (simp add: d)
  qed (use inv in \<open>simp_all add: cache_inv_def d index_in_file_def\<close>)
  then show ?thesis using shape(1) by simp
qed

subsection \<open>The handle\<close>

text \<open>What every handle operation keeps: pages in key order, of the page size, below the largest id, a \<open>u32\<close>.\<close>

definition replay_wf :: "replay_handle \<Rightarrow> bool" where
  "replay_wf h \<longleftrightarrow> sorted_wrt (<) (map fst (rh_staged h)) \<and> rh_max_id h < U32_SIZE
     \<and> (\<forall>(p, data) \<in> set (rh_staged h). p < rh_max_id h \<and> length data = rh_page_size h)"

lemma btree_insert_keys: "fst ` set (btree_insert k v es) = insert k (fst ` set es)"
  by (induction k v es rule: btree_insert.induct) (simp_all add: insert_commute)

lemma btree_insert_set: "set (btree_insert k v es) \<subseteq> insert (k, v) (set es)"
  by (induction k v es rule: btree_insert.induct) (auto split: if_splits)

lemma btree_insert_sorted: "sorted_wrt (<) (map fst es) \<Longrightarrow> sorted_wrt (<) (map fst (btree_insert k v es))"
proof (induction es)
  case (Cons e es)
  have "x \<in> insert k (fst ` set es)" if "x \<in> fst ` set (btree_insert k v es)" for x
    using that btree_insert_keys [of k v es] by simp
  then show ?case using Cons by (cases e) fastforce
qed simp

lemma btree_insert_lookup: "sorted_wrt (<) (map fst es) \<Longrightarrow> map_of (btree_insert k v es) = (map_of es)(k \<mapsto> v)"
proof (induction es)
  case (Cons e es)
  then show ?case by (cases e) (auto simp: fun_upd_twist)
qed simp

lemma new_replay_wf: "new_replay ctx = Inr h \<Longrightarrow> replay_wf h"
  by (auto simp: new_replay_def Let_def replay_wf_def split: if_splits)

lemma apply_page_staged:
  assumes "apply_page pid data h = Inr h'" "replay_wf h" "pid < U32_SIZE"
  shows "replay_wf h'" "map_of (rh_staged h') = (map_of (rh_staged h))(pid - 1 \<mapsto> data)"
proof -
  have h: "h' = h\<lparr>rh_max_id := max (rh_max_id h) pid, rh_staged := btree_insert (pid - 1) data (rh_staged h)\<rparr>"
    "pid \<noteq> 0" "length data = rh_page_size h"
    using assms(1) by (auto simp: apply_page_def bind_result_Inr_iff split: if_splits)
  have "\<forall>(p, d) \<in> set (rh_staged h'). p < rh_max_id h' \<and> length d = rh_page_size h'"
    using btree_insert_set [of "pid - 1" data "rh_staged h"] assms(2) h by (fastforce simp: replay_wf_def)
  then show "replay_wf h'" using assms(2,3) h by (simp add: replay_wf_def btree_insert_sorted)
  show "map_of (rh_staged h') = (map_of (rh_staged h))(pid - 1 \<mapsto> data)"
    using assms(2) h by (simp add: replay_wf_def btree_insert_lookup)
qed

lemma wf_distinct: "replay_wf h \<Longrightarrow> distinct (map fst (rh_staged h))"
  by (simp add: replay_wf_def strict_sorted_iff)

lemma wf_staged_ok:
  assumes "replay_wf h" "cache_inv C dc" "rh_page_size h = dc_page_size dc"
  shows "staged_ok dc (rh_staged h)"
proof -
  have stride: "slot_stride dc \<le> 65564"
    using assms(2) by (auto simp: cache_inv_def slot_stride_def stride_for_def GCM_RANDOM_NONCE_OVERHEAD_def split: option.splits)
  have "slot_fits dc p" if "p < U32_SIZE" for p
  proof -
    have "(p + 1) * slot_stride dc \<le> U32_SIZE * 65564" using that stride by (intro mult_le_mono) simp_all
    then show ?thesis by (simp add: slot_fits_def)
  qed
  then show ?thesis using assms(1,3) by (fastforce simp: staged_ok_def replay_wf_def)
qed

lemma staged_log_read:
  assumes "replay_wf h" "is_valid_page_size (rh_page_size h)"
  shows "read_staging_log (sw_content (write_log dir v (rh_page_size h) (rh_staged h) t)) any = Inr (map_of (rh_staged h))"
proof (rule read_log_whole [OF assms(2) _ wf_distinct [OF assms(1)]])
  show "list_all (wf_rec (rh_page_size h)) (rh_staged h)"
    using assms(1) by (fastforce simp: list_all_iff replay_wf_def wf_rec_def MANIFEST_MAGIC_def)
qed

subsection \<open>Outcomes of finalize\<close>

definition replay_untouched :: "replay_context \<Rightarrow> replay_context \<Rightarrow> bool" where
  "replay_untouched ctx ctx' \<longleftrightarrow> rx_manifest ctx' = rx_manifest ctx \<and> rx_page_count ctx' = rx_page_count ctx
     \<and> rx_pending ctx' = rx_pending ctx"

definition log_holds :: "replay_handle \<Rightarrow> string \<Rightarrow> replay_context \<Rightarrow> bool" where
  "log_holds h path ctx \<longleftrightarrow> (\<exists>log. rx_logs ctx path = Some log \<and> read_staging_log log (rh_page_size h) = Inr (map_of (rh_staged h)))"

definition rolled_back :: "codec \<Rightarrow> replay_context \<Rightarrow> replay_context \<Rightarrow> bool" where
  "rolled_back C ctx ctx' \<longleftrightarrow> replay_untouched ctx ctx'
     \<and> cache_inv C (rx_cache ctx') \<and> cache_view C (rx_cache ctx') = cache_view C (rx_cache ctx)"

definition fenced :: "codec \<Rightarrow> replay_handle \<Rightarrow> replay_context \<Rightarrow> replay_context \<Rightarrow> bool" where
  "fenced C h ctx ctx' \<longleftrightarrow> replay_untouched ctx ctx'
     \<and> (\<forall>p buf. \<not> is_ok (read_page C p buf (rx_cache ctx'))) \<and> (\<exists>path. log_holds h path ctx')"

definition new_pages :: "replay_env \<Rightarrow> replay_handle \<Rightarrow> replay_context \<Rightarrow> nat \<rightharpoonup> bytes" where
  "new_pages env h ctx = cache_view (re_codec env) (rx_cache ctx) ++ map_of (rh_staged h)"

definition installed :: "replay_env \<Rightarrow> replay_handle \<Rightarrow> replay_context \<Rightarrow> replay_context \<Rightarrow> bool" where
  "installed env h ctx ctx' \<longleftrightarrow> rx_manifest ctx' = post_manifest (re_tree_iter env) (rx_manifest ctx) h
     \<and> rx_page_count ctx' = replay_page_count (rx_manifest ctx) h
     \<and> (\<exists>pf. rx_pending ctx' = rx_pending ctx @ [pf] \<and> log_holds h (pf_staging_path pf) ctx')
     \<and> cache_inv (re_codec env) (rx_cache ctx')
     \<and> cache_view (re_codec env) (rx_cache ctx') =
         (if replay_page_count (rx_manifest ctx) h < page_count (rx_manifest ctx)
          then new_pages env h ctx |` {..<replay_page_count (rx_manifest ctx) h} else new_pages env h ctx)"

definition exposed :: "replay_env \<Rightarrow> replay_handle \<Rightarrow> replay_context \<Rightarrow> replay_context \<Rightarrow> bool" where
  "exposed env h ctx ctx' \<longleftrightarrow> replay_page_count (rx_manifest ctx) h < page_count (rx_manifest ctx) \<and> replay_untouched ctx ctx'
     \<and> cache_inv (re_codec env) (rx_cache ctx') \<and> cache_view (re_codec env) (rx_cache ctx') = new_pages env h ctx \<and> (\<exists>path. log_holds h path ctx')"

text \<open>The ways out of the commit phase.\<close>

lemma failure_outcome:
  assumes codec: "cache_codec (re_codec env)" "\<And>p. length (re_rb env p) = 12" and inv: "cache_inv (re_codec env) (rx_cache ctx0)"
    and rw: "rewrote (re_codec env) W (rx_cache ctx0) (rx_cache ctx)" and im: "images_for (re_codec env) (rx_cache ctx0) W images"
    and ok: "staged_ok (rx_cache ctx0) images" and same: "replay_untouched ctx0 ctx" "log_holds h path ctx"
    and run: "handle_commit_phase_failure env images path msg ctx = (e, ctx')"
  shows "rolled_back (re_codec env) ctx0 ctx' \<or> fenced (re_codec env) h ctx0 ctx'"
proof -
  let ?C = "re_codec env"
  obtain failed dc' where loop: "rollback_loop ?C (re_rb env) (rev images) [] (rx_cache ctx) = (failed, dc')" by force
  have raw: "raw_ok (rx_cache ctx)" and sm: "same_meta (rx_cache ctx0) (rx_cache ctx)" using rw by (simp_all add: rewrote_def)
  have "staged_ok (rx_cache ctx) (rev images)" using ok same_meta_facts(1,9) [OF sm] by (simp add: staged_ok_def)
  moreover have "distinct (map fst (rev images))" using im by (simp add: images_for_def rev_map [symmetric])
  ultimately have rb: "rewrote ?C (fst ` set images) (rx_cache ctx) dc'" "failed = [] \<Longrightarrow> \<forall>(p, old) \<in> set images. stored ?C dc' p old"
    using rollback_loop_spec [OF codec loop raw] by auto
  show ?thesis
  proof (cases "failed = []")
    case True
    then have "rx_cache ctx' = dc'" "replay_untouched ctx0 ctx'"
      using run loop same(1) by (auto simp: handle_commit_phase_failure_def rollback_pre_images_def replay_untouched_def)
    then have "rolled_back ?C ctx0 ctx'"
      using restored_view [OF inv rw im rb(1) rb(2) [OF True]] by (simp add: rolled_back_def)
    then show ?thesis ..
  next
    case False
    then have ctx': "ctx' = ctx\<lparr>rx_cache := dc'\<lparr>dc_tainted := True\<rparr>\<rparr>"
      using run loop by (auto simp: handle_commit_phase_failure_def rollback_pre_images_def)
    then have "log_holds h path ctx'" "replay_untouched ctx0 ctx'" using same by (simp_all add: log_holds_def replay_untouched_def)
    moreover have "\<not> is_ok (read_page ?C p buf (rx_cache ctx'))" for p buf by (simp add: ctx' read_page_def)
    ultimately have "fenced ?C h ctx0 ctx'" unfolding fenced_def by blast
    then show ?thesis ..
  qed
qed

lemma publish_outcome:
  assumes run: "publish_replay env (post_manifest (re_tree_iter env) (rx_manifest ctx0) h) ver path h written ctx = (r, ctx')"
    and inv: "cache_inv (re_codec env) (rx_cache ctx0)" and rw: "rewrote (re_codec env) (set written) (rx_cache ctx0) (rx_cache ctx)"
    and new: "\<forall>(p, data) \<in> set (rh_staged h). stored (re_codec env) (rx_cache ctx) p data"
    and w: "written = map fst (rh_staged h)" "distinct (map fst (rh_staged h))" and ps: "rh_page_size h = dc_page_size (rx_cache ctx0)"
    and shrink: "page_count (rx_manifest ctx0) \<le> replay_page_count (rx_manifest ctx0) h \<or> replay_page_count (rx_manifest ctx0) h \<le> U32_SIZE"
    and same: "replay_untouched ctx0 ctx" "log_holds h path ctx"
  shows "installed env h ctx0 ctx' \<or> \<not> is_ok r \<and> exposed env h ctx0 ctx'"
proof -
  let ?C = "re_codec env" and ?n = "replay_page_count (rx_manifest ctx0) h" and ?old = "page_count (rx_manifest ctx0)"
  define dc where "dc = mark_pages_present written (clear_pages_from_mem_cache written (rx_cache ctx))"
  obtain tr dc1 where t: "(if ?n < ?old then truncate_to_page_count (re_page_iter env) (re_chunk_iter env) ?n (rh_page_size h) dc else (Inr (), dc)) = (tr, dc1)" by force
  have marked: "cache_inv ?C dc" "cache_view ?C dc = new_pages env h ctx0"
    using installed_view [OF inv rw new w dc_def] by (simp_all add: new_pages_def)
  have meta: "dc_page_size dc = dc_page_size (rx_cache ctx0)" "\<not> dc_compression dc"
  proof -
    obtain S B where "dc = (clear_pages_from_mem_cache written (rx_cache ctx))\<lparr>dc_bitmap := B, dc_group_states := S\<rparr>" unfolding dc_def using mark_pages_shape by blast
    moreover have "dc_page_size (rx_cache ctx) = dc_page_size (rx_cache ctx0)" "\<not> dc_compression (rx_cache ctx)"
      using rw same_meta_facts [of "rx_cache ctx0" "rx_cache ctx"] by (simp_all add: rewrote_def raw_ok_def)
    moreover have "same_store (clear_pages_from_mem_cache written (rx_cache ctx)) (rx_cache ctx)" by (simp add: clear_pages_from_mem_cache_def)
    ultimately show "dc_page_size dc = dc_page_size (rx_cache ctx0)" "\<not> dc_compression dc" by (simp_all add: same_store_def)
  qed
  have cut: "cache_inv ?C dc1 \<and> cache_view ?C dc1 = (if ?n < ?old \<and> is_ok tr then new_pages env h ctx0 |` {..<?n} else new_pages env h ctx0)"
  proof (cases "?n < ?old")
    case True
    have "slot_stride dc \<le> 65536 + 28" using marked(1) by (simp add: cache_inv_def slot_stride_def stride_for_def GCM_RANDOM_NONCE_OVERHEAD_def split: option.split)
    moreover have "?n \<le> U32_SIZE" using shrink True by simp
    ultimately have "?n * slot_stride dc \<le> U32_SIZE * (65536 + 28)" by (rule mult_le_mono [rotated])
    also have "\<dots> < U64_SIZE" by simp
    finally show ?thesis using truncate_view [OF marked(1) meta(2), of ?n "rh_page_size h"] t True marked(2) meta(1) ps by simp
  qed (use t marked in auto)
  have rest: "(r, ctx') = (case (tr, dc1) of
           (Inl e, dc) \<Rightarrow> (Inl e, ctx\<lparr>rx_cache := dc\<rparr>)
         | (Inr _, dc) \<Rightarrow>
             let dc = snd (bump_generation dc);
                 ctx = ctx\<lparr>rx_cache := dc, rx_manifest := post_manifest (re_tree_iter env) (rx_manifest ctx0) h, rx_page_count := ?n,
                           rx_pending := rx_pending ctx @ [\<lparr>pf_staging_path = path, pf_version = ver,
                             pf_page_size = rh_page_size h\<rparr>]\<rparr>
             in case persist_bitmap (re_chunk_iter env) (re_serde env) (re_persist_fault env) dc (rx_local ctx) of
                  (Inl e, fl) \<Rightarrow> (Inl e, ctx\<lparr>rx_local := fl\<rparr>)
                | (Inr _, fl) \<Rightarrow> (Inr \<lparr>fr_installed = set (map fst (rh_staged h)), fr_page_count = ?n\<rparr>, ctx\<lparr>rx_local := fl\<rparr>))"
  proof -
    have "rx_manifest ctx = rx_manifest ctx0" using same(1) by (simp add: replay_untouched_def)
    then show ?thesis using run [symmetric] unfolding publish_replay_def Let_def dc_def [symmetric] by (simp only: t)
  qed
  show ?thesis
  proof (cases tr)
    case (Inl e)
    then have "?n < ?old" using t by (auto split: if_splits)
    moreover have "r = Inl e \<and> ctx' = ctx\<lparr>rx_cache := dc1\<rparr>" using rest Inl by simp
    ultimately have "\<not> is_ok r \<and> exposed env h ctx0 ctx'" using cut same Inl unfolding exposed_def by (auto simp: replay_untouched_def log_holds_def)
    then show ?thesis ..
  next
    case (Inr u)
    obtain fl where "ctx' = ctx\<lparr>rx_cache := snd (bump_generation dc1), rx_manifest := post_manifest (re_tree_iter env) (rx_manifest ctx0) h, rx_page_count := ?n,
        rx_pending := rx_pending ctx @ [\<lparr>pf_staging_path = path, pf_version = ver, pf_page_size = rh_page_size h\<rparr>], rx_local := fl\<rparr>"
      using rest Inr by (auto simp: Let_def split: prod.splits sum.splits)
    then have "installed env h ctx0 ctx'" using cut same Inr by (simp add: installed_def replay_untouched_def log_holds_def bump_view)
    then show ?thesis ..
  qed
qed

text \<open>A compressed cache refuses the first page.\<close>

lemma compressed_refuses:
  assumes "dc_compression dc" "staged \<noteq> []"
  shows "\<exists>msg. install_staged C fw ps staged [] [] dc = (Inl ([], msg), dc)"
proof -
  obtain p data rest where s: "staged = (p, data) # rest" using assms(2) by (metis list.exhaust surj_pair)
  obtain e where "write_page_no_visibility C (fw p) p data dc = (Inl e, dc)"
    using assms(1) by (cases "dc_tainted dc") (simp_all add: write_page_no_visibility_def check_tainted_def write_page_no_visibility_inner_def)
  then show ?thesis by (auto simp: s split: sum.split)
qed

lemma commit_outcome:
  assumes codec: "cache_codec (re_codec env)" "\<And>p. length (re_fw env p) = 12" "\<And>p. length (re_rb env p) = 12"
    and wf: "replay_wf h" "rh_page_size h = dc_page_size (rx_cache ctx0)"
    and inv: "cache_inv (re_codec env) (rx_cache ctx0)" "whole_faults (dc_disk (rx_cache ctx0))" "\<not> dc_compression (rx_cache ctx0) \<or> rh_staged h \<noteq> []"
    and shrink: "page_count (rx_manifest ctx0) \<le> replay_page_count (rx_manifest ctx0) h \<or> replay_page_count (rx_manifest ctx0) h \<le> U32_SIZE"
    and same: "replay_untouched ctx0 ctx" "rx_cache ctx = rx_cache ctx0" "log_holds h path ctx"
    and inst: "install_staged (re_codec env) (re_fw env) (rh_page_size h) (rh_staged h) [] [] (rx_cache ctx) = (res, dc)"
  shows "res = Inl (images, msg) \<Longrightarrow>
      handle_commit_phase_failure env images path msg (ctx\<lparr>rx_cache := dc\<rparr>) = (e, ctx')
      \<Longrightarrow> rolled_back (re_codec env) ctx0 ctx' \<or> fenced (re_codec env) h ctx0 ctx'"
    and "res = Inr written \<Longrightarrow>
      publish_replay env (post_manifest (re_tree_iter env) (rx_manifest ctx0) h) ver path h written (ctx\<lparr>rx_cache := dc\<rparr>) = (r, ctx')
      \<Longrightarrow> installed env h ctx0 ctx' \<or> \<not> is_ok r \<and> exposed env h ctx0 ctx'"
proof -
  let ?C = "re_codec env" and ?dc0 = "rx_cache ctx0"
  have same': "replay_untouched ctx0 (ctx\<lparr>rx_cache := dc\<rparr>)" "log_holds h path (ctx\<lparr>rx_cache := dc\<rparr>)"
    using same by (simp_all add: replay_untouched_def log_holds_def)
  have sok: "staged_ok ?dc0 (rh_staged h)" by (rule wf_staged_ok [OF wf(1) inv(1) wf(2)])
  have refused: "\<exists>msg. res = Inl ([], msg) \<and> dc = ?dc0" if "dc_compression ?dc0"
    using compressed_refuses [OF that, of "rh_staged h" ?C "re_fw env" "rh_page_size h"] inv(3) that inst same(2) by auto
  have spec: "case res of
      Inr written' \<Rightarrow> written' = map fst (rh_staged h) \<and> rewrote ?C (set written') ?dc0 dc \<and> (\<forall>(p, data) \<in> set (rh_staged h). stored ?C dc p data)
    | Inl (images', _) \<Rightarrow> \<exists>W. rewrote ?C W ?dc0 dc \<and> images_for ?C ?dc0 W images' \<and> W \<subseteq> fst ` set (rh_staged h)" if plain: "\<not> dc_compression ?dc0"
  proof -
    have start: "rewrote ?C (set []) ?dc0 ?dc0" using rewrote_refl [OF raw_ok_inv [OF inv(1,2) plain]] by simp
    have im0: "images_for ?C ?dc0 (set []) []" by (simp add: images_for_def)
    have run: "install_staged ?C (re_fw env) (dc_page_size ?dc0) (rh_staged h) [] [] ?dc0 = (res, dc)"
      using inst same(2) wf(2) by simp
    show ?thesis using install_staged_spec [OF codec(1,2) inv(1) run start im0 sok wf_distinct [OF wf(1)]] by (auto split: sum.splits)
  qed
  show "installed env h ctx0 ctx' \<or> \<not> is_ok r \<and> exposed env h ctx0 ctx'" if "res = Inr written"
    "publish_replay env (post_manifest (re_tree_iter env) (rx_manifest ctx0) h) ver path h written (ctx\<lparr>rx_cache := dc\<rparr>) = (r, ctx')"
  proof -
    have "\<not> dc_compression ?dc0" using refused that(1) by auto
    then have w: "written = map fst (rh_staged h)" "rewrote ?C (set written) ?dc0 dc" "\<forall>(p, data) \<in> set (rh_staged h). stored ?C dc p data"
      using spec that(1) by auto
    show ?thesis using publish_outcome [OF that(2) inv(1) _ _ w(1) wf_distinct [OF wf(1)] wf(2) shrink same'] w(2,3) by simp
  qed
  show "rolled_back ?C ctx0 ctx' \<or> fenced ?C h ctx0 ctx'" if res: "res = Inl (images, msg)"
    and fail: "handle_commit_phase_failure env images path msg (ctx\<lparr>rx_cache := dc\<rparr>) = (e, ctx')"
  proof (cases "dc_compression ?dc0")
    case True
    then have "images = []" "dc = ?dc0" using refused res by auto
    then have "rx_cache ctx' = ?dc0" "replay_untouched ctx0 ctx'"
      using fail same(1) by (auto simp: handle_commit_phase_failure_def rollback_pre_images_def replay_untouched_def)
    then show ?thesis using inv(1) by (simp add: rolled_back_def)
  next
    case False
    then obtain W where W: "rewrote ?C W ?dc0 dc" "images_for ?C ?dc0 W images" "W \<subseteq> fst ` set (rh_staged h)"
      using spec res by auto
    have "slot_fits ?dc0 p \<and> length old = dc_page_size ?dc0" if im: "(p, old) \<in> set images" for p old
    proof -
      have "p \<in> fst ` set (rh_staged h)" using W(2,3) im by (force simp: images_for_def)
      moreover have "stored ?C ?dc0 p old" using W(2) im by (auto simp: images_for_def)
      ultimately show ?thesis using sok by (auto simp: staged_ok_def stored_def)
    qed
    then have "staged_ok ?dc0 images" by (auto simp: staged_ok_def)
    from failure_outcome [OF codec(1,3) inv(1) _ W(2) this same' fail] W(1) show ?thesis by simp
  qed
qed

text \<open>The commit phase: the staging log is written, the pages are installed, the manifest is published.\<close>

lemma finalize_commits:
  assumes codec: "cache_codec (re_codec env)" "\<And>p. length (re_fw env p) = 12" "\<And>p. length (re_rb env p) = 12"
    and wf: "replay_wf h" "rh_page_size h = dc_page_size (rx_cache ctx)" "is_valid_page_size (rh_page_size h)"
    and inv: "cache_inv (re_codec env) (rx_cache ctx)" "whole_faults (dc_disk (rx_cache ctx))" "\<not> dc_compression (rx_cache ctx) \<or> rh_staged h \<noteq> []"
    and shrink: "page_count (rx_manifest ctx) \<le> replay_page_count (rx_manifest ctx) h \<or> replay_page_count (rx_manifest ctx) h \<le> U32_SIZE"
    and go: "\<not> rh_consumed h" "\<not> replay_page_count (rx_manifest ctx) h < rh_max_id h" "\<not> (rh_staged h = [] \<and> replay_page_count (rx_manifest ctx) h = page_count (rx_manifest ctx))"
    and run: "finalize_inner env h ctx = (r, ctx')"
  shows "case r of
      Inr _ \<Rightarrow> installed env h ctx ctx'
    | Inl _ \<Rightarrow> rolled_back (re_codec env) ctx ctx' \<or> fenced (re_codec env) h ctx ctx' \<or> installed env h ctx ctx' \<or> exposed env h ctx ctx'"
proof -
  let ?post = "post_manifest (re_tree_iter env) (rx_manifest ctx) h" and ?C = "re_codec env"
  let ?ctx1 = "ctx\<lparr>rx_staging_seq := (rx_staging_seq ctx + 1) mod U64_SIZE\<rparr>"
  obtain lr ctx2 where log: "write_staging_log env ?post (rx_staging_seq ctx) h ?ctx1 = (lr, ctx2)" by force
  have u2: "replay_untouched ctx ctx2" "rx_cache ctx2 = rx_cache ctx"
    using log by (auto simp: write_staging_log_def Let_def replay_untouched_def split: option.splits sum.splits)
  have step: "finalize_inner env h ctx = (case (lr, ctx2) of (Inl e, c0) \<Rightarrow> (Inl e, c0)
    | (Inr log_path, c0) \<Rightarrow> let c = c0\<lparr>rx_epoch := (rx_epoch c0 + 1) mod U64_SIZE\<rparr> in
        (case install_staged ?C (re_fw env) (rh_page_size h) (rh_staged h) [] [] (rx_cache c) of
           (Inl (images, msg), dc) \<Rightarrow>
             (case handle_commit_phase_failure env images log_path msg (c\<lparr>rx_cache := dc\<rparr>) of (e, c) \<Rightarrow> (Inl e, c))
         | (Inr written, dc) \<Rightarrow> publish_replay env ?post (rx_staging_seq ctx) log_path h written (c\<lparr>rx_cache := dc\<rparr>)))"
    by (simp only: finalize_inner_def check_not_consumed_def Let_def if_not_P [OF go(1)] if_not_P [OF go(2)] if_not_P [OF go(3)] sum.case log)
  show ?thesis
  proof (cases lr)
    case (Inl e)
    then show ?thesis using run step u2 inv(1) by (auto simp: rolled_back_def)
  next
    case (Inr path)
    let ?c = "ctx2\<lparr>rx_epoch := (rx_epoch ctx2 + 1) mod U64_SIZE\<rparr>"
    have "log_holds h path ctx2" using log Inr staged_log_read [OF wf(1,3)]
      by (auto simp: write_staging_log_def Let_def log_holds_def split: option.splits sum.splits)
    then have c: "replay_untouched ctx ?c" "rx_cache ?c = rx_cache ctx" "log_holds h path ?c"
      using u2 by (simp_all add: replay_untouched_def log_holds_def)
    obtain res dc where inst: "install_staged ?C (re_fw env) (rh_page_size h) (rh_staged h) [] [] (rx_cache ?c) = (res, dc)" by force
    note out = commit_outcome [OF codec wf(1,2) inv shrink c inst]
    show ?thesis
    proof (cases res)
      case (Inl x)
      obtain images msg where x: "x = (images, msg)" by force
      obtain e c' where f: "handle_commit_phase_failure env images path msg (?c\<lparr>rx_cache := dc\<rparr>) = (e, c')" by force
      then have "(r, ctx') = (Inl e, c')" using run step \<open>lr = Inr path\<close> inst Inl x by (simp add: Let_def)
      then show ?thesis using out(1) [OF Inl [unfolded x] f] by auto
    next
      case (Inr written)
      then have "publish_replay env ?post (rx_staging_seq ctx) path h written (?c\<lparr>rx_cache := dc\<rparr>) = (r, ctx')"
        using run step \<open>lr = Inr path\<close> inst by (simp add: Let_def)
      from out(2) [OF Inr this] show ?thesis by (cases r) auto
    qed
  qed
qed

text \<open>
  C7: Finalizing a replay is atomic, unless it shrinks the database and the cache file cannot be cut. On a cache whose
  invariant holds, whatever disk errors strike and wherever they strike, provided that the write of a page either happens or
  leaves the file as it was (\<open>finalize_torn_write\<close> below shows what a torn write does), the call
  ends in one of four ways. Rolled back: manifest, page count and pending flushes are the old ones and
  readers see the pages they saw before. Fenced: a rollback write failed too, every read of the cache
  is refused, and a staging log from which every replayed page can be read back is on disk. Installed:
  readers see the old pages overlaid with all the replayed ones, up to the new end when the database shrinks, the new manifest and page count are
  published and the staging log, with every replayed page, is queued for upload. Exposed, possible only when the
  replay shrinks the database and its truncation of the cache file fails (\<open>src/src/tiered/replay.rs:701\<close>): readers
  see the replayed pages while manifest and page count are still the old ones; the staging log is on disk but not queued. It reports success only
  when the pages are installed, or when there was nothing to install. A replay that shrinks leaves at most \<open>2 ^ 32\<close> pages;
  on a compressed cache, which refuses every replayed page, it has at least one page (a bare truncation there is not covered).
\<close>

theorem finalize_atomic:
  assumes codec: "cache_codec (re_codec env)" "\<And>p. length (re_fw env p) = 12" "\<And>p. length (re_rb env p) = 12"
    and wf: "replay_wf h" "rh_page_size h = dc_page_size (rx_cache ctx)" "is_valid_page_size (rh_page_size h)"
    and inv: "cache_inv (re_codec env) (rx_cache ctx)" "whole_faults (dc_disk (rx_cache ctx))" "\<not> dc_compression (rx_cache ctx) \<or> rh_staged h \<noteq> []"
    and shrink: "page_count (rx_manifest ctx) \<le> replay_page_count (rx_manifest ctx) h \<or> replay_page_count (rx_manifest ctx) h \<le> U32_SIZE"
    and run: "finalize_inner env h ctx = (r, ctx')"
  shows "case r of
      Inr _ \<Rightarrow> installed env h ctx ctx' \<or> rh_staged h = [] \<and> ctx' = ctx
    | Inl _ \<Rightarrow> rolled_back (re_codec env) ctx ctx' \<or> fenced (re_codec env) h ctx ctx' \<or> installed env h ctx ctx' \<or> exposed env h ctx ctx'"
proof -
  have early: "rolled_back (re_codec env) ctx ctx" using inv(1) by (simp add: rolled_back_def replay_untouched_def)
  consider (refused) "rh_consumed h \<or> replay_page_count (rx_manifest ctx) h < rh_max_id h"
    | (empty) "\<not> rh_consumed h" "\<not> replay_page_count (rx_manifest ctx) h < rh_max_id h" "rh_staged h = [] \<and> replay_page_count (rx_manifest ctx) h = page_count (rx_manifest ctx)"
    | (go) "\<not> rh_consumed h" "\<not> replay_page_count (rx_manifest ctx) h < rh_max_id h" "\<not> (rh_staged h = [] \<and> replay_page_count (rx_manifest ctx) h = page_count (rx_manifest ctx))"
    by blast
  then show ?thesis
  proof cases
    case refused
    then show ?thesis using run early by (auto simp: finalize_inner_def check_not_consumed_def Let_def split: if_splits)
  next
    case empty
    then show ?thesis using run by (auto simp: finalize_inner_def check_not_consumed_def Let_def)
  next
    case go
    from finalize_commits [OF codec wf inv shrink go run] show ?thesis by (cases r) simp_all
  qed
qed

definition sample_env :: replay_env where
  "sample_env = \<lparr>re_codec = sample_codec, re_to_vec = (\<lambda>_. Inr [1]), re_log_fault = None, re_removed = True, re_partial = None, re_fw = (\<lambda>_. zeros 12), re_rb = (\<lambda>_. zeros 12),
     re_serde = \<lparr>sd_to_vec = (\<lambda>_. None), sd_from_slice = (\<lambda>_. None)\<rparr>, re_persist_fault = NoFault,
     re_tree_iter = sorted_list_of_set, re_page_iter = sorted_list_of_set, re_chunk_iter = sorted_list_of_set\<rparr>"

definition sample_context :: "disk_cache \<Rightarrow> replay_context" where
  "sample_context dc = \<lparr>rx_cache = dc, rx_manifest = empty_manifest, rx_page_count = 0, rx_pending = [], rx_staging_seq = 5,
     rx_epoch = 0, rx_staging_dir = ''d'', rx_logs = Map.empty, rx_local = None\<rparr>"

definition sample_handle :: "(nat \<times> bytes) list \<Rightarrow> nat \<Rightarrow> nat \<Rightarrow> replay_handle" where
  "sample_handle staged max_id ps = \<lparr>rh_staged = staged, rh_target = None, rh_max_id = max_id, rh_committed = [], rh_expected_next = 1,
     rh_page_size = ps, rh_consumed = False\<rparr>"

text \<open>The second page of the replay cannot be written.\<close>

definition failing_cache :: disk_cache where
  "failing_cache = (sample_cache False [] {} [])\<lparr>dc_page_size := 512,
     dc_disk := \<lparr>dk_file = [], dk_fault = (\<lambda>n. if n = 3 then Some (Io Other ''disk'', 0) else None), dk_ops = 0\<rparr>\<rparr>"

theorem finalize_atomic_witness:
  "case fst (finalize_inner sample_env (sample_handle [(0, zeros 512), (3, zeros 512)] 4 512) (sample_context failing_cache)) of
      Inr _ \<Rightarrow> installed sample_env (sample_handle [(0, zeros 512), (3, zeros 512)] 4 512) (sample_context failing_cache)
          (snd (finalize_inner sample_env (sample_handle [(0, zeros 512), (3, zeros 512)] 4 512) (sample_context failing_cache)))
        \<or> rh_staged (sample_handle [(0, zeros 512), (3, zeros 512)] 4 512) = []
          \<and> snd (finalize_inner sample_env (sample_handle [(0, zeros 512), (3, zeros 512)] 4 512) (sample_context failing_cache)) = sample_context failing_cache
    | Inl _ \<Rightarrow> rolled_back (re_codec sample_env) (sample_context failing_cache)
          (snd (finalize_inner sample_env (sample_handle [(0, zeros 512), (3, zeros 512)] 4 512) (sample_context failing_cache)))
        \<or> fenced (re_codec sample_env) (sample_handle [(0, zeros 512), (3, zeros 512)] 4 512) (sample_context failing_cache)
          (snd (finalize_inner sample_env (sample_handle [(0, zeros 512), (3, zeros 512)] 4 512) (sample_context failing_cache)))
        \<or> installed sample_env (sample_handle [(0, zeros 512), (3, zeros 512)] 4 512) (sample_context failing_cache)
          (snd (finalize_inner sample_env (sample_handle [(0, zeros 512), (3, zeros 512)] 4 512) (sample_context failing_cache)))
        \<or> exposed sample_env (sample_handle [(0, zeros 512), (3, zeros 512)] 4 512) (sample_context failing_cache)
          (snd (finalize_inner sample_env (sample_handle [(0, zeros 512), (3, zeros 512)] 4 512) (sample_context failing_cache)))"
proof (rule finalize_atomic)
  show "cache_codec (re_codec sample_env)" "length (re_fw sample_env p) = 12" "length (re_rb sample_env p) = 12" for p
    by (simp_all add: sample_env_def sample_cache_codec)
  show "replay_wf (sample_handle [(0, zeros 512), (3, zeros 512)] 4 512)" by (simp add: replay_wf_def sample_handle_def)
  show "is_valid_page_size (rh_page_size (sample_handle [(0, zeros 512), (3, zeros 512)] 4 512))"
    by (simp add: sample_handle_def valid_page_size_512)
  show "cache_inv (re_codec sample_env) (rx_cache (sample_context failing_cache))"
    by (simp add: cache_inv_def sample_context_def failing_cache_def sample_cache_def index_ok_def empty_index_def index_in_file_def
        mem_hit_def dc_is_present_def no_bits)
  show "page_count (rx_manifest (sample_context failing_cache))
      \<le> replay_page_count (rx_manifest (sample_context failing_cache)) (sample_handle [(0, zeros 512), (3, zeros 512)] 4 512)
    \<or> replay_page_count (rx_manifest (sample_context failing_cache)) (sample_handle [(0, zeros 512), (3, zeros 512)] 4 512) \<le> U32_SIZE"
    by (simp add: sample_context_def empty_manifest_def)
qed (simp_all add: sample_context_def sample_handle_def failing_cache_def sample_cache_def whole_faults_def)

text \<open>
  Without the assumption on the disk the claim fails: when the write of a page that readers can see is
  cut after two of its four bytes, \<open>finalize\<close> reports a consistent cache, drops the staging log and
  leaves a page that is neither the old nor the new one. The pre-image of the failing page was read but
  is not among those restored.
\<close>

definition torn_cache :: disk_cache where
  "torn_cache = two_page_cache\<lparr>dc_disk := (dc_disk two_page_cache)\<lparr>dk_fault := (\<lambda>n. if n = 0 then Some (Io Other ''disk'', 2) else None)\<rparr>\<rparr>"

definition torn_outcome :: disk_cache where
  "torn_outcome = torn_cache\<lparr>dc_disk := (dc_disk torn_cache)\<lparr>dk_file := [9, 9, 3, 4, 5, 6, 7, 8], dk_ops := 1\<rparr>\<rparr>"

lemma torn_reads:
  "read_page sample_codec 0 (zeros 4) torn_cache = Inr [1, 2, 3, 4]" "read_page sample_codec 0 (zeros 4) torn_outcome = Inr [9, 9, 3, 4]"
  "dc_is_present 0 torn_cache" "dc_is_present 0 torn_outcome" "dc_page_size torn_cache = 4" "dc_page_size torn_outcome = 4"
  by (simp_all add: read_page_def torn_outcome_def torn_cache_def two_page_cache_def sample_cache_def mem_hit_def read_exact_at_def
      bslice_def dc_is_present_def is_present_def)

lemma torn_install:
  "\<exists>msg. install_staged sample_codec (\<lambda>_. zeros 12) 4 [(0, [9, 9, 9, 9])] [] [] torn_cache = (Inl ([], msg), torn_outcome)"
proof -
  have "write_page_no_visibility sample_codec (zeros 12) 0 [9, 9, 9, 9] torn_cache = (Inl (Io Other ''disk''), torn_outcome)"
    by (simp add: write_page_no_visibility_def check_tainted_def write_page_no_visibility_inner_def page_frame_def write_slot_def
        slot_offset_def ensure_file_len_def on_disk_def write_all_at_def pwrite_def torn_outcome_def torn_cache_def two_page_cache_def
        sample_cache_def zeros_def)
  moreover have "pre_image sample_codec 4 0 torn_cache = Inr (Some [1, 2, 3, 4])" by (simp add: pre_image_def torn_reads)
  ultimately show ?thesis by simp
qed

lemma finalize_torn_write:
  "\<exists>e ctx. finalize_inner sample_env (sample_handle [(0, [9, 9, 9, 9])] 1 4) (sample_context torn_cache) = (Inl e, ctx)
     \<and> rx_logs ctx = Map.empty
     \<and> cache_view sample_codec torn_cache 0 = Some [1, 2, 3, 4] \<and> cache_view sample_codec (rx_cache ctx) 0 = Some [9, 9, 3, 4]"
proof -
  obtain msg where "install_staged sample_codec (\<lambda>_. zeros 12) 4 [(0, [9, 9, 9, 9])] [] [] torn_cache = (Inl ([], msg), torn_outcome)"
    using torn_install by blast
  then show ?thesis
    by (simp add: finalize_inner_def check_not_consumed_def Let_def replay_page_count_def sample_env_def sample_handle_def sample_context_def
        write_staging_log_def handle_commit_phase_failure_def rollback_pre_images_def cache_view_def read_page_if_present_def torn_reads
        empty_manifest_def del: install_staged.simps)
qed

end
