(* ===== verification/Storage.thy ===== *)
theory Storage
  imports Manifest Local_State
begin

text \<open>
  Object storage (\<open>src/src/tiered/storage.rs\<close>): the typed wrappers around the backend
  trait. The backend itself is outside the repository: its state is a map from keys to objects, and
  \<open>bk_fault\<close> says which calls fail and, for a batch, which of its keys were reached before the
  error. \<open>from_slice\<close> and \<open>to_vec\<close> are the manifest's serialisation.
\<close>

record backend =
  bk_objects :: "string \<rightharpoonup> bytes"
  bk_fault :: "nat \<Rightarrow> (io_error \<times> (string \<Rightarrow> bool)) option"
  bk_ops :: nat

record manifest_serde =
  ms_to_vec :: "manifest \<Rightarrow> bytes option"
  ms_from_slice :: "bytes \<Rightarrow> manifest option"

type_synonym 'a store_op = "backend \<Rightarrow> 'a io_result \<times> backend"

definition tick :: "backend \<Rightarrow> backend" where
  "tick b = b\<lparr>bk_ops := bk_ops b + 1\<rparr>"

definition put_all :: "(string \<times> bytes) list \<Rightarrow> (string \<rightharpoonup> bytes) \<Rightarrow> (string \<rightharpoonup> bytes)" where
  "put_all uploads objs = fold (\<lambda>(k, v) m. m(k \<mapsto> v)) uploads objs"

definition delete_all :: "string list \<Rightarrow> (string \<rightharpoonup> bytes) \<Rightarrow> (string \<rightharpoonup> bytes)" where
  "delete_all ks objs = fold (\<lambda>k m. m(k := None)) ks objs"

definition get_page_group :: "string \<Rightarrow> bytes option store_op" where
  "get_page_group key b =
     (case bk_fault b (bk_ops b) of
        Some (e, _) \<Rightarrow> (Inl (Io Other (''storage get '' @ key)), tick b)
      | None \<Rightarrow> (Inr (bk_objects b key), tick b))"

definition put_page_groups :: "(string \<times> bytes) list \<Rightarrow> unit store_op" where
  "put_page_groups uploads b =
     (if uploads = [] then (Inr (), b)
      else case bk_fault b (bk_ops b) of
        Some (e, reached) \<Rightarrow>
          (Inl (Io Other ''storage put_many''),
           tick (b\<lparr>bk_objects := put_all (filter (\<lambda>(k, _). reached k) uploads) (bk_objects b)\<rparr>))
      | None \<Rightarrow> (Inr (), tick (b\<lparr>bk_objects := put_all uploads (bk_objects b)\<rparr>)))"

definition put_object :: "string \<Rightarrow> bytes \<Rightarrow> unit store_op" where
  "put_object key data b =
     (case bk_fault b (bk_ops b) of
        Some (e, reached) \<Rightarrow>
          (Inl (Io Other (''storage put '' @ key)),
           tick (if reached key then b\<lparr>bk_objects := (bk_objects b)(key \<mapsto> data)\<rparr> else b))
      | None \<Rightarrow> (Inr (), tick (b\<lparr>bk_objects := (bk_objects b)(key \<mapsto> data)\<rparr>)))"

definition delete_objects :: "string list \<Rightarrow> nat store_op" where
  "delete_objects ks b =
     (if ks = [] then (Inr 0, b)
      else case bk_fault b (bk_ops b) of
        Some (e, reached) \<Rightarrow>
          (Inl (Io Other ''storage delete_many''), tick (b\<lparr>bk_objects := delete_all (filter reached ks) (bk_objects b)\<rparr>))
      | None \<Rightarrow> (Inr (length ks), tick (b\<lparr>bk_objects := delete_all ks (bk_objects b)\<rparr>)))"

definition validate_range_get_result :: "nat \<Rightarrow> bytes option \<Rightarrow> bytes option io_result" where
  "validate_range_get_result len result =
     (case result of
        Some data \<Rightarrow> if length data \<noteq> len
          then Inl (Io InvalidData ''storage range_get returned a wrong number of bytes for requested exact range'')
          else Inr result
      | None \<Rightarrow> Inr result)"

text \<open>The backend's answer to a range request is an argument: its contract leaves short answers open.\<close>

definition range_get :: "bytes option io_result \<Rightarrow> nat \<Rightarrow> bytes option io_result" where
  "range_get answer len =
     (case answer of Inl e \<Rightarrow> Inl (Io Other ''storage range_get'')
      | Inr result \<Rightarrow> validate_range_get_result len result)"

fun get_page_groups_by_key :: "string list \<Rightarrow> (string \<rightharpoonup> bytes) \<Rightarrow> (string \<rightharpoonup> bytes) store_op" where
  "get_page_groups_by_key [] out b = (Inr out, b)"
| "get_page_groups_by_key (k # ks) out b =
     and_then (get_page_group k b) (\<lambda>r b.
       get_page_groups_by_key ks (case r of Some data \<Rightarrow> out(k \<mapsto> data) | None \<Rightarrow> out) b)"

definition storage_get_manifest :: "(nat set \<Rightarrow> nat list) \<Rightarrow> manifest_serde \<Rightarrow> manifest option store_op" where
  "storage_get_manifest iter sd b =
     and_then (get_page_group MANIFEST_KEY b) (\<lambda>r b.
       case r of
         None \<Rightarrow> (Inr None, b)
       | Some data \<Rightarrow>
           (case decode_manifest_bytes (ms_from_slice sd) data of
              Inl e \<Rightarrow> (Inl e, b)
            | Inr m \<Rightarrow> (Inr (Some (detect_and_normalize_strategy iter m)), b)))"

definition put_manifest :: "(nat set \<Rightarrow> nat list) \<Rightarrow> manifest_serde \<Rightarrow> manifest \<Rightarrow> unit store_op" where
  "put_manifest iter sd m b =
     (case storage_get_manifest iter sd b of
        (Inl e, b) \<Rightarrow> (Inl (Io Other ''manifest version check failed: cannot read remote manifest''), b)
      | (Inr remote, b) \<Rightarrow>
          if \<exists>r. remote = Some r \<and> version m \<le> version r then (Inl (Io Other ''manifest CAS conflict''), b)
          else case ms_to_vec sd m of
            None \<Rightarrow> (Inl (Io Other ''encode manifest''), b)
          | Some data \<Rightarrow> put_object MANIFEST_KEY data b)"

definition LIST_LIMIT :: nat where
  "LIST_LIMIT = 10000000"

text \<open>
  Listing pages through the backend's cursor: \<open>list after\<close> is the backend's next batch. The limit
  on the collected keys is what makes the loop end on a backend that always has one more. The objects do not change while they are listed.
\<close>

function list_loop :: "(string option \<Rightarrow> string list io_result) \<Rightarrow> string option \<Rightarrow> string list \<Rightarrow> string list io_result" where
  "list_loop list_fn after out =
     (case list_fn after of
        Inl e \<Rightarrow> Inl (Io Other ''storage list'')
      | Inr batch \<Rightarrow>
          if batch = [] then Inr out
          else if LIST_LIMIT < length (out @ batch) then Inl (Io Other ''list overran 10M keys'')
          else list_loop list_fn (Some (last batch)) (out @ batch))"
  by pat_completeness auto
termination
  by (relation "measure (\<lambda>(list_fn, after, out). LIST_LIMIT - length out)") (auto simp: length_greater_0_conv [symmetric] simp del: length_greater_0_conv)

declare list_loop.simps [simp del]

definition list_all_keys_with_prefix :: "(string \<Rightarrow> string option \<Rightarrow> string list io_result) \<Rightarrow> string \<Rightarrow> string list io_result" where
  "list_all_keys_with_prefix list_fn prefix = list_loop (list_fn prefix) None []"

definition persist_manifest_local :: "serde \<Rightarrow> write_fault \<Rightarrow> manifest \<Rightarrow> bytes option \<Rightarrow> unit io_result \<times> bytes option" where
  "persist_manifest_local sd fault m file = update_state sd fault (\<lambda>st. st\<lparr>ls_manifest := Some m\<rparr>) file"

definition load_manifest_local :: "serde \<Rightarrow> bytes option \<Rightarrow> manifest option io_result" where
  "load_manifest_local sd file = bind_result (load_state sd file) (\<lambda>st. Inr (Option.bind st ls_manifest))"

definition persist_dirty_groups :: "serde \<Rightarrow> write_fault \<Rightarrow> nat list \<Rightarrow> bytes option \<Rightarrow> unit io_result \<times> bytes option" where
  "persist_dirty_groups sd fault dirty file = update_state sd fault (\<lambda>st. st\<lparr>ls_dirty_groups := Some dirty\<rparr>) file"

definition load_dirty_groups :: "serde \<Rightarrow> bytes option \<Rightarrow> nat list io_result" where
  "load_dirty_groups sd file =
     bind_result (load_state sd file) (\<lambda>st. Inr (case Option.bind st ls_dirty_groups of Some d \<Rightarrow> d | None \<Rightarrow> []))"

subsection \<open>Objects\<close>

lemma put_all_other: "k \<notin> fst ` set uploads \<Longrightarrow> put_all uploads objs k = objs k"
  by (induction uploads arbitrary: objs) (auto simp: put_all_def)

lemma put_all_lookup: "distinct (map fst uploads) \<Longrightarrow> (k, v) \<in> set uploads \<Longrightarrow> put_all uploads objs k = Some v"
proof (induction uploads arbitrary: objs)
  case (Cons u us)
  have step: "put_all (u # us) objs = put_all us (objs(fst u \<mapsto> snd u))" by (simp add: put_all_def case_prod_beta)
  show ?case
  proof (cases "(k, v) = u")
    case True
    then show ?thesis using Cons.prems(1) by (auto simp: step put_all_other)
  next
    case False
    then show ?thesis using Cons by (auto simp: step)
  qed
qed simp

lemma delete_all_lookup: "delete_all ks objs k = (if k \<in> set ks then None else objs k)"
  by (induction ks arbitrary: objs) (auto simp: delete_all_def)

text \<open>A batch of puts stores some of its objects, all of them when it succeeds.\<close>

lemma put_page_groups_objects:
  assumes "put_page_groups ups b = (r, b')"
  shows "\<exists>us. set us \<subseteq> set ups \<and> bk_objects b' = put_all us (bk_objects b) \<and> (is_ok r \<longrightarrow> us = ups)"
proof (cases "ups = [] \<or> bk_fault b (bk_ops b) = None")
  case True
  then have "bk_objects b' = put_all ups (bk_objects b)"
    using assms by (auto simp: put_page_groups_def tick_def put_all_def split: if_splits)
  then show ?thesis by blast
next
  case False
  then obtain e reached where "bk_fault b (bk_ops b) = Some (e, reached)" by auto
  then have "\<not> is_ok r" "bk_objects b' = put_all (filter (\<lambda>(k, _). reached k) ups) (bk_objects b)"
    using assms False by (auto simp: put_page_groups_def tick_def)
  then show ?thesis by (metis filter_is_subset)
qed

subsection \<open>Listing\<close>

text \<open>
  What the listing relies on of the backend: with a cursor it answers with some of the keys after it, in
  the backend's order, and with none only when there are none left.
\<close>

definition keys_after :: "string list \<Rightarrow> string option \<Rightarrow> string list" where
  "keys_after ks after = (case after of None \<Rightarrow> ks | Some k \<Rightarrow> tl (dropWhile (\<lambda>x. x \<noteq> k) ks))"

definition paged_listing :: "string list \<Rightarrow> (string option \<Rightarrow> string list io_result) \<Rightarrow> bool" where
  "paged_listing ks list_fn \<longleftrightarrow> (\<forall>after. \<exists>n > 0. list_fn after = Inr (take n (keys_after ks after)))"

lemma keys_after_last: "distinct (out @ rest) \<Longrightarrow> out \<noteq> [] \<Longrightarrow> keys_after (out @ rest) (Some (last out)) = rest"
proof (induction out)
  case (Cons k out)
  then show ?case by (cases "out = []") (auto simp: keys_after_def)
qed simp

lemma list_loop_all:
  assumes "paged_listing (out @ rest) list_fn" "distinct (out @ rest)" "length (out @ rest) \<le> LIST_LIMIT"
    and "after = (if out = [] then None else Some (last out))"
  shows "list_loop list_fn after out = Inr (out @ rest)"
  using assms
proof (induction "length rest" arbitrary: out rest after rule: less_induct)
  case less
  have "keys_after (out @ rest) after = rest" using keys_after_last [OF less.prems(2)] less.prems(4) by (simp add: keys_after_def)
  then obtain n where n: "0 < n" "list_fn after = Inr (take n rest)" using less.prems(1) unfolding paged_listing_def by metis
  show ?case
  proof (cases "rest = []")
    case True
    then show ?thesis using n by (simp add: list_loop.simps [of list_fn after])
  next
    case False
    have "length (out @ take n rest) \<le> LIST_LIMIT" using less.prems(3) by simp
    then have "list_loop list_fn after out = list_loop list_fn (Some (last (take n rest))) (out @ take n rest)"
      using n False by (simp add: list_loop.simps [of list_fn after])
    also have "\<dots> = Inr ((out @ take n rest) @ drop n rest)"
      by (rule less.hyps) (use n(1) False less.prems in \<open>simp_all\<close>)
    finally show ?thesis by simp
  qed
qed

lemma list_loop_bounded: "length out \<le> LIST_LIMIT \<Longrightarrow> list_loop list_fn after out = Inr ks \<Longrightarrow> length ks \<le> LIST_LIMIT"
  by (induction list_fn after out rule: list_loop.induct)
    (subst (asm) (2) list_loop.simps, auto split: sum.splits if_splits)

text \<open>
  C36: Listing ends. On every backend, even one that always has one more key, the paging loop returns: an
  error, or at most ten million keys. On a backend that pages through its keys, in batches of any size, it
  returns exactly those keys in order, however the backend splits them.
\<close>

theorem listing_ends_with_all_keys:
  "(\<forall>list_fn prefix. case list_all_keys_with_prefix list_fn prefix of Inl e \<Rightarrow> True | Inr ks \<Rightarrow> length ks \<le> LIST_LIMIT)
    \<and> (\<forall>list_fn prefix ks. paged_listing ks (list_fn prefix) \<and> distinct ks \<and> length ks \<le> LIST_LIMIT
         \<longrightarrow> list_all_keys_with_prefix list_fn prefix = Inr ks)"
  using list_loop_bounded [of "[]"] list_loop_all [of "[]"] by (auto simp: list_all_keys_with_prefix_def split: sum.splits)

text \<open>A backend that hands out one key at a time.\<close>

definition one_by_one :: "string \<Rightarrow> string option \<Rightarrow> string list io_result" where
  "one_by_one prefix after = Inr (take 1 (keys_after [prefix @ ''a'', prefix @ ''b''] after))"

theorem listing_ends_with_all_keys_witness: "list_all_keys_with_prefix one_by_one ''p/'' = Inr [''p/a'', ''p/b'']"
proof -
  have "paged_listing [''p/a'', ''p/b''] (one_by_one ''p/'')" unfolding paged_listing_def one_by_one_def by (intro allI exI [of _ 1]) simp
  then show ?thesis using listing_ends_with_all_keys by (auto simp: LIST_LIMIT_def)
qed

end
