(* ===== verification/Overrides.thy ===== *)
theory Overrides
  imports Storage Encoding
begin

text \<open>
  Page groups in object storage: the base object of a group with the override frames laid over it.
  \<open>fetch_existing_group_pages\<close> of \<open>src/src/tiered/flush.rs\<close> reads a base object;
  \<open>compact_override_group\<close> and \<open>compact_overrides_inner\<close> of \<open>src/src/tiered/compact.rs\<close> fold
  the overrides of a group into a new base object. \<open>remote_page\<close> is what a reader of the manifest
  gets for a position of a group, the specification both are measured against.
\<close>

subsection \<open>Base objects\<close>

definition has_frame_table :: "manifest \<Rightarrow> nat \<Rightarrow> bool" where
  "has_frame_table m gid \<longleftrightarrow> 0 < sub_pages_per_frame m \<and> (case get (frame_tables m) gid of Some ft \<Rightarrow> ft \<noteq> [] | None \<Rightarrow> False)"

definition seekable_bulk :: "codec \<Rightarrow> bytes option \<Rightarrow> manifest \<Rightarrow> nat \<Rightarrow> nat \<Rightarrow> bytes \<Rightarrow> bytes io_result" where
  "seekable_bulk C key m gid n data =
     bind_result (decode_page_group_seekable_full C data (frame_tables m ! gid) (page_size m) (n mod U32_SIZE) (page_count m) 0
       (aad_page_group gid) key) (\<lambda>(_, _, bulk). Inr bulk)"

definition plain_pages :: "codec \<Rightarrow> bytes option \<Rightarrow> nat \<Rightarrow> bytes \<Rightarrow> bytes list io_result" where
  "plain_pages C key gid data = bind_result (decode_page_group C data (aad_page_group gid) key) (\<lambda>(_, _, pages). Inr pages)"

definition fetch_existing_group_pages ::
  "codec \<Rightarrow> bytes option \<Rightarrow> nat \<Rightarrow> manifest \<Rightarrow> nat list \<Rightarrow> bytes list option store_op" where
  "fetch_existing_group_pages C key gid m pages_in_group b =
     (case get (page_group_keys m) gid of
        None \<Rightarrow> (Inr None, b)
      | Some existing_key \<Rightarrow>
          if existing_key = [] then (Inr None, b)
          else and_then (get_page_group existing_key b) (\<lambda>r b.
            case r of
              None \<Rightarrow> (Inr None, b)
            | Some pg_data \<Rightarrow>
                let n = length pages_in_group; ps = page_size m in
                if has_frame_table m gid then
                  (case seekable_bulk C key m gid n pg_data of
                     Inl e \<Rightarrow> (Inl e, b)
                   | Inr bulk \<Rightarrow>
                       if length bulk < n * ps then (Inl (Io Other ''flush: seekable group frame is short''), b)
                       else (Inr (Some (map (\<lambda>j. bslice (j * ps) ps bulk) [0..<n])), b))
                else
                  (case plain_pages C key gid pg_data of
                     Inl e \<Rightarrow> (Inl e, b)
                   | Inr pages \<Rightarrow> (Inr (Some pages), b))))"

subsection \<open>What a reader gets\<close>

definition base_page :: "codec \<Rightarrow> bytes option \<Rightarrow> manifest \<Rightarrow> (string \<rightharpoonup> bytes) \<Rightarrow> nat \<Rightarrow> nat \<Rightarrow> bytes option" where
  "base_page C key m objs gid pos =
     (case get (page_group_keys m) gid of
        None \<Rightarrow> None
      | Some k \<Rightarrow>
          (case objs k of
             None \<Rightarrow> None
           | Some data \<Rightarrow>
               let n = length (group_page_nums m gid); ps = page_size m in
               if has_frame_table m gid then
                 (case seekable_bulk C key m gid n data of
                    Inr bulk \<Rightarrow> if (pos + 1) * ps \<le> length bulk then Some (bslice (pos * ps) ps bulk) else None
                  | Inl _ \<Rightarrow> None)
               else
                 (case plain_pages C key gid data of
                    Inr pages \<Rightarrow> get pages pos
                  | Inl _ \<Rightarrow> None)))"

definition override_at :: "manifest \<Rightarrow> nat \<Rightarrow> nat \<Rightarrow> subframe_override option" where
  "override_at m gid f = Option.bind (get (subframe_overrides m) gid) (\<lambda>ovs. ovs f)"

definition open_override :: "codec \<Rightarrow> bytes option \<Rightarrow> (string \<rightharpoonup> bytes) \<Rightarrow> nat \<Rightarrow> nat \<Rightarrow> subframe_override \<Rightarrow> bytes option" where
  "open_override C key objs gid f ov =
     (case objs (so_key ov) of
        None \<Rightarrow> None
      | Some data \<Rightarrow>
          (case decode_seekable_subchunk C data (aad_override_frame gid f) key of Inr raw \<Rightarrow> Some raw | Inl _ \<Rightarrow> None))"

definition override_frame :: "codec \<Rightarrow> bytes option \<Rightarrow> manifest \<Rightarrow> (string \<rightharpoonup> bytes) \<Rightarrow> nat \<Rightarrow> nat \<Rightarrow> bytes option" where
  "override_frame C key m objs gid f =
     Option.bind (override_at m gid f) (open_override C key objs gid f)"

definition remote_page :: "codec \<Rightarrow> bytes option \<Rightarrow> manifest \<Rightarrow> (string \<rightharpoonup> bytes) \<Rightarrow> nat \<Rightarrow> nat \<Rightarrow> bytes option" where
  "remote_page C key m objs gid pos =
     (let ps = page_size m; spf = sub_pages_per_frame m; f = pos div spf; j = pos mod spf in
      if spf = 0 \<or> override_at m gid f = None then base_page C key m objs gid pos
      else case override_frame C key m objs gid f of
        Some raw \<Rightarrow> if (j + 1) * ps \<le> length raw then Some (bslice (j * ps) ps raw) else base_page C key m objs gid pos
      | None \<Rightarrow> None)"

subsection \<open>Compacting overrides\<close>

record override_compact_result =
  ocr_gid :: nat
  ocr_new_key :: string
  ocr_new_frame_table :: "frame_entry list"
  ocr_encoded :: bytes
  ocr_replaced_keys :: "string list"

definition base_buffers :: "codec \<Rightarrow> bytes option \<Rightarrow> manifest \<Rightarrow> nat \<Rightarrow> nat \<Rightarrow> bytes \<Rightarrow> bytes option list io_result" where
  "base_buffers C key m gid n data =
     (let ps = page_size m in
      if has_frame_table m gid then
        bind_result (seekable_bulk C key m gid n data) (\<lambda>bulk.
          Inr (map (\<lambda>i. if (i + 1) * ps \<le> length bulk then Some (bslice (i * ps) ps bulk) else None) [0..<n]))
      else
        bind_result (plain_pages C key gid data) (\<lambda>pages. Inr (map (get pages) [0..<n])))"

definition overlay_frame :: "nat \<Rightarrow> nat \<Rightarrow> nat \<Rightarrow> bytes \<Rightarrow> bytes option list \<Rightarrow> bytes option list" where
  "overlay_frame ps spf f raw bufs =
     map (\<lambda>(i, buf). if f * spf \<le> i \<and> i < f * spf + spf \<and> (i - f * spf + 1) * ps \<le> length raw
                     then Some (bslice ((i - f * spf) * ps) ps raw) else buf) (List.enumerate 0 bufs)"

text \<open>The loop over the override map, in its iteration order.\<close>

fun apply_overrides ::
  "codec \<Rightarrow> bytes option \<Rightarrow> manifest \<Rightarrow> nat \<Rightarrow> (nat \<times> subframe_override) list \<Rightarrow> string list \<Rightarrow> bytes option list
     \<Rightarrow> (string list \<times> bytes option list) store_op" where
  "apply_overrides C key m gid [] replaced bufs b = (Inr (replaced, bufs), b)"
| "apply_overrides C key m gid ((f, ov) # ovs) replaced bufs b =
     and_then (get_page_group (so_key ov) b) (\<lambda>r b.
       case r of
         None \<Rightarrow> (Inl (Io NotFound ''override not found''), b)
       | Some data \<Rightarrow>
           (case decode_seekable_subchunk C data (aad_override_frame gid f) key of
              Inl e \<Rightarrow> (Inl e, b)
            | Inr raw \<Rightarrow>
                if length bufs < f * sub_pages_per_frame m then (panic ''slice index starts after its end'', b)
                else apply_overrides C key m gid ovs (replaced @ [so_key ov])
                       (overlay_frame (page_size m) (sub_pages_per_frame m) f raw bufs) b))"

definition compact_override_group ::
  "codec \<Rightarrow> (nat \<Rightarrow> bytes) \<Rightarrow> bytes option \<Rightarrow> (nat set \<Rightarrow> nat list) \<Rightarrow> nat \<Rightarrow> nat \<Rightarrow> manifest \<Rightarrow> override_compact_result store_op" where
  "compact_override_group C nonces key iter next_version gid m b =
     (let n = length (group_page_nums m gid); spf = sub_pages_per_frame m in
      case get (subframe_overrides m) gid of
        None \<Rightarrow> (Inl (Io InvalidInput ''no overrides''), b)
      | Some ovs \<Rightarrow>
          if ovs = Map.empty then (Inl (Io InvalidInput ''empty overrides''), b)
          else case get (page_group_keys m) gid of
            None \<Rightarrow> (Inl (Io NotFound ''no key''), b)
          | Some base_key \<Rightarrow>
              and_then (get_page_group base_key b) (\<lambda>r b.
                case r of
                  None \<Rightarrow> (Inl (Io NotFound ''base group not found''), b)
                | Some base_data \<Rightarrow>
                    (case base_buffers C key m gid n base_data of
                       Inl e \<Rightarrow> (Inl e, b)
                     | Inr bufs \<Rightarrow>
                         and_then (apply_overrides C key m gid (map (\<lambda>f. (f, the (ovs f))) (iter (dom ovs))) [base_key] bufs b)
                           (\<lambda>(replaced, bufs) b.
                              let new_key = page_group_key gid next_version in
                              if 0 < spf then
                                (case encode_page_group_seekable C nonces bufs (page_size m) spf (aad_page_group gid) key of
                                   Inl e \<Rightarrow> (Inl e, b)
                                 | Inr (encoded, ft) \<Rightarrow>
                                     (Inr \<lparr>ocr_gid = gid, ocr_new_key = new_key, ocr_new_frame_table = ft, ocr_encoded = encoded,
                                           ocr_replaced_keys = replaced\<rparr>, b))
                              else
                                (case encode_page_group C (nonces 0) bufs (page_size m) (aad_page_group gid) key of
                                   Inl e \<Rightarrow> (Inl e, b)
                                 | Inr encoded \<Rightarrow>
                                     (Inr \<lparr>ocr_gid = gid, ocr_new_key = new_key, ocr_new_frame_table = [], ocr_encoded = encoded,
                                           ocr_replaced_keys = replaced\<rparr>, b))))))"

definition groups_to_compact :: "manifest \<Rightarrow> nat option \<Rightarrow> nat list" where
  "groups_to_compact m threshold =
     map fst (filter (\<lambda>(_, ovs). ovs \<noteq> Map.empty \<and> (case threshold of Some t \<Rightarrow> t \<le> card (dom ovs) | None \<Rightarrow> True))
       (List.enumerate 0 (subframe_overrides m)))"

text \<open>A group that fails is reported and skipped.\<close>

fun compact_groups ::
  "codec \<Rightarrow> (nat \<Rightarrow> nat \<Rightarrow> bytes) \<Rightarrow> bytes option \<Rightarrow> (nat set \<Rightarrow> nat list) \<Rightarrow> nat \<Rightarrow> manifest \<Rightarrow> nat list
     \<Rightarrow> override_compact_result list \<Rightarrow> backend \<Rightarrow> override_compact_result list \<times> backend" where
  "compact_groups C nonces key iter v m [] rs b = (rs, b)"
| "compact_groups C nonces key iter v m (gid # gids) rs b =
     (case compact_override_group C (nonces gid) key iter v gid m b of
        (Inr r, b) \<Rightarrow> compact_groups C nonces key iter v m gids (rs @ [r]) b
      | (Inl _, b) \<Rightarrow> compact_groups C nonces key iter v m gids rs b)"

definition pad_to :: "nat \<Rightarrow> 'a \<Rightarrow> 'a list \<Rightarrow> 'a list" where
  "pad_to n d xs = xs @ replicate (n - length xs) d"

definition install_compacted :: "override_compact_result \<Rightarrow> manifest \<Rightarrow> manifest" where
  "install_compacted r m =
     (let g = ocr_gid r in
      m\<lparr>page_group_keys := (pad_to (g + 1) [] (page_group_keys m))[g := ocr_new_key r],
        frame_tables := (pad_to (g + 1) [] (frame_tables m))[g := ocr_new_frame_table r],
        subframe_overrides := (if g < length (subframe_overrides m) then (subframe_overrides m)[g := Map.empty] else subframe_overrides m)\<rparr>)"

text \<open>The shared manifest and the backend; a failed upload of the manifest leaves the new one in the shared slot.\<close>

definition compact_overrides_inner ::
  "codec \<Rightarrow> (nat \<Rightarrow> nat \<Rightarrow> bytes) \<Rightarrow> bytes option \<Rightarrow> (nat set \<Rightarrow> nat list) \<Rightarrow> (nat set \<Rightarrow> nat list) \<Rightarrow> manifest_serde \<Rightarrow> nat option
     \<Rightarrow> manifest \<times> backend \<Rightarrow> nat io_result \<times> manifest \<times> backend" where
  "compact_overrides_inner C nonces key iter titer sd threshold s =
     (case s of (m, b) \<Rightarrow>
        let gids = groups_to_compact m threshold; v = (version m + 1) mod U64_SIZE in
        if gids = [] then (Inr 0, m, b)
        else case compact_groups C nonces key iter v m gids [] b of
          (rs, b) \<Rightarrow>
            if rs = [] then (Inr 0, m, b)
            else case put_page_groups (map (\<lambda>r. (ocr_new_key r, ocr_encoded r)) rs) b of
              (Inl e, b) \<Rightarrow> (Inl e, m, b)
            | (Inr _, b) \<Rightarrow>
                let m = (fold install_compacted rs m)\<lparr>version := v\<rparr> in
                (case put_manifest titer sd m b of
                   (Inl e, b) \<Rightarrow> (Inl e, m, b)
                 | (Inr _, b) \<Rightarrow> (Inr (length rs), m, snd (delete_objects (concat (map ocr_replaced_keys rs)) b))))"

subsection \<open>Rewritten groups\<close>

text \<open>A group as the two encoders write it and the manifest then describes it.\<close>

definition encoded_group ::
  "codec \<Rightarrow> (nat \<Rightarrow> bytes) \<Rightarrow> bytes option \<Rightarrow> nat \<Rightarrow> nat \<Rightarrow> nat \<Rightarrow> bytes option list \<Rightarrow> bytes \<Rightarrow> frame_entry list \<Rightarrow> bool" where
  "encoded_group C nonces key ps spf gid pages data ft \<longleftrightarrow>
     (if 0 < spf then encode_page_group_seekable C nonces pages ps spf (aad_page_group gid) key = Inr (data, ft)
      else encode_page_group C (nonces 0) pages ps (aad_page_group gid) key = Inr data)"

definition group_limits :: "nat \<Rightarrow> nat \<Rightarrow> nat \<Rightarrow> bool" where
  "group_limits ps n pc \<longleftrightarrow> 0 < ps \<and> ps \<le> 65536 \<and> n \<le> 16384 \<and> n \<le> pc \<and> 8 + n * ps \<le> MAX_TIERED_DECOMPRESSED_BYTES"

text \<open>The size bound the encoders' 32-bit lengths rely on: compression and sealing add little.\<close>

definition seal_bounded :: "codec \<Rightarrow> bool" where
  "seal_bounded C \<longleftrightarrow> (\<forall>nonce aad key raw out. length nonce = 12 \<longrightarrow> length aad \<le> 17
     \<longrightarrow> seal_frame C nonce aad key raw = Inr out \<longrightarrow> length out \<le> 2 * length raw + 256)"

lemma encoded_group_small:
  assumes "seal_bounded C" "\<And>k. length (nonces k) = 12" "encoded_group C nonces key ps spf gid pages data ft"
    and "list_all (fits_page ps) pages" "group_limits ps (length pages) pc"
  shows "length data < U32_SIZE"
proof -
  have bound: "length out \<le> 2 * length raw + 256" if "seal_frame C (nonces j) (aad_page_group gid) key raw = Inr out" for j raw out
  proof -
    have "length (aad_page_group gid) \<le> 17" by (simp add: aad_page_group_def)
    then show ?thesis using assms(1,2) that unfolding seal_bounded_def by blast
  qed
  have total: "length (concat (map (page_bytes ps) pages)) = length pages * ps" using assms(4) by (rule length_page_list)
  have "length pages * ps \<le> 16384 * 65536" using assms(5) by (intro mult_le_mono) (simp_all add: group_limits_def)
  moreover have "length data \<le> 2 * (8 + length pages * ps) + 256 * (length pages + 1)"
  proof (cases "0 < spf")
    case True
    let ?raws = "map (frame_raw ps spf pages) [0..<div_ceil (length pages) spf]"
    obtain ds where sealed: "list_all2 (\<lambda>raw d. \<exists>j. seal_frame C (nonces j) (aad_page_group gid) key raw = Inr d) ?raws ds" "data = concat ds"
      using True assms(3) encode_frames_result [of C nonces "aad_page_group gid" key 0 ?raws "[]" "[]" data ft]
      by (auto simp: encoded_group_def encode_page_group_seekable_def)
    have "length (concat es) \<le> 2 * length (concat rs) + 256 * length rs"
      if "list_all2 (\<lambda>raw d. \<exists>j. seal_frame C (nonces j) (aad_page_group gid) key raw = Inr d) rs es" for rs es
      using that by (induction rule: list_all2_induct) (auto dest!: bound)
    from this [OF sealed(1)] have "length data \<le> 2 * (length pages * ps) + 256 * div_ceil (length pages) spf"
      using sealed(2) concat_frame_raws [OF True, of ps pages] total by simp
    moreover have "div_ceil (length pages) spf \<le> length pages"
    proof (rule ccontr)
      assume "\<not> div_ceil (length pages) spf \<le> length pages"
      then have "length pages * spf < length pages" using less_div_ceil_iff [OF True, of "length pages" "length pages"] by simp
      then show False using True by (cases spf) simp_all
    qed
    ultimately show ?thesis by simp
  next
    case False
    let ?part = "concat (map (page_bytes ps) (take (length pages mod U32_SIZE) pages))"
    have part: "length ?part \<le> length pages * ps"
      using total by (metis append_take_drop_id concat_append le_add1 length_append map_append)
    have "seal_frame C (nonces 0) (aad_page_group gid) key (group_header (length pages mod U32_SIZE) ps @ ?part) = Inr data"
      using False assms(3) by (simp only: encoded_group_def encode_page_group_def Let_def if_False)
    from bound [OF this] have "length data \<le> 2 * (8 + length ?part) + 256" by (simp only: length_append length_group_header)
    also have "\<dots> \<le> 2 * (8 + length pages * ps) + 256 * (length pages + 1)"
      using part by (intro add_mono mult_le_mono2) simp_all
    finally show ?thesis .
  qed
  ultimately show ?thesis using assms(5) by (simp add: group_limits_def)
qed

lemma encoded_group_page:
  assumes contract: "codec_contract C" "\<And>k. length (nonces k) = 12"
    and enc: "encoded_group C nonces key (page_size m) (sub_pages_per_frame m) gid pages data ft"
    and lim: "group_limits (page_size m) (length pages) (page_count m)" and short: "length data < U32_SIZE"
    and fit: "list_all (fits_page (page_size m)) pages" and n: "length (group_page_nums m gid) = length pages"
    and at: "get (page_group_keys m) gid = Some k" "objs k = Some data"
    and ft: "0 < sub_pages_per_frame m \<Longrightarrow> get (frame_tables m) gid = Some ft" and pos: "pos < length pages"
  shows "base_page C key m objs gid pos = Some (page_bytes (page_size m) (pages ! pos))"
proof -
  let ?ps = "page_size m" and ?n = "length pages" and ?spf = "sub_pages_per_frame m"
  have len: "length b = ?ps" if "b \<in> set (map (page_bytes ?ps) pages)" for b using that fit by (auto simp: list_all_iff)
  have slice: "bslice (pos * ?ps) ?ps (concat (map (page_bytes ?ps) pages)) = page_bytes ?ps (pages ! pos)"
    using bslice_concat_equal [of "map (page_bytes ?ps) pages" ?ps pos] len pos by simp
  have total: "length (concat (map (page_bytes ?ps) pages)) = ?n * ?ps" using fit by (rule length_page_list)
  have bound: "(pos + 1) * ?ps \<le> ?n * ?ps" using pos by (intro mult_le_mono1) simp
  show ?thesis
  proof (cases "0 < ?spf")
    case True
    then have e: "encode_page_group_seekable C nonces pages ?ps ?spf (aad_page_group gid) key = Inr (data, ft)"
      using enc by (simp add: encoded_group_def)
    have "min (?n mod U32_SIZE) (page_count m - 0) = ?n" using lim by (simp add: group_limits_def)
    from seekable_decodes [OF contract(1) e contract(2) fit _ True _ _ short this] lim
    have d: "length ft = div_ceil ?n ?spf"
      "decode_page_group_seekable_full C data ft ?ps (?n mod U32_SIZE) (page_count m) 0 (aad_page_group gid) key
        = Inr (?n, ?ps, concat (map (page_bytes ?ps) pages))" by (simp_all add: group_limits_def)
    have g: "get (frame_tables m) gid = Some ft" by (rule ft [OF True])
    have "0 < div_ceil ?n ?spf" using less_div_ceil_iff [OF True, of 0 ?n] pos by auto
    then have ne: "ft \<noteq> []" using d(1) by auto
    have "has_frame_table m gid" unfolding has_frame_table_def g by (simp add: True ne)
    moreover have "frame_tables m ! gid = ft" using g by (simp add: get_def split: if_splits)
    ultimately show ?thesis using at d(2) n slice total bound by (simp add: base_page_def seekable_bulk_def Let_def get_def)
  next
    case False
    then have e: "encode_page_group C (nonces 0) pages ?ps (aad_page_group gid) key = Inr data"
      using enc by (simp add: encoded_group_def)
    have "decode_page_group C data (aad_page_group gid) key = Inr (?n, ?ps, map (page_bytes ?ps) pages)"
      using page_group_decodes [OF contract(1) e contract(2) fit] lim by (simp add: group_limits_def)
    then show ?thesis using at False pos by (simp add: base_page_def has_frame_table_def plain_pages_def get_def)
  qed
qed

subsection \<open>Compaction keeps the pages\<close>

definition overlaid :: "nat \<Rightarrow> nat \<Rightarrow> bytes \<Rightarrow> bytes option \<Rightarrow> bytes option" where
  "overlaid ps j raw old = (if (j + 1) * ps \<le> length raw then Some (bslice (j * ps) ps raw) else old)"

lemma length_overlay_frame [simp]: "length (overlay_frame ps spf f raw bufs) = length bufs"
  by (simp add: overlay_frame_def)

lemma overlay_frame_nth:
  assumes "0 < spf" "i < length bufs"
  shows "overlay_frame ps spf f raw bufs ! i = (if i div spf = f then overlaid ps (i mod spf) raw (bufs ! i) else bufs ! i)"
proof -
  have "f * spf \<le> i \<and> i < f * spf + spf \<longleftrightarrow> i div spf = f"
    using assms(1) by (metis add.commute div_nat_eqI dividend_less_times_div mult.commute mult_Suc_right times_div_less_eq_dividend)
  moreover have "i - (i div spf) * spf = i mod spf" by (simp add: minus_div_mult_eq_mod)
  ultimately show ?thesis using assms(2) by (auto simp: overlay_frame_def overlaid_def nth_enumerate_eq)
qed

lemma get_page_group_ok:
  assumes "get_page_group k b = (Inr r, b')"
  shows "r = bk_objects b k" "bk_objects b' = bk_objects b" "bk_fault b' = bk_fault b"
  using assms by (auto simp: get_page_group_def tick_def split: option.splits)

lemma apply_overrides_spec:
  assumes "apply_overrides C key m gid ovs replaced bufs b = (Inr (replaced', bufs'), b')" "0 < sub_pages_per_frame m" "distinct (map fst ovs)"
  shows "bk_objects b' = bk_objects b \<and> length bufs' = length bufs \<and> replaced' = replaced @ map (so_key \<circ> snd) ovs
    \<and> (\<forall>(f, ov) \<in> set ovs. open_override C key (bk_objects b) gid f ov \<noteq> None)
    \<and> (\<forall>i < length bufs. bufs' ! i = (case map_of ovs (i div sub_pages_per_frame m) of None \<Rightarrow> bufs ! i
         | Some ov \<Rightarrow> overlaid (page_size m) (i mod sub_pages_per_frame m) (the (open_override C key (bk_objects b) gid (i div sub_pages_per_frame m) ov)) (bufs ! i)))"
  using assms(1,3)
proof (induction ovs arbitrary: replaced bufs b)
  case (Cons x ovs)
  obtain f ov where x: "x = (f, ov)" by force
  obtain r b1 where g: "get_page_group (so_key ov) b = (Inr r, b1)" and rest: "(case r of
         None \<Rightarrow> (Inl (Io NotFound ''override not found''), b1)
       | Some data \<Rightarrow>
           (case decode_seekable_subchunk C data (aad_override_frame gid f) key of
              Inl e \<Rightarrow> (Inl e, b1)
            | Inr raw \<Rightarrow>
                if length bufs < f * sub_pages_per_frame m then (panic ''slice index starts after its end'', b1)
                else apply_overrides C key m gid ovs (replaced @ [so_key ov])
                       (overlay_frame (page_size m) (sub_pages_per_frame m) f raw bufs) b1)) = (Inr (replaced', bufs'), b')"
    using Cons.prems(1) x by (auto simp: and_then_ok)
  from rest obtain data raw where d: "r = Some data" "decode_seekable_subchunk C data (aad_override_frame gid f) key = Inr raw"
    and run: "apply_overrides C key m gid ovs (replaced @ [so_key ov]) (overlay_frame (page_size m) (sub_pages_per_frame m) f raw bufs) b1
      = (Inr (replaced', bufs'), b')"
    by (auto simp: panic_def split: option.splits sum.splits if_splits)
  note o = get_page_group_ok [OF g]
  have raw: "open_override C key (bk_objects b) gid f ov = Some raw" using o(1) [symmetric] d by (simp add: open_override_def)
  have "distinct (map fst ovs)" "map_of ovs f = None" using Cons.prems(2) x by (auto simp: map_of_eq_None_iff)
  note IH = Cons.IH [OF run this(1)]
  have "bufs' ! i = (case map_of (x # ovs) (i div sub_pages_per_frame m) of None \<Rightarrow> bufs ! i
     | Some ov \<Rightarrow> overlaid (page_size m) (i mod sub_pages_per_frame m) (the (open_override C key (bk_objects b) gid (i div sub_pages_per_frame m) ov)) (bufs ! i))"
    if i: "i < length bufs" for i
    using IH i raw x o(2) overlay_frame_nth [OF assms(2) i] \<open>map_of ovs f = None\<close> by (auto split: option.splits)
  then show ?case using IH x raw o(2) by auto
qed simp

text \<open>The group's pages as the compactor assembles them are the pages a reader gets.\<close>

lemma base_buffers_page:
  assumes "base_buffers C key m gid (length (group_page_nums m gid)) data = Inr bufs"
    and "get (page_group_keys m) gid = Some k" "objs k = Some data" "pos < length (group_page_nums m gid)"
  shows "length bufs = length (group_page_nums m gid)" "bufs ! pos = base_page C key m objs gid pos"
  using assms by (auto simp: base_buffers_def base_page_def Let_def bind_result_Inr_iff get_def split: if_splits)

lemma remote_page_split:
  "remote_page C key m objs gid pos =
     (if sub_pages_per_frame m = 0 \<or> override_at m gid (pos div sub_pages_per_frame m) = None then base_page C key m objs gid pos
      else case override_frame C key m objs gid (pos div sub_pages_per_frame m) of
        Some raw \<Rightarrow> overlaid (page_size m) (pos mod sub_pages_per_frame m) raw (base_page C key m objs gid pos) | None \<Rightarrow> None)"
  by (simp add: remote_page_def Let_def overlaid_def split: option.splits)

lemma compact_group_spec:
  assumes run: "compact_override_group C nonces key iter v gid m b = (Inr r, b')"
    and spf: "0 < sub_pages_per_frame m" and iter: "hash_iteration iter"
    and fin: "\<And>ovs. get (subframe_overrides m) gid = Some ovs \<Longrightarrow> finite (dom ovs)"
  shows "bk_objects b' = bk_objects b \<and> ocr_gid r = gid \<and> ocr_new_key r = page_group_key gid v
    \<and> (\<exists>k. get (page_group_keys m) gid = Some k
         \<and> set (ocr_replaced_keys r) = insert k (so_key ` {ov. \<exists>f. override_at m gid f = Some ov}))
    \<and> (\<exists>bufs. length bufs = length (group_page_nums m gid)
         \<and> (\<forall>pos < length bufs. bufs ! pos = remote_page C key m (bk_objects b) gid pos)
         \<and> encoded_group C nonces key (page_size m) (sub_pages_per_frame m) gid bufs (ocr_encoded r) (ocr_new_frame_table r))"
proof -
  let ?n = "length (group_page_nums m gid)" and ?spf = "sub_pages_per_frame m"
  obtain ovs where ovs: "get (subframe_overrides m) gid = Some ovs" "ovs \<noteq> Map.empty"
    using run by (cases "get (subframe_overrides m) gid") (auto simp: compact_override_group_def Let_def split: if_splits)
  obtain k where k: "get (page_group_keys m) gid = Some k"
    using run unfolding compact_override_group_def Let_def ovs(1) option.case if_not_P [OF ovs(2)]
    by (cases "get (page_group_keys m) gid") auto
  let ?list = "map (\<lambda>f. (f, the (ovs f))) (iter (dom ovs))"
  obtain x b1 where gx: "get_page_group k b = (Inr x, b1)"
    using run unfolding compact_override_group_def Let_def ovs(1) k option.case if_not_P [OF ovs(2)] by (auto simp: and_then_ok)
  note step = run [unfolded compact_override_group_def Let_def ovs(1) k option.case if_not_P [OF ovs(2)] gx and_then_simps if_P [OF spf]]
  obtain data where x: "x = Some data" using step by (cases x) simp_all
  note step = step [unfolded x option.case]
  obtain bufs where bufs: "base_buffers C key m gid ?n data = Inr bufs" using step by (cases "base_buffers C key m gid ?n data") simp_all
  have g: "get_page_group k b = (Inr (Some data), b1)" using gx x by simp
  have rest: "and_then (apply_overrides C key m gid ?list [k] bufs b1)
        (\<lambda>(replaced, bufs) b. case encode_page_group_seekable C nonces bufs (page_size m) ?spf (aad_page_group gid) key of
             Inl e \<Rightarrow> (Inl e, b)
           | Inr (encoded, ft) \<Rightarrow> (Inr \<lparr>ocr_gid = gid, ocr_new_key = page_group_key gid v, ocr_new_frame_table = ft, ocr_encoded = encoded,
               ocr_replaced_keys = replaced\<rparr>, b)) = (Inr r, b')"
    using step by (simp only: bufs sum.case)
  obtain replaced bufs' s1 where ap1: "apply_overrides C key m gid ?list [k] bufs b1 = (Inr (replaced, bufs'), s1)"
    and fin1: "(case encode_page_group_seekable C nonces bufs' (page_size m) ?spf (aad_page_group gid) key of
             Inl e \<Rightarrow> (Inl e, s1)
           | Inr (encoded, ft) \<Rightarrow> (Inr \<lparr>ocr_gid = gid, ocr_new_key = page_group_key gid v, ocr_new_frame_table = ft, ocr_encoded = encoded,
               ocr_replaced_keys = replaced\<rparr>, s1)) = (Inr r, b')"
    using rest by (auto simp: and_then_ok)
  obtain ft encoded where enc: "encode_page_group_seekable C nonces bufs' (page_size m) ?spf (aad_page_group gid) key = Inr (encoded, ft)"
    using fin1 by (cases "encode_page_group_seekable C nonces bufs' (page_size m) ?spf (aad_page_group gid) key") auto
  have r: "r = \<lparr>ocr_gid = gid, ocr_new_key = page_group_key gid v, ocr_new_frame_table = ft, ocr_encoded = encoded, ocr_replaced_keys = replaced\<rparr>"
    and ap: "apply_overrides C key m gid ?list [k] bufs b1 = (Inr (replaced, bufs'), b')"
    using fin1 ap1 enc by simp_all
  have finite: "finite (dom ovs)" by (rule fin [OF ovs(1)])
  have it: "set (iter (dom ovs)) = dom ovs" "distinct (iter (dom ovs))"
    using hash_iteration.set_iter [OF iter finite] hash_iteration.distinct_iter [OF iter finite] by simp_all
  have "distinct (map fst ?list)" using it(2) by (simp add: comp_def)
  note sp = apply_overrides_spec [OF ap spf this]
  have objs: "bk_objects b1 = bk_objects b" "bk_objects b k = Some data" using get_page_group_ok [OF g] by simp_all
  have look: "map_of ?list f = ovs f" for f
    using it(1) by (cases "f \<in> dom ovs") (auto simp: map_of_map_restrict restrict_map_def comp_def)
  have ov_at: "override_at m gid f = ovs f" for f by (simp only: override_at_def ovs(1) Option.bind.simps)
  have base: "length bufs = ?n" "bufs ! pos = base_page C key m (bk_objects b) gid pos" if "pos < ?n" for pos
    using base_buffers_page [OF bufs k, of "bk_objects b" pos] objs(2) that by simp_all
  have lenb: "length bufs = ?n" using bufs by (auto simp: base_buffers_def Let_def bind_result_Inr_iff split: if_splits)
  have page: "bufs' ! pos = remote_page C key m (bk_objects b) gid pos" if pos: "pos < ?n" for pos
  proof (cases "ovs (pos div ?spf)")
    case None
    then show ?thesis using sp pos lenb base(2) [OF pos] look spf ov_at by (simp add: remote_page_split)
  next
    case (Some ov)
    then have "(pos div ?spf, ov) \<in> set ?list" using it(1) by (auto simp: image_iff domI)
    then obtain raw where "open_override C key (bk_objects b) gid (pos div ?spf) ov = Some raw" using sp objs(1) by auto
    then show ?thesis using sp pos lenb base(2) [OF pos] look [of "pos div ?spf"] Some spf ov_at objs(1)
      by (simp add: remote_page_split override_frame_def)
  qed
  have "set replaced = insert k (so_key ` {ov. \<exists>f. override_at m gid f = Some ov})"
  proof -
    have "set replaced = insert k (so_key ` ((\<lambda>f. the (ovs f)) ` dom ovs))" using sp it(1) by (auto simp: image_image)
    also have "(\<lambda>f. the (ovs f)) ` dom ovs = {ov. \<exists>f. override_at m gid f = Some ov}" by (force simp: ov_at)
    finally show ?thesis .
  qed
  then show ?thesis using sp objs(1) lenb page enc spf k by (auto simp: r encoded_group_def intro!: exI [of _ bufs'])
qed

subsection \<open>Keys of a manifest\<close>

text \<open>
  Keys name their slot and a version up to the manifest's; the empty key stands for a group without an
  object. A new version's keys are therefore fresh.
\<close>

definition keys_wf :: "manifest \<Rightarrow> bool" where
  "keys_wf m \<longleftrightarrow> (\<forall>gid k. get (page_group_keys m) gid = Some k \<longrightarrow> k = [] \<or> (\<exists>v \<le> version m. k = page_group_key gid v))
     \<and> (\<forall>gid f ov. override_at m gid f = Some ov \<longrightarrow> (\<exists>v \<le> version m. so_key ov = override_frame_key gid f v))"

definition group_keys :: "manifest \<Rightarrow> nat \<Rightarrow> string set" where
  "group_keys m gid = {k. get (page_group_keys m) gid = Some k} \<union> so_key ` {ov. \<exists>f. override_at m gid f = Some ov}"

lemma group_keys_cases:
  assumes "keys_wf m" "k \<in> group_keys m gid"
  shows "k = [] \<or> (\<exists>v \<le> version m. k = key_of (PageGroupSlot gid) v \<or> (\<exists>f. k = key_of (OverrideSlot gid f) v))"
  using assms unfolding keys_wf_def group_keys_def by fastforce

lemma key_of_nonempty: "key_of s v \<noteq> []" "key_of s v \<noteq> MANIFEST_KEY"
  by (cases s; simp add: key_defs MANIFEST_KEY_def)+

lemma group_keys_fresh:
  assumes "keys_wf m" "version m < v"
  shows "key_of s v \<notin> group_keys m gid" "MANIFEST_KEY \<notin> group_keys m gid"
proof -
  show "key_of s v \<notin> group_keys m gid"
    using group_keys_cases [OF assms(1), of "key_of s v" gid] assms(2) key_of_nonempty(1) [of s v]
    by (auto simp: key_of_inject simp del: key_of.simps)
  show "MANIFEST_KEY \<notin> group_keys m gid"
    using group_keys_cases [OF assms(1), of MANIFEST_KEY gid] key_of_nonempty(2) by (metis MANIFEST_KEY_def list.distinct(1))
qed

lemma group_keys_apart:
  assumes "keys_wf m" "gid \<noteq> gid'" "k \<in> group_keys m gid" "k \<in> group_keys m gid'"
  shows "k = []"
  using group_keys_cases [OF assms(1,3)] group_keys_cases [OF assms(1,4)] assms(2)
  by (auto simp: key_of_inject simp del: key_of.simps)

lemma remote_page_objects:
  assumes "\<And>k. k \<in> group_keys m gid \<Longrightarrow> objs' k = objs k"
  shows "remote_page C key m objs' gid pos = remote_page C key m objs gid pos"
proof -
  have "base_page C key m objs' gid pos = base_page C key m objs gid pos"
  proof (cases "get (page_group_keys m) gid")
    case (Some k)
    then have "objs' k = objs k" by (intro assms) (simp add: group_keys_def)
    then show ?thesis unfolding base_page_def Some option.case by simp
  next
    case None
    show ?thesis unfolding base_page_def None option.case ..
  qed
  moreover have "override_frame C key m objs' gid f = override_frame C key m objs gid f" for f
  proof (cases "override_at m gid f")
    case (Some ov)
    then have "objs' (so_key ov) = objs (so_key ov)" by (intro assms) (auto simp: group_keys_def)
    then show ?thesis by (simp add: override_frame_def Some open_override_def)
  qed (simp add: override_frame_def)
  ultimately show ?thesis unfolding remote_page_split by (simp split: option.splits)
qed

definition same_group :: "manifest \<Rightarrow> manifest \<Rightarrow> nat \<Rightarrow> bool" where
  "same_group m m' gid \<longleftrightarrow> get (page_group_keys m') gid = get (page_group_keys m) gid
     \<and> (\<forall>f. override_at m' gid f = override_at m gid f)
     \<and> has_frame_table m' gid = has_frame_table m gid
     \<and> (\<forall>ft. get (frame_tables m) gid = Some ft \<longrightarrow> get (frame_tables m') gid = Some ft)"

definition same_layout :: "manifest \<Rightarrow> manifest \<Rightarrow> bool" where
  "same_layout m m' \<longleftrightarrow> page_size m' = page_size m \<and> sub_pages_per_frame m' = sub_pages_per_frame m \<and> page_count m' = page_count m
     \<and> (\<forall>gid. group_page_nums m' gid = group_page_nums m gid)"

lemma remote_page_same_group:
  assumes "same_group m m' gid" "same_layout m m'"
  shows "remote_page C key m' objs gid pos = remote_page C key m objs gid pos"
proof -
  have l: "page_size m' = page_size m" "sub_pages_per_frame m' = sub_pages_per_frame m" "page_count m' = page_count m"
    "group_page_nums m' gid = group_page_nums m gid" using assms(2) by (simp_all add: same_layout_def)
  have g: "get (page_group_keys m') gid = get (page_group_keys m) gid" "\<And>f. override_at m' gid f = override_at m gid f"
    "has_frame_table m' gid = has_frame_table m gid"
    using assms(1) by (simp_all only: same_group_def)
  have g4: "frame_tables m' ! gid = frame_tables m ! gid" if "has_frame_table m gid"
    using that assms(1) by (auto simp: same_group_def has_frame_table_def get_def split: if_splits)
  have "base_page C key m' objs gid pos = base_page C key m objs gid pos"
    unfolding base_page_def g(1) g(3) l seekable_bulk_def Let_def
    using g4 by (cases "has_frame_table m gid") (simp_all split: option.splits)
  then show ?thesis unfolding remote_page_split g(2) l override_frame_def by (simp split: option.splits)
qed

lemma same_group_keys: "same_group m m' gid \<Longrightarrow> group_keys m' gid = group_keys m gid"
  by (simp add: same_group_def group_keys_def)

subsection \<open>The manifest after a compaction\<close>

lemma get_pad: "i < length xs \<Longrightarrow> get (pad_to n d xs) i = get xs i"
  by (simp add: get_def pad_to_def nth_append)

lemma get_update: "get (xs[i := x]) j = (if j = i \<and> i < length xs then Some x else get xs j)"
  by (simp add: get_def)

lemma has_frame_table_get: "has_frame_table m gid \<longleftrightarrow> 0 < sub_pages_per_frame m \<and> (\<exists>ft. get (frame_tables m) gid = Some ft \<and> ft \<noteq> [])"
  by (auto simp: has_frame_table_def get_def)

lemma install_layout [simp]: "same_layout m (install_compacted r m)" "same_layout m (m\<lparr>version := v\<rparr>)"
  by (simp_all add: same_layout_def install_compacted_def Let_def group_page_nums_def split: grouping_strategy.splits)

lemma same_layout_trans: "same_layout a b \<Longrightarrow> same_layout b c \<Longrightarrow> same_layout a c"
  by (simp add: same_layout_def)

lemma same_group_trans: "same_group a b g \<Longrightarrow> same_group b c g \<Longrightarrow> same_group a c g"
  by (simp add: same_group_def)

lemma install_compacted_own:
  assumes "ocr_gid r = g" "g < length (page_group_keys m)"
  shows "get (page_group_keys (install_compacted r m)) g = Some (ocr_new_key r)"
    "get (frame_tables (install_compacted r m)) g = Some (ocr_new_frame_table r)"
    "override_at (install_compacted r m) g f = None" "length (page_group_keys (install_compacted r m)) = length (page_group_keys m)"
  using assms by (auto simp: install_compacted_def Let_def get_def pad_to_def override_at_def)

lemma install_compacted_other:
  assumes "ocr_gid r \<noteq> g" "ocr_gid r < length (page_group_keys m)"
  shows "same_group m (install_compacted r m) g"
proof -
  have "get (pad_to (Suc (ocr_gid r)) [] (frame_tables m)) g = (if g < length (frame_tables m) then get (frame_tables m) g
      else if g < ocr_gid r then Some [] else None)"
    using assms(1) by (auto simp: get_def pad_to_def nth_append)
  then have "has_frame_table (install_compacted r m) g = has_frame_table m g"
    "get (frame_tables m) g = Some ft \<Longrightarrow> get (frame_tables (install_compacted r m)) g = Some ft" for ft
    using assms(1) by (auto simp: has_frame_table_def install_compacted_def Let_def get_update split: if_splits) (auto simp: get_def)
  then show ?thesis using assms
    by (auto simp: same_group_def install_compacted_def Let_def override_at_def get_def pad_to_def nth_list_update)
qed

lemma install_all:
  assumes "distinct (map ocr_gid rs)" "list_all (\<lambda>r. ocr_gid r < length (page_group_keys m)) rs"
  shows "same_layout m (fold install_compacted rs m)
    \<and> (\<forall>g. g \<notin> ocr_gid ` set rs \<longrightarrow> same_group m (fold install_compacted rs m) g)
    \<and> (\<forall>r \<in> set rs. get (page_group_keys (fold install_compacted rs m)) (ocr_gid r) = Some (ocr_new_key r)
         \<and> get (frame_tables (fold install_compacted rs m)) (ocr_gid r) = Some (ocr_new_frame_table r)
         \<and> (\<forall>f. override_at (fold install_compacted rs m) (ocr_gid r) f = None))"
  using assms
proof (induction rs arbitrary: m)
  case Nil
  then show ?case by (simp add: same_layout_def same_group_def)
next
  case (Cons q rs)
  let ?m = "install_compacted q m" and ?f = "fold install_compacted rs (install_compacted q m)"
  have q: "ocr_gid q < length (page_group_keys m)" "ocr_gid q \<notin> ocr_gid ` set rs" using Cons.prems by auto
  note own = install_compacted_own [OF refl q(1)]
  have "distinct (map ocr_gid rs)" "list_all (\<lambda>r. ocr_gid r < length (page_group_keys ?m)) rs" using Cons.prems own(4) by simp_all
  note IH = Cons.IH [OF this]
  have lay: "same_layout m ?f" using IH same_layout_trans [OF install_layout(1)] by blast
  have oth: "same_group m ?f g" if "g \<notin> ocr_gid ` set (q # rs)" for g
  proof -
    have g: "ocr_gid q \<noteq> g" "g \<notin> ocr_gid ` set rs" using that by auto
    show ?thesis using same_group_trans [OF install_compacted_other [OF g(1) q(1)]] IH g(2) by blast
  qed
  have "same_group ?m ?f (ocr_gid q)" using IH q(2) by blast
  then have "get (page_group_keys ?f) (ocr_gid q) = Some (ocr_new_key q)" "get (frame_tables ?f) (ocr_gid q) = Some (ocr_new_frame_table q)"
    "override_at ?f (ocr_gid q) f = None" for f
    using own(1,2,3) unfolding same_group_def by metis+
  then show ?case using lay oth IH by simp
qed

subsection \<open>Whole compactions\<close>

text \<open>What a stored database satisfies: well-formed keys, bounded groups, every readable page of the page size.\<close>

definition store_wf :: "codec \<Rightarrow> bytes option \<Rightarrow> manifest \<Rightarrow> (string \<rightharpoonup> bytes) \<Rightarrow> bool" where
  "store_wf C key m objs \<longleftrightarrow> keys_wf m \<and> objs [] = None \<and> version m + 1 < U64_SIZE
     \<and> (\<forall>gid ovs. get (subframe_overrides m) gid = Some ovs \<longrightarrow> finite (dom ovs))
     \<and> (\<forall>gid. group_page_nums m gid \<noteq> [] \<longrightarrow> group_limits (page_size m) (length (group_page_nums m gid)) (page_count m))
     \<and> (\<forall>gid pos d. pos < length (group_page_nums m gid) \<longrightarrow> remote_page C key m objs gid pos = Some d \<longrightarrow> length d = page_size m)"

definition group_compacted :: "codec \<Rightarrow> (nat \<Rightarrow> nat \<Rightarrow> bytes) \<Rightarrow> bytes option \<Rightarrow> nat \<Rightarrow> manifest \<Rightarrow> (string \<rightharpoonup> bytes) \<Rightarrow> override_compact_result \<Rightarrow> bool" where
  "group_compacted C nonces key v m objs r \<longleftrightarrow> ocr_new_key r = page_group_key (ocr_gid r) v \<and> ocr_gid r < length (page_group_keys m)
     \<and> set (ocr_replaced_keys r) = group_keys m (ocr_gid r)
     \<and> (\<exists>bufs. length bufs = length (group_page_nums m (ocr_gid r))
          \<and> (\<forall>pos < length bufs. bufs ! pos = remote_page C key m objs (ocr_gid r) pos)
          \<and> encoded_group C (nonces (ocr_gid r)) key (page_size m) (sub_pages_per_frame m) (ocr_gid r) bufs
               (ocr_encoded r) (ocr_new_frame_table r))"

lemma compact_group_failed: "compact_override_group C nonces key iter v gid m b = (Inl e, b') \<Longrightarrow> bk_objects b' = bk_objects b"
proof -
  have get: "bk_objects c' = bk_objects c" if "get_page_group k c = (r, c')" for k c r c'
    using that by (auto simp: get_page_group_def tick_def split: option.splits)
  have ap: "bk_objects c' = bk_objects c" if "apply_overrides C key m gid ovs replaced bufs c = (r, c')" for ovs replaced bufs c r c'
    using that by (induction ovs arbitrary: replaced bufs c)
      (auto simp: and_then_def panic_def split: prod.splits sum.splits option.splits if_splits dest!: get)
  assume "compact_override_group C nonces key iter v gid m b = (Inl e, b')"
  then show ?thesis unfolding compact_override_group_def Let_def and_then_def
    by (auto split: option.splits if_splits prod.splits sum.splits dest!: get ap)
qed

lemma compact_groups_spec:
  assumes "compact_groups C nonces key iter v m gids rs b = (rs', b')" "distinct gids"
    and "0 < sub_pages_per_frame m" "hash_iteration iter" "\<And>gid ovs. get (subframe_overrides m) gid = Some ovs \<Longrightarrow> finite (dom ovs)"
  shows "\<exists>new. rs' = rs @ new \<and> bk_objects b' = bk_objects b \<and> distinct (map ocr_gid new) \<and> ocr_gid ` set new \<subseteq> set gids
    \<and> (\<forall>r \<in> set new. group_compacted C nonces key v m (bk_objects b) r)"
  using assms(1,2)
proof (induction gids arbitrary: rs b)
  case (Cons gid gids)
  obtain res b1 where one: "compact_override_group C (nonces gid) key iter v gid m b = (res, b1)" by force
  show ?case
  proof (cases res)
    case (Inl e)
    have objs: "bk_objects b1 = bk_objects b" using compact_group_failed one Inl by blast
    have "compact_groups C nonces key iter v m gids rs b1 = (rs', b')" using Cons.prems(1) one Inl by simp
    from Cons.IH [OF this] Cons.prems(2) show ?thesis by (auto simp: objs)
  next
    case (Inr r)
    have "finite (dom ovs)" if "get (subframe_overrides m) gid = Some ovs" for ovs using assms(5) that by blast
    note g = compact_group_spec [OF one [unfolded Inr] assms(3,4) this]
    then obtain k where k: "get (page_group_keys m) gid = Some k"
      "set (ocr_replaced_keys r) = insert k (so_key ` {ov. \<exists>f. override_at m gid f = Some ov})" by blast
    have "set (ocr_replaced_keys r) = group_keys m gid" unfolding group_keys_def k by simp
    then have sp: "bk_objects b1 = bk_objects b" "ocr_gid r = gid" "group_compacted C nonces key v m (bk_objects b) r"
      using g k(1) by (simp_all add: group_compacted_def)
    have "compact_groups C nonces key iter v m gids (rs @ [r]) b1 = (rs', b')" using Cons.prems(1) one Inr by simp
    from Cons.IH [OF this] Cons.prems(2) obtain new where new: "rs' = (rs @ [r]) @ new" "bk_objects b' = bk_objects b1"
      "distinct (map ocr_gid new)" "ocr_gid ` set new \<subseteq> set gids" "\<forall>r \<in> set new. group_compacted C nonces key v m (bk_objects b1) r" by auto
    then show ?thesis using sp Cons.prems(2) by (intro exI [of _ "r # new"]) auto
  qed
qed simp

lemma compacted_page:
  assumes contract: "codec_contract C" "seal_bounded C" "\<And>g k. length (nonces g k) = 12"
    and wf: "store_wf C key m objs" and r: "group_compacted C nonces key v m objs r"
    and m': "same_layout m m'" "get (page_group_keys m') (ocr_gid r) = Some (ocr_new_key r)"
      "get (frame_tables m') (ocr_gid r) = Some (ocr_new_frame_table r)" "\<And>f. override_at m' (ocr_gid r) f = None"
    and obj: "objs' (ocr_new_key r) = Some (ocr_encoded r)"
    and pos: "pos < length (group_page_nums m (ocr_gid r))" "remote_page C key m objs (ocr_gid r) pos = Some d"
  shows "remote_page C key m' objs' (ocr_gid r) pos = Some d"
proof -
  let ?g = "ocr_gid r"
  from r obtain bufs where bufs: "length bufs = length (group_page_nums m ?g)"
      "\<forall>pos < length bufs. bufs ! pos = remote_page C key m objs ?g pos"
      "encoded_group C (nonces ?g) key (page_size m) (sub_pages_per_frame m) ?g bufs (ocr_encoded r) (ocr_new_frame_table r)"
    unfolding group_compacted_def by blast
  have lay: "page_size m' = page_size m" "sub_pages_per_frame m' = sub_pages_per_frame m" "page_count m' = page_count m"
    "group_page_nums m' ?g = group_page_nums m ?g" using m'(1) by (simp_all add: same_layout_def)
  have len: "length d = page_size m" if "pos < length (group_page_nums m gid)" "remote_page C key m objs gid pos = Some d" for gid pos d
    using wf that unfolding store_wf_def by blast
  have fit: "list_all (fits_page (page_size m)) bufs"
    using bufs(1,2) len by (auto simp: list_all_length fits_page_def split: option.splits)
  have "group_page_nums m ?g \<noteq> []" using pos(1) by auto
  then have lim: "group_limits (page_size m) (length bufs) (page_count m)" using wf bufs(1) unfolding store_wf_def by metis
  have short: "length (ocr_encoded r) < U32_SIZE" by (rule encoded_group_small [OF contract(2) contract(3) bufs(3) fit lim])
  have "base_page C key m' objs' ?g pos = Some (page_bytes (page_size m') (bufs ! pos))"
    using contract(1,3) bufs(1,3) lim short fit m'(2,3) obj pos(1) by (intro encoded_group_page) (simp_all add: lay)
  moreover have "bufs ! pos = Some d" using bufs(1,2) pos by simp
  moreover have "page_bytes (page_size m) (Some d) = d" using len [OF pos] by (simp add: page_bytes_def zeros_def)
  ultimately show ?thesis by (simp add: remote_page_split m'(4) lay(1))
qed

lemma put_manifest_objects:
  "put_manifest iter sd m b = (r, b') \<Longrightarrow> k \<noteq> MANIFEST_KEY \<Longrightarrow> bk_objects b' k = bk_objects b k"
  by (auto simp: put_manifest_def storage_get_manifest_def get_page_group_def put_object_def and_then_def tick_def
      split: option.splits sum.splits prod.splits if_splits)

lemma delete_objects_objects:
  "\<exists>D. D \<subseteq> set ks \<and> bk_objects (snd (delete_objects ks b)) = (\<lambda>k. if k \<in> D then None else bk_objects b k)"
proof (cases "bk_fault b (bk_ops b)")
  case None
  then show ?thesis by (intro exI [of _ "set ks"]) (auto simp: delete_objects_def tick_def delete_all_lookup)
next
  case (Some x)
  then show ?thesis
    by (intro exI [of _ "set (if ks = [] then [] else filter (snd x) ks)"]) (auto simp: delete_objects_def tick_def delete_all_lookup split: prod.splits)
qed

lemma fresh_uploads:
  assumes "keys_wf m" "version m < v" "\<And>u. u \<in> set uploads \<Longrightarrow> \<exists>s. fst u = key_of s v"
  shows "remote_page C key m (put_all uploads objs) gid pos = remote_page C key m objs gid pos"
proof (rule remote_page_objects)
  fix k assume "k \<in> group_keys m gid"
  then have "k \<notin> fst ` set uploads" using group_keys_fresh(1) [OF assms(1,2)] assms(3) by force
  then show "put_all uploads objs k = objs k" by (rule put_all_other)
qed

lemma compaction_new_objects:
  assumes contract: "codec_contract C" "seal_bounded C" "\<And>g k. length (nonces g k) = 12"
    and wf: "store_wf C key m objs" and rs: "distinct (map ocr_gid rs)" "\<forall>r \<in> set rs. group_compacted C nonces key (version m + 1) m objs r"
    and objs': "\<And>k. k \<noteq> MANIFEST_KEY \<Longrightarrow>
        objs' k = (if k \<in> D then None else put_all (map (\<lambda>r. (ocr_new_key r, ocr_encoded r)) rs) objs k)"
      "D \<subseteq> (\<Union>r \<in> set rs. set (ocr_replaced_keys r))"
    and pos: "pos < length (group_page_nums m gid)" "remote_page C key m objs gid pos = Some d"
  shows "remote_page C key ((fold install_compacted rs m)\<lparr>version := v\<rparr>) objs' gid pos = Some d"
proof -
  let ?v = "version m + 1" and ?up = "map (\<lambda>r. (ocr_new_key r, ocr_encoded r)) rs"
  let ?m = "(fold install_compacted rs m)\<lparr>version := v\<rparr>"
  have kw: "keys_wf m" and empty: "objs [] = None" using wf by (simp_all add: store_wf_def)
  have key: "ocr_new_key r = key_of (PageGroupSlot (ocr_gid r)) ?v" "ocr_gid r < length (page_group_keys m)" if "r \<in> set rs" for r
    using rs(2) that by (simp_all add: group_compacted_def)
  have "list_all (\<lambda>r. ocr_gid r < length (page_group_keys m)) rs" using key(2) by (simp add: list_all_iff)
  note inst = install_all [OF rs(1) this]
  have lay: "same_layout m ?m" using inst same_layout_trans [OF _ install_layout(2)] by blast
  have inD: "\<exists>r \<in> set rs. k \<in> group_keys m (ocr_gid r)" if "k \<in> D" for k using that objs'(2) rs(2) by (fastforce simp: group_compacted_def)
  have distinct_keys: "distinct (map fst ?up)"
    using rs(1) key(1) by (auto simp: distinct_map inj_on_def key_of_inject simp del: key_of.simps)
  show ?thesis
  proof (cases "gid \<in> ocr_gid ` set rs")
    case True
    then obtain r where r: "r \<in> set rs" "gid = ocr_gid r" by blast
    have "ocr_new_key r \<notin> group_keys m g" for g unfolding key(1) [OF r(1)] by (rule group_keys_fresh(1) [OF kw]) simp
    then have "ocr_new_key r \<notin> D" using inD by blast
    moreover have "ocr_new_key r \<noteq> MANIFEST_KEY" using key(1) [OF r(1)] key_of_nonempty(2) by metis
    ultimately have "objs' (ocr_new_key r) = Some (ocr_encoded r)"
      using objs'(1) [of "ocr_new_key r"] put_all_lookup [OF distinct_keys, of "ocr_new_key r" "ocr_encoded r" objs] r(1) by auto
    moreover have "get (page_group_keys ?m) (ocr_gid r) = Some (ocr_new_key r)" "get (frame_tables ?m) (ocr_gid r) = Some (ocr_new_frame_table r)"
      "\<And>f. override_at ?m (ocr_gid r) f = None" using inst r(1) by (simp_all add: override_at_def)
    ultimately show ?thesis
      using compacted_page [of C nonces key m objs ?v r ?m objs' pos d] contract wf lay rs(2) r pos by simp
  next
    case False
    then have sg: "same_group m ?m gid" using inst by (simp add: same_group_def override_at_def has_frame_table_def)
    have "remote_page C key m objs' gid pos = remote_page C key m objs gid pos"
    proof (rule remote_page_objects)
      fix k assume k: "k \<in> group_keys m gid"
      have "k \<noteq> ocr_new_key r" if "r \<in> set rs" for r
        using k group_keys_fresh(1) [OF kw, of ?v "PageGroupSlot (ocr_gid r)" gid] key(1) [OF that] by (metis less_add_one)
      then have nm: "k \<noteq> MANIFEST_KEY" and nu: "k \<notin> fst ` set ?up" using k group_keys_fresh(2) [OF kw, of ?v gid] by force+
      show "objs' k = objs k"
      proof (cases "k \<in> D")
        case True
        then obtain r where "r \<in> set rs" "k \<in> group_keys m (ocr_gid r)" using inD by blast
        then have "k = []" using group_keys_apart [OF kw, of "ocr_gid r" gid k] k False by auto
        then show ?thesis using objs'(1) [OF nm] True empty by simp
      next
        case False
        then show ?thesis using objs'(1) [OF nm] put_all_other [OF nu] by simp
      qed
    qed
    then show ?thesis using remote_page_same_group [OF sg lay] pos(2) by simp
  qed
qed

lemma compaction_keeps_pages:
  assumes contract: "codec_contract C" "seal_bounded C" "\<And>g k. length (nonces g k) = 12"
    and iter: "hash_iteration iter" and spf: "0 < sub_pages_per_frame m" and wf: "store_wf C key m (bk_objects b)"
    and run: "compact_overrides_inner C nonces key iter titer sd threshold (m, b) = (res, m', b')"
    and pos: "pos < length (group_page_nums m gid)" "remote_page C key m (bk_objects b) gid pos = Some d"
  shows "remote_page C key m' (bk_objects b') gid pos = Some d
    \<and> (\<not> is_ok res \<longrightarrow> remote_page C key m (bk_objects b') gid pos = Some d)"
proof -
  let ?v = "version m + 1" and ?gids = "groups_to_compact m threshold"
  have kw: "keys_wf m" and v: "(version m + 1) mod U64_SIZE = ?v"
    and fin: "\<And>gid ovs. get (subframe_overrides m) gid = Some ovs \<Longrightarrow> finite (dom ovs)"
    using wf by (auto simp: store_wf_def)
  have dist: "distinct ?gids" by (auto simp: groups_to_compact_def distinct_map inj_on_def in_set_enumerate_eq intro!: distinct_filter)
  obtain rs b1 where groups: "compact_groups C nonces key iter ?v m ?gids [] b = (rs, b1)" by force
  have rs: "bk_objects b1 = bk_objects b" "distinct (map ocr_gid rs)" "\<forall>r \<in> set rs. group_compacted C nonces key ?v m (bk_objects b) r"
    using compact_groups_spec [OF groups dist spf iter fin] by auto
  let ?up = "map (\<lambda>r. (ocr_new_key r, ocr_encoded r)) rs" and ?m = "(fold install_compacted rs m)\<lparr>version := ?v\<rparr>"
  obtain r2 b2 where up: "put_page_groups ?up b1 = (r2, b2)" by force
  obtain r3 b3 where mf: "put_manifest titer sd ?m b2 = (r3, b3)" by force
  have step: "(res, m', b') = (if ?gids = [] then (Inr 0, m, b) else if rs = [] then (Inr 0, m, b1)
      else case r2 of Inl e \<Rightarrow> (Inl e, m, b2) | Inr _ \<Rightarrow>
        (case r3 of Inl e \<Rightarrow> (Inl e, ?m, b3)
         | Inr _ \<Rightarrow> (Inr (length rs), ?m, snd (delete_objects (concat (map ocr_replaced_keys rs)) b3))))"
    unfolding run [symmetric] compact_overrides_inner_def Let_def prod.case v groups up mf by (cases r2; cases r3) (simp_all add: mf)
  have fresh: "\<exists>s. fst u = key_of s ?v" if u: "u \<in> set us" "set us \<subseteq> set ?up" for u us
  proof -
    obtain r where r: "r \<in> set rs" "fst u = ocr_new_key r" using u by force
    then have "fst u = key_of (PageGroupSlot (ocr_gid r)) ?v" using rs(3) by (simp add: group_compacted_def)
    then show ?thesis ..
  qed
  have old: "remote_page C key m (put_all us (bk_objects b)) gid pos = Some d" if "set us \<subseteq> set ?up" for us
    using fresh_uploads [OF kw, of ?v us C key "bk_objects b" gid pos] fresh [OF _ that] pos(2) by simp
  consider (idle) "?gids = [] \<or> rs = []" | (failed) e where "?gids \<noteq> []" "rs \<noteq> []" "r2 = Inl e"
    | (unpublished) u e where "?gids \<noteq> []" "rs \<noteq> []" "r2 = Inr u" "r3 = Inl e"
    | (published) u w where "?gids \<noteq> []" "rs \<noteq> []" "r2 = Inr u" "r3 = Inr w"
    by (cases r2; cases r3) auto
  then show ?thesis
  proof cases
    case idle
    then show ?thesis using step pos(2) rs(1) by (auto split: if_splits)
  next
    case failed
    have "\<exists>us. set us \<subseteq> set ?up \<and> bk_objects b2 = put_all us (bk_objects b)"
      using put_page_groups_objects [OF up] rs(1) by auto
    then show ?thesis using step failed old by auto
  next
    case unpublished
    then have b2: "bk_objects b2 = put_all ?up (bk_objects b)"
      using put_page_groups_objects [OF up] rs(1) by auto
    have objs3: "bk_objects b3 k = (if k \<in> {} then None else put_all ?up (bk_objects b) k)" if "k \<noteq> MANIFEST_KEY" for k
      using put_manifest_objects [OF mf that] b2 by simp
    have "remote_page C key m (bk_objects b3) gid pos = remote_page C key m (put_all ?up (bk_objects b)) gid pos"
    proof (rule remote_page_objects)
      fix k assume "k \<in> group_keys m gid"
      then have "k \<noteq> MANIFEST_KEY" using group_keys_fresh(2) [OF kw, of ?v gid] by auto
      then show "bk_objects b3 k = put_all ?up (bk_objects b) k" by (simp add: objs3)
    qed
    then show ?thesis using compaction_new_objects [OF contract wf rs(2,3) objs3 _ pos, of ?v] step unpublished old [of ?up] by simp
  next
    case published
    then have b2: "bk_objects b2 = put_all ?up (bk_objects b)"
      using put_page_groups_objects [OF up] rs(1) by auto
    obtain D where D: "D \<subseteq> set (concat (map ocr_replaced_keys rs))"
      "bk_objects (snd (delete_objects (concat (map ocr_replaced_keys rs)) b3)) = (\<lambda>k. if k \<in> D then None else bk_objects b3 k)"
      using delete_objects_objects by blast
    have objs': "bk_objects b' k = (if k \<in> D then None else put_all ?up (bk_objects b) k)" if "k \<noteq> MANIFEST_KEY" for k
      using put_manifest_objects [OF mf that] b2 D(2) step published by simp
    have "D \<subseteq> (\<Union>r \<in> set rs. set (ocr_replaced_keys r))" using D(1) by simp
    from compaction_new_objects [OF contract wf rs(2,3) objs' this pos, of ?v] step published show ?thesis by simp
  qed
qed

text \<open>
  C8: Compacting override frames never changes what a reader gets, whatever the backend does. Take any
  page of any group that can be read through the manifest before. Afterwards it reads the same through
  the manifest the process then holds, whether the groups, some of them or none were rewritten, whether
  the uploads, the manifest or the clean-up failed. When the call reports an error the old manifest,
  which other readers still use, reads the same page too: nothing it refers to has been deleted.
\<close>

theorem override_compaction_keeps_pages:
  assumes contract: "codec_contract C" "seal_bounded C" "\<And>g k. length (nonces g k) = 12"
    and iter: "hash_iteration iter" and spf: "0 < sub_pages_per_frame m" and wf: "store_wf C key m (bk_objects b)"
    and run: "compact_overrides_inner C nonces key iter titer sd threshold (m, b) = (res, m', b')"
    and pos: "pos < length (group_page_nums m gid)" "remote_page C key m (bk_objects b) gid pos = Some d"
  shows "remote_page C key m' (bk_objects b') gid pos = Some d
    \<and> (\<not> is_ok res \<longrightarrow> remote_page C key m (bk_objects b') gid pos = Some d)"
  using assms by (rule compaction_keeps_pages)

text \<open>A group of two one-byte pages whose first page has been overridden.\<close>

definition overridden_manifest :: manifest where
  "overridden_manifest = empty_manifest\<lparr>version := 3, page_count := 2, page_size := 1, pages_per_group := 2, strategy := BTreeAware,
     group_pages := [[0, 1]], page_group_keys := [page_group_key 0 2], sub_pages_per_frame := 1,
     frame_tables := [[\<lparr>fe_offset = 0, fe_len = 1\<rparr>, \<lparr>fe_offset = 1, fe_len = 1\<rparr>]],
     subframe_overrides := [[0 \<mapsto> \<lparr>so_key = override_frame_key 0 0 3, so_entry = \<lparr>fe_offset = 0, fe_len = 1\<rparr>\<rparr>]]\<rparr>"

definition overridden_backend :: backend where
  "overridden_backend = \<lparr>bk_objects = [page_group_key 0 2 \<mapsto> [5, 6], override_frame_key 0 0 3 \<mapsto> [9]], bk_fault = (\<lambda>_. None), bk_ops = 0\<rparr>"

lemma plain_seal_bounded: "seal_bounded plain_codec"
proof -
  have "length (seal_aad a x) = 2 * length a + 1 + length x" for a x by (induction a) simp_all
  then show ?thesis
    by (auto simp: seal_bounded_def seal_frame_def compress_def plain_codec_def encrypt_gcm_random_nonce_def split: option.splits)
qed

lemma overridden_keys [simp]: "page_group_key 0 2 \<noteq> override_frame_key 0 0 3" "override_frame_key 0 0 3 \<noteq> page_group_key 0 2"
  "page_group_key 0 2 \<noteq> []" "override_frame_key 0 0 3 \<noteq> []"
  using key_of_inject [of "PageGroupSlot 0" 2 "OverrideSlot 0 0" 3] key_of_nonempty(1) [of "PageGroupSlot 0" 2]
    key_of_nonempty(1) [of "OverrideSlot 0 0" 3] by auto

lemma overridden_pages:
  "seekable_bulk plain_codec None overridden_manifest 0 2 [5, 6] = Inr [5, 6]"
  "remote_page plain_codec None overridden_manifest (bk_objects overridden_backend) 0 0 = Some [9]"
  "base_page plain_codec None overridden_manifest (bk_objects overridden_backend) 0 0 = Some [5]"
proof -
  show bulk: "seekable_bulk plain_codec None overridden_manifest 0 2 [5, 6] = Inr [5, 6]"
    by (simp add: seekable_bulk_def decode_page_group_seekable_full_def overridden_manifest_def empty_manifest_def Let_def
        frame_cap_def checked_mul_def open_frame_def decrypt_if_needed_def decompress_capped_def plain_codec_def bslice_def)
  show "base_page plain_codec None overridden_manifest (bk_objects overridden_backend) 0 0 = Some [5]"
  proof -
    have f: "get (page_group_keys overridden_manifest) 0 = Some (page_group_key 0 2)" "has_frame_table overridden_manifest 0"
      "length (group_page_nums overridden_manifest 0) = 2" "page_size overridden_manifest = 1"
      "bk_objects overridden_backend (page_group_key 0 2) = Some [5, 6]"
      by (simp_all add: overridden_manifest_def overridden_backend_def has_frame_table_def group_page_nums_def get_def)
    show ?thesis unfolding base_page_def f option.case Let_def bulk by (simp add: f bslice_def)
  qed
  show "remote_page plain_codec None overridden_manifest (bk_objects overridden_backend) 0 0 = Some [9]"
    by (simp add: remote_page_split override_at_def override_frame_def open_override_def overridden_manifest_def overridden_backend_def
        get_def decode_seekable_subchunk_def open_frame_def decrypt_if_needed_def decompress_capped_def plain_codec_def
        MAX_TIERED_DECOMPRESSED_BYTES_def overlaid_def bslice_def)
qed

lemma overridden_wf: "store_wf plain_codec None overridden_manifest (bk_objects overridden_backend)"
proof -
  have keys: "keys_wf overridden_manifest"
  proof -
    have "k = page_group_key gid 2" if "get (page_group_keys overridden_manifest) gid = Some k" for gid k
      using that by (auto simp: overridden_manifest_def)
    moreover have "so_key ov = override_frame_key gid f 3" if "override_at overridden_manifest gid f = Some ov" for gid f ov
      using that by (auto simp: overridden_manifest_def override_at_def get_def bind_eq_Some_conv split: if_splits)
    moreover have "2 \<le> version overridden_manifest" "3 \<le> version overridden_manifest" by (simp_all add: overridden_manifest_def)
    ultimately show ?thesis unfolding keys_wf_def by blast
  qed
  have base: "length d = 1" if "base_page plain_codec None overridden_manifest (bk_objects overridden_backend) gid pos = Some d" for gid pos d
    using that by (cases gid)
      (auto simp: base_page_def overridden_manifest_def get_def has_frame_table_def Let_def split: option.splits sum.splits if_splits)
  have "length d = 1" if "remote_page plain_codec None overridden_manifest (bk_objects overridden_backend) gid pos = Some d" for gid pos d
    using that base by (auto simp: remote_page_split overlaid_def overridden_manifest_def split: if_splits option.splits)
  moreover have "bk_objects overridden_backend [] = None"
    using overridden_keys(3,4) [symmetric] by (simp add: overridden_backend_def)
  moreover have "version overridden_manifest + 1 < U64_SIZE" "page_size overridden_manifest = 1" by (simp_all add: overridden_manifest_def)
  moreover have "finite (dom ovs)" if "get (subframe_overrides overridden_manifest) gid = Some ovs" for gid ovs
    using that by (auto simp: overridden_manifest_def)
  moreover have "group_limits (page_size overridden_manifest) (length (group_page_nums overridden_manifest gid)) (page_count overridden_manifest)"
    if "group_page_nums overridden_manifest gid \<noteq> []" for gid
    using that by (auto simp: overridden_manifest_def group_page_nums_def get_def group_limits_def MAX_TIERED_DECOMPRESSED_BYTES_def
        split: if_splits)
  ultimately show ?thesis using keys unfolding store_wf_def by metis
qed

definition overridden_run :: "nat io_result \<times> manifest \<times> backend" where
  "overridden_run = compact_overrides_inner plain_codec (\<lambda>_ _. zeros 12) None sorted_list_of_set sorted_list_of_set
     \<lparr>ms_to_vec = (\<lambda>_. Some []), ms_from_slice = (\<lambda>_. None)\<rparr> None (overridden_manifest, overridden_backend)"

theorem override_compaction_keeps_pages_witness:
  "remote_page plain_codec None overridden_manifest (bk_objects overridden_backend) 0 0 = Some [9] \<and>
   remote_page plain_codec None (fst (snd overridden_run)) (bk_objects (snd (snd overridden_run))) 0 0 = Some [9]"
proof -
  have spf: "0 < sub_pages_per_frame overridden_manifest" "0 < length (group_page_nums overridden_manifest 0)"
    by (simp_all add: overridden_manifest_def group_page_nums_def get_def)
  have n: "length (zeros 12) = 12" by simp
  obtain res m' b' where run: "overridden_run = (res, m', b')" by (metis surj_pair)
  show ?thesis
    using override_compaction_keeps_pages [OF plain_codec_contract plain_seal_bounded n sorted_iter.hash_iteration_axioms spf(1) overridden_wf
      run [unfolded overridden_run_def] spf(2) overridden_pages(2)] overridden_pages(2) by (simp add: run)
qed

end
