(* ===== verification/Flush.thy ===== *)
theory Flush
  imports Overrides Cache_View Staging
begin

text \<open>
  The background upload of checkpointed pages (\<open>src/src/tiered/flush.rs\<close>): staging logs are merged,
  every dirty group is re-encoded as a new base object or as override frames, the objects and then the
  manifest are uploaded, and the local copies follow. A failed flush puts the pending work back.

  Everything the call shares with the rest of the process is in \<open>flush_state\<close>; \<open>flush_env\<close> has what it
  is called with: the settings, the codec with the random nonces of each object, the serialisers with
  the faults of the local state file, and the iteration orders of the hash sets.
\<close>

subsection \<open>State\<close>

record flush_state =
  fs_backend :: backend
  fs_cache :: disk_cache
  fs_manifest :: manifest
  fs_dirty :: "nat set"
  fs_pending :: "pending_flush list"
  fs_logs :: "string \<rightharpoonup> bytes"
  fs_local :: "bytes option"

record flush_env =
  fe_codec :: codec
  fe_key :: "bytes option"
  fe_nonces :: "string \<Rightarrow> nat \<Rightarrow> bytes"
  fe_compact_nonces :: "nat \<Rightarrow> nat \<Rightarrow> bytes"
  fe_is_local :: bool
  fe_gc :: bool
  fe_override_threshold :: nat
  fe_compaction_threshold :: nat
  fe_manifest_serde :: manifest_serde
  fe_serde :: serde
  fe_manifest_fault :: write_fault
  fe_dirty_fault :: write_fault
  fe_bitmap_fault :: write_fault
  fe_iter :: "nat set \<Rightarrow> nat list"
  fe_tree_iter :: "nat set \<Rightarrow> nat list"
  fe_chunk_iter :: "sub_chunk_id set \<Rightarrow> sub_chunk_id list"

subsection \<open>Staged pages\<close>

text \<open>Later logs win; a log that cannot be opened fails the flush.\<close>

fun read_logs :: "(string \<rightharpoonup> bytes) \<Rightarrow> pending_flush list \<Rightarrow> (nat \<rightharpoonup> bytes) \<Rightarrow> (nat \<rightharpoonup> bytes) io_result" where
  "read_logs logs [] staged = Inr staged"
| "read_logs logs (f # fs) staged =
     (case logs (pf_staging_path f) of
        None \<Rightarrow> Inl (Io NotFound ''staging log'')
      | Some data \<Rightarrow> bind_result (read_staging_log data (pf_page_size f)) (\<lambda>pages. read_logs logs fs (staged ++ pages)))"

definition dirty_group_ids :: "manifest \<Rightarrow> (nat \<rightharpoonup> bytes) \<Rightarrow> nat set \<Rightarrow> nat set" where
  "dirty_group_ids m staged legacy = legacy \<union> pl_group_id ` Option.these (page_location m ` dom staged)"

definition effective_threshold :: "manifest \<Rightarrow> nat \<Rightarrow> nat" where
  "effective_threshold m override_threshold =
     (let spf = sub_pages_per_frame m in
      if 0 < override_threshold then override_threshold
      else if 0 < spf then max 1 (div_ceil (pages_per_group m) spf div 4)
      else 0)"

subsection \<open>The pages of a dirty group\<close>

definition staged_or_cached :: "codec \<Rightarrow> (nat \<rightharpoonup> bytes) \<Rightarrow> disk_cache \<Rightarrow> nat \<Rightarrow> nat \<Rightarrow> bytes option io_result" where
  "staged_or_cached C staged dc ps pnum =
     (case staged pnum of Some data \<Rightarrow> Inr (Some data) | None \<Rightarrow> read_page_if_present C pnum (zeros ps) dc)"

definition dirty_frames :: "manifest \<Rightarrow> (nat \<rightharpoonup> bytes) \<Rightarrow> nat \<Rightarrow> nat \<Rightarrow> nat list" where
  "dirty_frames m staged threshold gid =
     (let pages_in_group = group_page_nums m gid;
          group_dirty_pnums = filter (\<lambda>p. p < page_count m \<and> staged p \<noteq> None) pages_in_group
      in if has_frame_table m gid \<and> 0 < threshold
         then dirty_frames_for_group group_dirty_pnums pages_in_group (frame_tables m ! gid) (sub_pages_per_frame m)
         else [])"

definition use_override :: "manifest \<Rightarrow> (nat \<rightharpoonup> bytes) \<Rightarrow> nat \<Rightarrow> nat \<Rightarrow> bool" where
  "use_override m staged threshold gid \<longleftrightarrow>
     (let frames = dirty_frames m staged threshold gid
      in has_frame_table m gid \<and> 0 < threshold \<and> frames \<noteq> [] \<and> length frames < threshold)"

definition frame_positions :: "manifest \<Rightarrow> nat \<Rightarrow> nat \<Rightarrow> nat list" where
  "frame_positions m gid f =
     (let spf = sub_pages_per_frame m in [f * spf..<min (f * spf + spf) (length (group_page_nums m gid))])"

definition needs_base :: "manifest \<Rightarrow> (nat \<rightharpoonup> bytes) \<Rightarrow> disk_cache \<Rightarrow> nat \<Rightarrow> nat list \<Rightarrow> bool" where
  "needs_base m staged dc gid frames \<longleftrightarrow>
     list_ex (\<lambda>f. list_ex (\<lambda>pos. let p = group_page_nums m gid ! pos
       in p < page_count m \<and> staged p = None \<and> \<not> dc_is_present p dc) (frame_positions m gid f)) frames"

definition page_or_base :: "bytes option \<Rightarrow> bytes list option \<Rightarrow> nat \<Rightarrow> bytes io_result" where
  "page_or_base own existing pos =
     (case own of
        Some data \<Rightarrow> Inr data
      | None \<Rightarrow>
          (case existing of
             Some base \<Rightarrow>
               (case get base pos of
                  Some page \<Rightarrow> Inr page
                | None \<Rightarrow> Inl (Io Other ''flush: override frame page missing from fetched base''))
           | None \<Rightarrow> Inl (Io InvalidData ''flush: page is missing and has no backend source'')))"

fun frame_pages ::
  "codec \<Rightarrow> (nat \<rightharpoonup> bytes) \<Rightarrow> disk_cache \<Rightarrow> manifest \<Rightarrow> nat \<Rightarrow> bytes list option \<Rightarrow> nat list \<Rightarrow> (nat \<times> bytes) list io_result" where
  "frame_pages C staged dc m gid existing [] = Inr []"
| "frame_pages C staged dc m gid existing (pos # poss) =
     (let pnum = group_page_nums m gid ! pos in
      if page_count m \<le> pnum then Inr []
      else bind_result (staged_or_cached C staged dc (page_size m) pnum) (\<lambda>own.
           bind_result (page_or_base own existing pos) (\<lambda>data.
           bind_result (frame_pages C staged dc m gid existing poss) (\<lambda>rest. Inr ((pnum, data) # rest)))))"

definition encode_dirty_frame ::
  "flush_env \<Rightarrow> (nat \<rightharpoonup> bytes) \<Rightarrow> disk_cache \<Rightarrow> manifest \<Rightarrow> nat \<Rightarrow> nat \<Rightarrow> bytes list option \<Rightarrow> nat \<Rightarrow> (nat \<times> bytes) io_result" where
  "encode_dirty_frame E staged dc m v gid existing f =
     bind_result (frame_pages (fe_codec E) staged dc m gid existing (frame_positions m gid f)) (\<lambda>pages.
     bind_result (encode_override_frame (fe_codec E) (fe_nonces E (override_frame_key gid f v) 0) pages (page_size m)
         (aad_override_frame gid f) (fe_key E)) (\<lambda>encoded. Inr (f, encoded)))"

definition merged_pages ::
  "codec \<Rightarrow> bytes option \<Rightarrow> (nat \<rightharpoonup> bytes) \<Rightarrow> disk_cache \<Rightarrow> manifest \<Rightarrow> nat \<Rightarrow> bytes option list store_op" where
  "merged_pages C key staged dc m gid b =
     (let pages_in_group = group_page_nums m gid;
          in_bounds = takeWhile (\<lambda>p. p < page_count m) pages_in_group
      in case collect_results (map (staged_or_cached C staged dc (page_size m)) in_bounds) of
           Inl e \<Rightarrow> (Inl e, b)
         | Inr own \<Rightarrow>
             and_then (if None \<in> set own then fetch_existing_group_pages C key gid m pages_in_group b else (Inr None, b)) (\<lambda>existing b.
               let merged = (case existing of
                     None \<Rightarrow> own
                   | Some pages \<Rightarrow> map (\<lambda>(j, page). if page = None then get pages j else page) (List.enumerate 0 own))
               in if None \<in> set merged then (Inl (Io InvalidData ''flush: page is missing and has no backend source''), b)
                  else (Inr (merged @ replicate (length pages_in_group - length in_bounds) None), b)))"

text \<open>What becomes of a dirty group: new override frames, or a new base object with its frame table.\<close>

datatype group_flush = Overridden "(nat \<times> bytes) list" | Rewritten bytes "frame_entry list"

definition flush_group ::
  "flush_env \<Rightarrow> (nat \<rightharpoonup> bytes) \<Rightarrow> disk_cache \<Rightarrow> manifest \<Rightarrow> nat \<Rightarrow> nat \<Rightarrow> group_flush store_op" where
  "flush_group E staged dc m v gid b =
     (let C = fe_codec E; threshold = effective_threshold m (fe_override_threshold E);
          frames = dirty_frames m staged threshold gid in
      if use_override m staged threshold gid then
        and_then (if needs_base m staged dc gid frames then fetch_existing_group_pages C (fe_key E) gid m (group_page_nums m gid) b
                  else (Inr None, b)) (\<lambda>existing b.
          (map_sum id Overridden (collect_results (map (encode_dirty_frame E staged dc m v gid existing) frames)), b))
      else
        and_then (merged_pages C (fe_key E) staged dc m gid b) (\<lambda>pages b.
          let nonces = fe_nonces E (page_group_key gid v) in
          if 0 < sub_pages_per_frame m then
            (map_sum id (\<lambda>(encoded, ft). Rewritten encoded ft)
               (encode_page_group_seekable C nonces pages (page_size m) (sub_pages_per_frame m) (aad_page_group gid) (fe_key E)), b)
          else
            (map_sum id (\<lambda>encoded. Rewritten encoded [])
               (encode_page_group C (nonces 0) pages (page_size m) (aad_page_group gid) (fe_key E)), b)))"

subsection \<open>The new manifest parts\<close>

record flush_acc =
  fa_uploads :: "(string \<times> bytes) list"
  fa_keys :: "string list"
  fa_replaced :: "string list"
  fa_frame_tables :: "frame_entry list list"
  fa_overrides :: "(nat \<rightharpoonup> subframe_override) list"
  fa_rewritten :: "nat set"

definition initial_acc :: "manifest \<Rightarrow> flush_acc" where
  "initial_acc m = \<lparr>fa_uploads = [], fa_keys = page_group_keys m, fa_replaced = [], fa_frame_tables = frame_tables m,
     fa_overrides = subframe_overrides m, fa_rewritten = {}\<rparr>"

definition add_override :: "nat \<Rightarrow> nat \<Rightarrow> nat \<times> bytes \<Rightarrow> flush_acc \<Rightarrow> flush_acc" where
  "add_override v gid fe acc =
     (case fe of (f, encoded) \<Rightarrow>
        let key = override_frame_key gid f v; ovs = fa_overrides acc ! gid
        in acc\<lparr>fa_replaced := fa_replaced acc @ (case ovs f of Some old \<Rightarrow> [so_key old] | None \<Rightarrow> []),
               fa_uploads := fa_uploads acc @ [(key, encoded)],
               fa_overrides := (fa_overrides acc)[gid := ovs(f \<mapsto>
                 \<lparr>so_key = key, so_entry = \<lparr>fe_offset = 0, fe_len = length encoded mod U32_SIZE\<rparr>\<rparr>)]\<rparr>)"

definition apply_group :: "manifest \<Rightarrow> nat \<Rightarrow> nat \<Rightarrow> group_flush \<Rightarrow> flush_acc \<Rightarrow> flush_acc" where
  "apply_group m v gid r acc =
     (case r of
        Overridden frames \<Rightarrow>
          fold (add_override v gid) frames (acc\<lparr>fa_overrides := pad_to (gid + 1) Map.empty (fa_overrides acc)\<rparr>)
      | Rewritten encoded ft \<Rightarrow>
          let key = page_group_key gid v; keys = pad_to (gid + 1) [] (fa_keys acc); old_key = keys ! gid
          in acc\<lparr>fa_rewritten := insert gid (fa_rewritten acc), fa_uploads := fa_uploads acc @ [(key, encoded)],
                 fa_frame_tables := (if 0 < sub_pages_per_frame m then (pad_to (gid + 1) [] (fa_frame_tables acc))[gid := ft]
                                     else fa_frame_tables acc),
                 fa_replaced := fa_replaced acc @ (if old_key = [] then [] else [old_key]),
                 fa_keys := keys[gid := key]\<rparr>)"

fun flush_groups ::
  "flush_env \<Rightarrow> (nat \<rightharpoonup> bytes) \<Rightarrow> disk_cache \<Rightarrow> manifest \<Rightarrow> nat \<Rightarrow> nat list \<Rightarrow> flush_acc \<Rightarrow> flush_acc store_op" where
  "flush_groups E staged dc m v [] acc b = (Inr acc, b)"
| "flush_groups E staged dc m v (gid # gids) acc b =
     and_then (flush_group E staged dc m v gid b) (\<lambda>r b. flush_groups E staged dc m v gids (apply_group m v gid r acc) b)"

subsection \<open>Interior and index bundles\<close>

text \<open>
  Bundles of the interior pages the cache knows, and of the index leaves of the dirty groups and of
  the index sub-chunks in the cache; a remote backend gets both.
\<close>

definition staged_or_file :: "codec \<Rightarrow> (nat \<rightharpoonup> bytes) \<Rightarrow> disk_cache \<Rightarrow> nat \<Rightarrow> nat \<Rightarrow> bytes option" where
  "staged_or_file C staged dc ps pnum =
     (case staged pnum of Some data \<Rightarrow> Some data
      | None \<Rightarrow> (case read_page C pnum (zeros ps) dc of Inr buf \<Rightarrow> Some buf | Inl _ \<Rightarrow> None))"

definition all_interior :: "codec \<Rightarrow> (nat \<rightharpoonup> bytes) \<Rightarrow> disk_cache \<Rightarrow> manifest \<Rightarrow> nat \<rightharpoonup> bytes" where
  "all_interior C staged dc m pnum =
     (if pnum \<in> dc_interior_pages dc \<and> pnum < page_count m then staged_or_file C staged dc (page_size m) pnum else None)"

definition is_index_leaf :: "nat \<Rightarrow> bytes \<Rightarrow> bool" where
  "is_index_leaf pnum buf \<longleftrightarrow>
     (let hdr_off = (if pnum = 0 then 100 else 0) in get buf hdr_off = Some 0x0A \<and> is_valid_btree_page buf hdr_off)"

definition keep_leaf :: "nat \<Rightarrow> bytes option \<Rightarrow> (nat \<rightharpoonup> bytes) \<Rightarrow> (nat \<rightharpoonup> bytes)" where
  "keep_leaf pnum buf leaves =
     (case buf of Some data \<Rightarrow> if is_index_leaf pnum data then leaves(pnum \<mapsto> data) else leaves | None \<Rightarrow> leaves)"

fun dirty_index_leaves ::
  "codec \<Rightarrow> (nat \<rightharpoonup> bytes) \<Rightarrow> disk_cache \<Rightarrow> manifest \<Rightarrow> nat list \<Rightarrow> (nat \<rightharpoonup> bytes) \<Rightarrow> (nat \<rightharpoonup> bytes) io_result" where
  "dirty_index_leaves C staged dc m [] leaves = Inr leaves"
| "dirty_index_leaves C staged dc m (pnum # pnums) leaves =
     (if page_count m \<le> pnum \<or> leaves pnum \<noteq> None then dirty_index_leaves C staged dc m pnums leaves
      else bind_result (staged_or_cached C staged dc (page_size m) pnum) (\<lambda>buf.
        dirty_index_leaves C staged dc m pnums (keep_leaf pnum buf leaves)))"

definition tracked_index_leaves ::
  "codec \<Rightarrow> (nat \<rightharpoonup> bytes) \<Rightarrow> disk_cache \<Rightarrow> manifest \<Rightarrow> sub_chunk_id list \<Rightarrow> (nat \<rightharpoonup> bytes) \<Rightarrow> (nat \<rightharpoonup> bytes)" where
  "tracked_index_leaves C staged dc m chunk_ids leaves =
     fold (\<lambda>pnum leaves. if page_count m \<le> pnum \<or> leaves pnum \<noteq> None then leaves
           else keep_leaf pnum (staged_or_file C staged dc (page_size m) pnum) leaves)
       (concat (map (\<lambda>i. pages_for_sub_chunk (dc_tracker dc) i (page_count m)) chunk_ids)) leaves"

definition all_index_leaves ::
  "flush_env \<Rightarrow> (nat \<rightharpoonup> bytes) \<Rightarrow> disk_cache \<Rightarrow> manifest \<Rightarrow> nat list \<Rightarrow> (nat \<rightharpoonup> bytes) io_result" where
  "all_index_leaves E staged dc m gids =
     (let t = dc_tracker dc; index_sub_chunks = filter (\<lambda>i. tiers t i = Some Index) (fe_chunk_iter E (present t)) in
      bind_result (dirty_index_leaves (fe_codec E) staged dc m (concat (map (group_page_nums m) gids)) Map.empty) (\<lambda>leaves.
        Inr (tracked_index_leaves (fe_codec E) staged dc m index_sub_chunks leaves)))"

definition chunk_id_of :: "nat \<Rightarrow> nat \<Rightarrow> nat" where
  "chunk_id_of ps pnum = (pnum div bundle_chunk_range ps) mod U32_SIZE"

definition chunk_pages :: "nat \<Rightarrow> (nat \<rightharpoonup> bytes) \<Rightarrow> nat \<Rightarrow> (nat \<times> bytes) list" where
  "chunk_pages ps pages chunk_id =
     map (\<lambda>p. (p, the (pages p))) (sorted_list_of_set {p \<in> dom pages. chunk_id_of ps p = chunk_id})"

record bundle_acc =
  ba_uploads :: "(string \<times> bytes) list"
  ba_replaced :: "string list"
  ba_keys :: "nat \<rightharpoonup> string"

text \<open>One kind of bundle: \<open>kind\<close> gives the object key of a chunk at a version and its associated data.\<close>

fun bundle_loop ::
  "flush_env \<Rightarrow> (nat \<Rightarrow> nat \<Rightarrow> string) \<times> (nat \<Rightarrow> bytes) \<Rightarrow> nat \<Rightarrow> nat \<Rightarrow> (nat \<rightharpoonup> bytes) \<Rightarrow> nat set \<Rightarrow> (nat \<rightharpoonup> string)
     \<Rightarrow> nat list \<Rightarrow> bundle_acc \<Rightarrow> bundle_acc io_result" where
  "bundle_loop E kind ps v pages dirty_ids old [] acc = Inr acc"
| "bundle_loop E kind ps v pages dirty_ids old (cid # cids) acc =
     (case old cid of
        Some old_key \<Rightarrow>
          if cid \<in> dirty_ids then
            bind_result (encode_interior_bundle (fe_codec E) (fe_nonces E (fst kind cid v) 0) (chunk_pages ps pages cid) ps (snd kind cid) (fe_key E)) (\<lambda>encoded.
              bundle_loop E kind ps v pages dirty_ids old cids
                \<lparr>ba_uploads = ba_uploads acc @ [(fst kind cid v, encoded)], ba_replaced = ba_replaced acc @ [old_key],
                 ba_keys = (ba_keys acc)(cid \<mapsto> fst kind cid v)\<rparr>)
          else bundle_loop E kind ps v pages dirty_ids old cids (acc\<lparr>ba_keys := (ba_keys acc)(cid \<mapsto> old_key)\<rparr>)
      | None \<Rightarrow>
          bind_result (encode_interior_bundle (fe_codec E) (fe_nonces E (fst kind cid v) 0) (chunk_pages ps pages cid) ps (snd kind cid) (fe_key E)) (\<lambda>encoded.
            bundle_loop E kind ps v pages dirty_ids old cids
              (acc\<lparr>ba_uploads := ba_uploads acc @ [(fst kind cid v, encoded)], ba_keys := (ba_keys acc)(cid \<mapsto> fst kind cid v)\<rparr>)))"

definition build_bundles ::
  "flush_env \<Rightarrow> (nat \<Rightarrow> nat \<Rightarrow> string) \<times> (nat \<Rightarrow> bytes) \<Rightarrow> nat \<Rightarrow> nat \<Rightarrow> (nat \<rightharpoonup> bytes) \<Rightarrow> nat set \<Rightarrow> (nat \<rightharpoonup> string) \<Rightarrow> bundle_acc io_result" where
  "build_bundles E kind ps v pages dirty_pages old =
     (let ids = chunk_id_of ps ` dom pages in
      if bundle_chunk_range ps = 0 \<and> (dom pages \<noteq> {} \<or> dirty_pages \<noteq> {}) then panic ''attempt to divide by zero''
      else bind_result (bundle_loop E kind ps v pages (chunk_id_of ps ` dirty_pages) old (fe_iter E ids)
             \<lparr>ba_uploads = [], ba_replaced = [], ba_keys = Map.empty\<rparr>) (\<lambda>acc.
        Inr (acc\<lparr>ba_replaced := ba_replaced acc @ map (\<lambda>cid. the (old cid)) (filter (\<lambda>cid. cid \<notin> ids) (fe_iter E (dom old)))\<rparr>)))"

definition remote_bundles ::
  "flush_env \<Rightarrow> (nat \<rightharpoonup> bytes) \<Rightarrow> disk_cache \<Rightarrow> manifest \<Rightarrow> nat \<Rightarrow> nat list \<Rightarrow> (bundle_acc \<times> bundle_acc) io_result" where
  "remote_bundles E staged dc m v gids =
     (let ps = page_size m; dirty_pages = {p \<in> set (concat (map (group_page_nums m) gids)). p < page_count m} in
      bind_result (build_bundles E (interior_chunk_key, aad_interior_bundle) ps v (all_interior (fe_codec E) staged dc m) dirty_pages
        (interior_chunk_keys m)) (\<lambda>interior.
      bind_result (all_index_leaves E staged dc m gids) (\<lambda>leaves.
      bind_result (build_bundles E (index_chunk_key, aad_index_bundle) ps v leaves dirty_pages (index_chunk_keys m)) (\<lambda>index.
        Inr (interior, index)))))"

definition bundles ::
  "flush_env \<Rightarrow> (nat \<rightharpoonup> bytes) \<Rightarrow> disk_cache \<Rightarrow> manifest \<Rightarrow> nat \<Rightarrow> nat list \<Rightarrow> (bundle_acc \<times> bundle_acc) io_result" where
  "bundles E staged dc m v gids =
     (if fe_is_local E
      then Inr (\<lparr>ba_uploads = [], ba_replaced = [], ba_keys = interior_chunk_keys m\<rparr>,
                \<lparr>ba_uploads = [], ba_replaced = [], ba_keys = index_chunk_keys m\<rparr>)
      else remote_bundles E staged dc m v gids)"

subsection \<open>Publication\<close>

text \<open>The overrides of a rewritten group are drained; their objects are garbage.\<close>

definition drain_group :: "flush_env \<Rightarrow> nat \<Rightarrow> flush_acc \<Rightarrow> flush_acc" where
  "drain_group E gid acc =
     (if gid < length (fa_overrides acc)
      then acc\<lparr>fa_replaced := fa_replaced acc @ map (\<lambda>f. so_key (the ((fa_overrides acc ! gid) f))) (fe_iter E (dom (fa_overrides acc ! gid))),
               fa_overrides := (fa_overrides acc)[gid := Map.empty]\<rparr>
      else acc)"

definition drain_overrides :: "flush_env \<Rightarrow> flush_acc \<Rightarrow> flush_acc" where
  "drain_overrides E acc =
     fold (drain_group E) (fe_iter E (fa_rewritten acc)) (acc\<lparr>fa_overrides := pad_to (length (fa_keys acc)) Map.empty (fa_overrides acc)\<rparr>)"

definition flushed_manifest :: "flush_env \<Rightarrow> manifest \<Rightarrow> nat \<Rightarrow> nat \<Rightarrow> flush_acc \<Rightarrow> bundle_acc \<times> bundle_acc \<Rightarrow> manifest" where
  "flushed_manifest E m v cc acc bs =
     build_page_index (fe_tree_iter E) (m\<lparr>version := v, change_counter := cc, page_group_keys := fa_keys acc,
       interior_chunk_keys := ba_keys (fst bs), index_chunk_keys := ba_keys (snd bs), frame_tables := fa_frame_tables acc,
       subframe_overrides := fa_overrides acc\<rparr>)"

definition remove_logs :: "pending_flush list \<Rightarrow> flush_state \<Rightarrow> flush_state" where
  "remove_logs fls s = s\<lparr>fs_logs := fold (\<lambda>f logs. logs(pf_staging_path f := None)) fls (fs_logs s)\<rparr>"

text \<open>Steps 7 to 11: local copies, shared state, garbage collection, clean-up and compaction.\<close>

definition finish_flush :: "flush_env \<Rightarrow> pending_flush list \<Rightarrow> manifest \<Rightarrow> string list \<Rightarrow> flush_state \<Rightarrow> unit io_result \<times> flush_state" where
  "finish_flush E fls m' replaced s =
     (case persist_manifest_local (fe_serde E) (fe_manifest_fault E) m' (fs_local s) of
        (Inl e, fl) \<Rightarrow> (Inl (Io Other ''flush: failed to persist local manifest''), s\<lparr>fs_local := fl\<rparr>)
      | (Inr _, fl) \<Rightarrow>
          (case persist_dirty_groups (fe_serde E) (fe_dirty_fault E) [] fl of
             (Inl e, fl) \<Rightarrow> (Inl (Io Other ''flush: failed to clear dirty_groups''), s\<lparr>fs_local := fl\<rparr>)
           | (Inr _, fl) \<Rightarrow>
               let dc = set_group_pages (group_pages m') (fs_cache s);
                   fl = snd (persist_bitmap (fe_chunk_iter E) (fe_serde E) (fe_bitmap_fault E) dc fl);
                   b = (if fe_gc E then snd (delete_objects replaced (fs_backend s)) else fs_backend s);
                   s = remove_logs fls (s\<lparr>fs_local := fl, fs_cache := dc, fs_manifest := m', fs_backend := b\<rparr>)
               in if 0 < fe_compaction_threshold E
                  then (case compact_overrides_inner (fe_codec E) (fe_compact_nonces E) (fe_key E) (fe_iter E) (fe_tree_iter E)
                               (fe_manifest_serde E) (Some (fe_compaction_threshold E)) (fs_manifest s, fs_backend s) of
                          (_, m', b) \<Rightarrow> (Inr (), s\<lparr>fs_manifest := m', fs_backend := b\<rparr>))
                  else (Inr (), s)))"

definition flush_upload ::
  "flush_env \<Rightarrow> pending_flush list \<Rightarrow> (nat \<rightharpoonup> bytes) \<Rightarrow> nat list \<Rightarrow> nat \<Rightarrow> flush_state \<Rightarrow> unit io_result \<times> flush_state" where
  "flush_upload E fls staged gids cc s =
     (let m = fs_manifest s; v = (version m + 1) mod U64_SIZE in
      case flush_groups E staged (fs_cache s) m v gids (initial_acc m) (fs_backend s) of
        (Inl e, b) \<Rightarrow> (Inl e, s\<lparr>fs_backend := b\<rparr>)
      | (Inr acc, b) \<Rightarrow>
          (case bundles E staged (fs_cache s) m v gids of
             Inl e \<Rightarrow> (Inl e, s\<lparr>fs_backend := b\<rparr>)
           | Inr bs \<Rightarrow>
               (case put_page_groups (fa_uploads acc @ ba_uploads (fst bs) @ ba_uploads (snd bs)) b of
                  (Inl e, b) \<Rightarrow> (Inl e, s\<lparr>fs_backend := b\<rparr>)
                | (Inr _, b) \<Rightarrow>
                    let acc = drain_overrides E (acc\<lparr>fa_replaced := fa_replaced acc @ ba_replaced (fst bs) @ ba_replaced (snd bs)\<rparr>);
                        m' = flushed_manifest E m v cc acc bs
                    in (case put_manifest (fe_tree_iter E) (fe_manifest_serde E) m' b of
                          (Inl e, b) \<Rightarrow> (Inl e, s\<lparr>fs_backend := b\<rparr>)
                        | (Inr _, b) \<Rightarrow> finish_flush E fls m' (fa_replaced acc) (s\<lparr>fs_backend := b\<rparr>)))))"

definition flush_inner :: "flush_env \<Rightarrow> pending_flush list \<Rightarrow> nat set \<Rightarrow> flush_state \<Rightarrow> unit io_result \<times> flush_state" where
  "flush_inner E fls legacy s =
     (let m = fs_manifest s in
      case read_logs (fs_logs s) fls Map.empty of
        Inl e \<Rightarrow> (Inl e, s)
      | Inr staged \<Rightarrow>
          if page_size m = 0 then (Inl (Io InvalidData ''flush: manifest has page_size=0''), s)
          else let dirty = dirty_group_ids m staged legacy in
            if dirty = {} then (Inr (), remove_logs fls s)
            else case resolve_manifest_replay_cursor (read_page (fe_codec E) 0 (zeros (page_size m)) (fs_cache s)) m of
              Inl e \<Rightarrow> (Inl e, s)
            | Inr cc \<Rightarrow> flush_upload E fls staged (fe_iter E dirty) cc s)"

definition flush_dirty_groups :: "flush_env \<Rightarrow> flush_state \<Rightarrow> unit io_result \<times> flush_state" where
  "flush_dirty_groups E s =
     (let fls = fs_pending s; legacy = fs_dirty s; s = s\<lparr>fs_pending := [], fs_dirty := {}\<rparr> in
      if fls = [] \<and> legacy = {} then (Inr (), s)
      else case flush_inner E fls legacy s of
        (Inr _, s) \<Rightarrow> (Inr (), s)
      | (Inl e, s) \<Rightarrow> (Inl e, s\<lparr>fs_pending := fs_pending s @ fls, fs_dirty := fs_dirty s \<union> legacy\<rparr>))"

end
