(* ===== verification/Flush_Safe.thy ===== *)
theory Flush_Safe
  imports Flush
begin

text \<open>
  What a flush does to the database in object storage. A failed flush leaves everything readable and
  every piece of pending work in place; a successful one publishes, page by page, the staged bytes
  over the cached ones over what was stored.
\<close>

subsection \<open>Reading changes no object\<close>

named_theorems same_objects

lemma get_page_group_objects [same_objects]: "get_page_group k b = (r, b') \<Longrightarrow> bk_objects b' = bk_objects b"
  by (auto simp: get_page_group_def tick_def split: option.splits)

lemma and_then_objects:
  assumes "and_then (r, b1) f = (x, b')" "bk_objects b1 = bk_objects b" "\<And>y b2. f y b1 = (x, b2) \<Longrightarrow> bk_objects b2 = bk_objects b1"
  shows "bk_objects b' = bk_objects b"
  using assms by (cases r) auto

lemma fetch_objects [same_objects]:
  "fetch_existing_group_pages C key gid m pages b = (r, b') \<Longrightarrow> bk_objects b' = bk_objects b"
  unfolding fetch_existing_group_pages_def and_then_def Let_def
  by (auto split: option.splits if_splits prod.splits sum.splits dest!: get_page_group_objects)

lemma merged_objects [same_objects]: "merged_pages C key staged dc m gid b = (r, b') \<Longrightarrow> bk_objects b' = bk_objects b"
  unfolding merged_pages_def and_then_def Let_def
  by (auto split: if_splits prod.splits sum.splits dest!: fetch_objects)

lemma flush_group_objects [same_objects]: "flush_group E staged dc m v gid b = (r, b') \<Longrightarrow> bk_objects b' = bk_objects b"
  unfolding flush_group_def and_then_def Let_def
  by (auto split: if_splits prod.splits sum.splits dest!: fetch_objects merged_objects)

lemma flush_groups_objects [same_objects]:
  "flush_groups E staged dc m v gids acc b = (r, b') \<Longrightarrow> bk_objects b' = bk_objects b"
proof (induction gids arbitrary: acc b)
  case (Cons gid gids)
  obtain g b1 where g: "flush_group E staged dc m v gid b = (g, b1)" by force
  then show ?case using Cons flush_group_objects [OF g] by (cases g) auto
qed simp

subsection \<open>New objects have new keys\<close>

definition fresh_at :: "nat \<Rightarrow> (string \<times> bytes) list \<Rightarrow> bool" where
  "fresh_at v ups \<longleftrightarrow> (\<forall>u \<in> set ups. \<exists>s. fst u = key_of s v)"

lemma fresh_at_simps [simp]: "fresh_at v []" "fresh_at v (a @ b) \<longleftrightarrow> fresh_at v a \<and> fresh_at v b"
  "fresh_at v [(page_group_key g v, x)]" "fresh_at v [(override_frame_key g f v, x)]"
  "fresh_at v [(interior_chunk_key g v, x)]" "fresh_at v [(index_chunk_key g v, x)]"
proof -
  show "fresh_at v [(page_group_key g v, x)]" unfolding fresh_at_def using key_of.simps(1) [of g v] by (metis empty_iff fst_conv list.set(1) list.set_cases set_ConsD)
  show "fresh_at v [(override_frame_key g f v, x)]" unfolding fresh_at_def using key_of.simps(4) [of g f v] by (metis empty_iff fst_conv list.set(1) set_ConsD)
  show "fresh_at v [(interior_chunk_key g v, x)]" unfolding fresh_at_def using key_of.simps(2) [of g v] by (metis empty_iff fst_conv list.set(1) set_ConsD)
  show "fresh_at v [(index_chunk_key g v, x)]" unfolding fresh_at_def using key_of.simps(3) [of g v] by (metis empty_iff fst_conv list.set(1) set_ConsD)
qed (auto simp: fresh_at_def)

lemma add_override_fresh: "fresh_at v (fa_uploads (fold (add_override v gid) fes acc)) \<longleftrightarrow> fresh_at v (fa_uploads acc)"
  by (induction fes arbitrary: acc) (auto simp: add_override_def Let_def split: prod.splits)

lemma apply_group_fresh: "fresh_at v (fa_uploads (apply_group m v gid r acc)) \<longleftrightarrow> fresh_at v (fa_uploads acc)"
  by (auto simp: apply_group_def Let_def add_override_fresh split: group_flush.splits)

lemma flush_groups_fresh:
  "flush_groups E staged dc m v gids acc b = (Inr acc', b') \<Longrightarrow> fresh_at v (fa_uploads acc) \<Longrightarrow> fresh_at v (fa_uploads acc')"
  by (induction gids arbitrary: acc b) (auto simp: and_then_ok apply_group_fresh)

lemma bundle_loop_fresh:
  assumes "bundle_loop E kind ps v pages dirty old cids acc = Inr acc'" "fresh_at v (ba_uploads acc)"
    and "\<And>cid x. fresh_at v [(fst kind cid v, x)]"
  shows "fresh_at v (ba_uploads acc')"
  using assms(1,2) by (induction cids arbitrary: acc) (auto simp: bind_result_Inr_iff assms(3) split: option.splits if_splits)

lemma build_bundles_fresh:
  assumes "build_bundles E kind ps v pages dirty old = Inr acc" "\<And>cid x. fresh_at v [(fst kind cid v, x)]"
  shows "fresh_at v (ba_uploads acc)"
  using assms by (auto simp: build_bundles_def Let_def bind_result_Inr_iff panic_def split: if_splits dest!: bundle_loop_fresh)

lemma bundles_fresh: "bundles E staged dc m v gids = Inr bs \<Longrightarrow> fresh_at v (ba_uploads (fst bs)) \<and> fresh_at v (ba_uploads (snd bs))"
  by (auto simp: bundles_def remote_bundles_def Let_def bind_result_Inr_iff split: if_splits dest!: build_bundles_fresh)

lemma fresh_uploads_reads:
  assumes "keys_wf m" "version m < v" "fresh_at v ups" "put_page_groups ups b = (r, b')"
  shows "remote_page C key m (bk_objects b') gid pos = remote_page C key m (bk_objects b) gid pos"
proof -
  obtain us where us: "set us \<subseteq> set ups" "bk_objects b' = put_all us (bk_objects b)" using put_page_groups_objects [OF assms(4)] by auto
  show ?thesis unfolding us(2) using us(1) assms(3) by (intro fresh_uploads [OF assms(1,2)]) (auto simp: fresh_at_def)
qed

lemma put_manifest_reads:
  assumes "keys_wf m" "put_manifest iter sd m' b = (r, b')"
  shows "remote_page C key m (bk_objects b') gid pos = remote_page C key m (bk_objects b) gid pos"
proof (rule remote_page_objects)
  fix k assume "k \<in> group_keys m gid"
  then have "k \<noteq> MANIFEST_KEY" using group_keys_fresh(2) [OF assms(1), of "version m + 1" gid] by auto
  then show "bk_objects b' k = bk_objects b k" by (rule put_manifest_objects [OF assms(2)])
qed

subsection \<open>A failed flush\<close>

text \<open>
  What a failed call leaves: the pending work, the logs and the manifest as they were, and an object
  store in which the manifest reads as before.
\<close>

definition same_reads :: "codec \<Rightarrow> bytes option \<Rightarrow> manifest \<Rightarrow> backend \<Rightarrow> backend \<Rightarrow> bool" where
  "same_reads C key m b b' \<longleftrightarrow> (\<forall>gid pos. remote_page C key m (bk_objects b') gid pos = remote_page C key m (bk_objects b) gid pos)"

definition flush_untouched :: "codec \<Rightarrow> bytes option \<Rightarrow> flush_state \<Rightarrow> flush_state \<Rightarrow> bool" where
  "flush_untouched C key s s' \<longleftrightarrow> fs_cache s' = fs_cache s \<and> fs_manifest s' = fs_manifest s \<and> fs_logs s' = fs_logs s
     \<and> fs_pending s' = fs_pending s \<and> fs_dirty s' = fs_dirty s \<and> same_reads C key (fs_manifest s) (fs_backend s) (fs_backend s')"

lemma finish_flush_failed:
  "finish_flush E fls m' replaced s = (Inl e, s') \<Longrightarrow> \<exists>fl. s' = s\<lparr>fs_local := fl\<rparr>"
  unfolding finish_flush_def Let_def by (auto split: prod.splits sum.splits if_splits)

lemma flush_upload_failed:
  assumes run: "flush_upload E fls staged gids cc s = (Inl e, s')" and wf: "keys_wf (fs_manifest s)" "version (fs_manifest s) + 1 < U64_SIZE"
  shows "flush_untouched (fe_codec E) (fe_key E) s s'"
proof -
  let ?m = "fs_manifest s" and ?R = "same_reads (fe_codec E) (fe_key E) (fs_manifest s) (fs_backend s)"
  let ?v = "version ?m + 1"
  have v: "(version ?m + 1) mod U64_SIZE = ?v" using wf(2) by simp
  note upload = flush_upload_def [of E fls staged gids cc s, unfolded Let_def v]
  have done_at: "flush_untouched (fe_codec E) (fe_key E) s (s\<lparr>fs_backend := b, fs_local := fl\<rparr>)" if "?R b" for b fl
    using that by (simp add: flush_untouched_def)
  obtain r1 b1 where g: "flush_groups E staged (fs_cache s) ?m ?v gids (initial_acc ?m) (fs_backend s) = (r1, b1)" by force
  have R1: "?R b1" using flush_groups_objects [OF g] by (simp add: same_reads_def)
  show ?thesis
  proof (cases r1)
    case (Inl x)
    then show ?thesis using run g done_at [OF R1, of "fs_local s"] by (simp add: upload)
  next
    case (Inr acc)
    have fa: "fresh_at ?v (fa_uploads acc)" using flush_groups_fresh [OF g [unfolded Inr]] by (simp add: initial_acc_def)
    show ?thesis
    proof (cases "bundles E staged (fs_cache s) ?m ?v gids")
      case (Inl x)
      then show ?thesis using run g Inr done_at [OF R1, of "fs_local s"] by (simp add: upload)
    next
      case bs: (Inr bs)
      let ?ups = "fa_uploads acc @ ba_uploads (fst bs) @ ba_uploads (snd bs)"
      let ?acc = "drain_overrides E (acc\<lparr>fa_replaced := fa_replaced acc @ ba_replaced (fst bs) @ ba_replaced (snd bs)\<rparr>)"
      let ?m' = "flushed_manifest E ?m ?v cc ?acc bs"
      obtain r2 b2 where up: "put_page_groups ?ups b1 = (r2, b2)" by force
      have "fresh_at ?v ?ups" using fa bundles_fresh [OF bs] by simp
      then have R2: "?R b2" using R1 fresh_uploads_reads [OF wf(1) less_add_one _ up] by (simp add: same_reads_def)
      obtain r3 b3 where mf: "put_manifest (fe_tree_iter E) (fe_manifest_serde E) ?m' b2 = (r3, b3)" by force
      have R3: "?R b3" using R2 put_manifest_reads [OF wf(1) mf] by (simp add: same_reads_def)
      have eq: "flush_upload E fls staged gids cc s = (case r2 of Inl e \<Rightarrow> (Inl e, s\<lparr>fs_backend := b2\<rparr>)
          | Inr _ \<Rightarrow> case r3 of Inl e \<Rightarrow> (Inl e, s\<lparr>fs_backend := b3\<rparr>)
          | Inr _ \<Rightarrow> finish_flush E fls ?m' (fa_replaced ?acc) (s\<lparr>fs_backend := b3\<rparr>))"
        using g Inr bs up mf by (simp add: upload split: sum.splits)
      show ?thesis
      proof (cases "is_ok r2 \<and> is_ok r3")
        case True
        then have "finish_flush E fls ?m' (fa_replaced ?acc) (s\<lparr>fs_backend := b3\<rparr>) = (Inl e, s')"
          using run eq by (cases r2; cases r3) simp_all
        from finish_flush_failed [OF this] show ?thesis using done_at [OF R3] by auto
      next
        case False
        then show ?thesis using run eq done_at [OF R2, of "fs_local s"] done_at [OF R3, of "fs_local s"] by (cases r2; cases r3) auto
      qed
    qed
  qed
qed

lemma flush_failed_untouched:
  assumes run: "flush_dirty_groups E s = (Inl e, s')" and wf: "keys_wf (fs_manifest s)" "version (fs_manifest s) + 1 < U64_SIZE"
  shows "flush_untouched (fe_codec E) (fe_key E) s s'"
proof -
  let ?s0 = "s\<lparr>fs_pending := [], fs_dirty := {}\<rparr>"
  obtain s1 where inner: "flush_inner E (fs_pending s) (fs_dirty s) ?s0 = (Inl e, s1)"
      "s' = s1\<lparr>fs_pending := fs_pending s1 @ fs_pending s, fs_dirty := fs_dirty s1 \<union> fs_dirty s\<rparr>"
    using run by (auto simp: flush_dirty_groups_def Let_def split: if_splits prod.splits sum.splits)
  have same: "flush_untouched (fe_codec E) (fe_key E) ?s0 ?s0" by (simp add: flush_untouched_def same_reads_def)
  have "flush_untouched (fe_codec E) (fe_key E) ?s0 s1"
    using inner(1) same flush_upload_failed [of E "fs_pending s" _ _ _ ?s0 e s1] wf
    by (auto simp: flush_inner_def Let_def split: sum.splits if_splits)
  then show ?thesis unfolding inner(2) by (simp add: flush_untouched_def)
qed

end
