(* ===== verification/Flush_Publish.thy ===== *)
theory Flush_Publish
  imports Flush_Safe
begin

text \<open>
  A successful flush. The manifest it publishes is described by three functions of a group, its key,
  its frame table and its overrides; the objects by their keys. From both follows what a reader of the
  new manifest gets for every page.
\<close>

subsection \<open>What a manifest says of a group\<close>

definition get_or :: "'a \<Rightarrow> 'a list \<Rightarrow> nat \<Rightarrow> 'a" where
  "get_or d xs i = (case get xs i of Some x \<Rightarrow> x | None \<Rightarrow> d)"

lemma get_or_pad [simp]: "get_or d (pad_to n d xs) i = get_or d xs i"
  by (simp add: get_or_def get_def pad_to_def nth_append)

lemma get_or_update [simp]: "get_or d ((pad_to (Suc i) d xs)[i := x]) j = (if j = i then x else get_or d xs j)"
  by (auto simp: get_or_def get_def pad_to_def nth_append nth_list_update)

lemma get_or_in: "i < length xs \<Longrightarrow> get_or d (xs[i := x]) j = (if j = i then x else get_or d xs j)" "i < length xs \<Longrightarrow> xs ! i = get_or d xs i"
  by (auto simp: get_or_def get_def)

definition key_at :: "manifest \<Rightarrow> nat \<Rightarrow> string" where
  "key_at m gid = get_or [] (page_group_keys m) gid"

definition table_at :: "manifest \<Rightarrow> nat \<Rightarrow> frame_entry list" where
  "table_at m gid = get_or [] (frame_tables m) gid"

definition override_key :: "manifest \<Rightarrow> nat \<Rightarrow> nat \<Rightarrow> string option" where
  "override_key m gid f = map_option so_key (get_or Map.empty (subframe_overrides m) gid f)"

lemma override_at_or: "override_at m gid f = get_or Map.empty (subframe_overrides m) gid f"
  by (auto simp: override_at_def get_or_def get_def)

lemma has_frame_table_at: "has_frame_table m gid \<longleftrightarrow> 0 < sub_pages_per_frame m \<and> table_at m gid \<noteq> []"
  by (auto simp: has_frame_table_def table_at_def get_or_def split: option.splits)

lemma table_at_nth: "table_at m gid \<noteq> [] \<Longrightarrow> frame_tables m ! gid = table_at m gid"
  by (auto simp: table_at_def get_or_def get_def split: option.splits if_splits)

lemma base_page_at:
  assumes "objs [] = None"
  shows "base_page C key m objs gid pos =
     (case objs (key_at m gid) of
        None \<Rightarrow> None
      | Some data \<Rightarrow>
          let n = length (group_page_nums m gid); ps = page_size m in
          if has_frame_table m gid then
            (case decode_page_group_seekable_full C data (table_at m gid) ps (n mod U32_SIZE) (page_count m) 0 (aad_page_group gid) key of
               Inr (_, _, bulk) \<Rightarrow> if (pos + 1) * ps \<le> length bulk then Some (bslice (pos * ps) ps bulk) else None
             | Inl _ \<Rightarrow> None)
          else (case plain_pages C key gid data of Inr pages \<Rightarrow> get pages pos | Inl _ \<Rightarrow> None))"
proof (cases "get (page_group_keys m) gid")
  case None
  then show ?thesis unfolding base_page_def key_at_def get_or_def None option.case using assms by simp
next
  case (Some k)
  have t: "has_frame_table m gid \<Longrightarrow> frame_tables m ! gid = table_at m gid" by (simp add: has_frame_table_at table_at_nth)
  show ?thesis
  proof (cases "has_frame_table m gid")
    case True
    then show ?thesis unfolding base_page_def key_at_def get_or_def Some option.case seekable_bulk_def Let_def t [OF True]
      by (cases "objs k") (auto split: sum.split)
  next
    case False
    then show ?thesis unfolding base_page_def key_at_def get_or_def Some option.case by (cases "objs k") (simp_all add: Let_def)
  qed
qed

lemma base_page_cong:
  assumes "objs [] = None" "objs' [] = None" "same_layout m m'" "key_at m' gid = key_at m gid" "table_at m' gid = table_at m gid"
    and "key_at m gid \<noteq> [] \<Longrightarrow> objs' (key_at m gid) = objs (key_at m gid)"
  shows "base_page C key m' objs' gid pos = base_page C key m objs gid pos"
proof -
  have "objs' (key_at m gid) = objs (key_at m gid)" using assms(1,2,6) by (cases "key_at m gid = []") simp_all
  moreover have "page_size m' = page_size m" "page_count m' = page_count m" "group_page_nums m' gid = group_page_nums m gid"
    "has_frame_table m' gid = has_frame_table m gid" using assms(3,5) by (simp_all add: has_frame_table_at same_layout_def)
  ultimately show ?thesis
    by (simp only: base_page_at [where objs = objs, OF assms(1)] base_page_at [where objs = objs', OF assms(2)] assms(4,5) cong: option.case_cong)
qed

lemma remote_page_cong:
  assumes "objs [] = None" "objs' [] = None" "same_layout m m'" "key_at m' gid = key_at m gid" "table_at m' gid = table_at m gid"
    and "key_at m gid \<noteq> [] \<Longrightarrow> objs' (key_at m gid) = objs (key_at m gid)"
    and "override_key m' gid (pos div sub_pages_per_frame m) = override_key m gid (pos div sub_pages_per_frame m)"
    and "\<And>k. override_key m gid (pos div sub_pages_per_frame m) = Some k \<Longrightarrow> objs' k = objs k"
  shows "remote_page C key m' objs' gid pos = remote_page C key m objs gid pos"
proof -
  let ?f = "pos div sub_pages_per_frame m"
  have sh: "page_size m' = page_size m" "sub_pages_per_frame m' = sub_pages_per_frame m" using assms(3) by (simp_all add: same_layout_def)
  have keys: "map_option so_key (override_at m' gid ?f) = map_option so_key (override_at m gid ?f)"
    using assms(7) by (simp add: override_key_def override_at_or)
  then have none: "(override_at m' gid ?f = None) = (override_at m gid ?f = None)" by (metis option.map_disc_iff)
  have "override_frame C key m' objs' gid ?f = override_frame C key m objs gid ?f"
  proof (cases "override_at m gid ?f")
    case (Some ov)
    then obtain ov' where ov': "override_at m' gid ?f = Some ov'" "so_key ov' = so_key ov" using keys by auto
    have "objs' (so_key ov) = objs (so_key ov)" using assms(8) Some by (simp add: override_key_def override_at_or)
    then show ?thesis using Some ov' by (simp add: override_frame_def open_override_def)
  qed (use none in \<open>simp add: override_frame_def\<close>)
  moreover have "base_page C key m' objs' gid pos = base_page C key m objs gid pos" using assms(1-6) by (rule base_page_cong)
  ultimately show ?thesis by (simp only: remote_page_split sh none)
qed

subsection \<open>Where the pages of a dirty group come from\<close>

definition local_view :: "codec \<Rightarrow> (nat \<rightharpoonup> bytes) \<Rightarrow> disk_cache \<Rightarrow> nat \<rightharpoonup> bytes" where
  "local_view C staged dc p = (case staged p of Some d \<Rightarrow> Some d | None \<Rightarrow> cache_view C dc p)"

definition page_source :: "codec \<Rightarrow> bytes option \<Rightarrow> (nat \<rightharpoonup> bytes) \<Rightarrow> disk_cache \<Rightarrow> manifest \<Rightarrow> (string \<rightharpoonup> bytes) \<Rightarrow> nat \<Rightarrow> nat \<Rightarrow> bytes option" where
  "page_source C key staged dc m objs gid pos =
     (case local_view C staged dc (group_page_nums m gid ! pos) of Some d \<Rightarrow> Some d | None \<Rightarrow> base_page C key m objs gid pos)"

lemma staged_or_cached_view:
  "staged_or_cached C staged dc (dc_page_size dc) p = Inr own \<Longrightarrow> own = local_view C staged dc p"
  by (auto simp: staged_or_cached_def local_view_def cache_view_def split: option.splits)

lemma fetched_pages:
  assumes run: "fetch_existing_group_pages C key gid m (group_page_nums m gid) b = (Inr existing, b')" and empty: "bk_objects b [] = None"
    and pos: "pos < length (group_page_nums m gid)"
  shows "(case existing of None \<Rightarrow> None | Some pages \<Rightarrow> get pages pos) = base_page C key m (bk_objects b) gid pos"
proof -
  let ?n = "length (group_page_nums m gid)" and ?ps = "page_size m"
  show ?thesis
  proof (cases "key_at m gid = []")
    case True
    then have "existing = None" using run by (auto simp: fetch_existing_group_pages_def key_at_def get_or_def split: option.splits if_splits)
    then show ?thesis using True by (simp add: base_page_at [where objs = "bk_objects b", OF empty] empty)
  next
    case False
    then obtain k where k: "get (page_group_keys m) gid = Some k" "k \<noteq> []" unfolding key_at_def get_or_def by (cases "get (page_group_keys m) gid") auto
    have run': "and_then (get_page_group k b) (\<lambda>r b. case r of None \<Rightarrow> (Inr None, b)
       | Some data \<Rightarrow> let n = ?n; ps = ?ps in if has_frame_table m gid then
              (case seekable_bulk C key m gid n data of Inl e \<Rightarrow> (Inl e, b)
               | Inr bulk \<Rightarrow> if length bulk < n * ps then (Inl (Io Other ''flush: seekable group frame is short''), b)
                   else (Inr (Some (map (\<lambda>j. bslice (j * ps) ps bulk) [0..<n])), b))
            else (case plain_pages C key gid data of Inl e \<Rightarrow> (Inl e, b) | Inr pages \<Rightarrow> (Inr (Some pages), b))) = (Inr existing, b')"
      using run k(2) unfolding fetch_existing_group_pages_def k(1) option.case Let_def by simp
    then obtain r b1 where g: "get_page_group k b = (Inr r, b1)" by (auto simp: and_then_ok)
    note r = get_page_group_ok(1) [OF g]
    have le: "(pos + 1) * ?ps \<le> ?n * ?ps" using pos by (intro mult_le_mono1) simp
    show ?thesis
    proof (cases r)
      case None
      then show ?thesis using run' g r unfolding base_page_def k(1) option.case by auto
    next
      case (Some data)
      then show ?thesis using run' g r le pos unfolding base_page_def k(1) option.case Let_def
        by (auto simp: get_def split: if_splits sum.splits)
    qed
  qed
qed

lemma collect_results_ok: "collect_results rs = Inr xs \<longleftrightarrow> rs = map Inr xs"
  by (induction rs arbitrary: xs) (auto simp: bind_result_Inr_iff Cons_eq_map_conv)

lemma map_sum_ok: "map_sum id f r = Inr y \<longleftrightarrow> (\<exists>x. r = Inr x \<and> y = f x)"
  by (cases r) auto

lemma merged_pages_ok:
  assumes run: "merged_pages C key staged dc m gid b = (Inr pages, b')" and empty: "bk_objects b [] = None"
    and ps: "dc_page_size dc = page_size m" and bound: "\<And>p. p \<in> set (group_page_nums m gid) \<Longrightarrow> p < page_count m"
  shows "pages = map (page_source C key staged dc m (bk_objects b) gid) [0..<length (group_page_nums m gid)]" "None \<notin> set pages"
proof -
  let ?ns = "group_page_nums m gid" and ?n = "length (group_page_nums m gid)"
  have all: "takeWhile (\<lambda>p. p < page_count m) ?ns = ?ns" using bound by (simp add: takeWhile_eq_all_conv)
  from run obtain own existing where own: "collect_results (map (staged_or_cached C staged dc (page_size m)) ?ns) = Inr own"
    and fetch: "(if None \<in> set own then fetch_existing_group_pages C key gid m ?ns b else (Inr None, b)) = (Inr existing, b')"
    and pages: "pages = (case existing of None \<Rightarrow> own
        | Some ex \<Rightarrow> map (\<lambda>(j, page). if page = None then get ex j else page) (List.enumerate 0 own))" "None \<notin> set pages"
    unfolding merged_pages_def Let_def all by (auto simp: and_then_ok split: sum.splits if_splits)
  have "map (staged_or_cached C staged dc (page_size m)) ?ns = map Inr own" using own by (simp add: collect_results_ok)
  then have len: "length own = ?n" and at: "\<And>i. i < ?n \<Longrightarrow> staged_or_cached C staged dc (page_size m) (?ns ! i) = Inr (own ! i)"
    by (metis length_map, metis (no_types, lifting) length_map nth_map)
  have view: "own ! i = local_view C staged dc (?ns ! i)" if "i < ?n" for i
    using staged_or_cached_view [of C staged dc "?ns ! i" "own ! i"] at [OF that] ps by simp
  have src: "pages ! i = page_source C key staged dc m (bk_objects b) gid i" if i: "i < ?n" for i
  proof (cases "own ! i")
    case (Some d)
    then show ?thesis using pages(1) view [OF i] i len by (simp add: page_source_def nth_enumerate_eq split: option.split)
  next
    case None
    then have "None \<in> set own" using i len by (metis nth_mem)
    then have f: "fetch_existing_group_pages C key gid m ?ns b = (Inr existing, b')" using fetch by simp
    have "pages ! i = (case existing of None \<Rightarrow> None | Some ex \<Rightarrow> get ex i)"
      using pages(1) None i len by (simp add: nth_enumerate_eq split: option.split)
    then show ?thesis using fetched_pages [OF f empty i] None view [OF i] by (simp add: page_source_def)
  qed
  have "length pages = ?n" using pages(1) len by (simp split: option.split)
  then show "pages = map (page_source C key staged dc m (bk_objects b) gid) [0..<?n]" using src by (intro nth_equalityI) simp_all
  show "None \<notin> set pages" by (rule pages(2))
qed

lemma frame_pages_ok:
  assumes run: "frame_pages C staged dc m gid existing poss = Inr fps"
    and ps: "dc_page_size dc = page_size m" and bound: "\<And>p. p \<in> set (group_page_nums m gid) \<Longrightarrow> p < page_count m"
    and poss: "\<And>pos. pos \<in> set poss \<Longrightarrow> pos < length (group_page_nums m gid)"
    and ex: "\<And>pos. pos \<in> set poss \<Longrightarrow> local_view C staged dc (group_page_nums m gid ! pos) = None \<Longrightarrow>
        (case existing of None \<Rightarrow> None | Some pages \<Rightarrow> get pages pos) = base_page C key m objs gid pos"
  shows "map (Some \<circ> snd) fps = map (page_source C key staged dc m objs gid) poss"
  using run poss ex
proof (induction poss arbitrary: fps)
  case (Cons pos poss)
  let ?p = "group_page_nums m gid ! pos"
  have "?p < page_count m" using Cons.prems(2) bound by simp
  then obtain own d rest where d: "staged_or_cached C staged dc (page_size m) ?p = Inr own" "page_or_base own existing pos = Inr d"
      "frame_pages C staged dc m gid existing poss = Inr rest" "fps = (?p, d) # rest"
    using Cons.prems(1) by (auto simp: Let_def bind_result_Inr_iff)
  have own: "own = local_view C staged dc ?p" using staged_or_cached_view d(1) ps by metis
  have "page_source C key staged dc m objs gid pos = Some d"
  proof (cases own)
    case (Some x)
    then show ?thesis using d(2) own by (simp add: page_or_base_def page_source_def)
  next
    case None
    then have "(case existing of None \<Rightarrow> None | Some pages \<Rightarrow> get pages pos) = Some d"
      using d(2) by (auto simp: page_or_base_def split: option.splits)
    moreover have "(case existing of None \<Rightarrow> None | Some pages \<Rightarrow> get pages pos) = base_page C key m objs gid pos"
      using Cons.prems(3) None own by simp
    ultimately show ?thesis using None own by (simp add: page_source_def)
  qed
  then show ?case using Cons.IH [OF d(3)] Cons.prems(2,3) d(4) by simp
qed simp

subsection \<open>What becomes of a dirty group\<close>

definition group_flushed :: "flush_env \<Rightarrow> (nat \<rightharpoonup> bytes) \<Rightarrow> disk_cache \<Rightarrow> manifest \<Rightarrow> nat \<Rightarrow> (string \<rightharpoonup> bytes) \<Rightarrow> nat \<Rightarrow> group_flush \<Rightarrow> bool" where
  "group_flushed E staged dc m v objs gid r \<longleftrightarrow>
     (let C = fe_codec E; src = page_source C (fe_key E) staged dc m objs gid in
      case r of
        Overridden fes \<Rightarrow> use_override m staged (effective_threshold m (fe_override_threshold E)) gid \<and> has_frame_table m gid \<and> fes \<noteq> []
          \<and> map fst fes = dirty_frames m staged (effective_threshold m (fe_override_threshold E)) gid
          \<and> (\<forall>(f, enc) \<in> set fes. \<exists>ds. map Some ds = map src (frame_positions m gid f)
               \<and> seal_frame C (fe_nonces E (override_frame_key gid f v) 0) (aad_override_frame gid f) (fe_key E)
                   (concat (map (\<lambda>d. page_bytes (page_size m) (Some d)) ds)) = Inr enc)
      | Rewritten enc ft \<Rightarrow> \<not> use_override m staged (effective_threshold m (fe_override_threshold E)) gid \<and> None \<notin> src ` {0..<length (group_page_nums m gid)}
          \<and> encoded_group C (fe_nonces E (page_group_key gid v)) (fe_key E) (page_size m) (sub_pages_per_frame m) gid
              (map src [0..<length (group_page_nums m gid)]) enc ft)"

lemma frame_positions_bound: "pos \<in> set (frame_positions m gid f) \<Longrightarrow> pos < length (group_page_nums m gid)"
  by (auto simp: frame_positions_def Let_def)

lemma no_base_needed:
  assumes "\<not> needs_base m staged dc gid frames" "f \<in> set frames" "pos \<in> set (frame_positions m gid f)" "cache_inv C dc"
    and bound: "\<And>p. p \<in> set (group_page_nums m gid) \<Longrightarrow> p < page_count m"
  shows "local_view C staged dc (group_page_nums m gid ! pos) \<noteq> None"
proof -
  let ?p = "group_page_nums m gid ! pos"
  have "?p < page_count m" using frame_positions_bound [OF assms(3)] bound by simp
  then have "staged ?p \<noteq> None \<or> dc_is_present ?p dc" using assms(1-3) by (auto simp: needs_base_def list_ex_iff Let_def)
  then show ?thesis
  proof
    assume p: "dc_is_present ?p dc"
    then obtain d where "stored C dc ?p d" using assms(4) by (auto simp: cache_inv_def)
    then have "cache_view C dc ?p = Some d" using view_iff [OF assms(4)] p by blast
    then show ?thesis by (auto simp: local_view_def split: option.splits)
  qed (auto simp: local_view_def)
qed

lemma flush_group_ok:
  assumes run: "flush_group E staged dc m v gid b = (Inr r, b')" and empty: "bk_objects b [] = None"
    and cache: "cache_inv (fe_codec E) dc" "dc_page_size dc = page_size m"
    and bound: "\<And>p. p \<in> set (group_page_nums m gid) \<Longrightarrow> p < page_count m"
  shows "group_flushed E staged dc m v (bk_objects b) gid r"
proof -
  let ?C = "fe_codec E" and ?th = "effective_threshold m (fe_override_threshold E)" and ?n = "length (group_page_nums m gid)"
  let ?frames = "dirty_frames m staged ?th gid" and ?src = "page_source (fe_codec E) (fe_key E) staged dc m (bk_objects b) gid"
  show ?thesis
  proof (cases "use_override m staged ?th gid")
    case True
    from run True obtain existing fes where ex: "(if needs_base m staged dc gid ?frames
          then fetch_existing_group_pages ?C (fe_key E) gid m (group_page_nums m gid) b else (Inr None, b)) = (Inr existing, b')"
      and fes: "collect_results (map (encode_dirty_frame E staged dc m v gid existing) ?frames) = Inr fes" "r = Overridden fes"
      unfolding flush_group_def Let_def by (auto simp: and_then_ok map_sum_ok)
    have each: "map (encode_dirty_frame E staged dc m v gid existing) ?frames = map Inr fes" using fes(1) by (simp add: collect_results_ok)
    have base: "(case existing of None \<Rightarrow> None | Some pages \<Rightarrow> get pages pos) = base_page ?C (fe_key E) m (bk_objects b) gid pos"
      if "f \<in> set ?frames" "pos \<in> set (frame_positions m gid f)" "local_view ?C staged dc (group_page_nums m gid ! pos) = None" for f pos
    proof -
      have "needs_base m staged dc gid ?frames" using no_base_needed [OF _ that(1,2) cache(1)] bound that(3) by blast
      then show ?thesis using ex frame_positions_bound [OF that(2)] by (intro fetched_pages [OF _ empty]) simp_all
    qed
    have one: "fst fe = f \<and> (\<exists>ds. map Some ds = map ?src (frame_positions m gid f)
        \<and> seal_frame ?C (fe_nonces E (override_frame_key gid f v) 0) (aad_override_frame gid f) (fe_key E)
            (concat (map (\<lambda>d. page_bytes (page_size m) (Some d)) ds)) = Inr (snd fe))"
      if f: "f \<in> set ?frames" "encode_dirty_frame E staged dc m v gid existing f = Inr fe" for f fe
    proof -
      obtain fps enc where fp: "frame_pages ?C staged dc m gid existing (frame_positions m gid f) = Inr fps"
          "encode_override_frame ?C (fe_nonces E (override_frame_key gid f v) 0) fps (page_size m) (aad_override_frame gid f) (fe_key E) = Inr enc"
          "fe = (f, enc)" using f(2) by (auto simp: encode_dirty_frame_def bind_result_Inr_iff)
      have "map (Some \<circ> snd) fps = map ?src (frame_positions m gid f)"
        by (rule frame_pages_ok [OF fp(1) cache(2)]) (erule bound frame_positions_bound base [OF f(1)], assumption?)+
      then have "map Some (map snd fps) = map ?src (frame_positions m gid f)" by simp
      moreover have "concat (map (\<lambda>d. page_bytes (page_size m) (Some d)) (map snd fps)) = concat (map (\<lambda>(_, data). page_bytes (page_size m) (Some data)) fps)"
        by (induction fps) auto
      ultimately show ?thesis using fp(2,3) by (intro conjI exI [of _ "map snd fps"]) (simp_all add: encode_override_frame_def)
    qed
    have len: "length fes = length ?frames" using each by (metis length_map)
    have at: "encode_dirty_frame E staged dc m v gid existing (?frames ! i) = Inr (fes ! i)" if "i < length fes" for i
      using each len that by (metis (no_types, lifting) nth_map)
    have "map fst fes = ?frames" using one [OF _ at] len by (intro nth_equalityI) simp_all
    moreover have "fes \<noteq> []" using True len by (auto simp: use_override_def Let_def)
    moreover have "\<exists>ds. map Some ds = map ?src (frame_positions m gid f)
        \<and> seal_frame ?C (fe_nonces E (override_frame_key gid f v) 0) (aad_override_frame gid f) (fe_key E)
            (concat (map (\<lambda>d. page_bytes (page_size m) (Some d)) ds)) = Inr enc" if mem: "(f, enc) \<in> set fes" for f enc
    proof -
      obtain i where i: "i < length fes" "fes ! i = (f, enc)" using mem by (meson in_set_conv_nth)
      have "?frames ! i \<in> set ?frames" using i(1) len by simp
      note o = one [OF this at [OF i(1)]]
      then have "?frames ! i = f" using i(2) by simp
      with o i(2) show ?thesis by auto
    qed
    moreover have "has_frame_table m gid" using True by (simp add: use_override_def Let_def)
    ultimately show ?thesis using True by (auto simp: group_flushed_def Let_def fes(2))
  next
    case False
    let ?nonces = "fe_nonces E (page_group_key gid v)" and ?spf = "sub_pages_per_frame m"
    obtain pages where mp: "merged_pages ?C (fe_key E) staged dc m gid b = (Inr pages, b')"
      and rest: "(if 0 < ?spf then map_sum id (\<lambda>(encoded, ft). Rewritten encoded ft)
            (encode_page_group_seekable ?C ?nonces pages (page_size m) ?spf (aad_page_group gid) (fe_key E))
          else map_sum id (\<lambda>encoded. Rewritten encoded []) (encode_page_group ?C (?nonces 0) pages (page_size m) (aad_page_group gid) (fe_key E))) = Inr r"
      using run False by (auto simp: flush_group_def Let_def and_then_ok split: if_splits)
    obtain enc ft where enc: "encoded_group ?C ?nonces (fe_key E) (page_size m) ?spf gid pages enc ft" and r: "r = Rewritten enc ft"
      using rest by (auto simp: map_sum_ok encoded_group_def split: if_splits)
    note ok = merged_pages_ok [OF mp empty cache(2) bound]
    then show ?thesis using enc False by (auto simp: group_flushed_def Let_def r)
  qed
qed

subsection \<open>The manifest parts after all groups\<close>

fun group_uploads :: "nat \<Rightarrow> nat \<Rightarrow> group_flush \<Rightarrow> (string \<times> bytes) set" where
  "group_uploads v gid (Overridden fes) = (\<lambda>(f, enc). (override_frame_key gid f v, enc)) ` set fes"
| "group_uploads v gid (Rewritten enc ft) = {(page_group_key gid v, enc)}"

fun is_rewritten :: "group_flush \<Rightarrow> bool" where
  "is_rewritten (Rewritten _ _) = True"
| "is_rewritten (Overridden _) = False"

fun new_frames :: "group_flush \<Rightarrow> nat set" where
  "new_frames (Overridden fes) = fst ` set fes"
| "new_frames (Rewritten _ _) = {}"

definition acc_override :: "flush_acc \<Rightarrow> nat \<Rightarrow> nat \<Rightarrow> string option" where
  "acc_override acc gid f = map_option so_key (get_or Map.empty (fa_overrides acc) gid f)"

lemma add_overrides:
  fixes v :: nat
  assumes "gid < length (fa_overrides acc)" "distinct (map fst fes)"
  defines "acc' \<equiv> fold (add_override v gid) fes acc"
  shows "fa_keys acc' = fa_keys acc \<and> fa_frame_tables acc' = fa_frame_tables acc \<and> fa_rewritten acc' = fa_rewritten acc
    \<and> set (fa_uploads acc') = set (fa_uploads acc) \<union> group_uploads v gid (Overridden fes)
    \<and> set (fa_replaced acc') \<subseteq> set (fa_replaced acc) \<union> {k. \<exists>f \<in> fst ` set fes. acc_override acc gid f = Some k}
    \<and> (\<forall>g f. acc_override acc' g f = (if g = gid \<and> f \<in> fst ` set fes then Some (override_frame_key g f v) else acc_override acc g f))
    \<and> (\<forall>g. finite (dom (get_or Map.empty (fa_overrides acc) g)) \<longrightarrow> finite (dom (get_or Map.empty (fa_overrides acc') g)))"
  unfolding acc'_def using assms(1,2)
proof (induction fes arbitrary: acc)
  case (Cons fe fes)
  obtain f enc where fe: "fe = (f, enc)" by force
  let ?a = "add_override v gid fe acc"
  have len: "gid < length (fa_overrides ?a)" using Cons.prems(1) by (simp add: add_override_def fe Let_def)
  have a: "fa_keys ?a = fa_keys acc" "fa_frame_tables ?a = fa_frame_tables acc" "fa_rewritten ?a = fa_rewritten acc"
      "set (fa_uploads ?a) = set (fa_uploads acc) \<union> {(override_frame_key gid f v, enc)}"
      "set (fa_replaced ?a) \<subseteq> set (fa_replaced acc) \<union> {k. acc_override acc gid f = Some k}"
    and o: "acc_override ?a g f' = (if g = gid \<and> f' = f then Some (override_frame_key gid f v) else acc_override acc g f')"
    and fin: "finite (dom (get_or Map.empty (fa_overrides acc) g)) \<Longrightarrow> finite (dom (get_or Map.empty (fa_overrides ?a) g))" for g f'
    using Cons.prems(1) by (auto simp: add_override_def fe Let_def acc_override_def get_or_in(1) get_or_in(2) [of _ _ Map.empty] split: option.splits intro: sym)
  have d: "f \<notin> fst ` set fes" "distinct (map fst fes)" using Cons.prems(2) fe by simp_all
  note IH = Cons.IH [OF len d(2)]
  have "acc_override acc gid f' = Some k" if "f' \<in> fst ` set fes" "acc_override ?a gid f' = Some k" for f' k
    using that o [of gid f'] d(1) by (auto split: if_splits)
  moreover have "set (fa_replaced (fold (add_override v gid) fes ?a)) \<subseteq> set (fa_replaced ?a) \<union> {k. \<exists>f \<in> fst ` set fes. acc_override ?a gid f = Some k}"
    using IH by (elim conjE)
  ultimately have "set (fa_replaced (fold (add_override v gid) fes ?a)) \<subseteq> set (fa_replaced acc) \<union> {k. \<exists>f \<in> fst ` set (fe # fes). acc_override acc gid f = Some k}"
    using a(5) fe by fastforce
  then show ?case using IH a o fin fe by auto
qed simp

lemma apply_group_parts:
  fixes m :: manifest and v gid :: nat and acc :: flush_acc
  assumes "distinct (case r of Overridden fes \<Rightarrow> map fst fes | Rewritten _ _ \<Rightarrow> [])"
  defines "acc' \<equiv> apply_group m v gid r acc"
  shows "get_or [] (fa_keys acc') g = (if g = gid \<and> is_rewritten r then page_group_key g v else get_or [] (fa_keys acc) g)"
    and "get_or [] (fa_frame_tables acc') g = (case r of Rewritten _ ft \<Rightarrow> if g = gid \<and> 0 < sub_pages_per_frame m then ft else get_or [] (fa_frame_tables acc) g
          | Overridden _ \<Rightarrow> get_or [] (fa_frame_tables acc) g)"
    and "fa_rewritten acc' = (if is_rewritten r then insert gid (fa_rewritten acc) else fa_rewritten acc)"
    and "set (fa_uploads acc') = set (fa_uploads acc) \<union> group_uploads v gid r"
    and "set (fa_replaced acc') \<subseteq> set (fa_replaced acc) \<union> {k. k \<noteq> [] \<and> is_rewritten r \<and> k = get_or [] (fa_keys acc) gid}
          \<union> {k. \<exists>f \<in> new_frames r. acc_override acc gid f = Some k}"
    and "acc_override acc' g f = (if g = gid \<and> f \<in> new_frames r then Some (override_frame_key g f v) else acc_override acc g f)"
    and "finite (dom (get_or Map.empty (fa_overrides acc) g)) \<Longrightarrow> finite (dom (get_or Map.empty (fa_overrides acc') g))"
proof -
  have ov: "acc_override (acc\<lparr>fa_overrides := pad_to n Map.empty (fa_overrides acc)\<rparr>) g f = acc_override acc g f" for n g f
    by (simp add: acc_override_def)
  have pad: "gid < length (fa_overrides (acc\<lparr>fa_overrides := pad_to (Suc gid) Map.empty (fa_overrides acc)\<rparr>))" by (simp add: pad_to_def)
  note add = add_overrides [OF pad, of _ v]
  have nth: "pad_to (Suc gid) [] (fa_keys acc) ! gid = get_or [] (fa_keys acc) gid"
    using get_or_in(2) [of gid "pad_to (Suc gid) [] (fa_keys acc)" "[]"] get_or_pad [of "[]" "Suc gid" "fa_keys acc" gid] by (simp add: pad_to_def)
  show "get_or [] (fa_keys acc') g = (if g = gid \<and> is_rewritten r then page_group_key g v else get_or [] (fa_keys acc) g)"
    using assms(1) by (cases r) (simp_all add: acc'_def apply_group_def Let_def add)
  show "get_or [] (fa_frame_tables acc') g = (case r of Rewritten _ ft \<Rightarrow> if g = gid \<and> 0 < sub_pages_per_frame m then ft else get_or [] (fa_frame_tables acc) g
          | Overridden _ \<Rightarrow> get_or [] (fa_frame_tables acc) g)"
    using assms(1) by (cases r) (simp_all add: acc'_def apply_group_def Let_def add)
  show "fa_rewritten acc' = (if is_rewritten r then insert gid (fa_rewritten acc) else fa_rewritten acc)"
    using assms(1) by (cases r) (simp_all add: acc'_def apply_group_def Let_def add)
  show "set (fa_uploads acc') = set (fa_uploads acc) \<union> group_uploads v gid r"
    using assms(1) by (cases r) (auto simp: acc'_def apply_group_def Let_def add simp del: group_uploads.simps(1))
  show "set (fa_replaced acc') \<subseteq> set (fa_replaced acc) \<union> {k. k \<noteq> [] \<and> is_rewritten r \<and> k = get_or [] (fa_keys acc) gid}
          \<union> {k. \<exists>f \<in> new_frames r. acc_override acc gid f = Some k}"
  proof (cases r)
    case (Overridden fes)
    then show ?thesis using assms(1) add [of fes] by (auto simp: acc'_def apply_group_def ov)
  next
    case (Rewritten enc ft)
    then show ?thesis by (auto simp: acc'_def apply_group_def Let_def nth)
  qed
  show "acc_override acc' g f = (if g = gid \<and> f \<in> new_frames r then Some (override_frame_key g f v) else acc_override acc g f)"
  proof (cases r)
    case (Overridden fes)
    then show ?thesis using assms(1) add [of fes] by (simp add: acc'_def apply_group_def ov)
  next
    case (Rewritten enc ft)
    then show ?thesis by (simp add: acc'_def apply_group_def Let_def acc_override_def)
  qed
  show "finite (dom (get_or Map.empty (fa_overrides acc') g))" if "finite (dom (get_or Map.empty (fa_overrides acc) g))"
  proof (cases r)
    case (Overridden fes)
    then show ?thesis using assms(1) add [of fes] that by (simp add: acc'_def apply_group_def)
  next
    case (Rewritten enc ft)
    then show ?thesis using that by (simp add: acc'_def apply_group_def Let_def)
  qed
qed

definition after_groups :: "manifest \<Rightarrow> nat \<Rightarrow> (nat \<times> group_flush) list \<Rightarrow> flush_acc \<Rightarrow> flush_acc" where
  "after_groups m v outs = fold (\<lambda>(gid, r). apply_group m v gid r) outs"

definition proper :: "(nat \<times> group_flush) list \<Rightarrow> bool" where
  "proper outs \<longleftrightarrow> distinct (map fst outs)
     \<and> (\<forall>(gid, r) \<in> set outs. distinct (case r of Overridden fes \<Rightarrow> map fst fes | Rewritten _ _ \<Rightarrow> []))"

definition rewritten_in :: "(nat \<times> group_flush) list \<Rightarrow> nat set" where
  "rewritten_in outs = {gid. \<exists>r. (gid, r) \<in> set outs \<and> is_rewritten r}"

definition frames_in :: "(nat \<times> group_flush) list \<Rightarrow> nat \<Rightarrow> nat set" where
  "frames_in outs gid = (\<Union>r \<in> {r. (gid, r) \<in> set outs}. new_frames r)"

definition table_in :: "(nat \<times> group_flush) list \<Rightarrow> nat \<Rightarrow> frame_entry list option" where
  "table_in outs gid = (case map_of outs gid of Some (Rewritten _ ft) \<Rightarrow> Some ft | _ \<Rightarrow> None)"

lemma after_groups_parts:
  assumes "proper outs"
  shows "get_or [] (fa_keys (after_groups m v outs acc)) g = (if g \<in> rewritten_in outs then page_group_key g v else get_or [] (fa_keys acc) g)
    \<and> get_or [] (fa_frame_tables (after_groups m v outs acc)) g
        = (case table_in outs g of Some ft \<Rightarrow> if 0 < sub_pages_per_frame m then ft else get_or [] (fa_frame_tables acc) g
           | None \<Rightarrow> get_or [] (fa_frame_tables acc) g)
    \<and> fa_rewritten (after_groups m v outs acc) = fa_rewritten acc \<union> rewritten_in outs
    \<and> set (fa_uploads (after_groups m v outs acc)) = set (fa_uploads acc) \<union> (\<Union>(gid, r) \<in> set outs. group_uploads v gid r)
    \<and> set (fa_replaced (after_groups m v outs acc)) \<subseteq> set (fa_replaced acc)
        \<union> {k. k \<noteq> [] \<and> (\<exists>gid \<in> rewritten_in outs. k = get_or [] (fa_keys acc) gid)}
        \<union> {k. \<exists>gid. \<exists>f \<in> frames_in outs gid. acc_override acc gid f = Some k}
    \<and> acc_override (after_groups m v outs acc) g f
        = (if f \<in> frames_in outs g then Some (override_frame_key g f v) else acc_override acc g f)
    \<and> (finite (dom (get_or Map.empty (fa_overrides acc) g)) \<longrightarrow> finite (dom (get_or Map.empty (fa_overrides (after_groups m v outs acc)) g)))"
  using assms
proof (induction outs arbitrary: acc g f)
  case Nil
  then show ?case by (simp add: after_groups_def rewritten_in_def frames_in_def table_in_def)
next
  case (Cons o1 outs)
  obtain g0 r0 where o1: "o1 = (g0, r0)" by force
  let ?a = "apply_group m v g0 r0 acc"
  have d: "distinct (case r0 of Overridden fes \<Rightarrow> map fst fes | Rewritten _ _ \<Rightarrow> [])" "proper outs" "g0 \<notin> fst ` set outs"
    using Cons.prems o1 by (auto simp: proper_def)
  have eq: "after_groups m v (o1 # outs) acc = after_groups m v outs ?a" by (simp add: after_groups_def o1)
  note p = apply_group_parts [OF d(1), where m = m and v = v and gid = g0 and acc = acc]
  note IH = Cons.IH [OF d(2), of ?a]
  have "map_of outs g0 = None" using d(3) by (simp add: map_of_eq_None_iff)
  then have no: "g0 \<notin> rewritten_in outs" "frames_in outs g0 = {}" "table_in outs g0 = None"
    using d(3) by (force simp: rewritten_in_def frames_in_def, force simp: frames_in_def, simp add: table_in_def)
  have rw: "rewritten_in (o1 # outs) = (if is_rewritten r0 then insert g0 (rewritten_in outs) else rewritten_in outs)"
    by (auto simp: rewritten_in_def o1)
  have fr: "frames_in (o1 # outs) gid = (if gid = g0 then new_frames r0 else frames_in outs gid)" for gid
    using d(3) by (force simp: frames_in_def o1)
  have tb: "table_in (o1 # outs) gid = (if gid = g0 then (case r0 of Rewritten _ ft \<Rightarrow> Some ft | _ \<Rightarrow> None) else table_in outs gid)" for gid
    by (simp add: table_in_def o1 split: group_flush.split)
  have rep: "set (fa_replaced (after_groups m v outs ?a)) \<subseteq> set (fa_replaced acc)
        \<union> {k. k \<noteq> [] \<and> (\<exists>gid \<in> rewritten_in (o1 # outs). k = get_or [] (fa_keys acc) gid)}
        \<union> {k. \<exists>gid. \<exists>f \<in> frames_in (o1 # outs) gid. acc_override acc gid f = Some k}"
  proof -
    have "set (fa_replaced (after_groups m v outs ?a)) \<subseteq> set (fa_replaced ?a)
        \<union> {k. k \<noteq> [] \<and> (\<exists>gid \<in> rewritten_in outs. k = get_or [] (fa_keys ?a) gid)}
        \<union> {k. \<exists>gid. \<exists>f \<in> frames_in outs gid. acc_override ?a gid f = Some k}" using IH [of g f] by (elim conjE)
    moreover have "get_or [] (fa_keys ?a) gid = get_or [] (fa_keys acc) gid" if "gid \<in> rewritten_in outs" for gid
      using that no(1) p(1) [of gid] by auto
    moreover have "gid \<noteq> g0 \<and> acc_override ?a gid f = acc_override acc gid f" if "f \<in> frames_in outs gid" for gid f
      using that no(2) p(6) [of gid f] by auto
    moreover note p(5)
    ultimately show ?thesis unfolding rw fr by (auto; blast)
  qed
  have up: "(\<Union>(gid, r) \<in> set (o1 # outs). group_uploads v gid r) = group_uploads v g0 r0 \<union> (\<Union>(gid, r) \<in> set outs. group_uploads v gid r)"
    by (simp add: o1)
  have "get_or [] (fa_keys (after_groups m v outs ?a)) g = (if g \<in> rewritten_in (o1 # outs) then page_group_key g v else get_or [] (fa_keys acc) g)"
    using IH [of g f] p(1) [of g] no(1) unfolding rw by auto
  moreover have "get_or [] (fa_frame_tables (after_groups m v outs ?a)) g
        = (case table_in (o1 # outs) g of Some ft \<Rightarrow> if 0 < sub_pages_per_frame m then ft else get_or [] (fa_frame_tables acc) g
           | None \<Rightarrow> get_or [] (fa_frame_tables acc) g)"
    using IH [of g f] p(2) [of g] no(3) unfolding tb by (cases r0) (auto split: option.split)
  moreover have "acc_override (after_groups m v outs ?a) g f = (if f \<in> frames_in (o1 # outs) g then Some (override_frame_key g f v) else acc_override acc g f)"
    using IH [of g f] p(6) [of g f] no(2) unfolding fr by auto
  moreover have "fa_rewritten (after_groups m v outs ?a) = fa_rewritten acc \<union> rewritten_in (o1 # outs)"
    using IH [of g f] p(3) unfolding rw by auto
  moreover have "set (fa_uploads (after_groups m v outs ?a)) = set (fa_uploads acc) \<union> (\<Union>(gid, r) \<in> set (o1 # outs). group_uploads v gid r)"
    using IH [of g f] p(4) unfolding up by blast
  ultimately show ?case unfolding eq using rep IH [of g f] p(7) [of g] by (elim conjE) (intro conjI, assumption+, blast)
qed

lemma flush_groups_outs:
  assumes "flush_groups E staged dc m v gids acc b = (Inr acc', b')" "bk_objects b [] = None"
    and cache: "cache_inv (fe_codec E) dc" "dc_page_size dc = page_size m"
    and bound: "\<And>gid p. p \<in> set (group_page_nums m gid) \<Longrightarrow> p < page_count m"
  shows "\<exists>outs. map fst outs = gids \<and> acc' = after_groups m v outs acc \<and> (\<forall>(gid, r) \<in> set outs. group_flushed E staged dc m v (bk_objects b) gid r)"
  using assms(1,2)
proof (induction gids arbitrary: acc b)
  case Nil
  then show ?case by (intro exI [of _ "[]"]) (simp add: after_groups_def)
next
  case (Cons gid gids)
  obtain r b1 where g: "flush_group E staged dc m v gid b = (Inr r, b1)" "flush_groups E staged dc m v gids (apply_group m v gid r acc) b1 = (Inr acc', b')"
    using Cons.prems(1) by (auto simp: and_then_ok)
  have o: "bk_objects b1 = bk_objects b" by (rule flush_group_objects [OF g(1)])
  have "group_flushed E staged dc m v (bk_objects b) gid r" by (rule flush_group_ok [OF g(1) Cons.prems(2) cache bound])
  moreover obtain outs where "map fst outs = gids" "acc' = after_groups m v outs (apply_group m v gid r acc)"
      "\<forall>(gid, r) \<in> set outs. group_flushed E staged dc m v (bk_objects b) gid r" using Cons.IH [OF g(2)] Cons.prems(2) o by auto
  ultimately show ?case by (intro exI [of _ "(gid, r) # outs"]) (simp add: after_groups_def)
qed

end
