(* ===== verification/Flush_Correct.thy ===== *)
theory Flush_Correct
  imports Flush_Publish
begin

text \<open>
  From the parts of the new manifest and the new objects to the page every reader gets after a
  successful flush, through the garbage collection and the compaction that end it.
\<close>

subsection \<open>Draining the overrides of rewritten groups\<close>

definition finite_overrides :: "flush_acc \<Rightarrow> bool" where
  "finite_overrides acc \<longleftrightarrow> (\<forall>g. finite (dom (get_or Map.empty (fa_overrides acc) g)))"

lemma drain_group_parts:
  assumes "hash_iteration (fe_iter E)" "finite_overrides acc"
  shows "fa_keys (drain_group E gid acc) = fa_keys acc" "fa_frame_tables (drain_group E gid acc) = fa_frame_tables acc"
    "finite_overrides (drain_group E gid acc)"
    "acc_override (drain_group E gid acc) g f = (if g = gid then None else acc_override acc g f)"
    "set (fa_replaced (drain_group E gid acc)) \<subseteq> set (fa_replaced acc) \<union> {k. \<exists>f. acc_override acc gid f = Some k}"
proof -
  show "fa_keys (drain_group E gid acc) = fa_keys acc" "fa_frame_tables (drain_group E gid acc) = fa_frame_tables acc"
    by (simp_all add: drain_group_def)
  show "finite_overrides (drain_group E gid acc)" using assms(2) by (simp add: finite_overrides_def drain_group_def get_or_in(1))
  have out: "acc_override acc gid f = None" if "\<not> gid < length (fa_overrides acc)" for f
    using that by (simp add: acc_override_def get_or_def get_def)
  show "acc_override (drain_group E gid acc) g f = (if g = gid then None else acc_override acc g f)"
    using out by (simp add: acc_override_def drain_group_def get_or_in(1))
  show "set (fa_replaced (drain_group E gid acc)) \<subseteq> set (fa_replaced acc) \<union> {k. \<exists>f. acc_override acc gid f = Some k}"
  proof (cases "gid < length (fa_overrides acc)")
    case True
    let ?ovs = "get_or Map.empty (fa_overrides acc) gid"
    have "set (fe_iter E (dom ?ovs)) = dom ?ovs" using assms by (simp add: hash_iteration.set_iter finite_overrides_def)
    then show ?thesis using True by (auto simp: drain_group_def get_or_in(2) [OF True, of Map.empty] acc_override_def) blast
  qed (auto simp: drain_group_def)
qed

lemma drain_groups_parts:
  assumes "hash_iteration (fe_iter E)" "finite_overrides acc"
  shows "fa_keys (fold (drain_group E) gids acc) = fa_keys acc \<and> fa_frame_tables (fold (drain_group E) gids acc) = fa_frame_tables acc
    \<and> finite_overrides (fold (drain_group E) gids acc)
    \<and> acc_override (fold (drain_group E) gids acc) g f = (if g \<in> set gids then None else acc_override acc g f)
    \<and> set (fa_replaced (fold (drain_group E) gids acc)) \<subseteq> set (fa_replaced acc) \<union> {k. \<exists>gid \<in> set gids. \<exists>f. acc_override acc gid f = Some k}"
  using assms(2)
proof (induction gids arbitrary: acc)
  case (Cons gid gids)
  note p = drain_group_parts [OF assms(1) Cons.prems, of gid]
  note IH = Cons.IH [OF p(3)]
  have "set (fa_replaced (fold (drain_group E) gids (drain_group E gid acc))) \<subseteq> set (fa_replaced acc) \<union> {k. \<exists>g \<in> set (gid # gids). \<exists>f. acc_override acc g f = Some k}"
  proof
    fix k assume "k \<in> set (fa_replaced (fold (drain_group E) gids (drain_group E gid acc)))"
    then have "k \<in> set (fa_replaced (drain_group E gid acc)) \<or> (\<exists>g \<in> set gids. \<exists>f. acc_override (drain_group E gid acc) g f = Some k)"
      using IH by blast
    then show "k \<in> set (fa_replaced acc) \<union> {k. \<exists>g \<in> set (gid # gids). \<exists>f. acc_override acc g f = Some k}"
      using p(5) by (auto simp: p(4) split: if_splits)
  qed
  then show ?case using IH p by (auto simp: p(4))
qed simp

lemma drain_overrides_parts:
  assumes "hash_iteration (fe_iter E)" "finite_overrides acc" "finite (fa_rewritten acc)"
  defines "acc' \<equiv> drain_overrides E acc"
  shows "fa_keys acc' = fa_keys acc" "fa_frame_tables acc' = fa_frame_tables acc" "finite_overrides acc'"
    "acc_override acc' g f = (if g \<in> fa_rewritten acc then None else acc_override acc g f)"
    "set (fa_replaced acc') \<subseteq> set (fa_replaced acc) \<union> {k. \<exists>gid \<in> fa_rewritten acc. \<exists>f. acc_override acc gid f = Some k}"
proof -
  let ?a = "acc\<lparr>fa_overrides := pad_to (length (fa_keys acc)) Map.empty (fa_overrides acc)\<rparr>"
  have "finite_overrides ?a" "\<And>g f. acc_override ?a g f = acc_override acc g f" using assms(2) by (simp_all add: finite_overrides_def acc_override_def)
  moreover have "set (fe_iter E (fa_rewritten acc)) = fa_rewritten acc" using assms(1,3) by (simp add: hash_iteration.set_iter)
  ultimately show "fa_keys acc' = fa_keys acc" "fa_frame_tables acc' = fa_frame_tables acc" "finite_overrides acc'"
    "acc_override acc' g f = (if g \<in> fa_rewritten acc then None else acc_override acc g f)"
    "set (fa_replaced acc') \<subseteq> set (fa_replaced acc) \<union> {k. \<exists>gid \<in> fa_rewritten acc. \<exists>f. acc_override acc gid f = Some k}"
    using drain_groups_parts [OF assms(1), of ?a "fe_iter E (fa_rewritten acc)"] by (simp_all add: acc'_def drain_overrides_def)
qed

subsection \<open>The bundles\<close>

definition bundle_slot :: "slot \<Rightarrow> bool" where
  "bundle_slot s \<longleftrightarrow> (case s of InteriorSlot _ \<Rightarrow> True | IndexSlot _ \<Rightarrow> True | _ \<Rightarrow> False)"

definition bundle_keys_wf :: "manifest \<Rightarrow> bool" where
  "bundle_keys_wf m \<longleftrightarrow> finite (dom (interior_chunk_keys m)) \<and> finite (dom (index_chunk_keys m))
     \<and> (\<forall>k \<in> ran (interior_chunk_keys m) \<union> ran (index_chunk_keys m). \<exists>s v. bundle_slot s \<and> v \<le> version m \<and> k = key_of s v)"

lemma bundle_loop_parts:
  assumes "bundle_loop E kind ps v pages dirty old cids acc = Inr acc'"
  shows "set (ba_replaced acc') \<subseteq> set (ba_replaced acc) \<union> ran old
    \<and> fst ` set (ba_uploads acc') \<subseteq> fst ` set (ba_uploads acc) \<union> range (\<lambda>cid. fst kind cid v)"
  using assms
proof (induction cids arbitrary: acc)
  case (Cons cid cids)
  obtain a where step: "bundle_loop E kind ps v pages dirty old cids a = Inr acc'"
    and a: "set (ba_replaced a) \<subseteq> set (ba_replaced acc) \<union> ran old" "fst ` set (ba_uploads a) \<subseteq> fst ` set (ba_uploads acc) \<union> range (\<lambda>cid. fst kind cid v)"
    using Cons.prems by (auto simp: bind_result_Inr_iff ran_def split: option.splits if_splits) fastforce+
  show ?case using Cons.IH [OF step] a by blast
qed simp

lemma build_bundles_parts:
  assumes "build_bundles E kind ps v pages dirty old = Inr acc" "hash_iteration (fe_iter E)" "finite (dom old)"
  shows "set (ba_replaced acc) \<subseteq> ran old" "fst ` set (ba_uploads acc) \<subseteq> range (\<lambda>cid. fst kind cid v)"
proof -
  obtain a where a: "bundle_loop E kind ps v pages (chunk_id_of ps ` dirty) old (fe_iter E (chunk_id_of ps ` dom pages))
        \<lparr>ba_uploads = [], ba_replaced = [], ba_keys = Map.empty\<rparr> = Inr a"
      "acc = a\<lparr>ba_replaced := ba_replaced a @ map (\<lambda>cid. the (old cid)) (filter (\<lambda>cid. cid \<notin> chunk_id_of ps ` dom pages) (fe_iter E (dom old)))\<rparr>"
    using assms(1) by (auto simp: build_bundles_def Let_def bind_result_Inr_iff panic_def split: if_splits)
  have "set (fe_iter E (dom old)) = dom old" using assms(2,3) by (simp add: hash_iteration.set_iter)
  then have "the (old cid) \<in> ran old" if "cid \<in> set (fe_iter E (dom old))" for cid using that by (auto simp: ran_def)
  then show "set (ba_replaced acc) \<subseteq> ran old" "fst ` set (ba_uploads acc) \<subseteq> range (\<lambda>cid. fst kind cid v)"
    using bundle_loop_parts [OF a(1)] by (auto simp: a(2))
qed

lemma bundles_parts:
  assumes "bundles E staged dc m v gids = Inr bs" "hash_iteration (fe_iter E)" "bundle_keys_wf m"
  shows "set (ba_replaced (fst bs)) \<union> set (ba_replaced (snd bs)) \<subseteq> ran (interior_chunk_keys m) \<union> ran (index_chunk_keys m)"
    "\<forall>k \<in> fst ` (set (ba_uploads (fst bs)) \<union> set (ba_uploads (snd bs))). \<exists>s. bundle_slot s \<and> k = key_of s v"
proof -
  have fin: "finite (dom (interior_chunk_keys m))" "finite (dom (index_chunk_keys m))" using assms(3) by (simp_all add: bundle_keys_wf_def)
  have slots: "bundle_slot (InteriorSlot c)" "bundle_slot (IndexSlot c)" "interior_chunk_key c v = key_of (InteriorSlot c) v" "index_chunk_key c v = key_of (IndexSlot c) v" for c
    by (simp_all add: bundle_slot_def)
  have "set (ba_replaced (fst bs)) \<subseteq> ran (interior_chunk_keys m) \<and> set (ba_replaced (snd bs)) \<subseteq> ran (index_chunk_keys m)
    \<and> fst ` set (ba_uploads (fst bs)) \<subseteq> range (\<lambda>cid. interior_chunk_key cid v) \<and> fst ` set (ba_uploads (snd bs)) \<subseteq> range (\<lambda>cid. index_chunk_key cid v)"
  proof (cases "fe_is_local E")
    case False
    then obtain dirty leaves where "build_bundles E (interior_chunk_key, aad_interior_bundle) (page_size m) v (all_interior (fe_codec E) staged dc m) dirty
        (interior_chunk_keys m) = Inr (fst bs)"
      "build_bundles E (index_chunk_key, aad_index_bundle) (page_size m) v leaves dirty (index_chunk_keys m) = Inr (snd bs)"
      using assms(1) by (auto simp: bundles_def remote_bundles_def Let_def bind_result_Inr_iff)
    from build_bundles_parts [OF this(1) assms(2) fin(1)] build_bundles_parts [OF this(2) assms(2) fin(2)] show ?thesis by simp
  qed (use assms(1) in \<open>auto simp: bundles_def\<close>)
  then have sub: "set (ba_replaced (fst bs)) \<subseteq> ran (interior_chunk_keys m)" "set (ba_replaced (snd bs)) \<subseteq> ran (index_chunk_keys m)"
    "fst ` set (ba_uploads (fst bs)) \<subseteq> range (\<lambda>cid. interior_chunk_key cid v)" "fst ` set (ba_uploads (snd bs)) \<subseteq> range (\<lambda>cid. index_chunk_key cid v)"
    by simp_all
  show "set (ba_replaced (fst bs)) \<union> set (ba_replaced (snd bs)) \<subseteq> ran (interior_chunk_keys m) \<union> ran (index_chunk_keys m)"
    using sub(1,2) by blast
  show "\<forall>k \<in> fst ` (set (ba_uploads (fst bs)) \<union> set (ba_uploads (snd bs))). \<exists>s. bundle_slot s \<and> k = key_of s v"
  proof
    fix k assume "k \<in> fst ` (set (ba_uploads (fst bs)) \<union> set (ba_uploads (snd bs)))"
    then have "k \<in> range (\<lambda>cid. interior_chunk_key cid v) \<or> k \<in> range (\<lambda>cid. index_chunk_key cid v)" using sub(3,4) by blast
    then show "\<exists>s. bundle_slot s \<and> k = key_of s v" using slots by (metis rangeE)
  qed
qed

subsection \<open>The published manifest\<close>

definition gone :: "manifest \<Rightarrow> (nat \<times> group_flush) list \<Rightarrow> string set" where
  "gone m outs = {k. k \<noteq> [] \<and> (\<exists>g \<in> rewritten_in outs. k = key_at m g)}
     \<union> {k. \<exists>g f. (g \<in> rewritten_in outs \<or> f \<in> frames_in outs g) \<and> override_key m g f = Some k}"

definition publishes :: "manifest \<Rightarrow> nat \<Rightarrow> (nat \<times> group_flush) list \<Rightarrow> manifest \<Rightarrow> bool" where
  "publishes m v outs m' \<longleftrightarrow> same_layout m m' \<and> version m' = v
     \<and> (\<forall>g. key_at m' g = (if g \<in> rewritten_in outs then page_group_key g v else key_at m g))
     \<and> (\<forall>g. table_at m' g = (case table_in outs g of Some ft \<Rightarrow> if 0 < sub_pages_per_frame m then ft else table_at m g | None \<Rightarrow> table_at m g))
     \<and> (\<forall>g f. override_key m' g f = (if g \<in> rewritten_in outs then None
          else if f \<in> frames_in outs g then Some (override_frame_key g f v) else override_key m g f))
     \<and> (\<forall>g. finite (dom (get_or Map.empty (subframe_overrides m') g)))"

lemma rewritten_no_frames: "proper outs \<Longrightarrow> g \<in> rewritten_in outs \<Longrightarrow> frames_in outs g = {}"
proof -
  assume p: "proper outs" and "g \<in> rewritten_in outs"
  then obtain r where r: "(g, r) \<in> set outs" "is_rewritten r" by (auto simp: rewritten_in_def)
  have d: "distinct (map fst outs)" using p by (simp add: proper_def)
  have "r' = r" if "(g, r') \<in> set outs" for r' by (rule eq_key_imp_eq_value [OF d that r(1)])
  then have "{r. (g, r) \<in> set outs} = {r}" using r(1) by blast
  then show ?thesis using r(2) by (cases r) (simp_all add: frames_in_def)
qed

lemma flushed_manifest_parts:
  fixes v :: nat and rs :: "string list"
  assumes iter: "hash_iteration (fe_iter E)" and proper: "proper outs"
    and fin: "\<And>g. finite (dom (get_or Map.empty (subframe_overrides m) g))" and norm: "strategy m = Positional \<longrightarrow> group_pages m = []"
  defines "acc \<equiv> drain_overrides E ((after_groups m v outs (initial_acc m))\<lparr>fa_replaced := fa_replaced (after_groups m v outs (initial_acc m)) @ rs\<rparr>)"
  shows "publishes m v outs (flushed_manifest E m v cc acc bs)" "set (fa_replaced acc) \<subseteq> gone m outs \<union> set rs"
proof -
  let ?a = "after_groups m v outs (initial_acc m)" and ?m' = "flushed_manifest E m v cc acc bs"
  let ?b = "?a\<lparr>fa_replaced := fa_replaced ?a @ rs\<rparr>"
  note p = after_groups_parts [OF proper, of m v "initial_acc m"]
  have init: "get_or [] (fa_keys (initial_acc m)) g = key_at m g" "get_or [] (fa_frame_tables (initial_acc m)) g = table_at m g"
    "acc_override (initial_acc m) g f = override_key m g f" "fa_rewritten (initial_acc m) = {}" "fa_replaced (initial_acc m) = []"
    "finite (dom (get_or Map.empty (fa_overrides (initial_acc m)) g))" for g f
    using fin by (simp_all add: initial_acc_def key_at_def table_at_def acc_override_def override_key_def)
  have "finite (rewritten_in outs)" by (rule finite_subset [of _ "fst ` set outs"]) (force simp: rewritten_in_def)+
  then have rw: "fa_rewritten ?b = rewritten_in outs" "finite (fa_rewritten ?b)" using p init(4) by simp_all
  have fo: "finite_overrides ?b" using p init(6) by (simp add: finite_overrides_def)
  note d = drain_overrides_parts [OF iter fo rw(2), folded acc_def]
  have ov: "acc_override ?b g f = (if f \<in> frames_in outs g then Some (override_frame_key g f v) else override_key m g f)" for g f
    using p [of g f] init(3) [of g f] by (simp add: acc_override_def)
  have ov': "acc_override acc g f = (if g \<in> rewritten_in outs then None
       else if f \<in> frames_in outs g then Some (override_frame_key g f v) else override_key m g f)" for g f
    using d(4) [of g f] by (simp add: rw(1) ov)
  have fields: "page_group_keys ?m' = fa_keys acc" "frame_tables ?m' = fa_frame_tables acc" "subframe_overrides ?m' = fa_overrides acc"
    "page_size ?m' = page_size m" "page_count ?m' = page_count m" "sub_pages_per_frame ?m' = sub_pages_per_frame m" "version ?m' = v"
    "group_pages ?m' = group_pages m" "pages_per_group ?m' = pages_per_group m"
    by (simp_all add: flushed_manifest_def)
  have "strategy ?m' = strategy m" using norm by (cases "strategy m") (simp_all add: flushed_manifest_def)
  then have "group_page_nums ?m' g = group_page_nums m g" for g unfolding group_page_nums_def fields by simp
  then have "same_layout m ?m'" by (simp add: same_layout_def fields)
  moreover have "key_at ?m' g = (if g \<in> rewritten_in outs then page_group_key g v else key_at m g)" for g
    using p [of g] init(1) by (simp add: key_at_def fields d(1))
  moreover have "table_at ?m' g = (case table_in outs g of Some ft \<Rightarrow> if 0 < sub_pages_per_frame m then ft else table_at m g | None \<Rightarrow> table_at m g)" for g
    using p [of g] unfolding init(2) by (simp add: table_at_def fields d(2))
  moreover have "override_key ?m' g f = acc_override acc g f" for g f by (simp add: override_key_def acc_override_def fields)
  moreover have "finite (dom (get_or Map.empty (subframe_overrides ?m') g))" for g using d(3) by (simp add: fields finite_overrides_def)
  ultimately show "publishes m v outs ?m'" by (simp add: publishes_def fields ov')
  show "set (fa_replaced acc) \<subseteq> gone m outs \<union> set rs"
  proof
    fix k assume "k \<in> set (fa_replaced acc)"
    then have "k \<in> set (fa_replaced ?a) \<or> k \<in> set rs \<or> (\<exists>g \<in> rewritten_in outs. \<exists>f. acc_override ?b g f = Some k)"
      using d(5) unfolding rw(1) by auto
    moreover have "k \<in> gone m outs" if "k \<in> set (fa_replaced ?a)"
    proof -
      have "set (fa_replaced ?a) \<subseteq> {k. k \<noteq> [] \<and> (\<exists>gid \<in> rewritten_in outs. k = key_at m gid)}
        \<union> {k. \<exists>gid. \<exists>f \<in> frames_in outs gid. override_key m gid f = Some k}" using p [of 0 0] by (simp add: init)
      then show ?thesis using that by (auto simp: gone_def)
    qed
    moreover have "k \<in> gone m outs" if "g \<in> rewritten_in outs" "acc_override ?b g f = Some k" for g f
      using that ov [of g f] rewritten_no_frames [OF proper that(1)] by (auto simp: gone_def)
    ultimately show "k \<in> gone m outs \<union> set rs" by blast
  qed
qed

subsection \<open>The objects afterwards\<close>

lemma put_all_functional:
  assumes "(k, d) \<in> set ups" "\<And>d'. (k, d') \<in> set ups \<Longrightarrow> d' = d"
  shows "put_all ups objs k = Some d"
  using assms
proof (induction ups rule: rev_induct)
  case (snoc u us)
  obtain k0 d0 where u: "u = (k0, d0)" by force
  have step: "put_all (us @ [u]) objs = (put_all us objs)(k0 \<mapsto> d0)" by (simp add: put_all_def u)
  show ?case
  proof (cases "k0 = k")
    case True
    then have "d0 = d" using snoc.prems(2) [of d0] u by simp
    then show ?thesis unfolding step by (simp add: True)
  next
    case False
    then have "(k, d) \<in> set us" using snoc.prems(1) u by auto
    moreover have "d' = d" if "(k, d') \<in> set us" for d' by (rule snoc.prems(2)) (simp add: that)
    ultimately have "put_all us objs k = Some d" by (rule snoc.IH)
    then show ?thesis unfolding step using False by simp
  qed
qed simp

lemma key_at_slot: "keys_wf m \<Longrightarrow> key_at m g \<noteq> [] \<Longrightarrow> \<exists>v0 \<le> version m. key_at m g = key_of (PageGroupSlot g) v0"
proof -
  assume wf: "keys_wf m" and ne: "key_at m g \<noteq> []"
  then have "get (page_group_keys m) g = Some (key_at m g)" unfolding key_at_def get_or_def by (auto split: option.splits)
  then have "\<exists>v0 \<le> version m. key_at m g = page_group_key g v0" using wf ne unfolding keys_wf_def by blast
  then show ?thesis by simp
qed

lemma override_key_slot: "keys_wf m \<Longrightarrow> override_key m g f = Some k \<Longrightarrow> \<exists>v0 \<le> version m. k = key_of (OverrideSlot g f) v0"
  unfolding keys_wf_def override_key_def override_at_or [symmetric] by auto

definition keeps :: "manifest \<Rightarrow> nat \<Rightarrow> (nat \<times> group_flush) list \<Rightarrow> (string \<rightharpoonup> bytes) \<Rightarrow> (string \<rightharpoonup> bytes) \<Rightarrow> bool" where
  "keeps m v outs objs objs' \<longleftrightarrow> objs' [] = None
     \<and> (\<forall>(g, r) \<in> set outs. \<forall>(k, d) \<in> group_uploads v g r. objs' k = Some d)
     \<and> (\<forall>g. g \<notin> rewritten_in outs \<longrightarrow> key_at m g \<noteq> [] \<longrightarrow> objs' (key_at m g) = objs (key_at m g))
     \<and> (\<forall>g f k. g \<notin> rewritten_in outs \<longrightarrow> f \<notin> frames_in outs g \<longrightarrow> override_key m g f = Some k \<longrightarrow> objs' k = objs k)"

text \<open>A group's uploads, by the slot they fill.\<close>

lemma group_upload_slot:
  assumes "(k, d) \<in> group_uploads v g r"
  shows "(\<exists>ft. r = Rewritten d ft \<and> k = key_of (PageGroupSlot g) v) \<or> (\<exists>fes f. r = Overridden fes \<and> (f, d) \<in> set fes \<and> k = key_of (OverrideSlot g f) v)"
  using assms by (cases r) auto

lemma group_uploads_functional:
  assumes "proper outs" "(g, r) \<in> set outs" "(k, d) \<in> group_uploads v g r" "(g', r') \<in> set outs" "(k, d') \<in> group_uploads v g' r'"
  shows "d' = d"
proof -
  have "g' = g" using group_upload_slot [OF assms(3)] group_upload_slot [OF assms(5)] by (auto simp: key_of_inject simp del: key_of.simps)
  moreover have "distinct (map fst outs)" using assms(1) by (simp add: proper_def)
  ultimately have "r' = r" using assms(2,4) eq_key_imp_eq_value by metis
  moreover have "distinct (map fst fes)" if "r = Overridden fes" for fes using assms(1,2) that by (auto simp: proper_def)
  ultimately show ?thesis using group_upload_slot [OF assms(3)] group_upload_slot [OF assms(5)]
    by (auto simp: key_of_inject simp del: key_of.simps dest: eq_key_imp_eq_value)
qed

lemma gone_slot:
  assumes "keys_wf m" "k \<in> gone m outs"
  shows "\<exists>v0 \<le> version m. (\<exists>g \<in> rewritten_in outs. k = key_of (PageGroupSlot g) v0)
    \<or> (\<exists>g f. (g \<in> rewritten_in outs \<or> f \<in> frames_in outs g) \<and> k = key_of (OverrideSlot g f) v0)"
  using assms(2) key_at_slot [OF assms(1)] override_key_slot [OF assms(1)] unfolding gone_def by (auto simp del: key_of.simps) metis+

lemma flush_objects:
  assumes wf: "keys_wf m" "bundle_keys_wf m" "version m < v" "objs [] = None" and proper: "proper outs"
    and ups: "set ups = (\<Union>(g, r) \<in> set outs. group_uploads v g r) \<union> bs" "\<And>k. k \<in> fst ` bs \<Longrightarrow> \<exists>s. bundle_slot s \<and> k = key_of s v"
    and D: "D \<subseteq> gone m outs \<union> ran (interior_chunk_keys m) \<union> ran (index_chunk_keys m)"
    and objs': "\<And>k. k \<noteq> MANIFEST_KEY \<Longrightarrow> objs' k = (if k \<in> D then None else put_all ups objs k)"
  shows "keeps m v outs objs objs'"
proof -
  have upload: "\<exists>s. k = key_of s v" if "k \<in> fst ` set ups" for k
  proof -
    have "(\<exists>g r d. (g, r) \<in> set outs \<and> (k, d) \<in> group_uploads v g r) \<or> k \<in> fst ` bs" using that ups(1) by auto
    then show ?thesis using group_upload_slot ups(2) by metis
  qed
  have other: "put_all ups objs k = objs k" if "\<And>s. k \<noteq> key_of s v" for k using put_all_other [of k ups objs] upload that by blast
  have old: "\<exists>s v0. k = key_of s v0 \<and> v0 \<le> version m" if "k \<in> D" for k
    using that D gone_slot [OF wf(1)] wf(2) unfolding bundle_keys_wf_def by (metis (no_types, lifting) Un_iff subsetD)
  have "put_all ups objs [] = None" using other [of "[]"] key_of_nonempty(1) wf(4) by metis
  then have "objs' [] = None" using objs' [of "[]"] by (simp add: MANIFEST_KEY_def)
  moreover have "objs' k = Some d" if g: "(g, r) \<in> set outs" "(k, d) \<in> group_uploads v g r" for g r k d
  proof -
    obtain s where s: "k = key_of s v" "\<not> bundle_slot s" using group_upload_slot [OF g(2)] by (auto simp: bundle_slot_def simp del: key_of.simps)
    have "(k, d) \<in> set ups" using g ups(1) by auto
    moreover have "d' = d" if k: "(k, d') \<in> set ups" for d'
    proof -
      have "(k, d') \<notin> bs"
      proof
        assume "(k, d') \<in> bs"
        then have "k \<in> fst ` bs" by force
        then obtain s' where "bundle_slot s'" "k = key_of s' v" using ups(2) by blast
        then show False using s by (simp add: key_of_inject)
      qed
      then obtain g' r' where "(g', r') \<in> set outs" "(k, d') \<in> group_uploads v g' r'" using k ups(1) by auto
      then show ?thesis using group_uploads_functional [OF proper g] by blast
    qed
    ultimately have "put_all ups objs k = Some d" by (rule put_all_functional)
    moreover have "k \<notin> D" using old [of k] s(1) wf(3) by (auto simp: key_of_inject simp del: key_of.simps)
    moreover have "k \<noteq> MANIFEST_KEY" using key_of_nonempty(2) s(1) by simp
    ultimately show ?thesis using objs' by simp
  qed
  moreover have kept: "objs' k = objs k" if "k = key_of s v0" "v0 \<le> version m" "\<not> bundle_slot s"
      "\<And>g. g \<in> rewritten_in outs \<Longrightarrow> s \<noteq> PageGroupSlot g" "\<And>g f. g \<in> rewritten_in outs \<or> f \<in> frames_in outs g \<Longrightarrow> s \<noteq> OverrideSlot g f" for k s v0
  proof -
    have "k \<notin> gone m outs" using gone_slot [OF wf(1), of k outs] that by (auto simp: key_of_inject simp del: key_of.simps)
    moreover have "k \<notin> ran (interior_chunk_keys m) \<union> ran (index_chunk_keys m)"
      using wf(2) that(1,3) unfolding bundle_keys_wf_def by (metis key_of_inject)
    ultimately have "k \<notin> D" using D by blast
    moreover have "k \<noteq> MANIFEST_KEY" using that(1) key_of_nonempty(2) by simp
    moreover have "put_all ups objs k = objs k" using that(1,2) wf(3) by (intro other) (auto simp: key_of_inject simp del: key_of.simps)
    ultimately show ?thesis using objs' by simp
  qed
  moreover have "objs' (key_at m g) = objs (key_at m g)" if g: "g \<notin> rewritten_in outs" "key_at m g \<noteq> []" for g
  proof -
    obtain v0 where "v0 \<le> version m" "key_at m g = key_of (PageGroupSlot g) v0" using key_at_slot [OF wf(1) g(2)] by blast
    then show ?thesis using g(1) by (intro kept) (auto simp: bundle_slot_def simp del: key_of.simps)
  qed
  moreover have "objs' k = objs k" if g: "g \<notin> rewritten_in outs" "f \<notin> frames_in outs g" "override_key m g f = Some k" for g f k
  proof -
    obtain v0 where "v0 \<le> version m" "k = key_of (OverrideSlot g f) v0" using override_key_slot [OF wf(1) g(3)] by blast
    then show ?thesis using g(1,2) by (intro kept) (auto simp: bundle_slot_def simp del: key_of.simps)
  qed
  ultimately show ?thesis by (auto simp: keeps_def)
qed

subsection \<open>What readers get\<close>

lemma get_of_key: "key_at m g = k \<Longrightarrow> k \<noteq> [] \<Longrightarrow> get (page_group_keys m) g = Some k"
  unfolding key_at_def get_or_def by (auto split: option.splits)

lemma get_of_table: "table_at m g = ft \<Longrightarrow> ft \<noteq> [] \<Longrightarrow> get (frame_tables m) g = Some ft"
  unfolding table_at_def get_or_def by (auto split: option.splits)

lemma encoded_table:
  assumes "encoded_group C nonces key ps spf gid pages data ft" "0 < spf" "pages \<noteq> []"
  shows "ft \<noteq> []"
proof -
  obtain ds where "list_all2 (\<lambda>raw d. \<exists>j. seal_frame C (nonces j) (aad_page_group gid) key raw = Inr d)
        (map (frame_raw ps spf pages) [0..<div_ceil (length pages) spf]) ds" "ft = entries_from 0 ds"
    using assms(1,2) encode_frames_result [of C nonces "aad_page_group gid" key 0 _ "[]" "[]" data ft]
    by (auto simp: encoded_group_def encode_page_group_seekable_def)
  then have "length ft = div_ceil (length pages) spf" by (auto dest!: list_all2_lengthD)
  moreover have "0 < div_ceil (length pages) spf" using less_div_ceil_iff [OF assms(2), of 0] assms(3) by auto
  ultimately show ?thesis by auto
qed

text \<open>What the flush relies on of its environment: the codec's contract and fresh nonces.\<close>

definition flush_codec :: "flush_env \<Rightarrow> bool" where
  "flush_codec E \<longleftrightarrow> codec_contract (fe_codec E) \<and> seal_bounded (fe_codec E) \<and> (\<forall>k i. length (fe_nonces E k i) = 12)
     \<and> (\<forall>g i. length (fe_compact_nonces E g i) = 12)"

lemma rewritten_reads:
  assumes env: "flush_codec E" and pub: "publishes m v outs m'" and kept: "keeps m v outs objs objs'" and proper: "proper outs"
    and r: "(gid, Rewritten enc ft) \<in> set outs" "group_flushed E staged dc m v objs gid (Rewritten enc ft)"
    and lim: "group_limits (page_size m) (length (group_page_nums m gid)) (page_count m)"
    and len: "\<And>pos d. pos < length (group_page_nums m gid) \<Longrightarrow> page_source (fe_codec E) (fe_key E) staged dc m objs gid pos = Some d \<Longrightarrow> length d = page_size m"
    and pos: "pos < length (group_page_nums m gid)"
  shows "remote_page (fe_codec E) (fe_key E) m' objs' gid pos = page_source (fe_codec E) (fe_key E) staged dc m objs gid pos"
proof -
  let ?C = "fe_codec E" and ?n = "length (group_page_nums m gid)" and ?nonces = "fe_nonces E (page_group_key gid v)" and ?spf = "sub_pages_per_frame m"
  let ?src = "page_source (fe_codec E) (fe_key E) staged dc m objs gid"
  let ?pages = "map ?src [0..<?n]"
  have sh: "page_size m' = page_size m" "sub_pages_per_frame m' = ?spf" "page_count m' = page_count m" "group_page_nums m' gid = group_page_nums m gid"
    using pub by (simp_all add: publishes_def same_layout_def)
  have rw: "gid \<in> rewritten_in outs" using r(1) by (force simp: rewritten_in_def)
  have d: "distinct (map fst outs)" using proper by (simp add: proper_def)
  have ti: "table_in outs gid = Some ft" using map_of_is_SomeI [OF d r(1)] by (simp add: table_in_def)
  have enc: "encoded_group ?C ?nonces (fe_key E) (page_size m) ?spf gid ?pages enc ft" and some: "None \<notin> ?src ` {0..<?n}"
    using r(2) by (simp_all add: group_flushed_def Let_def)
  have fit: "list_all (fits_page (page_size m)) ?pages" using len by (auto simp: list_all_iff fits_page_def split: option.splits)
  have c: "codec_contract ?C" "seal_bounded ?C" "\<And>k. length (?nonces k) = 12" using env by (simp_all add: flush_codec_def)
  have lim': "group_limits (page_size m) (length ?pages) (page_count m)" using lim by simp
  have short: "length enc < U32_SIZE" by (rule encoded_group_small [OF c(2,3) enc fit lim'])
  have key: "get (page_group_keys m') gid = Some (page_group_key gid v)"
    using pub rw by (intro get_of_key) (simp_all add: publishes_def page_group_key_def)
  have obj: "objs' (page_group_key gid v) = Some enc" using kept r(1) by (fastforce simp: keeps_def)
  have ne: "?pages \<noteq> []" using pos by auto
  have table: "get (frame_tables m') gid = Some ft" if "0 < ?spf"
    using pub ti that encoded_table [OF enc that ne] by (intro get_of_table) (simp_all add: publishes_def)
  have "base_page ?C (fe_key E) m' objs' gid pos = Some (page_bytes (page_size m') (?pages ! pos))"
    by (rule encoded_group_page [of ?C ?nonces "fe_key E" m' gid ?pages enc ft])
      (use c enc lim' short fit key obj table pos in \<open>simp_all add: sh\<close>)
  moreover have "override_at m' gid f = None" for f
  proof -
    have "override_key m' gid f = None" using pub rw by (simp add: publishes_def)
    then show ?thesis by (simp add: override_key_def override_at_or)
  qed
  moreover obtain x where x: "?src pos = Some x" using some pos by (metis atLeastLessThan_iff imageI le0 not_None_eq)
  moreover have "page_bytes (page_size m) (Some x) = x" using len [OF pos x] by (simp add: page_bytes_def zeros_def)
  ultimately show ?thesis using pos by (simp add: remote_page_split sh)
qed

lemma untouched_reads:
  assumes pub: "publishes m v outs m'" and kept: "keeps m v outs objs objs'" and empty: "objs [] = None"
    and g: "gid \<notin> rewritten_in outs" "pos div sub_pages_per_frame m \<notin> frames_in outs gid" "table_in outs gid = None"
  shows "remote_page C key m' objs' gid pos = remote_page C key m objs gid pos"
  using assms by (intro remote_page_cong) (auto simp: publishes_def keeps_def)

lemma overridden_reads:
  assumes env: "flush_codec E" and pub: "publishes m v outs m'" and kept: "keeps m v outs objs objs'" and proper: "proper outs"
    and r: "(gid, Overridden fes) \<in> set outs" "group_flushed E staged dc m v objs gid (Overridden fes)"
    and lim: "group_limits (page_size m) (length (group_page_nums m gid)) (page_count m)"
    and len: "\<And>pos d. pos < length (group_page_nums m gid) \<Longrightarrow> page_source (fe_codec E) (fe_key E) staged dc m objs gid pos = Some d \<Longrightarrow> length d = page_size m"
    and pos: "pos < length (group_page_nums m gid)" "pos div sub_pages_per_frame m \<in> fst ` set fes" and spf: "0 < sub_pages_per_frame m"
  shows "remote_page (fe_codec E) (fe_key E) m' objs' gid pos = page_source (fe_codec E) (fe_key E) staged dc m objs gid pos"
proof -
  let ?C = "fe_codec E" and ?ps = "page_size m" and ?spf = "sub_pages_per_frame m" and ?n = "length (group_page_nums m gid)"
  let ?src = "page_source (fe_codec E) (fe_key E) staged dc m objs gid" and ?f = "pos div sub_pages_per_frame m"
  have sh: "page_size m' = ?ps" "sub_pages_per_frame m' = ?spf" using pub by (simp_all add: publishes_def same_layout_def)
  obtain enc where fe: "(?f, enc) \<in> set fes" using pos(2) by auto
  obtain ds where ds: "map Some ds = map ?src (frame_positions m gid ?f)"
      "seal_frame ?C (fe_nonces E (override_frame_key gid ?f v) 0) (aad_override_frame gid ?f) (fe_key E)
         (concat (map (\<lambda>d. page_bytes ?ps (Some d)) ds)) = Inr enc"
    using r(2) fe by (auto simp: group_flushed_def Let_def)
  let ?raw = "concat (map (\<lambda>d. page_bytes ?ps (Some d)) ds)" and ?j = "pos mod sub_pages_per_frame m"
  have positions: "frame_positions m gid ?f = [?f * ?spf..<min (?f * ?spf + ?spf) ?n]" by (simp add: frame_positions_def Let_def)
  have at: "?f * ?spf + ?j = pos" by simp
  have lends: "length ds = min (?f * ?spf + ?spf) ?n - ?f * ?spf" using arg_cong [OF ds(1), of length] by (simp add: positions)
  have j: "?j < length ds" using lends pos(1) at spf mod_less_divisor [OF spf, of pos] by linarith
  have dj: "Some (ds ! i) = ?src (?f * ?spf + i)" if "i < length ds" for i
  proof -
    have "?f * ?spf + i < min (?f * ?spf + ?spf) ?n" using that lends by linarith
    then show ?thesis using arg_cong [OF ds(1), of "\<lambda>xs. xs ! i"] that lends nth_upt [of "?f * ?spf" i "min (?f * ?spf + ?spf) ?n"]
      by (simp add: positions)
  qed
  have dlen: "length (ds ! i) = ?ps" if "i < length ds" for i
  proof (rule len)
    show "?f * ?spf + i < ?n" using that lends by linarith
    show "?src (?f * ?spf + i) = Some (ds ! i)" using dj [OF that] by (rule sym)
  qed
  have all: "length x = ?ps" if "x \<in> set ds" for x using that dlen by (auto simp: in_set_conv_nth)
  then have "page_bytes ?ps (Some d) = d" if "d \<in> set ds" for d using that by (simp add: page_bytes_def zeros_def)
  then have raw: "?raw = concat ds" by (metis (mono_tags, lifting) map_idI)
  have lr: "length ?raw = length ds * ?ps"
    using length_page_list [of ?ps "map Some ds"] all by (simp add: fits_page_def list_all_iff comp_def)
  have "length ds \<le> ?n" using lends by simp
  then have "length ds * ?ps \<le> ?n * ?ps" by (rule mult_le_mono1)
  moreover have "8 + ?n * ?ps \<le> MAX_TIERED_DECOMPRESSED_BYTES" using lim by (simp add: group_limits_def)
  ultimately have cap: "length ?raw \<le> MAX_TIERED_DECOMPRESSED_BYTES" unfolding lr by linarith
  have "length (fe_nonces E (override_frame_key gid ?f v) 0) = 12" "codec_contract ?C" using env by (simp_all add: flush_codec_def)
  from open_seal [OF this(2) ds(2) this(1) cap]
  have opened: "decode_seekable_subchunk ?C enc (aad_override_frame gid ?f) (fe_key E) = Inr ?raw"
    by (simp add: decode_seekable_subchunk_def MAX_TIERED_DECOMPRESSED_BYTES_def)
  have obj: "objs' (override_frame_key gid ?f v) = Some enc" using kept r(1) fe by (fastforce simp: keeps_def)
  have "gid \<notin> rewritten_in outs" using rewritten_no_frames [OF proper, of gid] r(1) fe by (force simp: frames_in_def)
  moreover have "?f \<in> frames_in outs gid" using r(1) fe by (force simp: frames_in_def)
  ultimately have "override_key m' gid ?f = Some (override_frame_key gid ?f v)" using pub by (simp add: publishes_def)
  then obtain ov where ov: "override_at m' gid ?f = Some ov" "so_key ov = override_frame_key gid ?f v"
    by (auto simp: override_key_def override_at_or)
  have "override_frame ?C (fe_key E) m' objs' gid ?f = Some ?raw" by (simp add: override_frame_def ov open_override_def obj opened)
  moreover have "(?j + 1) * ?ps \<le> length ?raw" using j by (simp only: lr, intro mult_le_mono1) simp
  moreover have "bslice (?j * ?ps) ?ps ?raw = ds ! ?j" using bslice_concat_equal [of ds ?ps ?j] all j by (simp add: raw)
  moreover have "Some (ds ! ?j) = ?src pos" using dj [OF j] at by simp
  ultimately show ?thesis using spf by (simp add: remote_page_split sh ov overlaid_def)
qed

subsection \<open>A whole flush\<close>

text \<open>A positional group number is in range when its first page number does not wrap.\<close>

definition group_in_range :: "manifest \<Rightarrow> nat \<Rightarrow> bool" where
  "group_in_range m gid \<longleftrightarrow> (strategy m = Positional \<longrightarrow> gid * pages_per_group m < U64_SIZE)"

definition flush_layout :: "manifest \<Rightarrow> bool" where
  "flush_layout m \<longleftrightarrow> (strategy m = Positional \<longrightarrow> group_pages m = [])
     \<and> (\<forall>gid. \<forall>p \<in> set (group_page_nums m gid). p < page_count m) \<and> (\<forall>gid. distinct (group_page_nums m gid))
     \<and> (\<forall>gid pos. group_in_range m gid \<longrightarrow> pos < length (group_page_nums m gid)
          \<longrightarrow> page_location m (group_page_nums m gid ! pos) = Some \<lparr>pl_group_id = gid, pl_index = pos\<rparr>)"

lemma layout_bound: "flush_layout m \<Longrightarrow> p \<in> set (group_page_nums m gid) \<Longrightarrow> p < page_count m"
  unfolding flush_layout_def by blast

lemma layout_distinct: "flush_layout m \<Longrightarrow> distinct (group_page_nums m gid)"
  by (simp add: flush_layout_def)

lemma dirty_frames_staged:
  assumes "flush_layout m" "0 < sub_pages_per_frame m" "table_at m gid \<noteq> []" "dirty_frames m staged threshold gid \<noteq> []"
  shows "f \<in> set (dirty_frames m staged threshold gid)
    \<longleftrightarrow> (\<exists>i < length (group_page_nums m gid). staged (group_page_nums m gid ! i) \<noteq> None \<and> f = i div sub_pages_per_frame m)"
    "distinct (dirty_frames m staged threshold gid)"
proof -
  let ?dirty = "filter (\<lambda>p. p < page_count m \<and> staged p \<noteq> None) (group_page_nums m gid)"
  have fr: "dirty_frames m staged threshold gid = dirty_frames_for_group ?dirty (group_page_nums m gid) (table_at m gid) (sub_pages_per_frame m)"
    using assms(4) table_at_nth [OF assms(3)] by (simp add: dirty_frames_def Let_def split: if_splits)
  have dirty: "group_page_nums m gid ! i \<in> set ?dirty \<longleftrightarrow> staged (group_page_nums m gid ! i) \<noteq> None" if "i < length (group_page_nums m gid)" for i
    using that layout_bound [OF assms(1) nth_mem [OF that]] by simp
  note set = dirty_frames_set [OF layout_distinct [OF assms(1)] assms(2,3)]
  show "f \<in> set (dirty_frames m staged threshold gid)
      \<longleftrightarrow> (\<exists>i < length (group_page_nums m gid). staged (group_page_nums m gid ! i) \<noteq> None \<and> f = i div sub_pages_per_frame m)"
    unfolding fr using set dirty by blast
  show "distinct (dirty_frames m staged threshold gid)" unfolding fr using set by (simp add: strict_sorted_iff)
qed

lemma layout_dirty:
  assumes "flush_layout m" "group_in_range m gid" "pos < length (group_page_nums m gid)" "staged (group_page_nums m gid ! pos) \<noteq> None"
  shows "gid \<in> dirty_group_ids m staged legacy"
proof -
  let ?p = "group_page_nums m gid ! pos"
  have "page_location m ?p = Some \<lparr>pl_group_id = gid, pl_index = pos\<rparr>" using assms(1-3) unfolding flush_layout_def by blast
  moreover have "?p \<in> dom staged" using assms(4) by blast
  ultimately have "\<lparr>pl_group_id = gid, pl_index = pos\<rparr> \<in> Option.these (page_location m ` dom staged)" by (metis image_eqI in_these_eq)
  then have "gid \<in> pl_group_id ` Option.these (page_location m ` dom staged)" by (metis image_eqI page_loc.select_convs(1))
  then show ?thesis by (simp add: dirty_group_ids_def)
qed

text \<open>
  The database as the process sees it: staged pages over cached pages over what is stored.
\<close>

definition flush_view :: "codec \<Rightarrow> bytes option \<Rightarrow> (nat \<rightharpoonup> bytes) \<Rightarrow> disk_cache \<Rightarrow> manifest \<Rightarrow> (string \<rightharpoonup> bytes) \<Rightarrow> nat \<Rightarrow> nat \<Rightarrow> bytes option" where
  "flush_view C key staged dc m objs gid pos =
     (case local_view C staged dc (group_page_nums m gid ! pos) of Some d \<Rightarrow> Some d | None \<Rightarrow> remote_page C key m objs gid pos)"

text \<open>
  A flush touches a position when it uploads it anew: the whole group, or, when the group takes override
  frames, the frames with a staged page. What it publishes there is the staged page, else the cached one, else
  the one of the base object, whatever override frame may have lain over it; elsewhere the page stays as it was stored.
\<close>

definition flush_touches :: "flush_env \<Rightarrow> manifest \<Rightarrow> (nat \<rightharpoonup> bytes) \<Rightarrow> nat set \<Rightarrow> nat \<Rightarrow> nat \<Rightarrow> bool" where
  "flush_touches E m staged legacy gid pos \<longleftrightarrow>
     (let threshold = effective_threshold m (fe_override_threshold E) in
      gid \<in> dirty_group_ids m staged legacy
      \<and> (use_override m staged threshold gid \<longrightarrow> pos div sub_pages_per_frame m \<in> set (dirty_frames m staged threshold gid)))"

definition published_page ::
  "flush_env \<Rightarrow> (nat \<rightharpoonup> bytes) \<Rightarrow> disk_cache \<Rightarrow> manifest \<Rightarrow> (string \<rightharpoonup> bytes) \<Rightarrow> nat set \<Rightarrow> nat \<Rightarrow> nat \<Rightarrow> bytes option" where
  "published_page E staged dc m objs legacy gid pos =
     (if flush_touches E m staged legacy gid pos
      then (case local_view (fe_codec E) staged dc (group_page_nums m gid ! pos) of
              Some d \<Rightarrow> Some d
            | None \<Rightarrow> base_page (fe_codec E) (fe_key E) m objs gid pos)
      else remote_page (fe_codec E) (fe_key E) m objs gid pos)"

text \<open>
  Two kinds of pages are published as something else than the process saw. The base hides an override: the page
  is uploaded anew, is neither staged nor cached, and lives in an override frame. A cached page is left behind: it
  differs from the stored one and is not uploaded.
\<close>

definition override_dropped :: "flush_env \<Rightarrow> (nat \<rightharpoonup> bytes) \<Rightarrow> disk_cache \<Rightarrow> manifest \<Rightarrow> nat set \<Rightarrow> nat \<Rightarrow> nat \<Rightarrow> bool" where
  "override_dropped E staged dc m legacy gid pos \<longleftrightarrow>
     flush_touches E m staged legacy gid pos \<and> local_view (fe_codec E) staged dc (group_page_nums m gid ! pos) = None
     \<and> 0 < sub_pages_per_frame m \<and> override_at m gid (pos div sub_pages_per_frame m) \<noteq> None"

definition cached_left_behind ::
  "flush_env \<Rightarrow> (nat \<rightharpoonup> bytes) \<Rightarrow> disk_cache \<Rightarrow> manifest \<Rightarrow> (string \<rightharpoonup> bytes) \<Rightarrow> nat set \<Rightarrow> nat \<Rightarrow> nat \<Rightarrow> bool" where
  "cached_left_behind E staged dc m objs legacy gid pos \<longleftrightarrow>
     \<not> flush_touches E m staged legacy gid pos \<and> cache_view (fe_codec E) dc (group_page_nums m gid ! pos) \<noteq> None
     \<and> cache_view (fe_codec E) dc (group_page_nums m gid ! pos) \<noteq> remote_page (fe_codec E) (fe_key E) m objs gid pos"

lemma published_source:
  "flush_touches E m staged legacy gid pos \<Longrightarrow>
     published_page E staged dc m objs legacy gid pos = page_source (fe_codec E) (fe_key E) staged dc m objs gid pos"
  by (simp add: published_page_def page_source_def)

text \<open>A staged page is always uploaded.\<close>

lemma staged_touched:
  assumes "flush_layout m" "group_in_range m gid" "pos < length (group_page_nums m gid)" "staged (group_page_nums m gid ! pos) \<noteq> None"
  shows "flush_touches E m staged legacy gid pos"
proof -
  let ?th = "effective_threshold m (fe_override_threshold E)"
  have "pos div sub_pages_per_frame m \<in> set (dirty_frames m staged ?th gid)" if u: "use_override m staged ?th gid"
  proof -
    have "0 < sub_pages_per_frame m" "table_at m gid \<noteq> []" "dirty_frames m staged ?th gid \<noteq> []"
      using u by (simp_all add: use_override_def Let_def has_frame_table_at)
    from dirty_frames_staged(1) [OF assms(1) this] assms(3,4) show ?thesis by blast
  qed
  then show ?thesis using layout_dirty [where staged = staged and pos = pos, OF assms(1-4)] by (simp add: flush_touches_def Let_def)
qed

lemma published_staged:
  assumes "flush_layout m" "group_in_range m gid" "pos < length (group_page_nums m gid)" "staged (group_page_nums m gid ! pos) = Some d"
  shows "published_page E staged dc m objs legacy gid pos = Some d"
  using staged_touched [OF assms(1-3)] assms(4) by (simp add: published_page_def local_view_def)

lemma published_view:
  assumes "flush_layout m" "group_in_range m gid" "pos < length (group_page_nums m gid)"
    and "\<not> override_dropped E staged dc m legacy gid pos" "\<not> cached_left_behind E staged dc m objs legacy gid pos"
  shows "published_page E staged dc m objs legacy gid pos = flush_view (fe_codec E) (fe_key E) staged dc m objs gid pos"
proof (cases "flush_touches E m staged legacy gid pos")
  case True
  then show ?thesis using assms(4)
    by (auto simp: published_page_def flush_view_def override_dropped_def remote_page_split split: option.split)
next
  case False
  then have "staged (group_page_nums m gid ! pos) = None" using staged_touched [OF assms(1-3)] by blast
  then show ?thesis using False assms(5)
    by (auto simp: published_page_def flush_view_def local_view_def cached_left_behind_def split: option.split)
qed

lemma flush_read_exact:
  assumes env: "flush_codec E" and pub: "publishes m v outs m'" and kept: "keeps m v outs objs objs'" and proper: "proper outs"
    and outs: "\<forall>(gid, r) \<in> set outs. group_flushed E staged dc m v objs gid r" "set (map fst outs) = dirty_group_ids m staged legacy"
    and wf: "store_wf (fe_codec E) (fe_key E) m objs" "flush_layout m"
    and len: "\<And>gid pos d. gid \<in> dirty_group_ids m staged legacy \<Longrightarrow> pos < length (group_page_nums m gid)
        \<Longrightarrow> page_source (fe_codec E) (fe_key E) staged dc m objs gid pos = Some d \<Longrightarrow> length d = page_size m"
    and pos: "pos < length (group_page_nums m gid)"
  shows "remote_page (fe_codec E) (fe_key E) m' objs' gid pos = published_page E staged dc m objs legacy gid pos"
proof -
  let ?C = "fe_codec E" and ?key = "fe_key E" and ?dirty = "dirty_group_ids m staged legacy" and ?th = "effective_threshold m (fe_override_threshold E)"
  have empty: "objs [] = None" using wf(1) by (simp add: store_wf_def)
  have d: "distinct (map fst outs)" using proper by (simp add: proper_def)
  have lim: "group_limits (page_size m) (length (group_page_nums m gid)) (page_count m)"
    using wf(1) pos unfolding store_wf_def by (metis length_0_conv less_zeroE)
  have same: "remote_page ?C ?key m' objs' gid pos = published_page E staged dc m objs legacy gid pos"
    if "\<not> flush_touches E m staged legacy gid pos" "gid \<notin> rewritten_in outs" "pos div sub_pages_per_frame m \<notin> frames_in outs gid" "table_in outs gid = None"
    using untouched_reads [OF pub kept empty that(2-4)] that(1) by (simp add: published_page_def)
  show ?thesis
  proof (cases "gid \<in> ?dirty")
    case False
    then have no: "\<And>r. (gid, r) \<notin> set outs" using outs(2) by force
    then have "table_in outs gid = None" by (auto simp: table_in_def map_of_eq_None_iff split: option.splits dest: map_of_SomeD)
    moreover have "\<not> flush_touches E m staged legacy gid pos" using False by (simp add: flush_touches_def Let_def)
    ultimately show ?thesis using no by (intro same) (auto simp: rewritten_in_def frames_in_def)
  next
    case True
    then obtain r where r: "(gid, r) \<in> set outs" using outs(2) by force
    have gf: "group_flushed E staged dc m v objs gid r" using outs(1) r by blast
    show ?thesis
    proof (cases r)
      case (Rewritten enc ft)
      then have "flush_touches E m staged legacy gid pos" using gf True by (simp add: flush_touches_def group_flushed_def Let_def)
      then show ?thesis using rewritten_reads [OF env pub kept proper r [unfolded Rewritten] gf [unfolded Rewritten] lim len [OF True] pos] published_source by simp
    next
      case (Overridden fes)
      note gf' = gf [unfolded Overridden]
      have spf: "0 < sub_pages_per_frame m" and use: "use_override m staged ?th gid" and fr: "map fst fes = dirty_frames m staged ?th gid"
        using gf' by (simp_all add: group_flushed_def Let_def has_frame_table_at)
      have frames: "fst ` set fes = set (dirty_frames m staged ?th gid)" using fr by (metis set_map)
      have touch: "flush_touches E m staged legacy gid pos \<longleftrightarrow> pos div sub_pages_per_frame m \<in> fst ` set fes"
        using True use by (simp add: flush_touches_def Let_def frames)
      show ?thesis
      proof (cases "pos div sub_pages_per_frame m \<in> fst ` set fes")
        case f: True
        then show ?thesis
          using overridden_reads [OF env pub kept proper r [unfolded Overridden] gf' lim len [OF True] pos f spf] touch published_source by simp
      next
        case False
        have "r' = r" if "(gid, r') \<in> set outs" for r' by (rule eq_key_imp_eq_value [OF d that r])
        then have only: "(gid, r') \<in> set outs \<longleftrightarrow> r' = Overridden fes" for r' using r unfolding Overridden by blast
        have "frames_in outs gid = fst ` set fes" "gid \<notin> rewritten_in outs" by (simp_all add: frames_in_def rewritten_in_def only)
        moreover have "table_in outs gid = None" using map_of_is_SomeI [OF d r] Overridden by (simp add: table_in_def)
        ultimately show ?thesis using False touch by (intro same) simp_all
      qed
    qed
  qed
qed

end
