(* ===== verification/Flush_Theorems.thy ===== *)
theory Flush_Theorems
  imports Flush_Correct Cache_Write
begin

text \<open>
  The two theorems of the flush: a call that succeeds publishes the local view of the database, a call
  that fails leaves everything as it was.
\<close>

subsection \<open>The store after the manifest is published\<close>

lemma published_keys_wf:
  assumes "publishes m v outs m'" "keys_wf m" "version m < v"
  shows "keys_wf m'"
proof -
  have v: "version m' = v" using assms(1) by (simp add: publishes_def)
  have "k = [] \<or> (\<exists>v' \<le> v. k = page_group_key gid v')" if k: "get (page_group_keys m') gid = Some k" for gid k
  proof -
    have "k = key_at m' gid" unfolding key_at_def get_or_def k by simp
    also have "\<dots> = (if gid \<in> rewritten_in outs then page_group_key gid v else key_at m gid)" using assms(1) by (simp add: publishes_def)
    finally show ?thesis using key_at_slot [OF assms(2), of gid] assms(3) by (metis key_of.simps(1) less_imp_le le_trans order_refl)
  qed
  moreover have "\<exists>v' \<le> v. so_key ov = override_frame_key gid f v'" if ov: "override_at m' gid f = Some ov" for gid f ov
  proof -
    have "override_key m' gid f = Some (so_key ov)" using ov by (simp add: override_key_def override_at_or)
    then have "f \<in> frames_in outs gid \<and> so_key ov = override_frame_key gid f v \<or> override_key m gid f = Some (so_key ov)"
      using assms(1) by (auto simp: publishes_def split: if_splits)
    then show ?thesis using override_key_slot [OF assms(2), of gid f "so_key ov"] assms(3) by (metis key_of.simps(4) less_imp_le le_trans order_refl)
  qed
  ultimately show ?thesis by (simp add: keys_wf_def v)
qed

text \<open>
  What a flush starts from: a well-formed store whose pages have the page size, a consistent page map, a sound
  cache, and staged pages of the page size. Nothing is asked of how cache and store agree.
\<close>

definition flush_ready :: "flush_env \<Rightarrow> flush_state \<Rightarrow> (nat \<rightharpoonup> bytes) \<Rightarrow> bool" where
  "flush_ready E s staged \<longleftrightarrow>
     (let C = fe_codec E; m = fs_manifest s; objs = bk_objects (fs_backend s) in
      store_wf C (fe_key E) m objs \<and> version m + 2 < U64_SIZE \<and> bundle_keys_wf m \<and> flush_layout m
      \<and> cache_inv C (fs_cache s) \<and> dc_page_size (fs_cache s) = page_size m
      \<and> finite (fs_dirty s) \<and> finite (dom staged) \<and> (\<forall>d \<in> ran staged. length d = page_size m)
      \<and> (\<forall>gid pos d. pos < length (group_page_nums m gid) \<longrightarrow> base_page C (fe_key E) m objs gid pos = Some d \<longrightarrow> length d = page_size m))"

lemma source_length:
  assumes "flush_ready E s staged" "pos < length (group_page_nums (fs_manifest s) gid)"
    "page_source (fe_codec E) (fe_key E) staged (fs_cache s) (fs_manifest s) (bk_objects (fs_backend s)) gid pos = Some d"
  shows "length d = page_size (fs_manifest s)"
proof -
  let ?m = "fs_manifest s" and ?C = "fe_codec E" and ?p = "group_page_nums (fs_manifest s) gid ! pos"
  have inv: "cache_inv ?C (fs_cache s)" "dc_page_size (fs_cache s) = page_size ?m" and st: "\<forall>d \<in> ran staged. length d = page_size ?m"
    and base: "\<And>gid pos d. pos < length (group_page_nums ?m gid) \<Longrightarrow> base_page ?C (fe_key E) ?m (bk_objects (fs_backend s)) gid pos = Some d \<Longrightarrow> length d = page_size ?m"
    using assms(1) by (simp_all add: flush_ready_def Let_def)
  show ?thesis
  proof (cases "local_view ?C staged (fs_cache s) ?p")
    case None
    then show ?thesis using assms(3) base [OF assms(2)] by (simp add: page_source_def)
  next
    case (Some x)
    then have x: "x = d" using assms(3) by (simp add: page_source_def)
    have "staged ?p = Some d \<or> cache_view ?C (fs_cache s) ?p = Some d" using Some unfolding x local_view_def by (auto split: option.splits)
    then show ?thesis using st view_stored [OF inv(1), of ?p d] inv(2) by (auto simp: ran_def stored_def)
  qed
qed

lemma published_store:
  assumes env: "flush_codec E" and ready: "flush_ready E s staged"
  defines "m \<equiv> fs_manifest s" and "objs \<equiv> bk_objects (fs_backend s)" and "legacy \<equiv> fs_dirty s" and "dc \<equiv> fs_cache s"
  assumes pub: "publishes m (version m + 1) outs m'" and kept: "keeps m (version m + 1) outs objs objs'" and proper: "proper outs"
    and outs: "\<forall>(gid, r) \<in> set outs. group_flushed E staged dc m (version m + 1) objs gid r" "set (map fst outs) = dirty_group_ids m staged legacy"
  shows "pos < length (group_page_nums m gid) \<Longrightarrow>
      remote_page (fe_codec E) (fe_key E) m' objs' gid pos = published_page E staged dc m objs legacy gid pos"
    "store_wf (fe_codec E) (fe_key E) m' objs'"
proof -
  let ?C = "fe_codec E" and ?key = "fe_key E"
  have wf: "store_wf ?C ?key m objs" and lay: "flush_layout m" and v: "version m + 2 < U64_SIZE"
    using ready by (simp_all add: flush_ready_def Let_def m_def objs_def)
  have len: "length d = page_size m" if "pos < length (group_page_nums m gid)" "page_source ?C ?key staged dc m objs gid pos = Some d" for gid pos d
    using source_length [OF ready] that unfolding m_def objs_def dc_def by blast
  show view: "remote_page ?C ?key m' objs' gid pos = published_page E staged dc m objs legacy gid pos" if "pos < length (group_page_nums m gid)" for gid pos
    by (rule flush_read_exact [OF env pub kept proper outs wf lay _ that]) (rule len)
  have sh: "same_layout m m'" "version m' = version m + 1" using pub by (simp_all add: publishes_def)
  have "length d = page_size m'" if pos: "pos < length (group_page_nums m' gid)" "remote_page ?C ?key m' objs' gid pos = Some d" for gid pos d
  proof -
    have p: "pos < length (group_page_nums m gid)" using pos(1) sh(1) by (simp add: same_layout_def)
    have old: "\<And>d. remote_page ?C ?key m objs gid pos = Some d \<Longrightarrow> length d = page_size m" using wf p unfolding store_wf_def by blast
    have "length d = page_size m"
    proof (cases "flush_touches E m staged legacy gid pos")
      case True
      then show ?thesis using view [OF p] pos(2) len [OF p] published_source by simp
    next
      case False
      then show ?thesis using view [OF p] pos(2) old by (simp add: published_page_def)
    qed
    then show ?thesis using sh(1) by (simp add: same_layout_def)
  qed
  moreover have "keys_wf m'" using published_keys_wf [OF pub] wf by (simp add: store_wf_def)
  moreover have "objs' [] = None" using kept by (simp add: keeps_def)
  moreover have "finite (dom ovs)" if "get (subframe_overrides m') gid = Some ovs" for gid ovs
    using pub that unfolding publishes_def get_or_def by (metis option.simps(5))
  moreover have "group_page_nums m' gid \<noteq> [] \<Longrightarrow> group_limits (page_size m') (length (group_page_nums m' gid)) (page_count m')" for gid
    using wf sh(1) by (simp add: same_layout_def store_wf_def)
  ultimately show "store_wf ?C ?key m' objs'" using v sh(2) unfolding store_wf_def by simp
qed

subsection \<open>A successful flush\<close>

lemma compaction_layout:
  assumes "compact_overrides_inner C nonces key iter titer sd threshold (m, b) = (res, m', b')"
  shows "same_layout m m'"
proof -
  have inst: "same_layout m (fold install_compacted rs m)" for rs
  proof (induction rs arbitrary: m)
    case (Cons r rs)
    show ?case using same_layout_trans [OF install_layout(1) Cons.IH] by simp
  qed (simp add: same_layout_def)
  have "same_layout m ((fold install_compacted rs m)\<lparr>version := v\<rparr>)" for rs v by (rule same_layout_trans [OF inst install_layout(2)])
  moreover have "same_layout m m" by (simp add: same_layout_def)
  ultimately show ?thesis using assms by (auto simp: compact_overrides_inner_def Let_def split: if_splits prod.splits sum.splits)
qed

lemma finish_flush_ok:
  assumes "finish_flush E fls m' replaced s = (Inr (), s')"
  shows "fs_pending s' = fs_pending s \<and> fs_dirty s' = fs_dirty s
    \<and> (let b = (if fe_gc E then snd (delete_objects replaced (fs_backend s)) else fs_backend s) in
       if 0 < fe_compaction_threshold E
       then \<exists>r. compact_overrides_inner (fe_codec E) (fe_compact_nonces E) (fe_key E) (fe_iter E) (fe_tree_iter E)
          (fe_manifest_serde E) (Some (fe_compaction_threshold E)) (m', b) = (r, fs_manifest s', fs_backend s')
       else fs_manifest s' = m' \<and> fs_backend s' = b)"
  using assms by (auto simp: finish_flush_def Let_def remove_logs_def split: prod.splits sum.splits if_splits)

lemma flush_upload_ok:
  assumes run: "flush_upload E fls staged gids cc s = (Inr (), s')" and v: "version (fs_manifest s) + 1 < U64_SIZE"
  shows "\<exists>acc b1 bs b2 b3. flush_groups E staged (fs_cache s) (fs_manifest s) (version (fs_manifest s) + 1) gids (initial_acc (fs_manifest s)) (fs_backend s) = (Inr acc, b1)
    \<and> bundles E staged (fs_cache s) (fs_manifest s) (version (fs_manifest s) + 1) gids = Inr bs
    \<and> put_page_groups (fa_uploads acc @ ba_uploads (fst bs) @ ba_uploads (snd bs)) b1 = (Inr (), b2)
    \<and> (let acc' = drain_overrides E (acc\<lparr>fa_replaced := fa_replaced acc @ ba_replaced (fst bs) @ ba_replaced (snd bs)\<rparr>);
           m' = flushed_manifest E (fs_manifest s) (version (fs_manifest s) + 1) cc acc' bs
       in put_manifest (fe_tree_iter E) (fe_manifest_serde E) m' b2 = (Inr (), b3)
          \<and> finish_flush E fls m' (fa_replaced acc') (s\<lparr>fs_backend := b3\<rparr>) = (Inr (), s'))"
  using run v unfolding flush_upload_def Let_def by (auto split: prod.splits sum.splits)

lemma flushed_proper:
  assumes "flush_layout m" "\<forall>(gid, r) \<in> set outs. group_flushed E staged dc m v objs gid r" "distinct (map fst outs)"
  shows "proper outs"
proof -
  have "distinct (map fst fes)" if fes: "(gid, Overridden fes) \<in> set outs" for gid fes
  proof -
    have gf: "has_frame_table m gid" "fes \<noteq> []" "map fst fes = dirty_frames m staged (effective_threshold m (fe_override_threshold E)) gid"
      using assms(2) fes by (auto simp: group_flushed_def Let_def)
    then have "dirty_frames m staged (effective_threshold m (fe_override_threshold E)) gid \<noteq> []" by (metis Nil_is_map_conv)
    then show ?thesis using dirty_frames_staged(2) [OF assms(1), of gid] gf(1,3) by (simp add: has_frame_table_at)
  qed
  then show ?thesis using assms(3) by (auto simp: proper_def split: group_flush.split)
qed

lemma upload_keeps:
  assumes wf: "keys_wf m" "bundle_keys_wf m" "objs [] = None" and proper: "proper outs"
    and bp: "set (ba_replaced (fst bs)) \<union> set (ba_replaced (snd bs)) \<subseteq> ran (interior_chunk_keys m) \<union> ran (index_chunk_keys m)"
      "\<forall>k \<in> fst ` (set (ba_uploads (fst bs)) \<union> set (ba_uploads (snd bs))). \<exists>s. bundle_slot s \<and> k = key_of s (version m + 1)"
    and acc: "acc = after_groups m (version m + 1) outs (initial_acc m)"
    and b1: "bk_objects b1 = objs" and up: "put_page_groups (fa_uploads acc @ ba_uploads (fst bs) @ ba_uploads (snd bs)) b1 = (Inr (), b2)"
    and mf: "put_manifest titer sd m' b2 = (Inr (), b3)" and gone: "set replaced \<subseteq> gone m outs \<union> set (ba_replaced (fst bs) @ ba_replaced (snd bs))"
  shows "keeps m (version m + 1) outs objs (bk_objects (if gc then snd (delete_objects replaced b3) else b3))"
proof -
  let ?ups = "fa_uploads acc @ ba_uploads (fst bs) @ ba_uploads (snd bs)" and ?b = "if gc then snd (delete_objects replaced b3) else b3"
  have b3: "bk_objects b3 k = put_all ?ups objs k" if "k \<noteq> MANIFEST_KEY" for k
    using put_manifest_objects [OF mf that] put_page_groups_objects [OF up] b1 by auto
  obtain D where D: "D \<subseteq> set replaced" "bk_objects ?b = (\<lambda>k. if k \<in> D then None else bk_objects b3 k)"
  proof (cases gc)
    case False
    then show ?thesis by (intro that [of "{}"]) simp_all
  qed (use delete_objects_objects [of replaced b3] that in auto)
  have "set (fa_uploads acc) = (\<Union>(g, r) \<in> set outs. group_uploads (version m + 1) g r)"
    using after_groups_parts [OF proper, of m "version m + 1" "initial_acc m"] by (simp add: acc initial_acc_def)
  then have ups: "set ?ups = (\<Union>(g, r) \<in> set outs. group_uploads (version m + 1) g r) \<union> (set (ba_uploads (fst bs)) \<union> set (ba_uploads (snd bs)))"
    by simp
  have v: "version m < version m + 1" by simp
  show ?thesis
  proof (rule flush_objects [where v = "version m + 1" and ups = ?ups and D = D and objs = objs, OF wf(1,2) v wf(3) proper])
    show "set ?ups = (\<Union>(g, r) \<in> set outs. group_uploads (version m + 1) g r) \<union> (set (ba_uploads (fst bs)) \<union> set (ba_uploads (snd bs)))" by (rule ups)
    show "D \<subseteq> gone m outs \<union> ran (interior_chunk_keys m) \<union> ran (index_chunk_keys m)" using D(1) gone bp(1) by auto
  qed (use bp(2) b3 D(2) in auto)
qed

text \<open>The end of a flush, compaction included, keeps every page that can be read.\<close>

lemma finished_reads:
  assumes env: "flush_codec E" "hash_iteration (fe_iter E)" and fin: "finish_flush E fls m' replaced s = (Inr (), s')"
  defines "b \<equiv> (if fe_gc E then snd (delete_objects replaced (fs_backend s)) else fs_backend s)"
  assumes wf: "store_wf (fe_codec E) (fe_key E) m' (bk_objects b)" and spf: "0 < sub_pages_per_frame m' \<or> fe_compaction_threshold E = 0"
  shows "same_layout m' (fs_manifest s')"
    "pos < length (group_page_nums m' gid) \<Longrightarrow> remote_page (fe_codec E) (fe_key E) m' (bk_objects b) gid pos = Some d
      \<Longrightarrow> remote_page (fe_codec E) (fe_key E) (fs_manifest s') (bk_objects (fs_backend s')) gid pos = Some d"
proof -
  note ok = finish_flush_ok [OF fin, unfolded Let_def, folded b_def]
  have "same_layout m' (fs_manifest s') \<and> (pos < length (group_page_nums m' gid) \<longrightarrow> remote_page (fe_codec E) (fe_key E) m' (bk_objects b) gid pos = Some d
      \<longrightarrow> remote_page (fe_codec E) (fe_key E) (fs_manifest s') (bk_objects (fs_backend s')) gid pos = Some d)"
  proof (cases "fe_compaction_threshold E = 0")
    case True
    then show ?thesis using ok by (simp add: same_layout_def)
  next
    case False
    then obtain r where run: "compact_overrides_inner (fe_codec E) (fe_compact_nonces E) (fe_key E) (fe_iter E) (fe_tree_iter E)
        (fe_manifest_serde E) (Some (fe_compaction_threshold E)) (m', b) = (r, fs_manifest s', fs_backend s')" using ok by auto
    have c: "codec_contract (fe_codec E)" "seal_bounded (fe_codec E)" "\<And>g k. length (fe_compact_nonces E g k) = 12"
      using env(1) by (simp_all add: flush_codec_def)
    have "0 < sub_pages_per_frame m'" using spf False by simp
    from compaction_keeps_pages [OF c env(2) this wf run] compaction_layout [OF run] show ?thesis by blast
  qed
  then show "same_layout m' (fs_manifest s')"
    "pos < length (group_page_nums m' gid) \<Longrightarrow> remote_page (fe_codec E) (fe_key E) m' (bk_objects b) gid pos = Some d
      \<Longrightarrow> remote_page (fe_codec E) (fe_key E) (fs_manifest s') (bk_objects (fs_backend s')) gid pos = Some d" by blast+
qed

lemma flush_upload_publishes:
  assumes env: "flush_codec E" "hash_iteration (fe_iter E)" and ready: "flush_ready E s staged"
  defines "m \<equiv> fs_manifest s" and "objs \<equiv> bk_objects (fs_backend s)"
  assumes run: "flush_upload E fls staged (fe_iter E (dirty_group_ids m staged (fs_dirty s))) cc (s\<lparr>fs_pending := [], fs_dirty := {}\<rparr>) = (Inr (), s')"
    and spf: "0 < sub_pages_per_frame m \<or> fe_compaction_threshold E = 0"
    and pos: "pos < length (group_page_nums m gid)" "published_page E staged (fs_cache s) m objs (fs_dirty s) gid pos = Some d"
  shows "remote_page (fe_codec E) (fe_key E) (fs_manifest s') (bk_objects (fs_backend s')) gid pos = Some d"
    "same_layout m (fs_manifest s')" "fs_pending s' = []" "fs_dirty s' = {}"
proof -
  let ?s = "s\<lparr>fs_pending := [], fs_dirty := {}\<rparr>"
  let ?v = "version m + 1" and ?gids = "fe_iter E (dirty_group_ids m staged (fs_dirty s))"
  have wf: "store_wf (fe_codec E) (fe_key E) m objs" and v: "version m + 1 < U64_SIZE" and bk: "bundle_keys_wf m" and lay: "flush_layout m"
    and cache: "cache_inv (fe_codec E) (fs_cache s)" "dc_page_size (fs_cache s) = page_size m" and fin: "finite (fs_dirty s)" "finite (dom staged)"
    using ready by (simp_all add: flush_ready_def Let_def m_def objs_def)
  have "finite (Option.these (page_location m ` dom staged))" using fin(2) by (simp add: Option.these_def)
  then have dirty: "finite (dirty_group_ids m staged (fs_dirty s))" using fin(1) by (simp add: dirty_group_ids_def)
  have gids: "set ?gids = dirty_group_ids m staged (fs_dirty s)" "distinct ?gids"
    using env(2) dirty by (simp_all add: hash_iteration.set_iter hash_iteration.distinct_iter)
  obtain acc b1 bs b2 b3 where g: "flush_groups E staged (fs_cache s) m ?v ?gids (initial_acc m) (fs_backend s) = (Inr acc, b1)"
    and bs: "bundles E staged (fs_cache s) m ?v ?gids = Inr bs"
    and up: "put_page_groups (fa_uploads acc @ ba_uploads (fst bs) @ ba_uploads (snd bs)) b1 = (Inr (), b2)"
    and rest: "(let acc' = drain_overrides E (acc\<lparr>fa_replaced := fa_replaced acc @ ba_replaced (fst bs) @ ba_replaced (snd bs)\<rparr>);
           m' = flushed_manifest E m ?v cc acc' bs
       in put_manifest (fe_tree_iter E) (fe_manifest_serde E) m' b2 = (Inr (), b3)
          \<and> finish_flush E fls m' (fa_replaced acc') (?s\<lparr>fs_backend := b3\<rparr>) = (Inr (), s'))"
    using flush_upload_ok [OF run] v unfolding m_def by auto
  define acc' where "acc' = drain_overrides E (acc\<lparr>fa_replaced := fa_replaced acc @ ba_replaced (fst bs) @ ba_replaced (snd bs)\<rparr>)"
  define m' where "m' = flushed_manifest E m ?v cc acc' bs"
  have mf: "put_manifest (fe_tree_iter E) (fe_manifest_serde E) m' b2 = (Inr (), b3)"
    and fnl: "finish_flush E fls m' (fa_replaced acc') (?s\<lparr>fs_backend := b3\<rparr>) = (Inr (), s')"
    using rest unfolding Let_def acc'_def [symmetric] m'_def [symmetric] by simp_all
  have empty: "objs [] = None" and kw: "keys_wf m" and finov: "\<And>g. finite (dom (get_or Map.empty (subframe_overrides m) g))"
    using wf by (auto simp: store_wf_def get_or_def split: option.split)
  obtain outs where outs: "map fst outs = ?gids" "acc = after_groups m ?v outs (initial_acc m)"
      "\<forall>(gid, r) \<in> set outs. group_flushed E staged (fs_cache s) m ?v objs gid r"
    using flush_groups_outs [OF g empty [unfolded objs_def] cache] layout_bound [OF lay] unfolding objs_def by blast
  have proper: "proper outs" by (rule flushed_proper [OF lay outs(3)]) (simp add: outs(1) gids(2))
  let ?b = "if fe_gc E then snd (delete_objects (fa_replaced acc') b3) else b3"
  have norm: "strategy m = Positional \<longrightarrow> group_pages m = []" using lay by (simp add: flush_layout_def)
  note parts = flushed_manifest_parts(1) [OF env(2) proper finov norm, where v = ?v and cc = cc and bs = bs and rs = "ba_replaced (fst bs) @ ba_replaced (snd bs)",
      folded outs(2), folded acc'_def, folded m'_def]
    flushed_manifest_parts(2) [OF env(2) proper finov norm, where v = ?v and rs = "ba_replaced (fst bs) @ ba_replaced (snd bs)",
      folded outs(2), folded acc'_def]
  have kept: "keeps m ?v outs objs (bk_objects ?b)"
    by (rule upload_keeps [OF kw bk empty proper bundles_parts [OF bs env(2) bk] outs(2) flush_groups_objects [OF g, folded objs_def] up mf parts(2)])
  note pub = published_store [OF env(1) ready, folded m_def objs_def, OF parts(1) kept proper outs(3)]
  have dirty_outs: "set (map fst outs) = dirty_group_ids m staged (fs_dirty s)" unfolding outs(1) by (rule gids(1))
  have reads: "remote_page (fe_codec E) (fe_key E) m' (bk_objects ?b) gid pos = Some d" using pub(1) [OF dirty_outs pos(1)] pos(2) by simp
  have lay': "same_layout m m'" using parts(1) by (simp add: publishes_def)
  have "store_wf (fe_codec E) (fe_key E) m' (bk_objects (if fe_gc E then snd (delete_objects (fa_replaced acc') (fs_backend (?s\<lparr>fs_backend := b3\<rparr>)))
      else fs_backend (?s\<lparr>fs_backend := b3\<rparr>)))" "0 < sub_pages_per_frame m' \<or> fe_compaction_threshold E = 0" "pos < length (group_page_nums m' gid)"
    using pub(2) [OF dirty_outs] spf lay' pos(1) by (cases "fe_gc E"; simp add: same_layout_def)+
  note fr = finished_reads [OF env fnl this(1,2)]
  show "same_layout m (fs_manifest s')" by (rule same_layout_trans [OF lay' fr(1)])
  show "remote_page (fe_codec E) (fe_key E) (fs_manifest s') (bk_objects (fs_backend s')) gid pos = Some d"
    by (rule fr(2) [OF \<open>pos < length (group_page_nums m' gid)\<close>]) (cases "fe_gc E"; use reads in simp)
  show "fs_pending s' = []" "fs_dirty s' = {}" using finish_flush_ok [OF fnl] by simp_all
qed

lemma clean_published:
  "dirty_group_ids m staged legacy = {} \<Longrightarrow> published_page E staged dc m objs legacy gid pos = remote_page (fe_codec E) (fe_key E) m objs gid pos"
  by (simp add: published_page_def flush_touches_def Let_def)

lemma flush_publishes_view:
  assumes env: "flush_codec E" "hash_iteration (fe_iter E)" and logs: "read_logs (fs_logs s) (fs_pending s) Map.empty = Inr staged"
    and ready: "flush_ready E s staged" and spf: "0 < sub_pages_per_frame (fs_manifest s) \<or> fe_compaction_threshold E = 0"
    and run: "flush_dirty_groups E s = (Inr (), s')" and pos: "pos < length (group_page_nums (fs_manifest s) gid)"
    and view: "published_page E staged (fs_cache s) (fs_manifest s) (bk_objects (fs_backend s)) (fs_dirty s) gid pos = Some d"
  shows "remote_page (fe_codec E) (fe_key E) (fs_manifest s') (bk_objects (fs_backend s')) gid pos = Some d"
    "group_page_nums (fs_manifest s') gid = group_page_nums (fs_manifest s) gid" "fs_pending s' = []" "fs_dirty s' = {}"
proof -
  let ?s = "s\<lparr>fs_pending := [], fs_dirty := {}\<rparr>" and ?dirty = "dirty_group_ids (fs_manifest s) staged (fs_dirty s)"
  have "remote_page (fe_codec E) (fe_key E) (fs_manifest s') (bk_objects (fs_backend s')) gid pos = Some d
    \<and> group_page_nums (fs_manifest s') gid = group_page_nums (fs_manifest s) gid \<and> fs_pending s' = [] \<and> fs_dirty s' = {}"
  proof (cases "?dirty = {}")
    case True
    then have "\<exists>fls. s' = remove_logs fls ?s \<or> s' = ?s"
      using run logs by (auto simp: flush_dirty_groups_def flush_inner_def Let_def split: if_splits sum.splits prod.splits)
    then show ?thesis using view clean_published [OF True] by (auto simp: remove_logs_def)
  next
    case False
    then have "\<not> (fs_pending s = [] \<and> fs_dirty s = {})" using logs by (auto simp: dirty_group_ids_def Option.these_def)
    then obtain cc where "flush_upload E (fs_pending s) staged (fe_iter E ?dirty) cc ?s = (Inr (), s')"
      using run logs False by (auto simp: flush_dirty_groups_def flush_inner_def Let_def split: if_splits sum.splits prod.splits)
    from flush_upload_publishes [OF env ready this spf pos view] show ?thesis by (simp add: same_layout_def)
  qed
  then show "remote_page (fe_codec E) (fe_key E) (fs_manifest s') (bk_objects (fs_backend s')) gid pos = Some d"
    "group_page_nums (fs_manifest s') gid = group_page_nums (fs_manifest s) gid" "fs_pending s' = []" "fs_dirty s' = {}" by simp_all
qed

subsection \<open>The theorems\<close>

text \<open>
  C5: What a successful flush publishes, page by page. Suppose the staging logs of the pending flushes can be
  read, the manifest and its objects are well formed and the cache is sound; nothing is assumed of how cache and
  store agree. The clean-up compaction of override frames is switched off or the manifest has frames. If the call returns without an error, a reader of the new manifest and the new objects, after
  the clean-up of replaced objects and the compaction that end the call, gets at every position:
  where the flush uploads anew (the whole group, or the frames with a staged page when the group takes override
  frames), the staged page, else the cached one, else that of the base object; elsewhere what was
  stored. A staged page is therefore always published. The result is the database the process saw (staged over
  cached over stored) at every position except two kinds, which the statement names: \<open>override_dropped\<close>, a page
  uploaded anew that is in neither log nor cache and lives in an override frame, goes back to its base; and
  \<open>cached_left_behind\<close>, a cached page that differs from the store and is not uploaded, as happens
  to the other frames of a group that was dirtied without a log and then takes override frames. No group changed its pages,
  and no work is left pending.
\<close>

theorem flush_publishes:
  assumes "flush_codec E" "hash_iteration (fe_iter E)" "read_logs (fs_logs s) (fs_pending s) Map.empty = Inr staged"
    and "flush_ready E s staged" "0 < sub_pages_per_frame (fs_manifest s) \<or> fe_compaction_threshold E = 0"
    and "flush_dirty_groups E s = (Inr (), s')" "group_in_range (fs_manifest s) gid" "pos < length (group_page_nums (fs_manifest s) gid)"
    and "published_page E staged (fs_cache s) (fs_manifest s) (bk_objects (fs_backend s)) (fs_dirty s) gid pos = Some d"
  shows "remote_page (fe_codec E) (fe_key E) (fs_manifest s') (bk_objects (fs_backend s')) gid pos = Some d
    \<and> (staged (group_page_nums (fs_manifest s) gid ! pos) \<noteq> None \<longrightarrow> staged (group_page_nums (fs_manifest s) gid ! pos) = Some d)
    \<and> (\<not> override_dropped E staged (fs_cache s) (fs_manifest s) (fs_dirty s) gid pos
        \<longrightarrow> \<not> cached_left_behind E staged (fs_cache s) (fs_manifest s) (bk_objects (fs_backend s)) (fs_dirty s) gid pos
        \<longrightarrow> flush_view (fe_codec E) (fe_key E) staged (fs_cache s) (fs_manifest s) (bk_objects (fs_backend s)) gid pos = Some d)
    \<and> group_page_nums (fs_manifest s') gid = group_page_nums (fs_manifest s) gid \<and> fs_pending s' = [] \<and> fs_dirty s' = {}"
proof -
  have lay: "flush_layout (fs_manifest s)" using assms(4) by (simp add: flush_ready_def Let_def)
  show ?thesis using flush_publishes_view [OF assms(1-6,8,9)] published_staged [OF lay assms(7,8)] published_view [OF lay assms(7,8)] assms(9) by auto
qed

text \<open>A new database of two pages, both only in the cache, and a local backend.\<close>

definition new_manifest :: manifest where
  "new_manifest = empty_manifest\<lparr>version := 3, change_counter := 1, page_count := 2, page_size := 4, pages_per_group := 2, strategy := BTreeAware,
     group_pages := [[0, 1]], page_index := [0 \<mapsto> \<lparr>pl_group_id = 0, pl_index = 0\<rparr>, 1 \<mapsto> \<lparr>pl_group_id = 0, pl_index = 1\<rparr>]\<rparr>"

definition new_env :: flush_env where
  "new_env = \<lparr>fe_codec = plain_codec, fe_key = None, fe_nonces = (\<lambda>_ _. zeros 12), fe_compact_nonces = (\<lambda>_ _. zeros 12), fe_is_local = True,
     fe_gc = True, fe_override_threshold = 0, fe_compaction_threshold = 0,
     fe_manifest_serde = \<lparr>ms_to_vec = (\<lambda>_. Some []), ms_from_slice = (\<lambda>_. None)\<rparr>,
     fe_serde = \<lparr>sd_to_vec = (\<lambda>_. Some []), sd_from_slice = (\<lambda>_. Some default_state)\<rparr>,
     fe_manifest_fault = NoFault, fe_dirty_fault = NoFault, fe_bitmap_fault = NoFault,
     fe_iter = sorted_list_of_set, fe_tree_iter = sorted_list_of_set, fe_chunk_iter = (\<lambda>_. [])\<rparr>"

definition new_state :: "(nat \<Rightarrow> (io_error \<times> (string \<Rightarrow> bool)) option) \<Rightarrow> flush_state" where
  "new_state fault = \<lparr>fs_backend = \<lparr>bk_objects = Map.empty, bk_fault = fault, bk_ops = 0\<rparr>, fs_cache = two_page_cache, fs_manifest = new_manifest,
     fs_dirty = {0}, fs_pending = [], fs_logs = Map.empty, fs_local = None\<rparr>"

lemma new_cache_inv: "cache_inv plain_codec two_page_cache"
  using two_page_inv
  by (simp add: cache_inv_def stored_def two_page_cache_def sample_cache_def decrypt_if_needed_def)

lemma new_cache_view: "cache_view plain_codec two_page_cache 0 = Some [1, 2, 3, 4]" "cache_view plain_codec two_page_cache 1 = Some [5, 6, 7, 8]"
  unfolding view_iff [OF new_cache_inv]
  by (simp_all add: dc_is_present_def two_page_cache_def sample_cache_def is_present_def
      stored_def slot_fits_def slot_stride_def stride_for_def bslice_def decrypt_if_needed_def)

lemma new_cache_reads:
  "read_page_if_present plain_codec 0 (zeros 4) two_page_cache = Inr (Some [1, 2, 3, 4])"
  "read_page_if_present plain_codec 1 (zeros 4) two_page_cache = Inr (Some [5, 6, 7, 8])"
  "read_page plain_codec 0 (zeros 4) two_page_cache = Inr [1, 2, 3, 4]"
proof -
  have ps: "dc_page_size two_page_cache = 4" by (simp add: two_page_cache_def sample_cache_def)
  show "read_page_if_present plain_codec 0 (zeros 4) two_page_cache = Inr (Some [1, 2, 3, 4])"
    "read_page_if_present plain_codec 1 (zeros 4) two_page_cache = Inr (Some [5, 6, 7, 8])"
    using new_cache_view unfolding cache_view_def ps by (simp_all split: sum.splits)
  show "read_page plain_codec 0 (zeros 4) two_page_cache = Inr [1, 2, 3, 4]"
    using new_cache_view(1) read_stored [OF new_cache_inv] unfolding view_iff [OF new_cache_inv] ps by blast
qed

lemma new_layout [simp]: "group_page_nums new_manifest gid = (if gid = 0 then [0, 1] else [])"
  by (simp add: new_manifest_def group_page_nums_def get_def)

lemma new_remote: "remote_page C key new_manifest objs gid pos = None"
  by (simp add: remote_page_split base_page_def new_manifest_def empty_manifest_def get_def)

lemma new_ready: "flush_ready new_env (new_state fault) Map.empty"
proof -
  have wf: "store_wf plain_codec None new_manifest Map.empty"
    by (auto simp: store_wf_def new_remote keys_wf_def override_at_def group_limits_def MAX_TIERED_DECOMPRESSED_BYTES_def)
      (simp_all add: new_manifest_def empty_manifest_def get_def)
  have lay: "flush_layout new_manifest"
    by (auto simp: flush_layout_def less_Suc_eq) (simp_all add: new_manifest_def page_location_def)
  have "base_page plain_codec None new_manifest Map.empty gid pos = None" for gid pos
    by (simp add: base_page_def new_manifest_def empty_manifest_def get_def)
  moreover have "bundle_keys_wf new_manifest" "version new_manifest + 2 < U64_SIZE" "page_size new_manifest = 4" "dc_page_size two_page_cache = 4"
    by (simp_all add: bundle_keys_wf_def new_manifest_def empty_manifest_def two_page_cache_def sample_cache_def)
  ultimately show ?thesis using wf lay new_cache_inv by (simp add: flush_ready_def new_env_def new_state_def)
qed

lemma new_sizes [simp]: "page_size new_manifest = 4" "page_count new_manifest = 2" "sub_pages_per_frame new_manifest = 0"
    "version new_manifest = 3" "change_counter new_manifest = 1" "page_group_keys new_manifest = []" "frame_tables new_manifest = []"
    "db_header new_manifest = None"
  by (simp_all add: new_manifest_def empty_manifest_def)

lemma new_group: "\<exists>enc. flush_group new_env Map.empty two_page_cache new_manifest 4 0 b = (Inr (Rewritten enc []), b)"
proof -
  have own: "collect_results (map (staged_or_cached plain_codec Map.empty two_page_cache 4) [0, 1]) = Inr [Some [1, 2, 3, 4], Some [5, 6, 7, 8]]"
    using new_cache_reads by (simp add: staged_or_cached_def)
  have "merged_pages plain_codec None Map.empty two_page_cache new_manifest 0 b = (Inr [Some [1, 2, 3, 4], Some [5, 6, 7, 8]], b)"
    using own by (simp add: merged_pages_def Let_def and_then_def)
  moreover obtain enc where "encode_page_group plain_codec (zeros 12) [Some [1, 2, 3, 4], Some [5, 6, 7, 8]] 4 (aad_page_group 0) None = Inr enc"
    using plain_seal unfolding encode_page_group_def Let_def by blast
  moreover have "\<not> use_override new_manifest Map.empty 0 0" by (simp add: use_override_def Let_def)
  moreover have "effective_threshold new_manifest 0 = 0" by (simp add: effective_threshold_def)
  ultimately show ?thesis by (simp add: flush_group_def Let_def new_env_def and_then_def)
qed

lemma new_env_fields [simp]: "fe_is_local new_env" "fe_iter new_env = sorted_list_of_set" "fe_compaction_threshold new_env = 0" "fe_codec new_env = plain_codec"
    "fe_key new_env = None" "fe_manifest_serde new_env = \<lparr>ms_to_vec = (\<lambda>_. Some []), ms_from_slice = (\<lambda>_. None)\<rparr>"
    "fe_serde new_env = \<lparr>sd_to_vec = (\<lambda>_. Some []), sd_from_slice = (\<lambda>_. Some default_state)\<rparr>"
    "fe_manifest_fault new_env = NoFault" "fe_dirty_fault new_env = NoFault" "fe_bitmap_fault new_env = NoFault"
  by (simp_all add: new_env_def)

lemma new_state_fields [simp]: "fs_backend (new_state f) = \<lparr>bk_objects = Map.empty, bk_fault = f, bk_ops = 0\<rparr>" "fs_cache (new_state f) = two_page_cache"
    "fs_manifest (new_state f) = new_manifest" "fs_dirty (new_state f) = {0}" "fs_pending (new_state f) = []" "fs_logs (new_state f) = Map.empty"
    "fs_local (new_state f) = None"
  by (simp_all add: new_state_def)

lemma new_finish: "fs_local s = None \<Longrightarrow> fst (finish_flush new_env fls m' replaced s) = Inr ()"
  by (simp add: finish_flush_def Let_def persist_manifest_local_def persist_dirty_groups_def update_state_def load_or_default_def load_state_def
      persist_state_def)

lemma new_put_manifest:
  assumes "bk_objects b MANIFEST_KEY = None" "bk_fault b = (\<lambda>_. None)"
  shows "\<exists>b'. put_manifest iter \<lparr>ms_to_vec = (\<lambda>_. Some []), ms_from_slice = (\<lambda>_. None)\<rparr> m b = (Inr (), b')"
  using assms by (simp add: put_manifest_def storage_get_manifest_def get_page_group_def put_object_def and_then_def tick_def)

lemma new_upload:
  "\<exists>acc enc. flush_groups new_env Map.empty two_page_cache new_manifest 4 [0] (initial_acc new_manifest) b = (Inr acc, b)
     \<and> fa_uploads acc = [(page_group_key 0 4, enc)]"
  using new_group [of b] by (auto simp: and_then_def apply_group_def Let_def initial_acc_def)

lemma new_flush:
  "fst (flush_dirty_groups new_env (new_state f)) = fst (flush_upload new_env [] Map.empty [0] 1 ((new_state f)\<lparr>fs_pending := [], fs_dirty := {}\<rparr>))"
  using new_cache_reads(3)
  by (auto simp: flush_dirty_groups_def flush_inner_def Let_def dirty_group_ids_def resolve_manifest_replay_cursor_def
      read_file_change_counter_def validate_replay_cursor_page0_def Option.these_def split: prod.splits sum.splits)

lemma new_state_run: "fst (flush_dirty_groups new_env (new_state (\<lambda>_. None))) = Inr ()"
proof -
  let ?s = "(new_state (\<lambda>_. None))\<lparr>fs_pending := [], fs_dirty := {}\<rparr>"
  obtain acc enc where g: "flush_groups new_env Map.empty two_page_cache new_manifest 4 [0] (initial_acc new_manifest) (fs_backend ?s) = (Inr acc, fs_backend ?s)"
      "fa_uploads acc = [(page_group_key 0 4, enc)]" using new_upload by blast
  have "fst (flush_upload new_env [] Map.empty [0] cc ?s) = Inr ()" for cc
  proof -
    obtain bs where bs: "bundles new_env Map.empty two_page_cache new_manifest 4 [0] = Inr bs" "ba_uploads (fst bs) = []" "ba_uploads (snd bs) = []"
      by (simp add: bundles_def)
    obtain b2 where b2: "put_page_groups [(page_group_key 0 4, enc)] (fs_backend ?s) = (Inr (), b2)" "bk_objects b2 MANIFEST_KEY = None" "bk_fault b2 = (\<lambda>_. None)"
      using key_of_nonempty(2) [of "PageGroupSlot 0" 4] by (simp add: put_page_groups_def tick_def put_all_other)
    let ?acc = "drain_overrides new_env (acc\<lparr>fa_replaced := fa_replaced acc @ ba_replaced (fst bs) @ ba_replaced (snd bs)\<rparr>)"
    obtain b3 where b3: "put_manifest (fe_tree_iter new_env) (fe_manifest_serde new_env) (flushed_manifest new_env new_manifest 4 cc ?acc bs) b2 = (Inr (), b3)"
      using new_put_manifest [OF b2(2,3)] by auto
    have "flush_upload new_env [] Map.empty [0] cc ?s
      = finish_flush new_env [] (flushed_manifest new_env new_manifest 4 cc ?acc bs) (fa_replaced ?acc) (?s\<lparr>fs_backend := b3\<rparr>)"
      using g bs b2(1) b3 by (simp add: flush_upload_def Let_def)
    then show ?thesis by (simp add: new_finish)
  qed
  then show ?thesis unfolding new_flush by simp
qed

theorem flush_publishes_witness:
  "remote_page plain_codec None (fs_manifest (snd (flush_dirty_groups new_env (new_state (\<lambda>_. None)))))
     (bk_objects (fs_backend (snd (flush_dirty_groups new_env (new_state (\<lambda>_. None)))))) 0 1 = Some [5, 6, 7, 8]"
proof -
  let ?s = "new_state (\<lambda>_. None)"
  obtain s' where run: "flush_dirty_groups new_env ?s = (Inr (), s')" using new_state_run by (metis prod.collapse)
  have env: "flush_codec new_env" "hash_iteration (fe_iter new_env)"
    using plain_codec_contract plain_seal_bounded sorted_iter.hash_iteration_axioms by (simp_all add: flush_codec_def) (simp_all add: new_env_def)
  have logs: "read_logs (fs_logs ?s) (fs_pending ?s) Map.empty = Inr Map.empty" by simp
  have h: "0 < sub_pages_per_frame (fs_manifest ?s) \<or> fe_compaction_threshold new_env = 0" "group_in_range (fs_manifest ?s) 0" "1 < length (group_page_nums (fs_manifest ?s) 0)"
    "published_page new_env Map.empty (fs_cache ?s) (fs_manifest ?s) (bk_objects (fs_backend ?s)) (fs_dirty ?s) 0 1 = Some [5, 6, 7, 8]"
    using new_cache_view
    by (simp_all add: published_page_def flush_touches_def use_override_def dirty_frames_def dirty_group_ids_def Let_def local_view_def group_in_range_def
        has_frame_table_def)
  show ?thesis using flush_publishes [OF env logs new_ready h(1) run h(2-4)] by (simp add: run)
qed

text \<open>
  C6: A failed flush changes nothing that matters. When a log cannot be read, an encoder or an upload
  fails, the manifest's version check refuses, or a local state file cannot be written, the call gives
  back the pending flushes, the dirty groups, the logs, the cache and the manifest as they were, and every
  page reads as before through that manifest: whatever part of the new objects was already uploaded, none
  has overwritten an object the old manifest refers to and none has been deleted.
\<close>

theorem failed_flush_keeps_everything:
  assumes "flush_dirty_groups E s = (Inl e, s')" "keys_wf (fs_manifest s)" "version (fs_manifest s) + 1 < U64_SIZE"
  shows "flush_untouched (fe_codec E) (fe_key E) s s'"
  using assms by (rule flush_failed_untouched)

text \<open>The same database, with a backend that refuses the first upload.\<close>

definition refusing :: "nat \<Rightarrow> (io_error \<times> (string \<Rightarrow> bool)) option" where
  "refusing i = Some (Io Other ''refused'', \<lambda>_. False)"

theorem failed_flush_keeps_everything_witness:
  "\<not> is_ok (fst (flush_dirty_groups new_env (new_state refusing)))
     \<and> flush_untouched plain_codec None (new_state refusing) (snd (flush_dirty_groups new_env (new_state refusing)))"
proof -
  let ?s = "(new_state refusing)\<lparr>fs_pending := [], fs_dirty := {}\<rparr>"
  obtain acc enc where g: "flush_groups new_env Map.empty two_page_cache new_manifest 4 [0] (initial_acc new_manifest) (fs_backend ?s) = (Inr acc, fs_backend ?s)"
      "fa_uploads acc = [(page_group_key 0 4, enc)]" using new_upload by blast
  have "\<not> is_ok (fst (flush_upload new_env [] Map.empty [0] cc ?s))" for cc
    using g by (simp add: flush_upload_def bundles_def put_page_groups_def refusing_def tick_def)
  then have "\<not> is_ok (fst (flush_dirty_groups new_env (new_state refusing)))" unfolding new_flush by simp
  moreover obtain e s' where run: "flush_dirty_groups new_env (new_state refusing) = (Inl e, s')"
    using calculation by (cases "flush_dirty_groups new_env (new_state refusing)"; cases "fst (flush_dirty_groups new_env (new_state refusing))") auto
  moreover have "keys_wf (fs_manifest (new_state refusing))" using new_ready [of refusing] by (simp add: flush_ready_def Let_def store_wf_def)
  ultimately show ?thesis using failed_flush_keeps_everything [OF run] by simp
qed

end
