(* ===== verification/Btree_Peek.thy ===== *)
theory Btree_Peek
  imports Prelude "HOL-Library.Monad_Syntax"
begin

text \<open>
  The panic-free readers of SQLite B-tree pages used for look-ahead
  (\<open>src/src/tiered/btree_peek.rs\<close>). Integers that are shifted are 64-bit words; an
  \<open>i64\<close> is a word read as signed. A failed read is \<open>None\<close>, as the \<open>?\<close> operator of the
  source passes it on. The only \<open>expect\<close> of the file is the \<open>None\<close> of
  \<open>parse_table_interior_cells\<close>.
\<close>

unbundle bit_operations_syntax

subsection \<open>Integers\<close>

definition peek_u16 :: "bytes \<Rightarrow> nat \<Rightarrow> nat option" where
  "peek_u16 buf off = map_option be_val (get_slice buf off 2)"

definition peek_u32 :: "bytes \<Rightarrow> nat \<Rightarrow> nat option" where
  "peek_u32 buf off = map_option be_val (get_slice buf off 4)"

fun varint_loop :: "nat \<Rightarrow> 64 word \<Rightarrow> bytes \<Rightarrow> (64 word \<times> nat) option" where
  "varint_loop i val [] = None"
| "varint_loop i val (b # tail) =
     (if i < 8 then
        let val = push_bit 7 val OR ucast (b AND 0x7f) in
        if b AND 0x80 = 0 then Some (val, i + 1) else varint_loop (i + 1) val tail
      else Some (push_bit 8 val OR ucast b, 9))"

definition read_varint :: "bytes \<Rightarrow> nat \<Rightarrow> (64 word \<times> nat) option" where
  "read_varint buf off = (if off \<le> length buf then varint_loop 0 0 (drop off buf) else None)"

definition serial_type_size :: "64 word \<Rightarrow> nat option" where
  "serial_type_size serial_type =
     (let s = unat serial_type in
      if s = 0 then Some 0 else if s = 1 then Some 1 else if s = 2 then Some 2 else if s = 3 then Some 3
      else if s = 4 then Some 4 else if s = 5 then Some 6 else if s = 6 \<or> s = 7 then Some 8
      else if s = 8 \<or> s = 9 then Some 0 else if s = 10 \<or> s = 11 then None
      else Some ((s - 12) div 2))"

definition int_width :: "64 word \<Rightarrow> nat option" where
  "int_width serial_type =
     (let s = unat serial_type in
      if 1 \<le> s \<and> s \<le> 4 then Some s else if s = 5 then Some 6 else if s = 6 then Some 8 else None)"

definition accumulate :: "bytes \<Rightarrow> 64 word" where
  "accumulate src = foldl (\<lambda>val b. push_bit 8 val OR ucast b) 0 src"

text \<open>\<open>(val << shift) >> shift\<close> on an \<open>i64\<close>: the right shift is arithmetic.\<close>

definition sign_extend :: "nat \<Rightarrow> 64 word \<Rightarrow> 64 word" where
  "sign_extend k val = (let shift = 64 - k * 8 in signed_drop_bit shift (push_bit shift val))"

definition read_record_int :: "bytes \<Rightarrow> nat \<Rightarrow> 64 word \<Rightarrow> 64 word option" where
  "read_record_int buf off serial_type =
     (let s = unat serial_type in
      if s = 0 \<or> s = 8 then Some 0
      else if s = 9 then Some 1
      else case int_width serial_type of
        None \<Rightarrow> None
      | Some k \<Rightarrow> map_option (\<lambda>src. sign_extend k (accumulate src)) (get_slice buf off k))"

definition read_record_int_key :: "bytes \<Rightarrow> nat \<Rightarrow> 64 word \<Rightarrow> 64 word option option" where
  "read_record_int_key buf off serial_type =
     (let s = unat serial_type in
      if s = 0 \<or> s = 7 then Some None
      else if 1 \<le> s \<and> s \<le> 6 \<or> s = 8 \<or> s = 9 then map_option Some (read_record_int buf off serial_type)
      else Some None)"

subsection \<open>Page headers\<close>

definition btree_header :: "bytes \<Rightarrow> bool \<Rightarrow> nat \<Rightarrow> nat option" where
  "btree_header page page1 header_len =
     (let header = (if page1 then 100 else 0) in
      if header + header_len \<le> length page then Some header else None)"

definition index_max_local_payload :: "nat \<Rightarrow> nat" where
  "index_max_local_payload usable_size =
     (if usable_size \<le> 12 then 0 else (usable_size - 12) * 64 div 255 - 23)"

definition index_usable_size :: "bytes \<Rightarrow> bool \<Rightarrow> nat option \<Rightarrow> nat" where
  "index_usable_size page page1 usable_size =
     (case usable_size of Some u \<Rightarrow> min u (length page)
      | None \<Rightarrow> if page1 then length page - (case get page 20 of Some b \<Rightarrow> unat b | None \<Rightarrow> 0) else length page)"

subsection \<open>Index leaf cells\<close>

function read_serials :: "bytes \<Rightarrow> nat \<Rightarrow> nat \<Rightarrow> 64 word list \<Rightarrow> 64 word list option" where
  "read_serials page pos header_end serials =
     (if pos < header_end then
        (case read_varint page pos of
           None \<Rightarrow> None
         | Some (serial, used) \<Rightarrow>
             if used = 0 then None
             else read_serials page (pos + used) header_end (serials @ [serial]))
      else Some serials)"
  by pat_completeness auto
termination
  by (relation "measure (\<lambda>(page, pos, header_end, serials). header_end - pos)") auto

declare read_serials.simps [simp del]

fun skip_body :: "nat \<Rightarrow> 64 word list \<Rightarrow> nat \<Rightarrow> nat option" where
  "skip_body payload_end [] body_pos = Some body_pos"
| "skip_body payload_end (s # ss) body_pos = do {
     n \<leftarrow> serial_type_size s;
     p \<leftarrow> checked_add body_pos n;
     (if payload_end < p then None else skip_body payload_end ss p)}"

definition parse_index_leaf_cell_rowid ::
  "bytes \<Rightarrow> nat \<Rightarrow> nat \<Rightarrow> (64 word \<times> 64 word option \<times> bool) option" where
  "parse_index_leaf_cell_rowid page cell_off max_local = do {
     (plen, payload_len_bytes) \<leftarrow> read_varint page cell_off;
     let payload_len = unat plen;
     payload_start \<leftarrow> checked_add cell_off payload_len_bytes;
     payload_end \<leftarrow> checked_add payload_start payload_len;
     (if max_local < payload_len then Some (0, None, True)
      else if length page < payload_end then None
      else do {
        (hlen, header_len_bytes) \<leftarrow> read_varint page payload_start;
        let header_len = unat hlen;
        (if header_len < header_len_bytes then None
         else do {
           header_end \<leftarrow> checked_add payload_start header_len;
           (if payload_end < header_end then None
            else do {
              serials \<leftarrow> read_serials page (payload_start + header_len_bytes) header_end [];
              (if serials = [] then None
               else do {
                 let rowid_serial = last serials;
                 first_int_key \<leftarrow> read_record_int_key page header_end (hd serials);
                 body_pos \<leftarrow> skip_body payload_end (take (length serials - 1) serials) header_end;
                 rowid_size \<leftarrow> serial_type_size rowid_serial;
                 (if payload_end < (body_pos + rowid_size) mod U64_SIZE then None
                  else do {
                    rowid \<leftarrow> read_record_int page body_pos rowid_serial;
                    Some (rowid, first_int_key, False)})})})})})}"

record index_leaf_rowids =
  il_rowids :: "64 word list"
  il_first_int_keys :: "64 word option list"
  il_overflow_cells :: nat
  il_malformed_cells :: nat
  il_stopped_early :: bool

definition empty_index_leaf :: index_leaf_rowids where
  "empty_index_leaf = \<lparr>il_rowids = [], il_first_int_keys = [], il_overflow_cells = 0,
     il_malformed_cells = 0, il_stopped_early = False\<rparr>"

fun index_leaf_loop :: "bytes \<Rightarrow> nat \<Rightarrow> nat \<Rightarrow> nat \<Rightarrow> nat list \<Rightarrow> index_leaf_rowids \<Rightarrow> index_leaf_rowids" where
  "index_leaf_loop page pointer_array max_local cap [] out = out"
| "index_leaf_loop page pointer_array max_local cap (i # is) out =
     (if cap \<le> length (il_rowids out) then out\<lparr>il_stopped_early := True\<rparr>
      else case peek_u16 page (pointer_array + i * 2) of
        None \<Rightarrow> out\<lparr>il_stopped_early := True\<rparr>
      | Some cell_off \<Rightarrow>
          index_leaf_loop page pointer_array max_local cap is
            (case parse_index_leaf_cell_rowid page cell_off max_local of
               None \<Rightarrow> out\<lparr>il_malformed_cells := il_malformed_cells out + 1\<rparr>
             | Some (rowid, first_int_key, overflowed) \<Rightarrow>
                 if overflowed then out\<lparr>il_overflow_cells := il_overflow_cells out + 1\<rparr>
                 else out\<lparr>il_rowids := il_rowids out @ [rowid],
                          il_first_int_keys := il_first_int_keys out @ [first_int_key]\<rparr>))"

definition cell_count_at :: "bytes \<Rightarrow> nat \<Rightarrow> nat" where
  "cell_count_at page header = (case peek_u16 page (header + 3) of Some n \<Rightarrow> n | None \<Rightarrow> 0)"

definition parse_index_leaf_rowids :: "bytes \<Rightarrow> bool \<Rightarrow> nat \<Rightarrow> nat option \<Rightarrow> index_leaf_rowids" where
  "parse_index_leaf_rowids page page1 cap usable_size =
     (if cap = 0 then empty_index_leaf
      else case btree_header page page1 8 of
        None \<Rightarrow> empty_index_leaf
      | Some header \<Rightarrow>
          if get page header \<noteq> Some 0x0a then empty_index_leaf
          else index_leaf_loop page (header + 8)
                 (index_max_local_payload (index_usable_size page page1 usable_size)) cap
                 [0..<cell_count_at page header] empty_index_leaf)"

subsection \<open>Table pages\<close>

record table_leaf_rowids =
  tl_rowids :: "64 word list"
  tl_malformed_cells :: nat
  tl_stopped_early :: bool

definition empty_table_leaf :: table_leaf_rowids where
  "empty_table_leaf = \<lparr>tl_rowids = [], tl_malformed_cells = 0, tl_stopped_early = False\<rparr>"

text \<open>\<open>i64::try_from\<close> refuses the upper half of the unsigned range.\<close>

definition table_leaf_cell :: "bytes \<Rightarrow> nat \<Rightarrow> 64 word option" where
  "table_leaf_cell page cell_off = do {
     (payload_len, payload_len_bytes) \<leftarrow> read_varint page cell_off;
     (rowid, rowid_bytes) \<leftarrow> read_varint page (cell_off + payload_len_bytes);
     (if unat rowid < 2 ^ 63 then Some rowid else None)}"

fun table_leaf_loop :: "bytes \<Rightarrow> nat \<Rightarrow> nat \<Rightarrow> nat list \<Rightarrow> table_leaf_rowids \<Rightarrow> table_leaf_rowids" where
  "table_leaf_loop page pointer_array cap [] out = out"
| "table_leaf_loop page pointer_array cap (i # is) out =
     (if cap \<le> length (tl_rowids out) then out\<lparr>tl_stopped_early := True\<rparr>
      else case peek_u16 page (pointer_array + i * 2) of
        None \<Rightarrow> out\<lparr>tl_stopped_early := True\<rparr>
      | Some cell_off \<Rightarrow>
          table_leaf_loop page pointer_array cap is
            (case table_leaf_cell page cell_off of
               None \<Rightarrow> out\<lparr>tl_malformed_cells := tl_malformed_cells out + 1\<rparr>
             | Some rowid \<Rightarrow> out\<lparr>tl_rowids := tl_rowids out @ [rowid]\<rparr>))"

definition parse_table_leaf_rowids :: "bytes \<Rightarrow> bool \<Rightarrow> nat \<Rightarrow> table_leaf_rowids" where
  "parse_table_leaf_rowids page page1 cap =
     (if cap = 0 then empty_table_leaf
      else case btree_header page page1 8 of
        None \<Rightarrow> empty_table_leaf
      | Some header \<Rightarrow>
          if get page header \<noteq> Some 0x0d then empty_table_leaf
          else table_leaf_loop page (header + 8) cap [0..<cell_count_at page header] empty_table_leaf)"

record table_interior_cell =
  ti_child_page :: nat
  ti_rowid_key :: "64 word"

record table_interior_cells =
  ti_rightmost_child_page :: "nat option"
  ti_cells :: "table_interior_cell list"
  ti_malformed_cells :: nat
  ti_stopped_early :: bool

definition empty_table_interior :: table_interior_cells where
  "empty_table_interior = \<lparr>ti_rightmost_child_page = None, ti_cells = [],
     ti_malformed_cells = 0, ti_stopped_early = False\<rparr>"

text \<open>The outer option is the \<open>expect("bounds checked")\<close>: \<open>None\<close> is its panic.\<close>

fun table_interior_loop :: "bytes \<Rightarrow> nat \<Rightarrow> nat list \<Rightarrow> table_interior_cells \<Rightarrow> table_interior_cells option" where
  "table_interior_loop page pointer_array [] out = Some out"
| "table_interior_loop page pointer_array (i # is) out =
     (case peek_u16 page (pointer_array + i * 2) of
        None \<Rightarrow> Some (out\<lparr>ti_stopped_early := True\<rparr>)
      | Some cell_off \<Rightarrow>
          if length page < cell_off + 4
          then table_interior_loop page pointer_array is (out\<lparr>ti_malformed_cells := ti_malformed_cells out + 1\<rparr>)
          else case peek_u32 page cell_off of
            None \<Rightarrow> None
          | Some child_page \<Rightarrow>
              table_interior_loop page pointer_array is
                (case read_varint page (cell_off + 4) of
                   None \<Rightarrow> out\<lparr>ti_malformed_cells := ti_malformed_cells out + 1\<rparr>
                 | Some (key, used) \<Rightarrow>
                     out\<lparr>ti_cells := ti_cells out @ [\<lparr>ti_child_page = child_page, ti_rowid_key = key\<rparr>]\<rparr>))"

definition parse_table_interior_cells :: "bytes \<Rightarrow> bool \<Rightarrow> table_interior_cells option" where
  "parse_table_interior_cells page page1 =
     (case btree_header page page1 12 of
        None \<Rightarrow> Some empty_table_interior
      | Some header \<Rightarrow>
          if get page header \<noteq> Some 0x05 then Some empty_table_interior
          else table_interior_loop page (header + 12) [0..<cell_count_at page header]
                 (empty_table_interior\<lparr>ti_rightmost_child_page := peek_u32 page (header + 8)\<rparr>))"

subsection \<open>Words as numbers\<close>

lemma unat_and_7f: "unat (b AND 0x7f :: byte) = unat b mod 128"
proof -
  have "b AND 0x7f = take_bit 7 b" by (simp only: take_bit_eq_mask mask_eq_exp_minus_1) simp
  then have "unat (b AND 0x7f) = take_bit 7 (unat b)" by (simp only: unsigned_take_bit_eq)
  then show ?thesis by (simp add: take_bit_eq_mod)
qed

lemma or_push_bit_nat: "y < 2 ^ k \<Longrightarrow> (push_bit k x OR y :: nat) = x * 2 ^ k + y"
proof -
  assume "y < 2 ^ k"
  then have "take_bit k y = y" by (simp add: take_bit_nat_eq_self)
  then have "bit y n \<Longrightarrow> n < k" for n by (metis bit_take_bit_iff)
  then have "push_bit k x + y = push_bit k x OR y"
    by (intro disjunctive_add) (metis bit_push_bit_iff_nat not_le)
  then show ?thesis by (simp add: push_bit_eq_mult)
qed

lemma unat_push_or:
  fixes v :: "64 word" and w :: byte
  assumes "unat v * 2 ^ k < 2 ^ 64" "unat w < 2 ^ k"
  shows "unat (push_bit k v OR ucast w) = unat v * 2 ^ k + unat w"
proof -
  have "unat (push_bit k v) = push_bit k (unat v)"
  proof -
    have "push_bit k (unat v) < 2 ^ 64" using assms(1) by (simp only: push_bit_eq_mult)
    then show ?thesis by (simp only: unsigned_push_bit_eq len_num0 len_bit0 len_num1) (simp add: take_bit_nat_eq_self)
  qed
  moreover have "unat (ucast w :: 64 word) = unat w"
  proof -
    have "unat w < 256" using unsigned_less [of w] by simp
    then show ?thesis by (simp add: unsigned_ucast_eq take_bit_nat_eq_self)
  qed
  ultimately show ?thesis using or_push_bit_nat [OF assms(2)] by (simp only: unsigned_or_eq)
qed

lemma and_80: "(b AND 0x80 = 0) = (unat (b::byte) < 128)"
proof -
  have "b AND 0x80 = 0 \<longleftrightarrow> \<not> bit b 7"
  proof -
    have "push_bit 7 1 = (0x80 :: byte)" by simp
    then show ?thesis by (simp only: bit_iff_and_push_bit_not_eq_0) simp
  qed
  also have "bit b 7 \<longleftrightarrow> bit (unat b) 7" by (simp add: bit_unsigned_iff)
  also have "\<dots> \<longleftrightarrow> \<not> unat b < 128"
  proof -
    have "unat b div 128 < 2" using unsigned_less [of b] by (simp add: div_less_iff_less_mult)
    then have "odd (unat b div 128) \<longleftrightarrow> unat b div 128 \<noteq> 0" by (cases "unat b div 128") auto
    then show ?thesis by (auto simp: bit_iff_odd)
  qed
  finally show ?thesis by simp
qed

subsection \<open>Varints\<close>

text \<open>
  SQLite's variable-length integers: up to eight bytes of seven bits, most significant first, the
  top bit set on all but the last; a value of 57 bits or more takes eight such bytes and a ninth
  of eight bits.
\<close>

lemma varint_bounds:
  "varint_loop i v tail = Some (r, n) \<Longrightarrow> i \<le> 8 \<Longrightarrow> i < n \<and> n \<le> 9 \<and> n \<le> i + length tail"
  by (induction i v tail rule: varint_loop.induct) (auto simp: Let_def split: if_splits)

fun digits7 :: "nat \<Rightarrow> nat \<Rightarrow> nat list" where
  "digits7 0 n = []"
| "digits7 (Suc k) n = digits7 k (n div 128) @ [n mod 128]"

definition cont_byte :: "nat \<Rightarrow> byte" where
  "cont_byte d = word_of_nat (128 + d)"

fun sevens :: "nat \<Rightarrow> nat" where
  "sevens n = (if n = 0 then 0 else Suc (sevens (n div 128)))"

declare sevens.simps [simp del]

definition encode_varint :: "nat \<Rightarrow> bytes" where
  "encode_varint n =
     (if n < 2 ^ 56 then map cont_byte (digits7 (sevens (n div 128)) (n div 128)) @ [word_of_nat (n mod 128)]
      else map cont_byte (digits7 8 (n div 256)) @ [word_of_nat (n mod 256)])"

lemma length_digits7 [simp]: "length (digits7 k n) = k" by (induction k arbitrary: n) simp_all

lemma digits7_less: "d \<in> set (digits7 k n) \<Longrightarrow> d < 128" by (induction k arbitrary: n) auto

lemma foldl_digits7: "foldl (\<lambda>a d. a * 128 + d) a (digits7 k n) = a * 128 ^ k + n mod 128 ^ k"
proof (induction k arbitrary: n)
  case (Suc k)
  have "(n div 128) mod 128 ^ k * 128 + n mod 128 = n mod (128 * 128 ^ k)"
    by (simp add: mod_mult2_eq)
  then show ?case by (simp add: Suc add_mult_distrib)
qed simp

lemma sevens_bound: "n < 128 ^ sevens n"
proof (induction n rule: sevens.induct)
  case (1 n)
  show ?case
  proof (cases "n = 0")
    case False
    then have "n div 128 < 128 ^ sevens (n div 128)" using 1 by simp
    then have "n < 128 * 128 ^ sevens (n div 128)" by (simp add: div_less_iff_less_mult mult.commute)
    then show ?thesis using False by (simp add: sevens.simps [of n])
  qed (simp add: sevens.simps)
qed

lemma sevens_le: "n < 128 ^ k \<Longrightarrow> sevens n \<le> k"
proof (induction k arbitrary: n)
  case (Suc k)
  then have "n div 128 < 128 ^ k" by (simp add: div_less_iff_less_mult mult.commute)
  then show ?case using Suc.IH by (auto simp: sevens.simps [of n])
qed (simp add: sevens.simps)

lemma unat_cont_byte: "d < 128 \<Longrightarrow> unat (cont_byte d) = 128 + d"
  by (simp only: cont_byte_def unat_byte_of_nat) simp

lemma varint_loop_digits:
  assumes "i + length ds \<le> 8" "\<And>d. d \<in> set ds \<Longrightarrow> d < 128" "unat v < 128 ^ i"
  shows "\<exists>v'. varint_loop i v (map cont_byte ds @ rest) = varint_loop (i + length ds) v' rest
    \<and> unat v' = foldl (\<lambda>a d. a * 128 + d) (unat v) ds \<and> unat v' < 128 ^ (i + length ds)"
  using assms
proof (induction ds arbitrary: i v)
  case (Cons d ds)
  let ?v = "push_bit 7 v OR ucast (cont_byte d AND 0x7f)"
  have d: "d < 128" using Cons.prems(2) by simp
  have "(128::nat) ^ i \<le> 128 ^ 7" using Cons.prems(1) by (intro power_increasing) auto
  then have "unat v * 2 ^ 7 < 2 ^ 64" using Cons.prems(3) by simp
  moreover have m: "unat (cont_byte d AND 0x7f) = d" using d by (simp add: unat_and_7f unat_cont_byte)
  ultimately have v: "unat ?v = unat v * 128 + d" using unat_push_or [of v 7 "cont_byte d AND 0x7f"] d by simp
  have "Suc (unat v) * 128 \<le> 128 ^ i * 128" using Cons.prems(3) by (intro mult_le_mono1) simp
  then have b: "unat ?v < 128 ^ (i + 1)" using v d by simp
  have "varint_loop i v (map cont_byte (d # ds) @ rest) = varint_loop (i + 1) ?v (map cont_byte ds @ rest)"
    using Cons.prems(1) d by (simp add: Let_def and_80 unat_cont_byte)
  then show ?case using Cons.IH [of "i + 1" ?v] Cons.prems b v by auto
next
  case Nil
  then show ?case by (intro exI [of _ v]) simp
qed

lemma varint_loop_start:
  assumes "k \<le> 8"
  shows "\<exists>v'. varint_loop 0 0 (map cont_byte (digits7 k m) @ rest) = varint_loop k v' rest \<and> unat v' = m mod 128 ^ k"
proof -
  have "0 + length (digits7 k m) \<le> 8" "unat (0 :: 64 word) < 128 ^ 0" using assms by simp_all
  from varint_loop_digits [OF this(1) _ this(2), of rest] digits7_less [of _ k m]
  show ?thesis by (auto simp: foldl_digits7)
qed

lemma varint_encode:
  assumes "n < 2 ^ 64"
  shows "varint_loop 0 0 (encode_varint n @ rest) = Some (word_of_nat n, length (encode_varint n))"
proof (cases "n < 2 ^ 56")
  case True
  let ?k = "sevens (n div 128)"
  have k: "?k \<le> 7" using True by (intro sevens_le) (simp add: div_less_iff_less_mult)
  obtain v' where v': "varint_loop 0 0 (map cont_byte (digits7 ?k (n div 128)) @ word_of_nat (n mod 128) # rest)
      = varint_loop ?k v' (word_of_nat (n mod 128) # rest)"
    "unat v' = (n div 128) mod 128 ^ ?k"
    using varint_loop_start [of ?k "n div 128" "word_of_nat (n mod 128) # rest"] k by auto
  have uv: "unat v' = n div 128" using v'(2) sevens_bound [of "n div 128"] by simp
  let ?b = "word_of_nat (n mod 128) :: byte"
  have b: "unat ?b = n mod 128" by (simp add: unat_byte_of_nat)
  have "unat (push_bit 7 v' OR ucast (?b AND 0x7f)) = unat v' * 2 ^ 7 + unat (?b AND 0x7f)"
    using assms uv by (intro unat_push_or) (simp_all add: unat_and_7f)
  then have "unat (push_bit 7 v' OR ucast (?b AND 0x7f)) = n" using uv b by (simp add: unat_and_7f)
  moreover have "word_of_nat (unat w) = w" for w :: "64 word" by simp
  ultimately have "push_bit 7 v' OR ucast (?b AND 0x7f) = word_of_nat n" by metis
  then have "varint_loop ?k v' (?b # rest) = Some (word_of_nat n, ?k + 1)"
    using k b by (simp add: Let_def and_80)
  then show ?thesis using True v'(1) by (simp add: encode_varint_def)
next
  case False
  obtain v' where v': "varint_loop 0 0 (map cont_byte (digits7 8 (n div 256)) @ word_of_nat (n mod 256) # rest)
      = varint_loop 8 v' (word_of_nat (n mod 256) # rest)"
    "unat v' = (n div 256) mod 128 ^ 8"
    using varint_loop_start [of 8 "n div 256" "word_of_nat (n mod 256) # rest"] by auto
  have "n div 256 < 128 ^ 8" using assms by (simp add: div_less_iff_less_mult)
  then have uv: "unat v' = n div 256" using v'(2) by simp
  let ?b = "word_of_nat (n mod 256) :: byte"
  have "unat (push_bit 8 v' OR ucast ?b) = unat v' * 2 ^ 8 + unat ?b"
    using assms uv by (intro unat_push_or) (simp_all add: unat_byte_of_nat)
  then have "unat (push_bit 8 v' OR ucast ?b) = n" using uv by (simp add: unat_byte_of_nat)
  moreover have "word_of_nat (unat w) = w" for w :: "64 word" by simp
  ultimately have "push_bit 8 v' OR ucast ?b = word_of_nat n" by metis
  then have "varint_loop 8 v' (?b # rest) = Some (word_of_nat n, 9)" by simp
  then show ?thesis using False v'(1) by (simp add: encode_varint_def del: digits7.simps)
qed

text \<open>
  the varint reader inverts SQLite's encoding: at any offset of any buffer it returns the
  encoded 64-bit value and the number of bytes of its encoding, whatever follows.
\<close>

lemma read_varint_roundtrip:
  assumes "n < 2 ^ 64"
  shows "read_varint (pre @ encode_varint n @ rest) (length pre) = Some (word_of_nat n, length (encode_varint n))"
  using varint_encode [OF assms] by (simp add: read_varint_def)

subsection \<open>Record integers\<close>

lemma sint_small: "uint (w :: 64 word) < 2 ^ 63 \<Longrightarrow> sint w = uint w"
proof -
  assume "uint w < 2 ^ 63"
  moreover have "0 \<le> uint w" by simp
  ultimately have "signed_take_bit 63 (uint w) = uint w" by (intro signed_take_bit_int_eq_self) linarith+
  then show ?thesis by (simp add: sint_uint)
qed

lemma sint_large: "2 ^ 63 \<le> uint (w :: 64 word) \<Longrightarrow> sint w = uint w - 2 ^ 64"
proof -
  assume l: "2 ^ 63 \<le> uint w"
  have u: "uint w < 2 ^ 64" using uint_bounded [of w] by simp
  have "take_bit (Suc 63) (uint w) = take_bit (Suc 63) (uint w - 2 ^ 64)"
    by (simp only: take_bit_eq_mod) (simp add: mod_diff_eq [symmetric])
  then have "signed_take_bit 63 (uint w) = signed_take_bit 63 (uint w - 2 ^ 64)"
    by (simp only: signed_take_bit_eq_iff_take_bit_eq)
  also have "\<dots> = uint w - 2 ^ 64" using l u by (intro signed_take_bit_int_eq_self) simp_all
  finally show ?thesis by (simp add: sint_uint)
qed

lemma sign_extend_sint:
  assumes "1 \<le> k" "k \<le> 8" "unat v < 2 ^ (8 * k)"
  shows "sint (sign_extend k v) = (if unat v < 2 ^ (8 * k - 1) then int (unat v) else int (unat v) - 2 ^ (8 * k))"
proof -
  define s where "s = 64 - k * 8"
  have pw: "(2::nat) ^ (8 * k) * 2 ^ s = 2 ^ 64" and ph: "(2::int) ^ (8 * k) * 2 ^ s = 2 ^ 64"
    "(2::int) ^ (8 * k - 1) * 2 ^ s = 2 ^ 63"
    using assms(1,2) by (simp_all only: s_def power_add [symmetric]) (auto intro!: arg_cong [of _ _ "power _"])
  have "unat v * 2 ^ s < 2 ^ (8 * k) * 2 ^ s" using assms(3) by simp
  then have fit: "push_bit s (unat v) < 2 ^ 64" by (simp only: push_bit_eq_mult pw)
  have us: "unat (push_bit s v) = unat v * 2 ^ s"
    using fit by (simp only: unsigned_push_bit_eq len_num0 len_bit0 len_num1) (simp add: take_bit_nat_eq_self push_bit_eq_mult)
  have "uint (push_bit s v) = int (unat (push_bit s v))" by (rule of_nat_unat [symmetric])
  then have u: "uint (push_bit s v) = int (unat v) * 2 ^ s"
    by (simp only: us of_nat_mult of_nat_power of_nat_numeral)
  have e: "sint (sign_extend k v) = sint (push_bit s v) div 2 ^ s"
    by (simp add: sign_extend_def Let_def sint_signed_drop_bit_eq drop_bit_eq_div flip: s_def)
  show ?thesis
  proof (cases "unat v < 2 ^ (8 * k - 1)")
    case True
    then have "int (unat v) < int (2 ^ (8 * k - 1))" by (simp only: of_nat_less_iff)
    then have "int (unat v) * 2 ^ s < 2 ^ (8 * k - 1) * 2 ^ s"
      by (intro mult_strict_right_mono) (simp_all only: of_nat_power of_nat_numeral, simp)
    then have "sint (push_bit s v) = int (unat v) * 2 ^ s" using u ph(2) sint_small [of "push_bit s v"] by (simp only:)
    then show ?thesis using True e by simp
  next
    case False
    then have "int (2 ^ (8 * k - 1)) \<le> int (unat v)" by (simp only: of_nat_le_iff not_less)
    then have "(2::int) ^ (8 * k - 1) * 2 ^ s \<le> int (unat v) * 2 ^ s"
      by (intro mult_right_mono) (simp_all only: of_nat_power of_nat_numeral, simp)
    then have "sint (push_bit s v) = int (unat v) * 2 ^ s - 2 ^ (8 * k) * 2 ^ s"
      using u ph sint_large [of "push_bit s v"] by (simp only:)
    then have "sint (push_bit s v) = (int (unat v) - 2 ^ (8 * k)) * 2 ^ s" by (simp only: left_diff_distrib)
    then show ?thesis using False e by simp
  qed
qed

lemma unat_accumulate:
  assumes "length src \<le> 8"
  shows "unat (accumulate src) = be_val src"
  using assms
proof (induction src rule: rev_induct)
  case (snoc b src)
  have IH: "unat (accumulate src) = be_val src" using snoc by simp
  have "be_val src < 256 ^ length src" by (rule be_val_bound)
  also have "\<dots> \<le> 256 ^ 7" using snoc.prems by (intro power_increasing) auto
  finally have "unat (accumulate src) * 2 ^ 8 < 2 ^ 64" using IH by simp
  moreover have "unat b < 2 ^ 8" using unsigned_less [of b] by simp
  ultimately have "unat (push_bit 8 (accumulate src) OR ucast b) = unat (accumulate src) * 2 ^ 8 + unat b"
    by (rule unat_push_or)
  then show ?case using IH by (simp add: accumulate_def be_val_def)
qed (simp add: accumulate_def be_val_def)

definition be_signed :: "bytes \<Rightarrow> int" where
  "be_signed src = (if be_val src < 2 ^ (8 * length src - 1) then int (be_val src)
     else int (be_val src) - 2 ^ (8 * length src))"

text \<open>
  the integer of a record body is decoded as SQLite defines it: for the serial types of one to
  eight bytes the result, read as \<open>i64\<close>, is the big-endian two's complement value of exactly
  the bytes at the offset, and there is a result exactly when those bytes are inside the page.
\<close>

lemma read_record_int_signed:
  assumes "int_width st = Some k"
  shows "map_option sint (read_record_int buf off st)
    = (if off + k \<le> length buf then Some (be_signed (bslice off k buf)) else None)"
proof -
  have k: "1 \<le> k" "k \<le> 8" and s: "unat st \<noteq> 0 \<and> unat st \<noteq> 8 \<and> unat st \<noteq> 9"
    using assms by (auto simp: int_width_def Let_def split: if_splits)
  show ?thesis
  proof (cases "off + k \<le> length buf")
    case True
    let ?src = "bslice off k buf"
    have len: "length ?src = k" using True by simp
    have acc: "unat (accumulate ?src) = be_val ?src" using len k by (intro unat_accumulate) simp
    have "be_val ?src < 2 ^ (8 * k)" using be_val_bound [of ?src] len by (simp add: power_mult)
    then have "sint (sign_extend k (accumulate ?src)) = be_signed ?src"
      using sign_extend_sint [OF k, of "accumulate ?src"] unfolding acc by (simp only: be_signed_def len)
    then show ?thesis using True s assms by (simp add: read_record_int_def Let_def get_slice_def)
  qed (use s assms in \<open>simp add: read_record_int_def Let_def get_slice_def\<close>)
qed

subsection \<open>Pages of SQLite's file format\<close>

text \<open>A page that has given bytes at an offset.\<close>

definition holds_at :: "bytes \<Rightarrow> nat \<Rightarrow> bytes \<Rightarrow> bool" where
  "holds_at page off bs \<longleftrightarrow> off + length bs \<le> length page \<and> bslice off (length bs) page = bs"

lemma holds_at_drop: "holds_at page off bs \<Longrightarrow> drop off page = bs @ drop (off + length bs) page"
  unfolding holds_at_def bslice_def by (metis add.commute append_take_drop_id drop_drop)

lemma drop_holds_at: "off \<le> length page \<Longrightarrow> drop off page = bs @ rest \<Longrightarrow> holds_at page off bs"
  by (auto simp: holds_at_def bslice_def dest: arg_cong [of _ _ length])

lemma holds_at_append:
  assumes "holds_at page off (xs @ ys)"
  shows "holds_at page off xs" "holds_at page (off + length xs) ys"
proof -
  have len: "off + length xs + length ys \<le> length page" using assms by (simp add: holds_at_def)
  note d = holds_at_drop [OF assms]
  show "holds_at page off xs" using d len by (intro drop_holds_at) simp_all
  have "drop (off + length xs) page = drop (length xs) (drop off page)" by (simp add: add.commute)
  also have "\<dots> = ys @ drop (off + length (xs @ ys)) page" unfolding d by simp
  finally show "holds_at page (off + length xs) ys" using len by (intro drop_holds_at) simp_all
qed

lemma encode_varint_nonempty: "encode_varint n \<noteq> []"
  by (simp add: encode_varint_def)

lemma read_varint_at:
  assumes "holds_at page off (encode_varint n)" "n < 2 ^ 64"
  shows "read_varint page off = Some (word_of_nat n, length (encode_varint n))"
  using varint_encode [OF assms(2), of "drop (off + length (encode_varint n)) page"] holds_at_drop [OF assms(1)] assms(1)
  by (simp add: read_varint_def holds_at_def)

lemma peek_at: "holds_at page off bs \<Longrightarrow> length bs = 4 \<Longrightarrow> peek_u32 page off = Some (be_val bs)"
  by (simp add: peek_u32_def get_slice_def holds_at_def)

text \<open>
  The cell pointer array of a page: a header of \<open>len\<close> bytes after the file header of the first page, its type, the number of cells,
  and for each cell the place where its content starts.
\<close>

definition page_head :: "bool \<Rightarrow> nat" where
  "page_head page1 = (if page1 then 100 else 0)"

definition cell_at :: "bytes \<Rightarrow> bool \<Rightarrow> nat \<Rightarrow> nat \<Rightarrow> nat" where
  "cell_at page page1 len i = be_val (bslice (page_head page1 + len + 2 * i) 2 page)"

definition btree_cells :: "bytes \<Rightarrow> bool \<Rightarrow> byte \<Rightarrow> nat \<Rightarrow> bytes list \<Rightarrow> bool" where
  "btree_cells page page1 type len cells \<longleftrightarrow>
     5 \<le> len \<and> page_head page1 + len + 2 * length cells \<le> length page \<and> page ! page_head page1 = type
     \<and> be_val (bslice (page_head page1 + 3) 2 page) = length cells
     \<and> (\<forall>i < length cells. holds_at page (cell_at page page1 len i) (cells ! i))"

lemma btree_cellsD:
  assumes "btree_cells page page1 type len cells"
  shows "btree_header page page1 len = Some (page_head page1)" "get page (page_head page1) = Some type" "cell_count_at page (page_head page1) = length cells"
    "i < length cells \<Longrightarrow> peek_u16 page (page_head page1 + len + i * 2) = Some (cell_at page page1 len i)"
  using assms by (auto simp: btree_cells_def btree_header_def page_head_def get_def cell_count_at_def peek_u16_def get_slice_def cell_at_def mult.commute [of _ 2])

text \<open>The loops of the readers on cells that all parse.\<close>

lemma table_leaf_loop_reads:
  assumes "\<And>i. i \<in> set is \<Longrightarrow> \<exists>off. peek_u16 page (pa + i * 2) = Some off \<and> table_leaf_cell page off = Some (f i)" "length (tl_rowids out) \<le> cap"
  shows "table_leaf_loop page pa cap is out = out\<lparr>tl_rowids := tl_rowids out @ map f (take (cap - length (tl_rowids out)) is),
     tl_stopped_early := tl_stopped_early out \<or> cap - length (tl_rowids out) < length is\<rparr>"
  using assms
proof (induction "is" arbitrary: out)
  case (Cons i js)
  show ?case
  proof (cases "cap \<le> length (tl_rowids out)")
    case False
    obtain off where off: "peek_u16 page (pa + i * 2) = Some off" "table_leaf_cell page off = Some (f i)" using Cons.prems(1) by auto
    let ?out = "out\<lparr>tl_rowids := tl_rowids out @ [f i]\<rparr>"
    have "table_leaf_loop page pa cap js ?out = ?out\<lparr>tl_rowids := tl_rowids ?out @ map f (take (cap - length (tl_rowids ?out)) js),
        tl_stopped_early := tl_stopped_early ?out \<or> cap - length (tl_rowids ?out) < length js\<rparr>"
      using Cons.prems False by (intro Cons.IH) auto
    moreover have "cap - length (tl_rowids out) = Suc (cap - length (tl_rowids ?out))" using False by simp
    ultimately show ?thesis using False off by simp
  qed simp
qed simp

lemma table_interior_loop_reads:
  assumes "\<And>i. i \<in> set is \<Longrightarrow> \<exists>off used. peek_u16 page (pa + i * 2) = Some off \<and> off + 4 \<le> length page \<and> peek_u32 page off = Some (f i)
      \<and> read_varint page (off + 4) = Some (g i, used)"
  shows "table_interior_loop page pa is out
    = Some (out\<lparr>ti_cells := ti_cells out @ map (\<lambda>i. \<lparr>ti_child_page = f i, ti_rowid_key = g i\<rparr>) is\<rparr>)"
  using assms
proof (induction "is" arbitrary: out)
  case (Cons i js)
  obtain off used where "peek_u16 page (pa + i * 2) = Some off" "off + 4 \<le> length page" "peek_u32 page off = Some (f i)"
    "read_varint page (off + 4) = Some (g i, used)" using Cons.prems by (meson list.set_intros(1))
  moreover have "table_interior_loop page pa js (out\<lparr>ti_cells := ti_cells out @ [\<lparr>ti_child_page = f i, ti_rowid_key = g i\<rparr>]\<rparr>)
      = Some (out\<lparr>ti_cells := ti_cells out @ \<lparr>ti_child_page = f i, ti_rowid_key = g i\<rparr> # map (\<lambda>i. \<lparr>ti_child_page = f i, ti_rowid_key = g i\<rparr>) js\<rparr>)"
    using Cons.IH Cons.prems by simp
  ultimately show ?case by simp
qed simp

lemma index_leaf_loop_reads:
  assumes "\<And>i. i \<in> set is \<Longrightarrow> \<exists>off. peek_u16 page (pa + i * 2) = Some off \<and> parse_index_leaf_cell_rowid page off ml = Some (f i, g i, False)"
    "length (il_rowids out) \<le> cap"
  shows "index_leaf_loop page pa ml cap is out = out\<lparr>il_rowids := il_rowids out @ map f (take (cap - length (il_rowids out)) is),
     il_first_int_keys := il_first_int_keys out @ map g (take (cap - length (il_rowids out)) is),
     il_stopped_early := il_stopped_early out \<or> cap - length (il_rowids out) < length is\<rparr>"
  using assms
proof (induction "is" arbitrary: out)
  case (Cons i js)
  show ?case
  proof (cases "cap \<le> length (il_rowids out)")
    case False
    obtain off where off: "peek_u16 page (pa + i * 2) = Some off" "parse_index_leaf_cell_rowid page off ml = Some (f i, g i, False)" using Cons.prems(1) by auto
    let ?out = "out\<lparr>il_rowids := il_rowids out @ [f i], il_first_int_keys := il_first_int_keys out @ [g i]\<rparr>"
    have "index_leaf_loop page pa ml cap js ?out = ?out\<lparr>il_rowids := il_rowids ?out @ map f (take (cap - length (il_rowids ?out)) js),
        il_first_int_keys := il_first_int_keys ?out @ map g (take (cap - length (il_rowids ?out)) js),
        il_stopped_early := il_stopped_early ?out \<or> cap - length (il_rowids ?out) < length js\<rparr>"
      using Cons.prems False by (intro Cons.IH) auto
    moreover have "cap - length (il_rowids out) = Suc (cap - length (il_rowids ?out))" using False by simp
    ultimately show ?thesis using False off by simp
  qed simp
qed simp

lemma table_leaf_reads:
  assumes leaf: "btree_cells page page1 0x0d 8 (map (\<lambda>(payload, rowid). encode_varint payload @ encode_varint rowid) rows)"
    and "\<forall>(payload, rowid) \<in> set rows. payload < 2 ^ 64 \<and> rowid < 2 ^ 63" "0 < cap"
  shows "parse_table_leaf_rowids page page1 cap
      = \<lparr>tl_rowids = map (word_of_nat \<circ> snd) (take cap rows), tl_malformed_cells = 0, tl_stopped_early = (cap < length rows)\<rparr>"
proof -
  note d = btree_cellsD [OF leaf]
  have cell: "table_leaf_cell page (cell_at page page1 8 i) = Some (word_of_nat (snd (rows ! i)))" if i: "i < length rows" for i
  proof -
    obtain n r where nr: "rows ! i = (n, r)" by force
    have b: "n < 2 ^ 64" "r < 2 ^ 63" using assms(2) nth_mem [OF i] nr by auto
    have "holds_at page (cell_at page page1 8 i) (encode_varint n @ encode_varint r)" using leaf i nr by (auto simp: btree_cells_def)
    from holds_at_append [OF this] have "read_varint page (cell_at page page1 8 i) = Some (word_of_nat n, length (encode_varint n))"
        "read_varint page (cell_at page page1 8 i + length (encode_varint n)) = Some (word_of_nat r, length (encode_varint r))"
      using b by (simp_all add: read_varint_at)
    moreover have "unat (word_of_nat r :: 64 word) = r" using b(2) by (simp add: unsigned_of_nat take_bit_nat_eq_self)
    ultimately show ?thesis using b(2) nr by (simp add: table_leaf_cell_def)
  qed
  have "table_leaf_loop page (page_head page1 + 8) cap [0..<length rows] empty_table_leaf
      = empty_table_leaf\<lparr>tl_rowids := tl_rowids empty_table_leaf @ map (\<lambda>i. word_of_nat (snd (rows ! i))) (take (cap - length (tl_rowids empty_table_leaf)) [0..<length rows]),
          tl_stopped_early := tl_stopped_early empty_table_leaf \<or> cap - length (tl_rowids empty_table_leaf) < length [0..<length rows]\<rparr>"
    using d(4) cell by (intro table_leaf_loop_reads) (auto simp: empty_table_leaf_def)
  moreover have "map (\<lambda>i. word_of_nat (snd (rows ! i)) :: 64 word) (take cap [0..<length rows]) = map (word_of_nat \<circ> snd) (take cap rows)"
    by (intro nth_equalityI) (auto simp: take_upt)
  ultimately show ?thesis
    using d(1-3) assms(3) by (simp add: parse_table_leaf_rowids_def empty_table_leaf_def)
qed

lemma table_interior_reads:
  assumes inner: "btree_cells page page1 0x05 12 (map (\<lambda>(child, key). be_bytes 4 child @ encode_varint key) children)"
    and "\<forall>(child, key) \<in> set children. child < U32_SIZE \<and> key < 2 ^ 64"
  shows "parse_table_interior_cells page page1
      = Some \<lparr>ti_rightmost_child_page = Some (be_val (bslice (page_head page1 + 8) 4 page)),
          ti_cells = map (\<lambda>(child, key). \<lparr>ti_child_page = child, ti_rowid_key = word_of_nat key\<rparr>) children,
          ti_malformed_cells = 0, ti_stopped_early = False\<rparr>"
proof -
  note d = btree_cellsD [OF inner]
  have cell: "cell_at page page1 12 i + 4 \<le> length page \<and> peek_u32 page (cell_at page page1 12 i) = Some (fst (children ! i))
      \<and> read_varint page (cell_at page page1 12 i + 4) = Some (word_of_nat (snd (children ! i)), length (encode_varint (snd (children ! i))))" if i: "i < length children" for i
  proof -
    obtain c k where ck: "children ! i = (c, k)" by force
    have b: "c < U32_SIZE" "k < 2 ^ 64" using assms(2) nth_mem [OF i] ck by auto
    have "holds_at page (cell_at page page1 12 i) (be_bytes 4 c @ encode_varint k)" using inner i ck by (auto simp: btree_cells_def)
    note h = holds_at_append [OF this]
    have "be_val (be_bytes 4 c) = c" using b(1) by (intro be_val_bytes) simp
    then show ?thesis using h b ck read_varint_at [of page "cell_at page page1 12 i + 4" k] peek_at [OF h(1)] by (simp add: holds_at_def)
  qed
  let ?out = "empty_table_interior\<lparr>ti_rightmost_child_page := peek_u32 page (page_head page1 + 8)\<rparr>"
  have right: "peek_u32 page (page_head page1 + 8) = Some (be_val (bslice (page_head page1 + 8) 4 page))"
    using inner by (simp add: btree_cells_def peek_u32_def get_slice_def)
  have "table_interior_loop page (page_head page1 + 12) [0..<length children] ?out
      = Some (?out\<lparr>ti_cells := ti_cells ?out @ map (\<lambda>i. \<lparr>ti_child_page = fst (children ! i), ti_rowid_key = word_of_nat (snd (children ! i))\<rparr>) [0..<length children]\<rparr>)"
    using d(4) cell by (intro table_interior_loop_reads) auto
  moreover have "map (\<lambda>i. \<lparr>ti_child_page = fst (children ! i), ti_rowid_key = word_of_nat (snd (children ! i))\<rparr>) [0..<length children]
      = map (\<lambda>(child, key). \<lparr>ti_child_page = child, ti_rowid_key = word_of_nat key\<rparr>) children"
    by (intro nth_equalityI) (auto simp: case_prod_unfold)
  ultimately show ?thesis
    using d(1-3) right by (simp add: parse_table_interior_cells_def empty_table_interior_def)
qed

text \<open>
  C38: the table page readers read what SQLite wrote. On a leaf page whose cells hold a payload size
  and a row id as varints, the row ids not negative, the reader returns exactly the first \<open>cap\<close> row ids in the order of the cell pointers, counts no cell as
  malformed, and says that it stopped early exactly when cells remain. On an interior page whose cells hold a child page and a
  key, it returns the right-most child and every pair in order, and does not panic. The contents of the page outside its header, pointers and
  cell heads do not matter.
\<close>

theorem table_pages_read_back:
  assumes "\<forall>(payload, rowid) \<in> set rows. payload < 2 ^ 64 \<and> rowid < 2 ^ 63"
    and "\<forall>(child, key) \<in> set children. child < U32_SIZE \<and> key < 2 ^ 64" "0 < cap"
  shows "(btree_cells page page1 0x0d 8 (map (\<lambda>(payload, rowid). encode_varint payload @ encode_varint rowid) rows) \<longrightarrow>
      parse_table_leaf_rowids page page1 cap
        = \<lparr>tl_rowids = map (word_of_nat \<circ> snd) (take cap rows), tl_malformed_cells = 0, tl_stopped_early = (cap < length rows)\<rparr>)
    \<and> (btree_cells page page1 0x05 12 (map (\<lambda>(child, key). be_bytes 4 child @ encode_varint key) children) \<longrightarrow>
      parse_table_interior_cells page page1
        = Some \<lparr>ti_rightmost_child_page = Some (be_val (bslice (page_head page1 + 8) 4 page)),
            ti_cells = map (\<lambda>(child, key). \<lparr>ti_child_page = child, ti_rowid_key = word_of_nat key\<rparr>) children,
            ti_malformed_cells = 0, ti_stopped_early = False\<rparr>)"
  using table_leaf_reads [OF _ assms(1,3)] table_interior_reads [OF _ assms(2)] by blast

definition two_rows :: bytes where
  "two_rows = [0x0d, 0, 0, 0, 2, 0, 0, 0, 0, 14, 0, 12, 1, 9, 2, 8]"

definition one_child :: bytes where
  "one_child = [0x05, 0, 0, 0, 1, 0, 0, 0, 0, 0, 0, 7, 0, 14, 0, 0, 0, 3, 9]"

theorem table_pages_read_back_witness:
  "parse_table_leaf_rowids two_rows False 1 = \<lparr>tl_rowids = [8], tl_malformed_cells = 0, tl_stopped_early = True\<rparr>
   \<and> parse_table_interior_cells one_child False
     = Some \<lparr>ti_rightmost_child_page = Some 7, ti_cells = [\<lparr>ti_child_page = 3, ti_rowid_key = 9\<rparr>], ti_malformed_cells = 0, ti_stopped_early = False\<rparr>"
proof -
  have enc: "encode_varint (Suc 0) = [1]" "encode_varint 2 = [2]" "encode_varint 8 = [8]" "encode_varint 9 = [9]"
    by (simp_all add: encode_varint_def sevens.simps)
  have "btree_cells two_rows False 0x0d 8 (map (\<lambda>(payload, rowid). encode_varint payload @ encode_varint rowid) [(2, 8), (1, 9)])"
    by (simp add: btree_cells_def two_rows_def page_head_def bslice_def be_val_def holds_at_def cell_at_def enc less_Suc_eq)
  moreover have "be_bytes 4 3 = [0, 0, 0, 3]" by code_simp
  then have "btree_cells one_child False 0x05 12 (map (\<lambda>(child, key). be_bytes 4 child @ encode_varint key) [(3, 9)])"
    by (simp add: btree_cells_def one_child_def page_head_def bslice_def be_val_def holds_at_def cell_at_def enc less_Suc_eq)
  moreover have "be_val (bslice (page_head False + 8) 4 one_child) = 7"
    by (simp add: one_child_def page_head_def bslice_def be_val_def)
  moreover note table_pages_read_back [of "[(2, 8), (1, 9)]" "[(3, 9)]" 1 two_rows False, THEN conjunct1]
    table_pages_read_back [of "[(2, 8), (1, 9)]" "[(3, 9)]" 1 one_child False, THEN conjunct2]
  ultimately show ?thesis by simp
qed

subsection \<open>Index records\<close>

text \<open>
  A column of a record is a serial type and its bytes. The size of its bytes and the integer they stand for are those of SQLite's
  file format: types 1 to 6 are two's complement integers, 8 and 9 the constants zero and one; every other type is no integer.
\<close>

definition content_size :: "nat \<Rightarrow> nat" where
  "content_size s = (if s \<le> 4 then s else if s = 5 then 6 else if s \<le> 7 then 8 else if s \<le> 9 then 0 else (s - 12) div 2)"

definition column_ok :: "nat \<times> bytes \<Rightarrow> bool" where
  "column_ok col \<longleftrightarrow> fst col < 2 ^ 64 \<and> fst col \<noteq> 10 \<and> fst col \<noteq> 11 \<and> length (snd col) = content_size (fst col)"

definition column_int :: "nat \<times> bytes \<Rightarrow> int option" where
  "column_int col = (let s = fst col in
     if s = 8 then Some 0 else if s = 9 then Some 1 else if 1 \<le> s \<and> s \<le> 6 then Some (be_signed (snd col)) else None)"

text \<open>A record: the length of its header, which counts itself, the serial types, and the bytes of the columns.\<close>

definition serial_bytes :: "(nat \<times> bytes) list \<Rightarrow> bytes" where
  "serial_bytes cols = concat (map (encode_varint \<circ> fst) cols)"

definition index_record :: "bytes \<Rightarrow> (nat \<times> bytes) list \<Rightarrow> bool" where
  "index_record bs cols \<longleftrightarrow> (\<exists>hl \<le> length bs. hl = length (encode_varint hl) + length (serial_bytes cols)
     \<and> bs = encode_varint hl @ serial_bytes cols @ concat (map snd cols))"

lemma unat_nat64: "n < 2 ^ 64 \<Longrightarrow> unat (word_of_nat n :: 64 word) = n"
  by (simp add: unsigned_of_nat take_bit_nat_eq_self)

lemma read_serials_at:
  assumes "holds_at page pos (serial_bytes cols)" "\<forall>col \<in> set cols. column_ok col" "header_end = pos + length (serial_bytes cols)"
  shows "read_serials page pos header_end acc = Some (acc @ map (word_of_nat \<circ> fst) cols)"
  using assms
proof (induction cols arbitrary: pos acc)
  case Nil
  then show ?case by (subst read_serials.simps) (simp add: serial_bytes_def)
next
  case (Cons col cols)
  have split: "serial_bytes (col # cols) = encode_varint (fst col) @ serial_bytes cols" by (simp add: serial_bytes_def)
  note h = holds_at_append [OF Cons.prems(1) [unfolded split]]
  let ?n = "length (encode_varint (fst col))"
  have "read_varint page pos = Some (word_of_nat (fst col), ?n)" using read_varint_at [OF h(1)] Cons.prems(2) by (simp add: column_ok_def)
  moreover have "read_serials page (pos + ?n) header_end (acc @ [word_of_nat (fst col)]) = Some ((acc @ [word_of_nat (fst col)]) @ map (word_of_nat \<circ> fst) cols)"
    using Cons.prems h(2) split by (intro Cons.IH) simp_all
  ultimately show ?case using Cons.prems(3) split encode_varint_nonempty [of "fst col"] by (subst read_serials.simps) simp
qed

lemma serial_type_size_nat: "column_ok col \<Longrightarrow> serial_type_size (word_of_nat (fst col)) = Some (length (snd col))"
  by (auto simp: serial_type_size_def column_ok_def content_size_def Let_def unat_nat64)

lemma skip_body_at:
  assumes "\<forall>col \<in> set cols. column_ok col" "pos + length (concat (map snd cols)) \<le> pe" "pe < U64_SIZE"
  shows "skip_body pe (map (word_of_nat \<circ> fst) cols) pos = Some (pos + length (concat (map snd cols)))"
  using assms
proof (induction cols arbitrary: pos)
  case (Cons col cols)
  have "skip_body pe (map (word_of_nat \<circ> fst) cols) (pos + length (snd col)) = Some (pos + length (snd col) + length (concat (map snd cols)))"
    using Cons.prems by (intro Cons.IH) simp_all
  then show ?case using Cons.prems by (simp add: serial_type_size_nat checked_add_def comp_def add.assoc)
qed simp

lemma read_record_int_at:
  assumes "column_ok col" "holds_at page off (snd col)" "column_int col = Some v"
  shows "\<exists>w. read_record_int page off (word_of_nat (fst col)) = Some w \<and> sint w = v"
proof (cases "fst col = 8 \<or> fst col = 9")
  case True
  then show ?thesis using assms(3) by (auto simp: read_record_int_def column_int_def Let_def)
next
  case False
  then have s: "1 \<le> fst col" "fst col \<le> 6" and v: "v = be_signed (snd col)"
    using assms(3) by (auto simp: column_int_def Let_def split: if_splits)
  have "int_width (word_of_nat (fst col)) = Some (length (snd col))"
    using s assms(1) by (auto simp: int_width_def column_ok_def content_size_def Let_def unat_nat64)
  from read_record_int_signed [OF this, of page off] show ?thesis
    using assms(2) v by (auto simp: holds_at_def)
qed

lemma read_record_int_key_at:
  assumes "column_ok col" "holds_at page off (snd col)"
  shows "\<exists>k. read_record_int_key page off (word_of_nat (fst col)) = Some k \<and> map_option sint k = column_int col"
proof (cases "column_int col")
  case None
  then show ?thesis using assms(1) by (auto simp: read_record_int_key_def column_int_def column_ok_def Let_def unat_nat64 split: if_splits)
next
  case (Some v)
  have "unat (word_of_nat (fst col) :: 64 word) = fst col" using assms(1) by (simp add: column_ok_def unat_nat64)
  then show ?thesis using read_record_int_at [OF assms Some] Some
    by (auto simp: read_record_int_key_def column_int_def Let_def split: if_splits)
qed

lemma index_cell_at:
  assumes "holds_at page off (encode_varint (length bs) @ bs)" "index_record bs cols" "cols \<noteq> []" "\<forall>col \<in> set cols. column_ok col"
    "column_int (last cols) = Some v" "length bs \<le> ml" "length page < U64_SIZE"
  shows "\<exists>r k. parse_index_leaf_cell_rowid page off ml = Some (r, k, False) \<and> sint r = v \<and> map_option sint k = column_int (hd cols)"
proof -
  obtain hl where hl: "hl = length (encode_varint hl) + length (serial_bytes cols)" "bs = encode_varint hl @ serial_bytes cols @ concat (map snd cols)"
    using assms(2) by (auto simp: index_record_def)
  define start where "start = off + length (encode_varint (length bs))"
  have small: "start + length bs \<le> length page" "length bs < 2 ^ 64" using assms(1,7) by (simp_all add: holds_at_def start_def)
  note h = holds_at_append [OF assms(1), folded start_def]
  note hr = holds_at_append [OF h(2) [unfolded hl(2)]]
  note hs = holds_at_append [OF hr(2)]
  have len: "length bs = hl + length (concat (map snd cols))" using hl by simp
  have "start + length (encode_varint hl) + length (serial_bytes cols) = start + hl" using hl(1) by simp
  then have body: "holds_at page (start + hl) (concat (map snd cols))" using hs(2) by (simp only:)
  have plen: "read_varint page off = Some (word_of_nat (length bs), length (encode_varint (length bs)))" using read_varint_at [OF h(1) small(2)] .
  have hlen: "read_varint page start = Some (word_of_nat hl, length (encode_varint hl))" using read_varint_at [OF hr(1)] len small(2) by simp
  have serials: "read_serials page (start + length (encode_varint hl)) (start + hl) [] = Some (map (word_of_nat \<circ> fst) cols)"
    using read_serials_at [OF hs(1) assms(4), of "start + hl" "[]"] hl(1) by simp
  have "concat (map snd cols) = snd (hd cols) @ concat (map snd (tl cols))" using assms(3) by (cases cols) simp_all
  from holds_at_append(1) [OF body [unfolded this]] have "holds_at page (start + hl) (snd (hd cols))" .
  from read_record_int_key_at [OF _ this] obtain k where k: "read_record_int_key page (start + hl) (word_of_nat (fst (hd cols))) = Some k"
      "map_option sint k = column_int (hd cols)" using assms(3,4) by auto
  let ?bp = "start + hl + length (concat (map snd (butlast cols)))"
  have snoc: "concat (map snd cols) = concat (map snd (butlast cols)) @ snd (last cols)"
    using arg_cong [OF append_butlast_last_id [OF assms(3)], of "\<lambda>cs. concat (map snd cs)"] by simp
  from holds_at_append(2) [OF body [unfolded snoc]] have lastb: "holds_at page ?bp (snd (last cols))" .
  have lok: "column_ok (last cols)" using assms(3,4) by simp
  obtain r where r: "read_record_int page ?bp (word_of_nat (fst (last cols))) = Some r" "sint r = v"
    using read_record_int_at [OF lok lastb assms(5)] by auto
  have fits: "?bp + length (snd (last cols)) = start + length bs" using len snoc by simp
  have skip: "skip_body (start + length bs) (map (word_of_nat \<circ> fst) (butlast cols)) (start + hl) = Some ?bp"
    using assms(4,7) small(1) fits in_set_butlastD by (intro skip_body_at) fastforce+
  have u: "unat (word_of_nat (length bs) :: 64 word) = length bs" "unat (word_of_nat hl :: 64 word) = hl"
    using small(2) len unat_nat64 [of "length bs"] unat_nat64 [of hl] by linarith+
  have ends: "hd (map (word_of_nat \<circ> fst) cols) = (word_of_nat (fst (hd cols)) :: 64 word)" "last (map (word_of_nat \<circ> fst) cols) = (word_of_nat (fst (last cols)) :: 64 word)"
      "take (length cols - Suc 0) (map (word_of_nat \<circ> fst) cols) = (map (word_of_nat \<circ> fst) (butlast cols) :: 64 word list)"
    using assms(3) by (simp_all add: hd_map last_map butlast_conv_take take_map)
  have adds: "checked_add off (length (encode_varint (length bs))) = Some start" "checked_add start (length bs) = Some (start + length bs)" "checked_add start hl = Some (start + hl)"
    using small assms(7) len by (simp_all add: start_def)
  have le: "\<not> ml < length bs" "\<not> length page < start + length bs" "\<not> hl < length (encode_varint hl)" "\<not> start + length bs < start + hl"
    using assms(6) small(1) hl(1) len by linarith+
  have "(?bp + length (snd (last cols))) mod U64_SIZE = start + length bs" unfolding fits using small(1) assms(7) by simp
  then have "parse_index_leaf_cell_rowid page off ml = Some (r, k, False)"
    by (simp add: parse_index_leaf_cell_rowid_def Let_def plen hlen serials k(1) r(1) skip u ends adds le assms(3) serial_type_size_nat [OF lok]
        del: add_less_cancel_left nat_add_left_cancel_less)
  then show ?thesis using r(2) k(2) by blast
qed

text \<open>
  C39: the index leaf reader reads what SQLite wrote. On an index leaf page whose cells hold records that fit in the page, each a list of columns
  whose last one is an integer, the row id, the reader returns for the first \<open>cap\<close> cells, in the order of the cell pointers, the row id
  and the integer of the first column if it is one, each the two's complement value of exactly its bytes; it counts no cell as
  malformed or overflowing and says that it stopped early exactly when cells remain. Cells that spill to overflow pages are not covered.
\<close>

theorem index_leaf_read_back:
  assumes "\<forall>(bs, cols) \<in> set recs. index_record bs cols \<and> cols \<noteq> [] \<and> (\<forall>col \<in> set cols. column_ok col) \<and> column_int (last cols) \<noteq> None
      \<and> length bs \<le> index_max_local_payload (index_usable_size page page1 usable)"
    and "btree_cells page page1 0x0a 8 (map (\<lambda>(bs, cols). encode_varint (length bs) @ bs) recs)" "length page \<le> 65536" "0 < cap"
  shows "let out = parse_index_leaf_rowids page page1 cap usable in
      map (Some \<circ> sint) (il_rowids out) = map (\<lambda>(bs, cols). column_int (last cols)) (take cap recs)
    \<and> map (map_option sint) (il_first_int_keys out) = map (\<lambda>(bs, cols). column_int (hd cols)) (take cap recs)
    \<and> il_overflow_cells out = 0 \<and> il_malformed_cells out = 0 \<and> il_stopped_early out = (cap < length recs)"
proof -
  let ?ml = "index_max_local_payload (index_usable_size page page1 usable)"
  note d = btree_cellsD [OF assms(2)]
  define f where "f i = fst (the (parse_index_leaf_cell_rowid page (cell_at page page1 8 i) ?ml))" for i
  define g where "g i = fst (snd (the (parse_index_leaf_cell_rowid page (cell_at page page1 8 i) ?ml)))" for i
  have cell: "parse_index_leaf_cell_rowid page (cell_at page page1 8 i) ?ml = Some (f i, g i, False)
      \<and> Some (sint (f i)) = (\<lambda>(bs, cols). column_int (last cols)) (recs ! i) \<and> map_option sint (g i) = (\<lambda>(bs, cols). column_int (hd cols)) (recs ! i)"
    if i: "i < length recs" for i
  proof -
    obtain bs cols where bc: "recs ! i = (bs, cols)" by force
    have ok: "index_record bs cols" "cols \<noteq> []" "\<forall>col \<in> set cols. column_ok col" "length bs \<le> ?ml" and v: "column_int (last cols) \<noteq> None"
      using assms(1) nth_mem [OF i] bc by auto
    obtain v where v: "column_int (last cols) = Some v" using v by auto
    have "holds_at page (cell_at page page1 8 i) (encode_varint (length bs) @ bs)" using assms(2) i bc by (auto simp: btree_cells_def)
    from index_cell_at [OF this ok(1-3) v ok(4)] assms(3) show ?thesis using bc v by (auto simp: f_def g_def)
  qed
  have "index_leaf_loop page (page_head page1 + 8) ?ml cap [0..<length recs] empty_index_leaf
      = empty_index_leaf\<lparr>il_rowids := il_rowids empty_index_leaf @ map f (take (cap - length (il_rowids empty_index_leaf)) [0..<length recs]),
          il_first_int_keys := il_first_int_keys empty_index_leaf @ map g (take (cap - length (il_rowids empty_index_leaf)) [0..<length recs]),
          il_stopped_early := il_stopped_early empty_index_leaf \<or> cap - length (il_rowids empty_index_leaf) < length [0..<length recs]\<rparr>"
    using d(4) cell by (intro index_leaf_loop_reads) (auto simp: empty_index_leaf_def)
  then have out: "parse_index_leaf_rowids page page1 cap usable = \<lparr>il_rowids = map f (take cap [0..<length recs]), il_first_int_keys = map g (take cap [0..<length recs]),
      il_overflow_cells = 0, il_malformed_cells = 0, il_stopped_early = (cap < length recs)\<rparr>"
    using d(1-3) assms(4) by (simp add: parse_index_leaf_rowids_def empty_index_leaf_def)
  have "map (Some \<circ> sint) (map f (take cap [0..<length recs])) = map (\<lambda>(bs, cols). column_int (last cols)) (take cap recs)"
    "map (map_option sint) (map g (take cap [0..<length recs])) = map (\<lambda>(bs, cols). column_int (hd cols)) (take cap recs)"
    using cell by (auto simp: take_upt intro!: nth_equalityI)
  then show ?thesis unfolding out Let_def by simp
qed

definition index_page :: bytes where
  "index_page = [0x0a, 0, 0, 0, 1, 0, 0, 0, 0, 10, 5, 3, 1, 1, 0xfe, 9] @ replicate 496 0"

theorem index_leaf_read_back_witness:
  "map sint (il_rowids (parse_index_leaf_rowids index_page False 4 None)) = [9]
   \<and> map (map_option sint) (il_first_int_keys (parse_index_leaf_rowids index_page False 4 None)) = [Some (- 2)]"
proof -
  have enc: "encode_varint (Suc 0) = [1]" "encode_varint (Suc (Suc (Suc (Suc (Suc 0))))) = [5]" "encode_varint 3 = [3]" by (simp_all add: encode_varint_def sevens.simps)
  let ?cols = "[(1, [0xfe]), (1, [9])] :: (nat \<times> bytes) list"
  have "index_record [3, 1, 1, 0xfe, 9] ?cols"
    unfolding index_record_def by (intro exI [of _ 3]) (simp add: serial_bytes_def enc)
  moreover have "\<forall>col \<in> set ?cols. column_ok col" by (simp add: column_ok_def content_size_def)
  moreover have ints: "column_int (last ?cols) = Some 9" "column_int (hd ?cols) = Some (- 2)"
    by (simp_all add: column_int_def be_signed_def be_val_def)
  moreover have "index_max_local_payload (index_usable_size index_page False None) = 102"
    by (simp add: index_max_local_payload_def index_usable_size_def index_page_def)
  moreover have "btree_cells index_page False 0x0a 8 (map (\<lambda>(bs, cols). encode_varint (length bs) @ bs) [([3, 1, 1, 0xfe, 9], ?cols)])"
    by (simp add: btree_cells_def index_page_def page_head_def bslice_def be_val_def holds_at_def cell_at_def enc)
  moreover have "length index_page \<le> 65536" by (simp add: index_page_def)
  ultimately show ?thesis
    using index_leaf_read_back [of "[([3, 1, 1, 0xfe, 9], ?cols)]" index_page False None 4] by (auto simp: Let_def)
qed

end
