(* ===== verification/Btree_Walker.thy ===== *)
theory Btree_Walker
  imports Btree_Peek
begin

text \<open>
  The B-tree walker (\<open>src/src/btree_walker.rs\<close>): all pages of each B-tree of a database image,
  found from the schema table. \<open>read_page\<close> is the closure of the source, a partial function
  from page numbers to page contents, which may be any bytes. The recursion over interior pages of
  the schema table is written with its stack of pages still to visit. \<open>String::from_utf8_lossy\<close>
  is the argument \<open>lossy\<close>. Differences of \<open>usize\<close> values wrap as in a release build.
\<close>

subsection \<open>Integers and columns\<close>

definition be_u16_at :: "bytes \<Rightarrow> nat \<Rightarrow> nat" where
  "be_u16_at buf off = be_val (bslice off 2 buf)"

definition be_u32_at :: "bytes \<Rightarrow> nat \<Rightarrow> nat" where
  "be_u32_at buf off = be_val (bslice off 4 buf)"

fun walk_varint_loop :: "nat \<Rightarrow> 64 word \<Rightarrow> bytes \<Rightarrow> 64 word \<times> nat" where
  "walk_varint_loop i val [] = (val, i)"
| "walk_varint_loop i val (b # tail) =
     (if i < 8 then
        let val = push_bit 7 val OR (ucast b AND 0x7f) in
        if b AND 0x80 = 0 then (val, i + 1) else walk_varint_loop (i + 1) val tail
      else (push_bit 8 val OR ucast b, 9))"

definition walk_varint :: "bytes \<Rightarrow> 64 word \<times> nat" where
  "walk_varint buf = (if buf = [] then (0, 0) else walk_varint_loop 0 0 buf)"

definition walk_serial_type_size :: "64 word \<Rightarrow> nat" where
  "walk_serial_type_size serial_type =
     (let s = unat serial_type in
      if s = 0 then 0 else if s = 1 then 1 else if s = 2 then 2 else if s = 3 then 3 else if s = 4 then 4
      else if s = 5 then 6 else if s = 6 then 8 else if s = 7 then 8 else if s = 8 \<or> s = 9 then 0
      else if s = 10 \<or> s = 11 then 0
      else if s mod 2 = 0 then (s - 12) div 2 else (s - 13) div 2)"

text \<open>
  A column read has three outcomes: a value, \<open>None\<close> for a malformed cell, or a panic when an
  offset that wrapped around selects a slice that starts after its end.
\<close>

definition read_column_text :: "(bytes \<Rightarrow> string) \<Rightarrow> bytes \<Rightarrow> nat \<Rightarrow> 64 word \<Rightarrow> (string \<times> nat) option io_result" where
  "read_column_text lossy buf pos serial_type =
     (let s = unat serial_type in
      if s < 13 \<or> s mod 2 \<noteq> 1 then Inr (Some ([], walk_serial_type_size serial_type))
      else let len = (s - 13) div 2; stop = (pos + len) mod U64_SIZE in
        if length buf < stop then Inr None
        else if stop < pos then panic ''slice index starts after its end''
        else Inr (Some (lossy (bslice pos len buf), len)))"

definition read_column_int :: "bytes \<Rightarrow> nat \<Rightarrow> 64 word \<Rightarrow> 64 word option io_result" where
  "read_column_int buf pos serial_type =
     (let s = unat serial_type in
      if s = 0 \<or> s = 8 then Inr (Some 0)
      else if s = 9 then Inr (Some 1)
      else case int_width serial_type of
        None \<Rightarrow> Inr None
      | Some k \<Rightarrow>
          if length buf < (pos + k) mod U64_SIZE then Inr None
          else if length buf \<le> pos then panic ''index out of bounds''
          else Inr (Some (sign_extend k (accumulate (bslice pos k buf)))))"

fun bind_cell :: "'a option io_result \<Rightarrow> ('a \<Rightarrow> 'b option io_result) \<Rightarrow> 'b option io_result" where
  "bind_cell (Inl e) f = Inl e"
| "bind_cell (Inr None) f = Inr None"
| "bind_cell (Inr (Some x)) f = f x"

subsection \<open>Pointers of a page\<close>

text \<open>
  The loops over cell pointers: a pointer past the buffer ends the loop, a cell past the buffer is
  skipped.
\<close>

fun interior_cells :: "bytes \<Rightarrow> nat \<Rightarrow> nat list \<Rightarrow> nat list" where
  "interior_cells buf cell_ptr_start [] = []"
| "interior_cells buf cell_ptr_start (i # is) =
     (let ptr_off = cell_ptr_start + i * 2 in
      if length buf < ptr_off + 2 then []
      else let cell_off = be_u16_at buf ptr_off in
        if length buf < cell_off + 4 then interior_cells buf cell_ptr_start is
        else be_u32_at buf cell_off # interior_cells buf cell_ptr_start is)"

definition extract_interior_children :: "bytes \<Rightarrow> nat \<Rightarrow> nat list" where
  "extract_interior_children buf hdr_off =
     (if length buf < hdr_off + 12 then []
      else let cell_count = be_u16_at buf (hdr_off + 3);
               max_cells = (length buf - (hdr_off + 12)) div 2;
               cell_count = min cell_count max_cells
           in be_u32_at buf (hdr_off + 8) # interior_cells buf (hdr_off + 12) [0..<cell_count])"

definition min_local :: "nat \<Rightarrow> nat" where
  "min_local usable = wrapping_sub ((wrapping_sub usable 12 * 32) mod U64_SIZE div 255) 23"

definition max_local :: "nat \<Rightarrow> bool \<Rightarrow> nat" where
  "max_local usable is_table =
     (if is_table then wrapping_sub usable 35
      else wrapping_sub ((wrapping_sub usable 12 * 64) mod U64_SIZE div 255) 23)"

definition local_size :: "nat \<Rightarrow> bool \<Rightarrow> nat \<Rightarrow> nat" where
  "local_size usable is_table payload_size =
     (if payload_size \<le> max_local usable is_table then payload_size
      else let surplus = (min_local usable
                 + wrapping_sub payload_size (min_local usable) mod wrapping_sub usable 4) mod U64_SIZE
           in if surplus \<le> max_local usable is_table then surplus else min_local usable)"

definition leaf_cell_overflow :: "bytes \<Rightarrow> nat \<Rightarrow> bool \<Rightarrow> nat \<Rightarrow> nat list" where
  "leaf_cell_overflow buf usable is_table cell_off =
     (case walk_varint (drop cell_off buf) of (payload, bytes_read) \<Rightarrow>
        let payload_size = unat payload;
            pos = cell_off + bytes_read;
            pos = (if is_table then pos + snd (walk_varint (drop pos buf)) else pos)
        in if max_local usable is_table < payload_size then
             let ovfl_ptr_off = (pos + local_size usable is_table payload_size) mod U64_SIZE in
             if ovfl_ptr_off + 4 \<le> length buf \<and> be_u32_at buf ovfl_ptr_off \<noteq> 0
             then [be_u32_at buf ovfl_ptr_off] else []
           else [])"

fun leaf_cells :: "bytes \<Rightarrow> nat \<Rightarrow> bool \<Rightarrow> nat \<Rightarrow> nat list \<Rightarrow> nat list" where
  "leaf_cells buf usable is_table cell_ptr_start [] = []"
| "leaf_cells buf usable is_table cell_ptr_start (i # is) =
     (let ptr_off = cell_ptr_start + i * 2 in
      if length buf < ptr_off + 2 then []
      else let cell_off = be_u16_at buf ptr_off in
        if length buf \<le> cell_off then leaf_cells buf usable is_table cell_ptr_start is
        else leaf_cell_overflow buf usable is_table cell_off @ leaf_cells buf usable is_table cell_ptr_start is)"

definition extract_leaf_overflow_pages :: "bytes \<Rightarrow> nat \<Rightarrow> nat \<Rightarrow> byte \<Rightarrow> nat list" where
  "extract_leaf_overflow_pages buf hdr_off ps type_byte =
     (if length buf < hdr_off + 8 then []
      else leaf_cells buf ps (type_byte = 0x0d) (hdr_off + 8) [0..<be_u16_at buf (hdr_off + 3)])"

subsection \<open>Walking one B-tree\<close>

type_synonym page_reader = "nat \<Rightarrow> bytes option"

definition header_offset :: "nat \<Rightarrow> nat" where
  "header_offset page_num = (if page_num = 0 then 100 else 0)"

definition is_interior_type :: "byte \<Rightarrow> bool" where
  "is_interior_type t \<longleftrightarrow> t = 0x02 \<or> t = 0x05"

definition is_leaf_type :: "byte \<Rightarrow> bool" where
  "is_leaf_type t \<longleftrightarrow> t = 0x0a \<or> t = 0x0d"

fun push_children :: "nat list \<Rightarrow> nat list \<Rightarrow> nat set \<Rightarrow> nat list \<times> nat set" where
  "push_children [] queue visited = (queue, visited)"
| "push_children (c # cs) queue visited =
     (if c = 0 then push_children cs queue visited
      else if c - 1 \<in> visited then push_children cs queue visited
      else push_children cs (queue @ [c - 1]) (insert (c - 1) visited))"

function follow_chain :: "page_reader \<Rightarrow> nat \<Rightarrow> nat \<Rightarrow> nat set \<Rightarrow> nat list \<Rightarrow> nat set \<times> nat list" where
  "follow_chain read_page pc ovfl visited pages =
     (if ovfl \<notin> visited \<and> ovfl < pc then
        (case read_page ovfl of
           None \<Rightarrow> (visited, pages)
         | Some ovfl_buf \<Rightarrow>
             if 4 \<le> length ovfl_buf \<and> be_u32_at ovfl_buf 0 \<noteq> 0
             then follow_chain read_page pc (be_u32_at ovfl_buf 0 - 1) (insert ovfl visited) (pages @ [ovfl])
             else (insert ovfl visited, pages @ [ovfl]))
      else (visited, pages))"
  by pat_completeness auto
termination
proof (relation "measure (\<lambda>(read_page, pc, ovfl, visited, pages). card ({..<pc} - visited))")
  fix read_page :: page_reader and pc ovfl :: nat and visited :: "nat set" and pages :: "nat list" and ovfl_buf
  assume "ovfl \<notin> visited \<and> ovfl < pc"
  then have "{..<pc} - insert ovfl visited \<subset> {..<pc} - visited" by blast
  then show "((read_page, pc, be_u32_at ovfl_buf 0 - 1, insert ovfl visited, pages @ [ovfl]), read_page, pc, ovfl, visited, pages)
      \<in> measure (\<lambda>(read_page, pc, ovfl, visited, pages). card ({..<pc} - visited))"
    by (simp add: psubset_card_mono)
qed simp

declare follow_chain.simps [simp del]

fun follow_chains :: "page_reader \<Rightarrow> nat \<Rightarrow> nat list \<Rightarrow> nat set \<Rightarrow> nat list \<Rightarrow> nat set \<times> nat list" where
  "follow_chains read_page pc [] visited pages = (visited, pages)"
| "follow_chains read_page pc (o1 # os) visited pages =
     (if o1 = 0 then follow_chains read_page pc os visited pages
      else case follow_chain read_page pc (o1 - 1) visited pages of
        (visited, pages) \<Rightarrow> follow_chains read_page pc os visited pages)"

text \<open>What visiting one page of the queue adds: children to the queue, overflow chains to the pages.\<close>

definition visit_page ::
  "page_reader \<Rightarrow> nat \<Rightarrow> nat \<Rightarrow> nat \<Rightarrow> nat list \<Rightarrow> nat set \<Rightarrow> nat list \<Rightarrow> nat list \<times> nat set \<times> nat list" where
  "visit_page read_page pc ps page_num queue visited pages =
     (case read_page page_num of
        None \<Rightarrow> (queue, visited, pages)
      | Some buf \<Rightarrow>
          let pages = pages @ [page_num]; hdr_off = header_offset page_num in
          if length buf < hdr_off + 12 then (queue, visited, pages)
          else let type_byte = buf ! hdr_off in
            if is_interior_type type_byte then
              (case push_children (extract_interior_children buf hdr_off) queue visited of
                 (queue, visited) \<Rightarrow> (queue, visited, pages))
            else if is_leaf_type type_byte then
              (case follow_chains read_page pc (extract_leaf_overflow_pages buf hdr_off ps type_byte) visited pages of
                 (visited, pages) \<Rightarrow> (queue, visited, pages))
            else (queue, visited, pages))"

lemma be_u32_bound: "be_u32_at buf off < U32_SIZE"
proof -
  have "be_val (bslice off 4 buf) < 256 ^ length (bslice off 4 buf)" by (rule be_val_bound)
  also have "\<dots> \<le> 256 ^ 4" by (rule power_increasing) simp_all
  finally show ?thesis by (simp add: be_u32_at_def)
qed

lemma interior_cells_bound: "c \<in> set (interior_cells buf st is) \<Longrightarrow> c < U32_SIZE"
  using be_u32_bound by (induction buf st "is" rule: interior_cells.induct) (auto simp: Let_def split: if_splits)

lemma interior_children_bound: "c \<in> set (extract_interior_children buf h) \<Longrightarrow> c < U32_SIZE"
  using be_u32_bound interior_cells_bound by (auto simp: extract_interior_children_def Let_def split: if_splits)

text \<open>Pushing children: the new pages are in the queue, marked visited, and none was before.\<close>

lemma push_children_spec:
  assumes "push_children cs queue visited = (queue', visited')"
  shows "\<exists>new. queue' = queue @ new \<and> visited' = visited \<union> set new \<and> distinct new \<and> set new \<inter> visited = {}
    \<and> (\<forall>n \<in> set new. Suc n \<in> set cs) \<and> (\<forall>c \<in> set cs. c \<noteq> 0 \<longrightarrow> c - 1 \<in> visited')"
  using assms
proof (induction cs arbitrary: queue visited)
  case (Cons c cs)
  show ?case
  proof (cases "c = 0 \<or> c - 1 \<in> visited")
    case True
    then have "push_children cs queue visited = (queue', visited')"
      using Cons.prems by (auto simp del: One_nat_def split: if_splits)
    from Cons.IH [OF this] show ?thesis using True by auto
  next
    case False
    then have "push_children cs (queue @ [c - 1]) (insert (c - 1) visited) = (queue', visited')"
      using Cons.prems by simp
    from Cons.IH [OF this] obtain new where new: "queue' = (queue @ [c - 1]) @ new" "visited' = insert (c - 1) visited \<union> set new"
      "distinct new" "set new \<inter> insert (c - 1) visited = {}"
      "\<forall>n \<in> set new. Suc n \<in> set cs" "\<forall>c \<in> set cs. c \<noteq> 0 \<longrightarrow> c - 1 \<in> visited'" by blast
    then show ?thesis using False by (intro exI [of _ "(c - 1) # new"]) auto
  qed
qed simp

lemma follow_chain_mono:
  assumes "follow_chain read_page pc o1 visited pages = (visited', pages')"
  shows "visited \<subseteq> visited'"
  using assms
proof (induction read_page pc o1 visited pages rule: follow_chain.induct)
  case (1 read_page pc o1 visited pages)
  show ?case
    using 1 by (subst (asm) (2) follow_chain.simps) (auto simp del: One_nat_def split: if_splits option.splits)
qed

lemma follow_chains_mono:
  assumes "follow_chains read_page pc os visited pages = (visited', pages')"
  shows "visited \<subseteq> visited'"
  using assms by (induction os arbitrary: visited pages) (auto split: if_splits prod.splits dest!: follow_chain_mono)

lemma visit_page_measure:
  assumes "visit_page read_page pc ps p queue visited pages = (queue', visited', pages')"
  shows "2 * card ({..<U32_SIZE} - visited') + length queue' \<le> 2 * card ({..<U32_SIZE} - visited) + length queue"
proof -
  consider (same) "queue' = queue" "visited \<subseteq> visited'"
    | (child) buf where "push_children (extract_interior_children buf (header_offset p)) queue visited = (queue', visited')"
    using assms follow_chains_mono
    by (fastforce simp: visit_page_def Let_def split: option.splits if_splits prod.splits)
  then show ?thesis
  proof cases
    case same
    then have "{..<U32_SIZE} - visited' \<subseteq> {..<U32_SIZE} - visited" by blast
    then show ?thesis using same(1) by (simp add: card_mono)
  next
    case child
    from push_children_spec [OF child] obtain new where new: "queue' = queue @ new" "visited' = visited \<union> set new"
      "distinct new" "set new \<inter> visited = {}"
      "\<forall>n \<in> set new. Suc n \<in> set (extract_interior_children buf (header_offset p))" by blast
    have sub: "set new \<subseteq> {..<U32_SIZE} - visited"
      using new(4,5) interior_children_bound Suc_lessD by blast
    have "{..<U32_SIZE} - visited' = ({..<U32_SIZE} - visited) - set new" using new(2) by blast
    then have "card ({..<U32_SIZE} - visited') = card ({..<U32_SIZE} - visited) - length new"
      using sub new(3) by (simp add: card_Diff_subset distinct_card)
    moreover have "length new \<le> card ({..<U32_SIZE} - visited)"
      using card_mono [OF _ sub] new(3) by (simp add: distinct_card)
    ultimately show ?thesis using new(1) by simp
  qed
qed

function walk_loop :: "page_reader \<Rightarrow> nat \<Rightarrow> nat \<Rightarrow> nat list \<Rightarrow> nat set \<Rightarrow> nat list \<Rightarrow> nat list" where
  "walk_loop read_page pc ps queue visited pages =
     (case queue of
        [] \<Rightarrow> pages
      | page_num # rest \<Rightarrow>
          (case visit_page read_page pc ps page_num rest visited pages of
             (queue, visited, pages) \<Rightarrow> walk_loop read_page pc ps queue visited pages))"
  by pat_completeness auto
termination
  by (relation "measure (\<lambda>(read_page, pc, ps, queue, visited, pages). 2 * card ({..<U32_SIZE} - visited) + length queue)")
    (auto simp: less_Suc_eq_le split: prod.splits dest: visit_page_measure)

declare walk_loop.simps [simp del]

definition walk_btree :: "page_reader \<Rightarrow> nat \<Rightarrow> nat \<Rightarrow> nat \<Rightarrow> nat list" where
  "walk_btree read_page pc ps root_page = sort (walk_loop read_page pc ps [root_page] {root_page} [])"

subsection \<open>The schema table\<close>

record master_entry =
  me_obj_type :: string
  me_name :: string
  me_root_page :: nat

fun read_serial_types :: "nat \<Rightarrow> bytes \<Rightarrow> nat \<Rightarrow> nat \<Rightarrow> 64 word list" where
  "read_serial_types 0 buf header_end pos = []"
| "read_serial_types (Suc k) buf header_end pos =
     (if header_end \<le> pos \<or> length buf \<le> pos then []
      else case walk_varint (drop pos buf) of (st, vr) \<Rightarrow> st # read_serial_types k buf header_end (pos + vr))"

definition parse_master_cell :: "(bytes \<Rightarrow> string) \<Rightarrow> bytes \<Rightarrow> nat \<Rightarrow> master_entry option io_result" where
  "parse_master_cell lossy buf cell_off =
     (if length buf \<le> cell_off then Inr None
      else let pos = cell_off + snd (walk_varint (drop cell_off buf));
               payload_start = pos + snd (walk_varint (drop pos buf)) in
        if length buf \<le> payload_start then Inr None
        else case walk_varint (drop payload_start buf) of (header_len, vr) \<Rightarrow>
          let header_end = (payload_start + unat header_len) mod U64_SIZE;
              serial_types = read_serial_types 5 buf header_end (payload_start + vr) in
          if length serial_types < 5 then Inr None
          else if length buf \<le> header_end then Inr None
          else bind_cell (read_column_text lossy buf header_end (serial_types ! 0)) (\<lambda>(obj_type, sz0).
            let pos1 = (header_end + sz0) mod U64_SIZE in
            bind_cell (read_column_text lossy buf pos1 (serial_types ! 1)) (\<lambda>(name, sz1).
              let pos2 = (pos1 + sz1) mod U64_SIZE;
                  pos3 = (pos2 + walk_serial_type_size (serial_types ! 2)) mod U64_SIZE in
              bind_cell (read_column_int buf pos3 (serial_types ! 3)) (\<lambda>root_page.
                Inr (Some \<lparr>me_obj_type = obj_type, me_name = name, me_root_page = unat root_page\<rparr>)))))"

fun master_cells :: "(bytes \<Rightarrow> string) \<Rightarrow> bytes \<Rightarrow> nat \<Rightarrow> nat list \<Rightarrow> master_entry list io_result" where
  "master_cells lossy buf cell_ptr_start [] = Inr []"
| "master_cells lossy buf cell_ptr_start (i # is) =
     (let ptr_off = cell_ptr_start + i * 2 in
      if length buf < ptr_off + 2 then Inr []
      else let cell_off = be_u16_at buf ptr_off in
        if length buf \<le> cell_off then master_cells lossy buf cell_ptr_start is
        else bind_result (parse_master_cell lossy buf cell_off) (\<lambda>entry.
          bind_result (master_cells lossy buf cell_ptr_start is) (\<lambda>es.
            Inr (case entry of Some e \<Rightarrow> e # es | None \<Rightarrow> es))))"

function collect_leaf_pages_inner :: "page_reader \<Rightarrow> nat list \<Rightarrow> nat set \<Rightarrow> nat list \<Rightarrow> nat list" where
  "collect_leaf_pages_inner read_page stack visited leaves =
     (case stack of
        [] \<Rightarrow> leaves
      | root_page # rest \<Rightarrow>
          if root_page \<in> visited then collect_leaf_pages_inner read_page rest visited leaves
          else let visited = insert root_page visited; hdr_off = header_offset root_page in
            (case read_page root_page of
               None \<Rightarrow> collect_leaf_pages_inner read_page rest visited leaves
             | Some buf \<Rightarrow>
                 if length buf < hdr_off + 1 then collect_leaf_pages_inner read_page rest visited leaves
                 else if buf ! hdr_off = 0x05 then
                   collect_leaf_pages_inner read_page
                     (map (\<lambda>c. c - 1) (filter (\<lambda>c. 0 < c) (extract_interior_children buf hdr_off)) @ rest) visited leaves
                 else if buf ! hdr_off = 0x0d then
                   collect_leaf_pages_inner read_page rest visited (leaves @ [root_page])
                 else collect_leaf_pages_inner read_page rest visited leaves))"
  by pat_completeness auto

lemma stack_measure:
  assumes "p \<notin> visited" "\<And>c. c \<in> set cs \<Longrightarrow> c < U32_SIZE"
  shows "card (({..<U32_SIZE} \<union> set (cs @ rest)) - insert p visited) < card (({..<U32_SIZE} \<union> set (p # rest)) - visited)"
  using assms by (intro psubset_card_mono) auto

termination collect_leaf_pages_inner
proof (relation "measures [\<lambda>(read_page, stack, visited, leaves). card (({..<U32_SIZE} \<union> set stack) - visited),
    \<lambda>(read_page, stack, visited, leaves). length stack]", goal_cases)
  case (2 read_page stack visited leaves p rest)
  then have "({..<U32_SIZE} \<union> set rest) - visited = ({..<U32_SIZE} \<union> set stack) - visited" by auto
  then show ?case using 2 by simp
next
  case (5 read_page stack visited leaves p rest v h buf)
  have "card (({..<U32_SIZE} \<union> set (map (\<lambda>c. c - 1) (filter (\<lambda>c. 0 < c) (extract_interior_children buf h)) @ rest)) - insert p visited)
    < card (({..<U32_SIZE} \<union> set (p # rest)) - visited)"
    using 5 interior_children_bound by (intro stack_measure) (auto simp: less_imp_diff_less)
  then show ?case using 5 by simp
qed (use stack_measure [where cs = "[]"] in auto)

declare collect_leaf_pages_inner.simps [simp del]

definition collect_leaf_pages :: "page_reader \<Rightarrow> nat \<Rightarrow> nat list" where
  "collect_leaf_pages read_page root_page = collect_leaf_pages_inner read_page [root_page] {} []"

fun master_pages :: "(bytes \<Rightarrow> string) \<Rightarrow> page_reader \<Rightarrow> nat list \<Rightarrow> master_entry list io_result" where
  "master_pages lossy read_page [] = Inr []"
| "master_pages lossy read_page (p # ps) =
     bind_result
       (case read_page p of None \<Rightarrow> Inr []
        | Some buf \<Rightarrow>
            let hdr_off = header_offset p in
            if length buf < hdr_off + 8 then Inr []
            else if buf ! hdr_off \<noteq> 0x0d then Inr []
            else master_cells lossy buf (hdr_off + 8) [0..<be_u16_at buf (hdr_off + 3)])
       (\<lambda>es. bind_result (master_pages lossy read_page ps) (\<lambda>es'. Inr (es @ es')))"

definition parse_sqlite_master :: "(bytes \<Rightarrow> string) \<Rightarrow> page_reader \<Rightarrow> master_entry list io_result" where
  "parse_sqlite_master lossy read_page = master_pages lossy read_page (collect_leaf_pages read_page 0)"

subsection \<open>All B-trees\<close>

record btree_entry =
  bt_obj_type :: string
  bt_name :: string
  bt_root_page :: nat
  bt_pages :: "nat list"

record btree_walk_result =
  wr_btrees :: "nat \<rightharpoonup> btree_entry"
  wr_unowned_pages :: "nat list"

definition walk_entry :: "page_reader \<Rightarrow> nat \<Rightarrow> nat \<Rightarrow> master_entry
    \<Rightarrow> (nat \<rightharpoonup> btree_entry) \<times> nat set \<Rightarrow> (nat \<rightharpoonup> btree_entry) \<times> nat set" where
  "walk_entry read_page pc ps e acc =
     (case acc of (btrees, all_owned) \<Rightarrow>
        if me_root_page e = 0 then (btrees, all_owned)
        else let root = me_root_page e - 1; pages = walk_btree read_page pc ps root in
          (btrees(root \<mapsto> \<lparr>bt_obj_type = me_obj_type e, bt_name = me_name e, bt_root_page = root, bt_pages = pages\<rparr>),
           all_owned \<union> set pages))"

definition walk_all_btrees :: "(bytes \<Rightarrow> string) \<Rightarrow> nat \<Rightarrow> nat \<Rightarrow> page_reader \<Rightarrow> btree_walk_result io_result" where
  "walk_all_btrees lossy pc ps read_page =
     bind_result (parse_sqlite_master lossy read_page) (\<lambda>entries.
       let master = walk_btree read_page pc ps 0;
           start = ([0 \<mapsto> \<lparr>bt_obj_type = ''table'', bt_name = ''sqlite_master'', bt_root_page = 0, bt_pages = master\<rparr>], set master)
       in case fold (walk_entry read_page pc ps) entries start of (btrees, all_owned) \<Rightarrow>
         Inr \<lparr>wr_btrees = btrees, wr_unowned_pages = filter (\<lambda>p. p \<notin> all_owned) [0..<pc]\<rparr>)"


subsection \<open>The pages of a B-tree\<close>

text \<open>
  What the walk is after, in terms of the pointers it extracts: the pages reached from the root through child
  pointers, and the pages of the overflow chains that start at its leaf cells. What these are by the file format follows.
\<close>

definition page_children :: "page_reader \<Rightarrow> nat \<Rightarrow> nat set" where
  "page_children read_page p =
     (case read_page p of None \<Rightarrow> {}
      | Some buf \<Rightarrow> if header_offset p + 12 \<le> length buf \<and> is_interior_type (buf ! header_offset p)
          then {c. Suc c \<in> set (extract_interior_children buf (header_offset p))} else {})"

definition chain_heads :: "page_reader \<Rightarrow> nat \<Rightarrow> nat \<Rightarrow> nat set" where
  "chain_heads read_page ps p =
     (case read_page p of None \<Rightarrow> {}
      | Some buf \<Rightarrow> if header_offset p + 12 \<le> length buf \<and> is_leaf_type (buf ! header_offset p)
          then {c. Suc c \<in> set (extract_leaf_overflow_pages buf (header_offset p) ps (buf ! header_offset p))} else {})"

definition chain_next :: "page_reader \<Rightarrow> nat \<Rightarrow> nat option" where
  "chain_next read_page p =
     (case read_page p of None \<Rightarrow> None
      | Some buf \<Rightarrow> if 4 \<le> length buf \<and> be_u32_at buf 0 \<noteq> 0 then Some (be_u32_at buf 0 - 1) else None)"

definition live_page :: "page_reader \<Rightarrow> nat \<Rightarrow> nat \<Rightarrow> bool" where
  "live_page read_page pc p \<longleftrightarrow> p < pc \<and> read_page p \<noteq> None"

inductive tree_page :: "page_reader \<Rightarrow> nat \<Rightarrow> nat \<Rightarrow> bool" for read_page root where
  tree_root: "tree_page read_page root root"
| tree_child: "tree_page read_page root p \<Longrightarrow> c \<in> page_children read_page p \<Longrightarrow> tree_page read_page root c"

inductive overflow_page :: "page_reader \<Rightarrow> nat \<Rightarrow> nat \<Rightarrow> nat \<Rightarrow> nat \<Rightarrow> bool" for read_page pc ps root where
  chain_head: "tree_page read_page root p \<Longrightarrow> c \<in> chain_heads read_page ps p \<Longrightarrow> live_page read_page pc c
    \<Longrightarrow> overflow_page read_page pc ps root c"
| chain_step: "overflow_page read_page pc ps root p \<Longrightarrow> chain_next read_page p = Some c \<Longrightarrow> live_page read_page pc c
    \<Longrightarrow> overflow_page read_page pc ps root c"

lemma overflow_page_live: "overflow_page read_page pc ps root p \<Longrightarrow> live_page read_page pc p"
  by (erule overflow_page.cases) simp_all

definition chain_closed :: "page_reader \<Rightarrow> nat \<Rightarrow> nat list \<Rightarrow> nat set \<Rightarrow> bool" where
  "chain_closed read_page pc new visited \<longleftrightarrow>
     (\<forall>p \<in> set new. \<forall>c. chain_next read_page p = Some c \<longrightarrow> live_page read_page pc c \<longrightarrow> c \<in> visited)"

lemma follow_chain_stop: "\<not> (o1 \<notin> visited \<and> live_page read_page pc o1)
  \<Longrightarrow> follow_chain read_page pc o1 visited pages = (visited, pages)"
  by (subst follow_chain.simps) (auto simp: live_page_def split: option.splits)

lemma follow_chain_step: "o1 \<notin> visited \<Longrightarrow> live_page read_page pc o1
  \<Longrightarrow> follow_chain read_page pc o1 visited pages =
    (case chain_next read_page o1 of None \<Rightarrow> (insert o1 visited, pages @ [o1])
     | Some c \<Rightarrow> follow_chain read_page pc c (insert o1 visited) (pages @ [o1]))"
  by (subst follow_chain.simps) (auto simp: live_page_def chain_next_def split: option.splits)

text \<open>
  Following a chain adds new pages of the chain only, and all of them: \<open>P\<close> is any property
  that holds of the head and is handed on along the chain.
\<close>

lemma follow_chain_spec:
  assumes "follow_chain read_page pc o1 visited pages = (visited', pages')"
    and "live_page read_page pc o1 \<longrightarrow> P o1"
    and "\<forall>p c. P p \<longrightarrow> chain_next read_page p = Some c \<longrightarrow> live_page read_page pc c \<longrightarrow> P c"
  shows "\<exists>new. pages' = pages @ new \<and> visited' = visited \<union> set new \<and> distinct new \<and> set new \<inter> visited = {}
    \<and> (\<forall>p \<in> set new. P p \<and> live_page read_page pc p) \<and> (live_page read_page pc o1 \<longrightarrow> o1 \<in> visited')
    \<and> chain_closed read_page pc new visited'"
  using assms
proof (induction read_page pc o1 visited pages arbitrary: visited' pages' rule: follow_chain.induct)
  case (1 read_page pc o1 visited pages)
  show ?case
  proof (cases "o1 \<notin> visited \<and> live_page read_page pc o1")
    case False
    then show ?thesis using "1.prems"(1) follow_chain_stop [OF False, of pages] by (auto simp: chain_closed_def)
  next
    case True
    then have P: "P o1" using "1.prems"(2) by blast
    show ?thesis
    proof (cases "chain_next read_page o1")
      case None
      then show ?thesis using "1.prems"(1) True P
        by (intro exI [of _ "[o1]"]) (auto simp: follow_chain_step chain_closed_def)
    next
      case (Some c)
      then obtain buf where buf: "read_page o1 = Some buf" "4 \<le> length buf \<and> be_u32_at buf 0 \<noteq> 0" "c = be_u32_at buf 0 - 1"
        by (auto simp: chain_next_def split: option.splits if_splits)
      have run: "follow_chain read_page pc c (insert o1 visited) (pages @ [o1]) = (visited', pages')"
        using "1.prems"(1) True Some by (simp add: follow_chain_step)
      have Pc: "live_page read_page pc c \<longrightarrow> P c" using "1.prems"(3) P Some by blast
      have "o1 \<notin> visited \<and> o1 < pc" using True by (simp add: live_page_def)
      from "1.IH" [OF this buf(1,2), folded buf(3), OF run Pc "1.prems"(3)]
      obtain new where new: "pages' = (pages @ [o1]) @ new" "visited' = insert o1 visited \<union> set new" "distinct new"
        "set new \<inter> insert o1 visited = {}" "\<forall>p \<in> set new. P p \<and> live_page read_page pc p"
        "live_page read_page pc c \<longrightarrow> c \<in> visited'" "chain_closed read_page pc new visited'" by blast
      have "chain_closed read_page pc (o1 # new) visited'" using new(6,7) Some by (simp add: chain_closed_def)
      then show ?thesis using new(1-5) True P by (intro exI [of _ "o1 # new"]) auto
    qed
  qed
qed

lemma chain_closed_mono: "chain_closed read_page pc new visited \<Longrightarrow> visited \<subseteq> visited' \<Longrightarrow> chain_closed read_page pc new visited'"
  unfolding chain_closed_def by blast

lemma follow_chains_spec:
  assumes "follow_chains read_page pc os visited pages = (visited', pages')"
    and "\<forall>c. Suc c \<in> set os \<longrightarrow> live_page read_page pc c \<longrightarrow> P c"
    and "\<forall>p c. P p \<longrightarrow> chain_next read_page p = Some c \<longrightarrow> live_page read_page pc c \<longrightarrow> P c"
  shows "\<exists>new. pages' = pages @ new \<and> visited' = visited \<union> set new \<and> distinct new \<and> set new \<inter> visited = {}
    \<and> (\<forall>p \<in> set new. P p \<and> live_page read_page pc p)
    \<and> (\<forall>c. Suc c \<in> set os \<longrightarrow> live_page read_page pc c \<longrightarrow> c \<in> visited')
    \<and> chain_closed read_page pc new visited'"
  using assms
proof (induction os arbitrary: visited pages)
  case Nil
  then show ?case by (simp add: chain_closed_def)
next
  case (Cons o1 os)
  show ?case
  proof (cases o1)
    case 0
    then have "follow_chains read_page pc os visited pages = (visited', pages')" using Cons.prems(1) by simp
    from Cons.IH [OF this _ Cons.prems(3)] Cons.prems(2) show ?thesis using 0 by auto
  next
    case (Suc h)
    obtain v1 p1 where first: "follow_chain read_page pc h visited pages = (v1, p1)" by fastforce
    then have rest: "follow_chains read_page pc os v1 p1 = (visited', pages')" using Cons.prems(1) Suc by simp
    have "live_page read_page pc h \<longrightarrow> P h" using Cons.prems(2) Suc by simp
    from follow_chain_spec [OF first this Cons.prems(3)]
    obtain n1 where n1: "p1 = pages @ n1" "v1 = visited \<union> set n1" "distinct n1" "set n1 \<inter> visited = {}"
      "\<forall>p \<in> set n1. P p \<and> live_page read_page pc p" "live_page read_page pc h \<longrightarrow> h \<in> v1" "chain_closed read_page pc n1 v1"
      by blast
    have "\<forall>c. Suc c \<in> set os \<longrightarrow> live_page read_page pc c \<longrightarrow> P c" using Cons.prems(2) by simp
    from Cons.IH [OF rest this Cons.prems(3)]
    obtain n2 where n2: "pages' = p1 @ n2" "visited' = v1 \<union> set n2" "distinct n2" "set n2 \<inter> v1 = {}"
      "\<forall>p \<in> set n2. P p \<and> live_page read_page pc p"
      "\<forall>c. Suc c \<in> set os \<longrightarrow> live_page read_page pc c \<longrightarrow> c \<in> visited'" "chain_closed read_page pc n2 visited'"
      by blast
    have "chain_closed read_page pc (n1 @ n2) visited'"
      using n1(7) n2(2,7) by (auto simp: chain_closed_def)
    then show ?thesis using n1 n2 Suc by (intro exI [of _ "n1 @ n2"]) auto
  qed
qed


text \<open>What one visit does, in these terms: \<open>new_q\<close> are its new children and \<open>new_p\<close> its new overflow pages.\<close>

lemma visit_page_spec:
  assumes "visit_page read_page pc ps p queue visited pages = (queue', visited', pages')"
    and "read_page p \<noteq> None" and "tree_page read_page root p"
  shows "\<exists>new_q new_p. queue' = queue @ new_q \<and> pages' = pages @ p # new_p \<and> visited' = visited \<union> set new_q \<union> set new_p
    \<and> distinct (new_q @ new_p) \<and> set (new_q @ new_p) \<inter> visited = {}
    \<and> (\<forall>q \<in> set new_q. tree_page read_page root q) \<and> (\<forall>q \<in> set new_p. overflow_page read_page pc ps root q)
    \<and> page_children read_page p \<subseteq> visited' \<and> (\<forall>c \<in> chain_heads read_page ps p. live_page read_page pc c \<longrightarrow> c \<in> visited')
    \<and> chain_closed read_page pc new_p visited'"
proof -
  obtain buf where buf: "read_page p = Some buf" using assms(2) by blast
  let ?h = "header_offset p"
  let ?o = "extract_leaf_overflow_pages buf ?h ps (buf ! ?h)"
  consider (interior) "?h + 12 \<le> length buf" "is_interior_type (buf ! ?h)"
    | (leaf) "?h + 12 \<le> length buf" "is_leaf_type (buf ! ?h)" "\<not> is_interior_type (buf ! ?h)"
    | (other) "length buf < ?h + 12 \<or> \<not> is_interior_type (buf ! ?h) \<and> \<not> is_leaf_type (buf ! ?h)" by linarith
  then show ?thesis
  proof cases
    case interior
    then have run: "push_children (extract_interior_children buf ?h) queue visited = (queue', visited')" "pages' = pages @ [p]"
      using assms(1) buf by (auto simp: visit_page_def Let_def split: prod.splits)
    have kids: "page_children read_page p = {c. Suc c \<in> set (extract_interior_children buf ?h)}"
      "chain_heads read_page ps p = {}"
      using interior buf by (auto simp: page_children_def chain_heads_def is_interior_type_def is_leaf_type_def)
    from push_children_spec [OF run(1)] obtain new where new: "queue' = queue @ new" "visited' = visited \<union> set new"
      "distinct new" "set new \<inter> visited = {}" "\<forall>n \<in> set new. Suc n \<in> set (extract_interior_children buf ?h)"
      "\<forall>c \<in> set (extract_interior_children buf ?h). c \<noteq> 0 \<longrightarrow> c - 1 \<in> visited'" by blast
    have "page_children read_page p \<subseteq> visited'" using new(6) kids(1) by fastforce
    moreover have "\<forall>q \<in> set new. tree_page read_page root q" using new(5) kids(1) assms(3) by (auto intro: tree_child)
    ultimately show ?thesis using new(1-4) kids(2) run(2)
      by (intro exI [of _ new] exI [of _ "[]"]) (simp add: chain_closed_def)
  next
    case leaf
    then have run: "follow_chains read_page pc ?o visited (pages @ [p]) = (visited', pages')" "queue' = queue"
      using assms(1) buf by (auto simp: visit_page_def Let_def split: prod.splits)
    have kids: "page_children read_page p = {}" "chain_heads read_page ps p = {c. Suc c \<in> set ?o}"
      using leaf buf by (auto simp: page_children_def chain_heads_def)
    have heads: "\<forall>c. Suc c \<in> set ?o \<longrightarrow> live_page read_page pc c \<longrightarrow> overflow_page read_page pc ps root c"
      using kids(2) assms(3) by (auto intro: chain_head)
    have steps: "\<forall>p c. overflow_page read_page pc ps root p \<longrightarrow> chain_next read_page p = Some c \<longrightarrow> live_page read_page pc c
        \<longrightarrow> overflow_page read_page pc ps root c" by (auto intro: chain_step)
    from follow_chains_spec [OF run(1) heads steps] obtain new where "pages' = (pages @ [p]) @ new" "visited' = visited \<union> set new"
      "distinct new" "set new \<inter> visited = {}" "\<forall>p \<in> set new. overflow_page read_page pc ps root p"
      "\<forall>c. Suc c \<in> set ?o \<longrightarrow> live_page read_page pc c \<longrightarrow> c \<in> visited'" "chain_closed read_page pc new visited'" by blast
    then show ?thesis using kids run(2) by (intro exI [of _ "[]"] exI [of _ new]) simp
  next
    case other
    then have "page_children read_page p = {}" "chain_heads read_page ps p = {}"
      using buf by (auto simp: page_children_def chain_heads_def)
    moreover have "queue' = queue" "visited' = visited" "pages' = pages @ [p]"
      using assms(1) buf other by (auto simp: visit_page_def Let_def split: if_splits)
    ultimately show ?thesis by (intro exI [of _ "[]"]) (simp add: chain_closed_def)
  qed
qed

definition walk_inv :: "page_reader \<Rightarrow> nat \<Rightarrow> nat \<Rightarrow> nat \<Rightarrow> nat list \<Rightarrow> nat set \<Rightarrow> nat list \<Rightarrow> bool" where
  "walk_inv read_page pc ps root queue visited pages \<longleftrightarrow>
     distinct (pages @ queue) \<and> set (pages @ queue) \<subseteq> visited \<and> root \<in> visited
     \<and> (\<forall>p \<in> visited. p \<in> set (pages @ queue) \<or> read_page p = None)
     \<and> (\<forall>p \<in> set pages. read_page p \<noteq> None \<and> (tree_page read_page root p \<or> overflow_page read_page pc ps root p))
     \<and> (\<forall>p \<in> set queue. tree_page read_page root p)"

definition walk_closed :: "page_reader \<Rightarrow> nat \<Rightarrow> nat \<Rightarrow> nat \<Rightarrow> nat set \<Rightarrow> nat list \<Rightarrow> bool" where
  "walk_closed read_page pc ps root visited pages \<longleftrightarrow>
     (\<forall>p \<in> set pages. tree_page read_page root p \<longrightarrow> page_children read_page p \<subseteq> visited
        \<and> (\<forall>c \<in> chain_heads read_page ps p. live_page read_page pc c \<longrightarrow> c \<in> visited))
     \<and> (\<forall>p \<in> set pages. overflow_page read_page pc ps root p \<longrightarrow>
          (\<forall>c. chain_next read_page p = Some c \<longrightarrow> live_page read_page pc c \<longrightarrow> c \<in> visited))"

lemma visit_page_unreadable: "read_page p = None \<Longrightarrow> visit_page read_page pc ps p queue visited pages = (queue, visited, pages)"
  by (simp add: visit_page_def)

lemma visit_page_inv:
  assumes "visit_page read_page pc ps p rest visited pages = (queue', visited', pages')"
    and inv: "walk_inv read_page pc ps root (p # rest) visited pages"
  shows "walk_inv read_page pc ps root queue' visited' pages'"
proof (cases "read_page p = None")
  case True
  then show ?thesis using assms by (auto simp: visit_page_unreadable walk_inv_def)
next
  case False
  have "tree_page read_page root p" using inv by (simp add: walk_inv_def)
  from visit_page_spec [OF assms(1) False this] obtain new_q new_p where new: "queue' = rest @ new_q" "pages' = pages @ p # new_p"
    "visited' = visited \<union> set new_q \<union> set new_p" "distinct (new_q @ new_p)" "set (new_q @ new_p) \<inter> visited = {}"
    "\<forall>q \<in> set new_q. tree_page read_page root q" "\<forall>q \<in> set new_p. overflow_page read_page pc ps root q" by blast
  have "\<forall>q \<in> set new_p. read_page q \<noteq> None" using new(7) overflow_page_live by (auto simp: live_page_def)
  moreover have "distinct (pages' @ queue')" using inv new(1,2,4,5) by (auto simp: walk_inv_def)
  ultimately show ?thesis using inv new False unfolding walk_inv_def by auto
qed

lemma visit_page_closed:
  assumes "visit_page read_page pc ps p rest visited pages = (queue', visited', pages')"
    and inv: "walk_inv read_page pc ps root (p # rest) visited pages"
    and closed: "walk_closed read_page pc ps root visited pages"
    and apart: "\<And>q. tree_page read_page root q \<Longrightarrow> \<not> overflow_page read_page pc ps root q"
  shows "walk_closed read_page pc ps root visited' pages'"
proof (cases "read_page p = None")
  case True
  then show ?thesis using assms by (auto simp: visit_page_unreadable)
next
  case False
  have tree: "tree_page read_page root p" using inv by (simp add: walk_inv_def)
  from visit_page_spec [OF assms(1) False this] obtain new_q new_p where new: "pages' = pages @ p # new_p"
    "visited' = visited \<union> set new_q \<union> set new_p" "\<forall>q \<in> set new_p. overflow_page read_page pc ps root q"
    "page_children read_page p \<subseteq> visited'" "\<forall>c \<in> chain_heads read_page ps p. live_page read_page pc c \<longrightarrow> c \<in> visited'"
    "chain_closed read_page pc new_p visited'" by blast
  have sub: "visited \<subseteq> visited'" using new(2) by blast
  have no: "\<not> overflow_page read_page pc ps root p" "\<forall>q \<in> set new_p. \<not> tree_page read_page root q"
    using apart tree new(3) by blast+
  show ?thesis
    using closed sub no tree new(1,4-6) unfolding walk_closed_def chain_closed_def by (simp add: subset_eq) blast
qed


lemma walk_loop_inv:
  assumes "walk_inv read_page pc ps root queue visited pages"
  shows "\<exists>visited'. walk_inv read_page pc ps root [] visited' (walk_loop read_page pc ps queue visited pages)
    \<and> (walk_closed read_page pc ps root visited pages \<longrightarrow>
        (\<forall>q. tree_page read_page root q \<longrightarrow> \<not> overflow_page read_page pc ps root q) \<longrightarrow>
        walk_closed read_page pc ps root visited' (walk_loop read_page pc ps queue visited pages))"
  using assms
proof (induction read_page pc ps queue visited pages rule: walk_loop.induct)
  case (1 read_page pc ps queue visited pages)
  show ?case
  proof (cases queue)
    case Nil
    then show ?thesis using "1.prems" by (subst (1 2) walk_loop.simps) auto
  next
    case (Cons p rest)
    obtain q v ps' where visit: "visit_page read_page pc ps p rest visited pages = (q, v, ps')" by (metis prod_cases3)
    have loop: "walk_loop read_page pc ps queue visited pages = walk_loop read_page pc ps q v ps'"
      using Cons visit by (subst walk_loop.simps) simp
    have inv: "walk_inv read_page pc ps root (p # rest) visited pages" using "1.prems" Cons by simp
    show ?thesis
      using "1.IH" [OF Cons visit [symmetric] refl visit_page_inv [OF visit inv]] visit_page_closed [OF visit inv]
      unfolding loop by blast
  qed
qed

lemma walk_start_inv: "walk_inv read_page pc ps root [root] {root} []"
  by (simp add: walk_inv_def tree_root)

lemma walk_closed_all:
  assumes inv: "walk_inv read_page pc ps root [] visited pages" and closed: "walk_closed read_page pc ps root visited pages"
  shows "tree_page read_page root p \<Longrightarrow> p \<in> visited" "overflow_page read_page pc ps root p \<Longrightarrow> p \<in> visited"
proof -
  have in_pages: "q \<in> visited \<Longrightarrow> read_page q \<noteq> None \<Longrightarrow> q \<in> set pages" for q using inv by (auto simp: walk_inv_def)
  show tree: "tree_page read_page root p \<Longrightarrow> p \<in> visited" for p
  proof (induction rule: tree_page.induct)
    case tree_root
    then show ?case using inv by (simp add: walk_inv_def)
  next
    case (tree_child p c)
    then have "p \<in> set pages" using in_pages by (auto simp: page_children_def split: option.splits)
    then show ?case using tree_child closed by (auto simp: walk_closed_def)
  qed
  show "overflow_page read_page pc ps root p \<Longrightarrow> p \<in> visited" for p
  proof (induction rule: overflow_page.induct)
    case (chain_head p c)
    then have "p \<in> set pages" using in_pages tree by (auto simp: chain_heads_def split: option.splits)
    then show ?case using chain_head closed by (auto simp: walk_closed_def)
  next
    case (chain_step p c)
    then have "p \<in> set pages" using in_pages overflow_page_live by (auto simp: live_page_def)
    then show ?case using chain_step closed by (auto simp: walk_closed_def)
  qed
qed

lemma walk_btree_inv: "\<exists>visited. walk_inv read_page pc ps root [] visited (walk_btree read_page pc ps root)
    \<and> ((\<forall>q. tree_page read_page root q \<longrightarrow> \<not> overflow_page read_page pc ps root q) \<longrightarrow>
        walk_closed read_page pc ps root visited (walk_btree read_page pc ps root))"
  using walk_loop_inv [OF walk_start_inv, of read_page pc ps root]
  unfolding walk_inv_def walk_closed_def walk_btree_def by simp

subsection \<open>The file format\<close>

text \<open>
  The same pages by SQLite's file format, without the functions of the walker. A varint is the big-endian
  number of the low seven bits of its bytes up to the first byte below 128; a ninth byte counts with all its bits. At the end of the
  buffer it is cut.
\<close>

definition varint_size :: "bytes \<Rightarrow> nat" where
  "varint_size bs = min (min 9 (length (takeWhile (\<lambda>b. 128 \<le> unat b) bs) + 1)) (length bs)"

definition base128 :: "nat \<Rightarrow> bytes \<Rightarrow> nat" where
  "base128 v bs = foldl (\<lambda>v b. v * 128 + unat b mod 128) v bs"

definition varint_value :: "bytes \<Rightarrow> nat" where
  "varint_value bs = (if varint_size bs = 9 then base128 0 (take 8 bs) * 256 + unat (bs ! 8) else base128 0 (take (varint_size bs) bs))"

lemma walk_varint_loop_value:
  assumes "i \<le> 8" "unat v < 128 ^ i"
  defines "n \<equiv> \<lambda>bs :: bytes. min (min (9 - i) (length (takeWhile (\<lambda>b. 128 \<le> unat b) bs) + 1)) (length bs)"
  shows "unat (fst (walk_varint_loop i v bs)) = (if i + n bs = 9 then base128 (unat v) (take (8 - i) bs) * 256 + unat (bs ! (8 - i)) else base128 (unat v) (take (n bs) bs))
    \<and> snd (walk_varint_loop i v bs) = i + n bs"
  using assms(1,2) unfolding n_def
proof (induction bs arbitrary: i v)
  case (Cons b bs)
  show ?case
  proof (cases "i < 8")
    case True
    let ?v = "push_bit 7 v OR (ucast b AND 0x7f) :: 64 word"
    have uc: "ucast b AND 0x7f = (ucast (b AND 0x7f) :: 64 word)" by (simp add: unsigned_and_eq)
    have "(128::nat) ^ i \<le> 128 ^ 7" using True by (intro power_increasing) auto
    then have "unat v * 2 ^ 7 < 2 ^ 64" using Cons.prems(2) by simp
    then have v: "unat ?v = unat v * 128 + unat b mod 128" using unat_push_or [of v 7 "b AND 0x7f"] unfolding uc by (simp add: unat_and_7f)
    have "Suc (unat v) * 128 \<le> 128 ^ i * 128" using Cons.prems(2) by (intro mult_le_mono1) simp
    then have small: "unat ?v < 128 ^ (i + 1)" using v mod_less_divisor [of 128 "unat b"] by simp
    show ?thesis
    proof (cases "128 \<le> unat b")
      case hi: True
      have IH: "unat (fst (walk_varint_loop (i + 1) ?v bs)) =
          (if i + 1 + min (min (9 - (i + 1)) (length (takeWhile (\<lambda>b. 128 \<le> unat b) bs) + 1)) (length bs) = 9
           then base128 (unat ?v) (take (8 - (i + 1)) bs) * 256 + unat (bs ! (8 - (i + 1)))
           else base128 (unat ?v) (take (min (min (9 - (i + 1)) (length (takeWhile (\<lambda>b. 128 \<le> unat b) bs) + 1)) (length bs)) bs))
          \<and> snd (walk_varint_loop (i + 1) ?v bs) = i + 1 + min (min (9 - (i + 1)) (length (takeWhile (\<lambda>b. 128 \<le> unat b) bs) + 1)) (length bs)"
        using Cons.IH [of "i + 1" ?v] True small by simp
      have loop: "walk_varint_loop i v (b # bs) = walk_varint_loop (i + 1) ?v bs" using True hi by (simp add: Let_def and_80)
      have n: "min (min (9 - i) (length (takeWhile (\<lambda>b. 128 \<le> unat b) (b # bs)) + 1)) (length (b # bs))
          = Suc (min (min (9 - (i + 1)) (length (takeWhile (\<lambda>b. 128 \<le> unat b) bs) + 1)) (length bs))" using True hi by simp
      have e: "8 - i = Suc (8 - (i + 1))" using True by simp
      show ?thesis unfolding loop n using IH unfolding e by (simp add: base128_def v)
    next
      case False
      then show ?thesis using True by (auto simp: Let_def and_80 base128_def v [unfolded uc] uc v)
    qed
  next
    case False
    then have "i = 8" using Cons.prems(1) by simp
    moreover have "unat (push_bit 8 v OR ucast b) = unat v * 2 ^ 8 + unat b"
      using Cons.prems(2) \<open>i = 8\<close> unsigned_less [of b] by (intro unat_push_or) simp_all
    ultimately show ?thesis by (simp add: base128_def)
  qed
qed (simp add: base128_def)

lemma walk_varint_value: "unat (fst (walk_varint bs)) = varint_value bs" "snd (walk_varint bs) = varint_size bs"
  using walk_varint_loop_value [of 0 0 bs] by (simp_all add: walk_varint_def varint_value_def varint_size_def base128_def)

text \<open>The children of an interior page: its right-most pointer and the first four bytes of every cell that lies in the page.\<close>

definition child_pointer :: "bytes \<Rightarrow> nat \<Rightarrow> nat \<Rightarrow> bool" where
  "child_pointer buf h c \<longleftrightarrow> c = be_u32_at buf (h + 8)
     \<or> (\<exists>i < be_u16_at buf (h + 3). h + 12 + 2 * i + 2 \<le> length buf
          \<and> be_u16_at buf (h + 12 + 2 * i) + 4 \<le> length buf \<and> c = be_u32_at buf (be_u16_at buf (h + 12 + 2 * i)))"

text \<open>
  The part of a payload of \<open>payload\<close> bytes that a leaf cell holds, on pages of \<open>usable\<close> bytes, and the overflow
  pointer behind it: the payload size is the first varint of the cell, the row id of a table cell the second.
\<close>

definition payload_max :: "nat \<Rightarrow> bool \<Rightarrow> nat" where
  "payload_max usable table = (if table then usable - 35 else (usable - 12) * 64 div 255 - 23)"

definition payload_min :: "nat \<Rightarrow> nat" where
  "payload_min usable = (usable - 12) * 32 div 255 - 23"

definition payload_local :: "nat \<Rightarrow> bool \<Rightarrow> nat \<Rightarrow> nat" where
  "payload_local usable table payload =
     (let k = payload_min usable + (payload - payload_min usable) mod (usable - 4) in if k \<le> payload_max usable table then k else payload_min usable)"

definition overflow_pointer :: "nat \<Rightarrow> bool \<Rightarrow> bytes \<Rightarrow> nat \<Rightarrow> nat \<Rightarrow> bool" where
  "overflow_pointer usable table buf cell c \<longleftrightarrow>
     (let payload = varint_value (drop cell buf);
          start = cell + varint_size (drop cell buf);
          start = (if table then start + varint_size (drop start buf) else start);
          off = start + payload_local usable table payload
      in payload_max usable table < payload \<and> off + 4 \<le> length buf \<and> c = be_u32_at buf off)"

definition overflow_start :: "nat \<Rightarrow> bytes \<Rightarrow> nat \<Rightarrow> nat \<Rightarrow> bool" where
  "overflow_start usable buf h c \<longleftrightarrow> (\<exists>i < be_u16_at buf (h + 3). h + 8 + 2 * i + 2 \<le> length buf
     \<and> be_u16_at buf (h + 8 + 2 * i) < length buf \<and> overflow_pointer usable (buf ! h = 0x0d) buf (be_u16_at buf (h + 8 + 2 * i)) c)"

definition interior_page :: "page_reader \<Rightarrow> nat \<Rightarrow> bytes \<Rightarrow> bool" where
  "interior_page read_page p buf \<longleftrightarrow> read_page p = Some buf \<and> header_offset p + 12 \<le> length buf \<and> (buf ! header_offset p = 0x02 \<or> buf ! header_offset p = 0x05)"

definition leaf_page :: "page_reader \<Rightarrow> nat \<Rightarrow> bytes \<Rightarrow> bool" where
  "leaf_page read_page p buf \<longleftrightarrow> read_page p = Some buf \<and> header_offset p + 12 \<le> length buf \<and> (buf ! header_offset p = 0x0a \<or> buf ! header_offset p = 0x0d)"

text \<open>Page numbers in a file count from one, those of the reader from zero.\<close>

inductive btree_page :: "page_reader \<Rightarrow> nat \<Rightarrow> nat \<Rightarrow> bool" for read_page root where
  root: "btree_page read_page root root"
| child: "btree_page read_page root p \<Longrightarrow> interior_page read_page p buf \<Longrightarrow> child_pointer buf (header_offset p) (Suc c) \<Longrightarrow> btree_page read_page root c"

inductive btree_overflow :: "page_reader \<Rightarrow> nat \<Rightarrow> nat \<Rightarrow> nat \<Rightarrow> nat \<Rightarrow> bool" for read_page pc ps root where
  first: "btree_page read_page root p \<Longrightarrow> leaf_page read_page p buf \<Longrightarrow> overflow_start ps buf (header_offset p) (Suc c)
    \<Longrightarrow> c < pc \<Longrightarrow> read_page c \<noteq> None \<Longrightarrow> btree_overflow read_page pc ps root c"
| chained: "btree_overflow read_page pc ps root p \<Longrightarrow> read_page p = Some buf \<Longrightarrow> 4 \<le> length buf \<Longrightarrow> be_u32_at buf 0 = Suc c
    \<Longrightarrow> c < pc \<Longrightarrow> read_page c \<noteq> None \<Longrightarrow> btree_overflow read_page pc ps root c"

subsection \<open>The walker follows the file format\<close>

lemma interior_cells_set:
  "sorted_wrt (<) is \<Longrightarrow> set (interior_cells buf st is) = {be_u32_at buf (be_u16_at buf (st + i * 2)) | i. i \<in> set is
     \<and> st + i * 2 + 2 \<le> length buf \<and> be_u16_at buf (st + i * 2) + 4 \<le> length buf}"
proof (induction "is")
  case (Cons i js)
  show ?case
  proof (cases "length buf < st + i * 2 + 2")
    case True
    then have "\<not> st + j * 2 + 2 \<le> length buf" if "j \<in> set (i # js)" for j using that Cons.prems by auto
    then show ?thesis using True by (auto simp: Let_def)
  next
    case False
    then show ?thesis using Cons by (auto simp: Let_def)
  qed
qed simp

lemma extract_children_iff:
  assumes "h + 12 \<le> length buf"
  shows "c \<in> set (extract_interior_children buf h) \<longleftrightarrow> child_pointer buf h c"
proof -
  let ?n = "min (be_u16_at buf (h + 3)) ((length buf - (h + 12)) div 2)"
  have "i < ?n \<and> h + 12 + i * 2 + 2 \<le> length buf \<longleftrightarrow> i < be_u16_at buf (h + 3) \<and> h + 12 + 2 * i + 2 \<le> length buf" for i by auto
  moreover have "sorted_wrt (<) [0..<?n]" by simp
  ultimately show ?thesis using assms interior_cells_set [of "[0..<?n]" buf "h + 12"]
    by (auto simp: extract_interior_children_def child_pointer_def Let_def mult.commute [of _ 2])
qed

lemma leaf_cells_set:
  "sorted_wrt (<) is \<Longrightarrow> c \<in> set (leaf_cells buf u t st is) \<longleftrightarrow> (\<exists>i \<in> set is. st + i * 2 + 2 \<le> length buf
     \<and> be_u16_at buf (st + i * 2) < length buf \<and> c \<in> set (leaf_cell_overflow buf u t (be_u16_at buf (st + i * 2))))"
proof (induction "is")
  case (Cons i js)
  show ?case
  proof (cases "length buf < st + i * 2 + 2")
    case True
    then have "\<not> st + j * 2 + 2 \<le> length buf" if "j \<in> set (i # js)" for j using that Cons.prems by auto
    then show ?thesis using True by (auto simp: Let_def)
  next
    case False
    then show ?thesis using Cons by (auto simp: Let_def)
  qed
qed simp

text \<open>On SQLite's page sizes the differences of the walker do not wrap.\<close>

lemma payload_limits:
  assumes "512 \<le> ps" "ps \<le> 65536"
  shows "max_local ps t = payload_max ps t" "min_local ps = payload_min ps" "payload_min ps \<le> payload_max ps t" "payload_max ps t \<le> 65536"
proof -
  have m: "(ps - 12) * 32 div 255 \<ge> 23" "(ps - 12) * 64 div 255 \<ge> 23" "(ps - 12) * 64 < U64_SIZE" "(ps - 12) * 32 < U64_SIZE" using assms by auto
  have le: "(ps - 12) * 32 div 255 \<le> (ps - 12) * 64 div 255" "(ps - 12) * 32 div 255 - 23 \<le> ps - 35" "(ps - 12) * 64 div 255 \<le> 65536"
    using assms by (auto intro: div_le_mono)
  have w: "wrapping_sub ps 12 = ps - 12" "wrapping_sub ps 35 = ps - 35" using assms by (simp_all add: wrapping_sub_le)
  have d: "(ps - 12) * 64 div 255 < U64_SIZE" "(ps - 12) * 32 div 255 < U64_SIZE" using assms by auto
  show "max_local ps t = payload_max ps t" "min_local ps = payload_min ps"
    using m w d by (simp_all add: max_local_def payload_max_def min_local_def payload_min_def wrapping_sub_le)
  show "payload_min ps \<le> payload_max ps t" unfolding payload_min_def payload_max_def using le(2) diff_le_mono [OF le(1)] by simp
  show "payload_max ps t \<le> 65536" unfolding payload_max_def using order_trans [OF diff_le_self le(3)] order_trans [OF diff_le_self assms(2)] by simp
qed

lemma local_size_format:
  assumes "512 \<le> ps" "ps \<le> 65536" "payload_max ps t < n" "n < 2 ^ 64"
  shows "local_size ps t n = payload_local ps t n" "payload_local ps t n \<le> 65536"
proof -
  note l = payload_limits [OF assms(1,2)]
  have k: "wrapping_sub n (payload_min ps) = n - payload_min ps" "wrapping_sub ps 4 = ps - 4"
    using l(3) [of t] assms by (simp_all add: wrapping_sub_le)
  have "(n - payload_min ps) mod (ps - 4) < ps - 4" using assms(1) by (intro mod_less_divisor) simp
  then have "payload_min ps + (n - payload_min ps) mod (ps - 4) < U64_SIZE" using l(3,4) [of t] assms(2) by simp
  then show "local_size ps t n = payload_local ps t n" using assms(3) k l(1,2) by (simp add: local_size_def payload_local_def Let_def)
  show "payload_local ps t n \<le> 65536" using l(3,4) [of t] by (simp add: payload_local_def Let_def)
qed

lemma cell_overflow_iff:
  assumes "512 \<le> ps" "ps \<le> 65536" "cell < 65536"
  shows "Suc c \<in> set (leaf_cell_overflow buf ps t cell) \<longleftrightarrow> overflow_pointer ps t buf cell (Suc c)"
proof -
  let ?n = "varint_value (drop cell buf)" and ?first = "cell + varint_size (drop cell buf)"
  let ?start = "if t then ?first + varint_size (drop ?first buf) else ?first"
  have n: "?n < 2 ^ 64" unfolding walk_varint_value(1) [symmetric] by (rule order_less_le_trans [OF unsigned_less]) simp
  have "varint_size bs \<le> 9" for bs by (simp add: varint_size_def)
  from this [of "drop cell buf"] this [of "drop ?first buf"] have s: "?start \<le> cell + 18" by simp
  have run: "leaf_cell_overflow buf ps t cell = (if payload_max ps t < ?n then
      let off = (?start + local_size ps t ?n) mod U64_SIZE in if off + 4 \<le> length buf \<and> be_u32_at buf off \<noteq> 0 then [be_u32_at buf off] else [] else [])"
    unfolding leaf_cell_overflow_def case_prod_beta Let_def walk_varint_value payload_limits(1) [OF assms(1,2)] by (rule refl)
  show ?thesis
  proof (cases "payload_max ps t < ?n")
    case True
    note lo = local_size_format [OF assms(1,2) True n]
    define off where "off = ?start + payload_local ps t ?n"
    have "off < U64_SIZE" using s lo(2) assms(3) by (simp add: off_def)
    then have "leaf_cell_overflow buf ps t cell = (if off + 4 \<le> length buf \<and> be_u32_at buf off \<noteq> 0 then [be_u32_at buf off] else [])"
      unfolding run lo(1) off_def [symmetric] Let_def using True by (simp only: mod_less if_True)
    moreover have "overflow_pointer ps t buf cell (Suc c) \<longleftrightarrow> off + 4 \<le> length buf \<and> Suc c = be_u32_at buf off"
      unfolding overflow_pointer_def Let_def off_def [symmetric] using True by blast
    ultimately show ?thesis by auto
  qed (simp add: run overflow_pointer_def Let_def)
qed

lemma be_u16_bound: "be_u16_at buf off < 65536"
proof -
  have "be_val (bslice off 2 buf) < 256 ^ length (bslice off 2 buf)" by (rule be_val_bound)
  also have "\<dots> \<le> 256 ^ 2" by (intro power_increasing) (simp_all add: bslice_def)
  finally show ?thesis by (simp add: be_u16_at_def)
qed

lemma extract_overflow_iff:
  assumes "512 \<le> ps" "ps \<le> 65536" "h + 12 \<le> length buf"
  shows "Suc c \<in> set (extract_leaf_overflow_pages buf h ps (buf ! h)) \<longleftrightarrow> overflow_start ps buf h (Suc c)"
  using assms(3) leaf_cells_set [of "[0..<be_u16_at buf (h + 3)]" "Suc c" buf ps "buf ! h = 0x0d" "h + 8"] cell_overflow_iff [OF assms(1,2) be_u16_bound]
  by (auto simp: extract_leaf_overflow_pages_def overflow_start_def mult.commute [of _ 2])

lemma page_children_format: "c \<in> page_children read_page p \<longleftrightarrow> (\<exists>buf. interior_page read_page p buf \<and> child_pointer buf (header_offset p) (Suc c))"
  using extract_children_iff by (auto simp: page_children_def interior_page_def is_interior_type_def split: option.splits)

lemma chain_heads_format:
  "512 \<le> ps \<Longrightarrow> ps \<le> 65536 \<Longrightarrow> c \<in> chain_heads read_page ps p \<longleftrightarrow> (\<exists>buf. leaf_page read_page p buf \<and> overflow_start ps buf (header_offset p) (Suc c))"
  using extract_overflow_iff by (auto simp: chain_heads_def leaf_page_def is_leaf_type_def split: option.splits)

lemma tree_page_format: "tree_page read_page root p = btree_page read_page root p"
proof
  show "tree_page read_page root p \<Longrightarrow> btree_page read_page root p"
    by (induction rule: tree_page.induct) (auto simp: page_children_format intro: btree_page.intros)
  show "btree_page read_page root p \<Longrightarrow> tree_page read_page root p"
  proof (induction rule: btree_page.induct)
    case (child p buf c)
    then have "c \<in> page_children read_page p" using page_children_format by blast
    then show ?case using child tree_child by blast
  qed (rule tree_root)
qed

lemma chain_next_format: "chain_next read_page p = Some c \<longleftrightarrow> (\<exists>buf. read_page p = Some buf \<and> 4 \<le> length buf \<and> be_u32_at buf 0 = Suc c)"
  by (cases "read_page p") (auto simp: chain_next_def)

lemma overflow_page_format:
  assumes "512 \<le> ps" "ps \<le> 65536"
  shows "overflow_page read_page pc ps root p = btree_overflow read_page pc ps root p"
proof
  show "overflow_page read_page pc ps root p \<Longrightarrow> btree_overflow read_page pc ps root p"
    by (induction rule: overflow_page.induct)
      (auto simp: chain_heads_format [OF assms] chain_next_format live_page_def tree_page_format intro: btree_overflow.intros)
  show "btree_overflow read_page pc ps root p \<Longrightarrow> overflow_page read_page pc ps root p"
  proof (induction rule: btree_overflow.induct)
    case (first p buf c)
    then have "c \<in> chain_heads read_page ps p" using chain_heads_format [OF assms] by blast
    then show ?case using first chain_head [of read_page root p c ps pc] by (simp add: tree_page_format live_page_def)
  next
    case (chained p buf c)
    then have "chain_next read_page p = Some c" using chain_next_format by blast
    then show ?case using chained chain_step [of read_page pc ps root p c] by (simp add: live_page_def)
  qed
qed

text \<open>
  C19: The walk of one B-tree ends on any image, hostile or not, and returns page numbers in
  increasing order without repeats, each readable and, by SQLite's file format (pages of 512 to 65536 bytes, no reserved
  bytes), reached from the root through the child pointers of interior pages or along an overflow chain that starts at a leaf cell. When no page is
  at once such a tree page and such an overflow page, as in every well-formed database, it returns all of
  these. Cells of interior index pages can have overflow chains too; the walk does not follow them, and they are not among the pages this
  is about, although the module promises all overflow pages (\<open>src/src/btree_walker.rs:4\<close>).
\<close>

theorem walk_btree_exact:
  assumes "512 \<le> ps" "ps \<le> 65536"
  shows "sorted (walk_btree read_page pc ps root) \<and> distinct (walk_btree read_page pc ps root)
    \<and> (\<forall>p \<in> set (walk_btree read_page pc ps root).
        read_page p \<noteq> None \<and> (btree_page read_page root p \<or> btree_overflow read_page pc ps root p))
    \<and> ((\<forall>p. btree_page read_page root p \<longrightarrow> \<not> btree_overflow read_page pc ps root p) \<longrightarrow>
        set (walk_btree read_page pc ps root)
          = {p. read_page p \<noteq> None \<and> btree_page read_page root p} \<union> {p. btree_overflow read_page pc ps root p})"
proof -
  obtain visited where v: "walk_inv read_page pc ps root [] visited (walk_btree read_page pc ps root)"
    "(\<forall>q. tree_page read_page root q \<longrightarrow> \<not> overflow_page read_page pc ps root q) \<longrightarrow>
        walk_closed read_page pc ps root visited (walk_btree read_page pc ps root)"
    using walk_btree_inv by blast
  have in_pages: "q \<in> visited \<Longrightarrow> read_page q \<noteq> None \<Longrightarrow> q \<in> set (walk_btree read_page pc ps root)" for q
    using v(1) by (auto simp: walk_inv_def)
  have sound: "distinct (walk_btree read_page pc ps root)"
    "\<forall>p \<in> set (walk_btree read_page pc ps root). read_page p \<noteq> None \<and> (tree_page read_page root p \<or> overflow_page read_page pc ps root p)"
    using v(1) by (simp_all add: walk_inv_def)
  have exact: "set (walk_btree read_page pc ps root)
      = {p. read_page p \<noteq> None \<and> tree_page read_page root p} \<union> {p. overflow_page read_page pc ps root p}"
    if "\<forall>p. tree_page read_page root p \<longrightarrow> \<not> overflow_page read_page pc ps root p"
  proof -
    note all = walk_closed_all [OF v(1) mp [OF v(2) that]]
    have "\<And>p. overflow_page read_page pc ps root p \<Longrightarrow> read_page p \<noteq> None"
      using overflow_page_live by (simp add: live_page_def)
    then have "p \<in> set (walk_btree read_page pc ps root)
        \<longleftrightarrow> read_page p \<noteq> None \<and> tree_page read_page root p \<or> overflow_page read_page pc ps root p" for p
      using sound(2) all [of p] in_pages [of p] by meson
    then show ?thesis by blast
  qed
  have "sorted (walk_btree read_page pc ps root)" by (simp add: walk_btree_def)
  then show ?thesis unfolding tree_page_format [symmetric] overflow_page_format [OF assms, symmetric] using sound exact by (intro conjI impI)
qed


definition sample_interior :: bytes where
  "sample_interior = [0x05, 0, 0, 0, 0, 0, 0, 0, 0, 0, 0, 3]"

definition sample_leaf :: bytes where
  "sample_leaf = [0x0d, 0, 0, 0, 1, 0, 0, 0, 0, 12, 0, 0, 0x83, 0x74, 1] @ replicate 39 0 @ [0, 0, 0, 4]"

definition sample_reader :: page_reader where
  "sample_reader p = (if p = 4 then Some sample_interior else if p = 2 then Some sample_leaf
     else if p = 3 then Some [0, 0, 0, 0] else None)"

lemma sample_children: "extract_interior_children sample_interior 0 = [3]"
  by (simp add: extract_interior_children_def sample_interior_def be_u16_at_def be_u32_at_def bslice_def be_val_def Let_def)

lemma sample_sizes: "max_local 512 True = 477" "min_local 512 = 39" "local_size 512 True 500 = 39"
  by (simp_all add: max_local_def min_local_def local_size_def wrapping_sub_def)

lemma sample_varint: "walk_varint (drop 12 sample_leaf) = (500, 2)" "walk_varint (drop 14 sample_leaf) = (1, 1)"
  by (simp_all add: walk_varint_def sample_leaf_def)

lemma sample_pointers: "be_u16_at sample_leaf 3 = 1" "be_u16_at sample_leaf 8 = 12" "be_u32_at sample_leaf 54 = 4"
    "length sample_leaf = 58"
  by (simp_all add: be_u16_at_def be_u32_at_def sample_leaf_def bslice_def be_val_def)

lemma sample_cell: "leaf_cell_overflow sample_leaf 512 True 12 = [4]"
  by (simp add: leaf_cell_overflow_def sample_varint sample_sizes sample_pointers Let_def)

lemma sample_overflow: "extract_leaf_overflow_pages sample_leaf 0 512 0x0d = [4]"
  by (simp add: extract_leaf_overflow_pages_def sample_pointers sample_cell)

lemma sample_heads: "length sample_interior = 12" "sample_interior ! 0 = 0x05" "sample_leaf ! 0 = 0x0d" "be_u32_at [0, 0, 0, 0] 0 = 0"
  by (simp_all add: sample_interior_def sample_leaf_def be_u32_at_def bslice_def be_val_def)

lemma sample_reader_pages:
  "page_children sample_reader p = (if p = 4 then {2} else {})"
  "chain_heads sample_reader 512 p = (if p = 2 then {3} else {})"
  "chain_next sample_reader 3 = None"
  by (auto simp: page_children_def chain_heads_def chain_next_def sample_reader_def header_offset_def sample_heads
      sample_children sample_overflow sample_pointers is_interior_type_def is_leaf_type_def)

lemma sample_tree: "tree_page sample_reader 4 p \<longleftrightarrow> p \<in> {4, 2}"
proof
  show "tree_page sample_reader 4 p \<Longrightarrow> p \<in> {4, 2}"
    by (induction rule: tree_page.induct) (auto simp: sample_reader_pages split: if_splits)
  show "p \<in> {4, 2} \<Longrightarrow> tree_page sample_reader 4 p"
    using tree_child [of sample_reader 4 4 2] by (auto simp: sample_reader_pages intro: tree_root)
qed

lemma sample_overflow_page: "overflow_page sample_reader 5 512 4 p \<longleftrightarrow> p = 3"
proof
  show "overflow_page sample_reader 5 512 4 p \<Longrightarrow> p = 3"
    by (induction rule: overflow_page.induct) (auto simp: sample_reader_pages split: if_splits)
  show "p = 3 \<Longrightarrow> overflow_page sample_reader 5 512 4 p"
    using chain_head [of sample_reader 4 2 3 512 5]
    by (simp add: sample_tree sample_reader_pages live_page_def sample_reader_def)
qed

theorem walk_btree_exact_witness: "walk_btree sample_reader 5 512 4 = [2, 3, 4]"
proof -
  have tree: "btree_page sample_reader 4 p \<longleftrightarrow> p \<in> {4, 2}" for p using sample_tree by (simp add: tree_page_format)
  have chain: "btree_overflow sample_reader 5 512 4 p \<longleftrightarrow> p = 3" for p using sample_overflow_page overflow_page_format [of 512 sample_reader 5 4 p] by simp
  have size: "512 \<le> (512::nat)" "512 \<le> (65536::nat)" by simp_all
  note exact = walk_btree_exact [OF size, of sample_reader 5 4, unfolded tree chain]
  have "set (walk_btree sample_reader 5 512 4) = {p. sample_reader p \<noteq> None \<and> p \<in> {4, 2}} \<union> {p. p = 3}"
    by (rule exact [THEN conjunct2, THEN conjunct2, THEN conjunct2, THEN mp]) simp
  also have "\<dots> = set [2, 3, 4]" by (auto simp: sample_reader_def)
  finally show ?thesis using exact [THEN conjunct1] exact [THEN conjunct2, THEN conjunct1]
    by (intro sorted_distinct_set_unique) simp_all
qed

subsection \<open>All B-trees of an image\<close>

lemma walk_entries_spec:
  assumes "fold (walk_entry read_page pc ps) es (btrees, owned) = (btrees', owned')"
    and "\<And>r b. btrees r = Some b \<Longrightarrow> bt_root_page b = r \<and> bt_pages b = walk_btree read_page pc ps r"
    and "owned = (\<Union>r \<in> dom btrees. set (walk_btree read_page pc ps r))"
  shows "dom btrees' = dom btrees \<union> {r. \<exists>e \<in> set es. me_root_page e = Suc r}
    \<and> (\<forall>r b. btrees' r = Some b \<longrightarrow> bt_root_page b = r \<and> bt_pages b = walk_btree read_page pc ps r)
    \<and> owned' = (\<Union>r \<in> dom btrees'. set (walk_btree read_page pc ps r))"
  using assms
proof (induction es arbitrary: btrees owned)
  case (Cons e es)
  obtain b1 o1 where one: "walk_entry read_page pc ps e (btrees, owned) = (b1, o1)" by fastforce
  then have rest: "fold (walk_entry read_page pc ps) es (b1, o1) = (btrees', owned')" using Cons.prems(1) by simp
  have b1: "\<And>r b. b1 r = Some b \<Longrightarrow> bt_root_page b = r \<and> bt_pages b = walk_btree read_page pc ps r"
    using one Cons.prems(2) by (auto simp: walk_entry_def Let_def split: if_splits)
  have dom: "dom b1 = dom btrees \<union> {r. me_root_page e = Suc r}" and "o1 = owned \<union> (\<Union>r \<in> {r. me_root_page e = Suc r}. set (walk_btree read_page pc ps r))"
    using one by (cases "me_root_page e"; auto simp: walk_entry_def Let_def)+
  then have o1: "o1 = (\<Union>r \<in> dom b1. set (walk_btree read_page pc ps r))" using Cons.prems(3) by (simp only: UN_Un)
  show ?case using Cons.IH [OF rest b1 o1] dom by auto
qed auto

text \<open>The walker's varint reader is the page readers' one, totalised.\<close>

lemma walk_varint_loop_agrees: "varint_loop i v bs = Some r \<Longrightarrow> walk_varint_loop i v bs = r"
proof (induction i v bs rule: varint_loop.induct)
  case (2 i val b tail)
  have "ucast (b AND 0x7f) = (ucast b AND 0x7f :: 64 word)" by (simp add: unsigned_and_eq)
  then show ?case using 2 by (auto simp: Let_def split: if_splits)
qed simp

lemma walk_varint_encode:
  assumes "n < 2 ^ 64"
  shows "walk_varint (encode_varint n @ rest) = (word_of_nat n, length (encode_varint n))"
  using walk_varint_loop_agrees [OF varint_encode [OF assms]] by (simp add: walk_varint_def encode_varint_def)

lemma encode_varint_pos: "0 < length (encode_varint n)"
  by (simp add: encode_varint_def)

lemma read_serial_types_encode:
  assumes "drop pos buf = concat (map encode_varint ss) @ rest" and "\<forall>n \<in> set ss. n < 2 ^ 64"
    and "hend = pos + length (concat (map encode_varint ss))"
  shows "read_serial_types (length ss) buf hend pos = map word_of_nat ss"
  using assms
proof (induction ss arbitrary: pos)
  case (Cons n ss)
  have drop: "drop pos buf = encode_varint n @ concat (map encode_varint ss) @ rest" using Cons.prems(1) by simp
  have "drop (pos + length (encode_varint n)) buf = drop (length (encode_varint n)) (drop pos buf)" by (simp add: add.commute)
  then have next1: "drop (pos + length (encode_varint n)) buf = concat (map encode_varint ss) @ rest" using drop by simp
  have "pos < length buf" using drop encode_varint_pos [of n] by (cases "pos < length buf") auto
  moreover have "pos < hend" using Cons.prems(3) encode_varint_pos [of n] by simp
  ultimately show ?case
    using drop Cons.IH [OF next1] Cons.prems(2,3) by (simp add: walk_varint_encode)
qed simp

text \<open>A schema row as SQLite stores it: five serial types, then the text columns and the root page.\<close>

definition text_serial :: "bytes \<Rightarrow> nat" where
  "text_serial t = 13 + 2 * length t"

definition schema_cell :: "nat \<Rightarrow> nat \<Rightarrow> nat \<Rightarrow> bytes \<Rightarrow> bytes \<Rightarrow> bytes \<Rightarrow> nat \<Rightarrow> bytes \<Rightarrow> bytes \<Rightarrow> bytes" where
  "schema_cell plen rowid hlen ty nm tbl rserial root sql =
     encode_varint plen @ encode_varint rowid @ encode_varint hlen
     @ concat (map encode_varint [text_serial ty, text_serial nm, text_serial tbl, rserial, text_serial sql])
     @ ty @ nm @ tbl @ root @ sql"

definition header_len_ok :: "nat \<Rightarrow> bytes \<Rightarrow> bytes \<Rightarrow> bytes \<Rightarrow> nat \<Rightarrow> bytes \<Rightarrow> bool" where
  "header_len_ok hlen ty nm tbl rserial sql \<longleftrightarrow>
     hlen = length (encode_varint hlen)
       + length (concat (map encode_varint [text_serial ty, text_serial nm, text_serial tbl, rserial, text_serial sql]))"

lemma unat_text_serial: "text_serial t < 2 ^ 64 \<Longrightarrow> unat (word_of_nat (text_serial t) :: 64 word) = text_serial t"
  by (simp add: unat_of_nat)

lemma read_column_text_encode:
  assumes "drop pos buf = t @ rest" "pos \<le> length buf" "length buf < 2 ^ 62"
  shows "read_column_text lossy buf pos (word_of_nat (text_serial t)) = Inr (Some (lossy t, length t))"
proof -
  have len: "length buf = pos + length (t @ rest)" using assms(1,2) by (metis le_add_diff_inverse length_drop)
  then have ser: "unat (word_of_nat (text_serial t) :: 64 word) = text_serial t"
    using assms(3) by (intro unat_text_serial) (simp add: text_serial_def)
  have "(pos + length t) mod U64_SIZE = pos + length t" using len assms(3) by simp
  moreover have "\<not> text_serial t < 13" "text_serial t mod 2 = 1" "(text_serial t - 13) div 2 = length t"
    by (simp_all add: text_serial_def mod_Suc)
  ultimately show ?thesis
    using len assms(1) ser by (simp add: read_column_text_def Let_def bslice_def)
qed

lemma unat_of_sint_nonneg:
  assumes "sint (w :: 64 word) = int n"
  shows "unat w = n"
proof -
  have "uint w < 2 ^ 63" using sint_large [of w] uint_bounded [of w] assms by (cases "uint w < 2 ^ 63") auto
  then have "uint w = int n" using sint_small [of w] assms by simp
  then show ?thesis by (metis nat_int of_nat_unat)
qed

lemma read_column_int_encode:
  assumes "drop pos buf = root @ rest" "pos < length buf" "length buf < 2 ^ 62"
    and "int_width st = Some (length root)" and "be_val root < 2 ^ (8 * length root - 1)"
  shows "map_sum id (map_option unat) (read_column_int buf pos st) = Inr (Some (be_val root))"
proof -
  have w: "1 \<le> length root" "length root \<le> 8" "unat st \<notin> {0, 8, 9}"
    using assms(4) by (auto simp: int_width_def Let_def split: if_splits)
  have len: "length buf = pos + length (root @ rest)" using assms(1,2) by (metis less_imp_le le_add_diff_inverse length_drop)
  have acc: "unat (accumulate root) = be_val root" using w(2) by (rule unat_accumulate)
  have "unat (accumulate root) < 2 ^ (8 * length root)" using be_val_bound [of root] acc by (simp add: power_mult)
  then have "sint (sign_extend (length root) (accumulate root)) = int (be_val root)"
    using sign_extend_sint [OF w(1,2)] acc assms(5) by simp
  then have val: "unat (sign_extend (length root) (accumulate root)) = be_val root" by (rule unat_of_sint_nonneg)
  have "(pos + length root) mod U64_SIZE = pos + length root" using len assms(3) by simp
  then show ?thesis using len w assms(1,4) val by (cases root) (simp_all add: read_column_int_def Let_def bslice_def)
qed

lemma drop_next: "drop pos buf = xs @ ys \<Longrightarrow> drop (pos + length xs) buf = ys"
  by (metis add.commute append_eq_conv_conj drop_drop)

lemma schema_cell_parse:
  assumes hlen: "header_len_ok hlen ty nm tbl rserial sql"
    and root: "rserial < 7" "int_width (word_of_nat rserial) = Some (length root)" "be_val root < 2 ^ (8 * length root - 1)"
    and ranges: "plen < 2 ^ 64" "rowid < 2 ^ 64"
    and buf: "buf = pre @ schema_cell plen rowid hlen ty nm tbl rserial root sql @ rest" "length buf < 2 ^ 62"
  shows "parse_master_cell lossy buf (length pre)
    = Inr (Some \<lparr>me_obj_type = lossy ty, me_name = lossy nm, me_root_page = be_val root\<rparr>)"
proof -
  let ?ss = "[text_serial ty, text_serial nm, text_serial tbl, rserial, text_serial sql]"
  let ?types = "concat (map encode_varint ?ss)"
  define p1 where "p1 = length pre + length (encode_varint plen)"
  define p2 where "p2 = p1 + length (encode_varint rowid)"
  define p3 where "p3 = p2 + length (encode_varint hlen)"
  define h where "h = p3 + length ?types"
  have d0: "drop (length pre) buf = encode_varint plen @ encode_varint rowid @ encode_varint hlen @ ?types @ ty @ nm @ tbl @ root @ sql @ rest"
    using buf(1) by (simp add: schema_cell_def)
  note d1 = drop_next [OF d0, folded p1_def]
  note d2 = drop_next [OF d1, folded p2_def]
  note d3 = drop_next [OF d2, folded p3_def]
  note d4 = drop_next [OF d3, folded h_def]
  note d5 = drop_next [OF d4]
  note d6 = drop_next [OF d5]
  note d7 = drop_next [OF d6]
  have w: "1 \<le> length root" using root(2) by (auto simp: int_width_def Let_def split: if_splits)
  have len: "length buf = h + length (ty @ nm @ tbl @ root @ sql @ rest)"
    using buf(1) by (simp add: schema_cell_def h_def p3_def p2_def p1_def)
  have small: "n \<le> length buf \<Longrightarrow> n mod U64_SIZE = n" for n using buf(2) by simp
  have hl: "hlen = h - p2" "p2 \<le> h" using hlen by (simp_all add: header_len_ok_def h_def p3_def)
  have hend: "(p2 + unat (word_of_nat hlen :: 64 word)) mod U64_SIZE = h"
  proof -
    have "hlen < 2 ^ 64" using hl(1) len buf(2) by simp
    then have "unat (word_of_nat hlen :: 64 word) = hlen" by (simp add: unat_of_nat)
    then show ?thesis using hl len small [of h] by simp
  qed
  have ss: "\<forall>n \<in> set ?ss. n < 2 ^ 64" using len buf(2) root(1) by (auto simp: text_serial_def)
  have types: "read_serial_types 5 buf h p3 = map word_of_nat ?ss"
  proof -
    have "length ?ss = 5" by simp
    then show ?thesis using read_serial_types_encode [OF d3 ss h_def] by metis
  qed
  have pos: "length pre < length buf" "p2 < length buf" "h < length buf"
    using len w hl(2) by (auto simp: h_def p3_def p2_def p1_def)
  have h64: "hlen < 2 ^ 64" using hl(1) len buf(2) by simp
  have t0: "read_column_text lossy buf h (word_of_nat (text_serial ty)) = Inr (Some (lossy ty, length ty))"
    using read_column_text_encode [OF d4] pos(3) buf(2) by simp
  have t1: "read_column_text lossy buf (h + length ty) (word_of_nat (text_serial nm)) = Inr (Some (lossy nm, length nm))"
    using read_column_text_encode [OF d5] len buf(2) by simp
  have "unat (word_of_nat (text_serial tbl) :: 64 word) = text_serial tbl" using ss by (simp add: unat_text_serial)
  then have t2: "walk_serial_type_size (word_of_nat (text_serial tbl)) = length tbl"
    by (simp add: walk_serial_type_size_def Let_def text_serial_def)
  have rp: "h + length ty + length nm + length tbl < length buf" using len w by (cases root) simp_all
  obtain v where v: "read_column_int buf (h + length ty + length nm + length tbl) (word_of_nat rserial) = Inr (Some v)" "unat v = be_val root"
    using read_column_int_encode [OF d7 rp buf(2) root(2,3)]
    by (cases "read_column_int buf (h + length ty + length nm + length tbl) (word_of_nat rserial)") auto
  have vs: "walk_varint (drop (length pre) buf) = (word_of_nat plen, length (encode_varint plen))"
    "walk_varint (drop p1 buf) = (word_of_nat rowid, length (encode_varint rowid))"
    "walk_varint (drop p2 buf) = (word_of_nat hlen, length (encode_varint hlen))"
    using h64 ranges by (simp_all only: d0 d1 d2 walk_varint_encode)
  have sums: "(h + length ty) mod U64_SIZE = h + length ty"
    "(h + length ty + length nm) mod U64_SIZE = h + length ty + length nm"
    "(h + length ty + length nm + length tbl) mod U64_SIZE = h + length ty + length nm + length tbl"
    using len by (intro small; simp)+
  show ?thesis
    using pos types t0 t1 t2 v vs sums hend
    by (simp add: parse_master_cell_def Let_def not_le flip: p1_def p2_def p3_def)
qed

text \<open>
  C37: A schema row written the way SQLite stores it is read back by the walker with its type, its
  name and its root page, wherever the cell lies in the page: header length, the five serial types
  and the column offsets are found as they were written, with no wrap-around.
\<close>

theorem schema_cell_roundtrip:
  assumes hlen: "header_len_ok hlen ty nm tbl rserial sql"
    and root: "rserial < 7" "int_width (word_of_nat rserial) = Some (length root)" "be_val root < 2 ^ (8 * length root - 1)"
    and ranges: "plen < 2 ^ 64" "rowid < 2 ^ 64"
    and buf: "buf = pre @ schema_cell plen rowid hlen ty nm tbl rserial root sql @ rest" "length buf < 2 ^ 62"
  shows "parse_master_cell lossy buf (length pre)
    = Inr (Some \<lparr>me_obj_type = lossy ty, me_name = lossy nm, me_root_page = be_val root\<rparr>)"
  using assms by (rule schema_cell_parse)

definition sample_cell_bytes :: bytes where
  "sample_cell_bytes = schema_cell 14 1 6 [116, 97, 98, 108, 101] [116] [116] 1 [5] []"

lemma sample_encode: "n < 128 \<Longrightarrow> encode_varint n = [word_of_nat n]"
  by (simp add: encode_varint_def sevens.simps)

lemma sample_cell_bytes_eq: "sample_cell_bytes = [14, 1, 6, 23, 15, 15, 1, 13, 116, 97, 98, 108, 101, 116, 116, 5]"
  by (simp add: sample_cell_bytes_def schema_cell_def text_serial_def sample_encode)

definition sample_schema :: bytes where
  "sample_schema = (replicate 100 0 @ [0x0d, 0, 0, 0, 1, 0, 0, 0, 0, 110]) @ sample_cell_bytes @ []"

definition sample_lossy :: "bytes \<Rightarrow> string" where
  "sample_lossy bs = map (\<lambda>b. char_of (unat b)) bs"

lemma sample_row_facts: "header_len_ok 6 [116, 97, 98, 108, 101] [116] [116] 1 []"
  "int_width (word_of_nat 1) = Some (length [5 :: byte])" "be_val [5] < 2 ^ (8 * length [5 :: byte] - 1)"
  "length sample_schema < 2 ^ 62"
  by (simp_all add: header_len_ok_def text_serial_def sample_encode int_width_def be_val_def sample_schema_def sample_cell_bytes_eq)

lemma sample_row_text: "sample_lossy [116, 97, 98, 108, 101] = ''table''" "sample_lossy [116] = ''t''" "be_val [5] = 5"
  by (simp_all add: sample_lossy_def char_of_def be_val_def bit_0)

theorem schema_cell_roundtrip_witness: "parse_master_cell sample_lossy sample_schema 110
    = Inr (Some \<lparr>me_obj_type = ''table'', me_name = ''t'', me_root_page = 5\<rparr>)"
  using schema_cell_roundtrip [OF sample_row_facts(1) _ sample_row_facts(2,3) _ _ sample_schema_def [unfolded sample_cell_bytes_def]
      sample_row_facts(4), of sample_lossy]
  by (simp add: sample_row_text)

lemma sample_row: "parse_master_cell sample_lossy sample_schema 110
    = Inr (Some \<lparr>me_obj_type = ''table'', me_name = ''t'', me_root_page = 5\<rparr>)"
  using schema_cell_parse [OF sample_row_facts(1) _ sample_row_facts(2,3) _ _ sample_schema_def [unfolded sample_cell_bytes_def]
      sample_row_facts(4), of sample_lossy]
  by (simp add: sample_row_text)

lemma walk_all_btrees_spec:
  assumes "parse_sqlite_master lossy read_page = Inr entries"
  shows "\<exists>r. walk_all_btrees lossy pc ps read_page = Inr r
    \<and> dom (wr_btrees r) = insert 0 {root. \<exists>e \<in> set entries. me_root_page e = Suc root}
    \<and> (\<forall>root b. wr_btrees r root = Some b \<longrightarrow> bt_root_page b = root \<and> bt_pages b = walk_btree read_page pc ps root)
    \<and> wr_unowned_pages r = filter (\<lambda>p. \<forall>b \<in> ran (wr_btrees r). p \<notin> set (bt_pages b)) [0..<pc]
    \<and> {..<pc} \<subseteq> (\<Union>b \<in> ran (wr_btrees r). set (bt_pages b)) \<union> set (wr_unowned_pages r)"
proof -
  let ?master = "walk_btree read_page pc ps 0"
  let ?start = "[0 \<mapsto> \<lparr>bt_obj_type = ''table'', bt_name = ''sqlite_master'', bt_root_page = 0, bt_pages = ?master\<rparr>]"
  obtain btrees owned where run: "fold (walk_entry read_page pc ps) entries (?start, set ?master) = (btrees, owned)" by fastforce
  have spec: "dom btrees = dom ?start \<union> {r. \<exists>e \<in> set entries. me_root_page e = Suc r}
    \<and> (\<forall>r b. btrees r = Some b \<longrightarrow> bt_root_page b = r \<and> bt_pages b = walk_btree read_page pc ps r)
    \<and> owned = (\<Union>r \<in> dom btrees. set (walk_btree read_page pc ps r))"
    by (rule walk_entries_spec [OF run]) (auto split: if_splits)
  have owned: "p \<in> owned \<longleftrightarrow> (\<exists>b \<in> ran btrees. p \<in> set (bt_pages b))" for p
  proof -
    have "p \<in> owned \<longleftrightarrow> (\<exists>r b. btrees r = Some b \<and> p \<in> set (walk_btree read_page pc ps r))"
      using spec [THEN conjunct2, THEN conjunct2] by auto
    also have "\<dots> \<longleftrightarrow> (\<exists>r b. btrees r = Some b \<and> p \<in> set (bt_pages b))"
      using spec [THEN conjunct2, THEN conjunct1] by metis
    finally show ?thesis by (auto simp: ran_def)
  qed
  have "walk_all_btrees lossy pc ps read_page
      = Inr \<lparr>wr_btrees = btrees, wr_unowned_pages = filter (\<lambda>p. p \<notin> owned) [0..<pc]\<rparr>"
    using assms run by (simp add: walk_all_btrees_def Let_def)
  moreover have "filter (\<lambda>p. p \<notin> owned) [0..<pc] = filter (\<lambda>p. \<forall>b \<in> ran btrees. p \<notin> set (bt_pages b)) [0..<pc]"
    by (intro filter_cong refl) (simp add: owned)
  moreover have "{..<pc} \<subseteq> (\<Union>b \<in> ran btrees. set (bt_pages b)) \<union> set (filter (\<lambda>p. p \<notin> owned) [0..<pc])"
    by (auto simp: owned)
  ultimately show ?thesis using spec by simp
qed

text \<open>
  C18: Walking an image returns one entry for the schema table and one per schema row with a root
  page, each under its own root with exactly the pages its walk finds, and the unowned pages are,
  in order, the pages of the image in no returned entry: entries and unowned pages together hold
  every page of the image. The schema walk fails only when a row's column offsets wrap around.
\<close>

theorem walk_all_btrees_partition:
  assumes "parse_sqlite_master lossy read_page = Inr entries"
  shows "\<exists>r. walk_all_btrees lossy pc ps read_page = Inr r
    \<and> dom (wr_btrees r) = insert 0 {root. \<exists>e \<in> set entries. me_root_page e = Suc root}
    \<and> (\<forall>root b. wr_btrees r root = Some b \<longrightarrow> bt_root_page b = root \<and> bt_pages b = walk_btree read_page pc ps root)
    \<and> wr_unowned_pages r = filter (\<lambda>p. \<forall>b \<in> ran (wr_btrees r). p \<notin> set (bt_pages b)) [0..<pc]
    \<and> {..<pc} \<subseteq> (\<Union>b \<in> ran (wr_btrees r). set (bt_pages b)) \<union> set (wr_unowned_pages r)"
  using assms by (rule walk_all_btrees_spec)

definition sample_image :: page_reader where
  "sample_image p = (if p = 0 then Some sample_schema else sample_reader p)"

lemma sample_schema_fields: "length sample_schema = 126" "sample_schema ! 100 = 0x0d" "be_u16_at sample_schema 103 = 1"
  "be_u16_at sample_schema 108 = 110"
  by (simp_all add: sample_schema_def sample_cell_bytes_eq be_u16_at_def bslice_def be_val_def nth_append)

lemma sample_master: "parse_sqlite_master sample_lossy sample_image = Inr [\<lparr>me_obj_type = ''table'', me_name = ''t'', me_root_page = 5\<rparr>]"
proof -
  have "collect_leaf_pages sample_image 0 = [0]"
    by (simp add: collect_leaf_pages_def collect_leaf_pages_inner.simps sample_image_def header_offset_def sample_schema_fields)
  then show ?thesis
    by (simp add: parse_sqlite_master_def sample_image_def header_offset_def sample_schema_fields sample_row)
qed

theorem walk_all_btrees_partition_witness:
  "\<exists>r. walk_all_btrees sample_lossy 6 512 sample_image = Inr r \<and> dom (wr_btrees r) = {0, 4}"
  using walk_all_btrees_partition [OF sample_master, of 6 512] by auto

end
