(* ===== verification/Passthrough.thy ===== *)
theory Passthrough
  imports Cache_File Local_State
begin

text \<open>
  Encrypted passthrough files, the WAL and the rollback journal (\<open>PassthroughNonceMap\<close> and the
  passthrough branches of \<open>TurboliteHandle\<close> in \<open>src/src/tiered/handle.rs\<close>). Every write is
  encrypted under a fresh nonce with AES-CTR, which keeps the size; the nonce of each written extent
  is appended to a sidecar log and kept in an ordered map.

  The CTR key stream is a parameter: the byte at a position of the stream of a key and a nonce. The
  sidecar and the data file are files with arbitrary write faults; a fault of an append stands for a
  failed open, a torn write or a failed sync of the sidecar. The sync of the data file after a write belongs to the write.
\<close>

subsection \<open>The nonce map\<close>

text \<open>Extent start, length and nonce, in the order of the \<open>BTreeMap\<close>.\<close>

type_synonym nonce_entries = "(nat \<times> nat \<times> nat) list"

definition sat_add :: "nat \<Rightarrow> nat \<Rightarrow> nat" where
  "sat_add a b = min (a + b) (U64_SIZE - 1)"

definition apply_record :: "nat \<Rightarrow> nat \<Rightarrow> nat \<Rightarrow> nonce_entries \<Rightarrow> nonce_entries" where
  "apply_record start len nonce entries =
     (let ext_end = sat_add start len;
          covered = map fst (filter (\<lambda>(s, l, _). start \<le> s \<and> s < ext_end \<and> sat_add s l \<le> ext_end) entries);
          kept = filter (\<lambda>(s, _). s \<notin> set covered \<and> s \<noteq> start) entries
      in insort_key fst (start, len, nonce) kept)"

function replay_records :: "bytes \<Rightarrow> nonce_entries \<Rightarrow> nonce_entries" where
  "replay_records bs entries =
     (if length bs < 24 then entries
      else replay_records (drop 24 bs)
             (apply_record (le_val (bslice 0 8 bs)) (le_val (bslice 8 8 bs)) (le_val (bslice 16 8 bs)) entries))"
  by pat_completeness auto
termination
  by (relation "measure (\<lambda>(bs, entries). length bs)") auto

declare replay_records.simps [simp del]

fun record_bytes :: "nat \<times> nat \<times> nat \<Rightarrow> bytes" where
  "record_bytes (start, len, nonce) = le_bytes 8 start @ le_bytes 8 len @ le_bytes 8 nonce"

record nonce_map =
  nm_entries :: nonce_entries
  nm_sidecar :: disk

definition compact_sidecar :: "write_fault \<Rightarrow> nonce_map \<Rightarrow> unit io_result \<times> nonce_map" where
  "compact_sidecar fault nm =
     (let buf = concat (map record_bytes (nm_entries nm));
          renamed = nm\<lparr>nm_sidecar := (nm_sidecar nm)\<lparr>dk_file := buf\<rparr>\<rparr>
      in case fault of
           NoFault \<Rightarrow> (Inr (), renamed)
         | BeforeRename e \<Rightarrow> (Inl e, nm)
         | AfterRename e \<Rightarrow> (Inl e, renamed))"

text \<open>A sidecar that does not exist is an empty one.\<close>

definition load_nonces :: "write_fault \<Rightarrow> disk \<Rightarrow> nonce_map" where
  "load_nonces fault sidecar =
     snd (compact_sidecar fault \<lparr>nm_entries = replay_records (dk_file sidecar) [], nm_sidecar = sidecar\<rparr>)"

definition append_record :: "nat \<times> nat \<times> nat \<Rightarrow> nonce_map \<Rightarrow> unit io_result \<times> nonce_map" where
  "append_record rec nm =
     (case write_all_at (length (dk_file (nm_sidecar nm))) (record_bytes rec) (nm_sidecar nm) of
        (r, d) \<Rightarrow> (r, nm\<lparr>nm_sidecar := d\<rparr>))"

definition commit_record :: "nat \<Rightarrow> nat \<Rightarrow> nat \<Rightarrow> nonce_map \<Rightarrow> unit io_result \<times> nonce_map" where
  "commit_record start len nonce nm =
     and_then (append_record (start, len, nonce) nm) (\<lambda>_ nm.
       (Inr (), nm\<lparr>nm_entries := apply_record start len nonce (nm_entries nm)\<rparr>))"

definition lookup_nonce :: "nonce_map \<Rightarrow> nat \<Rightarrow> nat \<Rightarrow> (nat \<times> nat) option" where
  "lookup_nonce nm offset len =
     (let read_end = (offset + len) mod U64_SIZE;
          candidates = rev (filter (\<lambda>(s, _). s \<le> offset) (nm_entries nm))
      in map_option (\<lambda>(s, _, nonce). (s, nonce))
           (find (\<lambda>(s, l, _). s \<le> offset \<and> read_end \<le> (s + l) mod U64_SIZE) candidates))"

subsection \<open>The passthrough file\<close>

type_synonym keystream = "bytes \<Rightarrow> nat \<Rightarrow> nat \<Rightarrow> byte"

definition ctr_xor_at :: "keystream \<Rightarrow> bytes \<Rightarrow> nat \<Rightarrow> nat \<Rightarrow> bytes \<Rightarrow> bytes" where
  "ctr_xor_at ks data nonce skip key = map (\<lambda>(i, b). xor b (ks key nonce (skip + i))) (List.enumerate 0 data)"

record passthrough =
  pt_file :: disk
  pt_key :: "bytes option"
  pt_nonces :: "nonce_map option"

definition new_passthrough :: "write_fault \<Rightarrow> disk \<Rightarrow> disk \<Rightarrow> bytes option \<Rightarrow> passthrough" where
  "new_passthrough fault data_file sidecar key =
     \<lparr>pt_file = data_file, pt_key = key, pt_nonces = (if key = None then None else Some (load_nonces fault sidecar))\<rparr>"

definition pt_size :: "passthrough \<Rightarrow> nat io_result" where
  "pt_size pt = Inr (length (dk_file (pt_file pt)))"

text \<open>The nonce is the random draw of the call.\<close>

definition pt_write :: "keystream \<Rightarrow> nat \<Rightarrow> bytes \<Rightarrow> nat \<Rightarrow> passthrough \<Rightarrow> unit io_result \<times> passthrough" where
  "pt_write ks nonce buf offset pt =
     (case pt_key pt of
        None \<Rightarrow> (case write_all_at offset buf (pt_file pt) of (r, d) \<Rightarrow> (r, pt\<lparr>pt_file := d\<rparr>))
      | Some key \<Rightarrow>
          (case pt_nonces pt of
             None \<Rightarrow> (panic ''called Option::unwrap() on a None value'', pt)
           | Some nm \<Rightarrow>
               (case write_all_at offset (ctr_xor_at ks buf nonce 0 key) (pt_file pt) of
                  (Inl e, d) \<Rightarrow> (Inl e, pt\<lparr>pt_file := d\<rparr>)
                | (Inr _, d) \<Rightarrow>
                    (case commit_record offset (length buf) nonce nm of
                       (r, nm) \<Rightarrow> (r, pt\<lparr>pt_file := d, pt_nonces := Some nm\<rparr>)))))"

definition pt_read :: "keystream \<Rightarrow> nat \<Rightarrow> nat \<Rightarrow> passthrough \<Rightarrow> bytes io_result" where
  "pt_read ks n offset pt =
     bind_result (read_exact_at offset n (pt_file pt)) (\<lambda>buf.
       case pt_key pt of
         None \<Rightarrow> Inr buf
       | Some key \<Rightarrow>
           (case pt_nonces pt of
              None \<Rightarrow> panic ''called Option::unwrap() on a None value''
            | Some nm \<Rightarrow>
                (case lookup_nonce nm offset n of
                   Some (start, nonce) \<Rightarrow> Inr (ctr_xor_at ks buf nonce (offset - start) key)
                 | None \<Rightarrow> Inr (ctr_xor_at ks buf offset 0 key))))"

definition pt_set_len :: "nat \<Rightarrow> passthrough \<Rightarrow> unit io_result \<times> passthrough" where
  "pt_set_len n pt = (case set_len n (pt_file pt) of (r, d) \<Rightarrow> (r, pt\<lparr>pt_file := d\<rparr>))"

subsection \<open>The key stream\<close>

lemma length_ctr [simp]: "length (ctr_xor_at ks data nonce skip key) = length data"
  by (simp add: ctr_xor_at_def)

lemma ctr_Nil [simp]: "ctr_xor_at ks data nonce skip key = [] \<longleftrightarrow> data = []"
  by (simp flip: length_0_conv)

lemma ctr_nth: "i < length data \<Longrightarrow> ctr_xor_at ks data nonce skip key ! i = xor (data ! i) (ks key nonce (skip + i))"
  by (simp add: ctr_xor_at_def nth_enumerate_eq)

text \<open>Decrypting any part of an extent with the stream position of that part gives the plain bytes.\<close>

lemma ctr_slice:
  assumes "i + n \<le> length data"
  shows "ctr_xor_at ks (bslice i n (ctr_xor_at ks data nonce 0 key)) nonce i key = bslice i n data"
proof (rule nth_equalityI)
  show "length (ctr_xor_at ks (bslice i n (ctr_xor_at ks data nonce 0 key)) nonce i key) = length (bslice i n data)" using assms by simp
  fix j assume "j < length (ctr_xor_at ks (bslice i n (ctr_xor_at ks data nonce 0 key)) nonce i key)"
  then have "j < n" "i + j < length data" using assms by simp_all
  then show "ctr_xor_at ks (bslice i n (ctr_xor_at ks data nonce 0 key)) nonce i key ! j = bslice i n data ! j"
    by (simp add: ctr_nth bslice_def ac_simps)
qed

subsection \<open>The map of the entries\<close>

definition entries_ok :: "nonce_entries \<Rightarrow> bool" where
  "entries_ok es \<longleftrightarrow> sorted_wrt (<) (map fst es) \<and> (\<forall>(s, l, n) \<in> set es. s + l < U64_SIZE \<and> n < U64_SIZE)"

lemma entries_distinct: "entries_ok es \<Longrightarrow> distinct (map fst es)"
  by (simp add: entries_ok_def strict_sorted_iff)

lemma sat_add_exact: "a + b < U64_SIZE \<Longrightarrow> sat_add a b = a + b"
  by (simp add: sat_add_def)

lemma map_insort_key: "map f (insort_key f x xs) = insort (f x) (map f xs)"
  by (induction xs) simp_all

definition superseded :: "nat \<Rightarrow> nat \<Rightarrow> nat \<times> nat \<times> nat \<Rightarrow> bool" where
  "superseded start len e \<longleftrightarrow> (case e of (s, l, _) \<Rightarrow> s = start \<or> start \<le> s \<and> s < start + len \<and> s + l \<le> start + len)"

lemma apply_record_eq:
  assumes "entries_ok es" "start + len < U64_SIZE"
  shows "apply_record start len nonce es = insort_key fst (start, len, nonce) (filter (\<lambda>e. \<not> superseded start len e) es)"
proof -
  let ?cov = "filter (\<lambda>(s, l, _). start \<le> s \<and> s < sat_add start len \<and> sat_add s l \<le> sat_add start len) es"
  have "(s \<notin> set (map fst ?cov) \<and> s \<noteq> start) \<longleftrightarrow> \<not> superseded start len (s, l, n)" if e: "(s, l, n) \<in> set es" for s l n
  proof -
    have "s + l < U64_SIZE" using assms(1) e by (auto simp: entries_ok_def)
    then have sat: "sat_add s l = s + l" "sat_add start len = start + len" using assms(2) by (simp_all only: sat_add_exact)
    have same: "x = (l, n)" if "(s, x) \<in> set es" for x by (rule eq_key_imp_eq_value [OF entries_distinct [OF assms(1)] that e])
    have "s \<in> set (map fst ?cov) \<longleftrightarrow> start \<le> s \<and> s < start + len \<and> s + l \<le> start + len"
    proof
      assume "s \<in> set (map fst ?cov)"
      then obtain x where "(s, x) \<in> set ?cov" by auto
      then show "start \<le> s \<and> s < start + len \<and> s + l \<le> start + len" using same [of x] sat by simp
    next
      assume "start \<le> s \<and> s < start + len \<and> s + l \<le> start + len"
      then have "(s, l, n) \<in> set ?cov" using e sat by simp
      then have "fst (s, l, n) \<in> set (map fst ?cov)" unfolding set_map by (rule imageI)
      then show "s \<in> set (map fst ?cov)" by (simp only: fst_conv)
    qed
    then show ?thesis by (auto simp: superseded_def)
  qed
  then have "filter (\<lambda>(s, _). s \<notin> set (map fst ?cov) \<and> s \<noteq> start) es = filter (\<lambda>e. \<not> superseded start len e) es"
    by (intro filter_cong) auto
  then show ?thesis unfolding apply_record_def Let_def by simp
qed

lemma apply_record_ok:
  assumes "entries_ok es" "start + len < U64_SIZE" "nonce < U64_SIZE"
  shows "entries_ok (apply_record start len nonce es)"
    "set (apply_record start len nonce es) = insert (start, len, nonce) {e \<in> set es. \<not> superseded start len e}"
proof -
  let ?k = "filter (\<lambda>e. \<not> superseded start len e) es"
  note eq = apply_record_eq [OF assms(1,2), of nonce]
  show st: "set (apply_record start len nonce es) = insert (start, len, nonce) {e \<in> set es. \<not> superseded start len e}"
    by (simp add: eq set_insort_key)
  have "sorted (map fst es)" "distinct (map fst es)" using assms(1) by (simp_all add: entries_ok_def strict_sorted_iff)
  then have "sorted (map fst ?k)" "distinct (map fst ?k)" by (simp_all add: sorted_filter distinct_map_filter)
  moreover have "start \<notin> fst ` set ?k" by (auto simp: superseded_def)
  ultimately have "sorted_wrt (<) (map fst (apply_record start len nonce es))"
    by (simp add: eq map_insort_key strict_sorted_iff sorted_insort distinct_insort)
  then show "entries_ok (apply_record start len nonce es)" using assms by (auto simp: entries_ok_def st)
qed

subsection \<open>The sidecar log\<close>

lemma length_record [simp]: "length (record_bytes e) = 24"
  by (cases e) simp

lemma replay_record:
  assumes "start < U64_SIZE" "len < U64_SIZE" "nonce < U64_SIZE"
  shows "replay_records (record_bytes (start, len, nonce) @ bs) es = replay_records bs (apply_record start len nonce es)"
proof -
  have b: "(256::nat) ^ 8 = U64_SIZE" by simp
  show ?thesis
    using assms by (subst replay_records.simps) (simp add: bslice_def le_val_bytes [where k = 8, unfolded b])
qed

lemma replay_append:
  assumes "24 dvd length bs"
  shows "replay_records (bs @ cs) es = replay_records cs (replay_records bs es)"
  using assms
proof (induction bs es rule: replay_records.induct)
  case (1 bs es)
  show ?case
  proof (cases "length bs < 24")
    case True
    then have "bs = []" using 1(2) by (auto dest: dvd_imp_le)
    then show ?thesis by (simp add: replay_records.simps [of "[]"])
  next
    case False
    then have "24 dvd length (drop 24 bs)" using 1(2) by (simp add: dvd_diff_nat)
    then show ?thesis using 1(1) [OF False] False
      by (subst (1 3) replay_records.simps) (simp add: bslice_def)
  qed
qed

text \<open>A torn record at the end of the log is ignored.\<close>

lemma replay_torn: "24 dvd length bs \<Longrightarrow> length cs < 24 \<Longrightarrow> replay_records (bs @ cs) es = replay_records bs es"
  by (simp add: replay_append replay_records.simps [of cs])

text \<open>The compacted log describes exactly the live extents.\<close>

lemma insort_last: "\<forall>e \<in> set es. fst e < fst x \<Longrightarrow> insort_key fst x es = es @ [x]"
  by (induction es) auto

lemma replay_compacted:
  assumes "entries_ok (es @ fs)"
  shows "replay_records (concat (map record_bytes fs)) es = es @ fs"
  using assms
proof (induction fs arbitrary: es)
  case Nil
  then show ?case by (simp add: replay_records.simps [of "[]"])
next
  case (Cons f fs)
  obtain s l n where f: "f = (s, l, n)" by (cases f)
  have ok: "entries_ok es" "s + l < U64_SIZE" "n < U64_SIZE" and below: "\<And>e. e \<in> set es \<Longrightarrow> fst e < s"
    using Cons.prems by (auto simp: entries_ok_def f sorted_wrt_append)
  have "filter (\<lambda>e. \<not> superseded s l e) es = es" using below by (force simp: superseded_def filter_id_conv)
  then have "apply_record s l n es = insort_key fst (s, l, n) es" by (simp add: apply_record_eq [OF ok(1,2)])
  also have "\<dots> = es @ [(s, l, n)]" using below by (intro insort_last) simp
  finally have "apply_record s l n es = es @ [f]" by (simp add: f)
  moreover have "replay_records (record_bytes f @ concat (map record_bytes fs)) es = replay_records (concat (map record_bytes fs)) (apply_record s l n es)"
    unfolding f using ok by (intro replay_record) simp_all
  ultimately show ?case using Cons.IH [of "es @ [f]"] Cons.prems by simp
qed

subsection \<open>What the file holds\<close>

text \<open>The live extents, as plain bytes by their start.\<close>

definition live_write :: "nat \<Rightarrow> bytes \<Rightarrow> (nat \<rightharpoonup> bytes) \<Rightarrow> (nat \<rightharpoonup> bytes)" where
  "live_write off buf W = (\<lambda>s. if off \<le> s \<and> s < off + length buf then None else W s)(off \<mapsto> buf)"

definition outside :: "nat \<times> bytes \<Rightarrow> nat \<times> bytes \<Rightarrow> bool" where
  "outside a b \<longleftrightarrow> fst a + length (snd a) \<le> fst b \<or> fst b + length (snd b) \<le> fst a"

definition clear_of :: "nat \<times> bytes \<Rightarrow> nat \<times> bytes \<Rightarrow> bool" where
  "clear_of a b \<longleftrightarrow> outside a b \<or> fst b \<le> fst a \<and> fst a + length (snd a) \<le> fst b + length (snd b)"

definition extents_ok :: "keystream \<Rightarrow> bytes \<Rightarrow> (nat \<rightharpoonup> bytes) \<Rightarrow> nonce_entries \<Rightarrow> bytes \<Rightarrow> bool" where
  "extents_ok ks key W es file \<longleftrightarrow> entries_ok es \<and> fst ` set es = dom W
     \<and> (\<forall>(s, l, n) \<in> set es. case W s of None \<Rightarrow> False | Some p \<Rightarrow> l = length p \<and> p \<noteq> [] \<and> s + l \<le> length file
            \<and> bslice s l file = ctr_xor_at ks p n 0 key)
     \<and> (\<forall>s p t q. W s = Some p \<longrightarrow> W t = Some q \<longrightarrow> s \<noteq> t \<longrightarrow> outside (s, p) (t, q))"

lemma extents_entry:
  assumes "extents_ok ks key W es file" "(s, l, n) \<in> set es"
  shows "\<exists>p. W s = Some p \<and> l = length p \<and> p \<noteq> [] \<and> s + l < U64_SIZE \<and> s + l \<le> length file \<and> bslice s l file = ctr_xor_at ks p n 0 key"
proof -
  have "entries_ok es" using assms(1) by (simp add: extents_ok_def)
  then have "s + l < U64_SIZE" using assms(2) by (auto simp: entries_ok_def)
  moreover have "case W s of None \<Rightarrow> False | Some p \<Rightarrow> l = length p \<and> p \<noteq> [] \<and> s + l \<le> length file \<and> bslice s l file = ctr_xor_at ks p n 0 key"
    using assms unfolding extents_ok_def by blast
  ultimately show ?thesis by (auto split: option.splits)
qed

lemma extents_write:
  assumes inv: "extents_ok ks key W es file" and buf: "buf \<noteq> []" "off + length buf < U64_SIZE" "nonce < U64_SIZE"
    and clear: "\<And>s p. W s = Some p \<Longrightarrow> clear_of (s, p) (off, buf)"
  shows "extents_ok ks key (live_write off buf W) (apply_record off (length buf) nonce es) (pwrite off (ctr_xor_at ks buf nonce 0 key) file)"
proof -
  let ?es = "apply_record off (length buf) nonce es" and ?file = "pwrite off (ctr_xor_at ks buf nonce 0 key) file" and ?W = "live_write off buf W"
  have ok: "entries_ok es" and dom: "fst ` set es = dom W" using inv by (simp_all add: extents_ok_def)
  have ent: "\<exists>p. W s = Some p \<and> l = length p \<and> p \<noteq> [] \<and> s + l \<le> length file \<and> bslice s l file = ctr_xor_at ks p n 0 key" if "(s, l, n) \<in> set es" for s l n
    using extents_entry [OF inv that] by blast
  have apart: "outside (s, p) (t, q)" if "W s = Some p" "W t = Some q" "s \<noteq> t" for s p t q
    using inv that by (simp add: extents_ok_def)
  note ap = apply_record_ok [OF ok buf(2,3)]
  have super: "superseded off (length buf) (s, l, n) \<longleftrightarrow> off \<le> s \<and> s < off + length buf" if e: "(s, l, n) \<in> set es" for s l n
  proof -
    obtain p where p: "W s = Some p" "l = length p" "p \<noteq> []" using ent [OF e] by blast
    have "0 < length p" "0 < length buf" using p(3) buf(1) by simp_all
    then show ?thesis using clear [OF p(1)] p(2) by (auto simp: superseded_def clear_of_def outside_def)
  qed
  have W: "?W s = (if s = off then Some buf else if off \<le> s \<and> s < off + length buf then None else W s)" for s
    by (simp add: live_write_def)
  have off_in: "off \<le> off \<and> off < off + length buf" using buf(1) by simp
  have away: "outside (s, p) (off, buf)" if "W s = Some p" "\<not> (off \<le> s \<and> s < off + length buf)" "p \<noteq> []" for s p
  proof -
    have "0 < length p" using that(3) by simp
    then show ?thesis using clear [OF that(1)] that(2) by (auto simp: clear_of_def outside_def)
  qed
  have old: "?W s = W s" "s \<noteq> off" if "(s, l, n) \<in> set es" "\<not> superseded off (length buf) (s, l, n)" for s l n
    using super [OF that(1)] that(2) off_in by (auto simp: W)
  have "fst ` set ?es = dom ?W"
  proof (intro set_eqI iffI)
    fix s assume "s \<in> fst ` set ?es"
    then obtain l n where "(s, l, n) \<in> set ?es" by auto
    then consider "s = off" | "(s, l, n) \<in> set es" "\<not> superseded off (length buf) (s, l, n)" unfolding ap(2) by auto
    then show "s \<in> dom ?W"
    proof cases
      case 2
      then have "s \<in> dom W" using dom by force
      then show ?thesis using old(1) [OF 2] by (simp add: domIff)
    qed (simp add: W domIff)
  next
    fix s assume s: "s \<in> dom ?W"
    show "s \<in> fst ` set ?es"
    proof (cases "s = off")
      case False
      then have "\<not> (off \<le> s \<and> s < off + length buf)" "s \<in> dom W" using s by (auto simp: W split: if_splits)
      then obtain l n where "(s, l, n) \<in> set es" "\<not> superseded off (length buf) (s, l, n)" using dom super by force
      then show ?thesis unfolding ap(2) by force
    qed (simp add: ap(2))
  qed
  moreover have "case ?W s of None \<Rightarrow> False | Some p \<Rightarrow> l = length p \<and> p \<noteq> [] \<and> s + l \<le> length ?file \<and> bslice s l ?file = ctr_xor_at ks p n 0 key"
    if e: "(s, l, n) \<in> set ?es" for s l n
  proof (cases "(s, l, n) = (off, length buf, nonce)")
    case True
    then show ?thesis using buf(1) pwrite_same [of off "ctr_xor_at ks buf nonce 0 key" "file"] by (auto simp: W length_pwrite)
  next
    case False
    then have in_es: "(s, l, n) \<in> set es" "\<not> superseded off (length buf) (s, l, n)" using e by (auto simp: ap(2))
    obtain p where p: "W s = Some p" "l = length p" "p \<noteq> []" "s + l \<le> length file" "bslice s l file = ctr_xor_at ks p n 0 key" using ent [OF in_es(1)] by blast
    have "outside (s, p) (off, buf)" using away [OF p(1) _ p(3)] super [OF in_es(1)] in_es(2) by simp
    then have "bslice s l ?file = bslice s l file" using p(2,4) by (intro pwrite_other) (auto simp: outside_def)
    moreover have "s + l \<le> length ?file" using p(4) by (auto simp: length_pwrite)
    ultimately show ?thesis using p old(1) [OF in_es] by simp
  qed
  moreover have "outside (s, p) (t, q)" if st: "?W s = Some p" "?W t = Some q" "s \<noteq> t" for s p t q
  proof -
    have ne: "p \<noteq> []" if "W s = Some p" for s p using ent dom that by (metis domI imageE option.inject prod.collapse)
    have far: "outside (s, p) (off, buf)" "outside (off, buf) (s, p)" if "W s = Some p" "\<not> (off \<le> s \<and> s < off + length buf)" for s p
      using away [OF that ne [OF that(1)]] by (auto simp: outside_def)
    have old: "W r = Some x \<and> \<not> (off \<le> r \<and> r < off + length buf)" if "?W r = Some x" "r \<noteq> off" for r x using that by (simp add: W split: if_splits)
    have new: "x = buf" if "?W off = Some x" for x using that by (simp add: W)
    show ?thesis
    proof (cases "s = off")
      case True
      then have "W t = Some q" "\<not> (off \<le> t \<and> t < off + length buf)" "p = buf" using old [OF st(2)] st new by auto
      then show ?thesis using far(2) True by simp
    next
      case False
      note s = old [OF st(1) False]
      show ?thesis
      proof (cases "t = off")
        case True
        then have "q = buf" using st(2) new by simp
        then show ?thesis using far(1) s True by simp
      next
        case False
        then show ?thesis using apart [OF _ _ st(3)] s old [OF st(2)] by blast
      qed
    qed
  qed
  ultimately show ?thesis using ap(1) unfolding extents_ok_def by blast
qed

text \<open>Inside one live extent a reader finds its nonce, whatever other extents there are.\<close>

lemma find_found: "find P xs = Some x \<Longrightarrow> x \<in> set xs \<and> P x"
  by (induction xs) (auto split: if_splits)

lemma extents_lookup:
  assumes inv: "extents_ok ks key W (nm_entries nm) file" and W: "W s = Some p" and k: "0 < k" "i + k \<le> length p"
  shows "\<exists>n. lookup_nonce nm (s + i) k = Some (s, n) \<and> s + length p \<le> length file \<and> bslice s (length p) file = ctr_xor_at ks p n 0 key"
proof -
  have ent: "\<exists>q. W t = Some q \<and> l = length q \<and> t + l < U64_SIZE \<and> t + l \<le> length file \<and> bslice t l file = ctr_xor_at ks q n 0 key" if "(t, l, n) \<in> set (nm_entries nm)" for t l n
    using extents_entry [OF inv that] by blast
  have "s \<in> fst ` set (nm_entries nm)" using inv W by (auto simp: extents_ok_def)
  then obtain l n where e: "(s, l, n) \<in> set (nm_entries nm)" by auto
  have p: "l = length p" "s + l < U64_SIZE" "s + l \<le> length file" "bslice s l file = ctr_xor_at ks p n 0 key" using ent [OF e] W by auto
  let ?P = "\<lambda>(t, l, _). t \<le> s + i \<and> (s + i + k) mod U64_SIZE \<le> (t + l) mod U64_SIZE"
  let ?cs = "rev (filter (\<lambda>(t, _). t \<le> s + i) (nm_entries nm))"
  have only: "x = (s, l, n)" if x: "x \<in> set (nm_entries nm)" "?P x" for x
  proof -
    obtain t m n' where x': "x = (t, m, n')" by (cases x)
    obtain q where q: "W t = Some q" "m = length q" "t + m < U64_SIZE" using ent [of t m n'] x(1) x' by auto
    have "t \<le> s + i" "s + i + k \<le> t + m" using x(2) q(3) p(1,2) k(2) by (simp_all add: x')
    moreover have "outside (t, q) (s, p)" if "t \<noteq> s" using inv q(1) W that by (auto simp: extents_ok_def)
    ultimately have "t = s" using q(2) k by (fastforce simp: outside_def)
    moreover have "distinct (map fst (nm_entries nm))" using inv by (simp add: extents_ok_def entries_distinct)
    ultimately show ?thesis using eq_key_imp_eq_value [of "nm_entries nm" s "(m, n')" "(l, n)"] x(1) e x' by simp
  qed
  have "(s, l, n) \<in> set ?cs" "?P (s, l, n)" using e p(1,2) k(2) by auto
  then have "find ?P ?cs \<noteq> None" unfolding find_None_iff by blast
  then obtain x where f: "find ?P ?cs = Some x" by blast
  then have x: "x \<in> set ?cs \<and> ?P x" by (rule find_found)
  have "x = (s, l, n)" by (rule only) (use x in auto)
  then show ?thesis using f p by (simp add: lookup_nonce_def)
qed

subsection \<open>A life of the file\<close>

datatype pt_op = PtWrite nat bytes nat | PtReopen write_fault

fun pt_step :: "keystream \<Rightarrow> pt_op \<Rightarrow> passthrough \<Rightarrow> unit io_result \<times> passthrough" where
  "pt_step ks (PtWrite off buf nonce) pt = pt_write ks nonce buf off pt"
| "pt_step ks (PtReopen fault) pt =
     (Inr (), new_passthrough fault (pt_file pt) (case pt_nonces pt of Some nm \<Rightarrow> nm_sidecar nm | None \<Rightarrow> pt_file pt) (pt_key pt))"

fun pt_run :: "keystream \<Rightarrow> pt_op list \<Rightarrow> passthrough \<Rightarrow> unit io_result \<times> passthrough" where
  "pt_run ks [] pt = (Inr (), pt)"
| "pt_run ks (p # ps) pt = and_then (pt_step ks p pt) (\<lambda>_ pt. pt_run ks ps pt)"

fun pt_writes :: "pt_op list \<Rightarrow> (nat \<times> bytes) list" where
  "pt_writes [] = []"
| "pt_writes (PtWrite off buf nonce # ps) = (off, buf) # pt_writes ps"
| "pt_writes (PtReopen fault # ps) = pt_writes ps"

definition op_ok :: "pt_op \<Rightarrow> bool" where
  "op_ok p \<longleftrightarrow> (case p of PtWrite off buf nonce \<Rightarrow> buf \<noteq> [] \<and> off + length buf < U64_SIZE \<and> nonce < U64_SIZE | PtReopen fault \<Rightarrow> True)"

definition pt_inv :: "keystream \<Rightarrow> bytes \<Rightarrow> (nat \<rightharpoonup> bytes) \<Rightarrow> passthrough \<Rightarrow> bool" where
  "pt_inv ks key W pt \<longleftrightarrow> pt_key pt = Some key \<and> no_faults (pt_file pt)
     \<and> (\<exists>nm. pt_nonces pt = Some nm \<and> no_faults (nm_sidecar nm) \<and> 24 dvd length (dk_file (nm_sidecar nm))
          \<and> replay_records (dk_file (nm_sidecar nm)) [] = nm_entries nm \<and> extents_ok ks key W (nm_entries nm) (dk_file (pt_file pt)))"

lemma pwrite_end: "pwrite (length file) data file = file @ data"
  by (simp add: pwrite_def zeros_def)

lemma pt_write_inv:
  assumes inv: "pt_inv ks key W pt" and ok: "op_ok (PtWrite off buf nonce)" and clear: "\<And>s p. W s = Some p \<Longrightarrow> clear_of (s, p) (off, buf)"
  shows "\<exists>pt'. pt_write ks nonce buf off pt = (Inr (), pt') \<and> pt_inv ks key (live_write off buf W) pt'"
proof -
  obtain nm where nm: "pt_key pt = Some key" "no_faults (pt_file pt)" "pt_nonces pt = Some nm" "no_faults (nm_sidecar nm)"
      "24 dvd length (dk_file (nm_sidecar nm))" "replay_records (dk_file (nm_sidecar nm)) [] = nm_entries nm" "extents_ok ks key W (nm_entries nm) (dk_file (pt_file pt))"
    using inv by (auto simp: pt_inv_def)
  have b: "buf \<noteq> []" "off + length buf < U64_SIZE" "nonce < U64_SIZE" using ok by (simp_all add: op_ok_def)
  note ext = extents_write [OF nm(7) b clear]
  have "replay_records (dk_file (nm_sidecar nm) @ record_bytes (off, length buf, nonce)) [] = apply_record off (length buf) nonce (nm_entries nm)"
    using replay_record [of off "length buf" nonce "[]"] b replay_append [OF nm(5), of _ "[]"] nm(6) by (simp add: replay_records.simps [of "[]"])
  then show ?thesis using ext nm
    by (simp add: pt_write_def write_all_at_ok commit_record_def append_record_def pt_inv_def pwrite_end)
qed

lemma pt_reopen_inv:
  assumes inv: "pt_inv ks key W pt"
  shows "\<exists>pt'. pt_step ks (PtReopen fault) pt = (Inr (), pt') \<and> pt_inv ks key W pt'"
proof -
  obtain nm where nm: "pt_key pt = Some key" "no_faults (pt_file pt)" "pt_nonces pt = Some nm" "no_faults (nm_sidecar nm)"
      "24 dvd length (dk_file (nm_sidecar nm))" "replay_records (dk_file (nm_sidecar nm)) [] = nm_entries nm" "extents_ok ks key W (nm_entries nm) (dk_file (pt_file pt))"
    using inv by (auto simp: pt_inv_def)
  have "replay_records (concat (map record_bytes (nm_entries nm))) [] = nm_entries nm"
    using replay_compacted [of "[]" "nm_entries nm"] nm(7) by (simp add: extents_ok_def)
  moreover have "24 dvd length (concat (map record_bytes (nm_entries nm)))" by (simp add: length_concat comp_def sum_list_triv)
  ultimately show ?thesis using nm
    by (cases fault) (simp_all add: new_passthrough_def load_nonces_def compact_sidecar_def Let_def pt_inv_def)
qed

lemma pt_run_inv:
  assumes "pt_inv ks key W pt" "\<forall>p \<in> set ps. op_ok p" "sorted_wrt clear_of (pt_writes ps)"
    and "\<And>s p w. W s = Some p \<Longrightarrow> w \<in> set (pt_writes ps) \<Longrightarrow> clear_of (s, p) w"
  shows "\<exists>pt'. pt_run ks ps pt = (Inr (), pt') \<and> pt_inv ks key (fold (\<lambda>(off, buf). live_write off buf) (pt_writes ps) W) pt'"
  using assms
proof (induction ps arbitrary: pt W)
  case (Cons p ps)
  show ?case
  proof (cases p)
    case (PtWrite off buf nonce)
    obtain pt1 where pt1: "pt_write ks nonce buf off pt = (Inr (), pt1)" "pt_inv ks key (live_write off buf W) pt1"
      using pt_write_inv [OF Cons.prems(1), of off buf nonce] Cons.prems(2,4) PtWrite by auto
    have "clear_of (s, q) w" if "live_write off buf W s = Some q" "w \<in> set (pt_writes ps)" for s q w
      using that Cons.prems(3,4) PtWrite by (auto simp: live_write_def split: if_splits)
    then have "\<exists>pt'. pt_run ks ps pt1 = (Inr (), pt') \<and> pt_inv ks key (fold (\<lambda>(off, buf). live_write off buf) (pt_writes ps) (live_write off buf W)) pt'"
      using Cons.prems(2,3) PtWrite by (intro Cons.IH [OF pt1(2)]) auto
    then show ?thesis using pt1(1) PtWrite by simp
  next
    case (PtReopen fault)
    obtain pt1 where pt1: "pt_step ks p pt = (Inr (), pt1)" "pt_inv ks key W pt1" using pt_reopen_inv [OF Cons.prems(1)] PtReopen by blast
    have "\<exists>pt'. pt_run ks ps pt1 = (Inr (), pt') \<and> pt_inv ks key (fold (\<lambda>(off, buf). live_write off buf) (pt_writes ps) W) pt'"
      using Cons.prems(2,3,4) PtReopen by (intro Cons.IH [OF pt1(2)]) auto
    then show ?thesis using pt1(1) PtReopen by simp
  qed
qed simp

lemma live_keeps:
  assumes "W off = Some buf" "buf \<noteq> []" "\<forall>w \<in> set ws. outside (off, buf) w"  "\<forall>w \<in> set ws. snd w \<noteq> []"
  shows "fold (\<lambda>(off, buf). live_write off buf) ws W off = Some buf"
  using assms
proof (induction ws arbitrary: W)
  case (Cons w ws)
  have "0 < length buf" using Cons.prems(2) by simp
  then have "live_write (fst w) (snd w) W off = Some buf" using Cons.prems by (auto simp: live_write_def outside_def)
  then show ?case using Cons by (simp add: case_prod_beta)
qed simp

lemma pt_writes_append: "pt_writes (ps @ qs) = pt_writes ps @ pt_writes qs"
  by (induction ps rule: pt_writes.induct) simp_all

lemma writes_nonempty: "\<forall>p \<in> set ps. op_ok p \<Longrightarrow> w \<in> set (pt_writes ps) \<Longrightarrow> snd w \<noteq> []"
  by (induction ps rule: pt_writes.induct) (auto simp: op_ok_def)

text \<open>
  C25: What was written to an encrypted WAL or journal is what is read back. Take a new file and any
  sequence of writes and reopenings in which no write cuts an earlier extent in two (it lies outside it
  or replaces all of it, as WAL frames rewritten in place do) and the disk does not fail, while every
  compaction of the sidecar on reopening may. Every call succeeds, and any part of an extent that no
  later write has touched decrypts to its bytes.
\<close>

theorem passthrough_reads_last_write:
  assumes "no_faults data_file" "no_faults sidecar" "dk_file sidecar = []"
    and "ps = pre @ PtWrite off buf nonce # post" "\<forall>p \<in> set ps. op_ok p" "sorted_wrt clear_of (pt_writes ps)"
    and "\<forall>w \<in> set (pt_writes post). outside (off, buf) w" "0 < k" "i + k \<le> length buf"
  shows "\<exists>pt. pt_run ks ps (new_passthrough fault data_file sidecar (Some key)) = (Inr (), pt) \<and> pt_read ks k (off + i) pt = Inr (bslice i k buf)"
proof -
  let ?live = "fold (\<lambda>(off, buf). live_write off buf)" and ?pt = "new_passthrough fault data_file sidecar (Some key)"
  have "pt_inv ks key Map.empty ?pt" using assms(1-3)
    by (cases fault) (simp_all add: pt_inv_def new_passthrough_def load_nonces_def compact_sidecar_def Let_def extents_ok_def entries_ok_def replay_records.simps [of "[]"])
  from pt_run_inv [OF this assms(5,6)] obtain pt where run: "pt_run ks ps ?pt = (Inr (), pt)" and inv: "pt_inv ks key (?live (pt_writes ps) Map.empty) pt" by auto
  have ne: "buf \<noteq> []" using assms(8,9) by auto
  have "\<forall>w \<in> set (pt_writes post). snd w \<noteq> []" using assms(4,5) writes_nonempty [of post] by simp
  then have "?live (pt_writes ps) Map.empty off = Some buf"
    using ne assms(7) by (simp add: assms(4) pt_writes_append) (intro live_keeps, simp_all add: live_write_def)
  moreover obtain nm where nm: "pt_key pt = Some key" "pt_nonces pt = Some nm" "extents_ok ks key (?live (pt_writes ps) Map.empty) (nm_entries nm) (dk_file (pt_file pt))"
    using inv by (auto simp: pt_inv_def)
  ultimately obtain n where n: "lookup_nonce nm (off + i) k = Some (off, n)" "off + length buf \<le> length (dk_file (pt_file pt))"
      "bslice off (length buf) (dk_file (pt_file pt)) = ctr_xor_at ks buf n 0 key" using extents_lookup [OF nm(3) _ assms(8,9)] by blast
  have "bslice (off + i) k (dk_file (pt_file pt)) = bslice i k (bslice off (length buf) (dk_file (pt_file pt)))"
    using assms(9) by (simp add: bslice_def take_drop min_def add.commute)
  then have "pt_read ks k (off + i) pt = Inr (bslice i k buf)"
    using n nm(1,2) assms(9) ctr_slice [OF assms(9), of ks n key] by (simp add: pt_read_def read_exact_at_def)
  then show ?thesis using run by blast
qed

text \<open>A key stream, and a file in which the second of two frames is rewritten.\<close>

definition sample_stream :: keystream where
  "sample_stream key nonce i = word_of_nat (7 * nonce + i)"

definition no_fault_disk :: disk where
  "no_fault_disk = \<lparr>dk_file = [], dk_fault = (\<lambda>_. None), dk_ops = 0\<rparr>"

definition wal_life :: "pt_op list" where
  "wal_life = [PtWrite 0 [1, 2] 11, PtWrite 2 [3, 4, 5] 12, PtReopen (BeforeRename (Io Other ''rename'')), PtWrite 2 [6, 7, 8] 13, PtReopen NoFault]"

theorem passthrough_reads_last_write_witness:
  "\<exists>pt. pt_run sample_stream wal_life (new_passthrough NoFault no_fault_disk no_fault_disk (Some [9])) = (Inr (), pt)
     \<and> pt_read sample_stream 2 3 pt = Inr [7, 8]"
proof -
  have d: "no_faults no_fault_disk" "dk_file no_fault_disk = []" by (simp_all add: no_faults_def no_fault_disk_def)
  have l: "wal_life = [PtWrite 0 [1, 2] 11, PtWrite 2 [3, 4, 5] 12, PtReopen (BeforeRename (Io Other ''rename''))] @ PtWrite 2 [6, 7, 8] 13 # [PtReopen NoFault]"
    by (simp add: wal_life_def)
  have ok: "\<forall>p \<in> set wal_life. op_ok p" "sorted_wrt clear_of (pt_writes wal_life)" "\<forall>w \<in> set (pt_writes [PtReopen NoFault]). outside (2, [6, 7, 8]) w"
    by (simp_all add: wal_life_def op_ok_def clear_of_def outside_def)
  have k: "0 < (2::nat)" "1 + 2 \<le> length [6, 7, 8::byte]" by simp_all
  show ?thesis using passthrough_reads_last_write [OF d(1,1,2) l ok k, of sample_stream NoFault "[9]"] by (simp add: bslice_def)
qed

text \<open>
  The two limits of the scheme. A read across two extents is decrypted as if its offset were the
  nonce, and a write that cuts an older extent in two is shadowed by it.
\<close>

lemmas pt_eval = pt_write_def pt_read_def new_passthrough_def load_nonces_def compact_sidecar_def commit_record_def append_record_def
  write_all_at_def read_exact_at_def lookup_nonce_def apply_record_def sat_add_def ctr_xor_at_def bslice_def no_fault_disk_def sample_stream_def
  replay_records.simps [of "[]"] pwrite_def zeros_def

lemma spanning_read_garbled:
  "pt_read sample_stream 5 0 (snd (pt_run sample_stream [PtWrite 0 [1, 2] 11, PtWrite 2 [3, 4, 5] 12] (new_passthrough NoFault no_fault_disk no_fault_disk (Some [9]))))
     \<noteq> Inr [1, 2, 3, 4, 5]"
  by (simp add: pt_eval)

lemma overlapping_write_shadowed:
  "pt_read sample_stream 2 2 (snd (pt_run sample_stream [PtWrite 2 [3, 4, 5, 6] 11, PtWrite 0 [7, 8, 9, 10] 12] (new_passthrough NoFault no_fault_disk no_fault_disk (Some [9]))))
     \<noteq> Inr [9, 10]"
  by (auto simp: pt_eval)

end
