(* ===== verification/Handle_Lock.thy ===== *)
theory Handle_Lock
  imports Prelude
begin

text \<open>
  SQLite's five lock levels over byte-range locks of a lock file (\<open>lock\<close> and \<open>reserved\<close> of
  \<open>src/src/tiered/handle.rs\<close>; the flush that precedes a downgrade belongs to the handle). A handle
  keeps its level and the named guards it holds; dropping a guard unlocks its range.

  The byte-range locks themselves are a parameter: an attempt to lock a range and the release of one, on a
  state of the operating system. What the handles rely on is the interface \<open>advisory_locks\<close>: every
  handle has its own open lock file and is one owner; two owners share a byte only when both hold it
  shared; an attempt that is granted is exclusive of conflicting owners, any other attempt changes nothing;
  an owner's new lock replaces its old one on the same bytes and a release removes it, whichever guard
  it came from.
\<close>

subsection \<open>Parameter\<close>

datatype lock_mode = SharedMode | ExclusiveMode

datatype try_result = Granted | WouldBlock | Failed io_error

record 'os guard_ops =
  g_try :: "nat \<Rightarrow> lock_mode \<Rightarrow> int \<Rightarrow> int \<Rightarrow> 'os \<Rightarrow> try_result \<times> 'os"
  g_drop :: "nat \<Rightarrow> int \<Rightarrow> int \<Rightarrow> 'os \<Rightarrow> 'os"

subsection \<open>State\<close>

datatype lock_kind = NoLock | SharedLock | ReservedLock | PendingLock | ExclusiveLock

definition PENDING_BYTE :: int where "PENDING_BYTE = 0x40000000"
definition RESERVED_BYTE :: int where "RESERVED_BYTE = PENDING_BYTE + 1"
definition SHARED_FIRST :: int where "SHARED_FIRST = PENDING_BYTE + 2"
definition SHARED_SIZE :: int where "SHARED_SIZE = 510"

datatype guard_name = SharedGuard | ReservedGuard | PendingGuard | ExclusiveGuard

text \<open>The bytes of each guard, in the order they are dropped when all are.\<close>

record lock_handle =
  hl_level :: lock_kind
  hl_guards :: "guard_name \<rightharpoonup> int \<times> int"
  hl_has_gate :: bool
  hl_replay_guard :: bool

definition drop_guard :: "'os guard_ops \<Rightarrow> nat \<Rightarrow> guard_name \<Rightarrow> lock_handle \<times> 'os \<Rightarrow> lock_handle \<times> 'os" where
  "drop_guard G owner name s =
     (case s of (h, os) \<Rightarrow>
        case hl_guards h name of
          None \<Rightarrow> (h, os)
        | Some (first, len) \<Rightarrow> (h\<lparr>hl_guards := (hl_guards h)(name := None)\<rparr>, g_drop G owner first len os))"

definition clear_guards :: "'os guard_ops \<Rightarrow> nat \<Rightarrow> lock_handle \<times> 'os \<Rightarrow> lock_handle \<times> 'os" where
  "clear_guards G owner s = fold (drop_guard G owner) [SharedGuard, ReservedGuard, PendingGuard, ExclusiveGuard] s"

text \<open>Inserting a guard under a name drops the guard that had it.\<close>

definition acquire ::
  "'os guard_ops \<Rightarrow> nat \<Rightarrow> guard_name \<Rightarrow> lock_mode \<Rightarrow> int \<Rightarrow> int \<Rightarrow> lock_handle \<times> 'os \<Rightarrow> try_result \<times> lock_handle \<times> 'os" where
  "acquire G owner name mode first len s =
     (case s of (h, os) \<Rightarrow>
        case g_try G owner mode first len os of
          (Granted, os) \<Rightarrow>
            (case drop_guard G owner name (h, os) of (h, os) \<Rightarrow> (Granted, h\<lparr>hl_guards := (hl_guards h)(name \<mapsto> (first, len))\<rparr>, os))
        | (r, os) \<Rightarrow> (r, h, os))"

subsection \<open>Locking\<close>

definition at_level :: "lock_kind \<Rightarrow> lock_handle \<times> 'os \<Rightarrow> bool io_result \<times> lock_handle \<times> 'os" where
  "at_level lock s = (case s of (h, os) \<Rightarrow> (Inr True, h\<lparr>hl_level := lock\<rparr>, os))"

definition no_replay :: "lock_handle \<times> 'os \<Rightarrow> lock_handle \<times> 'os" where
  "no_replay s = (case s of (h, os) \<Rightarrow> (h\<lparr>hl_replay_guard := False\<rparr>, os))"

definition lock_shared :: "'os guard_ops \<Rightarrow> nat \<Rightarrow> lock_handle \<times> 'os \<Rightarrow> bool io_result \<times> lock_handle \<times> 'os" where
  "lock_shared G owner s =
     (case clear_guards G owner s of (h, os) \<Rightarrow>
        let h = (if hl_has_gate h then h\<lparr>hl_replay_guard := True\<rparr> else h) in
        case g_try G owner SharedMode PENDING_BYTE 1 os of
          (WouldBlock, os) \<Rightarrow> (Inr False, no_replay (h, os))
        | (Failed e, os) \<Rightarrow> (Inl e, no_replay (h, os))
        | (Granted, os) \<Rightarrow>
            (case acquire G owner SharedGuard SharedMode SHARED_FIRST 1 (h, g_drop G owner PENDING_BYTE 1 os) of
               (WouldBlock, s) \<Rightarrow> (Inr False, no_replay s)
             | (Failed e, s) \<Rightarrow> (Inl e, no_replay s)
             | (Granted, s) \<Rightarrow> at_level SharedLock s))"

definition lock_byte ::
  "'os guard_ops \<Rightarrow> nat \<Rightarrow> lock_kind \<Rightarrow> guard_name \<Rightarrow> int \<Rightarrow> lock_handle \<times> 'os \<Rightarrow> bool io_result \<times> lock_handle \<times> 'os" where
  "lock_byte G owner lock name byte s =
     (case acquire G owner name ExclusiveMode byte 1 s of
        (WouldBlock, s) \<Rightarrow> (Inr False, s)
      | (Failed e, s) \<Rightarrow> (Inl e, s)
      | (Granted, s) \<Rightarrow> at_level lock s)"

definition lock_exclusive :: "'os guard_ops \<Rightarrow> nat \<Rightarrow> lock_handle \<times> 'os \<Rightarrow> bool io_result \<times> lock_handle \<times> 'os" where
  "lock_exclusive G owner s =
     (case (if hl_guards (fst s) PendingGuard \<noteq> None then (Granted, s)
            else acquire G owner PendingGuard ExclusiveMode PENDING_BYTE 1 s) of
        (WouldBlock, s) \<Rightarrow> (Inr False, s)
      | (Failed e, s) \<Rightarrow> (Inl e, s)
      | (Granted, s) \<Rightarrow>
          (case acquire G owner ExclusiveGuard ExclusiveMode SHARED_FIRST SHARED_SIZE (drop_guard G owner SharedGuard s) of
             (Granted, s) \<Rightarrow> at_level ExclusiveLock s
           | (Failed e, s) \<Rightarrow> (Inl e, s)
           | (WouldBlock, s) \<Rightarrow>
               (case acquire G owner SharedGuard SharedMode SHARED_FIRST 1 s of
                  (Granted, s) \<Rightarrow> (Inr False, s)
                | (_, s) \<Rightarrow> (Inl (Io Other ''Lock restore failed''), s))))"

definition lock_files :: "'os guard_ops \<Rightarrow> nat \<Rightarrow> lock_kind \<Rightarrow> lock_handle \<times> 'os \<Rightarrow> bool io_result \<times> lock_handle \<times> 'os" where
  "lock_files G owner lock s =
     (let current = hl_level (fst s) in
      if current = lock then (Inr True, s)
      else case lock of
        NoLock \<Rightarrow> at_level NoLock (no_replay (clear_guards G owner s))
      | SharedLock \<Rightarrow> lock_shared G owner s
      | ReservedLock \<Rightarrow>
          if current = NoLock then (Inr False, s) else lock_byte G owner ReservedLock ReservedGuard RESERVED_BYTE s
      | PendingLock \<Rightarrow>
          if current = NoLock \<or> current = SharedLock then (Inr False, s)
          else lock_byte G owner PendingLock PendingGuard PENDING_BYTE s
      | ExclusiveLock \<Rightarrow> if current = NoLock then (Inr False, s) else lock_exclusive G owner s)"

definition is_reserved :: "lock_handle \<Rightarrow> bool" where
  "is_reserved h \<longleftrightarrow> hl_level h \<in> {ReservedLock, PendingLock, ExclusiveLock}"

subsection \<open>The bytes of the guards\<close>

definition guard_range :: "guard_name \<Rightarrow> int \<times> int" where
  "guard_range name = (case name of SharedGuard \<Rightarrow> (SHARED_FIRST, 1) | ReservedGuard \<Rightarrow> (RESERVED_BYTE, 1)
     | PendingGuard \<Rightarrow> (PENDING_BYTE, 1) | ExclusiveGuard \<Rightarrow> (SHARED_FIRST, SHARED_SIZE))"

definition guard_mode :: "guard_name \<Rightarrow> lock_mode" where
  "guard_mode name = (if name = SharedGuard then SharedMode else ExclusiveMode)"

definition guard_bytes :: "guard_name \<Rightarrow> int set" where
  "guard_bytes name = {fst (guard_range name)..<fst (guard_range name) + snd (guard_range name)}"

lemmas lock_bytes = PENDING_BYTE_def RESERVED_BYTE_def SHARED_FIRST_def SHARED_SIZE_def

lemma guard_bytes_apart:
  assumes "a \<noteq> b" "byte \<in> guard_bytes a" "byte \<in> guard_bytes b"
  shows "a = SharedGuard \<and> b = ExclusiveGuard \<or> a = ExclusiveGuard \<and> b = SharedGuard"
  using assms by (cases a; cases b) (auto simp: guard_bytes_def guard_range_def lock_bytes)

text \<open>The guards each level needs, for handles that never ask for the pending level on its own.\<close>

definition level_guards :: "lock_handle \<Rightarrow> bool" where
  "level_guards h \<longleftrightarrow> (case hl_level h of
       NoLock \<Rightarrow> True
     | SharedLock \<Rightarrow> hl_guards h SharedGuard \<noteq> None \<and> hl_guards h ReservedGuard = None
     | ReservedLock \<Rightarrow> hl_guards h SharedGuard \<noteq> None \<and> hl_guards h ReservedGuard \<noteq> None
     | PendingLock \<Rightarrow> False
     | ExclusiveLock \<Rightarrow> hl_guards h ExclusiveGuard \<noteq> None)"

text \<open>
  SQLite's use of the levels: the pending level is never asked for, the reserved one only from the shared
  one. Every answer is possible. Two of them leave a handle whose level outlives its locks: a downgrade
  to the shared level that is not granted (the guards were dropped first and the level stays), and an error
  while going exclusive (the shared guard was dropped and could not be taken again). A run carries the
  set of these stranded handles; one leaves the set when it is granted another level than the reserved one.
\<close>

definition lock_request :: "lock_kind \<Rightarrow> lock_kind \<Rightarrow> bool" where
  "lock_request current lock \<longleftrightarrow> lock \<noteq> PendingLock \<and> (lock = ReservedLock \<longrightarrow> current \<in> {NoLock, SharedLock, ReservedLock})"

definition lock_strands :: "lock_kind \<Rightarrow> lock_kind \<Rightarrow> bool io_result \<Rightarrow> bool" where
  "lock_strands current lock r \<longleftrightarrow> lock = SharedLock \<and> current \<noteq> NoLock \<and> r \<noteq> Inr True \<or> lock = ExclusiveLock \<and> \<not> is_ok r"

definition lock_restores :: "lock_kind \<Rightarrow> lock_kind \<Rightarrow> bool io_result \<Rightarrow> bool" where
  "lock_restores current lock r \<longleftrightarrow> current \<noteq> lock \<and> lock \<noteq> ReservedLock \<and> r = Inr True"

definition stranded_after :: "lock_kind \<Rightarrow> lock_kind \<Rightarrow> bool io_result \<Rightarrow> nat \<Rightarrow> nat set \<Rightarrow> nat set" where
  "stranded_after current lock r owner stranded =
     (if lock_strands current lock r then insert owner stranded
      else if lock_restores current lock r then stranded - {owner} else stranded)"

inductive lock_runs :: "'os guard_ops \<Rightarrow> (nat \<Rightarrow> lock_handle) \<times> 'os \<Rightarrow> nat set \<Rightarrow> (nat \<Rightarrow> lock_handle) \<times> 'os \<Rightarrow> bool" for G :: "'os guard_ops" and s where
  start: "lock_runs G s {} s"
| step: "lock_runs G s stranded (hs, os) \<Longrightarrow> lock_files G owner lock (hs owner, os) = (r, h', os')
    \<Longrightarrow> lock_request (hl_level (hs owner)) lock
    \<Longrightarrow> lock_runs G s (stranded_after (hl_level (hs owner)) lock r owner stranded) (hs(owner := h'), os')"

subsection \<open>What the handles rely on\<close>

locale advisory_locks =
  fixes G :: "'os guard_ops" and held :: "'os \<Rightarrow> nat \<Rightarrow> int \<Rightarrow> lock_mode option"
  assumes granted: "g_try G owner mode first len os = (Granted, os') \<Longrightarrow>
      (\<forall>b \<in> {first..<first + len}. \<forall>other. other \<noteq> owner \<longrightarrow> held os other b = None \<or> held os other b = Some SharedMode \<and> mode = SharedMode)
      \<and> (\<forall>o' b. held os' o' b = (if o' = owner \<and> b \<in> {first..<first + len} then Some mode else held os o' b))"
    and refused: "g_try G owner mode first len os = (r, os') \<Longrightarrow> r \<noteq> Granted \<Longrightarrow> held os' = held os"
    and dropped: "held (g_drop G owner first len os) o' b = (if o' = owner \<and> b \<in> {first..<first + len} then None else held os o' b)"
begin

text \<open>No owner shares a byte with an exclusive holder.\<close>

definition compatible :: "'os \<Rightarrow> bool" where
  "compatible os \<longleftrightarrow> (\<forall>a b byte. a \<noteq> b \<longrightarrow> held os a byte = Some ExclusiveMode \<longrightarrow> held os b byte = None)"

text \<open>What an owner's operation leaves: the locks of every other owner, and compatibility.\<close>

definition framed :: "nat \<Rightarrow> 'os \<Rightarrow> 'os \<Rightarrow> bool" where
  "framed owner os os' \<longleftrightarrow> (\<forall>other. other \<noteq> owner \<longrightarrow> held os' other = held os other) \<and> (compatible os \<longrightarrow> compatible os')"

definition holds_guards :: "nat \<Rightarrow> (guard_name \<rightharpoonup> int \<times> int) \<Rightarrow> 'os \<Rightarrow> bool" where
  "holds_guards owner guards os \<longleftrightarrow> \<not> (guards SharedGuard \<noteq> None \<and> guards ExclusiveGuard \<noteq> None)
     \<and> (\<forall>name r. guards name = Some r \<longrightarrow> r = guard_range name \<and> (\<forall>b \<in> guard_bytes name. held os owner b = Some (guard_mode name)))"

lemma holds_guardsD:
  assumes "holds_guards owner guards os" "guards name = Some r"
  shows "r = guard_range name" "b \<in> guard_bytes name \<Longrightarrow> held os owner b = Some (guard_mode name)"
  using assms unfolding holds_guards_def by blast+

lemma framed_refl: "held os' = held os \<Longrightarrow> framed owner os os'"
  by (simp add: framed_def compatible_def)

lemma framed_trans: "framed owner a b \<Longrightarrow> framed owner b c \<Longrightarrow> framed owner a c"
  by (simp add: framed_def)

lemma framed_drop: "framed owner os (g_drop G owner first len os)"
  unfolding framed_def compatible_def by (auto simp: dropped)

lemma framed_try:
  assumes "g_try G owner mode first len os = (r, os')"
  shows "framed owner os os'"
proof (cases "r = Granted")
  case True
  note g = granted [OF assms [unfolded True]]
  have "held os' b byte = None" if "compatible os" "a \<noteq> b" "held os' a byte = Some ExclusiveMode" for a b byte
  proof -
    have old: "x \<noteq> y \<Longrightarrow> held os x byte = Some ExclusiveMode \<Longrightarrow> held os y byte = None" for x y using that(1) unfolding compatible_def by blast
    have free: "byte \<in> {first..<first + len} \<Longrightarrow> x \<noteq> owner \<Longrightarrow> held os x byte = None \<or> held os x byte = Some SharedMode \<and> mode = SharedMode" for x
      using g by blast
    have new: "held os' x byte = (if x = owner \<and> byte \<in> {first..<first + len} then Some mode else held os x byte)" for x using g by blast
    show ?thesis using that(2,3) old [of a b] free [of a] free [of b] unfolding new by (cases mode) (auto split: if_splits)
  qed
  then show ?thesis using g unfolding framed_def compatible_def by auto
qed (use assms refused in \<open>auto intro: framed_refl\<close>)

lemma drop_guard_spec:
  assumes inv: "holds_guards owner (hl_guards h) os"
  shows "\<exists>os'. drop_guard G owner name (h, os) = (h\<lparr>hl_guards := (hl_guards h)(name := None)\<rparr>, os')
    \<and> framed owner os os' \<and> holds_guards owner ((hl_guards h)(name := None)) os'"
proof (cases "hl_guards h name")
  case None
  then have "(hl_guards h)(name := None) = hl_guards h" by auto
  then show ?thesis using None inv framed_refl by (auto simp: drop_guard_def)
next
  case (Some r)
  have r: "r = guard_range name" by (rule holds_guardsD(1) [OF inv Some])
  let ?os = "g_drop G owner (fst r) (snd r) os"
  have "held ?os owner b = Some (guard_mode other)"
    if o: "other \<noteq> name" "hl_guards h other \<noteq> None" "b \<in> guard_bytes other" for other b
  proof -
    have "held os owner b = Some (guard_mode other)" using o(2,3) holds_guardsD(2) [OF inv] by blast
    moreover have "b \<notin> guard_bytes name" using guard_bytes_apart [OF o(1) o(3)] inv Some o(1,2) unfolding holds_guards_def
      by (metis option.distinct(1))
    ultimately show ?thesis by (auto simp: dropped r guard_bytes_def)
  qed
  then have "holds_guards owner ((hl_guards h)(name := None)) ?os" using inv unfolding holds_guards_def by (metis fun_upd_apply option.distinct(1))
  then show ?thesis using Some framed_drop [of owner os "fst r" "snd r"] by (auto simp: drop_guard_def split: prod.splits)
qed

lemma acquire_spec:
  assumes inv: "holds_guards owner (hl_guards h) os" "hl_guards h name = None" and len: "(first, len) = guard_range name" "mode = guard_mode name"
    and apart: "name = SharedGuard \<Longrightarrow> hl_guards h ExclusiveGuard = None" "name = ExclusiveGuard \<Longrightarrow> hl_guards h SharedGuard = None"
    and run: "acquire G owner name mode first len (h, os) = (r, h', os')"
  shows "framed owner os os' \<and> holds_guards owner (hl_guards h') os'
    \<and> h' = (if r = Granted then h\<lparr>hl_guards := (hl_guards h)(name \<mapsto> guard_range name)\<rparr> else h)"
proof -
  obtain r0 os0 where t: "g_try G owner mode first len os = (r0, os0)" by force
  have fr: "framed owner os os0" by (rule framed_try [OF t])
  show ?thesis
  proof (cases "r0 = Granted")
    case False
    then have "r = r0 \<and> h' = h \<and> os' = os0" using run t by (cases r0) (simp_all add: acquire_def)
    then show ?thesis using False fr inv(1) refused [OF t False] by (simp add: holds_guards_def)
  next
    case True
    then have res: "r = Granted" "h' = h\<lparr>hl_guards := (hl_guards h)(name \<mapsto> guard_range name)\<rparr>" "os' = os0"
      using run t inv(2) len(1) by (simp_all add: acquire_def drop_guard_def)
    have new: "held os0 owner b = (if b \<in> guard_bytes name then Some (guard_mode name) else held os owner b)" for b
      using granted [OF t [unfolded True]] len unfolding guard_bytes_def by (metis fst_conv snd_conv)
    have "held os0 owner b = Some (guard_mode other)" if o: "other \<noteq> name" "hl_guards h other \<noteq> None" "b \<in> guard_bytes other" for other b
    proof -
      have "b \<notin> guard_bytes name" using guard_bytes_apart [OF o(1) o(3)] apart o(1,2) by metis
      then show ?thesis using o(2,3) holds_guardsD(2) [OF inv(1)] by (auto simp: new)
    qed
    moreover have "\<not> (((hl_guards h)(name \<mapsto> guard_range name)) SharedGuard \<noteq> None \<and> ((hl_guards h)(name \<mapsto> guard_range name)) ExclusiveGuard \<noteq> None)"
      using inv(1) apart unfolding holds_guards_def by (metis fun_upd_apply guard_name.distinct(5))
    moreover have "held os0 owner b = Some (guard_mode name)" if "b \<in> guard_bytes name" for b using that by (simp add: new)
    ultimately have "holds_guards owner ((hl_guards h)(name \<mapsto> guard_range name)) os0"
      using inv(1) unfolding holds_guards_def by (metis fun_upd_apply option.distinct(1) option.inject)
    then show ?thesis using res fr by simp
  qed
qed

lemma clear_guards_spec:
  assumes "holds_guards owner (hl_guards h) os"
  shows "\<exists>os'. clear_guards G owner (h, os) = (h\<lparr>hl_guards := Map.empty\<rparr>, os') \<and> framed owner os os' \<and> holds_guards owner Map.empty os'"
proof -
  have empty: "(hl_guards h)(SharedGuard := None, ReservedGuard := None, PendingGuard := None, ExclusiveGuard := None) = Map.empty"
  proof
    fix name show "((hl_guards h)(SharedGuard := None, ReservedGuard := None, PendingGuard := None, ExclusiveGuard := None)) name = None" by (cases name) simp_all
  qed
  obtain os1 where 1: "drop_guard G owner SharedGuard (h, os) = (h\<lparr>hl_guards := (hl_guards h)(SharedGuard := None)\<rparr>, os1)"
      "framed owner os os1" "holds_guards owner ((hl_guards h)(SharedGuard := None)) os1" using drop_guard_spec [OF assms, of SharedGuard] by blast
  let ?h1 = "h\<lparr>hl_guards := (hl_guards h)(SharedGuard := None)\<rparr>"
  obtain os2 where 2: "drop_guard G owner ReservedGuard (?h1, os1) = (?h1\<lparr>hl_guards := (hl_guards ?h1)(ReservedGuard := None)\<rparr>, os2)"
      "framed owner os1 os2" "holds_guards owner ((hl_guards ?h1)(ReservedGuard := None)) os2" using drop_guard_spec [of owner ?h1 os1 ReservedGuard] 1(3) by auto
  let ?h2 = "?h1\<lparr>hl_guards := (hl_guards ?h1)(ReservedGuard := None)\<rparr>"
  obtain os3 where 3: "drop_guard G owner PendingGuard (?h2, os2) = (?h2\<lparr>hl_guards := (hl_guards ?h2)(PendingGuard := None)\<rparr>, os3)"
      "framed owner os2 os3" "holds_guards owner ((hl_guards ?h2)(PendingGuard := None)) os3" using drop_guard_spec [of owner ?h2 os2 PendingGuard] 2(3) by auto
  let ?h3 = "?h2\<lparr>hl_guards := (hl_guards ?h2)(PendingGuard := None)\<rparr>"
  obtain os4 where 4: "drop_guard G owner ExclusiveGuard (?h3, os3) = (?h3\<lparr>hl_guards := (hl_guards ?h3)(ExclusiveGuard := None)\<rparr>, os4)"
      "framed owner os3 os4" "holds_guards owner ((hl_guards ?h3)(ExclusiveGuard := None)) os4" using drop_guard_spec [of owner ?h3 os3 ExclusiveGuard] 3(3) by auto
  have "framed owner os os4" using 1(2) 2(2) 3(2) 4(2) framed_trans by blast
  moreover have "clear_guards G owner (h, os) = (h\<lparr>hl_guards := Map.empty\<rparr>, os4)" using 1(1) 2(1) 3(1) 4(1) empty by (simp add: clear_guards_def)
  ultimately show ?thesis using 4(3) empty by auto
qed

text \<open>
  The invariant of one handle, stranded or not: it holds the bytes of its guards, and holds no guard above
  its level.
\<close>

definition handle_ok :: "nat \<Rightarrow> lock_handle \<Rightarrow> 'os \<Rightarrow> bool" where
  "handle_ok owner h os \<longleftrightarrow> holds_guards owner (hl_guards h) os \<and> hl_level h \<noteq> PendingLock
     \<and> (hl_level h \<in> {NoLock, SharedLock} \<longrightarrow> hl_guards h ReservedGuard = None) \<and> (hl_level h \<noteq> ExclusiveLock \<longrightarrow> hl_guards h ExclusiveGuard = None)"

lemma lock_shared_ok:
  assumes ok: "handle_ok owner h os" and run: "lock_shared G owner (h, os) = (r, h', os')"
  shows "framed owner os os' \<and> handle_ok owner h' os' \<and> (hl_level h = NoLock \<or> r = Inr True \<longrightarrow> level_guards h')"
proof -
  obtain os1 where clear: "clear_guards G owner (h, os) = (h\<lparr>hl_guards := Map.empty\<rparr>, os1)" "framed owner os os1" "holds_guards owner Map.empty os1"
    using clear_guards_spec [of owner h os] ok unfolding handle_ok_def by blast
  define h1 where "h1 = (if hl_has_gate (h\<lparr>hl_guards := Map.empty\<rparr>) then h\<lparr>hl_guards := Map.empty\<rparr>\<lparr>hl_replay_guard := True\<rparr> else h\<lparr>hl_guards := Map.empty\<rparr>)"
  have h1: "hl_guards h1 = Map.empty" "hl_level h1 = hl_level h" by (simp_all add: h1_def)
  have lv: "hl_level h \<noteq> PendingLock" using ok by (simp add: handle_ok_def)
  obtain r2 os2 where t: "g_try G owner SharedMode PENDING_BYTE 1 os1 = (r2, os2)" by force
  have fr2: "framed owner os os2" by (rule framed_trans [OF clear(2) framed_try [OF t]])
  have eq0: "lock_shared G owner (h, os) = (case r2 of WouldBlock \<Rightarrow> (Inr False, no_replay (h1, os2)) | Failed e \<Rightarrow> (Inl e, no_replay (h1, os2))
      | Granted \<Rightarrow> (case acquire G owner SharedGuard SharedMode SHARED_FIRST 1 (h1, g_drop G owner PENDING_BYTE 1 os2) of
           (WouldBlock, s) \<Rightarrow> (Inr False, no_replay s) | (Failed e, s) \<Rightarrow> (Inl e, no_replay s) | (Granted, s) \<Rightarrow> at_level SharedLock s))"
    unfolding lock_shared_def clear(1) prod.case Let_def h1_def [symmetric] t by (cases r2) (simp_all only: prod.case try_result.case)
  show ?thesis
  proof (cases "r2 = Granted")
    case False
    have "(r, h', os') = (case r2 of WouldBlock \<Rightarrow> (Inr False, h1\<lparr>hl_replay_guard := False\<rparr>, os2) | Failed e \<Rightarrow> (Inl e, h1\<lparr>hl_replay_guard := False\<rparr>, os2)
        | Granted \<Rightarrow> (r, h', os'))"
      unfolding run [symmetric] unfolding eq0 using False by (cases r2) (simp_all only: try_result.case no_replay_def prod.case)
    then have "r \<noteq> Inr True" "h' = h1\<lparr>hl_replay_guard := False\<rparr>" "os' = os2"
      using False by (cases r2; simp)+
    then show ?thesis using fr2 h1 lv by (simp add: handle_ok_def holds_guards_def level_guards_def)
  next
    case True
    let ?os3 = "g_drop G owner PENDING_BYTE 1 os2"
    obtain r4 h4 os4 where a: "acquire G owner SharedGuard SharedMode SHARED_FIRST 1 (h1, ?os3) = (r4, h4, os4)" by (metis prod_cases3)
    have "holds_guards owner (hl_guards h1) ?os3" by (simp add: h1 holds_guards_def)
    then have spec: "framed owner ?os3 os4 \<and> holds_guards owner (hl_guards h4) os4
        \<and> h4 = (if r4 = Granted then h1\<lparr>hl_guards := (hl_guards h1)(SharedGuard \<mapsto> guard_range SharedGuard)\<rparr> else h1)"
      by (rule acquire_spec [OF _ _ _ _ _ _ a]) (simp_all add: h1 guard_range_def guard_mode_def)
    note spec = spec [THEN conjunct1] spec [THEN conjunct2, THEN conjunct1] spec [THEN conjunct2, THEN conjunct2]
    have fr: "framed owner os os4" using framed_trans [OF fr2 framed_drop] framed_trans spec by blast
    have eq: "lock_shared G owner (h, os) = (case (r4, h4, os4) of (WouldBlock, s) \<Rightarrow> (Inr False, no_replay s)
        | (Failed e, s) \<Rightarrow> (Inl e, no_replay s) | (Granted, s) \<Rightarrow> at_level SharedLock s)"
      using eq0 True a by simp
    show ?thesis
    proof (cases "r4 = Granted")
      case True
      then have "h' = h4\<lparr>hl_level := SharedLock\<rparr>" "os' = os4" using run eq by (simp_all add: at_level_def)
      then show ?thesis using fr spec True
        by (simp add: handle_ok_def level_guards_def h1)
    next
      case False
      have h4: "h4 = h1" using spec(3) False by simp
      have "(r, h', os') = (case r4 of WouldBlock \<Rightarrow> (Inr False, h1\<lparr>hl_replay_guard := False\<rparr>, os4) | Failed e \<Rightarrow> (Inl e, h1\<lparr>hl_replay_guard := False\<rparr>, os4)
          | Granted \<Rightarrow> (r, h', os'))"
        unfolding run [symmetric] unfolding eq h4 using False by (cases r4) (simp_all only: try_result.case no_replay_def prod.case)
      then have "r \<noteq> Inr True" "h' = h1\<lparr>hl_replay_guard := False\<rparr>" "os' = os4" using False by (cases r4; simp)+
      then show ?thesis using fr h1 lv by (simp add: handle_ok_def holds_guards_def level_guards_def)
    qed
  qed
qed

lemma lock_reserved_ok:
  assumes ok: "handle_ok owner h os" "hl_level h = SharedLock" and run: "lock_byte G owner ReservedLock ReservedGuard RESERVED_BYTE (h, os) = (r, h', os')"
  shows "framed owner os os' \<and> handle_ok owner h' os' \<and> (level_guards h \<longrightarrow> level_guards h')"
proof -
  obtain r1 h1 os1 where a: "acquire G owner ReservedGuard ExclusiveMode RESERVED_BYTE 1 (h, os) = (r1, h1, os1)" by (metis prod_cases3)
  have g: "holds_guards owner (hl_guards h) os" "hl_guards h ReservedGuard = None" "hl_guards h ExclusiveGuard = None"
    using ok by (auto simp: handle_ok_def)
  have spec: "framed owner os os1 \<and> holds_guards owner (hl_guards h1) os1
      \<and> h1 = (if r1 = Granted then h\<lparr>hl_guards := (hl_guards h)(ReservedGuard \<mapsto> guard_range ReservedGuard)\<rparr> else h)"
    by (rule acquire_spec [OF g(1,2) _ _ _ _ a]) (simp_all add: guard_range_def guard_mode_def)
  note spec = spec [THEN conjunct1] spec [THEN conjunct2, THEN conjunct1] spec [THEN conjunct2, THEN conjunct2]
  show ?thesis
  proof (cases "r1 = Granted")
    case True
    then have "h' = h1\<lparr>hl_level := ReservedLock\<rparr>" "os' = os1" using run a by (simp_all add: lock_byte_def at_level_def)
    then show ?thesis using spec True g(3) ok(2)
      by (simp add: handle_ok_def level_guards_def)
  next
    case False
    then have "h' = h" "os' = os1" using run a spec by (cases r1; simp add: lock_byte_def)+
    then show ?thesis using spec False ok by (simp add: handle_ok_def)
  qed
qed

lemma lock_exclusive_ok:
  assumes ok: "handle_ok owner h os" "hl_level h = SharedLock \<or> hl_level h = ReservedLock" and run: "lock_exclusive G owner (h, os) = (r, h', os')"
  shows "framed owner os os' \<and> handle_ok owner h' os' \<and> (r = Inr True \<or> level_guards h \<and> is_ok r \<longrightarrow> level_guards h')"
proof -
  have g: "holds_guards owner (hl_guards h) os" using ok by (simp add: handle_ok_def)
  have noex: "hl_guards h ExclusiveGuard = None" using ok by (auto simp: handle_ok_def)
  let ?first = "if hl_guards h PendingGuard \<noteq> None then (Granted, h, os) else acquire G owner PendingGuard ExclusiveMode PENDING_BYTE 1 (h, os)"
  obtain r1 h1 os1 where p: "?first = (r1, h1, os1)" by (metis prod_cases3)
  have spec1: "framed owner os os1 \<and> holds_guards owner (hl_guards h1) os1 \<and> hl_level h1 = hl_level h
      \<and> (\<forall>name. name \<noteq> PendingGuard \<longrightarrow> hl_guards h1 name = hl_guards h name)"
  proof (cases "hl_guards h PendingGuard")
    case None
    then have a: "acquire G owner PendingGuard ExclusiveMode PENDING_BYTE 1 (h, os) = (r1, h1, os1)" using p by simp
    have "framed owner os os1 \<and> holds_guards owner (hl_guards h1) os1
        \<and> h1 = (if r1 = Granted then h\<lparr>hl_guards := (hl_guards h)(PendingGuard \<mapsto> guard_range PendingGuard)\<rparr> else h)"
      by (rule acquire_spec [OF g None _ _ _ _ a]) (simp_all add: guard_range_def guard_mode_def)
    then show ?thesis by auto
  next
    case (Some x)
    then have "h1 = h" "os1 = os" using p by simp_all
    then show ?thesis using g framed_refl by simp
  qed
  have keep: "handle_ok owner h1 os1 \<and> (level_guards h \<longrightarrow> level_guards h1)" using spec1 ok by (auto simp: handle_ok_def level_guards_def)
  show ?thesis
  proof (cases "r1 = Granted")
    case False
    then have "h' = h1" "os' = os1" "r \<noteq> Inr True" using run p by (cases r1; auto simp add: lock_exclusive_def)+
    then show ?thesis using spec1 keep by simp
  next
    case True
    obtain os2 where d: "drop_guard G owner SharedGuard (h1, os1) = (h1\<lparr>hl_guards := (hl_guards h1)(SharedGuard := None)\<rparr>, os2)"
        "framed owner os1 os2" "holds_guards owner ((hl_guards h1)(SharedGuard := None)) os2" using drop_guard_spec spec1 by blast
    let ?h2 = "h1\<lparr>hl_guards := (hl_guards h1)(SharedGuard := None)\<rparr>"
    obtain r3 h3 os3 where a: "acquire G owner ExclusiveGuard ExclusiveMode SHARED_FIRST SHARED_SIZE (?h2, os2) = (r3, h3, os3)" by (metis prod_cases3)
    have spec3: "framed owner os2 os3 \<and> holds_guards owner (hl_guards h3) os3
        \<and> h3 = (if r3 = Granted then ?h2\<lparr>hl_guards := (hl_guards ?h2)(ExclusiveGuard \<mapsto> guard_range ExclusiveGuard)\<rparr> else ?h2)"
      by (rule acquire_spec [OF _ _ _ _ _ _ a]) (use d(3) spec1 noex in \<open>simp_all add: guard_range_def guard_mode_def\<close>)
    note spec3 = spec3 [THEN conjunct1] spec3 [THEN conjunct2, THEN conjunct1] spec3 [THEN conjunct2, THEN conjunct2]
    have fr3: "framed owner os os3" using spec1 d(2) spec3 framed_trans by blast
    have eq: "lock_exclusive G owner (h, os) = (case (r3, h3, os3) of (Granted, s) \<Rightarrow> at_level ExclusiveLock s | (Failed e, s) \<Rightarrow> (Inl e, s)
        | (WouldBlock, s) \<Rightarrow> (case acquire G owner SharedGuard SharedMode SHARED_FIRST 1 s of
            (Granted, s) \<Rightarrow> (Inr False, s) | (_, s) \<Rightarrow> (Inl (Io Other ''Lock restore failed''), s)))"
      using p True d(1) a by (simp add: lock_exclusive_def)
    show ?thesis
    proof (cases "r3 = Granted")
      case True
      then have "h' = h3\<lparr>hl_level := ExclusiveLock\<rparr>" "os' = os3" using run eq by (simp_all add: at_level_def)
      then show ?thesis using fr3 spec3 True
        by (simp add: handle_ok_def level_guards_def)
    next
      case False
      then have h3: "h3 = ?h2" using spec3(3) by simp
      have weak: "handle_ok owner h3 os3" using keep spec3(2) noex spec1 by (auto simp: handle_ok_def h3)
      show ?thesis
      proof (cases r3)
        case (Failed e)
        then have "h' = h3" "os' = os3" "r = Inl e" using run eq by auto
        then show ?thesis using fr3 weak by simp
      next
        case WouldBlock
        obtain r4 h4 os4 where a4: "acquire G owner SharedGuard SharedMode SHARED_FIRST 1 (h3, os3) = (r4, h4, os4)" by (metis prod_cases3)
        have spec4: "framed owner os3 os4 \<and> holds_guards owner (hl_guards h4) os4
            \<and> h4 = (if r4 = Granted then h3\<lparr>hl_guards := (hl_guards h3)(SharedGuard \<mapsto> guard_range SharedGuard)\<rparr> else h3)"
          by (rule acquire_spec [OF _ _ _ _ _ _ a4]) (use spec1 spec3 False noex in \<open>simp_all add: guard_range_def guard_mode_def\<close>)
        note spec4 = spec4 [THEN conjunct1] spec4 [THEN conjunct2, THEN conjunct1] spec4 [THEN conjunct2, THEN conjunct2]
        have res: "h' = h4" "os' = os4" "r \<noteq> Inr True" "is_ok r \<Longrightarrow> r4 = Granted" using run eq WouldBlock a4 by (cases r4; auto)+
        have "handle_ok owner h4 os4" using weak spec4(2,3) by (auto simp: handle_ok_def)
        moreover have "r4 = Granted \<Longrightarrow> level_guards h \<Longrightarrow> level_guards h4" using spec4(3) keep spec1 ok(2) by (auto simp: level_guards_def h3)
        ultimately show ?thesis using framed_trans [OF fr3 spec4(1)] res by auto
      qed (use False in simp)
    qed
  qed
qed

lemma lock_files_ok:
  assumes ok: "handle_ok owner h os" and run: "lock_files G owner lock (h, os) = (r, h', os')" and request: "lock_request (hl_level h) lock"
  shows "framed owner os os' \<and> handle_ok owner h' os'
    \<and> (lock_restores (hl_level h) lock r \<or> level_guards h \<and> \<not> lock_strands (hl_level h) lock r \<longrightarrow> level_guards h')"
proof (cases "hl_level h = lock")
  case True
  then show ?thesis using run ok framed_refl by (auto simp: lock_files_def lock_restores_def)
next
  case False
  have same: ?thesis if "h' = h" "os' = os" "r = Inr False" using that ok framed_refl by (auto simp: lock_restores_def)
  show ?thesis
  proof (cases lock)
    case NoLock
    obtain os1 where "clear_guards G owner (h, os) = (h\<lparr>hl_guards := Map.empty\<rparr>, os1)" "framed owner os os1" "holds_guards owner Map.empty os1"
      using clear_guards_spec [of owner h os] ok unfolding handle_ok_def by blast
    then show ?thesis using run False NoLock by (auto simp: lock_files_def at_level_def no_replay_def handle_ok_def level_guards_def)
  next
    case SharedLock
    then have "lock_shared G owner (h, os) = (r, h', os')" using run False by (simp add: lock_files_def)
    from lock_shared_ok [OF ok this] show ?thesis using SharedLock by (auto simp: lock_restores_def lock_strands_def)
  next
    case ReservedLock
    then consider "hl_level h = NoLock" | "hl_level h = SharedLock" using request False by (auto simp: lock_request_def)
    then show ?thesis
    proof cases
      case 2
      then have "lock_byte G owner ReservedLock ReservedGuard RESERVED_BYTE (h, os) = (r, h', os')" using run ReservedLock by (simp add: lock_files_def)
      from lock_reserved_ok [OF ok 2 this] show ?thesis using ReservedLock by (auto simp: lock_restores_def)
    qed (use run ReservedLock same in \<open>simp add: lock_files_def\<close>)
  next
    case PendingLock
    then show ?thesis using request by (simp add: lock_request_def)
  next
    case ExclusiveLock
    have "hl_level h \<noteq> PendingLock" using ok by (simp add: handle_ok_def)
    then consider "hl_level h = NoLock" | "hl_level h = SharedLock \<or> hl_level h = ReservedLock" using False ExclusiveLock by (cases "hl_level h") simp_all
    then show ?thesis
    proof cases
      case 2
      then have "lock_exclusive G owner (h, os) = (r, h', os')" using run False ExclusiveLock by (auto simp: lock_files_def)
      from lock_exclusive_ok [OF ok 2 this] show ?thesis using ExclusiveLock by (auto simp: lock_restores_def lock_strands_def)
    qed (use run ExclusiveLock same in \<open>simp add: lock_files_def\<close>)
  qed
qed

lemma runs_ok:
  assumes "lock_runs G s stranded (hs, os)" "\<forall>owner. handle_ok owner (fst s owner) (snd s) \<and> level_guards (fst s owner)" "compatible (snd s)"
  shows "(\<forall>owner. handle_ok owner (hs owner) os \<and> (owner \<notin> stranded \<longrightarrow> level_guards (hs owner))) \<and> compatible os"
  using assms
proof (induction stranded "(hs, os)" arbitrary: hs os rule: lock_runs.induct)
  case (step stranded hs os owner lock r h' os')
  have IH: "\<forall>owner. handle_ok owner (hs owner) os \<and> (owner \<notin> stranded \<longrightarrow> level_guards (hs owner))" "compatible os" using step by simp_all
  have one: "framed owner os os' \<and> handle_ok owner h' os'
      \<and> (lock_restores (hl_level (hs owner)) lock r \<or> level_guards (hs owner) \<and> \<not> lock_strands (hl_level (hs owner)) lock r \<longrightarrow> level_guards h')"
    using lock_files_ok [OF _ step(3,4)] IH(1) by blast
  have "handle_ok other (hs other) os'" if "other \<noteq> owner" for other
  proof -
    have "held os' other = held os other" using one that by (simp add: framed_def)
    then show ?thesis using IH(1) by (simp add: handle_ok_def holds_guards_def)
  qed
  moreover have "level_guards h'" if "owner \<notin> stranded_after (hl_level (hs owner)) lock r owner stranded"
    using one that IH(1) by (auto simp: stranded_after_def split: if_splits)
  moreover have "other \<notin> stranded_after (hl_level (hs owner)) lock r owner stranded \<Longrightarrow> other \<noteq> owner \<Longrightarrow> other \<notin> stranded" for other
    by (auto simp: stranded_after_def split: if_splits)
  ultimately show ?case using one IH by (auto simp: framed_def)
qed simp

text \<open>Two handles never hold conflicting guards, stranded or not.\<close>

lemma guards_exclude:
  assumes "\<forall>owner. handle_ok owner (hs owner) os" "compatible os" "a \<noteq> b" "hl_guards (hs a) x \<noteq> None" "hl_guards (hs b) y \<noteq> None"
    "byte \<in> guard_bytes x" "byte \<in> guard_bytes y"
  shows "x = SharedGuard \<and> y = SharedGuard"
proof -
  have h: "held os a byte = Some (guard_mode x)" "held os b byte = Some (guard_mode y)"
    using assms(1,4-7) holds_guardsD(2) unfolding handle_ok_def by (metis option.exhaust)+
  have "p \<noteq> q \<Longrightarrow> held os p byte = Some ExclusiveMode \<Longrightarrow> held os q byte = None" for p q using assms(2) unfolding compatible_def by blast
  from this [of a b] this [of b a] h assms(3) show ?thesis by (auto simp: guard_mode_def split: if_splits)
qed

lemma levels_exclude:
  assumes "\<forall>owner. handle_ok owner (hs owner) os" "compatible os" "a \<noteq> b" "level_guards (hs a)" "level_guards (hs b)"
  shows "(hl_level (hs a) = ExclusiveLock \<longrightarrow> hl_level (hs b) = NoLock) \<and> \<not> (is_reserved (hs a) \<and> is_reserved (hs b))"
proof -
  note apart = guards_exclude [OF assms(1,2)]
  have first: "SHARED_FIRST \<in> guard_bytes SharedGuard" "SHARED_FIRST \<in> guard_bytes ExclusiveGuard" "RESERVED_BYTE \<in> guard_bytes ReservedGuard"
    by (simp_all add: guard_bytes_def guard_range_def SHARED_SIZE_def)
  have alone: "hl_level (hs y) = NoLock" if l: "hl_level (hs x) = ExclusiveLock" "x \<noteq> y" "level_guards (hs x)" "level_guards (hs y)" for x y
  proof -
    have x: "hl_guards (hs x) ExclusiveGuard \<noteq> None" using l by (simp add: level_guards_def)
    have "hl_guards (hs y) SharedGuard = None" "hl_guards (hs y) ExclusiveGuard = None"
      using apart [OF l(2) x _ first(2) first(1)] apart [OF l(2) x _ first(2) first(2)] by blast+
    then show ?thesis using l(4) by (cases "hl_level (hs y)") (simp_all add: level_guards_def)
  qed
  have "\<not> (hl_level (hs a) = ReservedLock \<and> hl_level (hs b) = ReservedLock)"
    using apart [OF assms(3) _ _ first(3) first(3)] assms(4,5) by (auto simp: level_guards_def)
  moreover have "hl_level (hs a) \<noteq> PendingLock" "hl_level (hs b) \<noteq> PendingLock" using assms(1) by (simp_all add: handle_ok_def)
  ultimately show ?thesis using alone [OF _ assms(3-5)] alone [OF _ assms(3) [symmetric] assms(5,4)] by (auto simp: is_reserved_def)
qed

end

subsection \<open>A lock table\<close>

text \<open>The locks of every owner, byte by byte; it grants what no other owner's lock conflicts with.\<close>

type_synonym lock_table = "((nat \<times> int) \<times> lock_mode) list"

definition in_range :: "int \<Rightarrow> int \<Rightarrow> int \<Rightarrow> bool" where
  "in_range first len b \<longleftrightarrow> first \<le> b \<and> b < first + len"

definition table_held :: "lock_table \<Rightarrow> nat \<Rightarrow> int \<Rightarrow> lock_mode option" where
  "table_held os owner b = map_of os (owner, b)"

definition table_drop :: "nat \<Rightarrow> int \<Rightarrow> int \<Rightarrow> lock_table \<Rightarrow> lock_table" where
  "table_drop owner first len os = filter (\<lambda>((o', b), m). \<not> (o' = owner \<and> in_range first len b)) os"

definition table_try :: "nat \<Rightarrow> lock_mode \<Rightarrow> int \<Rightarrow> int \<Rightarrow> lock_table \<Rightarrow> try_result \<times> lock_table" where
  "table_try owner mode first len os =
     (if list_ex (\<lambda>((o', b), m). o' \<noteq> owner \<and> in_range first len b \<and> \<not> (m = SharedMode \<and> mode = SharedMode)) os
      then (WouldBlock, os)
      else (Granted, map (\<lambda>b. ((owner, b), mode)) [first..first + len - 1] @ table_drop owner first len os))"

definition table_locks :: "lock_table guard_ops" where
  "table_locks = \<lparr>g_try = table_try, g_drop = table_drop\<rparr>"

lemma table_drop_held: "table_held (table_drop owner first len os) o' b = (if o' = owner \<and> in_range first len b then None else table_held os o' b)"
  by (induction os) (auto simp: table_held_def table_drop_def)

lemma map_of_owner: "map_of (map (\<lambda>b. ((owner, b), mode)) bs) (o', b) = (if o' = owner \<and> b \<in> set bs then Some mode else None)"
  by (induction bs) auto

lemma table_conflicts:
  assumes "\<not> list_ex (\<lambda>((o', b), m). o' \<noteq> owner \<and> in_range first len b \<and> \<not> (m = SharedMode \<and> mode = SharedMode)) os" "in_range first len b" "other \<noteq> owner"
  shows "table_held os other b = None \<or> table_held os other b = Some SharedMode \<and> mode = SharedMode"
proof (cases "table_held os other b")
  case (Some m)
  then have "((other, b), m) \<in> set os" unfolding table_held_def by (rule map_of_SomeD)
  then show ?thesis using assms Some by (fastforce simp: list_ex_iff)
qed simp

interpretation lt: advisory_locks table_locks table_held
proof
  fix owner mode first len os os'
  assume t: "g_try table_locks owner mode first len os = (Granted, os')"
  then have free: "\<not> list_ex (\<lambda>((o', b), m). o' \<noteq> owner \<and> in_range first len b \<and> \<not> (m = SharedMode \<and> mode = SharedMode)) os"
    and os': "os' = map (\<lambda>b. ((owner, b), mode)) [first..first + len - 1] @ table_drop owner first len os"
    by (auto simp: table_locks_def table_try_def split: if_splits)
  have "table_held os' o' b = (if o' = owner \<and> b \<in> {first..<first + len} then Some mode else table_held os o' b)" for o' b
    using table_drop_held [of owner first len os o' b] unfolding os' table_held_def
    by (simp only: map_of_append map_add_def map_of_owner) (simp add: in_range_def)
  then show "(\<forall>b \<in> {first..<first + len}. \<forall>other. other \<noteq> owner \<longrightarrow> table_held os other b = None \<or> table_held os other b = Some SharedMode \<and> mode = SharedMode)
      \<and> (\<forall>o' b. table_held os' o' b = (if o' = owner \<and> b \<in> {first..<first + len} then Some mode else table_held os o' b))"
    using table_conflicts [OF free] by (simp add: in_range_def)
next
  fix owner mode first len os r os'
  assume "g_try table_locks owner mode first len os = (r, os')" "r \<noteq> Granted"
  then show "table_held os' = table_held os" by (auto simp: table_locks_def table_try_def split: if_splits)
next
  fix owner first len os o' b
  show "table_held (g_drop table_locks owner first len os) o' b = (if o' = owner \<and> b \<in> {first..<first + len} then None else table_held os o' b)"
    using table_drop_held by (simp add: table_locks_def in_range_def)
qed

subsection \<open>Exclusion\<close>

definition unlocked :: lock_handle where
  "unlocked = \<lparr>hl_level = NoLock, hl_guards = Map.empty, hl_has_gate = True, hl_replay_guard = False\<rparr>"

text \<open>C27: whatever sequence of lock requests the handles of a database make in SQLite's order (the pending
  level is never asked for, the reserved one only from the shared one), over advisory byte-range locks and
  whatever the requests answer, errors included: no two handles hold conflicting guards (an exclusive guard
  excludes every shared and exclusive guard of another handle, a reserved or pending guard the same guard of
  another). A handle that holds the exclusive level is alone with the file (every other handle is
  unlocked) and at most one handle is at the reserved level or above, among the handles that are not stranded. A
  handle is stranded from the moment its downgrade to the shared level is refused or its exclusive request
  returns an error, until it is granted another level than the reserved one: then its level is higher than its locks
  (\<open>src/src/tiered/handle.rs:4228\<close>; \<open>refused_downgrade_keeps_level\<close> below shows a stranded handle at the
  reserved level beside an exclusive one).\<close>

theorem exclusive_excludes:
  assumes "advisory_locks G held" "lock_runs G (hs0, os0) stranded (hs, os)"
    "\<forall>owner. hl_level (hs0 owner) = NoLock \<and> hl_guards (hs0 owner) = Map.empty" "\<forall>owner b. held os0 owner b = None" "a \<noteq> b"
  shows "(hl_guards (hs a) ExclusiveGuard \<noteq> None \<longrightarrow> hl_guards (hs b) SharedGuard = None \<and> hl_guards (hs b) ExclusiveGuard = None)
    \<and> \<not> (hl_guards (hs a) ReservedGuard \<noteq> None \<and> hl_guards (hs b) ReservedGuard \<noteq> None)
    \<and> \<not> (hl_guards (hs a) PendingGuard \<noteq> None \<and> hl_guards (hs b) PendingGuard \<noteq> None)
    \<and> (a \<notin> stranded \<and> b \<notin> stranded \<longrightarrow>
        (hl_level (hs a) = ExclusiveLock \<longrightarrow> hl_level (hs b) = NoLock) \<and> \<not> (is_reserved (hs a) \<and> is_reserved (hs b)))"
proof -
  have init: "\<forall>owner. advisory_locks.handle_ok held owner (fst (hs0, os0) owner) (snd (hs0, os0)) \<and> level_guards (fst (hs0, os0) owner)"
      "advisory_locks.compatible held (snd (hs0, os0))"
    using assms(3,4) by (simp_all add: advisory_locks.handle_ok_def [OF assms(1)] advisory_locks.holds_guards_def [OF assms(1)]
      advisory_locks.compatible_def [OF assms(1)] level_guards_def)
  note inv = advisory_locks.runs_ok [OF assms(1,2) init]
  then have ok: "\<forall>owner. advisory_locks.handle_ok held owner (hs owner) os" "advisory_locks.compatible held os" by blast+
  note apart = advisory_locks.guards_exclude [OF assms(1) ok assms(5)]
  have bytes: "SHARED_FIRST \<in> guard_bytes SharedGuard" "SHARED_FIRST \<in> guard_bytes ExclusiveGuard" "RESERVED_BYTE \<in> guard_bytes ReservedGuard"
      "PENDING_BYTE \<in> guard_bytes PendingGuard"
    by (simp_all add: guard_bytes_def guard_range_def SHARED_SIZE_def)
  show ?thesis
    using apart [OF _ _ bytes(2,1)] apart [OF _ _ bytes(2,2)] apart [OF _ _ bytes(3,3)] apart [OF _ _ bytes(4,4)]
      advisory_locks.levels_exclude [OF assms(1) ok assms(5)] inv by blast
qed

text \<open>A writer takes the file: it locks through the shared and the reserved level while another handle asks.\<close>

fun lock_script :: "(nat \<times> lock_kind) list \<Rightarrow> (nat \<Rightarrow> lock_handle) \<times> lock_table \<Rightarrow> bool io_result list \<times> (nat \<Rightarrow> lock_handle) \<times> lock_table" where
  "lock_script [] s = ([], s)"
| "lock_script ((owner, lock) # rest) (hs, os) =
     (case lock_files table_locks owner lock (hs owner, os) of
        (r, h, os) \<Rightarrow> (case lock_script rest (hs(owner := h), os) of (rs, s) \<Rightarrow> (r # rs, s)))"

fun scripted :: "(nat \<times> lock_kind) list \<Rightarrow> (nat \<Rightarrow> lock_handle) \<times> lock_table \<Rightarrow> bool" where
  "scripted [] s \<longleftrightarrow> True"
| "scripted ((owner, lock) # rest) (hs, os) \<longleftrightarrow>
     (case lock_files table_locks owner lock (hs owner, os) of
        (r, h, os) \<Rightarrow> lock_request (hl_level (hs owner)) lock \<and> scripted rest (hs(owner := h), os))"

fun stranded_by :: "(nat \<times> lock_kind) list \<Rightarrow> (nat \<Rightarrow> lock_handle) \<times> lock_table \<Rightarrow> nat set \<Rightarrow> nat set" where
  "stranded_by [] s stranded = stranded"
| "stranded_by ((owner, lock) # rest) (hs, os) stranded =
     (case lock_files table_locks owner lock (hs owner, os) of
        (r, h, os) \<Rightarrow> stranded_by rest (hs(owner := h), os) (stranded_after (hl_level (hs owner)) lock r owner stranded))"

lemma script_runs:
  assumes "lock_runs table_locks s stranded s1" "scripted requests s1"
  shows "lock_runs table_locks s (stranded_by requests s1 stranded) (snd (lock_script requests s1))"
  using assms
proof (induction requests arbitrary: s1 stranded)
  case (Cons q rest)
  obtain owner lock where q: "q = (owner, lock)" by force
  obtain hs os where s1: "s1 = (hs, os)" by force
  obtain r h os1 where l: "lock_files table_locks owner lock (hs owner, os) = (r, h, os1)" by (metis prod_cases3)
  have p: "lock_request (hl_level (hs owner)) lock" "scripted rest (hs(owner := h), os1)" using Cons(3) by (simp_all add: q s1 l)
  show ?case using Cons(1) [OF lock_runs.step [OF Cons(2) [unfolded s1] l p(1)] p(2)] by (simp add: q s1 l case_prod_beta)
qed simp

definition taking_over :: "(nat \<times> lock_kind) list" where
  "taking_over = [(0, SharedLock), (1, SharedLock), (0, ReservedLock), (1, ReservedLock), (1, NoLock), (0, ExclusiveLock), (1, SharedLock)]"

definition after_takeover :: "(nat \<Rightarrow> lock_handle) \<times> lock_table" where
  "after_takeover = snd (lock_script taking_over (\<lambda>_. unlocked, []))"

theorem exclusive_excludes_witness:
  "fst (lock_script taking_over (\<lambda>_. unlocked, [])) = [Inr True, Inr True, Inr True, Inr False, Inr True, Inr True, Inr False]
   \<and> stranded_by taking_over (\<lambda>_. unlocked, []) {} = {} \<and> hl_level (fst after_takeover 0) = ExclusiveLock
   \<and> hl_level (fst after_takeover 1) = NoLock \<and> \<not> (is_reserved (fst after_takeover 0) \<and> is_reserved (fst after_takeover 1))"
proof -
  have none: "stranded_by taking_over (\<lambda>_. unlocked, []) {} = {}" by code_simp
  have "lock_runs table_locks (\<lambda>_. unlocked, []) (stranded_by taking_over (\<lambda>_. unlocked, []) {}) (fst after_takeover, snd after_takeover)"
    unfolding after_takeover_def prod.collapse by (rule script_runs [OF lock_runs.start]) code_simp
  then have run: "lock_runs table_locks (\<lambda>_. unlocked, []) {} (fst after_takeover, snd after_takeover)" unfolding none .
  have "(hl_level (fst after_takeover 0) = ExclusiveLock \<longrightarrow> hl_level (fst after_takeover 1) = NoLock) \<and> \<not> (is_reserved (fst after_takeover 0) \<and> is_reserved (fst after_takeover 1))"
    using exclusive_excludes [OF lt.advisory_locks_axioms run, of 0 1] by (simp add: unlocked_def table_held_def)
  moreover have "fst (lock_script taking_over (\<lambda>_. unlocked, [])) = [Inr True, Inr True, Inr True, Inr False, Inr True, Inr True, Inr False]
      \<and> hl_level (fst after_takeover 0) = ExclusiveLock" by code_simp
  ultimately show ?thesis using none by blast
qed

text \<open>
  The level of a stranded handle outlives its locks: the second handle's refused exclusive
  request leaves it the pending byte, so the first handle's return from the reserved to the shared level is
  refused after its guards were dropped; it stays at the reserved level with no lock while the second goes exclusive.
\<close>

definition failed_downgrade :: "(nat \<times> lock_kind) list" where
  "failed_downgrade = [(0, SharedLock), (0, ReservedLock), (1, SharedLock), (1, ExclusiveLock), (0, SharedLock), (1, ExclusiveLock)]"

lemma refused_downgrade_keeps_level:
  "case lock_script failed_downgrade (\<lambda>_. unlocked, []) of (rs, hs, os) \<Rightarrow>
     rs = [Inr True, Inr True, Inr True, Inr False, Inr False, Inr True]
     \<and> hl_level (hs 0) = ReservedLock \<and> hl_guards (hs 0) SharedGuard = None \<and> hl_guards (hs 0) ReservedGuard = None
     \<and> hl_level (hs 1) = ExclusiveLock \<and> stranded_by failed_downgrade (\<lambda>_. unlocked, []) {} = {0}"
  by code_simp

end
