(* ===== verification/Handle.thy ===== *)
theory Handle
  imports Flush_Theorems Resize Handle_Lock
begin

text \<open>
  The database handle of a tiered file (\<open>TurboliteHandle\<close> of \<open>src/src/tiered/handle.rs\<close>): page
  writes, size, truncation, the local checkpoint, the commit at close and the lock downgrade. What the
  handle shares with the flush (backend, cache, manifest, pending groups, pending logs, log files, the local
  state file) is the flush state; the rest is private to the handle.

  The clock, the nonce of a cache frame and the answers of the file system to the staging log are
  arguments of each operation. A log that is open holds some prefix of its content, which nothing in the
  process reads; it enters the log files when it is finalized. Passthrough files are modelled apart.
\<close>

subsection \<open>State\<close>

record handle =
  hn_shared :: flush_state
  hn_seq :: nat
  hn_dirty :: "nat set"
  hn_page_size :: nat
  hn_pending_count :: nat
  hn_dirty_since_sync :: bool
  hn_synced :: bool
  hn_generation :: nat
  hn_cookie :: "nat option"
  hn_vacuum_keys :: "string list option"
  hn_writer :: "staging_writer option"

record handle_env =
  he_flush :: flush_env
  he_local_only :: bool
  he_ppg :: nat
  he_read_only :: bool
  he_staging_dir :: string
  he_evict_on_checkpoint :: bool

text \<open>What the file system answers when a page is staged: the log cannot be opened, or part of a record is written.\<close>

datatype staging_answer = Staged | OpenFailed io_error | AppendFailed io_error nat

record write_answers =
  wa_nonce :: bytes
  wa_now :: rat
  wa_staging :: staging_answer

record sync_answers =
  sa_now :: rat
  sa_finalize :: "io_error option"
  sa_fault :: "nat \<Rightarrow> write_fault"

abbreviation hn_manifest :: "handle \<Rightarrow> manifest" where "hn_manifest h \<equiv> fs_manifest (hn_shared h)"
abbreviation hn_cache :: "handle \<Rightarrow> disk_cache" where "hn_cache h \<equiv> fs_cache (hn_shared h)"
abbreviation he_codec :: "handle_env \<Rightarrow> codec" where "he_codec E \<equiv> fe_codec (he_flush E)"

definition with_cache :: "(disk_cache \<Rightarrow> disk_cache) \<Rightarrow> handle \<Rightarrow> handle" where
  "with_cache f h = h\<lparr>hn_shared := (hn_shared h)\<lparr>fs_cache := f (fs_cache (hn_shared h))\<rparr>\<rparr>"

definition with_manifest :: "manifest \<Rightarrow> handle \<Rightarrow> handle" where
  "with_manifest m h = h\<lparr>hn_shared := (hn_shared h)\<lparr>fs_manifest := m\<rparr>\<rparr>"

definition on_cache :: "'a cache_op \<Rightarrow> handle \<Rightarrow> 'a io_result \<times> handle" where
  "on_cache f h = (case f (hn_cache h) of (r, dc) \<Rightarrow> (r, with_cache (\<lambda>_. dc) h))"

lemma with_cache_fields [simp]:
  "hn_cache (with_cache f h) = f (hn_cache h)" "hn_manifest (with_cache f h) = hn_manifest h"
  "fs_backend (hn_shared (with_cache f h)) = fs_backend (hn_shared h)" "fs_dirty (hn_shared (with_cache f h)) = fs_dirty (hn_shared h)"
  "fs_pending (hn_shared (with_cache f h)) = fs_pending (hn_shared h)" "fs_logs (hn_shared (with_cache f h)) = fs_logs (hn_shared h)"
  "hn_seq (with_cache f h) = hn_seq h" "hn_dirty (with_cache f h) = hn_dirty h" "hn_page_size (with_cache f h) = hn_page_size h"
  "hn_pending_count (with_cache f h) = hn_pending_count h" "hn_writer (with_cache f h) = hn_writer h" "hn_cookie (with_cache f h) = hn_cookie h"
  by (simp_all add: with_cache_def)

lemma with_manifest_fields [simp]:
  "hn_cache (with_manifest m h) = hn_cache h" "hn_manifest (with_manifest m h) = m"
  "fs_backend (hn_shared (with_manifest m h)) = fs_backend (hn_shared h)" "fs_dirty (hn_shared (with_manifest m h)) = fs_dirty (hn_shared h)"
  "fs_pending (hn_shared (with_manifest m h)) = fs_pending (hn_shared h)" "fs_logs (hn_shared (with_manifest m h)) = fs_logs (hn_shared h)"
  "hn_seq (with_manifest m h) = hn_seq h" "hn_dirty (with_manifest m h) = hn_dirty h" "hn_page_size (with_manifest m h) = hn_page_size h"
  "hn_pending_count (with_manifest m h) = hn_pending_count h" "hn_writer (with_manifest m h) = hn_writer h"
  by (simp_all add: with_manifest_def)

subsection \<open>Size\<close>

definition effective_page_count :: "handle \<Rightarrow> nat" where
  "effective_page_count h = max (hn_pending_count h) (page_count (hn_manifest h))"

definition handle_size :: "handle \<Rightarrow> nat" where
  "handle_size h =
     (let pc = effective_page_count h; ps = page_size (hn_manifest h) in
      if 0 < ps \<and> 0 < pc then (pc * ps) mod U64_SIZE else 0)"

subsection \<open>Interior pages\<close>

definition header_offset :: "nat \<Rightarrow> nat" where
  "header_offset page_num = (if page_num = 0 then 100 else 0)"

definition is_interior_type :: "byte \<Rightarrow> bool" where
  "is_interior_type b \<longleftrightarrow> b = 0x05 \<or> b = 0x02"

definition mark_if_interior :: "manifest \<Rightarrow> nat \<Rightarrow> bytes \<Rightarrow> rat \<Rightarrow> disk_cache \<Rightarrow> disk_cache" where
  "mark_if_interior m page_num buf now dc =
     (case get buf (header_offset page_num) of
        None \<Rightarrow> dc
      | Some b \<Rightarrow>
          if is_interior_type b
          then (case page_location m page_num of None \<Rightarrow> dc | Some loc \<Rightarrow> mark_interior_group (pl_group_id loc) page_num (pl_index loc) now dc)
          else dc)"

text \<open>A page served by a read is classified the same way; index leaves go to their own tier.\<close>

definition detect_interior_page :: "manifest \<Rightarrow> nat \<Rightarrow> bytes \<Rightarrow> rat \<Rightarrow> disk_cache \<Rightarrow> disk_cache" where
  "detect_interior_page m page_num buf now dc =
     (case get buf (header_offset page_num) of
        None \<Rightarrow> dc
      | Some b \<Rightarrow>
          if is_interior_type b
          then (case page_location m page_num of None \<Rightarrow> dc | Some loc \<Rightarrow> mark_interior_group (pl_group_id loc) page_num (pl_index loc) now dc)
          else if b = 0x0A \<and> is_valid_btree_page buf (header_offset page_num)
          then (case page_location m page_num of None \<Rightarrow> dc | Some loc \<Rightarrow> mark_index_page page_num (pl_group_id loc) (pl_index loc) now dc)
          else dc)"

text \<open>The pages that were just given a group are read back for their type; one buffer serves all reads.\<close>

fun scan_new_pages :: "codec \<Rightarrow> manifest \<Rightarrow> rat \<Rightarrow> nat list \<Rightarrow> bytes \<Rightarrow> disk_cache \<Rightarrow> disk_cache" where
  "scan_new_pages C m now [] buf dc = dc"
| "scan_new_pages C m now (p # ps) buf dc =
     (case page_location m p of
        None \<Rightarrow> scan_new_pages C m now ps buf dc
      | Some loc \<Rightarrow>
          (case read_page C p buf dc of
             Inl e \<Rightarrow> scan_new_pages C m now ps buf dc
           | Inr buf' \<Rightarrow> scan_new_pages C m now ps buf' (mark_if_interior m p buf' now dc)))"

subsection \<open>Writing a page\<close>

definition adopt_page_size :: "bytes \<Rightarrow> handle \<Rightarrow> handle" where
  "adopt_page_size buf h =
     (if hn_page_size h = 0
      then with_cache (set_page_size (length buf mod U32_SIZE)) (h\<lparr>hn_page_size := length buf mod U32_SIZE\<rparr>)
      else h)"

definition schema_cookie :: "bytes \<Rightarrow> nat option" where
  "schema_cookie page = (if 28 \<le> length page \<and> be_val (bslice 24 4 page) \<noteq> 0 then Some (be_val (bslice 24 4 page)) else None)"

definition note_cookie :: "codec \<Rightarrow> nat \<Rightarrow> bytes \<Rightarrow> handle \<Rightarrow> handle" where
  "note_cookie C page_num buf h =
     (if page_num = 0 \<and> hn_cookie h = None then
        let old = (case read_page C 0 (zeros (hn_page_size h)) (hn_cache h) of Inl e \<Rightarrow> None | Inr page \<Rightarrow> schema_cookie page)
        in h\<lparr>hn_cookie := (if old = None then schema_cookie buf else old)\<rparr>
      else h)"

definition cache_dirty_page :: "handle_env \<Rightarrow> write_answers \<Rightarrow> nat \<Rightarrow> bytes \<Rightarrow> handle \<Rightarrow> unit io_result \<times> handle" where
  "cache_dirty_page E a page_num buf h =
     and_then (on_cache (write_page (he_codec E) (wa_nonce a) (wa_now a) page_num buf) h) (\<lambda>_ h.
       (Inr (), with_cache (\<lambda>dc. mark_if_interior (hn_manifest h) page_num buf (wa_now a) (clear_pages_from_mem_cache [page_num] dc)) h))"

definition open_staging :: "handle_env \<Rightarrow> write_answers \<Rightarrow> handle \<Rightarrow> unit io_result \<times> handle" where
  "open_staging E a h =
     (if hn_writer h \<noteq> None then (Inr (), h)
      else let v = hn_seq h; h = h\<lparr>hn_seq := (v + 1) mod U64_SIZE\<rparr> in
        case wa_staging a of
          OpenFailed e \<Rightarrow> (Inl e, h)
        | _ \<Rightarrow> let w = open_writer (he_staging_dir E) v (hn_page_size h)
               in (Inr (), h\<lparr>hn_writer := Some w, hn_shared := (hn_shared h)\<lparr>fs_logs := (fs_logs (hn_shared h))(sw_path w \<mapsto> [])\<rparr>\<rparr>))"

definition append_staged :: "write_answers \<Rightarrow> nat \<Rightarrow> bytes \<Rightarrow> handle \<Rightarrow> unit io_result \<times> handle" where
  "append_staged a page_num buf h =
     (case hn_writer h of
        None \<Rightarrow> (Inr (), h)
      | Some w \<Rightarrow>
          (case wa_staging a of
             AppendFailed e n \<Rightarrow> (Inl e, h\<lparr>hn_writer := Some (w\<lparr>sw_content := sw_content w @ take n (le_bytes 8 page_num @ buf)\<rparr>)\<rparr>)
           | _ \<Rightarrow> (Inr (), h\<lparr>hn_writer := Some (append_page w page_num buf)\<rparr>)))"

definition stage_page :: "handle_env \<Rightarrow> write_answers \<Rightarrow> nat \<Rightarrow> bytes \<Rightarrow> handle \<Rightarrow> unit io_result \<times> handle" where
  "stage_page E a page_num buf h =
     (if he_local_only E \<and> \<not> fe_is_local (he_flush E) then
        if length buf \<noteq> hn_page_size h
        then (Inl (Io InvalidInput ''local-then-flush staging expects full page writes''), h)
        else and_then (open_staging E a h) (\<lambda>_ h. append_staged a page_num buf h)
      else (Inr (), h))"

definition with_geometry :: "handle_env \<Rightarrow> nat \<Rightarrow> nat \<Rightarrow> manifest \<Rightarrow> manifest" where
  "with_geometry E len spf m =
     m\<lparr>page_size := (if page_size m = 0 then len mod U32_SIZE else page_size m),
       pages_per_group := (if pages_per_group m = 0 then he_ppg E else pages_per_group m),
       sub_pages_per_frame := (if sub_pages_per_frame m = 0 then spf else sub_pages_per_frame m)\<rparr>"

definition publish_geometry :: "handle_env \<Rightarrow> bytes \<Rightarrow> handle \<Rightarrow> handle" where
  "publish_geometry E buf h =
     (let m = hn_manifest h in
      if page_size m = 0 \<or> pages_per_group m = 0 \<or> sub_pages_per_frame m = 0
      then with_manifest (with_geometry E (length buf) (dc_spf (hn_cache h)) m) h
      else h)"

definition note_dirty :: "handle_env \<Rightarrow> nat \<Rightarrow> bytes \<Rightarrow> handle \<Rightarrow> handle" where
  "note_dirty E page_num buf h =
     (let h = publish_geometry E buf (h\<lparr>hn_dirty := insert page_num (hn_dirty h), hn_dirty_since_sync := True, hn_synced := False,
                hn_pending_count := max (page_num + 1) (hn_pending_count h)\<rparr>)
      in with_cache (ensure_group_capacity (total_groups_for (effective_page_count h) (he_ppg E))) h)"

definition handle_write :: "handle_env \<Rightarrow> write_answers \<Rightarrow> bytes \<Rightarrow> nat \<Rightarrow> handle \<Rightarrow> unit io_result \<times> handle" where
  "handle_write E a buf offset h =
     (if he_read_only E then (Inl (Io PermissionDenied ''TurboliteHandle is read-only''), h)
      else let h = adopt_page_size buf h in
        if hn_page_size h = 0 then (panic ''attempt to divide by zero'', h)
        else let page_num = offset div hn_page_size h; h = note_cookie (he_codec E) page_num buf h in
          and_then (cache_dirty_page E a page_num buf h) (\<lambda>_ h.
          and_then (stage_page E a page_num buf h) (\<lambda>_ h.
            (Inr (), note_dirty E page_num buf h))))"

subsection \<open>Truncation and growth\<close>

definition handle_set_len :: "handle_env \<Rightarrow> nat \<Rightarrow> handle \<Rightarrow> unit io_result \<times> handle" where
  "handle_set_len E len h =
     (if hn_page_size h = 0 then (Inr (), h)
      else let n = set_len_page_count len (hn_page_size h); old = page_count (hn_manifest h) in
        case set_len_manifest (fe_tree_iter (he_flush E)) (hn_manifest h) n of
          None \<Rightarrow> (panic ''chunk size must be non-zero'', h)
        | Some m \<Rightarrow>
            let h = with_manifest m (h\<lparr>hn_pending_count := n, hn_dirty := {p \<in> hn_dirty h. p < n}\<rparr>) in
            if n < old then
              and_then (on_cache (truncate_to_page_count (fe_iter (he_flush E)) (fe_chunk_iter (he_flush E)) n (hn_page_size h)) h) (\<lambda>_ h.
                case bump_generation (hn_cache h) of (g, dc) \<Rightarrow> (Inr (), with_cache (\<lambda>_. dc) (h\<lparr>hn_generation := g\<rparr>)))
            else (Inr (), h))"

subsection \<open>The local checkpoint\<close>

text \<open>New pages get a group, the groups of all dirty pages become pending.\<close>

definition checkpoint_groups :: "handle_env \<Rightarrow> rat \<Rightarrow> handle \<Rightarrow> unit io_result \<times> handle" where
  "checkpoint_groups E now h =
     (let m = hn_manifest h; unassigned = filter (\<lambda>p. page_location m p = None) (fe_iter (he_flush E) (hn_dirty h)) in
      case assign_new_pages_to_groups m unassigned (he_ppg E) of
        None \<Rightarrow> (panic ''chunk size must be non-zero'', h)
      | Some m \<Rightarrow>
          if \<exists>p \<in> hn_dirty h. page_location m p = None
          then (panic ''page must have group assignment after new-page assignment'', h)
          else
            let h = with_cache (scan_new_pages (he_codec E) m now unassigned (zeros (hn_page_size h))) (with_manifest m h)
            in (Inr (), h\<lparr>hn_shared := (hn_shared h)\<lparr>fs_dirty := fs_dirty (hn_shared h) \<union> pl_group_id ` Option.these (page_location m ` hn_dirty h)\<rparr>\<rparr>))"

definition clean_handle :: "handle \<Rightarrow> handle" where
  "clean_handle h =
     (case bump_generation (hn_cache h) of (g, dc) \<Rightarrow>
        with_cache (\<lambda>_. dc) (h\<lparr>hn_dirty := {}, hn_dirty_since_sync := False, hn_generation := g\<rparr>))"

definition file_name :: "string \<Rightarrow> string" where
  "file_name path = rev (takeWhile (\<lambda>c. c \<noteq> CHR ''/'') (rev path))"

definition persist_checkpoint :: "handle_env \<Rightarrow> sync_answers \<Rightarrow> nat \<Rightarrow> handle \<Rightarrow> unit io_result \<times> handle" where
  "persist_checkpoint E a k h =
     (let s = hn_shared h; sd = fe_serde (he_flush E); gids = fe_iter (he_flush E) (fs_dirty s) in
      case persist_manifest_local sd (sa_fault a k) (fs_manifest s) (fs_local s) of
        (Inl e, fl) \<Rightarrow> (Inl e, h\<lparr>hn_shared := s\<lparr>fs_local := fl\<rparr>\<rparr>)
      | (Inr _, fl) \<Rightarrow>
          (case persist_dirty_groups sd (sa_fault a (k + 1)) gids fl of (r, fl) \<Rightarrow> (r, h\<lparr>hn_shared := s\<lparr>fs_local := fl\<rparr>\<rparr>)))"

definition finalize_log :: "handle_env \<Rightarrow> sync_answers \<Rightarrow> handle \<Rightarrow> unit io_result \<times> handle" where
  "finalize_log E a h =
     (case hn_writer h of
        None \<Rightarrow> persist_checkpoint E a 0 h
      | Some w \<Rightarrow>
          let s = hn_shared h; h = h\<lparr>hn_writer := None\<rparr> in
          (case ms_to_vec (fe_manifest_serde (he_flush E)) (fs_manifest s) of
             None \<Rightarrow> (Inl (Io Other ''serialize manifest for staging''), h)
           | Some manifest_bytes \<Rightarrow>
               (case sa_finalize a of
                  Some e \<Rightarrow> (Inl e, h)
                | None \<Rightarrow>
                    (case finalize_writer (append_manifest w manifest_bytes) of (content, path, n) \<Rightarrow>
                       (Inr (), h\<lparr>hn_shared := s\<lparr>fs_logs := (fs_logs s)(path \<mapsto> content),
                          fs_pending := fs_pending s @ [\<lparr>pf_staging_path = path,
                            pf_version = (case parse_log_name (file_name path) of Some v \<Rightarrow> v | None \<Rightarrow> 0),
                            pf_page_size = hn_page_size h\<rparr>]\<rparr>\<rparr>)))))"

text \<open>The local copies written at the end are best effort, and so is the inline flush of a local backend.\<close>

definition persist_best_effort :: "handle_env \<Rightarrow> sync_answers \<Rightarrow> handle \<Rightarrow> handle" where
  "persist_best_effort E a h =
     (let s = hn_shared h; F = he_flush E; sd = fe_serde F;
          fl = snd (persist_bitmap (fe_chunk_iter F) sd (sa_fault a 2) (fs_cache s) (fs_local s));
          fl = snd (persist_manifest_local sd (sa_fault a 3) (fs_manifest s) fl);
          fl = snd (persist_dirty_groups sd (sa_fault a 4) (fe_iter F (fs_dirty s)) fl)
      in h\<lparr>hn_shared := s\<lparr>fs_local := fl\<rparr>\<rparr>)"

definition inline_flush :: "handle_env \<Rightarrow> handle \<Rightarrow> handle" where
  "inline_flush E h =
     (if fe_is_local (he_flush E) then h\<lparr>hn_shared := snd (flush_dirty_groups (he_flush E) (hn_shared h))\<rparr> else h)"

definition sync_local :: "handle_env \<Rightarrow> sync_answers \<Rightarrow> handle \<Rightarrow> unit io_result \<times> handle" where
  "sync_local E a h =
     and_then (checkpoint_groups E (sa_now a) h) (\<lambda>_ h.
     and_then (finalize_log E a (clean_handle h)) (\<lambda>_ h.
       (Inr (), inline_flush E (persist_best_effort E a h))))"

text \<open>The head of \<open>sync\<close>: a read-only handle and a handle with nothing to do return at once.\<close>

definition nothing_to_sync :: "handle \<Rightarrow> bool" where
  "nothing_to_sync h \<longleftrightarrow> hn_dirty h = {} \<and> fs_dirty (hn_shared h) = {}"

definition handle_sync :: "(sync_answers \<Rightarrow> handle \<Rightarrow> unit io_result \<times> handle) \<Rightarrow> handle_env \<Rightarrow> sync_answers \<Rightarrow> handle \<Rightarrow> unit io_result \<times> handle" where
  "handle_sync durable E a h =
     (if he_read_only E then (Inr (), h)
      else let h = h\<lparr>hn_synced := True\<rparr> in
        if nothing_to_sync h then (Inr (), h\<lparr>hn_dirty_since_sync := False\<rparr>)
        else if he_local_only E then sync_local E a h else durable a h)"

subsection \<open>Closing and unlocking\<close>

text \<open>Only the local copy learns of pages that were written and never synced; the shared manifest does not.\<close>

definition close_local_commit :: "handle_env \<Rightarrow> sync_answers \<Rightarrow> handle \<Rightarrow> unit io_result \<times> handle" where
  "close_local_commit E a h =
     (let m = hn_manifest h; F = he_flush E in
      if he_read_only E \<or> hn_page_size h = 0 \<or> hn_dirty h = {} \<and> hn_pending_count h \<le> page_count m then (Inr (), h)
      else let grown = m\<lparr>page_count := max (hn_pending_count h) (page_count m)\<rparr>;
               unassigned = filter (\<lambda>p. page_location grown p = None) (fe_iter F (hn_dirty h)) in
        case assign_new_pages_to_groups grown unassigned (max (he_ppg E) 1) of
          None \<Rightarrow> (panic ''chunk size must be non-zero'', h)
        | Some m' \<Rightarrow>
            let h = with_cache (scan_new_pages (he_codec E) m' (sa_now a) unassigned (zeros (hn_page_size h))) h in
            if page_count grown = page_count m \<and> unassigned = [] then (Inr (), h)
            else let s = hn_shared h in
              case persist_manifest_local (fe_serde F) (sa_fault a 0) (build_page_index (fe_tree_iter F) m') (fs_local s) of
                (Inl e, fl) \<Rightarrow> (Inl e, h\<lparr>hn_shared := s\<lparr>fs_local := fl\<rparr>\<rparr>)
              | (Inr _, fl) \<Rightarrow>
                  (Inr (), h\<lparr>hn_shared := s\<lparr>fs_local := snd (persist_bitmap (fe_chunk_iter F) (fe_serde F) (sa_fault a 1) (fs_cache s) fl)\<rparr>\<rparr>))"

definition releases :: "lock_kind \<Rightarrow> lock_kind \<Rightarrow> bool" where
  "releases current lock \<longleftrightarrow> current \<in> {ExclusiveLock, ReservedLock, PendingLock} \<and> lock \<in> {SharedLock, NoLock}"

text \<open>A downgrade from a write lock first syncs what a preceding sync has made durable; a failure keeps the lock.\<close>

definition handle_lock ::
  "(sync_answers \<Rightarrow> handle \<Rightarrow> unit io_result \<times> handle) \<Rightarrow> handle_env \<Rightarrow> sync_answers \<Rightarrow> 'os guard_ops \<Rightarrow> nat \<Rightarrow> lock_kind
     \<Rightarrow> handle \<times> lock_handle \<times> 'os \<Rightarrow> bool io_result \<times> handle \<times> lock_handle \<times> 'os" where
  "handle_lock durable E a G owner lock s =
     (case s of (h, lh, os) \<Rightarrow>
        if hl_level lh = lock then (Inr True, s)
        else case (if releases (hl_level lh) lock \<and> hn_synced h then handle_sync durable E a h else (Inr (), h)) of
          (Inl e, h) \<Rightarrow> (Inl e, h, lh, os)
        | (Inr _, h) \<Rightarrow> (case lock_files G owner lock (lh, os) of (r, lh, os) \<Rightarrow> (r, h, lh, os)))"

end
