(* ===== verification/Handle_Checkpoint.thy ===== *)
theory Handle_Checkpoint
  imports Handle
begin

text \<open>
  From a page write to the published database. A handle in local-then-flush mode over a remote backend writes
  pages into the cache and into a staging log, checkpoints the log, and a later flush uploads the groups of
  the logged pages. The lemmas follow any sequence of writes and checkpoints with the invariant
  \<open>staging_inv\<close>: the finalized logs read back as the pages checkpointed so far, the open log holds the pages
  written since, and the cache shows both over what it showed before.
\<close>

subsection \<open>What the cache keeps\<close>

definition same_kind :: "disk_cache \<Rightarrow> disk_cache \<Rightarrow> bool" where
  "same_kind dc' dc \<longleftrightarrow> dc_page_size dc' = dc_page_size dc \<and> dc_compression dc' = dc_compression dc \<and> dc_key dc' = dc_key dc"

lemma same_kind_refl [simp]: "same_kind dc dc"
  by (simp add: same_kind_def)

lemma same_kind_trans: "same_kind a b \<Longrightarrow> same_kind b c \<Longrightarrow> same_kind a c"
  by (simp add: same_kind_def)

lemma same_kind_fits: "same_kind dc' dc \<Longrightarrow> slot_fits dc' = slot_fits dc"
  by (simp add: same_kind_def slot_fits_def slot_stride_def fun_eq_iff)

lemma same_store_kind: "same_store dc' dc \<Longrightarrow> same_kind dc' dc"
  by (simp add: same_kind_def same_store_def)

lemma on_disk_kind: "on_disk f dc = (r, dc') \<Longrightarrow> same_kind dc' dc"
  by (auto simp: on_disk_def same_kind_def split: prod.splits)

lemma and_then_kind:
  assumes "and_then r f = (x, dc')" "same_kind (snd r) dc" "\<And>y dc1 x1 dc2. f y dc1 = (x1, dc2) \<Longrightarrow> same_kind dc1 dc \<Longrightarrow> same_kind dc2 dc"
  shows "same_kind dc' dc"
  using assms(1,2) by (cases r; cases "fst r") (auto dest: assms(3))

lemma ensure_file_len_kind: "same_kind (snd (ensure_file_len n dc)) dc"
  by (auto simp: ensure_file_len_def on_disk_def same_kind_def and_then_def split: prod.splits sum.splits)

lemma write_slot_kind: "write_slot off frame dc = (r, dc') \<Longrightarrow> same_kind dc' dc"
  unfolding write_slot_def
  by (erule and_then_kind) (auto simp: ensure_file_len_kind dest: on_disk_kind same_kind_trans)

lemma write_page_kind:
  assumes "write_page C nonce now p data dc = (r, dc')"
  shows "same_kind dc' dc"
proof (cases "dc_compression dc")
  case False
  then show ?thesis using assms
    by (auto simp: write_page_def check_tainted_def and_then_def same_kind_def bitmap_ensure_def bitmap_mark_def install_mem_cache_page_def
        ensure_mem_cache_capacity_def Let_def dest!: write_slot_kind [unfolded same_kind_def] split: if_splits sum.splits prod.splits option.splits)
next
  case True
  then show ?thesis using assms
    by (auto simp: write_page_def check_tainted_def write_page_compressed_def and_then_def same_kind_def bitmap_ensure_def bitmap_mark_def
        ensure_file_len_def on_disk_def track_chunks_def Let_def split: if_splits sum.splits prod.splits option.splits)
qed

lemma mark_interior_store: "same_store (mark_if_interior m p buf now dc) dc" "mem_hit q (mark_if_interior m p buf now dc) = mem_hit q dc"
  by (simp_all add: mark_if_interior_def mark_interior_group_def same_store_def mem_hit_def Let_def split: option.split)

lemma group_capacity_store: "same_store (ensure_group_capacity n dc) dc" "mem_hit q (ensure_group_capacity n dc) = mem_hit q dc"
  by (simp_all add: ensure_group_capacity_def same_store_def mem_hit_def)

lemma generation_store: "same_store (snd (bump_generation dc)) dc" "mem_hit q (snd (bump_generation dc)) = mem_hit q dc"
  by (simp_all add: bump_generation_def same_store_def mem_hit_def)

text \<open>Dropping memory copies changes no view.\<close>

lemma clear_mem_view:
  assumes "cache_inv C dc"
  shows "cache_inv C (clear_pages_from_mem_cache pns dc) \<and> cache_view C (clear_pages_from_mem_cache pns dc) = cache_view C dc
    \<and> same_store (clear_pages_from_mem_cache pns dc) dc"
proof -
  let ?d = "clear_pages_from_mem_cache pns dc"
  have s: "same_store ?d dc" and mem: "mem_hit q ?d = None \<or> mem_hit q ?d = mem_hit q dc" for q
    by (simp_all add: clear_pages_from_mem_cache_def)
  note f = same_store_facts [OF s]
  have "cache_inv C ?d \<and> cache_view C ?d = cache_view C dc"
  proof (rule establish_view)
    show "dc_is_present q ?d \<longleftrightarrow> cache_view C dc q \<noteq> None" for q using view_present [OF assms] f by simp
    show "cache_view C dc q = Some data \<Longrightarrow> stored C ?d q data" for q data using view_stored [OF assms] f by simp
    show "cache_view C dc q = Some page" if "\<not> dc_compression ?d" "mem_hit q ?d = Some page" "cache_view C dc q \<noteq> None" for q page
    proof -
      have "mem_hit q dc = Some page" "dc_is_present q dc" "\<not> dc_compression dc"
        using that mem [of q] s view_present [OF assms, of q] by (auto simp: same_store_def)
      then show ?thesis using assms view_iff [OF assms, of q page] by (simp add: cache_inv_def)
    qed
  qed (use assms s in \<open>auto simp: cache_inv_def same_store_def index_in_file_def\<close>)
  then show ?thesis using s by simp
qed

subsection \<open>Sequences of writes and checkpoints\<close>

datatype handle_op = HWrite nat bytes write_answers | HCheckpoint sync_answers

fun handle_step :: "handle_env \<Rightarrow> handle_op \<Rightarrow> handle \<Rightarrow> unit io_result \<times> handle" where
  "handle_step E (HWrite offset buf a) h = handle_write E a buf offset h"
| "handle_step E (HCheckpoint a) h = handle_sync (\<lambda>_ h. (Inr (), h)) E a h"

fun handle_run :: "handle_env \<Rightarrow> handle_op list \<Rightarrow> handle \<Rightarrow> unit io_result \<times> handle" where
  "handle_run E [] h = (Inr (), h)"
| "handle_run E (op # ops) h = and_then (handle_step E op h) (\<lambda>_. handle_run E ops)"

text \<open>The pages a sequence writes, in order.\<close>

fun writes_of :: "nat \<Rightarrow> handle_op list \<Rightarrow> (nat \<times> bytes) list" where
  "writes_of ps [] = []"
| "writes_of ps (HWrite offset buf a # ops) = (offset div ps, buf) # writes_of ps ops"
| "writes_of ps (HCheckpoint a # ops) = writes_of ps ops"

text \<open>Writes that stay inside the database, with nonces of the right length.\<close>

definition in_place :: "manifest \<Rightarrow> handle_op \<Rightarrow> bool" where
  "in_place m op \<longleftrightarrow> (case op of
       HWrite offset buf a \<Rightarrow> page_location m (offset div page_size m) \<noteq> None \<and> offset div page_size m < page_count m \<and> length (wa_nonce a) = 12
     | HCheckpoint a \<Rightarrow> True)"

definition log_path :: "handle_env \<Rightarrow> nat \<Rightarrow> string" where
  "log_path E v = he_staging_dir E @ ''/'' @ nat_str v @ ''.log''"

lemma log_path_inj: "log_path E v = log_path E w \<longleftrightarrow> v = w"
  by (auto simp: log_path_def nat_str_inj)

text \<open>A remote backend and a manifest whose geometry is set.\<close>

definition staging_env :: "handle_env \<Rightarrow> manifest \<Rightarrow> disk_cache \<Rightarrow> bool" where
  "staging_env E m dc \<longleftrightarrow> he_local_only E \<and> \<not> fe_is_local (he_flush E) \<and> \<not> he_read_only E \<and> cache_codec (he_codec E)
     \<and> hash_iteration (fe_iter (he_flush E)) \<and> is_valid_page_size (page_size m) \<and> pages_per_group m \<noteq> 0 \<and> sub_pages_per_frame m \<noteq> 0
     \<and> page_count m \<le> MANIFEST_MAGIC \<and> (\<forall>p < page_count m. dc_compression dc \<or> slot_fits dc p)"

definition cached_over :: "handle_env \<Rightarrow> disk_cache \<Rightarrow> (nat \<rightharpoonup> bytes) \<Rightarrow> disk_cache \<Rightarrow> bool" where
  "cached_over E dc0 T dc \<longleftrightarrow> cache_inv (he_codec E) dc \<and> no_faults (dc_disk dc) \<and> same_kind dc dc0
     \<and> cache_view (he_codec E) dc = cache_view (he_codec E) dc0 ++ T"

definition log_inv :: "handle_env \<Rightarrow> handle \<Rightarrow> (nat \<rightharpoonup> bytes) \<Rightarrow> (nat \<times> bytes) list \<Rightarrow> bool" where
  "log_inv E h st ws \<longleftrightarrow> read_logs (fs_logs (hn_shared h)) (fs_pending (hn_shared h)) Map.empty = Inr st
     \<and> (\<forall>f \<in> set (fs_pending (hn_shared h)). \<exists>v < hn_seq h. pf_staging_path f = log_path E v)
     \<and> (case hn_writer h of None \<Rightarrow> ws = []
        | Some w \<Rightarrow> \<exists>v < hn_seq h. w = write_log (he_staging_dir E) v (hn_page_size h) ws None
            \<and> (\<forall>f \<in> set (fs_pending (hn_shared h)). pf_staging_path f \<noteq> log_path E v))"

definition staging_inv :: "handle_env \<Rightarrow> handle \<Rightarrow> handle \<Rightarrow> (nat \<rightharpoonup> bytes) \<Rightarrow> (nat \<times> bytes) list \<Rightarrow> bool" where
  "staging_inv E h0 h st ws \<longleftrightarrow> hn_manifest h = hn_manifest h0 \<and> fs_backend (hn_shared h) = fs_backend (hn_shared h0)
     \<and> hn_page_size h = page_size (hn_manifest h0) \<and> cached_over E (hn_cache h0) (st ++ map_of (rev ws)) (hn_cache h)
     \<and> log_inv E h st ws \<and> list_all (wf_rec (page_size (hn_manifest h0))) ws \<and> (\<forall>d \<in> ran st. length d = page_size (hn_manifest h0)) \<and> finite (dom st)
     \<and> (\<forall>p \<in> hn_dirty h. page_location (hn_manifest h0) p \<noteq> None) \<and> finite (hn_dirty h)
     \<and> finite (fs_dirty (hn_shared h))"

subsection \<open>One write\<close>

lemma cached_over_same:
  assumes "cached_over E dc0 T dc" "same_store dc' dc" "\<And>q. mem_hit q dc' = mem_hit q dc"
  shows "cached_over E dc0 T dc'"
proof -
  have inv: "cache_inv (he_codec E) dc" using assms(1) by (simp add: cached_over_def)
  note c = cache_inv_cong [OF assms(2,3), of "he_codec E"]
  show ?thesis using assms(1) c(1) c(2) [OF inv] same_kind_trans [OF same_store_kind [OF assms(2)]] assms(2)
    by (simp add: cached_over_def same_store_def)
qed

lemma cache_dirty_page_ok:
  assumes run: "cache_dirty_page E a p buf h = (Inr (), h')" and inv: "cached_over E dc0 T (hn_cache h)"
    and codec: "cache_codec (he_codec E)" and len: "length buf = dc_page_size (hn_cache h)" "length (wa_nonce a) = 12"
    and fits: "dc_compression dc0 \<or> slot_fits dc0 p"
  shows "cached_over E dc0 (T(p \<mapsto> buf)) (hn_cache h') \<and> (\<exists>dc. h' = with_cache (\<lambda>_. dc) h)"
proof -
  let ?C = "he_codec E" and ?dc = "hn_cache h"
  have i: "cache_inv ?C ?dc" "no_faults (dc_disk ?dc)" "same_kind ?dc dc0" "cache_view ?C ?dc = cache_view ?C dc0 ++ T"
    using inv by (simp_all add: cached_over_def)
  obtain dc1 where w: "write_page ?C (wa_nonce a) (wa_now a) p buf ?dc = (Inr (), dc1)"
    and h': "h' = with_cache (\<lambda>dc. mark_if_interior (hn_manifest h) p buf (wa_now a) (clear_pages_from_mem_cache [p] dc)) (with_cache (\<lambda>_. dc1) h)"
    using run by (auto simp: cache_dirty_page_def on_cache_def and_then_ok split: prod.splits)
  have ok: "cache_inv ?C dc1 \<and> no_faults (dc_disk dc1) \<and> cache_view ?C dc1 = (cache_view ?C ?dc)(p \<mapsto> buf)"
  proof (cases "dc_compression ?dc")
    case True
    then obtain out where "compressed_blob ?C (dc_key ?dc) (wa_nonce a) buf = Inr out"
      using w i(1) by (auto simp: write_page_def check_tainted_def cache_inv_def write_page_compressed_def split: sum.splits)
    then show ?thesis using write_page_comp [OF codec i(1,2) True len, of out "wa_now a" p] w by auto
  next
    case False
    then obtain out where "page_frame ?C (dc_key ?dc) (wa_nonce a) buf = Inr out"
      using w i(1) by (auto simp: write_page_def check_tainted_def cache_inv_def split: sum.splits)
    moreover have "slot_fits ?dc p" using fits False i(3) same_kind_fits [OF i(3)] by (auto simp: same_kind_def)
    ultimately show ?thesis using write_page_plain [OF codec i(1,2) False len, of p out "wa_now a"] w by auto
  qed
  have "cached_over E dc0 (T(p \<mapsto> buf)) dc1" using ok i(4) same_kind_trans [OF write_page_kind [OF w] i(3)] by (simp add: cached_over_def)
  moreover note clear_mem_view [of ?C dc1 "[p]"]
  ultimately have "cached_over E dc0 (T(p \<mapsto> buf)) (clear_pages_from_mem_cache [p] dc1)"
    using ok same_kind_trans [OF same_store_kind] by (auto simp: cached_over_def same_store_def)
  then have "cached_over E dc0 (T(p \<mapsto> buf)) (hn_cache h')"
    unfolding h' by (auto intro: cached_over_same simp: mark_interior_store)
  moreover have "\<exists>dc. h' = with_cache (\<lambda>_. dc) h" unfolding h' with_cache_def by (simp, rule exI, rule refl)
  ultimately show ?thesis by blast
qed

subsection \<open>Staging logs\<close>

lemma read_logs_cong:
  "(\<And>f. f \<in> set fls \<Longrightarrow> logs' (pf_staging_path f) = logs (pf_staging_path f)) \<Longrightarrow> read_logs logs' fls st = read_logs logs fls st"
proof (induction fls arbitrary: st)
  case (Cons f fls)
  then have "read_logs logs' fls st' = read_logs logs fls st'" for st' by simp
  then show ?case using Cons.prems [of f] by (simp split: option.split)
qed simp

lemma read_logs_snoc: "read_logs logs (fls @ [f]) st = bind_result (read_logs logs fls st) (read_logs logs [f])"
proof (induction fls arbitrary: st)
  case (Cons g fls)
  then show ?case
    by (cases "logs (pf_staging_path g)"; cases "read_staging_log (the (logs (pf_staging_path g))) (pf_page_size g)") simp_all
qed (simp split: option.split)

lemma read_log_all:
  assumes "is_valid_page_size ps" "list_all (wf_rec ps) recs"
  shows "read_staging_log (sw_content (write_log dir v ps recs t)) any = Inr (map_of (rev recs))"
proof -
  let ?c = "sw_content (write_log dir v ps recs t)"
  have "length (concat (map rec_bytes recs)) = length recs * (8 + ps)"
    using assms(2) by (induction recs) (simp_all add: length_rec_bytes)
  then have "length recs * (8 + ps) \<le> length ?c - 4" by (simp add: write_log_content)
  then have "length recs \<le> (length ?c - 4) div (8 + ps)" by (simp add: less_eq_div_iff_mult_less_eq)
  then show ?thesis using read_log_prefix [OF assms, of "length ?c" dir v t any] by simp
qed

lemma log_path_of_write: "sw_path (write_log (he_staging_dir E) v ps recs t) = log_path E v"
proof -
  have "sw_path (fold (\<lambda>r w. append_page w (fst r) (snd r)) recs w) = sw_path w" for w
    by (induction recs arbitrary: w) (simp_all add: append_page_def)
  then show ?thesis by (simp add: write_log_def Let_def open_writer_def log_path_def append_manifest_def split: option.split)
qed

lemma write_log_snoc: "append_page (write_log dir v ps recs None) p d = write_log dir v ps (recs @ [(p, d)]) None"
  by (simp add: write_log_def)

lemma write_log_trailer: "append_manifest (write_log dir v ps recs None) mb = write_log dir v ps recs (Some mb)"
  by (simp add: write_log_def)

text \<open>Everything but the open log and the sequence number is kept when a page is staged.\<close>

definition only_staged :: "handle \<Rightarrow> handle \<Rightarrow> bool" where
  "only_staged h h' \<longleftrightarrow> hn_manifest h' = hn_manifest h \<and> fs_backend (hn_shared h') = fs_backend (hn_shared h) \<and> hn_cache h' = hn_cache h
     \<and> hn_page_size h' = hn_page_size h \<and> hn_dirty h' = hn_dirty h \<and> fs_dirty (hn_shared h') = fs_dirty (hn_shared h)
     \<and> hn_pending_count h' = hn_pending_count h"

lemma open_staging_ok:
  assumes run: "open_staging E a h = (Inr (), h')" and inv: "log_inv E h st ws" and seq: "hn_seq h + 1 < U64_SIZE"
  shows "log_inv E h' st ws \<and> only_staged h h' \<and> hn_writer h' \<noteq> None \<and> hn_seq h \<le> hn_seq h' \<and> hn_seq h' \<le> hn_seq h + 1"
proof (cases "hn_writer h")
  case (Some w)
  then have "h' = h" using run by (simp add: open_staging_def)
  then show ?thesis using inv Some by (simp add: only_staged_def)
next
  case None
  let ?w = "open_writer (he_staging_dir E) (hn_seq h) (hn_page_size h)" and ?s = "hn_shared h"
  have h': "h' = h\<lparr>hn_seq := hn_seq h + 1, hn_writer := Some ?w, hn_shared := ?s\<lparr>fs_logs := (fs_logs ?s)(log_path E (hn_seq h) \<mapsto> [])\<rparr>\<rparr>"
    using run None seq by (auto simp: open_staging_def Let_def open_writer_def log_path_def split: staging_answer.splits)
  have old: "\<forall>f \<in> set (fs_pending ?s). \<exists>v < hn_seq h. pf_staging_path f = log_path E v" and ws: "ws = []"
    and logs: "read_logs (fs_logs ?s) (fs_pending ?s) Map.empty = Inr st"
    using inv None by (simp_all add: log_inv_def)
  have other: "pf_staging_path f \<noteq> log_path E (hn_seq h)" if "f \<in> set (fs_pending ?s)" for f
    using old that log_path_inj by (metis less_irrefl)
  have "read_logs ((fs_logs ?s)(log_path E (hn_seq h) \<mapsto> [])) (fs_pending ?s) Map.empty = Inr st"
    using read_logs_cong [of "fs_pending ?s" "(fs_logs ?s)(log_path E (hn_seq h) \<mapsto> [])" "fs_logs ?s"] other logs by simp
  moreover have "\<forall>f \<in> set (fs_pending ?s). \<exists>v < hn_seq h + 1. pf_staging_path f = log_path E v" using old less_SucI by fastforce
  moreover have "?w = write_log (he_staging_dir E) (hn_seq h) (hn_page_size h) ws None" by (simp add: ws write_log_def)
  ultimately have "log_inv E h' st ws" using other unfolding log_inv_def h' by auto
  then show ?thesis by (simp add: h' only_staged_def)
qed

lemma append_staged_ok:
  assumes run: "append_staged a p buf h = (Inr (), h')" and inv: "log_inv E h st ws" and w: "hn_writer h \<noteq> None"
  shows "log_inv E h' st (ws @ [(p, buf)]) \<and> only_staged h h' \<and> hn_seq h' = hn_seq h"
proof -
  obtain w where w: "hn_writer h = Some w" using w by blast
  then have h': "h' = h\<lparr>hn_writer := Some (append_page w p buf)\<rparr>" using run by (auto simp: append_staged_def split: staging_answer.splits)
  obtain v where v: "v < hn_seq h" "w = write_log (he_staging_dir E) v (hn_page_size h) ws None"
      "\<forall>f \<in> set (fs_pending (hn_shared h)). pf_staging_path f \<noteq> log_path E v"
    using inv w by (auto simp: log_inv_def)
  have "log_inv E h' st (ws @ [(p, buf)])" using inv v unfolding log_inv_def h' by (auto simp: write_log_snoc)
  then show ?thesis by (simp add: h' only_staged_def)
qed

lemma stage_page_ok:
  assumes run: "stage_page E a p buf h = (Inr (), h')" and inv: "log_inv E h st ws" and seq: "hn_seq h + 1 < U64_SIZE"
    and remote: "he_local_only E" "\<not> fe_is_local (he_flush E)"
  shows "log_inv E h' st (ws @ [(p, buf)]) \<and> only_staged h h' \<and> hn_seq h' \<le> hn_seq h + 1 \<and> length buf = hn_page_size h"
proof -
  have len: "length buf = hn_page_size h" using run remote by (auto simp: stage_page_def split: if_splits)
  then obtain h1 where o: "open_staging E a h = (Inr (), h1)" and ap: "append_staged a p buf h1 = (Inr (), h')"
    using run remote by (auto simp: stage_page_def and_then_ok)
  note 1 = open_staging_ok [OF o inv seq]
  then have "log_inv E h1 st ws" "hn_writer h1 \<noteq> None" by blast+
  note 2 = append_staged_ok [OF ap this]
  show ?thesis using 1 2 len by (simp add: only_staged_def)
qed

subsection \<open>The invariant\<close>

lemma valid_size_pos: "is_valid_page_size ps \<Longrightarrow> 0 < ps"
  using valid_page_size_bounds by blast

lemma note_dirty_fields:
  assumes "page_size (hn_manifest h) \<noteq> 0" "pages_per_group (hn_manifest h) \<noteq> 0" "sub_pages_per_frame (hn_manifest h) \<noteq> 0"
  shows "\<exists>n c. note_dirty E p buf h = with_cache (ensure_group_capacity n) (h\<lparr>hn_dirty := insert p (hn_dirty h), hn_dirty_since_sync := True,
    hn_synced := False, hn_pending_count := c\<rparr>)"
  using assms by (auto simp: note_dirty_def publish_geometry_def Let_def)

lemma log_inv_cong:
  assumes "fs_logs (hn_shared h') = fs_logs (hn_shared h)" "fs_pending (hn_shared h') = fs_pending (hn_shared h)" "hn_seq h' = hn_seq h"
    "hn_page_size h' = hn_page_size h" "hn_writer h' = hn_writer h"
  shows "log_inv E h' st ws = log_inv E h st ws"
  by (simp only: log_inv_def assms)

lemma handle_write_inv:
  assumes run: "handle_write E a buf offset h = (Inr (), h')" and inv: "staging_inv E h0 h st ws"
    and env: "staging_env E (hn_manifest h0) (hn_cache h0)" "dc_page_size (hn_cache h0) = page_size (hn_manifest h0)"
    and place: "in_place (hn_manifest h0) (HWrite offset buf a)" and seq: "hn_seq h + 1 < U64_SIZE"
  shows "staging_inv E h0 h' st (ws @ [(offset div page_size (hn_manifest h0), buf)]) \<and> hn_seq h' \<le> hn_seq h + 1"
proof -
  let ?m = "hn_manifest h0" and ?p = "offset div page_size (hn_manifest h0)" and ?T = "st ++ map_of (rev ws)"
  have e: "he_local_only E" "\<not> fe_is_local (he_flush E)" "\<not> he_read_only E" "cache_codec (he_codec E)" "is_valid_page_size (page_size ?m)"
      "pages_per_group ?m \<noteq> 0" "sub_pages_per_frame ?m \<noteq> 0" "page_count ?m \<le> MANIFEST_MAGIC"
      "dc_compression (hn_cache h0) \<or> slot_fits (hn_cache h0) ?p"
    using env(1) place by (auto simp: staging_env_def in_place_def)
  have pl: "page_location ?m ?p \<noteq> None" "?p < page_count ?m" "length (wa_nonce a) = 12" using place by (simp_all add: in_place_def)
  have i: "hn_manifest h = ?m" "hn_page_size h = page_size ?m" "cached_over E (hn_cache h0) ?T (hn_cache h)" "log_inv E h st ws"
    using inv by (simp_all add: staging_inv_def)
  have ps: "page_size ?m \<noteq> 0" using valid_size_pos [OF e(5)] by simp
  define h1 where "h1 = note_cookie (he_codec E) ?p buf h"
  have h1: "hn_shared h1 = hn_shared h" "hn_page_size h1 = page_size ?m" "hn_seq h1 = hn_seq h" "hn_writer h1 = hn_writer h" "hn_dirty h1 = hn_dirty h"
    by (simp_all add: h1_def note_cookie_def Let_def i(2))
  obtain h2 h3 where c: "cache_dirty_page E a ?p buf h1 = (Inr (), h2)" and s: "stage_page E a ?p buf h2 = (Inr (), h3)" and n: "h' = note_dirty E ?p buf h3"
    using run e(3) ps by (auto simp: handle_write_def adopt_page_size_def i(2) Let_def and_then_ok h1_def [symmetric])
  have kind: "same_kind (hn_cache h) (hn_cache h0)" using i(3) by (simp add: cached_over_def)
  have "\<exists>dc. h2 = with_cache (\<lambda>_. dc) h1" using c by (auto simp: cache_dirty_page_def on_cache_def and_then_ok with_cache_def split: prod.splits)
  then obtain dc where h2: "h2 = with_cache (\<lambda>_. dc) h1" by blast
  have "log_inv E h2 st ws = log_inv E h st ws" using h1 i(2) by (intro log_inv_cong) (simp_all add: h2)
  then have log2: "log_inv E h2 st ws" using i(4) by simp
  note st3 = stage_page_ok [OF s log2 _ e(1,2)]
  have seq2: "hn_seq h2 + 1 < U64_SIZE" using seq h1 by (simp add: h2)
  have len: "length buf = page_size ?m" using st3 [OF seq2] h1 by (simp add: h2)
  have "cached_over E (hn_cache h0) (?T(?p \<mapsto> buf)) (hn_cache h2)"
    using cache_dirty_page_ok [OF c _ e(4) _ pl(3) e(9), of ?T] i(3) h1 len kind env(2) by (simp add: same_kind_def)
  then have co: "cached_over E (hn_cache h0) (st ++ map_of (rev (ws @ [(?p, buf)]))) (hn_cache h3)"
    using st3 [OF seq2] by (simp add: only_staged_def)
  have o: "hn_manifest h3 = ?m" "fs_backend (hn_shared h3) = fs_backend (hn_shared h)" "hn_page_size h3 = page_size ?m" "hn_dirty h3 = hn_dirty h"
      "fs_dirty (hn_shared h3) = fs_dirty (hn_shared h)" "hn_seq h3 \<le> hn_seq h + 1" "log_inv E h3 st (ws @ [(?p, buf)])"
    using st3 [OF seq2] h1 i(1) by (simp_all add: only_staged_def h2)
  obtain k q where h': "h' = with_cache (ensure_group_capacity k) (h3\<lparr>hn_dirty := insert ?p (hn_dirty h3), hn_dirty_since_sync := True,
      hn_synced := False, hn_pending_count := q\<rparr>)"
    using note_dirty_fields [of h3 E ?p buf] o(1) ps e(6,7) n by auto
  have "cached_over E (hn_cache h0) (st ++ map_of (rev (ws @ [(?p, buf)]))) (hn_cache h')"
    using cached_over_same [OF co group_capacity_store] by (simp add: h')
  moreover have "wf_rec (page_size ?m) (?p, buf)" using pl(2) e(8) len magic_in_range by (simp add: wf_rec_def)
  moreover have "log_inv E h' st (ws @ [(?p, buf)]) = log_inv E h3 st (ws @ [(?p, buf)])" by (intro log_inv_cong) (simp_all add: h')
  ultimately show ?thesis using inv o pl(1) i(2) by (simp add: staging_inv_def h')
qed

lemma finalize_log_ok:
  assumes run: "finalize_log E a h = (Inr (), h')" and inv: "log_inv E h st ws" and wf: "is_valid_page_size (hn_page_size h)" "list_all (wf_rec (hn_page_size h)) ws"
  shows "log_inv E h' (st ++ map_of (rev ws)) [] \<and> only_staged h h' \<and> hn_writer h' = None \<and> hn_seq h' = hn_seq h"
proof (cases "hn_writer h")
  case None
  then have "\<exists>fl. h' = h\<lparr>hn_shared := (hn_shared h)\<lparr>fs_local := fl\<rparr>\<rparr>"
    using run by (auto simp: finalize_log_def persist_checkpoint_def Let_def split: prod.splits sum.splits)
  then obtain fl where h': "h' = h\<lparr>hn_shared := (hn_shared h)\<lparr>fs_local := fl\<rparr>\<rparr>" by blast
  have "ws = []" using inv None by (simp add: log_inv_def)
  then show ?thesis using inv None by (simp add: h' log_inv_def only_staged_def)
next
  case (Some w)
  let ?s = "hn_shared h"
  obtain v where v: "v < hn_seq h" "w = write_log (he_staging_dir E) v (hn_page_size h) ws None"
      "\<forall>f \<in> set (fs_pending ?s). pf_staging_path f \<noteq> log_path E v" using inv Some by (auto simp: log_inv_def)
  obtain mb where mb: "ms_to_vec (fe_manifest_serde (he_flush E)) (fs_manifest ?s) = Some mb" "sa_finalize a = None"
    using run Some by (auto simp: finalize_log_def Let_def split: option.splits)
  let ?w = "write_log (he_staging_dir E) v (hn_page_size h) ws (Some mb)"
  let ?f = "\<lparr>pf_staging_path = log_path E v, pf_version = (case parse_log_name (file_name (log_path E v)) of Some v \<Rightarrow> v | None \<Rightarrow> 0), pf_page_size = hn_page_size h\<rparr>"
  let ?logs = "(fs_logs ?s)(log_path E v \<mapsto> sw_content ?w)"
  have h': "h' = h\<lparr>hn_writer := None, hn_shared := ?s\<lparr>fs_logs := ?logs, fs_pending := fs_pending ?s @ [?f]\<rparr>\<rparr>"
    using run Some mb by (simp add: finalize_log_def Let_def v(2) write_log_trailer finalize_writer_def log_path_of_write split: prod.splits)
  have "read_logs ?logs (fs_pending ?s) Map.empty = read_logs (fs_logs ?s) (fs_pending ?s) Map.empty"
    using v(3) by (intro read_logs_cong) simp
  then have "read_logs ?logs (fs_pending ?s @ [?f]) Map.empty = Inr (st ++ map_of (rev ws))"
    using inv read_log_all [OF wf, of "he_staging_dir E" v "Some mb"] by (simp add: read_logs_snoc log_inv_def)
  then show ?thesis using inv v(1) by (auto simp: h' log_inv_def only_staged_def)
qed

lemma checkpoint_groups_located:
  assumes "\<forall>p \<in> hn_dirty h. page_location (hn_manifest h) p \<noteq> None" "finite (hn_dirty h)" "hash_iteration (fe_iter (he_flush E))"
  shows "checkpoint_groups E now h = (Inr (), h\<lparr>hn_shared := (hn_shared h)\<lparr>fs_dirty := fs_dirty (hn_shared h)
    \<union> pl_group_id ` Option.these (page_location (hn_manifest h) ` hn_dirty h)\<rparr>\<rparr>)"
proof -
  have "filter (\<lambda>p. page_location (hn_manifest h) p = None) (fe_iter (he_flush E) (hn_dirty h)) = []"
    using assms(1) hash_iteration.set_iter [OF assms(3,2)] by (simp add: filter_empty_conv)
  moreover have "with_cache (scan_new_pages C m now [] buf) (with_manifest (hn_manifest h) h) = h" for C m buf by (simp add: with_cache_def with_manifest_def)
  moreover have "\<not> (\<exists>p \<in> hn_dirty h. page_location (hn_manifest h) p = None)" using assms(1) by blast
  ultimately show ?thesis unfolding checkpoint_groups_def assign_new_pages_to_groups_def Let_def by auto
qed

lemma sync_local_inv:
  assumes run: "sync_local E a h = (Inr (), h')" and inv: "staging_inv E h0 h st ws" and env: "staging_env E (hn_manifest h0) (hn_cache h0)"
  shows "staging_inv E h0 h' (st ++ map_of (rev ws)) [] \<and> hn_writer h' = None \<and> hn_seq h' = hn_seq h"
proof -
  let ?m = "hn_manifest h0"
  have e: "\<not> fe_is_local (he_flush E)" "hash_iteration (fe_iter (he_flush E))" "is_valid_page_size (page_size ?m)" using env by (simp_all add: staging_env_def)
  have i: "hn_manifest h = ?m" "hn_page_size h = page_size ?m" "cached_over E (hn_cache h0) (st ++ map_of (rev ws)) (hn_cache h)" "log_inv E h st ws"
      "list_all (wf_rec (page_size ?m)) ws" "\<forall>p \<in> hn_dirty h. page_location ?m p \<noteq> None" "finite (hn_dirty h)"
    using inv by (simp_all add: staging_inv_def)
  define h1 where "h1 = clean_handle (h\<lparr>hn_shared := (hn_shared h)\<lparr>fs_dirty := fs_dirty (hn_shared h)
      \<union> pl_group_id ` Option.these (page_location ?m ` hn_dirty h)\<rparr>\<rparr>)"
  have h1: "hn_manifest h1 = ?m" "hn_page_size h1 = page_size ?m" "hn_cache h1 = snd (bump_generation (hn_cache h))" "hn_dirty h1 = {}" "hn_seq h1 = hn_seq h"
      "hn_writer h1 = hn_writer h" "fs_logs (hn_shared h1) = fs_logs (hn_shared h)" "fs_pending (hn_shared h1) = fs_pending (hn_shared h)"
      "fs_backend (hn_shared h1) = fs_backend (hn_shared h)"
      "fs_dirty (hn_shared h1) = fs_dirty (hn_shared h) \<union> pl_group_id ` Option.these (page_location ?m ` hn_dirty h)"
    using i(1,2) by (simp_all add: h1_def clean_handle_def bump_generation_def)
  obtain h2 where f: "finalize_log E a h1 = (Inr (), h2)" and h': "h' = persist_best_effort E a h2"
    using run checkpoint_groups_located [of h E "sa_now a"] i(1,6,7) e(1,2) by (auto simp: sync_local_def and_then_ok h1_def inline_flush_def)
  have "log_inv E h1 st ws = log_inv E h st ws" using h1 i(2) by (intro log_inv_cong) simp_all
  then have fin: "log_inv E h2 (st ++ map_of (rev ws)) [] \<and> only_staged h1 h2 \<and> hn_writer h2 = None \<and> hn_seq h2 = hn_seq h1"
    using finalize_log_ok [OF f, of st ws] i(4,5) h1(2) e(3) by simp
  obtain fl where h': "h' = h2\<lparr>hn_shared := (hn_shared h2)\<lparr>fs_local := fl\<rparr>\<rparr>" by (simp add: h' persist_best_effort_def Let_def)
  have "log_inv E h' (st ++ map_of (rev ws)) [] = log_inv E h2 (st ++ map_of (rev ws)) []" by (intro log_inv_cong) (simp_all add: h')
  moreover have "cached_over E (hn_cache h0) (st ++ map_of (rev ws)) (hn_cache h1)"
    using cached_over_same [OF i(3) generation_store] h1(3) by simp
  moreover have "\<forall>d \<in> ran (st ++ map_of (rev ws)). length d = page_size ?m"
  proof
    fix d assume "d \<in> ran (st ++ map_of (rev ws))"
    then obtain p where "(st ++ map_of (rev ws)) p = Some d" unfolding ran_def mem_Collect_eq by (elim exE)
    then have "d \<in> ran st \<or> (p, d) \<in> set ws" by (auto simp: map_add_Some_iff ran_def dest: map_of_SomeD)
    then show "length d = page_size ?m" using inv i(2,5) by (auto simp: staging_inv_def list_all_iff wf_rec_def)
  qed
  moreover have "finite (pl_group_id ` Option.these (page_location ?m ` hn_dirty h))" using i(7) by (simp add: Option.these_def)
  ultimately show ?thesis using inv fin h1 by (simp add: staging_inv_def only_staged_def h' finite_dom_map_of)
qed

text \<open>A checkpoint moves the pages of the open log to the finalized ones; with nothing to do it changes nothing.\<close>

lemma handle_step_inv:
  assumes run: "handle_step E op h = (Inr (), h')" and inv: "staging_inv E h0 h st ws"
    and env: "staging_env E (hn_manifest h0) (hn_cache h0)" "dc_page_size (hn_cache h0) = page_size (hn_manifest h0)"
    and place: "in_place (hn_manifest h0) op" and seq: "hn_seq h + 1 < U64_SIZE"
  shows "\<exists>st' ws'. staging_inv E h0 h' st' ws' \<and> hn_seq h' \<le> hn_seq h + 1
    \<and> st' ++ map_of (rev ws') = (st ++ map_of (rev ws)) ++ map_of (rev (writes_of (page_size (hn_manifest h0)) [op]))"
proof (cases op)
  case (HWrite offset buf a)
  have "handle_write E a buf offset h = (Inr (), h')" "in_place (hn_manifest h0) (HWrite offset buf a)" using run place HWrite by simp_all
  from handle_write_inv [OF this(1) inv env this(2) seq] show ?thesis using HWrite by (intro exI conjI) auto
next
  case (HCheckpoint a)
  let ?h = "h\<lparr>hn_synced := True\<rparr>"
  have inv': "staging_inv E h0 ?h st ws" using inv log_inv_cong [of ?h h E st ws] by (simp add: staging_inv_def)
  show ?thesis
  proof (cases "nothing_to_sync ?h")
    case True
    then have h': "h' = ?h\<lparr>hn_dirty_since_sync := False\<rparr>" using run HCheckpoint env(1) by (simp add: handle_sync_def Let_def staging_env_def)
    then have "staging_inv E h0 h' st ws" using inv' log_inv_cong [of h' ?h E st ws] by (simp add: staging_inv_def)
    then show ?thesis using HCheckpoint h' by (intro exI conjI) auto
  next
    case False
    then have "sync_local E a ?h = (Inr (), h')" using run HCheckpoint env(1) by (simp add: handle_sync_def Let_def staging_env_def)
    from sync_local_inv [OF this inv' env(1)] show ?thesis using HCheckpoint
      by (intro exI [of _ "st ++ map_of (rev ws)"] exI [of _ "[]"]) simp
  qed
qed

lemma writes_of_Cons: "writes_of ps (op # ops) = writes_of ps [op] @ writes_of ps ops"
  by (cases op) simp_all

lemma handle_run_inv:
  assumes "handle_run E ops h = (Inr (), h')" "staging_inv E h0 h st ws"
    and env: "staging_env E (hn_manifest h0) (hn_cache h0)" "dc_page_size (hn_cache h0) = page_size (hn_manifest h0)"
    and "\<forall>op \<in> set ops. in_place (hn_manifest h0) op" "hn_seq h + length ops < U64_SIZE"
  shows "\<exists>st' ws'. staging_inv E h0 h' st' ws'
    \<and> st' ++ map_of (rev ws') = (st ++ map_of (rev ws)) ++ map_of (rev (writes_of (page_size (hn_manifest h0)) ops))"
  using assms(1,2,5,6)
proof (induction ops arbitrary: h st ws)
  case Nil
  then show ?case by auto
next
  case (Cons op ops)
  let ?ps = "page_size (hn_manifest h0)"
  obtain h1 where s: "handle_step E op h = (Inr (), h1)" and r: "handle_run E ops h1 = (Inr (), h')" using Cons(2) by (auto simp: and_then_ok)
  obtain st1 ws1 where 1: "staging_inv E h0 h1 st1 ws1" "hn_seq h1 \<le> hn_seq h + 1"
      "st1 ++ map_of (rev ws1) = (st ++ map_of (rev ws)) ++ map_of (rev (writes_of ?ps [op]))"
    using handle_step_inv [OF s Cons(3) env] Cons(4,5) by auto
  obtain st2 ws2 where "staging_inv E h0 h' st2 ws2" "st2 ++ map_of (rev ws2) = (st1 ++ map_of (rev ws1)) ++ map_of (rev (writes_of ?ps ops))"
    using Cons(1) [OF r 1(1)] Cons(4,5) 1(2) by auto
  moreover have "map_of (rev (writes_of ?ps (op # ops))) = map_of (rev (writes_of ?ps [op])) ++ map_of (rev (writes_of ?ps ops))"
    by (subst writes_of_Cons) (simp only: rev_append map_of_append)
  ultimately show ?case using 1(3) by (metis map_add_assoc)
qed

subsection \<open>The flush after the checkpoints\<close>

text \<open>A handle with nothing pending, over a cache that agrees with a well-formed store.\<close>

definition clean_start :: "handle_env \<Rightarrow> handle \<Rightarrow> bool" where
  "clean_start E h \<longleftrightarrow> (let s = hn_shared h; m = fs_manifest s in
     fs_pending s = [] \<and> fs_dirty s = {} \<and> hn_dirty h = {} \<and> hn_writer h = None \<and> hn_page_size h = page_size m
     \<and> no_faults (dc_disk (fs_cache s)) \<and> flush_ready (he_flush E) s Map.empty
     \<and> (\<forall>gid pos d. group_in_range m gid \<longrightarrow> pos < length (group_page_nums m gid) \<longrightarrow> cache_view (he_codec E) (fs_cache s) (group_page_nums m gid ! pos) = Some d
          \<longrightarrow> remote_page (he_codec E) (fe_key (he_flush E)) m (bk_objects (fs_backend s)) gid pos = Some d))"

lemma clean_start_inv:
  assumes "clean_start E h"
  shows "staging_inv E h h Map.empty []"
  using assms by (simp add: clean_start_def staging_inv_def Let_def log_inv_def cached_over_def flush_ready_def)

lemma clean_cached:
  assumes "clean_start E h" "group_in_range (hn_manifest h) gid" "pos < length (group_page_nums (hn_manifest h) gid)"
    "cache_view (he_codec E) (hn_cache h) (group_page_nums (hn_manifest h) gid ! pos) = Some d"
  shows "remote_page (he_codec E) (fe_key (he_flush E)) (hn_manifest h) (bk_objects (fs_backend (hn_shared h))) gid pos = Some d"
  using assms unfolding clean_start_def Let_def by blast

lemma staged_ready:
  assumes start: "clean_start E h0" and inv: "staging_inv E h0 h st []"
  shows "flush_ready (he_flush E) (hn_shared h) st"
proof -
  let ?C = "he_codec E"
  have "hn_manifest h = hn_manifest h0" "fs_backend (hn_shared h) = fs_backend (hn_shared h0)" "cache_inv ?C (hn_cache h)" "same_kind (hn_cache h) (hn_cache h0)"
      "\<forall>d \<in> ran st. length d = page_size (hn_manifest h0)" "finite (dom st)" "finite (fs_dirty (hn_shared h))"
    using inv by (simp_all add: staging_inv_def cached_over_def)
  moreover have "flush_ready (he_flush E) (hn_shared h0) Map.empty" using start by (simp add: clean_start_def Let_def)
  ultimately show ?thesis unfolding flush_ready_def Let_def by (simp add: same_kind_def)
qed

end
