(* ===== verification/Handle_Published.thy ===== *)
theory Handle_Published
  imports Handle_Checkpoint
begin

text \<open>
  Writing through a handle in local-then-flush mode: what whole-page writes and checkpoints wrote is what the flush
  publishes; and, for the witnesses, that such a run succeeds when the environment does not fail.
\<close>

subsection \<open>Operations that succeed\<close>

text \<open>An environment that does not fail: the encoders and serialisers succeed, and what is serialised can be read.\<close>

definition encoding_total :: "codec \<Rightarrow> bool" where
  "encoding_total C \<longleftrightarrow> (\<forall>x. is_ok (zs_encode C x)) \<and> (\<forall>k n a x. is_ok (gcm_seal C k n a x))"

definition readable :: "serde \<Rightarrow> bool" where
  "readable sd \<longleftrightarrow> (\<forall>st. \<exists>data. sd_to_vec sd st = Some data \<and> sd_from_slice sd data \<noteq> None)"

definition local_ok :: "serde \<Rightarrow> bytes option \<Rightarrow> bool" where
  "local_ok sd fl \<longleftrightarrow> (case fl of None \<Rightarrow> True | Some data \<Rightarrow> sd_from_slice sd data \<noteq> None)"

definition reliable :: "handle_env \<Rightarrow> bool" where
  "reliable E \<longleftrightarrow> encoding_total (he_codec E) \<and> readable (fe_serde (he_flush E)) \<and> (\<forall>m. ms_to_vec (fe_manifest_serde (he_flush E)) m \<noteq> None)"

definition good_answers :: "nat \<Rightarrow> handle_op \<Rightarrow> bool" where
  "good_answers ps op \<longleftrightarrow> (case op of
       HWrite offset buf a \<Rightarrow> length buf = ps \<and> wa_staging a = Staged
     | HCheckpoint a \<Rightarrow> sa_finalize a = None \<and> (\<forall>k. sa_fault a k = NoFault))"

lemma update_state_ok:
  assumes "readable sd" "local_ok sd fl"
  shows "\<exists>fl'. update_state sd NoFault f fl = (Inr (), fl') \<and> local_ok sd fl'"
proof -
  obtain st where "load_or_default sd fl = Inr st" using assms(2) by (auto simp: load_or_default_def load_state_def local_ok_def split: option.splits)
  moreover obtain data where "sd_to_vec sd ((normalized (f st))\<lparr>ls_format_version := 1\<rparr>) = Some data" "sd_from_slice sd data \<noteq> None"
    using assms(1) unfolding readable_def by blast
  ultimately show ?thesis by (simp add: update_state_def persist_state_def local_ok_def)
qed

lemma frame_total: "encoding_total C \<Longrightarrow> \<exists>out. page_frame C key nonce data = Inr out"
  by (cases key) (auto simp: encoding_total_def page_frame_def encrypt_gcm_random_nonce_def is_ok_iff, metis bind_result.simps(2))

lemma blob_total: "encoding_total C \<Longrightarrow> \<exists>out. compressed_blob C key nonce data = Inr out"
  using frame_total by (auto simp: encoding_total_def compressed_blob_def compress_def is_ok_iff) (metis bind_result.simps(2))

lemma cache_dirty_page_total:
  assumes inv: "cached_over E dc0 T (hn_cache h)" and codec: "cache_codec (he_codec E)" "encoding_total (he_codec E)"
    and len: "length buf = dc_page_size (hn_cache h)" "length (wa_nonce a) = 12" and fits: "dc_compression dc0 \<or> slot_fits dc0 p"
  shows "\<exists>dc. cache_dirty_page E a p buf h = (Inr (), with_cache (\<lambda>_. dc) h)"
proof -
  let ?C = "he_codec E" and ?dc = "hn_cache h"
  have i: "cache_inv ?C ?dc" "no_faults (dc_disk ?dc)" "same_kind ?dc dc0" using inv by (simp_all add: cached_over_def)
  have "\<exists>dc1. write_page ?C (wa_nonce a) (wa_now a) p buf ?dc = (Inr (), dc1)"
  proof (cases "dc_compression ?dc")
    case True
    then show ?thesis using write_page_comp [OF codec(1) i(1,2) True len] blob_total [OF codec(2)] by blast
  next
    case False
    moreover have "slot_fits ?dc p" using fits False i(3) same_kind_fits [OF i(3)] by (auto simp: same_kind_def)
    ultimately show ?thesis using write_page_plain [OF codec(1) i(1,2) False len] frame_total [OF codec(2)] by blast
  qed
  then obtain dc1 where "write_page ?C (wa_nonce a) (wa_now a) p buf ?dc = (Inr (), dc1)" by blast
  then have "cache_dirty_page E a p buf h
      = (Inr (), with_cache (\<lambda>dc. mark_if_interior (hn_manifest h) p buf (wa_now a) (clear_pages_from_mem_cache [p] dc)) (with_cache (\<lambda>_. dc1) h))"
    by (simp add: cache_dirty_page_def on_cache_def)
  also have "\<dots> = (Inr (), with_cache (\<lambda>_. mark_if_interior (hn_manifest h) p buf (wa_now a) (clear_pages_from_mem_cache [p] dc1)) h)"
    by (simp add: with_cache_def)
  finally show ?thesis by blast
qed

lemma stage_page_total:
  assumes "wa_staging a = Staged" "length buf = hn_page_size h"
  shows "\<exists>h'. stage_page E a p buf h = (Inr (), h') \<and> fs_local (hn_shared h') = fs_local (hn_shared h)"
  using assms by (auto simp: stage_page_def open_staging_def append_staged_def Let_def split: option.splits)

lemma handle_write_total:
  assumes inv: "staging_inv E h0 h st ws" and env: "staging_env E (hn_manifest h0) (hn_cache h0)" "dc_page_size (hn_cache h0) = page_size (hn_manifest h0)"
    and place: "in_place (hn_manifest h0) (HWrite offset buf a)" and total: "reliable E" and ok: "good_answers (page_size (hn_manifest h0)) (HWrite offset buf a)"
  shows "\<exists>h'. handle_write E a buf offset h = (Inr (), h') \<and> fs_local (hn_shared h') = fs_local (hn_shared h)"
proof -
  let ?m = "hn_manifest h0" and ?p = "offset div page_size (hn_manifest h0)" and ?T = "st ++ map_of (rev ws)"
  have e: "\<not> he_read_only E" "cache_codec (he_codec E)" "is_valid_page_size (page_size ?m)" "dc_compression (hn_cache h0) \<or> slot_fits (hn_cache h0) ?p"
    using env(1) place by (auto simp: staging_env_def in_place_def)
  have g: "length buf = page_size ?m" "wa_staging a = Staged" "length (wa_nonce a) = 12" using ok place by (simp_all add: good_answers_def in_place_def)
  have i: "hn_page_size h = page_size ?m" "cached_over E (hn_cache h0) ?T (hn_cache h)" using inv by (simp_all add: staging_inv_def)
  have ps: "page_size ?m \<noteq> 0" using valid_size_pos [OF e(3)] by simp
  define h1 where "h1 = note_cookie (he_codec E) ?p buf h"
  have h1: "hn_shared h1 = hn_shared h" "hn_page_size h1 = page_size ?m" by (simp_all add: h1_def note_cookie_def Let_def i(1))
  have "dc_page_size (hn_cache h) = page_size ?m" using i(2) env(2) by (simp add: cached_over_def same_kind_def)
  then obtain dc where c: "cache_dirty_page E a ?p buf h1 = (Inr (), with_cache (\<lambda>_. dc) h1)"
    using cache_dirty_page_total [OF _ e(2) _ _ g(3) e(4), of ?T h1 buf] i(2) h1(1) g(1) total by (auto simp: reliable_def)
  obtain h2 where s: "stage_page E a ?p buf (with_cache (\<lambda>_. dc) h1) = (Inr (), h2)" "fs_local (hn_shared h2) = fs_local (hn_shared (with_cache (\<lambda>_. dc) h1))"
    using stage_page_total [OF g(2), of buf "with_cache (\<lambda>_. dc) h1" E ?p] g(1) h1 by auto
  have "handle_write E a buf offset h = (Inr (), note_dirty E ?p buf h2)"
    using e(1) ps c s(1) by (simp add: handle_write_def adopt_page_size_def i(1) Let_def h1_def [symmetric])
  moreover have "fs_local (hn_shared (note_dirty E ?p buf h2)) = fs_local (hn_shared h)"
    using s(2) h1(1) by (simp add: note_dirty_def publish_geometry_def with_cache_def with_manifest_def Let_def)
  ultimately show ?thesis by blast
qed

lemma sync_local_total:
  assumes inv: "staging_inv E h0 h st ws" and env: "staging_env E (hn_manifest h0) (hn_cache h0)" and total: "reliable E"
    and ok: "good_answers ps (HCheckpoint a)" and kept: "local_ok (fe_serde (he_flush E)) (fs_local (hn_shared h))"
  shows "\<exists>h'. sync_local E a h = (Inr (), h') \<and> local_ok (fe_serde (he_flush E)) (fs_local (hn_shared h'))"
proof -
  let ?sd = "fe_serde (he_flush E)"
  have r: "readable ?sd" "\<And>m. \<exists>data. ms_to_vec (fe_manifest_serde (he_flush E)) m = Some data" using total by (auto simp: reliable_def)
  have a: "sa_finalize a = None" "\<And>k. sa_fault a k = NoFault" using ok by (simp_all add: good_answers_def)
  have e: "\<not> fe_is_local (he_flush E)" "hash_iteration (fe_iter (he_flush E))" using env by (simp_all add: staging_env_def)
  have i: "hn_manifest h = hn_manifest h0" "\<forall>p \<in> hn_dirty h. page_location (hn_manifest h0) p \<noteq> None" "finite (hn_dirty h)" using inv by (simp_all add: staging_inv_def)
  obtain h1 where c: "checkpoint_groups E (sa_now a) h = (Inr (), h1)" "fs_local (hn_shared h1) = fs_local (hn_shared h)"
    using checkpoint_groups_located [of h E "sa_now a"] i e(2) by simp
  have f1: "fs_local (hn_shared (clean_handle h1)) = fs_local (hn_shared h)" using c(2) by (simp add: clean_handle_def with_cache_def split: prod.split)
  note up = update_state_ok [OF r(1)]
  have "\<exists>h2. finalize_log E a (clean_handle h1) = (Inr (), h2) \<and> local_ok ?sd (fs_local (hn_shared h2))"
  proof (cases "hn_writer (clean_handle h1)")
    case None
    obtain fl1 where 1: "persist_manifest_local ?sd NoFault (hn_manifest (clean_handle h1)) (fs_local (hn_shared (clean_handle h1))) = (Inr (), fl1)" "local_ok ?sd fl1"
      using up kept f1 unfolding persist_manifest_local_def by metis
    obtain fl2 where 2: "persist_dirty_groups ?sd NoFault (fe_iter (he_flush E) (fs_dirty (hn_shared (clean_handle h1)))) fl1 = (Inr (), fl2)" "local_ok ?sd fl2"
      using up 1(2) unfolding persist_dirty_groups_def by metis
    show ?thesis using None 1 2 a by (simp add: finalize_log_def persist_checkpoint_def Let_def)
  next
    case (Some w)
    obtain data where "ms_to_vec (fe_manifest_serde (he_flush E)) (hn_manifest (clean_handle h1)) = Some data" using r(2) by blast
    then show ?thesis using Some a kept f1 by (simp add: finalize_log_def Let_def split: prod.split)
  qed
  then obtain h2 where h2: "finalize_log E a (clean_handle h1) = (Inr (), h2)" "local_ok ?sd (fs_local (hn_shared h2))" by blast
  have "sync_local E a h = (Inr (), persist_best_effort E a h2)" using c(1) h2(1) e(1) by (simp add: sync_local_def inline_flush_def)
  moreover have "local_ok ?sd (fs_local (hn_shared (persist_best_effort E a h2)))"
    using up h2(2) a unfolding persist_best_effort_def persist_bitmap_def persist_manifest_local_def persist_dirty_groups_def Let_def
    by simp (metis snd_conv)
  ultimately show ?thesis by blast
qed

lemma handle_step_total:
  assumes inv: "staging_inv E h0 h st ws" and env: "staging_env E (hn_manifest h0) (hn_cache h0)" "dc_page_size (hn_cache h0) = page_size (hn_manifest h0)"
    and op: "in_place (hn_manifest h0) op" "good_answers (page_size (hn_manifest h0)) op" and total: "reliable E"
    and kept: "local_ok (fe_serde (he_flush E)) (fs_local (hn_shared h))"
  shows "\<exists>h'. handle_step E op h = (Inr (), h') \<and> local_ok (fe_serde (he_flush E)) (fs_local (hn_shared h'))"
proof (cases op)
  case (HWrite offset buf a)
  then show ?thesis using handle_write_total [OF inv env _ total, of offset buf a] op kept by auto
next
  case (HCheckpoint a)
  let ?h = "h\<lparr>hn_synced := True\<rparr>"
  have "staging_inv E h0 ?h st ws" using inv log_inv_cong [of ?h h E st ws] by (simp add: staging_inv_def)
  from sync_local_total [OF this env(1) total, of _ a] obtain h' where "sync_local E a ?h = (Inr (), h')" "local_ok (fe_serde (he_flush E)) (fs_local (hn_shared h'))"
    using op(2) HCheckpoint kept by auto
  then show ?thesis using env(1) HCheckpoint kept by (simp add: handle_sync_def Let_def staging_env_def)
qed

lemma handle_run_total:
  assumes "staging_inv E h0 h st ws" and env: "staging_env E (hn_manifest h0) (hn_cache h0)" "dc_page_size (hn_cache h0) = page_size (hn_manifest h0)"
    and "\<forall>op \<in> set ops. in_place (hn_manifest h0) op \<and> good_answers (page_size (hn_manifest h0)) op" and total: "reliable E"
    and "local_ok (fe_serde (he_flush E)) (fs_local (hn_shared h))" "hn_seq h + length ops < U64_SIZE"
  shows "\<exists>h'. handle_run E ops h = (Inr (), h') \<and> local_ok (fe_serde (he_flush E)) (fs_local (hn_shared h'))"
  using assms(1,4,6,7)
proof (induction ops arbitrary: h st ws)
  case (Cons op ops)
  obtain h1 where s: "handle_step E op h = (Inr (), h1)" "local_ok (fe_serde (he_flush E)) (fs_local (hn_shared h1))"
    using handle_step_total [OF Cons(2) env _ _ total] Cons(3,4) by auto
  obtain st1 ws1 where 1: "staging_inv E h0 h1 st1 ws1" "hn_seq h1 \<le> hn_seq h + 1"
    using handle_step_inv [OF s(1) Cons(2) env] Cons(3,5) by auto
  then have "\<exists>h'. handle_run E ops h1 = (Inr (), h') \<and> local_ok (fe_serde (he_flush E)) (fs_local (hn_shared h'))"
    using Cons(1) [OF 1(1)] Cons(3,5) s(2) by auto
  then show ?case using s(1) by simp
qed simp

text \<open>An open log always has dirty pages, so a checkpoint closes it.\<close>

definition open_dirty :: "handle \<Rightarrow> bool" where
  "open_dirty h \<longleftrightarrow> (hn_writer h \<noteq> None \<longrightarrow> hn_dirty h \<noteq> {})"

lemma write_dirty:
  assumes "handle_write E a buf offset h = (Inr (), h')"
  shows "open_dirty h'"
proof -
  obtain h2 p where "h' = note_dirty E p buf h2" using assms by (auto simp: handle_write_def Let_def and_then_ok panic_def split: if_splits)
  then show ?thesis by (simp add: open_dirty_def note_dirty_def publish_geometry_def with_cache_def with_manifest_def Let_def)
qed

lemma checkpoint_closes:
  assumes "handle_step E (HCheckpoint a) h = (Inr (), h')" "he_local_only E" "\<not> he_read_only E" "open_dirty h"
  shows "hn_writer h' = None"
proof (cases "nothing_to_sync (h\<lparr>hn_synced := True\<rparr>)")
  case True
  then show ?thesis using assms by (auto simp: handle_sync_def Let_def nothing_to_sync_def open_dirty_def)
next
  case False
  then obtain h1 h2 where "finalize_log E a h1 = (Inr (), h2)" "h' = inline_flush E (persist_best_effort E a h2)"
    using assms(1-3) by (auto simp: handle_sync_def Let_def sync_local_def and_then_ok)
  moreover have "hn_writer h2 = None" if "finalize_log E a h1 = (Inr (), h2)"
    using that by (auto simp: finalize_log_def persist_checkpoint_def Let_def split: option.splits prod.splits sum.splits)
  ultimately show ?thesis by (simp add: inline_flush_def persist_best_effort_def Let_def)
qed

lemma handle_run_closes:
  assumes "handle_run E (ops @ [HCheckpoint a]) h = (Inr (), h')" "he_local_only E" "\<not> he_read_only E" "open_dirty h"
  shows "hn_writer h' = None"
  using assms(1,4)
proof (induction ops arbitrary: h)
  case Nil
  then show ?case using checkpoint_closes [OF _ assms(2,3)] by (auto simp del: handle_step.simps simp: and_then_ok)
next
  case (Cons op ops)
  then obtain h1 where s: "handle_step E op h = (Inr (), h1)" and r: "handle_run E (ops @ [HCheckpoint a]) h1 = (Inr (), h')"
    by (auto simp del: handle_step.simps simp: and_then_ok)
  have "open_dirty h1"
  proof (cases op)
    case (HWrite offset buf b)
    then show ?thesis using s write_dirty by simp
  next
    case (HCheckpoint b)
    then have "hn_writer h1 = None" using checkpoint_closes [OF _ assms(2,3) Cons(3)] s by simp
    then show ?thesis by (simp add: open_dirty_def)
  qed
  then show ?case using Cons(1) [OF r] by simp
qed

subsection \<open>The theorems\<close>

text \<open>
  C1: What is written reaches every reader. Start from a handle in local-then-flush mode over a remote backend
  that has nothing pending, whose cache agrees with the store on a disk that does not fail, and whose manifest has frames. Run any sequence of in-place page writes (inside the published
  size) and checkpoints that ends with everything checkpointed (no log is left open: an uncheckpointed write
  would be published from the cache), and then a flush. If none of them reports an error, a reader of the
  published manifest and objects sees, at every position of every group, the last data written to that page,
  and where nothing was written the page as it was published before, with one exception that the statement
  spells out: a page that was not written, is not in the cache and lives in an override frame, in a part of the database
  the flush uploads anew (its group, when the group is rewritten as a whole, or its frame), is published as its base object has
  it, without the override (\<open>src/src/tiered/flush.rs:104\<close>). Every write is published.
\<close>

theorem checkpointed_writes_published:
  assumes "staging_env E (hn_manifest h) (hn_cache h)" "flush_codec (he_flush E)" "clean_start E h"
    and "\<forall>op \<in> set ops. in_place (hn_manifest h) op" "hn_seq h + length ops < U64_SIZE"
    and "handle_run E ops h = (Inr (), h')" "hn_writer h' = None"
    and "flush_dirty_groups (he_flush E) (hn_shared h') = (Inr (), s')"
    and "group_in_range (hn_manifest h) gid" "pos < length (group_page_nums (hn_manifest h) gid)"
    and "(case map_of (rev (writes_of (page_size (hn_manifest h)) ops)) (group_page_nums (hn_manifest h) gid ! pos) of
           Some d \<Rightarrow> Some d
         | None \<Rightarrow>
             if cache_view (he_codec E) (hn_cache h) (group_page_nums (hn_manifest h) gid ! pos) = None
                \<and> override_at (hn_manifest h) gid (pos div sub_pages_per_frame (hn_manifest h)) \<noteq> None
                \<and> flush_touches (he_flush E) (hn_manifest h) (map_of (rev (writes_of (page_size (hn_manifest h)) ops))) (fs_dirty (hn_shared h')) gid pos
             then base_page (he_codec E) (fe_key (he_flush E)) (hn_manifest h) (bk_objects (fs_backend (hn_shared h))) gid pos
             else remote_page (he_codec E) (fe_key (he_flush E)) (hn_manifest h) (bk_objects (fs_backend (hn_shared h))) gid pos) = Some d"
  shows "remote_page (he_codec E) (fe_key (he_flush E)) (fs_manifest s') (bk_objects (fs_backend s')) gid pos = Some d"
proof -
  let ?C = "he_codec E" and ?m = "hn_manifest h" and ?F = "he_flush E" and ?p = "group_page_nums (hn_manifest h) gid ! pos"
  let ?ws = "map_of (rev (writes_of (page_size ?m) ops))" and ?objs = "bk_objects (fs_backend (hn_shared h))"
  have size: "dc_page_size (hn_cache h) = page_size ?m" and lay: "flush_layout ?m" using assms(3) by (simp_all add: clean_start_def flush_ready_def Let_def)
  obtain st ws where inv: "staging_inv E h h' st ws" and st: "st ++ map_of (rev ws) = ?ws"
    using handle_run_inv [OF assms(6) clean_start_inv [OF assms(3)] assms(1) size assms(4,5)] by auto
  have logs: "read_logs (fs_logs (hn_shared h')) (fs_pending (hn_shared h')) Map.empty = Inr st" and ws: "ws = []"
    using inv assms(7) by (simp_all add: staging_inv_def log_inv_def)
  then have st: "st = ?ws" using st by simp
  have i: "hn_manifest h' = ?m" "fs_backend (hn_shared h') = fs_backend (hn_shared h)" "cache_view ?C (hn_cache h') = cache_view ?C (hn_cache h) ++ st"
    using inv ws by (simp_all add: staging_inv_def cached_over_def)
  have "published_page ?F st (hn_cache h') ?m ?objs (fs_dirty (hn_shared h')) gid pos = Some d"
  proof (cases "?ws ?p")
    case (Some x)
    then show ?thesis using published_staged [OF lay assms(9,10), of st x] assms(11) st by simp
  next
    case None
    have cached: "cache_view ?C (hn_cache h) ?p = Some x \<Longrightarrow> x = d" for x
      using clean_cached [OF assms(3,9,10), of x] assms(11) None by simp
    have "local_view ?C st (hn_cache h') ?p = cache_view ?C (hn_cache h) ?p" using None st by (simp add: local_view_def i(3) map_add_def)
    moreover have "0 < sub_pages_per_frame ?m" using assms(1) by (simp add: staging_env_def)
    ultimately show ?thesis using assms(11) None cached st by (auto simp: published_page_def remote_page_split split: option.splits if_splits)
  qed
  moreover have "flush_ready ?F (hn_shared h') st" using staged_ready [OF assms(3)] inv ws by simp
  moreover have "0 < sub_pages_per_frame ?m" "hash_iteration (fe_iter ?F)" using assms(1) by (simp_all add: staging_env_def)
  ultimately show ?thesis using flush_publishes_view(1) [OF assms(2) _ logs _ _ assms(8), of pos gid d] i assms(10) by simp
qed

subsection \<open>A database of one page\<close>

text \<open>A codec that meets the contracts of the cache and of the flush.\<close>

definition disk_codec :: codec where
  "disk_codec = \<lparr>zs_encode = (\<lambda>x. Inr (40 # x)), zs_stream = (\<lambda>y. (drop 1 y, None)),
     gcm_seal = (\<lambda>k n a x. Inr (seal_aad a (x @ zeros 15))),
     gcm_open = (\<lambda>k n a y. bind_result (open_aad a y) (\<lambda>x. Inr (take (length x - 15) x)))\<rparr>"

definition db_env :: handle_env where
  "db_env = \<lparr>he_flush = new_env\<lparr>fe_codec := disk_codec, fe_is_local := False\<rparr>, he_local_only = True, he_ppg = 1, he_read_only = False,
     he_staging_dir = ''staging'', he_evict_on_checkpoint = False\<rparr>"

definition db_manifest :: manifest where
  "db_manifest = empty_manifest\<lparr>version := 3, change_counter := 1, page_count := 1, page_size := 512, pages_per_group := 1,
     sub_pages_per_frame := 1, strategy := Positional\<rparr>"

definition db_handle :: handle where
  "db_handle = \<lparr>hn_shared = \<lparr>fs_backend = \<lparr>bk_objects = Map.empty, bk_fault = (\<lambda>_. None), bk_ops = 0\<rparr>,
       fs_cache = (sample_cache False [] {} [])\<lparr>dc_page_size := 512\<rparr>, fs_manifest = db_manifest, fs_dirty = {}, fs_pending = [],
       fs_logs = Map.empty, fs_local = None\<rparr>,
     hn_seq = 0, hn_dirty = {}, hn_page_size = 512, hn_pending_count = 1, hn_dirty_since_sync = False, hn_synced = False,
     hn_generation = 0, hn_cookie = None, hn_vacuum_keys = None, hn_writer = None\<rparr>"

definition db_page :: bytes where "db_page = replicate 512 7"

definition db_write :: handle_op where
  "db_write = HWrite 0 db_page \<lparr>wa_nonce = zeros 12, wa_now = 0, wa_staging = Staged\<rparr>"

definition db_checkpoint :: handle_op where
  "db_checkpoint = HCheckpoint \<lparr>sa_now = 0, sa_finalize = None, sa_fault = (\<lambda>_. NoFault)\<rparr>"

lemma length_seal_aad: "length (seal_aad a x) = 2 * length a + 1 + length x"
  by (induction a) simp_all

lemma open_aad_other: "a' \<noteq> a \<Longrightarrow> \<exists>e. open_aad a' (seal_aad a x) = Inl e"
  using open_other_aad [of a' a x] by (cases "open_aad a' (seal_aad a x)") simp_all

lemma disk_codec_ok: "cache_codec disk_codec" "codec_contract disk_codec" "seal_bounded disk_codec" "encoding_total disk_codec"
proof -
  show "cache_codec disk_codec" by (simp add: cache_codec_def disk_codec_def)
  have other: "\<not> is_ok (bind_result (open_aad a' (seal_aad a x)) f)" if "a' \<noteq> a" for a a' x and f :: "bytes \<Rightarrow> bytes io_result"
    using open_aad_other [OF that, of x] by auto
  have "gcm_seal disk_codec k n a x = Inr y \<and> a' \<noteq> a \<longrightarrow> \<not> is_ok (gcm_open disk_codec k n a' y)" for k n a a' x y
    using other by (simp add: disk_codec_def) blast
  then show "codec_contract disk_codec" unfolding codec_contract_def by (simp add: disk_codec_def open_seal_aad)
  show "seal_bounded disk_codec"
    by (auto simp: seal_bounded_def seal_frame_def compress_def disk_codec_def encrypt_gcm_random_nonce_def length_seal_aad split: option.splits)
  show "encoding_total disk_codec" by (simp add: encoding_total_def disk_codec_def)
qed

lemma db_fields [simp]:
  "hn_manifest db_handle = db_manifest" "fs_local (hn_shared db_handle) = None" "hn_seq db_handle = 0" "page_size db_manifest = 512" "page_count db_manifest = 1"
  "sub_pages_per_frame db_manifest = 1" "pages_per_group db_manifest = 1" "version db_manifest = 3" "page_group_keys db_manifest = []"
  "frame_tables db_manifest = []" "subframe_overrides db_manifest = []" "strategy db_manifest = Positional" "db_header db_manifest = None"
  "change_counter db_manifest = 1" "interior_chunk_keys db_manifest = Map.empty" "index_chunk_keys db_manifest = Map.empty" "group_pages db_manifest = []"
  "he_codec db_env = disk_codec" "fe_key (he_flush db_env) = None" "bk_objects (fs_backend (hn_shared db_handle)) = Map.empty" "length db_page = 512"
  by (simp_all add: db_handle_def db_manifest_def db_env_def db_page_def empty_manifest_def)

lemma db_groups: "group_page_nums db_manifest gid = (if gid mod U64_SIZE = 0 then [0] else [])"
proof (cases "gid mod U64_SIZE = 0")
  case False
  then have "min ((gid mod U64_SIZE + 1) mod U64_SIZE) 1 \<le> gid mod U64_SIZE" by simp
  then show ?thesis using False by (simp add: group_page_nums_def Let_def)
qed (simp add: group_page_nums_def Let_def)

lemma db_remote: "remote_page C key db_manifest objs gid pos = None"
  by (simp add: remote_page_split base_page_def get_def override_frame_def override_at_def)

lemma db_location: "page_location db_manifest p = (if p = 0 then Some \<lparr>pl_group_id = 0, pl_index = 0\<rparr> else None)"
  by (simp add: page_location_def)

lemma db_cache_empty: "cache_inv disk_codec (hn_cache db_handle)" "cache_view disk_codec (hn_cache db_handle) p = None"
proof -
  show inv: "cache_inv disk_codec (hn_cache db_handle)"
    by (simp add: db_handle_def cache_inv_def sample_cache_def index_ok_def empty_index_def index_in_file_def mem_hit_def dc_is_present_def no_bits)
  have "\<not> dc_is_present p (hn_cache db_handle)" by (simp add: db_handle_def sample_cache_def dc_is_present_def no_bits)
  then show "cache_view disk_codec (hn_cache db_handle) p = None" using view_present [OF inv, of p] by simp
qed

lemma db_env_ok: "staging_env db_env db_manifest (hn_cache db_handle)"
proof -
  have "slot_fits (hn_cache db_handle) 0" by (simp add: db_handle_def slot_fits_def slot_stride_def stride_for_def sample_cache_def)
  moreover have "he_local_only db_env" "\<not> fe_is_local (he_flush db_env)" "\<not> he_read_only db_env" "fe_iter (he_flush db_env) = sorted_list_of_set"
    by (simp_all add: db_env_def new_env_def)
  moreover have "(1::nat) \<le> MANIFEST_MAGIC" unfolding MANIFEST_MAGIC_def by simp
  ultimately show ?thesis unfolding staging_env_def db_fields
    using disk_codec_ok(1) valid_page_size_512 sorted_iter.hash_iteration_axioms by simp
qed

lemma db_clean: "clean_start db_env db_handle"
proof -
  have "store_wf disk_codec None db_manifest Map.empty"
    by (auto simp: store_wf_def db_remote keys_wf_def override_at_def get_def db_groups group_limits_def MAX_TIERED_DECOMPRESSED_BYTES_def)
  moreover have "flush_layout db_manifest"
    by (auto simp: flush_layout_def db_groups db_location group_in_range_def)
  moreover have "base_page disk_codec None db_manifest Map.empty gid pos = None" for gid pos by (simp add: base_page_def get_def)
  moreover have "dc_page_size (hn_cache db_handle) = 512" "no_faults (dc_disk (hn_cache db_handle))" "fs_dirty (hn_shared db_handle) = {}"
      "fs_pending (hn_shared db_handle) = []" "hn_dirty db_handle = {}" "hn_writer db_handle = None" "hn_page_size db_handle = 512"
    by (simp_all add: db_handle_def sample_cache_def no_faults_def)
  ultimately show ?thesis using db_cache_empty by (simp add: clean_start_def flush_ready_def Let_def bundle_keys_wf_def)
qed

lemma db_reliable: "reliable db_env" "local_ok (fe_serde (he_flush db_env)) None"
  using disk_codec_ok(4) by (simp_all add: reliable_def readable_def local_ok_def) (simp_all add: db_env_def new_env_def)

lemma db_ops: "\<forall>op \<in> set ([db_write] @ [db_checkpoint]). in_place db_manifest op \<and> good_answers 512 op"
  by (simp add: db_write_def db_checkpoint_def in_place_def good_answers_def db_location)

text \<open>The flush after that run: the one group is encoded from the staged page, and nothing refuses an upload.\<close>

lemma disk_seal: "\<exists>out. seal_frame disk_codec nonce aad key raw = Inr out"
  by (cases key) (simp_all add: seal_frame_def compress_def encrypt_gcm_random_nonce_def disk_codec_def)

lemma disk_frames: "\<exists>enc ft. encode_frames disk_codec nonces aad key k raws blob table = Inr (enc, ft)"
proof (induction raws arbitrary: k blob table)
  case (Cons raw raws)
  obtain out where "seal_frame disk_codec (nonces k) aad key raw = Inr out" using disk_seal by blast
  then show ?case using Cons by simp
qed simp

lemma db_flush_fields [simp]: "fe_codec (he_flush db_env) = disk_codec" "fe_is_local (he_flush db_env) = False" "fe_compaction_threshold (he_flush db_env) = 0"
  "fe_manifest_serde (he_flush db_env) = \<lparr>ms_to_vec = (\<lambda>_. Some []), ms_from_slice = (\<lambda>_. None)\<rparr>"
  "fe_serde (he_flush db_env) = \<lparr>sd_to_vec = (\<lambda>_. Some []), sd_from_slice = (\<lambda>_. Some default_state)\<rparr>"
  "fe_manifest_fault (he_flush db_env) = NoFault" "fe_dirty_fault (he_flush db_env) = NoFault"
  by (simp_all add: db_env_def)

lemma db_flush_group:
  assumes "st 0 = Some d"
  shows "\<exists>enc ft. flush_group (he_flush db_env) st dc db_manifest v gid b = (Inr (Rewritten enc ft), b)"
proof -
  have "\<exists>pages. merged_pages disk_codec None st dc db_manifest gid b = (Inr pages, b)"
    using assms by (simp add: merged_pages_def db_groups staged_or_cached_def Let_def and_then_def)
  then obtain pages where m: "merged_pages disk_codec None st dc db_manifest gid b = (Inr pages, b)" by blast
  obtain enc ft where e: "encode_page_group_seekable disk_codec (fe_nonces (he_flush db_env) (page_group_key gid v)) pages 512 1 (aad_page_group gid) None = Inr (enc, ft)"
    using disk_frames unfolding encode_page_group_seekable_def by (metis one_neq_zero)
  have "\<not> use_override db_manifest st t gid" for t by (simp add: use_override_def has_frame_table_def get_def Let_def)
  then show ?thesis using m e by (simp add: flush_group_def Let_def and_then_def)
qed

lemma db_flush_groups:
  assumes "st 0 = Some d"
  shows "\<exists>acc'. flush_groups (he_flush db_env) st dc db_manifest v gids acc b = (Inr acc', b)"
proof (induction gids arbitrary: acc)
  case (Cons gid gids)
  obtain enc ft where "flush_group (he_flush db_env) st dc db_manifest v gid b = (Inr (Rewritten enc ft), b)" using db_flush_group assms by blast
  then show ?case using Cons by simp
qed simp

lemma disk_bundle_loop:
  assumes "fe_codec E = disk_codec"
  shows "\<exists>acc'. bundle_loop E kind ps v pages dirty old cids acc = Inr acc'"
proof (induction cids arbitrary: acc)
  case (Cons cid cids)
  obtain out where "encode_interior_bundle disk_codec (fe_nonces E (fst kind cid v) 0) (chunk_pages ps pages cid) ps (snd kind cid) (fe_key E) = Inr out"
    using disk_seal unfolding encode_interior_bundle_def by blast
  then show ?case using Cons assms by (simp split: option.split)
qed simp

lemma db_build_bundles: "\<exists>acc. build_bundles (he_flush db_env) kind 512 v pages dirty old = Inr acc"
proof -
  have "bundle_chunk_range 512 \<noteq> 0" by (simp add: bundle_chunk_range_def)
  moreover obtain acc where "bundle_loop (he_flush db_env) kind 512 v pages (chunk_id_of 512 ` dirty) old (fe_iter (he_flush db_env) (chunk_id_of 512 ` dom pages))
      \<lparr>ba_uploads = [], ba_replaced = [], ba_keys = Map.empty\<rparr> = Inr acc" using disk_bundle_loop [OF db_flush_fields(1)] by blast
  ultimately show ?thesis by (simp add: build_bundles_def Let_def)
qed

lemma db_bundles:
  assumes "st 0 = Some d"
  shows "\<exists>bs. bundles (he_flush db_env) st dc db_manifest v gids = Inr bs"
proof -
  have "\<exists>leaves'. dirty_index_leaves disk_codec st dc db_manifest pnums leaves = Inr leaves'" for pnums leaves
  proof (induction pnums arbitrary: leaves)
    case (Cons p pnums)
    then show ?case using assms by (cases "p = 0") (simp_all add: staged_or_cached_def)
  qed simp
  then obtain leaves where "all_index_leaves (he_flush db_env) st dc db_manifest gids = Inr leaves" by (simp add: all_index_leaves_def Let_def) (metis bind_result.simps(2))
  then show ?thesis using db_build_bundles by (simp add: bundles_def remote_bundles_def Let_def) (metis bind_result.simps(2))
qed

lemma db_flush_upload:
  assumes st: "st 0 = Some d" and s: "fs_manifest s = db_manifest" "fs_backend s = fs_backend (hn_shared db_handle)" "local_ok (fe_serde (he_flush db_env)) (fs_local s)"
  shows "\<exists>s'. flush_upload (he_flush db_env) fls st gids cc s = (Inr (), s')"
proof -
  let ?F = "he_flush db_env" and ?b = "fs_backend (hn_shared db_handle)"
  have b: "bk_fault ?b = (\<lambda>_. None)" "bk_objects ?b = Map.empty" by (simp_all add: db_handle_def)
  obtain acc where g: "flush_groups ?F st (fs_cache s) db_manifest 4 gids (initial_acc db_manifest) ?b = (Inr acc, ?b)" using db_flush_groups st by blast
  obtain bs where bs: "bundles ?F st (fs_cache s) db_manifest 4 gids = Inr bs" using db_bundles st by blast
  let ?ups = "fa_uploads acc @ ba_uploads (fst bs) @ ba_uploads (snd bs)"
  have "fresh_at 4 ?ups" using flush_groups_fresh [OF g] bundles_fresh [OF bs] by (simp add: initial_acc_def)
  then have fresh: "\<exists>k. fst u = key_of k 4" if "u \<in> set ?ups" for u using that unfolding fresh_at_def by blast
  have "MANIFEST_KEY \<noteq> fst u" if u: "u \<in> set ?ups" for u
  proof -
    obtain k where "fst u = key_of k 4" using fresh [OF u] by blast
    then show ?thesis using key_of_nonempty(2) [of k 4] by simp
  qed
  then have "MANIFEST_KEY \<notin> fst ` set ?ups" by blast
  then have "put_all ?ups Map.empty MANIFEST_KEY = None" by (intro put_all_other [THEN trans]) auto
  then have "\<exists>b2. put_page_groups ?ups ?b = (Inr (), b2) \<and> bk_objects b2 MANIFEST_KEY = None \<and> bk_fault b2 = (\<lambda>_. None)"
    using b by (cases "?ups = []") (simp_all add: put_page_groups_def tick_def)
  then obtain b2 where b2: "put_page_groups ?ups ?b = (Inr (), b2)" "bk_objects b2 MANIFEST_KEY = None" "bk_fault b2 = (\<lambda>_. None)" by blast
  let ?acc = "drain_overrides ?F (acc\<lparr>fa_replaced := fa_replaced acc @ ba_replaced (fst bs) @ ba_replaced (snd bs)\<rparr>)"
  obtain b3 where b3: "put_manifest (fe_tree_iter ?F) (fe_manifest_serde ?F) (flushed_manifest ?F db_manifest 4 cc ?acc bs) b2 = (Inr (), b3)"
    using new_put_manifest [OF b2(2,3)] by auto
  have "fst (finish_flush ?F fls m' replaced (s\<lparr>fs_backend := b3\<rparr>)) = Inr ()" for m' replaced
    by (cases "fs_local s") (simp_all add: finish_flush_def Let_def persist_manifest_local_def persist_dirty_groups_def update_state_def load_or_default_def
      load_state_def persist_state_def)
  then show ?thesis using g bs b2(1) b3 s(1,2) by (simp add: flush_upload_def Let_def) (metis prod.collapse)
qed

lemma db_flush:
  assumes inv: "staging_inv db_env db_handle h [0 \<mapsto> d] []" and kept: "local_ok (fe_serde (he_flush db_env)) (fs_local (hn_shared h))"
  shows "\<exists>s'. flush_dirty_groups (he_flush db_env) (hn_shared h) = (Inr (), s')"
proof -
  let ?F = "he_flush db_env" and ?s = "(hn_shared h)\<lparr>fs_pending := [], fs_dirty := {}\<rparr>" and ?st = "[0 \<mapsto> d]"
  have i: "hn_manifest h = db_manifest" "fs_backend (hn_shared h) = fs_backend (hn_shared db_handle)" "cache_inv disk_codec (hn_cache h)"
      "dc_page_size (hn_cache h) = 512" "cache_view disk_codec (hn_cache h) = cache_view disk_codec (hn_cache db_handle) ++ ?st"
      "read_logs (fs_logs (hn_shared h)) (fs_pending (hn_shared h)) Map.empty = Inr ?st"
    using inv by (simp_all add: staging_inv_def cached_over_def log_inv_def same_kind_def) (simp add: db_handle_def)
  have "cache_view disk_codec (hn_cache h) 0 = Some d" using i(5) by simp
  then have "read_page disk_codec 0 (zeros 512) (hn_cache h) = Inr d" using read_stored [OF i(3)] view_iff [OF i(3)] i(4) by metis
  moreover have "validate_replay_cursor_page0 c 1 d None = Inr ()" for c by (simp add: validate_replay_cursor_page0_def)
  ultimately obtain cc where cc: "resolve_manifest_replay_cursor (read_page disk_codec 0 (zeros 512) (hn_cache h)) db_manifest = Inr cc"
    by (simp add: resolve_manifest_replay_cursor_def)
  have "0 \<in> dirty_group_ids db_manifest ?st (fs_dirty (hn_shared h))"
  proof -
    have "\<lparr>pl_group_id = 0, pl_index = 0\<rparr> \<in> Option.these (page_location db_manifest ` dom ?st)" unfolding in_these_eq by (simp add: db_location)
    from imageI [OF this, of pl_group_id] show ?thesis by (simp add: dirty_group_ids_def)
  qed
  moreover have "fs_pending (hn_shared h) \<noteq> []" using i(6) map_upd_nonempty [of Map.empty 0 d] by (metis read_logs.simps(1) sum.inject(2))
  moreover obtain s' where "flush_upload ?F (fs_pending (hn_shared h)) ?st (fe_iter ?F (dirty_group_ids db_manifest ?st (fs_dirty (hn_shared h)))) cc ?s = (Inr (), s')"
    using db_flush_upload [of ?st d ?s "fs_pending (hn_shared h)" "fe_iter ?F (dirty_group_ids db_manifest ?st (fs_dirty (hn_shared h)))" cc] i(1,2) kept
    by auto
  ultimately show ?thesis using i(1,6) cc by (auto simp: flush_dirty_groups_def flush_inner_def Let_def)
qed

theorem checkpointed_writes_published_witness:
  "\<exists>h' s'. handle_run db_env [db_write, db_checkpoint] db_handle = (Inr (), h') \<and> flush_dirty_groups (he_flush db_env) (hn_shared h') = (Inr (), s')
     \<and> remote_page disk_codec None (fs_manifest s') (bk_objects (fs_backend s')) 0 0 = Some db_page"
proof -
  have size: "dc_page_size (hn_cache db_handle) = page_size (hn_manifest db_handle)" using db_clean by (simp add: clean_start_def flush_ready_def Let_def)
  have ops: "\<forall>op \<in> set [db_write, db_checkpoint]. in_place (hn_manifest db_handle) op" using db_ops by simp
  obtain h' where run: "handle_run db_env [db_write, db_checkpoint] db_handle = (Inr (), h')" and kept: "local_ok (fe_serde (he_flush db_env)) (fs_local (hn_shared h'))"
    using handle_run_total [OF clean_start_inv [OF db_clean] _ size, of "[db_write, db_checkpoint]"] db_env_ok db_reliable db_ops by auto
  have w: "writes_of 512 [db_write, db_checkpoint] = [(0, db_page)]" by (simp add: db_write_def db_checkpoint_def)
  have closed: "hn_writer h' = None"
    using handle_run_closes [of db_env "[db_write]" _ db_handle h'] run db_env_ok db_clean unfolding db_checkpoint_def
    by (simp add: staging_env_def clean_start_def open_dirty_def Let_def)
  obtain st ws where inv: "staging_inv db_env db_handle h' st ws" and st: "st ++ map_of (rev ws) = [0 \<mapsto> db_page]"
    using handle_run_inv [OF run clean_start_inv [OF db_clean] _ size ops] db_env_ok w by auto
  have "ws = []" using inv closed by (simp add: staging_inv_def log_inv_def)
  then have "staging_inv db_env db_handle h' [0 \<mapsto> db_page] []" using inv st by simp
  then obtain s' where flush: "flush_dirty_groups (he_flush db_env) (hn_shared h') = (Inr (), s')" using db_flush kept by blast
  have "flush_codec (he_flush db_env)" using disk_codec_ok(2,3) by (simp add: flush_codec_def) (simp add: db_env_def new_env_def)
  then have "remote_page disk_codec None (fs_manifest s') (bk_objects (fs_backend s')) 0 0 = Some db_page"
    using checkpointed_writes_published [OF _ _ db_clean ops _ run closed flush, of 0 0 db_page] db_env_ok w
    by (simp add: group_in_range_def db_groups)
  then show ?thesis using run flush by blast
qed

end
