(* ===== verification/Handle_Durable.thy ===== *)
theory Handle_Durable
  imports Handle Btree_Walker
begin

text \<open>
  The durable synchronisation of a handle (the last part of \<open>sync\<close> in \<open>src/src/tiered/handle.rs\<close>): after
  a vacuum the groups are rebuilt from the B-trees; every dirty group is encoded again from the cache and
  its stored base; bundles, objects and manifest are uploaded; the local state, the cache file and the
  replaced objects follow. Nothing is staged: the pages come from the cache.
\<close>

subsection \<open>Vacuum\<close>

text \<open>More than half of the pages dirty: the quotient of two counts below \<open>2^53\<close> is compared with 0.5 exactly.\<close>

definition vacuum_detected :: "nat option \<Rightarrow> nat \<Rightarrow> nat \<Rightarrow> nat \<Rightarrow> bool" where
  "vacuum_detected prev cookie dirty_count pc \<longleftrightarrow>
     (case prev of None \<Rightarrow> False | Some c \<Rightarrow> cookie \<noteq> c \<and> max pc 1 < 2 * dirty_count)"

definition live_page_count :: "bytes \<Rightarrow> manifest \<Rightarrow> nat" where
  "live_page_count page0 m = (if 32 \<le> length page0 then be_val (bslice 28 4 page0) else page_count m)"

text \<open>A tree of at least a quarter group is packed alone, smaller trees share groups with the unowned pages.\<close>

definition pack_tree :: "nat \<Rightarrow> btree_entry \<Rightarrow> nat list list \<times> nat list \<Rightarrow> nat list list \<times> nat list" where
  "pack_tree ppg e acc =
     (case acc of (new_group_pages, small_pages) \<Rightarrow>
        let sorted_pages = sort (bt_pages e); threshold = max (ppg div 4) 1 in
        if threshold \<le> length sorted_pages then (new_group_pages @ chunks ppg sorted_pages, small_pages)
        else (new_group_pages, small_pages @ sorted_pages))"

definition btree_list :: "(nat set \<Rightarrow> nat list) \<Rightarrow> btree_walk_result \<Rightarrow> btree_entry list" where
  "btree_list iter w = sort_key (\<lambda>e. - int (length (bt_pages e))) (map (\<lambda>root. the (wr_btrees w root)) (iter (dom (wr_btrees w))))"

definition repack_groups :: "(nat set \<Rightarrow> nat list) \<Rightarrow> nat \<Rightarrow> btree_walk_result \<Rightarrow> nat list list" where
  "repack_groups iter ppg w =
     (case fold (pack_tree ppg) (btree_list iter w) ([], []) of
        (new_group_pages, small_pages) \<Rightarrow> new_group_pages @ chunks ppg (small_pages @ sort (wr_unowned_pages w)))"

definition page_to_gid :: "nat list list \<Rightarrow> nat \<rightharpoonup> nat" where
  "page_to_gid groups = insert_all (concat (map (\<lambda>(gid, pages). map (\<lambda>p. (p, gid)) pages) (List.enumerate 0 groups))) Map.empty"

definition repacked_entry :: "nat list list \<Rightarrow> btree_entry \<Rightarrow> btree_manifest_entry" where
  "repacked_entry groups e =
     \<lparr>be_name = bt_name e, be_obj_type = bt_obj_type e,
      be_group_ids = sorted_list_of_set (set (List.map_filter (page_to_gid groups) (bt_pages e))), be_pages = bt_pages e\<rparr>"

definition vacuum_keys :: "(nat set \<Rightarrow> nat list) \<Rightarrow> manifest \<Rightarrow> string list" where
  "vacuum_keys iter m =
     filter (\<lambda>k. k \<noteq> []) (page_group_keys m)
     @ map (\<lambda>cid. the (interior_chunk_keys m cid)) (iter (dom (interior_chunk_keys m)))
     @ map (\<lambda>cid. the (index_chunk_keys m cid)) (iter (dom (index_chunk_keys m)))
     @ concat (map (\<lambda>ovs. map (\<lambda>f. so_key (the (ovs f))) (iter (dom ovs))) (subframe_overrides m))"

definition repacked_manifest :: "(nat set \<Rightarrow> nat list) \<Rightarrow> nat \<Rightarrow> nat \<Rightarrow> btree_walk_result \<Rightarrow> manifest \<Rightarrow> manifest" where
  "repacked_manifest titer ppg live w m =
     (let groups = repack_groups titer ppg w in
      build_page_index titer (m\<lparr>page_count := live, group_pages := groups, btrees := map_option (repacked_entry groups) \<circ> wr_btrees w,
        page_group_keys := [], interior_chunk_keys := Map.empty, index_chunk_keys := Map.empty, frame_tables := [],
        subframe_overrides := []\<rparr>))"

definition cached_page :: "codec \<Rightarrow> nat \<Rightarrow> disk_cache \<Rightarrow> page_reader" where
  "cached_page C ps dc pnum = (case read_page C pnum (zeros ps) dc of Inr buf \<Rightarrow> Some buf | Inl _ \<Rightarrow> None)"

definition rewalk_btrees :: "(bytes \<Rightarrow> string) \<Rightarrow> handle_env \<Rightarrow> bytes \<Rightarrow> handle \<Rightarrow> unit io_result \<times> handle" where
  "rewalk_btrees lossy E page0 h =
     (let m = hn_manifest h; ps = hn_page_size h; live = live_page_count page0 m; h = h\<lparr>hn_pending_count := live\<rparr> in
      case walk_all_btrees lossy live ps (cached_page (he_codec E) ps (hn_cache h)) of
        Inl e \<Rightarrow> (Inl e, h)
      | Inr w \<Rightarrow>
          if he_ppg E = 0 then (panic ''chunk size must be non-zero'', h)
          else (Inr (), with_manifest (repacked_manifest (fe_tree_iter (he_flush E)) (he_ppg E) live w m)
                          (h\<lparr>hn_vacuum_keys := Some (vacuum_keys (fe_iter (he_flush E)) m)\<rparr>)))"

definition detect_vacuum :: "(bytes \<Rightarrow> string) \<Rightarrow> handle_env \<Rightarrow> handle \<Rightarrow> unit io_result \<times> handle" where
  "detect_vacuum lossy E h =
     (if 0 \<in> hn_dirty h \<and> strategy (hn_manifest h) = BTreeAware then
        case read_page (he_codec E) 0 (zeros (hn_page_size h)) (hn_cache h) of
          Inl e \<Rightarrow> (Inr (), h)
        | Inr page0 \<Rightarrow>
            if length page0 < 28 then (Inr (), h)
            else let cookie = be_val (bslice 24 4 page0);
                     do_rewalk = vacuum_detected (hn_cookie h) cookie (card (hn_dirty h)) (page_count (hn_manifest h));
                     h = h\<lparr>hn_cookie := Some cookie\<rparr>
                 in if do_rewalk then rewalk_btrees lossy E page0 h else (Inr (), h)
      else (Inr (), h))"

subsection \<open>The dirty groups\<close>

definition assign_dirty :: "handle_env \<Rightarrow> handle \<Rightarrow> unit io_result \<times> handle" where
  "assign_dirty E h =
     (let m = hn_manifest h; unassigned = filter (\<lambda>p. page_location m p = None) (fe_iter (he_flush E) (hn_dirty h)) in
      case assign_new_pages_to_groups m unassigned (he_ppg E) of
        None \<Rightarrow> (panic ''chunk size must be non-zero'', h)
      | Some m \<Rightarrow> (Inr (), with_manifest m h))"

text \<open>The groups of the dirty pages and of earlier local checkpoints; the pending set is emptied here.\<close>

definition groups_of :: "manifest \<Rightarrow> nat set \<Rightarrow> nat set" where
  "groups_of m pages = pl_group_id ` Option.these (page_location m ` pages)"

definition take_dirty_groups :: "handle \<Rightarrow> nat set io_result \<times> handle" where
  "take_dirty_groups h =
     (let m = hn_manifest h; s = hn_shared h in
      if \<exists>p \<in> hn_dirty h. page_location m p = None
      then (panic ''page must have group assignment after new-page assignment'', h)
      else (Inr (groups_of m (hn_dirty h) \<union> fs_dirty s), h\<lparr>hn_shared := s\<lparr>fs_dirty := {}\<rparr>\<rparr>))"

subsection \<open>Encoding a group\<close>

definition durable_base :: "codec \<Rightarrow> bytes option \<Rightarrow> nat \<Rightarrow> manifest \<Rightarrow> nat \<Rightarrow> (nat \<rightharpoonup> bytes) store_op" where
  "durable_base C key ps m gid b =
     (let n = length (group_page_nums m gid) in
      case get (page_group_keys m) gid of
        None \<Rightarrow> (Inl (Io InvalidData ''sync: group has missing pages and no existing backend key''), b)
      | Some existing_key \<Rightarrow>
          if existing_key = [] then (Inl (Io InvalidData ''sync: group has missing pages and no existing backend key''), b)
          else and_then (get_page_group existing_key b) (\<lambda>r b.
            case r of
              None \<Rightarrow> (Inl (Io InvalidData ''sync: group has missing pages and existing backend key is absent''), b)
            | Some pg_data \<Rightarrow>
                if has_frame_table m gid then
                  (case decode_page_group_seekable_full C pg_data (frame_tables m ! gid) ps (n mod U32_SIZE) (page_count m) 0 (aad_page_group gid) key of
                     Inl e \<Rightarrow> (Inl e, b)
                   | Inr (_, _, bulk) \<Rightarrow> (Inr (\<lambda>j. if (j + 1) * ps \<le> length bulk then Some (bslice (j * ps) ps bulk) else None), b))
                else
                  (case decode_page_group C pg_data (aad_page_group gid) key of
                     Inl e \<Rightarrow> (Inl e, b)
                   | Inr (_, _, pages) \<Rightarrow> (Inr (get pages), b))))"

definition durable_pages :: "codec \<Rightarrow> bytes option \<Rightarrow> nat \<Rightarrow> disk_cache \<Rightarrow> manifest \<Rightarrow> nat \<Rightarrow> bytes option list store_op" where
  "durable_pages C key ps dc m gid b =
     (let pages_in_group = group_page_nums m gid;
          in_bounds = takeWhile (\<lambda>p. p < page_count m) pages_in_group
      in case collect_results (map (\<lambda>pnum. read_page_if_present C pnum (zeros ps) dc) in_bounds) of
           Inl e \<Rightarrow> (Inl e, b)
         | Inr own \<Rightarrow>
             and_then (if None \<in> set own then durable_base C key ps m gid b else (Inr Map.empty, b)) (\<lambda>base b.
               let pages = map (\<lambda>(j, page). if page = None then base j else page) (List.enumerate 0 own)
               in if None \<in> set pages then (Inl (Io InvalidData ''sync: page is missing and has no backend source''), b)
                  else (Inr (pages @ replicate (length pages_in_group - length in_bounds) None), b)))"

definition encode_group :: "flush_env \<Rightarrow> nat \<Rightarrow> disk_cache \<Rightarrow> manifest \<Rightarrow> nat \<Rightarrow> nat \<Rightarrow> group_flush store_op" where
  "encode_group F ps dc m v gid b =
     and_then (durable_pages (fe_codec F) (fe_key F) ps dc m gid b) (\<lambda>pages b.
       let nonces = fe_nonces F (page_group_key gid v) in
       if 0 < sub_pages_per_frame m then
         (map_sum id (\<lambda>(encoded, ft). Rewritten encoded ft)
            (encode_page_group_seekable (fe_codec F) nonces pages ps (sub_pages_per_frame m) (aad_page_group gid) (fe_key F)), b)
       else
         (map_sum id (\<lambda>encoded. Rewritten encoded [])
            (encode_page_group (fe_codec F) (nonces 0) pages ps (aad_page_group gid) (fe_key F)), b))"

text \<open>All groups are encoded, also after one has failed; the first error is reported when the results are merged.\<close>

fun encode_groups :: "flush_env \<Rightarrow> nat \<Rightarrow> disk_cache \<Rightarrow> manifest \<Rightarrow> nat \<Rightarrow> nat list \<Rightarrow> backend \<Rightarrow> (nat \<times> group_flush io_result) list \<times> backend" where
  "encode_groups F ps dc m v [] b = ([], b)"
| "encode_groups F ps dc m v (gid # gids) b =
     (case encode_group F ps dc m v gid b of (r, b) \<Rightarrow>
        (case encode_groups F ps dc m v gids b of (rs, b) \<Rightarrow> ((gid, r) # rs, b)))"

fun merge_results :: "manifest \<Rightarrow> nat \<Rightarrow> (nat \<times> group_flush io_result) list \<Rightarrow> flush_acc \<Rightarrow> flush_acc io_result" where
  "merge_results m v [] acc = Inr acc"
| "merge_results m v ((gid, result) # rs) acc = bind_result result (\<lambda>r. merge_results m v rs (apply_group m v gid r acc))"

subsection \<open>Bundles\<close>

text \<open>The dirty interior pages are marked in the cache while they are collected; one buffer serves all reads.\<close>

fun dirty_interior ::
  "codec \<Rightarrow> manifest \<Rightarrow> rat \<Rightarrow> nat list \<Rightarrow> bytes \<Rightarrow> (nat \<rightharpoonup> bytes) \<Rightarrow> disk_cache \<Rightarrow> (nat \<rightharpoonup> bytes) io_result \<times> disk_cache" where
  "dirty_interior C m now [] buf pages dc = (Inr pages, dc)"
| "dirty_interior C m now (pnum # pnums) buf pages dc =
     (case read_page C pnum buf dc of
        Inl e \<Rightarrow> (Inl (Io Other ''cache.read_page failed during interior collection''), dc)
      | Inr buf \<Rightarrow>
          if (case get buf (Handle.header_offset pnum) of Some b \<Rightarrow> is_interior_type b | None \<Rightarrow> False)
          then dirty_interior C m now pnums buf (pages(pnum \<mapsto> buf)) (mark_if_interior m pnum buf now dc)
          else dirty_interior C m now pnums buf pages dc)"

definition known_interior :: "codec \<Rightarrow> nat \<Rightarrow> disk_cache \<Rightarrow> nat \<Rightarrow> nat set \<Rightarrow> (nat \<rightharpoonup> bytes) \<Rightarrow> nat \<rightharpoonup> bytes" where
  "known_interior C ps dc pc dirty pages pnum =
     (case pages pnum of
        Some data \<Rightarrow> Some data
      | None \<Rightarrow> if pnum \<in> dc_interior_pages dc \<and> pnum < pc \<and> pnum \<notin> dirty then cached_page C ps dc pnum else None)"

fun dirty_leaves :: "codec \<Rightarrow> nat list \<Rightarrow> bytes \<Rightarrow> (nat \<rightharpoonup> bytes) \<Rightarrow> disk_cache \<Rightarrow> (nat \<rightharpoonup> bytes) io_result" where
  "dirty_leaves C [] buf leaves dc = Inr leaves"
| "dirty_leaves C (pnum # pnums) buf leaves dc =
     (case read_page C pnum buf dc of
        Inl e \<Rightarrow> Inl (Io Other ''cache.read_page failed during index leaf collection'')
      | Inr buf \<Rightarrow> dirty_leaves C pnums buf (keep_leaf pnum (Some buf) leaves) dc)"

definition known_leaves :: "flush_env \<Rightarrow> nat \<Rightarrow> disk_cache \<Rightarrow> nat \<Rightarrow> nat set \<Rightarrow> (nat \<rightharpoonup> bytes) \<Rightarrow> nat \<rightharpoonup> bytes" where
  "known_leaves F ps dc pc dirty leaves =
     (let t = dc_tracker dc; index_sub_chunks = filter (\<lambda>i. tiers t i = Some Index) (fe_chunk_iter F (present t)) in
      fold (\<lambda>pnum leaves. if pc \<le> pnum \<or> leaves pnum \<noteq> None \<or> pnum \<in> dirty then leaves
            else keep_leaf pnum (cached_page (fe_codec F) ps dc pnum) leaves)
        (concat (map (\<lambda>i. pages_for_sub_chunk t i pc) index_sub_chunks)) leaves)"

definition durable_bundles ::
  "flush_env \<Rightarrow> rat \<Rightarrow> nat \<Rightarrow> nat set \<Rightarrow> manifest \<Rightarrow> nat \<Rightarrow> disk_cache \<Rightarrow> (bundle_acc \<times> bundle_acc) io_result \<times> disk_cache" where
  "durable_bundles F now ps dirty m v dc =
     and_then (dirty_interior (fe_codec F) m now (fe_iter F dirty) (zeros ps) Map.empty dc) (\<lambda>pages dc.
       (let interior = known_interior (fe_codec F) ps dc (page_count m) dirty pages in
        bind_result (build_bundles F (interior_chunk_key, aad_interior_bundle) ps v interior (dom interior \<inter> dirty) (interior_chunk_keys m)) (\<lambda>ib.
        bind_result (dirty_leaves (fe_codec F) (fe_iter F dirty) (zeros ps) Map.empty dc) (\<lambda>leaves.
        let index = known_leaves F ps dc (page_count m) dirty leaves in
        bind_result (build_bundles F (index_chunk_key, aad_index_bundle) ps v index (dom index \<inter> dirty) (index_chunk_keys m)) (\<lambda>xb.
          Inr (ib, xb)))), dc))"

subsection \<open>Publication\<close>

definition durable_header :: "codec \<Rightarrow> nat \<Rightarrow> disk_cache \<Rightarrow> manifest \<Rightarrow> bytes option" where
  "durable_header C ps dc m =
     (if 0 < ps then (case read_page C 0 (zeros ps) dc of Inr page0 \<Rightarrow> Some page0 | Inl _ \<Rightarrow> db_header m) else None)"

definition durable_manifest ::
  "handle_env \<Rightarrow> manifest \<Rightarrow> nat \<Rightarrow> nat \<Rightarrow> nat \<Rightarrow> bytes option \<Rightarrow> flush_acc \<Rightarrow> bundle_acc \<times> bundle_acc \<Rightarrow> manifest" where
  "durable_manifest E m v cc pending header acc bs =
     build_page_index (fe_tree_iter (he_flush E)) (m\<lparr>version := v, change_counter := cc, page_count := max (page_count m) pending,
       pages_per_group := he_ppg E, page_group_keys := fa_keys acc, interior_chunk_keys := ba_keys (fst bs),
       index_chunk_keys := ba_keys (snd bs), frame_tables := fa_frame_tables acc, subframe_overrides := fa_overrides acc,
       db_header := header\<rparr>)"

definition commit_durable :: "manifest \<Rightarrow> nat set \<Rightarrow> handle \<Rightarrow> handle" where
  "commit_durable m dirty h =
     (let h = with_manifest m (with_cache (set_group_pages (group_pages m)) (h\<lparr>hn_pending_count := page_count m, hn_dirty := hn_dirty h - dirty,
                hn_dirty_since_sync := False\<rparr>))
      in case bump_generation (hn_cache h) of (g, dc) \<Rightarrow> with_cache (\<lambda>_. dc) (h\<lparr>hn_generation := g\<rparr>))"

definition truncate_cache :: "handle_env \<Rightarrow> handle \<Rightarrow> handle" where
  "truncate_cache E h =
     (let pc = page_count (hn_manifest h); ps = hn_page_size h in
      if 0 < pc \<and> 0 < ps then
        case truncate_to_page_count (fe_iter (he_flush E)) (fe_chunk_iter (he_flush E)) pc ps (hn_cache h) of
          (Inl e, dc) \<Rightarrow> with_cache (\<lambda>_. dc) h
        | (Inr _, dc) \<Rightarrow> with_cache (\<lambda>_. snd (bump_generation dc)) h
      else h)"

definition collect_garbage :: "handle_env \<Rightarrow> string list \<Rightarrow> handle \<Rightarrow> handle" where
  "collect_garbage E replaced h =
     (if fe_gc (he_flush E) \<and> replaced \<noteq> []
      then h\<lparr>hn_shared := (hn_shared h)\<lparr>fs_backend := snd (delete_objects replaced (fs_backend (hn_shared h)))\<rparr>\<rparr>
      else h)"

definition evict_data_tier :: "(sub_chunk_id set \<Rightarrow> sub_chunk_id list) \<Rightarrow> disk_cache \<Rightarrow> disk_cache" where
  "evict_data_tier citer dc =
     (let t = dc_tracker dc; to_evict = filter (\<lambda>i. tier_or_data (tiers t) i = Data) (citer (present t));
          scbs = sub_chunk_byte_size t; count = length to_evict;
          dc = dc\<lparr>dc_tracker := fold remove_chunk to_evict t\<rparr>;
          dc = fold (\<lambda>i dc. clear_pages_from_disk (sub_chunk_page_nums i dc) dc) to_evict dc
      in dc\<lparr>dc_stat_evictions := (dc_stat_evictions dc + count) mod U64_SIZE,
            dc_stat_bytes_evicted := (dc_stat_bytes_evicted dc + count * scbs) mod U64_SIZE\<rparr>)"

definition persist_durable :: "handle_env \<Rightarrow> sync_answers \<Rightarrow> handle \<Rightarrow> unit io_result \<times> handle" where
  "persist_durable E a h =
     (let s = hn_shared h; sd = fe_serde (he_flush E) in
      case persist_manifest_local sd (sa_fault a 1) (fs_manifest s) (fs_local s) of
        (Inl e, fl) \<Rightarrow> (Inl (Io Other ''local manifest persist failed after remote sync''), h\<lparr>hn_shared := s\<lparr>fs_local := fl\<rparr>\<rparr>)
      | (Inr _, fl) \<Rightarrow> (case persist_dirty_groups sd (sa_fault a 2) [] fl of (r, fl) \<Rightarrow> (r, h\<lparr>hn_shared := s\<lparr>fs_local := fl\<rparr>\<rparr>)))"

definition finish_durable :: "handle_env \<Rightarrow> sync_answers \<Rightarrow> string list \<Rightarrow> handle \<Rightarrow> unit io_result \<times> handle" where
  "finish_durable E a replaced h =
     (let F = he_flush E; s = hn_shared h;
          fl = snd (persist_bitmap (fe_chunk_iter F) (fe_serde F) (sa_fault a 0) (fs_cache s) (fs_local s));
          h = collect_garbage E replaced (truncate_cache E (h\<lparr>hn_shared := s\<lparr>fs_local := fl\<rparr>\<rparr>))
      in persist_durable E a (if he_evict_on_checkpoint E then with_cache (evict_data_tier (fe_chunk_iter F)) h else h))"

definition on_backend :: "'a store_op \<Rightarrow> handle \<Rightarrow> 'a io_result \<times> handle" where
  "on_backend f h = (case f (fs_backend (hn_shared h)) of (r, b) \<Rightarrow> (r, h\<lparr>hn_shared := (hn_shared h)\<lparr>fs_backend := b\<rparr>\<rparr>))"

definition encode_dirty_groups :: "handle_env \<Rightarrow> nat \<Rightarrow> nat list \<Rightarrow> handle \<Rightarrow> flush_acc io_result \<times> handle" where
  "encode_dirty_groups E v gids h =
     (let m = hn_manifest h; s = hn_shared h; old = (case hn_vacuum_keys h of Some ks \<Rightarrow> ks | None \<Rightarrow> []) in
      case encode_groups (he_flush E) (hn_page_size h) (fs_cache s) m v gids (fs_backend s) of (rs, b) \<Rightarrow>
        (merge_results m v rs ((initial_acc m)\<lparr>fa_replaced := old\<rparr>), h\<lparr>hn_vacuum_keys := None, hn_shared := s\<lparr>fs_backend := b\<rparr>\<rparr>))"

definition publish_durable ::
  "handle_env \<Rightarrow> sync_answers \<Rightarrow> nat \<Rightarrow> nat \<Rightarrow> nat list \<Rightarrow> flush_acc \<Rightarrow> bundle_acc \<times> bundle_acc \<Rightarrow> handle \<Rightarrow> unit io_result \<times> handle" where
  "publish_durable E a v cc gids acc bs h =
     and_then (on_backend (put_page_groups (fa_uploads acc @ ba_uploads (fst bs) @ ba_uploads (snd bs))) h) (\<lambda>_ h.
       let header = durable_header (he_codec E) (hn_page_size h) (hn_cache h) (hn_manifest h);
           acc = fold (drain_group (he_flush E)) gids (acc\<lparr>fa_replaced := fa_replaced acc @ ba_replaced (fst bs) @ ba_replaced (snd bs)\<rparr>);
           m = durable_manifest E (hn_manifest h) v cc (hn_pending_count h) header acc bs
       in and_then (on_backend (put_manifest (fe_tree_iter (he_flush E)) (fe_manifest_serde (he_flush E)) m) h) (\<lambda>_ h.
            finish_durable E a (fa_replaced acc) (commit_durable m (hn_dirty h) h)))"

definition upload_durable :: "handle_env \<Rightarrow> sync_answers \<Rightarrow> nat list \<Rightarrow> handle \<Rightarrow> unit io_result \<times> handle" where
  "upload_durable E a gids h =
     (let m = hn_manifest h; v = (version m + 1) mod U64_SIZE in
      case resolve_manifest_replay_cursor (read_page (he_codec E) 0 (zeros (page_size m)) (hn_cache h)) m of
        Inl e \<Rightarrow> (Inl e, h)
      | Inr cc \<Rightarrow>
          and_then (encode_dirty_groups E v gids h) (\<lambda>acc h.
          and_then (on_cache (durable_bundles (he_flush E) (sa_now a) (hn_page_size h) (hn_dirty h) m v) h) (\<lambda>bs h.
            publish_durable E a v cc gids acc bs h)))"

definition durable_sync :: "(bytes \<Rightarrow> string) \<Rightarrow> handle_env \<Rightarrow> sync_answers \<Rightarrow> handle \<Rightarrow> unit io_result \<times> handle" where
  "durable_sync lossy E a h =
     and_then (detect_vacuum lossy E h) (\<lambda>_ h.
     and_then (assign_dirty E h) (\<lambda>_ h.
     and_then (take_dirty_groups h) (\<lambda>gids h.
       upload_durable E a (fe_iter (he_flush E) gids) h)))"

end
