(* ===== verification/Durable_Published.thy ===== *)
theory Durable_Published
  imports Handle_Durable
begin

text \<open>
  What a durable synchronisation that succeeds publishes. The proof reuses the flush:
  with nothing staged, every dirty group is rewritten from the cache over its stored base object, and no other group changes.
\<close>

subsection \<open>The pages of a dirty group\<close>

lemma durable_base_objects [same_objects]: "durable_base C key ps m gid b = (r, b') \<Longrightarrow> bk_objects b' = bk_objects b"
  by (auto simp: durable_base_def Let_def and_then_def split: option.splits if_splits sum.splits prod.splits dest!: get_page_group_objects)

lemma durable_base_ok:
  assumes run: "durable_base C key (page_size m) m gid b = (Inr base, b')"
  shows "base pos = base_page C key m (bk_objects b) gid pos"
proof -
  obtain k where k: "get (page_group_keys m) gid = Some k" "k \<noteq> []"
    using run by (auto simp: durable_base_def Let_def split: option.splits if_splits)
  obtain data b1 where g: "get_page_group k b = (Inr (Some data), b1)"
    using run k by (auto simp: durable_base_def Let_def and_then_ok split: option.splits)
  have data: "bk_objects b k = Some data" using get_page_group_ok(1) [OF g] by simp
  have bp: "base_page C key m (bk_objects b) gid pos =
     (if has_frame_table m gid then
        (case decode_page_group_seekable_full C data (frame_tables m ! gid) (page_size m) (length (group_page_nums m gid) mod U32_SIZE) (page_count m) 0
            (aad_page_group gid) key of
           Inr (_, _, bulk) \<Rightarrow> if (pos + 1) * page_size m \<le> length bulk then Some (bslice (pos * page_size m) (page_size m) bulk) else None
         | Inl _ \<Rightarrow> None)
      else (case decode_page_group C data (aad_page_group gid) key of Inr (_, _, pages) \<Rightarrow> get pages pos | Inl _ \<Rightarrow> None))"
    unfolding base_page_def k(1) option.case data Let_def seekable_bulk_def plain_pages_def by (auto split: sum.splits)
  show ?thesis unfolding bp using run k(2) g unfolding durable_base_def k(1) option.case Let_def
    by (auto simp: and_then_ok split: sum.splits prod.splits if_splits)
qed

lemma durable_pages_ok:
  assumes run: "durable_pages C key (page_size m) dc m gid b = (Inr pages, b')"
    and ps: "dc_page_size dc = page_size m" and bound: "\<And>p. p \<in> set (group_page_nums m gid) \<Longrightarrow> p < page_count m"
  shows "pages = map (page_source C key Map.empty dc m (bk_objects b) gid) [0..<length (group_page_nums m gid)]" "None \<notin> set pages"
proof -
  let ?ns = "group_page_nums m gid" and ?n = "length (group_page_nums m gid)"
  let ?read = "\<lambda>pnum. read_page_if_present C pnum (zeros (page_size m)) dc"
  have all: "takeWhile (\<lambda>p. p < page_count m) ?ns = ?ns" using bound by (simp add: takeWhile_eq_all_conv)
  from run obtain own base where own: "collect_results (map ?read ?ns) = Inr own"
    and fetch: "(if None \<in> set own then durable_base C key (page_size m) m gid b else (Inr Map.empty, b)) = (Inr base, b')"
    and pages: "pages = map (\<lambda>(j, page). if page = None then base j else page) (List.enumerate 0 own)" "None \<notin> set pages"
    unfolding durable_pages_def Let_def all by (auto simp: and_then_ok split: sum.splits if_splits)
  have "map ?read ?ns = map Inr own" using own by (simp add: collect_results_ok)
  then have len: "length own = ?n" and at: "\<And>i. i < ?n \<Longrightarrow> ?read (?ns ! i) = Inr (own ! i)"
    by (metis length_map, metis (no_types, lifting) length_map nth_map)
  have view: "own ! i = local_view C Map.empty dc (?ns ! i)" if "i < ?n" for i
    using staged_or_cached_view [of C Map.empty dc "?ns ! i" "own ! i"] at [OF that] ps by (simp add: staged_or_cached_def)
  have "pages ! i = page_source C key Map.empty dc m (bk_objects b) gid i" if i: "i < ?n" for i
  proof (cases "own ! i")
    case (Some d)
    then show ?thesis using pages(1) view [OF i] i len by (simp add: page_source_def nth_enumerate_eq)
  next
    case None
    then have "None \<in> set own" using i len by (metis nth_mem)
    then have f: "durable_base C key (page_size m) m gid b = (Inr base, b')" using fetch by simp
    show ?thesis using pages(1) None i len durable_base_ok [OF f, of i] view [OF i] by (simp add: page_source_def nth_enumerate_eq)
  qed
  moreover have "length pages = ?n" using pages(1) len by simp
  ultimately show "pages = map (page_source C key Map.empty dc m (bk_objects b) gid) [0..<?n]" by (intro nth_equalityI) simp_all
  show "None \<notin> set pages" by (rule pages(2))
qed

lemma durable_pages_objects [same_objects]: "durable_pages C key ps dc m gid b = (r, b') \<Longrightarrow> bk_objects b' = bk_objects b"
  by (auto simp: durable_pages_def Let_def and_then_def split: if_splits sum.splits prod.splits dest!: durable_base_objects)

lemma encode_group_objects [same_objects]: "encode_group F ps dc m v gid b = (r, b') \<Longrightarrow> bk_objects b' = bk_objects b"
  by (auto simp: encode_group_def Let_def and_then_def split: if_splits sum.splits prod.splits dest!: durable_pages_objects)

text \<open>With nothing staged no group takes override frames.\<close>

lemma unstaged_rewrites [simp]: "\<not> use_override m Map.empty threshold gid"
  by (simp add: use_override_def dirty_frames_def Let_def dirty_frames_for_group_def)

lemma encode_group_ok:
  assumes run: "encode_group F (page_size m) dc m v gid b = (Inr r, b')"
    and ps: "dc_page_size dc = page_size m" and bound: "\<And>p. p \<in> set (group_page_nums m gid) \<Longrightarrow> p < page_count m"
  shows "group_flushed F Map.empty dc m v (bk_objects b) gid r" "is_rewritten r"
proof -
  let ?nonces = "fe_nonces F (page_group_key gid v)" and ?spf = "sub_pages_per_frame m"
  obtain pages where dp: "durable_pages (fe_codec F) (fe_key F) (page_size m) dc m gid b = (Inr pages, b')"
    and rest: "(if 0 < ?spf then map_sum id (\<lambda>(encoded, ft). Rewritten encoded ft)
          (encode_page_group_seekable (fe_codec F) ?nonces pages (page_size m) ?spf (aad_page_group gid) (fe_key F))
        else map_sum id (\<lambda>encoded. Rewritten encoded []) (encode_page_group (fe_codec F) (?nonces 0) pages (page_size m) (aad_page_group gid) (fe_key F))) = Inr r"
    using run by (auto simp: encode_group_def Let_def and_then_ok split: if_splits)
  obtain enc ft where enc: "encoded_group (fe_codec F) ?nonces (fe_key F) (page_size m) ?spf gid pages enc ft" and r: "r = Rewritten enc ft"
    using rest by (auto simp: map_sum_ok encoded_group_def split: if_splits)
  show "group_flushed F Map.empty dc m v (bk_objects b) gid r" using durable_pages_ok [OF dp ps bound] enc by (auto simp: group_flushed_def Let_def r)
  show "is_rewritten r" by (simp add: r)
qed

lemma encode_groups_outs:
  assumes "encode_groups F (page_size m) dc m v gids b = (rs, b')" "merge_results m v rs acc = Inr acc'"
    and cache: "dc_page_size dc = page_size m" and bound: "\<And>gid p. p \<in> set (group_page_nums m gid) \<Longrightarrow> p < page_count m"
  shows "\<exists>outs. map fst outs = gids \<and> acc' = after_groups m v outs acc
    \<and> (\<forall>(gid, r) \<in> set outs. group_flushed F Map.empty dc m v (bk_objects b) gid r \<and> is_rewritten r) \<and> bk_objects b' = bk_objects b"
  using assms(1,2)
proof (induction gids arbitrary: rs acc b)
  case Nil
  then show ?case by (intro exI [of _ "[]"]) (simp add: after_groups_def)
next
  case (Cons gid gids)
  obtain r b1 rs1 where g: "encode_group F (page_size m) dc m v gid b = (r, b1)" "encode_groups F (page_size m) dc m v gids b1 = (rs1, b')" "rs = (gid, r) # rs1"
    using Cons.prems(1) by (auto split: prod.splits)
  obtain x where x: "r = Inr x" "merge_results m v rs1 (apply_group m v gid x acc) = Inr acc'" using Cons.prems(2) by (auto simp: g(3) bind_result_Inr_iff)
  note ok = encode_group_ok [OF g(1) [unfolded x(1)] cache bound]
  obtain outs where "map fst outs = gids" "acc' = after_groups m v outs (apply_group m v gid x acc)" "bk_objects b' = bk_objects b1"
      "\<forall>(gid, r) \<in> set outs. group_flushed F Map.empty dc m v (bk_objects b) gid r \<and> is_rewritten r"
    using Cons.IH [OF g(2) x(2)] encode_group_objects [OF g(1)] by auto
  then show ?case using ok encode_group_objects [OF g(1)] by (intro exI [of _ "(gid, x) # outs"]) (simp add: after_groups_def)
qed

subsection \<open>Bundles and the new manifest\<close>

lemma durable_bundles_parts:
  assumes "durable_bundles F now ps dirty m v dc = (Inr bs, dc')" "hash_iteration (fe_iter F)" "bundle_keys_wf m"
  shows "set (ba_replaced (fst bs)) \<union> set (ba_replaced (snd bs)) \<subseteq> ran (interior_chunk_keys m) \<union> ran (index_chunk_keys m)"
    "\<forall>k \<in> fst ` (set (ba_uploads (fst bs)) \<union> set (ba_uploads (snd bs))). \<exists>s. bundle_slot s \<and> k = key_of s v"
proof -
  have fin: "finite (dom (interior_chunk_keys m))" "finite (dom (index_chunk_keys m))" using assms(3) by (simp_all add: bundle_keys_wf_def)
  obtain interior d1 index d2 where "build_bundles F (interior_chunk_key, aad_interior_bundle) ps v interior d1 (interior_chunk_keys m) = Inr (fst bs)"
      "build_bundles F (index_chunk_key, aad_index_bundle) ps v index d2 (index_chunk_keys m) = Inr (snd bs)"
    using assms(1) by (auto simp: durable_bundles_def Let_def bind_result_Inr_iff and_then_ok)
  note parts = build_bundles_parts [OF this(1) assms(2) fin(1)] build_bundles_parts [OF this(2) assms(2) fin(2)]
  show "set (ba_replaced (fst bs)) \<union> set (ba_replaced (snd bs)) \<subseteq> ran (interior_chunk_keys m) \<union> ran (index_chunk_keys m)"
    using parts(1,3) by blast
  have "bundle_slot (InteriorSlot c)" "bundle_slot (IndexSlot c)" "interior_chunk_key c v = key_of (InteriorSlot c) v" "index_chunk_key c v = key_of (IndexSlot c) v" for c
    by (simp_all add: bundle_slot_def)
  then show "\<forall>k \<in> fst ` (set (ba_uploads (fst bs)) \<union> set (ba_uploads (snd bs))). \<exists>s. bundle_slot s \<and> k = key_of s v"
    using parts(2,4) by (metis (no_types, lifting) Un_iff image_Un rangeE subsetD fst_conv)
qed

lemma drained_overrides:
  "get_or Map.empty (fa_overrides (fold (drain_group E) gs acc)) g = (if g \<in> set gs then Map.empty else get_or Map.empty (fa_overrides acc) g)"
proof (induction gs arbitrary: acc)
  case (Cons x gs)
  have "get_or Map.empty (fa_overrides (drain_group E x acc)) g = (if g = x then Map.empty else get_or Map.empty (fa_overrides acc) g)"
    by (auto simp: drain_group_def get_or_in(1)) (simp add: get_or_def get_def)
  then show ?case using Cons.IH [of "drain_group E x acc"] by (cases "g = x") simp_all
qed simp

lemma groups_replaced:
  assumes "proper outs"
  shows "set (fa_replaced (after_groups m v outs (initial_acc m)))
    \<subseteq> {k. k \<noteq> [] \<and> (\<exists>g \<in> rewritten_in outs. k = key_at m g)} \<union> {k. \<exists>g. \<exists>f \<in> frames_in outs g. override_key m g f = Some k}"
proof -
  have "get_or [] (fa_keys (initial_acc m)) g = key_at m g" "acc_override (initial_acc m) g f = override_key m g f" "fa_replaced (initial_acc m) = []" for g f
    by (simp_all add: initial_acc_def key_at_def acc_override_def override_key_def)
  then show ?thesis using after_groups_parts [OF assms, of m v "initial_acc m" 0 0] by simp
qed

text \<open>The published manifest is determined by what it has for each group.\<close>

lemma publishes_cong:
  assumes "publishes m v outs m1" "same_layout m1 m2" "version m2 = v" "\<And>g. key_at m2 g = key_at m1 g" "\<And>g. table_at m2 g = table_at m1 g"
    "\<And>g. get_or Map.empty (subframe_overrides m2) g = get_or Map.empty (subframe_overrides m1) g"
  shows "publishes m v outs m2"
proof -
  have "override_key m2 g f = override_key m1 g f" for g f using assms(6) by (simp add: override_key_def)
  then show ?thesis using assms same_layout_trans [of m m1 m2] by (simp add: publishes_def)
qed

lemma durable_manifest_parts:
  fixes v :: nat and rs :: "string list"
  assumes iter: "hash_iteration (fe_iter (he_flush E))" and proper: "proper outs" and all: "\<forall>(gid, r) \<in> set outs. is_rewritten r"
    and fin: "\<And>g. finite (dom (get_or Map.empty (subframe_overrides m) g))" and norm: "strategy m = Positional \<longrightarrow> group_pages m = []"
    and shape: "pending \<le> page_count m" "he_ppg E = pages_per_group m"
  defines "acc \<equiv> fold (drain_group (he_flush E)) (map fst outs)
      ((after_groups m v outs (initial_acc m))\<lparr>fa_replaced := fa_replaced (after_groups m v outs (initial_acc m)) @ rs\<rparr>)"
  shows "publishes m v outs (durable_manifest E m v cc pending header acc bs)" "set (fa_replaced acc) \<subseteq> gone m outs \<union> set rs"
proof -
  let ?F = "he_flush E" and ?a = "after_groups m v outs (initial_acc m)" and ?m' = "durable_manifest E m v cc pending header acc bs"
  let ?b = "?a\<lparr>fa_replaced := fa_replaced ?a @ rs\<rparr>"
  let ?m1 = "flushed_manifest ?F m v cc (drain_overrides ?F ?b) bs"
  note p = after_groups_parts [OF proper, of m v "initial_acc m"]
  have init: "fa_rewritten (initial_acc m) = {}" "finite (dom (get_or Map.empty (fa_overrides (initial_acc m)) g))"
    "acc_override (initial_acc m) g f = override_key m g f" for g f
    using fin by (simp_all add: initial_acc_def acc_override_def override_key_def)
  have rwin: "rewritten_in outs = set (map fst outs)" using all by (force simp: rewritten_in_def)
  have rw: "fa_rewritten ?b = set (map fst outs)" using p [of 0 0] init(1) rwin by simp
  have fo: "finite_overrides ?b" using p init(2) by (simp add: finite_overrides_def)
  note d = drain_groups_parts [OF iter fo, of "map fst outs", folded acc_def]
  have flushed: "publishes m v outs ?m1" by (rule flushed_manifest_parts(1) [OF iter proper fin norm])
  have "set (fe_iter ?F (fa_rewritten ?b)) = set (map fst outs)" using iter unfolding rw by (simp add: hash_iteration.set_iter)
  then have ovs: "get_or Map.empty (fa_overrides (drain_overrides ?F ?b)) g = get_or Map.empty (fa_overrides acc) g" for g
    by (simp add: drain_overrides_def acc_def drained_overrides)
  have "fa_keys (drain_overrides ?F ?b) = fa_keys acc" "fa_frame_tables (drain_overrides ?F ?b) = fa_frame_tables acc"
    using drain_overrides_parts(1,2) [OF iter fo] rw d by simp_all
  note parts = this ovs
  have f1: "page_group_keys ?m1 = fa_keys acc" "frame_tables ?m1 = fa_frame_tables acc" "subframe_overrides ?m1 = fa_overrides (drain_overrides ?F ?b)"
    "page_size ?m1 = page_size m" "page_count ?m1 = page_count m" "sub_pages_per_frame ?m1 = sub_pages_per_frame m"
    "group_pages ?m1 = group_pages m" "pages_per_group ?m1 = pages_per_group m"
    by (simp_all add: flushed_manifest_def parts(1,2))
  have f2: "page_group_keys ?m' = fa_keys acc" "frame_tables ?m' = fa_frame_tables acc" "subframe_overrides ?m' = fa_overrides acc"
    "page_size ?m' = page_size m" "page_count ?m' = page_count m" "sub_pages_per_frame ?m' = sub_pages_per_frame m" "version ?m' = v"
    "group_pages ?m' = group_pages m" "pages_per_group ?m' = pages_per_group m"
    using shape by (simp_all add: durable_manifest_def)
  have st: "strategy ?m1 = strategy m" "strategy ?m' = strategy m"
    using norm by (cases "strategy m"; simp add: flushed_manifest_def durable_manifest_def)+
  have "group_page_nums ?m' g = group_page_nums ?m1 g" for g unfolding group_page_nums_def f1 f2 st by simp
  then have lay: "same_layout ?m1 ?m'" by (simp add: same_layout_def f1 f2)
  show "publishes m v outs ?m'"
    by (rule publishes_cong [OF flushed lay f2(7)]) (simp_all add: key_at_def table_at_def f1 f2 parts(3))
  show "set (fa_replaced acc) \<subseteq> gone m outs \<union> set rs"
  proof
    fix k assume "k \<in> set (fa_replaced acc)"
    then have "k \<in> set (fa_replaced ?b) \<or> (\<exists>g \<in> set (map fst outs). \<exists>f. acc_override ?b g f = Some k)" using d by blast
    moreover have "set (fa_replaced ?a) \<subseteq> gone m outs" using groups_replaced [OF proper, of m v] unfolding gone_def by blast
    moreover have "k \<in> gone m outs" if "g \<in> set (map fst outs)" "acc_override ?b g f = Some k" for g f
    proof -
      have "frames_in outs g = {}" using rewritten_no_frames [OF proper] that(1) rwin by simp
      then have "acc_override ?b g f = override_key m g f"
        using p [of g f] init(3) [of g f] by (simp add: acc_override_def)
      then have "override_key m g f = Some k" using that(2) by simp
      moreover have "g \<in> rewritten_in outs" using that(1) unfolding rwin .
      ultimately show ?thesis unfolding gone_def by blast
    qed
    ultimately show "k \<in> gone m outs \<union> set rs" by auto
  qed
qed

subsection \<open>A whole synchronisation\<close>

lemma finish_durable_ok:
  assumes "finish_durable E a replaced h = (r, h')"
  shows "hn_manifest h' = hn_manifest h" "hn_dirty h' = hn_dirty h" "fs_dirty (hn_shared h') = fs_dirty (hn_shared h)"
    "fs_backend (hn_shared h') = (if fe_gc (he_flush E) then snd (delete_objects replaced (fs_backend (hn_shared h))) else fs_backend (hn_shared h))"
proof -
  have t: "hn_manifest (truncate_cache E h) = hn_manifest h" "hn_dirty (truncate_cache E h) = hn_dirty h"
    "fs_dirty (hn_shared (truncate_cache E h)) = fs_dirty (hn_shared h)" "fs_backend (hn_shared (truncate_cache E h)) = fs_backend (hn_shared h)" for h
    by (auto simp: truncate_cache_def Let_def split: prod.splits sum.splits)
  have p: "hn_manifest h2 = hn_manifest h1 \<and> hn_dirty h2 = hn_dirty h1 \<and> fs_dirty (hn_shared h2) = fs_dirty (hn_shared h1)
      \<and> fs_backend (hn_shared h2) = fs_backend (hn_shared h1)" if "persist_durable E a h1 = (r, h2)" for h1 h2
    using that by (auto simp: persist_durable_def Let_def split: prod.splits sum.splits)
  have d: "snd (delete_objects [] b) = b" for b by (simp add: delete_objects_def)
  obtain h1 where "persist_durable E a h1 = (r, h')" "hn_manifest h1 = hn_manifest h" "hn_dirty h1 = hn_dirty h" "fs_dirty (hn_shared h1) = fs_dirty (hn_shared h)"
    "fs_backend (hn_shared h1) = (if fe_gc (he_flush E) then snd (delete_objects replaced (fs_backend (hn_shared h))) else fs_backend (hn_shared h))"
    using assms by (auto simp: finish_durable_def Let_def collect_garbage_def t d split: if_splits)
  with p [OF this(1)] show "hn_manifest h' = hn_manifest h" "hn_dirty h' = hn_dirty h" "fs_dirty (hn_shared h') = fs_dirty (hn_shared h)"
    "fs_backend (hn_shared h') = (if fe_gc (he_flush E) then snd (delete_objects replaced (fs_backend (hn_shared h))) else fs_backend (hn_shared h))"
    by simp_all
qed

lemma commit_durable_fields:
  "hn_manifest (commit_durable m dirty h) = m" "hn_dirty (commit_durable m dirty h) = hn_dirty h - dirty"
  "fs_dirty (hn_shared (commit_durable m dirty h)) = fs_dirty (hn_shared h)" "fs_backend (hn_shared (commit_durable m dirty h)) = fs_backend (hn_shared h)"
  by (simp_all add: commit_durable_def Let_def bump_generation_def)

lemma publish_durable_ok:
  assumes run: "publish_durable E a v cc gids acc bs h = (Inr (), h')"
  defines "acc' \<equiv> fold (drain_group (he_flush E)) gids (acc\<lparr>fa_replaced := fa_replaced acc @ ba_replaced (fst bs) @ ba_replaced (snd bs)\<rparr>)"
  shows "\<exists>header b2 b3. put_page_groups (fa_uploads acc @ ba_uploads (fst bs) @ ba_uploads (snd bs)) (fs_backend (hn_shared h)) = (Inr (), b2)
    \<and> hn_manifest h' = durable_manifest E (hn_manifest h) v cc (hn_pending_count h) header acc' bs
    \<and> put_manifest (fe_tree_iter (he_flush E)) (fe_manifest_serde (he_flush E)) (hn_manifest h') b2 = (Inr (), b3)
    \<and> fs_backend (hn_shared h') = (if fe_gc (he_flush E) then snd (delete_objects (fa_replaced acc') b3) else b3)
    \<and> hn_dirty h' = {} \<and> fs_dirty (hn_shared h') = fs_dirty (hn_shared h)"
proof -
  obtain b2 where b2: "put_page_groups (fa_uploads acc @ ba_uploads (fst bs) @ ba_uploads (snd bs)) (fs_backend (hn_shared h)) = (Inr (), b2)"
    using run by (auto simp: publish_durable_def and_then_ok on_backend_def split: prod.splits)
  let ?h = "h\<lparr>hn_shared := (hn_shared h)\<lparr>fs_backend := b2\<rparr>\<rparr>"
  define m where "m = durable_manifest E (hn_manifest h) v cc (hn_pending_count h) (durable_header (he_codec E) (hn_page_size h) (hn_cache h) (hn_manifest h)) acc' bs"
  have "and_then (on_backend (put_manifest (fe_tree_iter (he_flush E)) (fe_manifest_serde (he_flush E)) m) ?h) (\<lambda>_ h.
      finish_durable E a (fa_replaced acc') (commit_durable m (hn_dirty h) h)) = (Inr (), h')"
    using run by (simp add: publish_durable_def on_backend_def b2 Let_def m_def acc'_def)
  then obtain b3 where b3: "put_manifest (fe_tree_iter (he_flush E)) (fe_manifest_serde (he_flush E)) m b2 = (Inr (), b3)"
    and fin: "finish_durable E a (fa_replaced acc') (commit_durable m (hn_dirty h) (?h\<lparr>hn_shared := (hn_shared ?h)\<lparr>fs_backend := b3\<rparr>\<rparr>)) = (Inr (), h')"
    by (auto simp: and_then_ok on_backend_def split: prod.splits)
  have "hn_manifest h' = m" using finish_durable_ok(1) [OF fin] by (simp add: commit_durable_fields)
  then show ?thesis using b2 b3 finish_durable_ok(2-4) [OF fin] unfolding m_def by (simp add: commit_durable_fields) blast
qed

text \<open>What a synchronisation starts from: dirty pages that have a location, no growth past the published size, no vacuum, and a sound manifest, store and cache.\<close>

definition no_vacuum :: "handle_env \<Rightarrow> handle \<Rightarrow> bool" where
  "no_vacuum E h \<longleftrightarrow> (0 \<in> hn_dirty h \<and> strategy (hn_manifest h) = BTreeAware \<longrightarrow>
     (\<forall>page0. read_page (he_codec E) 0 (zeros (hn_page_size h)) (hn_cache h) = Inr page0 \<longrightarrow>
        \<not> vacuum_detected (hn_cookie h) (be_val (bslice 24 4 page0)) (card (hn_dirty h)) (page_count (hn_manifest h))))"

definition to_upload :: "handle \<Rightarrow> nat set" where
  "to_upload h = groups_of (hn_manifest h) (hn_dirty h) \<union> fs_dirty (hn_shared h)"

definition durable_ready :: "handle_env \<Rightarrow> handle \<Rightarrow> bool" where
  "durable_ready E h \<longleftrightarrow> flush_ready (he_flush E) ((hn_shared h)\<lparr>fs_dirty := to_upload h\<rparr>) Map.empty
     \<and> finite (hn_dirty h) \<and> (\<forall>p \<in> hn_dirty h. page_location (hn_manifest h) p \<noteq> None)
     \<and> hn_page_size h = page_size (hn_manifest h) \<and> he_ppg E = pages_per_group (hn_manifest h)
     \<and> hn_pending_count h \<le> page_count (hn_manifest h) \<and> hn_vacuum_keys h = None \<and> no_vacuum E h"

lemma durable_sync_uploads:
  assumes ready: "durable_ready E h" and iter: "hash_iteration (fe_iter (he_flush E))"
  shows "\<exists>ck. durable_sync lossy E a h = upload_durable E a (fe_iter (he_flush E) (to_upload h))
     (h\<lparr>hn_cookie := ck, hn_shared := (hn_shared h)\<lparr>fs_dirty := {}\<rparr>\<rparr>)"
proof -
  obtain ck where ck: "detect_vacuum lossy E h = (Inr (), h\<lparr>hn_cookie := ck\<rparr>)"
  proof -
    have "h\<lparr>hn_cookie := hn_cookie h\<rparr> = h" by simp
    then have "\<exists>ck. detect_vacuum lossy E h = (Inr (), h\<lparr>hn_cookie := ck\<rparr>)"
      using ready by (cases "read_page (he_codec E) 0 (zeros (hn_page_size h)) (hn_cache h)")
        (auto simp: durable_ready_def no_vacuum_def detect_vacuum_def Let_def intro: exI [of _ "hn_cookie h"])
    then show ?thesis using that by blast
  qed
  have set: "set (fe_iter (he_flush E) (hn_dirty h)) = hn_dirty h" using iter ready by (simp add: hash_iteration.set_iter durable_ready_def)
  have loc: "\<forall>p \<in> hn_dirty h. page_location (hn_manifest h) p \<noteq> None" using ready by (simp add: durable_ready_def)
  then have "filter (\<lambda>p. page_location (hn_manifest h) p = None) (fe_iter (he_flush E) (hn_dirty h)) = []" using set by (simp add: filter_empty_conv)
  then have "assign_dirty E (h\<lparr>hn_cookie := ck\<rparr>) = (Inr (), h\<lparr>hn_cookie := ck\<rparr>)"
    by (simp add: assign_dirty_def assign_new_pages_to_groups_def with_manifest_def)
  moreover have "take_dirty_groups (h\<lparr>hn_cookie := ck\<rparr>) = (Inr (to_upload h), h\<lparr>hn_cookie := ck, hn_shared := (hn_shared h)\<lparr>fs_dirty := {}\<rparr>\<rparr>)"
    using loc by (auto simp: take_dirty_groups_def Let_def to_upload_def)
  ultimately show ?thesis by (intro exI [of _ ck]) (simp add: durable_sync_def ck)
qed

lemma dirty_ids_unstaged [simp]: "dirty_group_ids m Map.empty legacy = legacy"
  by (simp add: dirty_group_ids_def Option.these_def)

lemma unstaged_touches [simp]: "flush_touches F m Map.empty legacy gid pos \<longleftrightarrow> gid \<in> legacy"
  by (simp add: flush_touches_def Let_def)

lemma published_unstaged:
  "published_page F Map.empty dc m objs legacy gid pos =
     (if gid \<in> legacy
      then (case cache_view (fe_codec F) dc (group_page_nums m gid ! pos) of Some d \<Rightarrow> Some d | None \<Rightarrow> base_page (fe_codec F) (fe_key F) m objs gid pos)
      else remote_page (fe_codec F) (fe_key F) m objs gid pos)"
  by (simp add: published_page_def local_view_def)

lemma put_manifest_stored:
  "put_manifest iter sd m b = (Inr (), b') \<Longrightarrow> bk_objects b' MANIFEST_KEY = ms_to_vec sd m"
  by (auto simp: put_manifest_def put_object_def tick_def split: option.splits sum.splits prod.splits if_splits)

lemma upload_durable_publishes:
  assumes env: "flush_codec (he_flush E)" "hash_iteration (fe_iter (he_flush E))" and ready: "durable_ready E h"
  defines "m \<equiv> hn_manifest h" and "objs \<equiv> bk_objects (fs_backend (hn_shared h))" and "F \<equiv> he_flush E"
  assumes run: "upload_durable E a (fe_iter F (to_upload h)) (h\<lparr>hn_cookie := ck, hn_shared := (hn_shared h)\<lparr>fs_dirty := {}\<rparr>\<rparr>) = (Inr (), h')"
  shows "pos < length (group_page_nums m gid) \<Longrightarrow>
      remote_page (fe_codec F) (fe_key F) (hn_manifest h') (bk_objects (fs_backend (hn_shared h'))) gid pos
        = published_page F Map.empty (hn_cache h) m objs (to_upload h) gid pos"
    "bk_objects (fs_backend (hn_shared h')) MANIFEST_KEY = ms_to_vec (fe_manifest_serde F) (hn_manifest h')"
    "hn_dirty h' = {}" "fs_dirty (hn_shared h') = {}"
proof -
  let ?gids = "fe_iter F (to_upload h)" and ?s = "(hn_shared h)\<lparr>fs_dirty := to_upload h\<rparr>" and ?dc = "hn_cache h"
  have fr: "flush_ready F ?s Map.empty" and ps: "hn_page_size h = page_size m" and ppg: "he_ppg E = pages_per_group m"
    and pend: "hn_pending_count h \<le> page_count m" and vk: "hn_vacuum_keys h = None"
    using ready by (simp_all add: durable_ready_def m_def F_def)
  have wf: "store_wf (fe_codec F) (fe_key F) m objs" and v: "version m + 1 < U64_SIZE" and bk: "bundle_keys_wf m" and lay: "flush_layout m"
    and cache: "dc_page_size ?dc = page_size m" and fin: "finite (to_upload h)"
    using fr by (simp_all add: flush_ready_def Let_def m_def objs_def)
  have it: "hash_iteration (fe_iter F)" using env(2) by (simp add: F_def)
  have gids: "set ?gids = to_upload h" "distinct ?gids" using it fin by (simp_all add: hash_iteration.set_iter hash_iteration.distinct_iter)
  have empty: "objs [] = None" and kw: "keys_wf m" and finov: "\<And>g. finite (dom (get_or Map.empty (subframe_overrides m) g))"
    using wf by (auto simp: store_wf_def get_or_def split: option.split)
  let ?v = "version m + 1"
  have init: "(initial_acc m)\<lparr>fa_replaced := []\<rparr> = initial_acc m" by (simp add: initial_acc_def)
  from run obtain cc rs b1 acc bs dc1 where enc: "encode_groups F (page_size m) ?dc m ?v ?gids (fs_backend (hn_shared h)) = (rs, b1)"
    and acc: "merge_results m ?v rs (initial_acc m) = Inr acc"
    and bs: "durable_bundles F (sa_now a) (page_size m) (hn_dirty h) m ?v ?dc = (Inr bs, dc1)"
    and pub: "publish_durable E a ?v cc ?gids acc bs (with_cache (\<lambda>_. dc1) (h\<lparr>hn_cookie := ck, hn_vacuum_keys := None,
        hn_shared := (hn_shared h)\<lparr>fs_dirty := {}, fs_backend := b1\<rparr>\<rparr>)) = (Inr (), h')"
    using v ps vk by (auto simp: upload_durable_def Let_def and_then_ok encode_dirty_groups_def on_cache_def init
        m_def [symmetric] F_def [symmetric] split: sum.splits prod.splits)
  obtain outs where outs: "map fst outs = ?gids" "acc = after_groups m ?v outs (initial_acc m)" and same: "bk_objects b1 = objs"
      and gf: "\<forall>(gid, r) \<in> set outs. group_flushed F Map.empty ?dc m ?v objs gid r" and rw: "\<forall>(gid, r) \<in> set outs. is_rewritten r"
    using encode_groups_outs [OF enc acc cache layout_bound [OF lay]] unfolding objs_def by fast
  have proper: "proper outs" by (rule flushed_proper [OF lay gf]) (simp add: outs(1) gids(2))
  have norm: "strategy m = Positional \<longrightarrow> group_pages m = []" using lay by (simp add: flush_layout_def)
  define acc' where "acc' = fold (drain_group F) ?gids (acc\<lparr>fa_replaced := fa_replaced acc @ ba_replaced (fst bs) @ ba_replaced (snd bs)\<rparr>)"
  obtain header b2 b3 where up: "put_page_groups (fa_uploads acc @ ba_uploads (fst bs) @ ba_uploads (snd bs)) b1 = (Inr (), b2)"
    and m': "hn_manifest h' = durable_manifest E m ?v cc (hn_pending_count h) header acc' bs"
    and mf: "put_manifest (fe_tree_iter F) (fe_manifest_serde F) (hn_manifest h') b2 = (Inr (), b3)"
    and b': "fs_backend (hn_shared h') = (if fe_gc F then snd (delete_objects (fa_replaced acc') b3) else b3)"
    and clean: "hn_dirty h' = {}" "fs_dirty (hn_shared h') = {}"
    using publish_durable_ok [OF pub] by (auto simp: m_def [symmetric] F_def [symmetric] acc'_def with_cache_def)
  note parts = durable_manifest_parts [OF env(2) proper rw finov norm pend ppg, where v = ?v and rs = "ba_replaced (fst bs) @ ba_replaced (snd bs)",
      folded outs(2), unfolded outs(1), folded F_def, folded acc'_def]
  note bp = durable_bundles_parts [OF bs it bk]
  have kept: "keeps m ?v outs objs (bk_objects (fs_backend (hn_shared h')))"
    unfolding b' by (rule upload_keeps [OF kw bk empty proper bp outs(2) same up mf parts(2)])
  have publ: "publishes m ?v outs (hn_manifest h')" unfolding m' by (rule parts(1))
  have sf: "fs_manifest ?s = m" "bk_objects (fs_backend ?s) = objs" "fs_dirty ?s = to_upload h" "fs_cache ?s = ?dc" by (simp_all add: m_def objs_def)
  note store = published_store(1) [OF env(1) fr [unfolded F_def], unfolded sf dirty_ids_unstaged, folded F_def, OF publ kept proper gf]
  show "remote_page (fe_codec F) (fe_key F) (hn_manifest h') (bk_objects (fs_backend (hn_shared h'))) gid pos
        = published_page F Map.empty (hn_cache h) m objs (to_upload h) gid pos" if "pos < length (group_page_nums m gid)"
    using store [OF _ that] gids(1) outs(1) by metis
  have "MANIFEST_KEY \<notin> set (fa_replaced acc')"
  proof
    assume "MANIFEST_KEY \<in> set (fa_replaced acc')"
    then have "MANIFEST_KEY \<in> gone m outs \<or> MANIFEST_KEY \<in> ran (interior_chunk_keys m) \<union> ran (index_chunk_keys m)" using parts(2) bp(1) by auto
    then have "\<exists>s v0. MANIFEST_KEY = key_of s v0" using gone_slot [OF kw] bk unfolding bundle_keys_wf_def by metis
    then show False using key_of_nonempty(2) by metis
  qed
  then show "bk_objects (fs_backend (hn_shared h')) MANIFEST_KEY = ms_to_vec (fe_manifest_serde F) (hn_manifest h')"
    using put_manifest_stored [OF mf] delete_objects_objects [of "fa_replaced acc'" b3] unfolding b' by auto
  show "hn_dirty h' = {}" "fs_dirty (hn_shared h') = {}" by (rule clean)+
qed

subsection \<open>The theorem\<close>

lemma idle_upload: "nothing_to_sync h \<Longrightarrow> to_upload h = {}"
  by (simp add: nothing_to_sync_def to_upload_def groups_of_def Option.these_def)

text \<open>
  C4: What a durable sync publishes, page by page. The handle may have any dirty pages and any groups left over
  from local checkpoints; nothing is assumed of how cache and store agree. Three situations are left
  out, in the first two of which the code publishes something else: the file has grown
  (\<open>hn_pending_count\<close> above the published page count: the pages of a dirty group past the old end are published as zeros,
  \<open>src/src/tiered/handle.rs:3471\<close>), the sync follows a vacuum (\<open>src/src/tiered/handle.rs:3442\<close>), a dirty page has no location.
  When the sync returns successfully, every position of a group with a dirty page or a left-over mark reads from the new manifest and
  objects as the page of the handle's cache, or, where the cache holds none, as the page of the base object;
  every position of another group reads as before. This is what the connection saw (cached over stored) except at two kinds of positions,
  which the statement names: \<open>override_dropped\<close>, an uncached page of a dirty group that lives in an override frame, goes back to
  its base (\<open>src/src/tiered/handle.rs:3497\<close>), and \<open>cached_left_behind\<close>, a cached page of a group that is not dirty and
  differs from the store, stays unpublished. Nothing is left dirty; and, unless there was nothing to do, the
  manifest in the backend is the one the process now uses.
\<close>

theorem durable_sync_publishes:
  assumes "flush_codec (he_flush E)" "hash_iteration (fe_iter (he_flush E))" "durable_ready E h" "\<not> he_read_only E" "\<not> he_local_only E"
    and "handle_sync (durable_sync lossy E) E a h = (Inr (), h')"
    and "group_in_range (hn_manifest h) gid" "pos < length (group_page_nums (hn_manifest h) gid)"
    and "(if gid \<in> groups_of (hn_manifest h) (hn_dirty h) \<union> fs_dirty (hn_shared h)
          then (case cache_view (he_codec E) (hn_cache h) (group_page_nums (hn_manifest h) gid ! pos) of
                  Some d \<Rightarrow> Some d
                | None \<Rightarrow> base_page (he_codec E) (fe_key (he_flush E)) (hn_manifest h) (bk_objects (fs_backend (hn_shared h))) gid pos)
          else remote_page (he_codec E) (fe_key (he_flush E)) (hn_manifest h) (bk_objects (fs_backend (hn_shared h))) gid pos) = Some d"
  shows "remote_page (he_codec E) (fe_key (he_flush E)) (hn_manifest h') (bk_objects (fs_backend (hn_shared h'))) gid pos = Some d
    \<and> (\<not> override_dropped (he_flush E) Map.empty (hn_cache h) (hn_manifest h) (to_upload h) gid pos
        \<longrightarrow> \<not> cached_left_behind (he_flush E) Map.empty (hn_cache h) (hn_manifest h) (bk_objects (fs_backend (hn_shared h))) (to_upload h) gid pos
        \<longrightarrow> (case cache_view (he_codec E) (hn_cache h) (group_page_nums (hn_manifest h) gid ! pos) of
               Some p \<Rightarrow> Some p
             | None \<Rightarrow> remote_page (he_codec E) (fe_key (he_flush E)) (hn_manifest h) (bk_objects (fs_backend (hn_shared h))) gid pos) = Some d)
    \<and> hn_dirty h' = {} \<and> fs_dirty (hn_shared h') = {}
    \<and> (\<not> nothing_to_sync h \<longrightarrow> bk_objects (fs_backend (hn_shared h')) MANIFEST_KEY = ms_to_vec (fe_manifest_serde (he_flush E)) (hn_manifest h'))"
proof -
  let ?h = "h\<lparr>hn_synced := True\<rparr>"
  have lay: "flush_layout (hn_manifest h)" using assms(3) by (simp add: durable_ready_def flush_ready_def Let_def)
  have page: "published_page (he_flush E) Map.empty (hn_cache h) (hn_manifest h) (bk_objects (fs_backend (hn_shared h))) (to_upload h) gid pos = Some d"
    unfolding published_unstaged to_upload_def by (rule assms(9))
  have seen: "\<not> override_dropped (he_flush E) Map.empty (hn_cache h) (hn_manifest h) (to_upload h) gid pos
      \<Longrightarrow> \<not> cached_left_behind (he_flush E) Map.empty (hn_cache h) (hn_manifest h) (bk_objects (fs_backend (hn_shared h))) (to_upload h) gid pos
      \<Longrightarrow> (case cache_view (he_codec E) (hn_cache h) (group_page_nums (hn_manifest h) gid ! pos) of
               Some p \<Rightarrow> Some p
             | None \<Rightarrow> remote_page (he_codec E) (fe_key (he_flush E)) (hn_manifest h) (bk_objects (fs_backend (hn_shared h))) gid pos) = Some d"
    using published_view [OF lay assms(7,8)] page by (simp add: flush_view_def local_view_def)
  have "remote_page (he_codec E) (fe_key (he_flush E)) (hn_manifest h') (bk_objects (fs_backend (hn_shared h'))) gid pos = Some d
    \<and> hn_dirty h' = {} \<and> fs_dirty (hn_shared h') = {}
    \<and> (\<not> nothing_to_sync h \<longrightarrow> bk_objects (fs_backend (hn_shared h')) MANIFEST_KEY = ms_to_vec (fe_manifest_serde (he_flush E)) (hn_manifest h'))"
  proof (cases "nothing_to_sync h")
    case True
    then have "h' = ?h\<lparr>hn_dirty_since_sync := False\<rparr>" using assms(4,6) by (simp add: handle_sync_def nothing_to_sync_def Let_def)
    then show ?thesis using True page idle_upload [OF True] by (simp add: nothing_to_sync_def published_unstaged)
  next
    case False
    then have run: "durable_sync lossy E a ?h = (Inr (), h')" using assms(4-6) by (auto simp: handle_sync_def nothing_to_sync_def Let_def split: if_splits)
    have up_eq: "to_upload ?h = to_upload h" by (simp add: to_upload_def)
    have ready: "durable_ready E ?h" using assms(3) by (simp add: durable_ready_def no_vacuum_def up_eq)
    obtain ck where up: "upload_durable E a (fe_iter (he_flush E) (to_upload ?h)) (?h\<lparr>hn_cookie := ck, hn_shared := (hn_shared ?h)\<lparr>fs_dirty := {}\<rparr>\<rparr>) = (Inr (), h')"
      using durable_sync_uploads [OF ready assms(2), of lossy a] run by auto
    show ?thesis using upload_durable_publishes [OF assms(1,2) ready up, unfolded up_eq] assms(8) page by simp
  qed
  then show ?thesis using seen by blast
qed

text \<open>A handle that has rewritten the first of two new pages.\<close>

definition dirty_handle :: handle where
  "dirty_handle = \<lparr>hn_shared = (new_state (\<lambda>_. None))\<lparr>fs_dirty := {}\<rparr>, hn_seq = 0, hn_dirty = {0}, hn_page_size = 4, hn_pending_count = 2,
     hn_dirty_since_sync = True, hn_synced = False, hn_generation = 0, hn_cookie = None, hn_vacuum_keys = None, hn_writer = None\<rparr>"

definition durable_env :: handle_env where
  "durable_env = \<lparr>he_flush = new_env, he_local_only = False, he_ppg = 2, he_read_only = False, he_staging_dir = [], he_evict_on_checkpoint = True\<rparr>"

definition no_answers :: sync_answers where
  "no_answers = \<lparr>sa_now = 0, sa_finalize = None, sa_fault = (\<lambda>_. NoFault)\<rparr>"

lemma dirty_handle_fields [simp]:
  "hn_manifest dirty_handle = new_manifest" "hn_cache dirty_handle = two_page_cache" "hn_dirty dirty_handle = {0}" "hn_page_size dirty_handle = 4"
  "fs_backend (hn_shared dirty_handle) = \<lparr>bk_objects = Map.empty, bk_fault = \<lambda>_. None, bk_ops = 0\<rparr>" "fs_dirty (hn_shared dirty_handle) = {}"
  "hn_pending_count dirty_handle = 2" "hn_vacuum_keys dirty_handle = None" "hn_cookie dirty_handle = None" "fs_local (hn_shared dirty_handle) = None"
  by (simp_all add: dirty_handle_def)

lemma durable_env_fields [simp]:
  "he_flush durable_env = new_env" "\<not> he_local_only durable_env" "he_ppg durable_env = 2" "\<not> he_read_only durable_env"
  by (simp_all add: durable_env_def)

lemma dirty_handle_upload: "to_upload dirty_handle = {0}"
  by (simp add: to_upload_def groups_of_def new_manifest_def page_location_def)

lemma dirty_handle_ready: "durable_ready durable_env dirty_handle"
proof -
  have s: "(hn_shared dirty_handle)\<lparr>fs_dirty := {0}\<rparr> = new_state (\<lambda>_. None)" by (simp add: dirty_handle_def new_state_def)
  have "page_location new_manifest 0 \<noteq> None" "pages_per_group new_manifest = 2" by (simp_all add: new_manifest_def page_location_def)
  then show ?thesis using new_ready [of "\<lambda>_. None"] by (simp add: durable_ready_def dirty_handle_upload s no_vacuum_def vacuum_detected_def)
qed

lemma dirty_handle_groups:
  "\<exists>acc enc. merge_results new_manifest 4 (fst (encode_groups new_env 4 two_page_cache new_manifest 4 [0] b)) (initial_acc new_manifest) = Inr acc
     \<and> snd (encode_groups new_env 4 two_page_cache new_manifest 4 [0] b) = b \<and> fa_uploads acc = [(page_group_key 0 4, enc)]"
proof -
  have "durable_pages plain_codec None 4 two_page_cache new_manifest 0 b = (Inr [Some [1, 2, 3, 4], Some [5, 6, 7, 8]], b)"
    using new_cache_reads by (simp add: durable_pages_def Let_def and_then_def)
  moreover obtain enc where "encode_page_group plain_codec (zeros 12) [Some [1, 2, 3, 4], Some [5, 6, 7, 8]] 4 (aad_page_group 0) None = Inr enc"
    using plain_seal unfolding encode_page_group_def Let_def by blast
  ultimately have "encode_group new_env 4 two_page_cache new_manifest 4 0 b = (Inr (Rewritten enc []), b)"
    by (simp add: encode_group_def Let_def and_then_def) (simp add: new_env_def)
  then show ?thesis by (simp add: apply_group_def Let_def initial_acc_def)
qed

lemma dirty_handle_bundles:
  "durable_bundles new_env now 4 {0} new_manifest 4 two_page_cache
     = (Inr (\<lparr>ba_uploads = [], ba_replaced = [], ba_keys = Map.empty\<rparr>, \<lparr>ba_uploads = [], ba_replaced = [], ba_keys = Map.empty\<rparr>), two_page_cache)"
proof -
  have none: "interior_chunk_keys new_manifest = Map.empty" "index_chunk_keys new_manifest = Map.empty" "dc_interior_pages two_page_cache = {}"
    by (simp_all add: new_manifest_def empty_manifest_def two_page_cache_def sample_cache_def)
  have "known_interior plain_codec 4 two_page_cache 2 {0} Map.empty = Map.empty" by (simp add: fun_eq_iff known_interior_def none)
  moreover have "known_leaves new_env 4 two_page_cache 2 {0} Map.empty = Map.empty" by (simp add: known_leaves_def new_env_def)
  moreover have "build_bundles new_env kind 4 4 Map.empty {} Map.empty = Inr \<lparr>ba_uploads = [], ba_replaced = [], ba_keys = Map.empty\<rparr>" for kind
    by (simp add: build_bundles_def)
  ultimately show ?thesis using new_cache_reads(3)
    by (simp add: durable_bundles_def and_then_def Handle.header_offset_def get_def keep_leaf_def is_index_leaf_def none Let_def)
qed

lemma dirty_handle_persist:
  assumes "fs_local (hn_shared h) = Some []"
  shows "fst (persist_durable durable_env no_answers h) = Inr ()"
  using assms by (simp add: persist_durable_def no_answers_def Let_def persist_manifest_local_def persist_dirty_groups_def update_state_def
      load_or_default_def load_state_def persist_state_def)

lemma dirty_handle_finish:
  assumes "fs_local (hn_shared h) = None"
  shows "fst (finish_durable durable_env no_answers replaced h) = Inr ()"
proof -
  have "snd (persist_bitmap it (fe_serde new_env) (sa_fault no_answers 0) dc None) = Some []" for it dc
    by (simp add: persist_bitmap_def no_answers_def Let_def update_state_def load_or_default_def load_state_def persist_state_def)
  moreover have w: "fs_local (hn_shared (with_cache f h)) = fs_local (hn_shared h)" for f h by (simp add: with_cache_def)
  moreover have "fs_local (hn_shared (truncate_cache E h)) = fs_local (hn_shared h)" for E h
    by (simp add: truncate_cache_def Let_def w split: prod.splits sum.splits)
  moreover have "fs_local (hn_shared (collect_garbage E ks h)) = fs_local (hn_shared h)" for E ks h by (simp add: collect_garbage_def)
  ultimately show ?thesis unfolding finish_durable_def Let_def using assms by (intro dirty_handle_persist) simp
qed

lemma dirty_handle_run: "fst (handle_sync (durable_sync lossy durable_env) durable_env no_answers dirty_handle) = Inr ()"
proof -
  let ?h = "dirty_handle\<lparr>hn_synced := True\<rparr>" and ?b = "\<lparr>bk_objects = Map.empty, bk_fault = \<lambda>_. None, bk_ops = 0\<rparr>"
  have "durable_ready durable_env ?h" using dirty_handle_ready by (simp add: durable_ready_def no_vacuum_def to_upload_def)
  moreover have it: "hash_iteration (fe_iter (he_flush durable_env))" using sorted_iter.hash_iteration_axioms by simp
  ultimately obtain ck where sync: "durable_sync lossy durable_env no_answers ?h
      = upload_durable durable_env no_answers (fe_iter (he_flush durable_env) (to_upload ?h)) (?h\<lparr>hn_cookie := ck, hn_shared := (hn_shared ?h)\<lparr>fs_dirty := {}\<rparr>\<rparr>)"
    using durable_sync_uploads by blast
  have gids: "fe_iter (he_flush durable_env) (to_upload ?h) = [0]" using dirty_handle_upload by (simp add: to_upload_def)
  let ?h1 = "?h\<lparr>hn_cookie := ck, hn_shared := (hn_shared ?h)\<lparr>fs_dirty := {}\<rparr>\<rparr>"
  obtain acc enc where g: "merge_results new_manifest 4 (fst (encode_groups new_env 4 two_page_cache new_manifest 4 [0] ?b)) (initial_acc new_manifest) = Inr acc"
      "snd (encode_groups new_env 4 two_page_cache new_manifest 4 [0] ?b) = ?b" "fa_uploads acc = [(page_group_key 0 4, enc)]"
    using dirty_handle_groups by blast
  have init: "(initial_acc new_manifest)\<lparr>fa_replaced := []\<rparr> = initial_acc new_manifest" by (simp add: initial_acc_def)
  have cc: "resolve_manifest_replay_cursor (read_page plain_codec 0 (zeros 4) two_page_cache) new_manifest = Inr 1"
    using new_cache_reads(3) by (simp add: resolve_manifest_replay_cursor_def read_file_change_counter_def validate_replay_cursor_page0_def Let_def)
  let ?no = "\<lparr>ba_uploads = [], ba_replaced = [], ba_keys = Map.empty\<rparr>" and ?h2 = "?h1\<lparr>hn_vacuum_keys := None\<rparr>"
  have enc: "encode_dirty_groups durable_env 4 [0] ?h1 = (Inr acc, ?h2)"
    using g init by (simp add: encode_dirty_groups_def Let_def dirty_handle_def new_state_def split: prod.splits)
  have bs: "on_cache (durable_bundles new_env (sa_now no_answers) 4 {0} new_manifest 4) ?h2 = (Inr (?no, ?no), ?h2)"
    by (simp add: on_cache_def dirty_handle_bundles with_cache_def)
  obtain b2 where b2: "put_page_groups [(page_group_key 0 4, enc)] ?b = (Inr (), b2)" "bk_objects b2 MANIFEST_KEY = None" "bk_fault b2 = (\<lambda>_. None)"
    using key_of_nonempty(2) [of "PageGroupSlot 0" 4] by (simp add: put_page_groups_def tick_def put_all_other)
  have "fst (publish_durable durable_env no_answers 4 1 [0] acc (?no, ?no) ?h2) = Inr ()"
  proof -
    let ?h3 = "?h2\<lparr>hn_shared := (hn_shared ?h2)\<lparr>fs_backend := b2\<rparr>\<rparr>"
    have put: "on_backend (put_page_groups (fa_uploads acc @ ba_uploads (fst (?no, ?no)) @ ba_uploads (snd (?no, ?no)))) ?h2 = (Inr (), ?h3)"
      using b2(1) g(3) by (simp add: on_backend_def)
    have man: "\<exists>b3. on_backend (put_manifest (fe_tree_iter (he_flush durable_env)) (fe_manifest_serde (he_flush durable_env)) m) ?h3
        = (Inr (), ?h3\<lparr>hn_shared := (hn_shared ?h3)\<lparr>fs_backend := b3\<rparr>\<rparr>)" for m
      using new_put_manifest [OF b2(2,3), of "fe_tree_iter new_env" m] by (auto simp: on_backend_def)
    have fin: "fst (finish_durable durable_env no_answers ks (commit_durable m dirty (?h3\<lparr>hn_shared := (hn_shared ?h3)\<lparr>fs_backend := b3\<rparr>\<rparr>))) = Inr ()" for ks m dirty b3
      by (rule dirty_handle_finish) (simp add: commit_durable_def Let_def with_cache_def with_manifest_def bump_generation_def)
    have "fst (and_then (on_backend (put_manifest (fe_tree_iter (he_flush durable_env)) (fe_manifest_serde (he_flush durable_env)) m) ?h3) (\<lambda>_ h.
        finish_durable durable_env no_answers ks (commit_durable m (hn_dirty h) h))) = Inr ()" for m ks
    proof -
      obtain b3 where b3: "on_backend (put_manifest (fe_tree_iter (he_flush durable_env)) (fe_manifest_serde (he_flush durable_env)) m) ?h3
        = (Inr (), ?h3\<lparr>hn_shared := (hn_shared ?h3)\<lparr>fs_backend := b3\<rparr>\<rparr>)" using man [of m] by blast
      show ?thesis unfolding b3 and_then_simps by (rule fin)
    qed
    then show ?thesis unfolding publish_durable_def put and_then_simps Let_def .
  qed
  then have "fst (upload_durable durable_env no_answers [0] ?h1) = Inr ()"
    using cc enc bs by (simp add: upload_durable_def Let_def)
  then show ?thesis using sync gids by (simp add: handle_sync_def nothing_to_sync_def Let_def)
qed

theorem durable_sync_publishes_witness:
  "remote_page plain_codec None (hn_manifest (snd (handle_sync (durable_sync (\<lambda>_. []) durable_env) durable_env no_answers dirty_handle)))
     (bk_objects (fs_backend (hn_shared (snd (handle_sync (durable_sync (\<lambda>_. []) durable_env) durable_env no_answers dirty_handle))))) 0 1 = Some [5, 6, 7, 8]"
proof -
  obtain h' where run: "handle_sync (durable_sync (\<lambda>_. []) durable_env) durable_env no_answers dirty_handle = (Inr (), h')"
    using dirty_handle_run by (metis prod.collapse)
  have env: "flush_codec (he_flush durable_env)" "hash_iteration (fe_iter (he_flush durable_env))"
    using plain_codec_contract plain_seal_bounded sorted_iter.hash_iteration_axioms by (simp_all add: flush_codec_def) (simp_all add: new_env_def)
  have h: "group_in_range (hn_manifest dirty_handle) 0" "1 < length (group_page_nums (hn_manifest dirty_handle) 0)"
    "(if 0 \<in> groups_of (hn_manifest dirty_handle) (hn_dirty dirty_handle) \<union> fs_dirty (hn_shared dirty_handle)
      then (case cache_view (he_codec durable_env) (hn_cache dirty_handle) (group_page_nums (hn_manifest dirty_handle) 0 ! 1) of Some d \<Rightarrow> Some d
        | None \<Rightarrow> base_page (he_codec durable_env) (fe_key (he_flush durable_env)) (hn_manifest dirty_handle) (bk_objects (fs_backend (hn_shared dirty_handle))) 0 1)
      else remote_page (he_codec durable_env) (fe_key (he_flush durable_env)) (hn_manifest dirty_handle) (bk_objects (fs_backend (hn_shared dirty_handle))) 0 1)
      = Some [5, 6, 7, 8]"
    using new_cache_view dirty_handle_upload by (simp_all add: group_in_range_def to_upload_def)
  show ?thesis using durable_sync_publishes [OF env dirty_handle_ready durable_env_fields(4,2) run h] by (simp add: run)
qed

end
