(* ===== verification/Vacuum.thy ===== *)
theory Vacuum
  imports Handle_Durable "HOL-Library.Multiset"
begin

text \<open>
  The page map after a vacuum: the groups built from a walk of the B-trees hold every page of the file
  exactly once, the index agrees with them, and every tree knows the groups that hold its pages.
\<close>

subsection \<open>Packing\<close>

lemma chunks_nonempty: "0 < n \<Longrightarrow> c \<in> set (chunks n xs) \<Longrightarrow> c \<noteq> [] \<and> length c \<le> n"
  using chunks_bounded by blast

lemma pack_trees_mset:
  assumes "0 < ppg"
  shows "mset (concat (fst (fold (pack_tree ppg) es (groups, small)))) + mset (snd (fold (pack_tree ppg) es (groups, small)))
    = mset (concat groups) + mset small + mset (concat (map bt_pages es))"
proof (induction es arbitrary: groups small)
  case (Cons e es)
  obtain g s where one: "pack_tree ppg e (groups, small) = (g, s)" by force
  have "mset (concat g) + mset s = mset (concat groups) + mset small + mset (bt_pages e)"
    using one concat_chunks [OF assms, of "sort (bt_pages e)"] by (auto simp: pack_tree_def Let_def split: if_splits)
  then show ?case using Cons.IH [of g s] by (simp add: one)
qed simp

lemma pack_trees_sizes:
  assumes "0 < ppg" "\<forall>g \<in> set groups. g \<noteq> [] \<and> length g \<le> ppg"
  shows "\<forall>g \<in> set (fst (fold (pack_tree ppg) es (groups, small))). g \<noteq> [] \<and> length g \<le> ppg"
  using assms(2)
proof (induction es arbitrary: groups small)
  case (Cons e es)
  obtain g s where one: "pack_tree ppg e (groups, small) = (g, s)" by force
  have "g = groups \<or> g = groups @ chunks ppg (sort (bt_pages e))" using one by (auto simp: pack_tree_def Let_def split: if_splits)
  then have "\<forall>x \<in> set g. x \<noteq> [] \<and> length x \<le> ppg" using Cons.prems chunks_nonempty [OF assms(1), of _ "sort (bt_pages e)"] by (metis Un_iff set_append)
  then show ?case using Cons.IH [of g s] by (simp add: one)
qed simp

definition tree_entries :: "(nat set \<Rightarrow> nat list) \<Rightarrow> btree_walk_result \<Rightarrow> btree_entry list" where
  "tree_entries iter w = map (\<lambda>root. the (wr_btrees w root)) (iter (dom (wr_btrees w)))"

lemma repack_mset:
  assumes "0 < ppg"
  shows "mset (concat (repack_groups iter ppg w)) = mset (concat (map bt_pages (tree_entries iter w))) + mset (wr_unowned_pages w)"
proof -
  obtain g s where run: "fold (pack_tree ppg) (btree_list iter w) ([], []) = (g, s)" by force
  have "mset (concat g) + mset s = mset (concat (map bt_pages (btree_list iter w)))" using pack_trees_mset [OF assms, of "btree_list iter w" "[]" "[]"] run by simp
  also have "\<dots> = sum_mset (image_mset (mset \<circ> bt_pages) (mset (btree_list iter w)))" by (simp only: mset_concat map_map mset_map sum_mset_sum_list [symmetric])
  also have "mset (btree_list iter w) = mset (tree_entries iter w)" by (simp add: btree_list_def tree_entries_def)
  finally have "mset (concat g) + mset s = mset (concat (map bt_pages (tree_entries iter w)))" by (simp only: mset_concat map_map mset_map sum_mset_sum_list [symmetric])
  then show ?thesis using concat_chunks [OF assms, of "s @ sort (wr_unowned_pages w)"] by (simp add: repack_groups_def run)
qed

lemma repack_sizes:
  assumes "0 < ppg" "g \<in> set (repack_groups iter ppg w)"
  shows "g \<noteq> []" "length g \<le> ppg"
proof -
  obtain gs s where run: "fold (pack_tree ppg) (btree_list iter w) ([], []) = (gs, s)" by force
  have "\<forall>g \<in> set gs. g \<noteq> [] \<and> length g \<le> ppg" using pack_trees_sizes [OF assms(1), of "[]" "btree_list iter w" "[]"] run by simp
  then show "g \<noteq> []" "length g \<le> ppg" using assms chunks_nonempty [OF assms(1), of g "s @ sort (wr_unowned_pages w)"] by (auto simp: repack_groups_def run)
qed

subsection \<open>A walk that owns every page once\<close>

text \<open>In a sound database no page is past the end of the file or in two trees.\<close>

definition well_owned :: "nat \<Rightarrow> btree_walk_result \<Rightarrow> bool" where
  "well_owned live w \<longleftrightarrow> (\<forall>r e. wr_btrees w r = Some e \<longrightarrow> set (bt_pages e) \<subseteq> {..<live})
     \<and> (\<forall>r s e f. wr_btrees w r = Some e \<longrightarrow> wr_btrees w s = Some f \<longrightarrow> r \<noteq> s \<longrightarrow> set (bt_pages e) \<inter> set (bt_pages f) = {})"

lemma walk_result_facts:
  assumes "walk_all_btrees lossy live ps rd = Inr w"
  shows "finite (dom (wr_btrees w))" "wr_btrees w r = Some e \<Longrightarrow> distinct (bt_pages e)"
    "wr_unowned_pages w = filter (\<lambda>p. \<forall>b \<in> ran (wr_btrees w). p \<notin> set (bt_pages b)) [0..<live]"
proof -
  obtain entries where e: "parse_sqlite_master lossy rd = Inr entries" using assms by (auto simp: walk_all_btrees_def bind_result_Inr_iff)
  note s = walk_all_btrees_spec [OF e, of live ps]
  have dom: "dom (wr_btrees w) = insert 0 {root. \<exists>e \<in> set entries. me_root_page e = Suc root}"
    and pages: "\<And>root b. wr_btrees w root = Some b \<Longrightarrow> bt_pages b = walk_btree rd live ps root"
    and un: "wr_unowned_pages w = filter (\<lambda>p. \<forall>b \<in> ran (wr_btrees w). p \<notin> set (bt_pages b)) [0..<live]"
    using s assms by auto
  have "{root. \<exists>e \<in> set entries. me_root_page e = Suc root} \<subseteq> (\<lambda>e. me_root_page e - 1) ` set entries" by force
  then show "finite (dom (wr_btrees w))" unfolding dom by (simp add: finite_subset)
  show "distinct (bt_pages e)" if "wr_btrees w r = Some e"
    using walk_btree_inv [of rd live ps r] pages [OF that] by (auto simp: walk_inv_def)
  show "wr_unowned_pages w = filter (\<lambda>p. \<forall>b \<in> ran (wr_btrees w). p \<notin> set (bt_pages b)) [0..<live]" by (rule un)
qed

lemma repack_exact:
  assumes walk: "walk_all_btrees lossy live ps rd = Inr w" and own: "well_owned live w" and iter: "hash_iteration iter" and ppg: "0 < ppg"
  shows "distinct (concat (repack_groups iter ppg w))" "set (concat (repack_groups iter ppg w)) = {..<live}"
proof -
  note f = walk_result_facts [OF walk]
  have roots: "set (iter (dom (wr_btrees w))) = dom (wr_btrees w)" "distinct (iter (dom (wr_btrees w)))"
    using iter f(1) by (simp_all add: hash_iteration.set_iter hash_iteration.distinct_iter)
  have some: "wr_btrees w r = Some (the (wr_btrees w r))" if "r \<in> set (iter (dom (wr_btrees w)))" for r using that roots(1) by auto
  have pages: "set (concat (map bt_pages (tree_entries iter w))) = (\<Union>b \<in> ran (wr_btrees w). set (bt_pages b))"
    using roots(1) by (force simp: tree_entries_def ran_def dom_def)
  have trees: "distinct (concat (map bt_pages (tree_entries iter w)))"
  proof -
    have "distinct (concat (map (\<lambda>r. bt_pages (the (wr_btrees w r))) rs))" if "distinct rs" "set rs \<subseteq> set (iter (dom (wr_btrees w)))" for rs
      using that
    proof (induction rs)
      case (Cons r rs)
      have r: "wr_btrees w r = Some (the (wr_btrees w r))" using Cons.prems some by simp
      have "set (bt_pages (the (wr_btrees w r))) \<inter> set (bt_pages (the (wr_btrees w s))) = {}" if "s \<in> set rs" for s
        using own r some [of s] that Cons.prems unfolding well_owned_def by (metis distinct.simps(2) list.set_intros(2) subsetD)
      then show ?case using Cons f(2) [OF r] by auto
    qed simp
    then show ?thesis using roots(2) by (simp add: tree_entries_def comp_def)
  qed
  have ms: "mset (concat (repack_groups iter ppg w)) = mset (concat (map bt_pages (tree_entries iter w)) @ wr_unowned_pages w)"
    using repack_mset [OF ppg, of iter w] by simp
  have "distinct (concat (map bt_pages (tree_entries iter w)) @ wr_unowned_pages w)" using trees pages f(3) by auto
  then show "distinct (concat (repack_groups iter ppg w))" using mset_eq_imp_distinct_iff [OF ms] by simp
  have "(\<Union>b \<in> ran (wr_btrees w). set (bt_pages b)) \<subseteq> {..<live}" using own by (fastforce simp: well_owned_def ran_def)
  then have "set (concat (map bt_pages (tree_entries iter w)) @ wr_unowned_pages w) = {..<live}" using pages f(3) by auto
  then show "set (concat (repack_groups iter ppg w)) = {..<live}" using mset_eq_setD [OF ms] by simp
qed

subsection \<open>The groups of a tree\<close>

lemma page_to_gid_iff:
  assumes "distinct (concat groups)"
  shows "page_to_gid groups p = Some gid \<longleftrightarrow> gid < length groups \<and> p \<in> set (groups ! gid)"
proof -
  let ?kvs = "concat (map (\<lambda>(gid, pages). map (\<lambda>p. (p, gid)) pages) (List.enumerate 0 groups))"
  have mem: "(p, gid) \<in> set ?kvs \<longleftrightarrow> gid < length groups \<and> p \<in> set (groups ! gid)" for p gid
  proof -
    have "(p, gid) \<in> set ?kvs \<longleftrightarrow> (\<exists>pages. (gid, pages) \<in> set (List.enumerate 0 groups) \<and> p \<in> set pages)" by fastforce
    then show ?thesis by (auto simp: in_set_enumerate_eq)
  qed
  have same: "v = v'" if kv: "(k, v) \<in> set ?kvs" "(k, v') \<in> set ?kvs" for k v v'
  proof -
    obtain i i' where "i < length (groups ! v)" "groups ! v ! i = k" "i' < length (groups ! v')" "groups ! v' ! i' = k"
      using kv unfolding mem by (auto simp: in_set_conv_nth)
    then show ?thesis using kv distinct_concat_nth [OF assms, of v i v' i'] unfolding mem by simp
  qed
  have "insert_all ?kvs Map.empty p = Some gid \<longleftrightarrow> (p, gid) \<in> set ?kvs \<or> p \<notin> fst ` set ?kvs \<and> None = Some gid"
    by (rule insert_all_functional) (rule same)
  then have "page_to_gid groups p = Some gid \<longleftrightarrow> (p, gid) \<in> set ?kvs" unfolding page_to_gid_def by blast
  then show ?thesis unfolding mem .
qed

text \<open>
  C17: After a vacuum the page map is rebuilt without losing or duplicating a page. If the walk found no page
  in two trees and none past the end of the file, the manifest built from it holds every page of the file
  in exactly one group, no group has more pages than allowed, the index gives the group and position of
  every page, and every tree lists exactly the groups that hold one of its pages.
\<close>

theorem vacuum_repack_grouped:
  assumes "walk_all_btrees lossy live ps rd = Inr w" "well_owned live w" "hash_iteration iter"
    and "strategy m = BTreeAware" "0 < pages_per_group m" "pages_per_group m < U32_SIZE"
  shows "grouped (repacked_manifest iter (pages_per_group m) live w m) \<and> page_count (repacked_manifest iter (pages_per_group m) live w m) = live
    \<and> (wr_btrees w r = Some e \<longrightarrow>
        (\<exists>be. btrees (repacked_manifest iter (pages_per_group m) live w m) r = Some be \<and> be_pages be = bt_pages e
          \<and> set (be_group_ids be) = {gid. gid < length (group_pages (repacked_manifest iter (pages_per_group m) live w m))
              \<and> set (group_pages (repacked_manifest iter (pages_per_group m) live w m) ! gid) \<inter> set (bt_pages e) \<noteq> {}}))"
proof -
  let ?groups = "repack_groups iter (pages_per_group m) w" and ?m = "repacked_manifest iter (pages_per_group m) live w m"
  note ex = repack_exact [OF assms(1-3,5)]
  have size: "length g \<le> pages_per_group m" if "g \<in> set ?groups" for g by (rule repack_sizes(2) [OF assms(5) that])
  have f: "group_pages ?m = ?groups" "page_count ?m = live" "pages_per_group ?m = pages_per_group m" "strategy ?m = BTreeAware"
    "btrees ?m = map_option (repacked_entry ?groups) \<circ> wr_btrees w"
    using assms(4) by (simp_all add: repacked_manifest_def Let_def)
  have "index_consistent ?m" unfolding repacked_manifest_def Let_def
    by (rule index_consistent_build) (use ex(1) assms(4,6) size in \<open>auto intro: le_trans less_imp_le\<close>)
  then have g: "grouped ?m" using assms(5,6) ex size by (simp add: grouped_def f)
  have "set (be_group_ids (repacked_entry ?groups e)) = {gid. gid < length ?groups \<and> set (?groups ! gid) \<inter> set (bt_pages e) \<noteq> {}}"
    by (auto simp: repacked_entry_def in_set_map_filter page_to_gid_iff [OF ex(1)])
  moreover have "be_pages (repacked_entry ?groups e) = bt_pages e" by (simp add: repacked_entry_def)
  ultimately show ?thesis using g by (auto simp: f)
qed

text \<open>A file of three pages whose schema table is empty.\<close>

definition empty_schema :: page_reader where
  "empty_schema p = (if p = 0 then Some (replicate 100 0 @ [0x0d, 0, 0, 0, 0, 0, 0, 0]) else None)"

lemma empty_schema_walk: "walk_btree empty_schema 3 512 0 = [0]" "parse_sqlite_master (\<lambda>_. []) empty_schema = Inr []"
  by code_simp+

theorem vacuum_repack_grouped_witness:
  "\<exists>w. walk_all_btrees (\<lambda>_. []) 3 512 empty_schema = Inr w
     \<and> grouped (repacked_manifest sorted_list_of_set 2 3 w (empty_manifest\<lparr>strategy := BTreeAware, pages_per_group := 2\<rparr>))"
proof -
  let ?m = "empty_manifest\<lparr>strategy := BTreeAware, pages_per_group := 2\<rparr>"
  obtain w where w: "walk_all_btrees (\<lambda>_. []) 3 512 empty_schema = Inr w" "dom (wr_btrees w) = {0}"
      "\<And>r b. wr_btrees w r = Some b \<Longrightarrow> bt_pages b = walk_btree empty_schema 3 512 r"
    using walk_all_btrees_spec [OF empty_schema_walk(2), of 3 512] by auto
  have "r = 0 \<and> bt_pages b = [0]" if "wr_btrees w r = Some b" for r b
    using w(2,3) that empty_schema_walk(1) by (metis domI singletonD)
  then have "well_owned 3 w" by (auto simp: well_owned_def)
  from vacuum_repack_grouped [OF w(1) this sorted_iter.hash_iteration_axioms, of ?m] w(1) show ?thesis by auto
qed

end
