(* ===== verification/Local_File.thy ===== *)
theory Local_File
  imports Encoding Handle_Lock
begin

text \<open>
  The single-file compressed database: the byte format of \<open>src/src/local/file_format.rs\<close> and the handle of
  \<open>src/src/local/mod.rs\<close>, which keeps the whole database as an image in memory and replaces the file on
  every sync. The zstd and AES-GCM libraries are the codec parameter (the compression level belongs to
  it), the random nonce of each page is an argument. Paths, the registration with SQLite and the advisory
  lock file are not state of the model: whether another connection holds the lock is an argument of \<open>open\<close>,
  and an error of opening the lock file itself is left out. Replacing the file (temporary file, sync, rename) is one step.
\<close>

subsection \<open>Header\<close>

definition LOCAL_MAGIC :: bytes where
  "LOCAL_MAGIC = [0x54, 0x4C, 0x4C, 0x4F, 0x43, 0x41, 0x4C, 0x31]"

definition FORMAT_VERSION :: nat where "FORMAT_VERSION = 1"

definition HEADER_LEN :: nat where "HEADER_LEN = 64"

definition DIR_ENTRY_LEN :: nat where "DIR_ENTRY_LEN = 12"

definition MIN_PAGE_SIZE :: nat where "MIN_PAGE_SIZE = 512"

definition MAX_PAGE_SIZE :: nat where "MAX_PAGE_SIZE = 65536"

definition FLAG_ENCRYPTED :: nat where "FLAG_ENCRYPTED = 1"

definition CODEC_RAW :: byte where "CODEC_RAW = 0"

definition CODEC_ZSTD :: byte where "CODEC_ZSTD = 1"

record header =
  hd_format_version :: nat
  hd_flags :: nat
  hd_page_size :: nat
  hd_page_count :: nat
  hd_directory_offset :: nat

definition header_encode :: "header \<Rightarrow> bytes" where
  "header_encode h =
     LOCAL_MAGIC @ be_bytes 2 FORMAT_VERSION @ le_bytes 2 (hd_flags h) @ le_bytes 4 (hd_page_size h) @ le_bytes 8 (hd_page_count h)
     @ le_bytes 8 (hd_directory_offset h) @ zeros 32"

definition header_decode :: "bytes \<Rightarrow> header io_result" where
  "header_decode buf =
     (if length buf < HEADER_LEN then Inl (Io UnexpectedEof ''local db header truncated'')
      else if bslice 0 8 buf \<noteq> LOCAL_MAGIC then Inl (Io InvalidData ''not a TLLOCAL1 file (bad magic)'')
      else let format_version = be_val (bslice 8 2 buf); page_size = le_val (bslice 12 4 buf); directory_offset = le_val (bslice 24 8 buf) in
        if format_version \<noteq> FORMAT_VERSION then Inl (Io InvalidData ''unsupported TLLOCAL1 version'')
        else if \<not> (MIN_PAGE_SIZE \<le> page_size \<and> page_size \<le> MAX_PAGE_SIZE) then Inl (Io InvalidData ''TLLOCAL1 page_size out of range'')
        else if directory_offset < HEADER_LEN then Inl (Io InvalidData ''TLLOCAL1 directory_offset inside header'')
        else Inr \<lparr>hd_format_version = format_version, hd_flags = le_val (bslice 10 2 buf), hd_page_size = page_size,
                  hd_page_count = le_val (bslice 16 8 buf), hd_directory_offset = directory_offset\<rparr>)"

subsection \<open>Pages\<close>

record page_codec =
  pc_compress :: bool
  pc_key :: "bytes option"

definition header_flags :: "page_codec \<Rightarrow> nat" where
  "header_flags pc = (if pc_key pc \<noteq> None then FLAG_ENCRYPTED else 0)"

definition compress_page :: "codec \<Rightarrow> bytes \<Rightarrow> page_codec \<Rightarrow> (byte \<times> bytes) io_result" where
  "compress_page C page pc =
     (if \<not> pc_compress pc then Inr (CODEC_RAW, page)
      else bind_result (compress C page) (\<lambda>compressed.
        if length compressed < length page then Inr (CODEC_ZSTD, compressed) else Inr (CODEC_RAW, page)))"

definition maybe_encrypt :: "codec \<Rightarrow> bytes \<Rightarrow> bytes \<Rightarrow> page_codec \<Rightarrow> bytes io_result" where
  "maybe_encrypt C nonce payload pc = (case pc_key pc of Some key \<Rightarrow> encrypt_gcm_random_nonce C nonce payload [] key | None \<Rightarrow> Inr payload)"

definition maybe_decrypt :: "codec \<Rightarrow> bytes \<Rightarrow> page_codec \<Rightarrow> bytes io_result" where
  "maybe_decrypt C payload pc = (case pc_key pc of Some key \<Rightarrow> decrypt_gcm_random_nonce C payload [] key | None \<Rightarrow> Inr payload)"

definition encode_page :: "codec \<Rightarrow> bytes \<Rightarrow> bytes \<Rightarrow> page_codec \<Rightarrow> bytes io_result" where
  "encode_page C nonce page pc =
     bind_result (compress_page C page pc) (\<lambda>(tag, payload).
     bind_result (maybe_encrypt C nonce payload pc) (\<lambda>payload. Inr (tag # payload)))"

definition decode_page :: "codec \<Rightarrow> bytes \<Rightarrow> page_codec \<Rightarrow> nat \<Rightarrow> bytes io_result" where
  "decode_page C blob pc max_page =
     (case blob of
        [] \<Rightarrow> Inl (Io InvalidData ''empty page blob'')
      | tag # rest \<Rightarrow>
          bind_result (maybe_decrypt C rest pc) (\<lambda>payload.
            if tag = CODEC_RAW then
              if length payload \<noteq> max_page then Inl (Io InvalidData ''raw page length does not match expected page size'') else Inr payload
            else if tag = CODEC_ZSTD then
              bind_result (decompress_capped C payload max_page) (\<lambda>page.
                if length page \<noteq> max_page then Inl (Io InvalidData ''decompressed page length does not match expected page size'') else Inr page)
            else Inl (Io InvalidData ''unknown page codec tag'')))"

subsection \<open>Directory\<close>

definition encode_directory :: "(nat \<times> nat) list \<Rightarrow> bytes" where
  "encode_directory entries = concat (map (\<lambda>(offset, len). le_bytes 8 offset @ le_bytes 4 len) entries)"

definition decode_directory :: "bytes \<Rightarrow> nat \<Rightarrow> (nat \<times> nat) list io_result" where
  "decode_directory bytes count =
     (case checked_mul count DIR_ENTRY_LEN of
        None \<Rightarrow> Inl (Io InvalidData ''directory size overflow'')
      | Some needed \<Rightarrow>
          if length bytes < needed then Inl (Io UnexpectedEof ''page directory truncated'')
          else Inr (map (\<lambda>i. (le_val (bslice (i * DIR_ENTRY_LEN) 8 bytes), le_val (bslice (i * DIR_ENTRY_LEN + 8) 4 bytes))) [0..<count]))"

subsection \<open>The whole file\<close>

text \<open>A vector of more than \<open>isize::MAX\<close> bytes cannot be allocated.\<close>

definition ISIZE_MAX :: nat where "ISIZE_MAX = 2 ^ 63 - 1"

fun encode_chunks :: "codec \<Rightarrow> page_codec \<Rightarrow> (nat \<Rightarrow> bytes) \<Rightarrow> bytes list \<Rightarrow> bytes \<Rightarrow> (nat \<times> nat) list \<Rightarrow> (bytes \<times> (nat \<times> nat) list) io_result" where
  "encode_chunks C pc nonces [] data directory = Inr (data, directory)"
| "encode_chunks C pc nonces (chunk # rest) data directory =
     bind_result (encode_page C (nonces (length directory)) chunk pc) (\<lambda>blob.
       if U32_SIZE \<le> length blob then Inl (Io InvalidData ''page blob too large'')
       else encode_chunks C pc nonces rest (data @ blob) (directory @ [(HEADER_LEN + length data, length blob)]))"

definition encode_file :: "codec \<Rightarrow> page_codec \<Rightarrow> (nat \<Rightarrow> bytes) \<Rightarrow> nat \<Rightarrow> bytes \<Rightarrow> bytes io_result" where
  "encode_file C pc nonces ps img =
     (if ps = 0 then panic ''chunk size must be non-zero''
      else bind_result (encode_chunks C pc nonces (chunks ps img) [] []) (\<lambda>(data, directory).
        if ISIZE_MAX < HEADER_LEN + length data + length directory * DIR_ENTRY_LEN then panic ''capacity overflow''
        else Inr (header_encode \<lparr>hd_format_version = FORMAT_VERSION, hd_flags = header_flags pc, hd_page_size = ps,
               hd_page_count = length directory, hd_directory_offset = HEADER_LEN + length data\<rparr> @ data @ encode_directory directory)))"

fun decode_blobs :: "codec \<Rightarrow> page_codec \<Rightarrow> bytes \<Rightarrow> nat \<Rightarrow> nat \<Rightarrow> (nat \<times> nat) list \<Rightarrow> bytes \<Rightarrow> bytes io_result" where
  "decode_blobs C pc bytes dir_off max_page [] img = Inr img"
| "decode_blobs C pc bytes dir_off max_page ((start, len) # directory) img =
     (case checked_add start len of
        None \<Rightarrow> Inl (Io InvalidData ''page extent overflow'')
      | Some stop \<Rightarrow>
          if start < HEADER_LEN \<or> dir_off < stop then Inl (Io InvalidData ''page blob outside data region'')
          else bind_result (decode_page C (bslice start len bytes) pc max_page) (\<lambda>page.
            decode_blobs C pc bytes dir_off max_page directory (img @ page)))"

definition decode_file :: "codec \<Rightarrow> page_codec \<Rightarrow> bytes \<Rightarrow> (bytes \<times> nat) io_result" where
  "decode_file C pc bytes =
     bind_result (header_decode bytes) (\<lambda>h.
       let file_encrypted = (hd_flags h mod 2 = FLAG_ENCRYPTED); dir_off = hd_directory_offset h; n = hd_page_count h in
       if file_encrypted \<noteq> (pc_key pc \<noteq> None)
       then Inl (Io InvalidData (if file_encrypted then ''database is encrypted but no key was supplied'' else ''key supplied but database is not encrypted''))
       else if length bytes < dir_off then Inl (Io InvalidData ''directory offset past end of file'')
       else if length bytes div (1 + DIR_ENTRY_LEN) < n then Inl (Io InvalidData ''page_count exceeds file capacity'')
       else if checked_add dir_off (n * DIR_ENTRY_LEN) \<noteq> Some (length bytes) then Inl (Io InvalidData ''directory length inconsistent with file size'')
       else bind_result (decode_directory (drop dir_off bytes) n) (\<lambda>directory.
         bind_result (decode_blobs C pc bytes dir_off (hd_page_size h) directory []) (\<lambda>img. Inr (img, hd_page_size h))))"

subsection \<open>The handle\<close>

record main_handle =
  mh_codec :: page_codec
  mh_page_size :: nat
  mh_image :: bytes
  mh_dirty :: bool
  mh_lock :: lock_kind

definition opened :: "page_codec \<Rightarrow> bytes \<times> nat \<Rightarrow> main_handle" where
  "opened pc r = \<lparr>mh_codec = pc, mh_page_size = snd r, mh_image = fst r, mh_dirty = False, mh_lock = NoLock\<rparr>"

text \<open>\<open>content\<close> is what reading the database file returns.\<close>

definition main_open :: "codec \<Rightarrow> page_codec \<Rightarrow> nat \<Rightarrow> bool \<Rightarrow> bytes io_result \<Rightarrow> main_handle io_result" where
  "main_open C pc ps locked content =
     (if locked then Inl (Io error_kind.WouldBlock ''database is locked by another connection'')
      else bind_result
        (case content of
           Inr bytes \<Rightarrow> if bytes = [] then Inr ([], ps) else decode_file C pc bytes
         | Inl (Io kind msg) \<Rightarrow> if kind = NotFound then Inr ([], ps) else Inl (Io kind msg))
        (\<lambda>r. Inr (opened pc r)))"

text \<open>
  The temporary file is written and synced before the rename, so a fault leaves the old content; what
  follows the rename is best effort.
\<close>

definition atomic_write :: "io_error option \<Rightarrow> bytes \<Rightarrow> bytes option \<Rightarrow> unit io_result \<times> bytes option" where
  "atomic_write fault bytes file = (case fault of Some e \<Rightarrow> (Inl e, file) | None \<Rightarrow> (Inr (), Some bytes))"

definition persist :: "codec \<Rightarrow> (nat \<Rightarrow> bytes) \<Rightarrow> io_error option \<Rightarrow> main_handle \<times> bytes option \<Rightarrow> unit io_result \<times> main_handle \<times> bytes option" where
  "persist C nonces fault s =
     (case s of (h, file) \<Rightarrow>
        if \<not> mh_dirty h then (Inr (), h, file)
        else case encode_file C (mh_codec h) nonces (mh_page_size h) (mh_image h) of
          Inl e \<Rightarrow> (Inl e, h, file)
        | Inr bytes \<Rightarrow>
            (case atomic_write fault bytes file of
               (Inl e, file) \<Rightarrow> (Inl e, h, file)
             | (Inr _, file) \<Rightarrow> (Inr (), h\<lparr>mh_dirty := False\<rparr>, file)))"

text \<open>The result of a read and the caller's buffer after it: a short read fills the prefix that is there.\<close>

definition image_read :: "bytes \<Rightarrow> bytes \<Rightarrow> nat \<Rightarrow> unit io_result \<times> bytes" where
  "image_read img buf offset =
     (if length img \<le> offset then (Inl (Io UnexpectedEof ''read past end''), buf)
      else let n = min (length img - offset) (length buf); filled = bslice offset n img @ drop n buf in
        if n < length buf then (Inl (Io UnexpectedEof ''short read''), filled) else (Inr (), filled))"

definition resize :: "nat \<Rightarrow> bytes \<Rightarrow> bytes" where
  "resize n img = take n img @ zeros (n - length img)"

definition image_write :: "bytes \<Rightarrow> bytes \<Rightarrow> nat \<Rightarrow> bytes io_result" where
  "image_write img buf offset =
     (let stop = offset + length buf in
      if U64_SIZE \<le> stop then panic ''attempt to add with overflow''
      else let img = (if length img < stop then resize stop img else img)
           in Inr (take offset img @ buf @ drop stop img))"

text \<open>Journals and temporary files live in memory only.\<close>

record mem_handle =
  me_buf :: bytes
  me_lock :: lock_kind

datatype local_handle = MainFile main_handle | MemFile mem_handle

definition open_inner :: "codec \<Rightarrow> page_codec \<Rightarrow> nat \<Rightarrow> bool \<Rightarrow> bool \<Rightarrow> bytes io_result \<Rightarrow> local_handle io_result" where
  "open_inner C pc ps is_main locked content =
     (if is_main then bind_result (main_open C pc ps locked content) (\<lambda>h. Inr (MainFile h))
      else Inr (MemFile \<lparr>me_buf = [], me_lock = NoLock\<rparr>))"

definition local_size :: "local_handle \<Rightarrow> nat" where
  "local_size h = (case h of MainFile m \<Rightarrow> length (mh_image m) | MemFile m \<Rightarrow> length (me_buf m))"

definition local_read :: "local_handle \<Rightarrow> bytes \<Rightarrow> nat \<Rightarrow> unit io_result \<times> bytes" where
  "local_read h buf offset = (case h of MainFile m \<Rightarrow> image_read (mh_image m) buf offset | MemFile m \<Rightarrow> image_read (me_buf m) buf offset)"

definition local_write :: "bytes \<Rightarrow> nat \<Rightarrow> local_handle \<Rightarrow> local_handle io_result" where
  "local_write buf offset h =
     (case h of
        MainFile m \<Rightarrow> bind_result (image_write (mh_image m) buf offset) (\<lambda>img. Inr (MainFile (m\<lparr>mh_image := img, mh_dirty := True\<rparr>)))
      | MemFile m \<Rightarrow> bind_result (image_write (me_buf m) buf offset) (\<lambda>img. Inr (MemFile (m\<lparr>me_buf := img\<rparr>))))"

definition local_set_len :: "nat \<Rightarrow> local_handle \<Rightarrow> local_handle" where
  "local_set_len n h =
     (case h of
        MainFile m \<Rightarrow> MainFile (m\<lparr>mh_image := resize n (mh_image m), mh_dirty := True\<rparr>)
      | MemFile m \<Rightarrow> MemFile (m\<lparr>me_buf := resize n (me_buf m)\<rparr>))"

definition local_sync :: "codec \<Rightarrow> (nat \<Rightarrow> bytes) \<Rightarrow> io_error option \<Rightarrow> local_handle \<times> bytes option \<Rightarrow> unit io_result \<times> local_handle \<times> bytes option" where
  "local_sync C nonces fault s =
     (case s of
        (MainFile m, file) \<Rightarrow> (case persist C nonces fault (m, file) of (r, m, file) \<Rightarrow> (r, MainFile m, file))
      | (MemFile m, file) \<Rightarrow> (Inr (), MemFile m, file))"

definition local_lock :: "lock_kind \<Rightarrow> local_handle \<Rightarrow> local_handle" where
  "local_lock l h = (case h of MainFile m \<Rightarrow> MainFile (m\<lparr>mh_lock := l\<rparr>) | MemFile m \<Rightarrow> MemFile (m\<lparr>me_lock := l\<rparr>))"

text \<open>Closing persists what is dirty, best effort.\<close>

definition local_close :: "codec \<Rightarrow> (nat \<Rightarrow> bytes) \<Rightarrow> io_error option \<Rightarrow> local_handle \<times> bytes option \<Rightarrow> bytes option" where
  "local_close C nonces fault s = snd (snd (local_sync C nonces fault s))"

text \<open>Deleting and probing a file; \<open>fault\<close> is the error of the removal of a file that exists.\<close>

definition delete_inner :: "bool \<Rightarrow> io_error option \<Rightarrow> bytes option \<Rightarrow> unit io_result \<times> bytes option" where
  "delete_inner is_main fault file =
     (if \<not> is_main then (Inr (), file)
      else case (file, fault) of (None, _) \<Rightarrow> (Inr (), None) | (Some b, Some e) \<Rightarrow> (Inl e, Some b) | (Some b, None) \<Rightarrow> (Inr (), None))"

definition exists_inner :: "bool \<Rightarrow> bytes option \<Rightarrow> bool" where
  "exists_inner is_main file = (is_main \<and> file \<noteq> None)"

subsection \<open>One page\<close>

lemma length_magic [simp]: "length LOCAL_MAGIC = 8"
  by (simp add: LOCAL_MAGIC_def)

lemma header_roundtrip:
  assumes "hd_flags h < 2 ^ 16" "MIN_PAGE_SIZE \<le> hd_page_size h" "hd_page_size h \<le> MAX_PAGE_SIZE" "hd_page_count h < U64_SIZE"
    "HEADER_LEN \<le> hd_directory_offset h" "hd_directory_offset h < U64_SIZE" "hd_format_version h = FORMAT_VERSION"
  shows "header_decode (header_encode h @ rest) = Inr h"
  using assms
  by (simp add: header_decode_def header_encode_def FORMAT_VERSION_def HEADER_LEN_def MIN_PAGE_SIZE_def MAX_PAGE_SIZE_def
      bytes_simps Let_def)

lemma length_header [simp]: "length (header_encode h) = HEADER_LEN"
  by (simp add: header_encode_def HEADER_LEN_def)

lemma encrypt_roundtrip:
  assumes "codec_contract C" "length nonce = 12" "maybe_encrypt C nonce payload pc = Inr out"
  shows "maybe_decrypt C out pc = Inr payload"
proof (cases "pc_key pc")
  case (Some k)
  then obtain c where "out = nonce @ c" "gcm_seal C k nonce [] payload = Inr c"
    using assms(3) by (auto simp: maybe_encrypt_def encrypt_gcm_random_nonce_def bind_result_Inr_iff)
  then show ?thesis using Some assms(1,2) by (simp add: maybe_decrypt_def decrypt_gcm_random_nonce_def codec_contract_def)
qed (use assms(3) in \<open>simp add: maybe_encrypt_def maybe_decrypt_def\<close>)

text \<open>A stored page is read back if it has the size the reader expects, and refused otherwise.\<close>

lemma page_roundtrip:
  assumes "codec_contract C" "length nonce = 12" "encode_page C nonce page pc = Inr blob" "length page \<le> ps" "ps + 1 < U64_SIZE"
  shows "if length page = ps then decode_page C blob pc ps = Inr page else \<not> is_ok (decode_page C blob pc ps)"
proof -
  obtain tag payload out where c: "compress_page C page pc = Inr (tag, payload)" "maybe_encrypt C nonce payload pc = Inr out" "blob = tag # out"
    using assms(3) by (auto simp: encode_page_def bind_result_Inr_iff)
  have d: "maybe_decrypt C out pc = Inr payload" by (rule encrypt_roundtrip [OF assms(1,2) c(2)])
  consider "tag = CODEC_RAW" "payload = page" | "tag = CODEC_ZSTD" "zs_stream C payload = (page, None)"
    using c(1) assms(1) by (auto simp: compress_page_def compress_def codec_contract_def bind_result_Inr_iff split: if_splits)
  then show ?thesis
  proof cases
    case 1
    then show ?thesis using c(3) d by (simp add: decode_page_def)
  next
    case 2
    then have "decompress_capped C payload ps = Inr page" using assms(4,5) by (simp add: decompress_capped_def Let_def)
    then show ?thesis using 2 c(3) d by (simp add: decode_page_def CODEC_RAW_def CODEC_ZSTD_def)
  qed
qed

subsection \<open>The file and its image\<close>

text \<open>The directory of blobs that follow one another from offset \<open>off\<close>, and the relation of a chunk to its blob.\<close>

fun blob_entries :: "nat \<Rightarrow> bytes list \<Rightarrow> (nat \<times> nat) list" where
  "blob_entries off [] = []"
| "blob_entries off (b # bs) = (off, length b) # blob_entries (off + length b) bs"

definition stored_as :: "codec \<Rightarrow> page_codec \<Rightarrow> bytes \<Rightarrow> bytes \<Rightarrow> bool" where
  "stored_as C pc chunk blob \<longleftrightarrow> length blob < U32_SIZE \<and> (\<exists>nonce. length nonce = 12 \<and> encode_page C nonce chunk pc = Inr blob)"

lemma length_blob_entries [simp]: "length (blob_entries off bs) = length bs"
  by (induction bs arbitrary: off) simp_all

lemma entries_bounds:
  assumes "(off', len) \<in> set (blob_entries off bs)" "\<And>b. b \<in> set bs \<Longrightarrow> length b < U32_SIZE"
  shows "off' \<le> off + length (concat bs) \<and> len < U32_SIZE"
  using assms by (induction bs arbitrary: off) fastforce+

lemma encode_chunks_stored:
  assumes "encode_chunks C pc nonces cs data dir = Inr (data', dir')" "\<And>i. length (nonces i) = 12"
  obtains blobs where "list_all2 (stored_as C pc) cs blobs" "data' = data @ concat blobs" "dir' = dir @ blob_entries (HEADER_LEN + length data) blobs"
  using assms(1)
proof (induction cs arbitrary: data dir thesis)
  case (Cons c cs)
  from Cons.prems(2) obtain blob where blob: "encode_page C (nonces (length dir)) c pc = Inr blob" "length blob < U32_SIZE"
    and rest: "encode_chunks C pc nonces cs (data @ blob) (dir @ [(HEADER_LEN + length data, length blob)]) = Inr (data', dir')"
    by (auto simp: bind_result_Inr_iff not_le split: if_splits)
  from Cons.IH [OF _ rest] obtain blobs where bs: "list_all2 (stored_as C pc) cs blobs" "data' = (data @ blob) @ concat blobs"
    "dir' = (dir @ [(HEADER_LEN + length data, length blob)]) @ blob_entries (HEADER_LEN + length (data @ blob)) blobs" .
  have "stored_as C pc c blob" using blob assms(2) by (auto simp: stored_as_def)
  then show ?case using bs by (intro Cons.prems(1) [of "blob # blobs"]) (simp_all add: add.assoc)
qed simp

lemma bslice_bslice: "k + m \<le> n \<Longrightarrow> bslice (off + k) m xs = bslice k m (bslice off n xs)"
  by (simp add: bslice_def drop_take take_take min_def add.commute)

lemma directory_roundtrip:
  assumes "\<And>off len. (off, len) \<in> set es \<Longrightarrow> off < U64_SIZE \<and> len < U32_SIZE" "length es * DIR_ENTRY_LEN < U64_SIZE"
  shows "decode_directory (encode_directory es) (length es) = Inr es"
proof -
  let ?b = "map (\<lambda>(offset, len). le_bytes 8 offset @ le_bytes 4 len) es"
  have len: "length x = 12" if "x \<in> set ?b" for x using that by auto
  have at: "(le_val (bslice (i * 12) 8 (concat ?b)), le_val (bslice (i * 12 + 8) 4 (concat ?b))) = es ! i" if i: "i < length es" for i
  proof -
    obtain off l where e: "es ! i = (off, l)" by fastforce
    then have "off < U64_SIZE" "l < U32_SIZE" using assms(1) i nth_mem by metis+
    moreover have "bslice (i * 12) 12 (concat ?b) = le_bytes 8 off @ le_bytes 4 l"
      using bslice_concat_equal [of ?b 12 i, OF len] i e by simp
    ultimately show ?thesis using bslice_bslice [of 0 8 12 "i * 12" "concat ?b"] bslice_bslice [of 8 4 12 "i * 12" "concat ?b"] e
      by (simp add: bytes_simps)
  qed
  have "map (\<lambda>i. (le_val (bslice (i * 12) 8 (concat ?b)), le_val (bslice (i * 12 + 8) 4 (concat ?b)))) [0..<length es] = es"
    by (rule nth_equalityI) (use at in simp_all)
  then show ?thesis using assms(2) length_concat_equal [of ?b 12, OF len]
    by (simp add: decode_directory_def encode_directory_def DIR_ENTRY_LEN_def checked_mul_def)
qed

lemma blobs_roundtrip:
  assumes "list_all2 (stored_as C pc) cs blobs" "codec_contract C" "\<And>c. c \<in> set cs \<Longrightarrow> length c \<le> ps" "ps + 1 < U64_SIZE"
    and "bytes = pre @ concat blobs @ rest" "HEADER_LEN \<le> length pre" "dir_off = length pre + length (concat blobs)" "dir_off < U64_SIZE"
  shows "if \<forall>c\<in>set cs. length c = ps then decode_blobs C pc bytes dir_off ps (blob_entries (length pre) blobs) img = Inr (img @ concat cs)
    else \<not> is_ok (decode_blobs C pc bytes dir_off ps (blob_entries (length pre) blobs) img)"
  using assms(1,3,5-)
proof (induction arbitrary: pre img rule: list_all2_induct)
  case (Cons c cs b bs)
  have len: "length c \<le> ps" using Cons.prems(1) by simp
  obtain nonce where "length nonce = 12" "encode_page C nonce c pc = Inr b" using Cons.hyps(1) by (auto simp: stored_as_def)
  note page = page_roundtrip [OF assms(2) this len assms(4)]
  have slice: "bslice (length pre) (length b) bytes = b" using Cons.prems(2) by (simp add: bslice_def)
  have rest: "if \<forall>c\<in>set cs. length c = ps then decode_blobs C pc bytes dir_off ps (blob_entries (length (pre @ b)) bs) (img @ c) = Inr ((img @ c) @ concat cs)
    else \<not> is_ok (decode_blobs C pc bytes dir_off ps (blob_entries (length (pre @ b)) bs) (img @ c))"
    by (rule Cons.IH) (use Cons.prems in simp_all)
  have room: "length pre + length b \<le> dir_off" using Cons.prems(4) by simp
  show ?case
  proof (cases "length c = ps")
    case True
    then have step: "decode_blobs C pc bytes dir_off ps (blob_entries (length pre) (b # bs)) img
        = decode_blobs C pc bytes dir_off ps (blob_entries (length (pre @ b)) bs) (img @ c)"
      using page room Cons.prems(3,5) slice by (simp add: checked_add_def)
    show ?thesis using rest True unfolding step by (auto split: if_splits)
  next
    case False
    then obtain e where "decode_page C b pc ps = Inl e" using page by (cases "decode_page C b pc ps") simp_all
    then show ?thesis using False room Cons.prems(3,5) slice by (simp add: checked_add_def)
  qed
qed simp

lemma chunks_full: "0 < n \<Longrightarrow> (\<forall>c\<in>set (chunks n xs). length c = n) \<longleftrightarrow> n dvd length xs"
proof (induction n xs rule: chunks.induct)
  case (1 n xs)
  show ?case
  proof (cases "xs = []")
    case False
    then have "(\<forall>c\<in>set (chunks n xs). length c = n) \<longleftrightarrow> n \<le> length xs \<and> n dvd length xs - n"
      using 1 by (auto simp: chunks_step min_def)
    also have "\<dots> \<longleftrightarrow> n dvd length xs" using False by (auto simp: dvd_minus_self dest: dvd_imp_le)
    finally show ?thesis .
  qed simp
qed

lemma stored_length:
  assumes "list_all2 (stored_as C pc) cs blobs"
  shows "length blobs \<le> length (concat blobs)" "b \<in> set blobs \<Longrightarrow> length b < U32_SIZE"
proof -
  have one: "1 \<le> length b \<and> length b < U32_SIZE" if "stored_as C pc c b" for c b
    using that by (auto simp: stored_as_def encode_page_def bind_result_Inr_iff)
  show "length blobs \<le> length (concat blobs)" using assms by (induction rule: list_all2_induct) (auto dest: one)
  show "b \<in> set blobs \<Longrightarrow> length b < U32_SIZE" using assms one by (auto simp: list_all2_conv_all_nth in_set_conv_nth)
qed

lemma length_directory [simp]: "length (encode_directory es) = length es * DIR_ENTRY_LEN"
  unfolding encode_directory_def by (subst length_concat_equal [where n = 12]) (auto simp: DIR_ENTRY_LEN_def)

text \<open>The parts of an encoded file.\<close>

lemma encode_file_parts:
  assumes "encode_file C pc nonces ps img = Inr bytes" "\<And>i. length (nonces i) = 12"
  obtains blobs h where "list_all2 (stored_as C pc) (chunks ps img) blobs" "0 < ps"
    "bytes = header_encode h @ concat blobs @ encode_directory (blob_entries HEADER_LEN blobs)"
    "h = \<lparr>hd_format_version = FORMAT_VERSION, hd_flags = header_flags pc, hd_page_size = ps,
           hd_page_count = length blobs, hd_directory_offset = HEADER_LEN + length (concat blobs)\<rparr>"
    "HEADER_LEN + length (concat blobs) + length blobs * DIR_ENTRY_LEN < U64_SIZE"
proof -
  have ps: "0 < ps" using assms(1) by (cases "ps = 0") (simp_all add: encode_file_def panic_def)
  then obtain data dir where e: "encode_chunks C pc nonces (chunks ps img) [] [] = Inr (data, dir)"
    using assms(1) by (cases "encode_chunks C pc nonces (chunks ps img) [] []") (auto simp: encode_file_def)
  define h where "h = \<lparr>hd_format_version = FORMAT_VERSION, hd_flags = header_flags pc, hd_page_size = ps,
       hd_page_count = length dir, hd_directory_offset = HEADER_LEN + length data\<rparr>"
  have run: "encode_file C pc nonces ps img =
      (if ISIZE_MAX < HEADER_LEN + length data + length dir * DIR_ENTRY_LEN then panic ''capacity overflow''
       else Inr (header_encode h @ data @ encode_directory dir))"
    using ps e by (simp add: encode_file_def h_def)
  have f: "HEADER_LEN + length data + length dir * DIR_ENTRY_LEN \<le> ISIZE_MAX"
    by (rule ccontr) (use run assms(1) in \<open>simp add: panic_def\<close>)
  then have bytes: "bytes = header_encode h @ data @ encode_directory dir"
    using run assms(1) unfolding not_less [symmetric] by simp
  obtain blobs where b: "list_all2 (stored_as C pc) (chunks ps img) blobs" "data = concat blobs" "dir = blob_entries HEADER_LEN blobs"
    by (rule encode_chunks_stored [OF e assms(2)]) simp_all
  have "HEADER_LEN + length (concat blobs) + length blobs * DIR_ENTRY_LEN < U64_SIZE"
    using f unfolding b(2,3) length_blob_entries ISIZE_MAX_def by simp
  then show thesis using that [OF b(1) ps, of h] bytes b(2,3) h_def by simp
qed

lemma file_roundtrip:
  assumes "codec_contract C" "\<And>i. length (nonces i) = 12" "MIN_PAGE_SIZE \<le> ps" "ps \<le> MAX_PAGE_SIZE" "encode_file C pc nonces ps img = Inr bytes"
  shows "if ps dvd length img then decode_file C pc bytes = Inr (img, ps) else \<not> is_ok (decode_file C pc bytes)"
proof -
  obtain blobs h where b: "list_all2 (stored_as C pc) (chunks ps img) blobs" "0 < ps"
    "bytes = header_encode h @ concat blobs @ encode_directory (blob_entries HEADER_LEN blobs)"
    and h: "h = \<lparr>hd_format_version = FORMAT_VERSION, hd_flags = header_flags pc, hd_page_size = ps,
           hd_page_count = length blobs, hd_directory_offset = HEADER_LEN + length (concat blobs)\<rparr>"
    and small: "HEADER_LEN + length (concat blobs) + length blobs * DIR_ENTRY_LEN < U64_SIZE"
    using encode_file_parts [OF assms(5,2)] by blast
  let ?off = "HEADER_LEN + length (concat blobs)" and ?dir = "blob_entries HEADER_LEN blobs"
  have off: "?off < U64_SIZE" using small by linarith
  have hdr: "header_decode bytes = Inr h" unfolding b(3)
    by (rule header_roundtrip) (use assms(3,4) small off stored_length(1) [OF b(1)] in \<open>simp_all add: h header_flags_def FLAG_ENCRYPTED_def\<close>)
  have len: "length bytes = ?off + length blobs * DIR_ENTRY_LEN" by (simp add: b(3))
  have cap: "length blobs \<le> length bytes div (1 + DIR_ENTRY_LEN)"
    using stored_length(1) [OF b(1)] by (simp add: len DIR_ENTRY_LEN_def less_eq_div_iff_mult_less_eq)
  have dir: "decode_directory (drop ?off bytes) (length blobs) = Inr ?dir"
  proof -
    have count: "length ?dir * DIR_ENTRY_LEN < U64_SIZE" unfolding length_blob_entries by (rule le_less_trans [OF _ small]) (rule le_add2)
    have "off < U64_SIZE \<and> len < U32_SIZE" if "(off, len) \<in> set ?dir" for off len
      using entries_bounds [OF that stored_length(2) [OF b(1)]] off by (auto intro: le_less_trans)
    then have "decode_directory (encode_directory ?dir) (length ?dir) = Inr ?dir" by (rule directory_roundtrip) (assumption, rule count)
    then show ?thesis by (simp add: b(3))
  qed
  have flag: "(hd_flags h mod 2 = FLAG_ENCRYPTED) \<longleftrightarrow> pc_key pc \<noteq> None" by (simp add: h header_flags_def FLAG_ENCRYPTED_def)
  have "decode_file C pc bytes = bind_result (decode_blobs C pc bytes ?off ps ?dir []) (\<lambda>img. Inr (img, ps))"
    using hdr flag len cap dir small by (cases "pc_key pc") (simp_all add: decode_file_def h checked_add_def Let_def)
  moreover have "if \<forall>c\<in>set (chunks ps img). length c = ps
    then decode_blobs C pc bytes ?off ps (blob_entries (length (header_encode h)) blobs) [] = Inr ([] @ concat (chunks ps img))
    else \<not> is_ok (decode_blobs C pc bytes ?off ps (blob_entries (length (header_encode h)) blobs) [])"
    by (rule blobs_roundtrip [OF b(1) assms(1) _ _ b(3)]) (use chunks_bounded [OF _ b(2)] assms(4) off in \<open>auto simp: MAX_PAGE_SIZE_def\<close>)
  then have "if ps dvd length img then decode_blobs C pc bytes ?off ps ?dir [] = Inr img else \<not> is_ok (decode_blobs C pc bytes ?off ps ?dir [])"
    unfolding length_header chunks_full [OF b(2)] concat_chunks [OF b(2)] append_Nil .
  ultimately show ?thesis by (cases "decode_blobs C pc bytes ?off ps ?dir []"; cases "ps dvd length img") simp_all
qed

subsection \<open>Syncs and crashes\<close>

text \<open>A sync of a changed database writes a file that opens with its image, unless the last chunk is short.\<close>

lemma persist_reopens:
  assumes "codec_contract C" "\<forall>i. length (nonces i) = 12" "MIN_PAGE_SIZE \<le> mh_page_size h" "mh_page_size h \<le> MAX_PAGE_SIZE" "mh_dirty h"
    and "persist C nonces fault (h, file) = (Inr (), h', file')"
  shows "\<exists>bytes. file' = Some bytes \<and> h' = h\<lparr>mh_dirty := False\<rparr>
    \<and> (if mh_page_size h dvd length (mh_image h)
       then main_open C (mh_codec h) ps False (Inr bytes) = Inr (opened (mh_codec h) (mh_image h, mh_page_size h))
       else \<not> is_ok (main_open C (mh_codec h) ps False (Inr bytes)))"
proof -
  obtain bytes where e: "encode_file C (mh_codec h) nonces (mh_page_size h) (mh_image h) = Inr bytes"
    using assms(5,6) by (cases "encode_file C (mh_codec h) nonces (mh_page_size h) (mh_image h)") (simp_all add: persist_def)
  then have f: "file' = Some bytes" "h' = h\<lparr>mh_dirty := False\<rparr>"
    using assms(5,6) by (cases fault; simp add: persist_def atomic_write_def)+
  note r = file_roundtrip [OF assms(1) _ assms(3,4) e]
  have ne: "bytes \<noteq> []"
  proof
    assume "bytes = []"
    moreover obtain blobs hd where "bytes = header_encode hd @ concat blobs @ encode_directory (blob_entries HEADER_LEN blobs)"
      by (rule encode_file_parts [OF e]) (use assms(2) in blast)+
    moreover have "length (header_encode hd) = HEADER_LEN" by simp
    ultimately show False by (simp add: HEADER_LEN_def)
  qed
  have dec: "main_open C (mh_codec h) ps False (Inr bytes) = bind_result (decode_file C (mh_codec h) bytes) (\<lambda>r. Inr (opened (mh_codec h) r))"
    using ne by (simp add: main_open_def)
  have "if mh_page_size h dvd length (mh_image h)
       then main_open C (mh_codec h) ps False (Inr bytes) = Inr (opened (mh_codec h) (mh_image h, mh_page_size h))
       else \<not> is_ok (main_open C (mh_codec h) ps False (Inr bytes))"
    using r assms(2) unfolding dec by (cases "decode_file C (mh_codec h) bytes") (simp_all split: if_splits)
  then show ?thesis using f by simp
qed

lemma decode_blobs_aligned: "decode_blobs C pc bytes dir_off ps dir img = Inr img' \<Longrightarrow> ps dvd length img \<Longrightarrow> ps dvd length img'"
proof (induction dir arbitrary: img)
  case (Cons e dir)
  obtain start len where e: "e = (start, len)" by fastforce
  obtain page where page: "decode_page C (bslice start len bytes) pc ps = Inr page" "decode_blobs C pc bytes dir_off ps dir (img @ page) = Inr img'"
    using Cons.prems(1) by (auto simp: e bind_result_Inr_iff split: option.splits if_splits)
  then have "length page = ps"
    by (auto simp: decode_page_def bind_result_Inr_iff split: list.splits if_splits)
  then show ?case using Cons.IH [OF page(2)] Cons.prems(2) by simp
qed simp

lemma opened_aligned:
  assumes "main_open C pc ps locked content = Inr h" "MIN_PAGE_SIZE \<le> ps" "ps \<le> MAX_PAGE_SIZE"
  shows "mh_codec h = pc \<and> \<not> mh_dirty h \<and> MIN_PAGE_SIZE \<le> mh_page_size h \<and> mh_page_size h \<le> MAX_PAGE_SIZE \<and> mh_page_size h dvd length (mh_image h)"
proof -
  consider "h = opened pc ([], ps)" | bytes r where "decode_file C pc bytes = Inr r" "h = opened pc r"
    using assms(1) by (auto simp: main_open_def bind_result_Inr_iff split: sum.splits if_splits io_error.splits)
  then show ?thesis
  proof cases
    case 2
    then obtain hd dir img where d: "header_decode bytes = Inr hd" "decode_blobs C pc bytes (hd_directory_offset hd) (hd_page_size hd) dir [] = Inr img"
      "r = (img, hd_page_size hd)"
      by (auto simp: decode_file_def bind_result_Inr_iff Let_def split: if_splits)
    then show ?thesis using decode_blobs_aligned [OF d(2)] 2(2)
      by (auto simp: opened_def header_decode_def Let_def split: if_splits)
  qed (use assms(2,3) in \<open>simp add: opened_def\<close>)
qed

text \<open>The calls SQLite makes on an open database, in any order.\<close>

datatype local_op = LWrite bytes nat | LSetLen nat | LSync "nat \<Rightarrow> bytes" "io_error option" | LLock lock_kind

fun local_step :: "codec \<Rightarrow> local_op \<Rightarrow> local_handle \<times> bytes option \<Rightarrow> unit io_result \<times> local_handle \<times> bytes option" where
  "local_step C (LWrite buf offset) (h, file) = (case local_write buf offset h of Inl e \<Rightarrow> (Inl e, h, file) | Inr h' \<Rightarrow> (Inr (), h', file))"
| "local_step C (LSetLen n) (h, file) = (Inr (), local_set_len n h, file)"
| "local_step C (LSync nonces fault) s = local_sync C nonces fault s"
| "local_step C (LLock l) (h, file) = (Inr (), local_lock l h, file)"

fun handle_image :: "local_handle \<Rightarrow> bytes" where
  "handle_image (MainFile m) = mh_image m"
| "handle_image (MemFile m) = me_buf m"

fun is_sync :: "local_op \<Rightarrow> bool" where
  "is_sync (LSync _ _) = True"
| "is_sync _ = False"

fun local_run :: "codec \<Rightarrow> local_op list \<Rightarrow> local_handle \<times> bytes option \<Rightarrow> local_handle \<times> bytes option" where
  "local_run C [] s = s"
| "local_run C (op # ops) s = local_run C ops (snd (local_step C op s))"

text \<open>The image at the last sync that returned successfully.\<close>

fun last_synced :: "codec \<Rightarrow> local_op list \<Rightarrow> local_handle \<times> bytes option \<Rightarrow> bytes \<Rightarrow> bytes" where
  "last_synced C [] s img = img"
| "last_synced C (op # ops) s img =
     (case local_step C op s of (r, s') \<Rightarrow> last_synced C ops s' (if is_sync op \<and> is_ok r then handle_image (fst s') else img))"

fun aligned_op :: "nat \<Rightarrow> local_op \<Rightarrow> bool" where
  "aligned_op ps (LWrite buf offset) = (ps dvd offset + length buf)"
| "aligned_op ps (LSetLen n) = (ps dvd n)"
| "aligned_op ps (LSync nonces _) = (\<forall>i. length (nonces i) = 12)"
| "aligned_op ps (LLock _) = True"

definition read_file :: "bytes option \<Rightarrow> bytes io_result" where
  "read_file file = (case file of None \<Rightarrow> Inl (Io NotFound ''No such file or directory'') | Some b \<Rightarrow> Inr b)"

text \<open>What holds between calls when \<open>dur\<close> is the image of the last sync.\<close>

definition sync_inv :: "codec \<Rightarrow> page_codec \<Rightarrow> nat \<Rightarrow> nat \<Rightarrow> bytes \<Rightarrow> local_handle \<times> bytes option \<Rightarrow> bool" where
  "sync_inv C pc ps psz dur s \<longleftrightarrow>
     (\<exists>m. fst s = MainFile m \<and> mh_codec m = pc \<and> mh_page_size m = psz \<and> psz dvd length (mh_image m)
       \<and> (\<not> mh_dirty m \<longrightarrow> mh_image m = dur) \<and> main_open C pc ps False (read_file (snd s)) = Inr (opened pc (dur, psz)))"

lemma length_image_write:
  assumes "image_write img buf offset = Inr img'"
  shows "length img' = max (length img) (offset + length buf)"
  using assms by (auto simp: image_write_def resize_def Let_def panic_def split: if_splits)

lemma sync_inv_step:
  assumes "codec_contract C" "MIN_PAGE_SIZE \<le> psz" "psz \<le> MAX_PAGE_SIZE" "sync_inv C pc ps psz dur (h, file)" "aligned_op psz op"
    and "local_step C op (h, file) = (r, s')"
  shows "sync_inv C pc ps psz (if is_sync op \<and> is_ok r then handle_image (fst s') else dur) s'"
proof -
  obtain m where m: "h = MainFile m" "mh_codec m = pc" "mh_page_size m = psz" "psz dvd length (mh_image m)"
    "\<not> mh_dirty m \<longrightarrow> mh_image m = dur" "main_open C pc ps False (read_file file) = Inr (opened pc (dur, psz))"
    using assms(4) by (auto simp: sync_inv_def)
  show ?thesis
  proof (cases op)
    case (LWrite buf offset)
    have "psz dvd length img" if "image_write (mh_image m) buf offset = Inr img" for img
      using length_image_write [OF that] m(4) assms(5) LWrite by (simp add: max_def)
    then show ?thesis using assms(6) m LWrite
      by (cases "image_write (mh_image m) buf offset") (auto simp: sync_inv_def local_write_def)
  next
    case (LSetLen n)
    then have "length (resize n (mh_image m)) = n" by (simp add: resize_def)
    then show ?thesis using LSetLen assms(5,6) m by (auto simp: sync_inv_def local_set_len_def)
  next
    case (LSync nonces fault)
    obtain r' m' file' where p: "persist C nonces fault (m, file) = (r', m', file')" by (metis prod_cases3)
    then have s': "r = r'" "s' = (MainFile m', file')" using assms(6) LSync m(1) by (simp_all add: local_sync_def)
    show ?thesis
    proof (cases "mh_dirty m \<and> is_ok r'")
      case True
      then have "r' = Inr ()" by (cases r') simp_all
      then have "persist C nonces fault (m, file) = (Inr (), m', file')" using p by simp
      from persist_reopens [OF assms(1) _ _ _ _ this, of ps] show ?thesis
        using assms(2,3,5) LSync m True s' p by (auto simp: sync_inv_def read_file_def)
    next
      case False
      then show ?thesis using p LSync m s'
        by (cases "mh_dirty m") (auto simp: sync_inv_def persist_def atomic_write_def split: sum.splits option.splits)
    qed
  next
    case (LLock l)
    then show ?thesis using assms(6) m by (auto simp: sync_inv_def local_lock_def)
  qed
qed

lemma sync_inv_run:
  assumes "codec_contract C" "MIN_PAGE_SIZE \<le> psz" "psz \<le> MAX_PAGE_SIZE" "sync_inv C pc ps psz dur s" "\<forall>op\<in>set ops. aligned_op psz op"
  shows "sync_inv C pc ps psz (last_synced C ops s dur) (local_run C ops s)"
  using assms(4,5)
proof (induction ops arbitrary: s dur)
  case (Cons op ops)
  obtain r s' where st: "local_step C op s = (r, s')" by (cases "local_step C op s")
  have "sync_inv C pc ps psz (if is_sync op \<and> is_ok r then handle_image (fst s') else dur) s'"
    using sync_inv_step [OF assms(1-3), of pc ps dur "fst s" "snd s" op r s'] Cons.prems st by simp
  from Cons.IH [OF this] show ?case using Cons.prems(2) st by simp
qed simp

text \<open>
  C26: A successful sync of a changed database leaves a file that opens with the same image and page size,
  with or without encryption, compressed or raw, exactly when the page size divides the length of the
  image; otherwise the sync succeeds and the file it has written is refused by every later open.
\<close>

theorem synced_file_reopens:
  assumes "codec_contract C" "\<forall>i. length (nonces i) = 12" "MIN_PAGE_SIZE \<le> mh_page_size h" "mh_page_size h \<le> MAX_PAGE_SIZE" "mh_dirty h"
    and "persist C nonces fault (h, file) = (Inr (), h', file')"
  shows "\<exists>bytes. file' = Some bytes \<and> h' = h\<lparr>mh_dirty := False\<rparr>
    \<and> (if mh_page_size h dvd length (mh_image h)
       then main_open C (mh_codec h) ps False (Inr bytes) = Inr (opened (mh_codec h) (mh_image h, mh_page_size h))
       else \<not> is_ok (main_open C (mh_codec h) ps False (Inr bytes)))"
  by (rule persist_reopens [OF assms(1) _ assms(3-6)]) (use assms(2) in blast)

text \<open>
  C9: A crash loses only what was not synced. Open a database file, or a new one, and let SQLite write, resize,
  lock and sync it in any order, with write errors striking any sync, the writes and sizes being whole
  pages. Whatever moment the process dies, opening the file again succeeds and gives exactly the image of
  the last sync that returned successfully, or the image first opened if there was none.
\<close>

theorem crash_keeps_last_sync:
  assumes "codec_contract C" "MIN_PAGE_SIZE \<le> ps" "ps \<le> MAX_PAGE_SIZE" "main_open C pc ps False (read_file file) = Inr h"
    and "\<forall>op\<in>set ops. aligned_op (mh_page_size h) op"
  shows "main_open C pc ps False (read_file (snd (local_run C ops (MainFile h, file))))
    = Inr (opened pc (last_synced C ops (MainFile h, file) (mh_image h), mh_page_size h))"
proof -
  note o = opened_aligned [OF assms(4,2,3)]
  have "h = opened pc (mh_image h, mh_page_size h)"
    using assms(4) by (auto simp: main_open_def bind_result_Inr_iff opened_def split: if_splits)
  then have "sync_inv C pc ps (mh_page_size h) (mh_image h) (MainFile h, file)" using o assms(4) by (simp add: sync_inv_def)
  from sync_inv_run [OF assms(1) _ _ this assms(5)] o show ?thesis by (auto simp: sync_inv_def)
qed

text \<open>An unencrypted database of one raw page.\<close>

definition raw_pages :: page_codec where "raw_pages = \<lparr>pc_compress = False, pc_key = None\<rparr>"

definition page_a :: bytes where "page_a = replicate 512 1"

definition zero_nonces :: "nat \<Rightarrow> bytes" where "zero_nonces _ = zeros 12"

definition dirty_db :: main_handle where
  "dirty_db = \<lparr>mh_codec = raw_pages, mh_page_size = 512, mh_image = page_a, mh_dirty = True, mh_lock = NoLock\<rparr>"

definition page_a_file :: bytes where
  "page_a_file = header_encode \<lparr>hd_format_version = FORMAT_VERSION, hd_flags = 0, hd_page_size = 512, hd_page_count = 1, hd_directory_offset = 577\<rparr>
     @ (CODEC_RAW # page_a) @ encode_directory [(64, 513)]"

lemma length_page_a: "length page_a = 512"
  by (simp add: page_a_def)

lemma page_a_encoded: "encode_file C raw_pages zero_nonces 512 page_a = Inr page_a_file"
proof -
  note len = length_page_a
  then have "chunks 512 page_a = [page_a]" using chunks_append [of page_a 512 "[]"] by simp
  then show ?thesis using len
    by (simp add: encode_file_def encode_page_def compress_page_def maybe_encrypt_def raw_pages_def header_flags_def page_a_file_def
        HEADER_LEN_def DIR_ENTRY_LEN_def ISIZE_MAX_def)
qed

theorem synced_file_reopens_witness:
  "main_open plain_codec raw_pages 4096 False (Inr page_a_file) = Inr (opened raw_pages (page_a, 512))"
  using synced_file_reopens [of plain_codec zero_nonces dirty_db None None "dirty_db\<lparr>mh_dirty := False\<rparr>" "Some page_a_file" 4096]
  by (simp add: plain_codec_contract zero_nonces_def dirty_db_def MIN_PAGE_SIZE_def MAX_PAGE_SIZE_def persist_def page_a_encoded
      atomic_write_def length_page_a)

theorem crash_keeps_last_sync_witness:
  "main_open plain_codec raw_pages 512 False
     (read_file (snd (local_run plain_codec [LWrite page_a 0, LSync zero_nonces None, LSetLen 0, LSync zero_nonces (Some (Io Other []))]
        (MainFile (opened raw_pages ([], 512)), None))))
   = Inr (opened raw_pages (page_a, 512))"
proof -
  let ?ops = "[LWrite page_a 0, LSync zero_nonces None, LSetLen 0, LSync zero_nonces (Some (Io Other []))]"
  have img: "image_write [] page_a 0 = Inr page_a" by (simp add: image_write_def resize_def Let_def page_a_def)
  have empty: "encode_file plain_codec raw_pages zero_nonces 512 [] = Inr b" if "b = header_encode \<lparr>hd_format_version = FORMAT_VERSION, hd_flags = 0, hd_page_size = 512, hd_page_count = 0, hd_directory_offset = 64\<rparr>" for b
    using that by (simp add: encode_file_def raw_pages_def header_flags_def HEADER_LEN_def ISIZE_MAX_def encode_directory_def)
  have "last_synced plain_codec ?ops (MainFile (opened raw_pages ([], 512)), None) [] = page_a"
    by (simp add: local_write_def img opened_def local_sync_def persist_def page_a_encoded atomic_write_def local_set_len_def empty resize_def zeros_def)
  moreover have "main_open plain_codec raw_pages 512 False (read_file None) = Inr (opened raw_pages ([], 512))"
    by (simp add: main_open_def read_file_def)
  moreover have "\<forall>op\<in>set ?ops. aligned_op (mh_page_size (opened raw_pages ([], 512))) op"
    by (simp add: opened_def page_a_def zero_nonces_def)
  ultimately show ?thesis
    using crash_keeps_last_sync [of plain_codec 512 raw_pages None "opened raw_pages ([], 512)" ?ops]
    by (simp add: plain_codec_contract MIN_PAGE_SIZE_def MAX_PAGE_SIZE_def opened_def)
qed

end
