(* ===== verification/Cache_Batch.thy ===== *)
theory Cache_Batch
  imports Cache_View
begin

text \<open>
  What a reader sees after a batch write: \<open>write_pages_scattered\<close> of \<open>src/src/tiered/disk_cache.rs\<close>,
  the way a fetched group or frame enters the cache, shows exactly the pages of the batch and leaves every
  other page as it was, in the plain, encrypted and compressed layouts.
\<close>

subsection \<open>Slots\<close>

lemma write_in_file:
  assumes "no_faults (dc_disk dc)" "dc_file_len dc = length (dk_file (dc_disk dc))" "off + length data \<le> length (dk_file (dc_disk dc))"
  shows "\<exists>dc'. on_disk (write_all_at off data) dc = (Inr (), dc') \<and> wrote off data dc dc' \<and> length (dk_file (dc_disk dc')) = length (dk_file (dc_disk dc))"
  using assms by (auto simp: on_disk_def write_all_at_ok wrote_def length_pwrite)

text \<open>The state the frames are written into, and what must be kept while they are.\<close>

definition slots_ready :: "nat list \<Rightarrow> disk_cache \<Rightarrow> bool" where
  "slots_ready ps dc \<longleftrightarrow> no_faults (dc_disk dc) \<and> dc_file_len dc = length (dk_file (dc_disk dc)) \<and> \<not> dc_compression dc \<and> 0 < dc_page_size dc
     \<and> (\<forall>p \<in> set ps. slot_fits dc p \<and> (p + 1) * slot_stride dc \<le> length (dk_file (dc_disk dc)))"

definition same_but_file :: "disk_cache \<Rightarrow> disk_cache \<Rightarrow> bool" where
  "same_but_file dc' dc \<longleftrightarrow> no_faults (dc_disk dc') \<and> dc_file_len dc' = length (dk_file (dc_disk dc'))
     \<and> dc_page_size dc' = dc_page_size dc \<and> dc_compression dc' = dc_compression dc \<and> dc_key dc' = dc_key dc
     \<and> dc_index dc' = dc_index dc \<and> dc_tainted dc' = dc_tainted dc \<and> dc_bitmap dc' = dc_bitmap dc \<and> dc_mem dc' = dc_mem dc"

lemma write_frames_stored:
  assumes "cache_codec C" "\<And>k. length (nonces k) = 12" "slots_ready (map fst pds) dc" "distinct (map fst pds)"
    and "\<forall>(p, d) \<in> set pds. length d = dc_page_size dc" "write_frames C nonces i pds dc = (Inr (), dc')"
  shows "same_but_file dc' dc" "(p, d) \<in> set pds \<Longrightarrow> stored C dc' p d" "q \<notin> fst ` set pds \<Longrightarrow> stored C dc q e \<Longrightarrow> stored C dc' q e"
proof -
  have "same_but_file dc' dc \<and> (\<forall>(p, d) \<in> set pds. stored C dc' p d) \<and> (\<forall>q e. q \<notin> fst ` set pds \<longrightarrow> stored C dc q e \<longrightarrow> stored C dc' q e)"
    using assms(3-)
  proof (induction pds arbitrary: i dc)
    case Nil
    then show ?case by (simp add: same_but_file_def slots_ready_def)
  next
    case (Cons pd pds)
    obtain p d where pd: "pd = (p, d)" by fastforce
    obtain frame where f: "page_frame C (dc_key dc) (nonces i) d = Inr frame"
      using Cons.prems(4) pd by (cases "page_frame C (dc_key dc) (nonces i) d") simp_all
    have len: "length d = dc_page_size dc" using Cons.prems(3) pd by simp
    note fo = frame_opens [OF assms(1) f assms(2)]
    have fl: "length frame = slot_stride dc" using fo(2) len by (simp add: slot_stride_def)
    have r: "no_faults (dc_disk dc)" "dc_file_len dc = length (dk_file (dc_disk dc))" "\<not> dc_compression dc" "0 < dc_page_size dc"
      "slot_fits dc p" "(p + 1) * slot_stride dc \<le> length (dk_file (dc_disk dc))"
      using Cons.prems(1) pd by (simp_all add: slots_ready_def)
    have ne: "frame \<noteq> []" using fl r(4) by (auto simp: slot_stride_def stride_for_def split: option.splits)
    have off: "slot_offset dc p = p * slot_stride dc" using r(5) by (simp add: slot_fits_def slot_offset_def)
    obtain d1 where d1: "on_disk (write_all_at (p * slot_stride dc) frame) dc = (Inr (), d1)" "wrote (p * slot_stride dc) frame dc d1"
      "length (dk_file (dc_disk d1)) = length (dk_file (dc_disk dc))"
      using write_in_file [OF r(1,2), of "p * slot_stride dc" frame] r(6) fl by (auto simp: add.commute)
    have rest: "write_frames C nonces (i + 1) pds d1 = (Inr (), dc')" using Cons.prems(4) f off d1(1) by (simp add: pd)
    have same: "dc_page_size d1 = dc_page_size dc" "slot_stride d1 = slot_stride dc" "\<And>q. slot_fits d1 q = slot_fits dc q"
      using d1(2) by (simp_all add: wrote_def slot_stride_def slot_fits_def)
    have "slots_ready (map fst pds) d1"
      using Cons.prems(1) d1(2,3) same by (simp add: slots_ready_def wrote_def)
    then have ih: "same_but_file dc' d1" "\<forall>(p, d) \<in> set pds. stored C dc' p d" "\<And>q e. q \<notin> fst ` set pds \<Longrightarrow> stored C d1 q e \<Longrightarrow> stored C dc' q e"
      using Cons.IH [OF _ _ _ rest] Cons.prems(2,3) same(1) by (auto simp: pd)
    note st = wrote_slot_stored [OF d1(2) r(3) fl ne fo(1) len r(5)]
    have "p \<notin> fst ` set pds" using Cons.prems(2) pd by simp
    then have "stored C dc' p d" using ih(3) st(1) by blast
    moreover have "stored C dc' q e" if "q \<notin> fst ` set (pd # pds)" "stored C dc q e" for q e
      using that ih(3) st(2) by (simp add: pd)
    moreover have "same_but_file dc' dc" using ih(1) d1(2) by (simp add: same_but_file_def wrote_def)
    ultimately show ?case using ih(2) by (auto simp: pd)
  qed
  then show "same_but_file dc' dc" "(p, d) \<in> set pds \<Longrightarrow> stored C dc' p d" "q \<notin> fst ` set pds \<Longrightarrow> stored C dc q e \<Longrightarrow> stored C dc' q e"
    by blast+
qed

subsection \<open>Memory pages and presence\<close>

lemma install_pages_same [simp]: "same_store (install_pages pds dc) dc"
proof (induction pds arbitrary: dc)
  case (Cons pd pds)
  have "same_store (install_pages (pd # pds) dc) (install_mem_cache_page (fst pd) (snd pd) dc)"
    using Cons [of "install_mem_cache_page (fst pd) (snd pd) dc"] by (simp add: install_pages_def case_prod_beta)
  then show ?case using same_store_trans install_same_store by blast
qed (simp add: install_pages_def)

lemma mem_hit_install_pages:
  assumes "0 < dc_page_size dc" "distinct (map fst pds)" "\<forall>(p, d) \<in> set pds. length d = dc_page_size dc" "mem_hit q (install_pages pds dc) = Some page"
  shows "(q, page) \<in> set pds \<or> q \<notin> fst ` set pds \<and> mem_hit q dc = Some page"
  using assms
proof (induction pds arbitrary: dc)
  case (Cons pd pds)
  obtain p d where pd: "pd = (p, d)" by fastforce
  let ?d = "install_mem_cache_page p d dc"
  have ps: "dc_page_size ?d = dc_page_size dc" using install_same_store [of p d dc] by (simp add: same_store_def)
  have "mem_hit q (install_pages pds ?d) = Some page" using Cons.prems(4) by (simp add: install_pages_def pd)
  then have "(q, page) \<in> set pds \<or> q \<notin> fst ` set pds \<and> mem_hit q ?d = Some page"
    using Cons.IH [of ?d] Cons.prems(1-3) ps by (simp add: pd)
  moreover have "length d = dc_page_size dc" using Cons.prems(3) pd by simp
  ultimately show ?case using mem_hit_install [OF Cons.prems(1), of d q p] Cons.prems(2) by (auto simp: pd split: if_splits)
qed (simp add: install_pages_def)

lemma marks_fields [simp]:
  "dc_disk (bitmap_marks ps dc) = dc_disk dc" "dc_file_len (bitmap_marks ps dc) = dc_file_len dc"
  "dc_page_size (bitmap_marks ps dc) = dc_page_size dc" "dc_compression (bitmap_marks ps dc) = dc_compression dc"
  "dc_key (bitmap_marks ps dc) = dc_key dc" "dc_index (bitmap_marks ps dc) = dc_index dc" "dc_tainted (bitmap_marks ps dc) = dc_tainted dc"
  "mem_hit q (bitmap_marks ps dc) = mem_hit q dc" "dc_tracker (bitmap_marks ps dc) = dc_tracker dc"
  by (simp_all add: bitmap_marks_def mem_hit_def)

lemma present_bitmap_marks:
  assumes "dc_bitmap dc = ensure_capacity b (Max (set ps))"
  shows "is_present (dc_bitmap (bitmap_marks ps dc)) q \<longleftrightarrow> is_present b q \<or> q \<in> set ps"
proof -
  have "q < bit_capacity (ensure_capacity b (Max (set ps)))" if "q \<in> set ps"
  proof -
    have "q \<le> Max (set ps)" using that by simp
    then have "q div 8 \<le> Max (set ps) div 8" by (rule div_le_mono)
    then show ?thesis by (simp add: less_capacity ensure_capacity_def resize_with_def)
  qed
  moreover have "is_present (ensure_capacity b (Max (set ps))) q = is_present b q"
    using pages_of_resize_with [of b] by (auto simp: ensure_capacity_def pages_of_def)
  ultimately show ?thesis using assms by (auto simp: bitmap_marks_def bitmap.present_marks)
qed

subsection \<open>Blobs\<close>

lemma insert_at_end: "index_insert_at p (ci_next_offset ix) n ix = snd (index_insert p n ix)"
  by (simp add: index_insert_at_def index_insert_def Let_def)

lemma index_blobs_entries:
  assumes "length ps = length bs" "distinct ps" "\<forall>b \<in> set bs. length b < U32_SIZE" "index_ok ix"
  shows "index_ok (index_blobs (zip ps bs) (ci_next_offset ix) ix)"
    "i < length ps \<Longrightarrow> ci_entries (index_blobs (zip ps bs) (ci_next_offset ix) ix) (ps ! i)
       = Some \<lparr>ce_offset = ci_next_offset ix + length (concat (take i bs)), ce_len = length (bs ! i)\<rparr>"
    "q \<notin> set ps \<Longrightarrow> ci_entries (index_blobs (zip ps bs) (ci_next_offset ix) ix) q = ci_entries ix q"
proof -
  have "index_ok (index_blobs (zip ps bs) (ci_next_offset ix) ix)
    \<and> (\<forall>i < length ps. ci_entries (index_blobs (zip ps bs) (ci_next_offset ix) ix) (ps ! i)
       = Some \<lparr>ce_offset = ci_next_offset ix + length (concat (take i bs)), ce_len = length (bs ! i)\<rparr>)
    \<and> (\<forall>q. q \<notin> set ps \<longrightarrow> ci_entries (index_blobs (zip ps bs) (ci_next_offset ix) ix) q = ci_entries ix q)"
    using assms
  proof (induction ps bs arbitrary: ix rule: list_induct2)
    case (Cons p ps b bs)
    let ?ix = "snd (index_insert p (length b) ix)"
    have ix: "ci_next_offset ?ix = ci_next_offset ix + length b"
      "ci_entries ?ix = (ci_entries ix)(p \<mapsto> \<lparr>ce_offset = ci_next_offset ix, ce_len = length b\<rparr>)"
      by (simp_all add: index_insert_def Let_def)
    have run: "index_blobs (zip (p # ps) (b # bs)) (ci_next_offset ix) ix = index_blobs (zip ps bs) (ci_next_offset ?ix) ?ix"
      using Cons.prems(2) by (simp add: insert_at_end ix(1))
    note ih = Cons.IH [OF _ _ index_insert_ok(1) [OF Cons.prems(3)], of p "length b"]
    show ?case unfolding run using ih Cons.prems(1,2)
      by (auto simp: ix nth_Cons add.assoc split: nat.splits)
  qed simp
  then show "index_ok (index_blobs (zip ps bs) (ci_next_offset ix) ix)"
    "i < length ps \<Longrightarrow> ci_entries (index_blobs (zip ps bs) (ci_next_offset ix) ix) (ps ! i)
       = Some \<lparr>ce_offset = ci_next_offset ix + length (concat (take i bs)), ce_len = length (bs ! i)\<rparr>"
    "q \<notin> set ps \<Longrightarrow> ci_entries (index_blobs (zip ps bs) (ci_next_offset ix) ix) q = ci_entries ix q"
    by blast+
qed

lemma collect_results_nth:
  assumes "collect_results rs = Inr xs"
  shows "length xs = length rs \<and> (\<forall>i < length rs. rs ! i = Inr (xs ! i))"
  using assms
proof (induction rs arbitrary: xs)
  case (Cons r rs)
  then obtain x ys where "r = Inr x" "collect_results rs = Inr ys" "xs = x # ys" by (auto simp: bind_result_Inr_iff)
  then show ?case using Cons.IH by (auto simp: nth_Cons split: nat.splits)
qed simp

lemma slice_of_concat: "i < length bs \<Longrightarrow> bslice (length (concat (take i bs))) (length (bs ! i)) (concat bs) = bs ! i"
proof (induction bs arbitrary: i)
  case (Cons b bs)
  then show ?case by (cases i) (simp_all add: bslice_def)
qed simp

lemma pwrite_part: "k + n \<le> length data \<Longrightarrow> bslice (off + k) n (pwrite off data file) = bslice k n data"
proof -
  assume "k + n \<le> length data"
  then have "bslice (off + k) n (pwrite off data file) = bslice k n (bslice off (length data) (pwrite off data file))"
    by (simp add: bslice_def drop_take take_take min_def add.commute)
  then show ?thesis by (simp add: pwrite_same)
qed

lemma concat_take_le: "i < length bs \<Longrightarrow> length (concat (take i bs)) + length (bs ! i) \<le> length (concat bs)"
proof (induction bs arbitrary: i)
  case (Cons b bs)
  then show ?case by (cases i) simp_all
qed simp

text \<open>The pages of a batch, as a map.\<close>

definition batch :: "nat \<Rightarrow> nat list \<Rightarrow> bytes \<Rightarrow> nat \<rightharpoonup> bytes" where
  "batch n ps data = map_of (zip ps (map (page_slice n data) [0..<length ps]))"

lemma batch_iff:
  assumes "distinct ps"
  shows "batch n ps data q = Some d \<longleftrightarrow> (\<exists>k < length ps. q = ps ! k \<and> d = page_slice n data k)"
proof
  assume "batch n ps data q = Some d"
  then have "(q, d) \<in> set (zip ps (map (page_slice n data) [0..<length ps]))" unfolding batch_def by (rule map_of_SomeD)
  then show "\<exists>k < length ps. q = ps ! k \<and> d = page_slice n data k" by (auto simp: set_zip)
next
  assume "\<exists>k < length ps. q = ps ! k \<and> d = page_slice n data k"
  then show "batch n ps data q = Some d"
    using map_of_zip_nth [of ps "map (page_slice n data) [0..<length ps]"] assms by (auto simp: batch_def)
qed

lemma batch_dom: "batch n ps data q \<noteq> None \<longleftrightarrow> q \<in> set ps"
  by (simp add: batch_def)

text \<open>The whole batch is appended in one write.\<close>

lemma append_blobs_stored:
  assumes "cache_codec C" "\<And>k. length (nonces k) = 12" "cache_inv C dc" "no_faults (dc_disk dc)" "dc_compression dc" "ps \<noteq> []" "distinct ps"
    and "\<forall>i < length ps. length (page_slice (dc_page_size dc) data i) = dc_page_size dc"
    and "append_blobs C nonces ps (Max (set ps)) data (dc_page_size dc) dc = (Inr (), dc')"
  shows "cache_inv C dc' \<and> cache_view C dc' = cache_view C dc ++ batch (dc_page_size dc) ps data \<and> no_faults (dc_disk dc')"
proof -
  let ?ps = "dc_page_size dc" and ?off = "ci_next_offset (dc_index dc)"
  have i: "0 < ?ps" "?ps \<le> 65536" "\<not> dc_tainted dc" "dc_file_len dc = length (dk_file (dc_disk dc))" "index_ok (dc_index dc)"
    using assms(3) by (simp_all add: cache_inv_def)
  obtain bs where col: "collect_results (map (\<lambda>i. compressed_blob C (dc_key dc) (nonces i) (page_slice ?ps data i)) [0..<length ps]) = Inr bs"
    using assms(9) unfolding append_blobs_def
    by (cases "collect_results (map (\<lambda>i. compressed_blob C (dc_key dc) (nonces i) (page_slice ?ps data i)) [0..<length ps])") simp_all
  have bs: "length bs = length ps" "\<And>k. k < length ps \<Longrightarrow> compressed_blob C (dc_key dc) (nonces k) (page_slice ?ps data k) = Inr (bs ! k)"
    using collect_results_nth [OF col] by auto
  have blob: "open_blob C (dc_key dc) ?ps (bs ! k) = Inr (page_slice ?ps data k)" "length (bs ! k) < U32_SIZE" "bs ! k \<noteq> []" if "k < length ps" for k
    using blob_opens [OF assms(1) bs(2) [OF that] assms(2) _ i(2)] assms(8) that by blast+
  have small: "\<forall>b \<in> set bs. length b < U32_SIZE" using blob(2) bs(1) by (auto simp: in_set_conv_nth)
  have ne: "concat bs \<noteq> []" using blob(3) [of 0] bs(1) assms(6) by (cases bs) auto
  note ix = index_blobs_entries [OF bs(1) [symmetric] assms(7) small i(5)]
  let ?ix = "index_blobs (zip ps bs) ?off (dc_index dc)"
  let ?mid = "bitmap_ensure (Max (set ps)) (dc\<lparr>dc_index := ?ix\<rparr>)"
  obtain d1 where d1: "and_then (ensure_file_len (?off + length (concat bs)) ?mid) (\<lambda>_ dc. on_disk (write_all_at ?off (concat bs)) dc) = (Inr (), d1)"
    "wrote ?off (concat bs) ?mid d1"
    using ensure_then_write [of ?mid "concat bs" ?off] assms(4) i(4) ne by auto
  note w = wrote_facts [OF d1(2)]
  have dc': "dc' = bitmap_marks ps d1"
  proof -
    have "append_blobs C nonces ps (Max (set ps)) data ?ps dc
      = and_then (and_then (ensure_file_len (?off + length (concat bs)) ?mid) (\<lambda>_ dc. on_disk (write_all_at ?off (concat bs)) dc)) (\<lambda>_ dc. (Inr (), bitmap_marks ps dc))"
      unfolding append_blobs_def col by (simp add: Let_def and_then_assoc)
    then show ?thesis using assms(9) d1(1) by simp
  qed
  have fields: "dc_page_size dc' = ?ps" "dc_compression dc'" "dc_tainted dc' = dc_tainted dc" "dc_index dc' = ?ix" "dc_disk dc' = dc_disk d1" "dc_key dc' = dc_key dc"
    "dc_file_len dc' = length (dk_file (dc_disk dc'))"
    using w assms(5) by (simp_all add: dc')
  have bm: "is_present (dc_bitmap dc') q \<longleftrightarrow> is_present (dc_bitmap dc) q \<or> q \<in> set ps" for q
    unfolding dc' by (rule present_bitmap_marks) (use d1(2) in \<open>simp add: wrote_def bitmap_ensure_def\<close>)
  have fl: "dk_file (dc_disk dc') = pwrite ?off (concat bs) (dk_file (dc_disk dc))" using d1(2) fields(5) by (simp add: wrote_def)
  have new: "stored C dc' (ps ! k) (page_slice ?ps data k)" "entry_end \<lparr>ce_offset = ?off + length (concat (take k bs)), ce_len = length (bs ! k)\<rparr> \<le> length (dk_file (dc_disk dc'))"
    if k: "k < length ps" for k
  proof -
    let ?e = "\<lparr>ce_offset = ?off + length (concat (take k bs)), ce_len = length (bs ! k)\<rparr>"
    have le: "length (concat (take k bs)) + length (bs ! k) \<le> length (concat bs)" using concat_take_le [of k bs] k bs(1) by simp
    have "blob_of ?e (dc_disk dc') = bs ! k"
      using pwrite_part [OF le] slice_of_concat [of k bs] k bs(1) by (simp add: blob_of_def fl)
    moreover show "entry_end ?e \<le> length (dk_file (dc_disk dc'))" 
    proof -
      have "length (dk_file (dc_disk dc')) = max (length (dk_file (dc_disk dc))) (?off + length (concat bs))"
        using ne by (simp only: fl length_pwrite if_False)
      then show ?thesis using le by (simp add: entry_end_def)
    qed
    ultimately show "stored C dc' (ps ! k) (page_slice ?ps data k)"
      using fields ix(2) [OF k] blob(1) [OF k] assms(8) k by (simp add: stored_def)
  qed
  have old: "entry_end e \<le> length (dk_file (dc_disk dc'))" "blob_of e (dc_disk dc') = blob_of e (dc_disk dc)" if "ci_entries (dc_index dc) q = Some e" for q e
    using wrote_keeps_blob [OF d1(2), of e] i(5) assms(3,5) that fields(5) by (simp_all add: index_ok_def cache_inv_def index_in_file_def)
  let ?new = "batch ?ps ps data"
  note new_iff = batch_iff [OF assms(7), of "dc_page_size dc" data] batch_dom [of "dc_page_size dc" ps data]
  have "cache_inv C dc' \<and> cache_view C dc' = cache_view C dc ++ ?new"
  proof (rule establish_view)
    show "dc_is_present q dc' \<longleftrightarrow> (cache_view C dc ++ ?new) q \<noteq> None" for q
    proof (cases "q \<in> set ps")
      case True
      then obtain k where "k < length ps" "q = ps ! k" by (auto simp: in_set_conv_nth)
      then have "q \<in> dom (ci_entries ?ix)" using ix(2) by auto
      then have "dc_is_present q dc'" using True bm [of q] fields by (simp add: dc_is_present_def index_contains_def)
      moreover obtain d where "?new q = Some d" using new_iff(2) [of q] True by blast
      ultimately show ?thesis by simp
    next
      case False
      then have "dc_is_present q dc' = dc_is_present q dc"
        using bm [of q] ix(3) [OF False] fields assms(5) by (simp add: dc_is_present_def index_contains_def domIff)
      moreover have "?new q = None" using new_iff(2) [of q] False by blast
      ultimately show ?thesis using view_present [OF assms(3), of q] by (simp add: map_add_def)
    qed
    show "stored C dc' q d" if m: "(cache_view C dc ++ ?new) q = Some d" for q d
    proof (cases "q \<in> set ps")
      case True
      then have "?new q = Some d" using m new_iff(2) [of q] by auto
      then show ?thesis using new(1) by (auto simp: new_iff(1))
    next
      case False
      then have "?new q = None" using new_iff(2) [of q] by blast
      then have "stored C dc q d" using m view_stored [OF assms(3)] by (simp add: map_add_def)
      then show ?thesis using old [of q] ix(3) [OF False] fields assms(5) by (auto simp: stored_def)
    qed
    show "index_in_file dc'" unfolding index_in_file_def
    proof (intro impI allI)
      fix q e assume e: "ci_entries (dc_index dc') q = Some e"
      show "entry_end e \<le> length (dk_file (dc_disk dc'))"
      proof (cases "q \<in> set ps")
        case True
        then obtain k where k: "k < length ps" "q = ps ! k" by (auto simp: in_set_conv_nth)
        then show ?thesis using e ix(2) [OF k(1)] new(2) [OF k(1)] fields(4) by auto
      qed (use e ix(3) old(1) fields(4) in simp)
    qed
  qed (use fields i ix(1) in simp_all)
  then show ?thesis using fields(5) w(1) by simp
qed

subsection \<open>The batch\<close>

lemma grow_file:
  assumes "no_faults (dc_disk dc)" "dc_file_len dc = length (dk_file (dc_disk dc))"
  shows "\<exists>dc'. ensure_file_len n dc = (Inr (), dc') \<and> same_but_file dc' dc \<and> n \<le> length (dk_file (dc_disk dc')) \<and> length (dk_file (dc_disk dc)) \<le> length (dk_file (dc_disk dc'))
    \<and> (\<forall>off k. off + k \<le> length (dk_file (dc_disk dc)) \<longrightarrow> bslice off k (dk_file (dc_disk dc')) = bslice off k (dk_file (dc_disk dc)))"
  using assms by (auto simp: ensure_file_len_def on_disk_def set_len_ok same_but_file_def bslice_append_left)

lemma plain_batch_stored:
  assumes "cache_codec C" "\<And>k. length (nonces k) = 12" "cache_inv C dc" "no_faults (dc_disk dc)" "\<not> dc_compression dc" "ps \<noteq> []" "distinct ps"
    and "\<forall>i < length ps. length (page_slice (dc_page_size dc) data i) = dc_page_size dc" "\<forall>p \<in> set ps. slot_fits dc p"
    and grown: "ensure_file_len (((Max (set ps) + 1) * slot_stride dc) mod U64_SIZE)
        (bitmap_ensure (Max (set ps)) (install_pages (zip ps (map (page_slice (dc_page_size dc) data) [0..<length ps])) dc)) = (Inr (), d1)"
    and run: "write_frames C nonces 0 (zip ps (map (page_slice (dc_page_size dc) data) [0..<length ps])) d1 = (Inr (), d2)"
  shows "cache_inv C (bitmap_marks ps d2)
    \<and> cache_view C (bitmap_marks ps d2) = cache_view C dc ++ batch (dc_page_size dc) ps data \<and> no_faults (dc_disk d2)"
proof -
  let ?ps = "dc_page_size dc" let ?pds = "zip ps (map (page_slice ?ps data) [0..<length ps])" let ?new = "batch ?ps ps data"
  let ?d0 = "install_pages ?pds dc" let ?e = "bitmap_ensure (Max (set ps)) ?d0"
  have i: "0 < ?ps" "?ps \<le> 65536" "\<not> dc_tainted dc" "dc_file_len dc = length (dk_file (dc_disk dc))" "index_ok (dc_index dc)"
    using assms(3) by (simp_all add: cache_inv_def)
  have s0: "same_store ?d0 dc" by simp
  have pds: "map fst ?pds = ps" "\<forall>(p, d) \<in> set ?pds. length d = ?ps" using assms(8) by (auto simp: set_zip)
  obtain d1' where d1': "ensure_file_len (((Max (set ps) + 1) * slot_stride dc) mod U64_SIZE) ?e = (Inr (), d1')" "same_but_file d1' ?e"
    "((Max (set ps) + 1) * slot_stride dc) mod U64_SIZE \<le> length (dk_file (dc_disk d1'))" "length (dk_file (dc_disk dc)) \<le> length (dk_file (dc_disk d1'))"
    "\<And>off k. off + k \<le> length (dk_file (dc_disk dc)) \<Longrightarrow> bslice off k (dk_file (dc_disk d1')) = bslice off k (dk_file (dc_disk dc))"
  proof -
    have disk: "dc_disk ?e = dc_disk dc" "dc_file_len ?e = dc_file_len dc" using s0 by (simp_all add: same_store_def)
    from grow_file [of ?e "((Max (set ps) + 1) * slot_stride dc) mod U64_SIZE"] assms(4) i(4) that show thesis unfolding disk by blast
  qed
  then have d1: "d1 = d1'" using grown by simp
  have f1: "dc_page_size d1 = ?ps" "dc_compression d1 = dc_compression dc" "dc_key d1 = dc_key dc" "slot_stride d1 = slot_stride dc" "\<And>q. slot_fits d1 q = slot_fits dc q"
    "no_faults (dc_disk d1)" "dc_file_len d1 = length (dk_file (dc_disk d1))" "dc_tainted d1 = dc_tainted dc" "dc_index d1 = dc_index dc"
    "dc_bitmap d1 = ensure_capacity (dc_bitmap dc) (Max (set ps))" "dc_mem d1 = dc_mem ?d0"
    using d1'(2) s0 unfolding d1 by (simp_all add: same_but_file_def same_store_def slot_stride_def slot_fits_def bitmap_ensure_def)
  have keep1: "stored C d1 q d" if "stored C dc q d" for q d
  proof -
    have "slot_fits dc q" "q * slot_stride dc + slot_stride dc \<le> length (dk_file (dc_disk dc))" using that assms(5) by (auto simp: stored_def)
    then show ?thesis using that assms(5) f1(1-5) d1'(4) d1'(5) [of "q * slot_stride dc" "slot_stride dc"] by (auto simp: stored_def d1)
  qed
  have room: "(p + 1) * slot_stride dc \<le> length (dk_file (dc_disk d1))" if "p \<in> set ps" for p
  proof -
    have M: "Max (set ps) \<in> set ps" "p \<le> Max (set ps)" using assms(6) that by simp_all
    then have "(Max (set ps) + 1) * slot_stride dc < U64_SIZE" using assms(9) by (simp add: slot_fits_def)
    then have "(Max (set ps) + 1) * slot_stride dc \<le> length (dk_file (dc_disk d1))" using d1'(3) unfolding d1 by simp
    moreover have "(p + 1) * slot_stride dc \<le> (Max (set ps) + 1) * slot_stride dc" using M(2) by (intro mult_le_mono1) simp
    ultimately show ?thesis by (rule order_trans [rotated])
  qed
  have ready: "slots_ready (map fst ?pds) d1" "distinct (map fst ?pds)" "\<forall>(p, d) \<in> set ?pds. length d = dc_page_size d1"
    using assms(5,7,9) pds f1 i(1) room by (simp_all add: slots_ready_def)
  note wf = write_frames_stored [OF assms(1,2) ready run]
  let ?d3 = "bitmap_marks ps d2"
  have f2: "dc_page_size d2 = ?ps" "dc_compression d2 = dc_compression dc" "dc_tainted d2 = dc_tainted dc" "dc_file_len d2 = length (dk_file (dc_disk d2))"
    "dc_index d2 = dc_index dc" "dc_bitmap d2 = ensure_capacity (dc_bitmap dc) (Max (set ps))" "dc_mem d2 = dc_mem ?d0" "no_faults (dc_disk d2)"
    using wf(1) f1 by (simp_all add: same_but_file_def)
  have st3: "stored C ?d3 q d = stored C d2 q d" for q d by (rule stored_cong) simp_all
  note new_iff = batch_iff [OF assms(7), of ?ps data] batch_dom [of ?ps ps data]
  have dom: "fst ` set ?pds = set ps" using arg_cong [OF pds(1), of set] by (simp only: set_map)
  have "cache_inv C ?d3 \<and> cache_view C ?d3 = cache_view C dc ++ ?new"
  proof (rule establish_view)
    show "dc_is_present q ?d3 \<longleftrightarrow> (cache_view C dc ++ ?new) q \<noteq> None" for q
    proof -
      have "is_present (dc_bitmap ?d3) q \<longleftrightarrow> is_present (dc_bitmap dc) q \<or> q \<in> set ps" by (rule present_bitmap_marks) (rule f2(6))
      then show ?thesis using view_present [OF assms(3), of q] new_iff(2) [of q] f2(2) assms(5) by (auto simp: dc_is_present_def map_add_def split: option.splits)
    qed
    show "stored C ?d3 q d" if m: "(cache_view C dc ++ ?new) q = Some d" for q d
    proof (cases "q \<in> set ps")
      case True
      then have "?new q = Some d" using m new_iff(2) [of q] by auto
      then have "(q, d) \<in> set ?pds" unfolding batch_def by (rule map_of_SomeD)
      then show ?thesis unfolding st3 by (rule wf(2))
    next
      case False
      then have "?new q = None" using new_iff(2) [of q] by blast
      then have "stored C dc q d" using m view_stored [OF assms(3)] by (simp add: map_add_def)
      then show ?thesis unfolding st3 using wf(3) [of q d] keep1 False dom by blast
    qed
    show "(cache_view C dc ++ ?new) q = Some page" if "mem_hit q ?d3 = Some page" "(cache_view C dc ++ ?new) q \<noteq> None" for q page
    proof -
      have "mem_hit q ?d0 = Some page" using that(1) f2(7) by (simp add: mem_hit_def bitmap_marks_def)
      from mem_hit_install_pages [OF i(1) _ pds(2) this] ready(2)
      consider "(q, page) \<in> set ?pds" | "q \<notin> set ps" "mem_hit q dc = Some page" unfolding dom by blast
      then show ?thesis
      proof cases
        case 1
        then have "?new q = Some page" using ready(2) unfolding batch_def by (simp only: map_of_is_SomeI)
        then show ?thesis by simp
      next
        case 2
        then have "?new q = None" using new_iff(2) [of q] by blast
        then show ?thesis using 2 that(2) view_mem [OF assms(3,5) 2(2)] by (simp add: map_add_def)
      qed
    qed
  qed (use f2 i assms(5) in \<open>simp_all add: index_in_file_def\<close>)
  then show ?thesis using f2(8) by simp
qed

lemma writable_all:
  assumes "length ps * n \<le> length data"
  shows "writable_count ps data n = length ps"
proof -
  have "(i + 1) * n \<le> length data" if "i < length ps" for i
    using mult_le_mono1 [of "i + 1" "length ps" n] that assms by simp
  then have all: "takeWhile (\<lambda>i. (i + 1) * n \<le> length data) [0..<length ps] = [0..<length ps]"
    by (simp add: takeWhile_eq_all_conv)
  show ?thesis unfolding writable_count_def all by simp
qed

text \<open>A batch that brings a whole number of pages and succeeds.\<close>

lemma write_pages_scattered_view:
  assumes "cache_codec C" "\<And>k. length (nonces k) = 12" "cache_inv C dc" "no_faults (dc_disk dc)" "distinct ps"
    and "length ps * dc_page_size dc \<le> length data" "dc_compression dc \<or> (\<forall>p \<in> set ps. slot_fits dc p)"
    and "write_pages_scattered C nonces now ps data gid start dc = (Inr (), dc')"
  shows "cache_inv C dc' \<and> cache_view C dc' = cache_view C dc ++ batch (dc_page_size dc) ps data \<and> no_faults (dc_disk dc')"
proof (cases "ps = []")
  case True
  then have "dc' = dc" using assms(3,8) by (simp add: write_pages_scattered_def check_tainted_def cache_inv_def)
  then show ?thesis using True assms(3,4) by (simp add: batch_def)
next
  case False
  let ?ps = "dc_page_size dc" and ?slices = "map (page_slice (dc_page_size dc) data) [0..<length ps]"
  have i: "0 < ?ps" "\<not> dc_tainted dc" using assms(3) by (simp_all add: cache_inv_def)
  have sl: "\<forall>i < length ps. length (page_slice ?ps data i) = ?ps"
  proof (intro allI impI)
    fix i assume "i < length ps"
    then have "(i + 1) * ?ps \<le> length data" using mult_le_mono1 [of "i + 1" "length ps" ?ps] assms(6) by simp
    then show "length (page_slice ?ps data i) = ?ps" by (simp add: page_slice_def)
  qed
  have wc: "take (writable_count ps data ?ps) ps = ps" using writable_all [OF assms(6)] by simp
  have tail: "cache_inv C (track_chunks cs now d) \<and> cache_view C (track_chunks cs now d) = cache_view C d \<and> no_faults (dc_disk (track_chunks cs now d))"
    if "cache_inv C d" "no_faults (dc_disk d)" for d cs
    using that cache_inv_cong [OF track_chunks_same(1) track_chunks_same(2)] by (simp add: track_chunks_def)
  show ?thesis
  proof (cases "dc_compression dc")
    case True
    then obtain d1 cs where d1: "append_blobs C nonces ps (Max (set ps)) data ?ps dc = (Inr (), d1)" "dc' = track_chunks cs now d1"
      using assms(8) False i wc by (auto simp: write_pages_scattered_def check_tainted_def write_pages_scattered_compressed_def Let_def and_then_ok)
    from append_blobs_stored [OF assms(1-4) True False assms(5) sl d1(1)] tail d1(2) show ?thesis by simp
  next
    case plain: False
    let ?d0 = "install_pages (zip ps ?slices) dc"
    have st: "slot_stride ?d0 = slot_stride dc" using install_pages_same [of "zip ps ?slices" dc] by (simp add: same_store_def slot_stride_def)
    have promote: "promote_scattered_to_mem_cache ps data dc = (Inr (), ?d0)"
      using False i assms(6) by (simp add: promote_scattered_to_mem_cache_def Let_def)
    obtain d1 d2 cs where d: "ensure_file_len (((Max (set ps) + 1) * slot_stride dc) mod U64_SIZE) (bitmap_ensure (Max (set ps)) ?d0) = (Inr (), d1)"
      "write_frames C nonces 0 (zip ps ?slices) d1 = (Inr (), d2)" "dc' = track_chunks cs now (bitmap_marks ps d2)"
      using assms(8) False i wc plain promote
      by (auto simp: write_pages_scattered_def check_tainted_def Let_def and_then_ok st)
    have "\<forall>p \<in> set ps. slot_fits dc p" using assms(7) plain by blast
    from plain_batch_stored [OF assms(1-4) plain False assms(5) sl this d(1,2)] tail d(3) show ?thesis by simp
  qed
qed

end
