(* ===== verification/Handle_Read.thy ===== *)
theory Handle_Read
  imports Handle Cache_Batch
begin

text \<open>
  The read of a page by a tiered handle (\<open>read_exact_at\<close> of \<open>src/src/tiered/handle.rs\<close>): the fast path, dirty
  pages, the bounds, the cache, the local page groups, the range request for one frame, and the download of
  a whole group.

  Prefetching only changes the cache from other threads. What they did before the \<open>k\<close>-th time the read looks at
  the cache is an argument, and so are the outcomes of the heuristics that choose a path: whether a
  planned search keeps the read off the fast path, whether the group belongs to a planned scan, whether the pool was
  already fetching the group or the frame, and the cache limit to trim to when a query has just ended. The counters of
  hits and misses are not state of the model.
\<close>

record read_answers =
  ra_now :: rat
  ra_nonces :: "nat \<Rightarrow> bytes"
  ra_lookahead :: bool
  ra_limit :: "nat option"
  ra_scan :: bool
  ra_group_wait :: bool
  ra_frame_wait :: bool
  ra_threads :: "nat \<Rightarrow> disk_cache \<Rightarrow> disk_cache"

definition with_backend :: "backend \<Rightarrow> handle \<Rightarrow> handle" where
  "with_backend b h = h\<lparr>hn_shared := (hn_shared h)\<lparr>fs_backend := b\<rparr>\<rparr>"

definition on_store :: "'a store_op \<Rightarrow> handle \<Rightarrow> 'a io_result \<times> handle" where
  "on_store f h = (case f (fs_backend (hn_shared h)) of (r, b) \<Rightarrow> (r, with_backend b h))"

subsection \<open>The cache\<close>

definition look :: "handle_env \<Rightarrow> read_answers \<Rightarrow> nat \<Rightarrow> nat \<Rightarrow> bytes \<Rightarrow> handle \<Rightarrow> bytes option io_result \<times> handle" where
  "look E a k p buf h = (let h = with_cache (ra_threads a k) h in (read_page_if_present (he_codec E) p buf (hn_cache h), h))"

text \<open>A page found in the cache is classified and its group counted as used.\<close>

definition note_served :: "read_answers \<Rightarrow> nat \<Rightarrow> nat \<Rightarrow> bytes \<Rightarrow> handle \<Rightarrow> handle" where
  "note_served a p gid out h = with_cache (\<lambda>dc. touch_group gid (ra_now a) (detect_interior_page (hn_manifest h) p out (ra_now a) dc)) h"

definition serve_or :: "read_answers \<Rightarrow> nat \<Rightarrow> nat \<Rightarrow> bytes option io_result \<times> handle \<Rightarrow> (handle \<Rightarrow> bytes io_result \<times> handle) \<Rightarrow> bytes io_result \<times> handle" where
  "serve_or a p gid r next = and_then r (\<lambda>found h. case found of Some out \<Rightarrow> (Inr out, note_served a p gid out h) | None \<Rightarrow> next h)"

text \<open>Waiting for a group that another thread fetches; a claim that is still held at the deadline is cleared.\<close>

definition wait_group :: "read_answers \<Rightarrow> nat \<Rightarrow> nat \<Rightarrow> handle \<Rightarrow> handle" where
  "wait_group a k gid h = with_cache (\<lambda>dc. snd (unclaim_if_fetching gid (ra_threads a k dc))) h"

definition evict_between_queries :: "handle_env \<Rightarrow> read_answers \<Rightarrow> handle \<Rightarrow> handle" where
  "evict_between_queries E a h =
     (case ra_limit a of
        None \<Rightarrow> h
      | Some limit \<Rightarrow>
          let skip = pl_group_id ` Option.these (page_location (hn_manifest h) ` hn_dirty h) \<union> fs_dirty (hn_shared h) \<union> fetching_group_ids (hn_cache h)
          in with_cache (\<lambda>dc. snd (evict_to_budget (fe_iter (he_flush E)) (fe_chunk_iter (he_flush E)) (ra_now a) limit skip dc)) h)"

subsection \<open>Decoding\<close>

definition group_bulk :: "codec \<Rightarrow> bytes option \<Rightarrow> manifest \<Rightarrow> nat \<Rightarrow> bytes \<Rightarrow> bytes io_result" where
  "group_bulk C key m gid data =
     (if has_frame_table m gid then seekable_bulk C key m gid (length (group_page_nums m gid)) data
      else bind_result (decode_page_group_bulk C data (aad_page_group gid) key) (\<lambda>(_, _, bulk). Inr bulk))"

definition frame_page_nums :: "manifest \<Rightarrow> nat \<Rightarrow> nat \<Rightarrow> nat list io_result" where
  "frame_page_nums m gid f =
     (let gp = group_page_nums m gid; start = f * sub_pages_per_frame m; stop = min (start + sub_pages_per_frame m) (length gp) in
      if stop < start then panic ''slice index starts after its end'' else Inr (bslice start (stop - start) gp))"

fun scan_interior :: "nat \<Rightarrow> nat \<Rightarrow> rat \<Rightarrow> bytes \<Rightarrow> nat \<Rightarrow> nat list \<Rightarrow> disk_cache \<Rightarrow> disk_cache" where
  "scan_interior gid ps now data i [] dc = dc"
| "scan_interior gid ps now data i (p # pages) dc =
     scan_interior gid ps now data (i + 1) pages
       (case get data (i * ps + header_offset p) of
          None \<Rightarrow> dc
        | Some b \<Rightarrow> if is_interior_type b then mark_interior_group gid p (i mod U32_SIZE) now dc else dc)"

fun scan_frame :: "nat \<Rightarrow> nat \<Rightarrow> rat \<Rightarrow> bytes \<Rightarrow> nat \<Rightarrow> nat \<Rightarrow> nat list \<Rightarrow> disk_cache \<Rightarrow> disk_cache" where
  "scan_frame gid ps now data start i [] dc = dc"
| "scan_frame gid ps now data start i (p # pages) dc =
     scan_frame gid ps now data start (i + 1) pages
       (case get data (i * ps + header_offset p) of
          None \<Rightarrow> dc
        | Some b \<Rightarrow>
            if is_interior_type b then mark_interior_group gid p ((start + i) mod U32_SIZE) now dc
            else if b = 0x0A \<and> i * ps + ps \<le> length data \<and> is_valid_btree_page (bslice (i * ps) ps data) (header_offset p)
            then mark_index_page p gid ((start + i) mod U32_SIZE) now dc
            else dc)"

subsection \<open>Local page groups\<close>

text \<open>Override frames are laid over the base one by one; one that cannot be fetched, opened or written is left out.\<close>

fun overlay_local :: "handle_env \<Rightarrow> read_answers \<Rightarrow> nat \<Rightarrow> manifest \<Rightarrow> (nat \<rightharpoonup> subframe_override) \<Rightarrow> nat list \<Rightarrow> handle \<Rightarrow> unit io_result \<times> handle" where
  "overlay_local E a gid m ovs [] h = (Inr (), h)"
| "overlay_local E a gid m ovs (f # fs) h =
     (case on_store (get_page_group (so_key (the (ovs f)))) h of
        (Inr (Some data), h) \<Rightarrow>
          (case decode_seekable_subchunk (he_codec E) data (aad_override_frame gid f) (fe_key (he_flush E)) of
             Inl _ \<Rightarrow> overlay_local E a gid m ovs fs h
           | Inr raw \<Rightarrow>
               (case frame_page_nums m gid f of
                  Inl e \<Rightarrow> (Inl e, h)
                | Inr nums \<Rightarrow>
                    if length nums * page_size m \<le> length raw
                    then overlay_local E a gid m ovs fs (snd (on_cache (write_pages_scattered (he_codec E) (ra_nonces a) (ra_now a) nums
                           (take (length nums * page_size m) raw) gid (f * sub_pages_per_frame m mod U32_SIZE)) h))
                    else overlay_local E a gid m ovs fs h))
      | (_, h) \<Rightarrow> overlay_local E a gid m ovs fs h)"

definition install_local :: "handle_env \<Rightarrow> read_answers \<Rightarrow> nat \<Rightarrow> manifest \<Rightarrow> bytes \<Rightarrow> handle \<Rightarrow> unit io_result \<times> handle" where
  "install_local E a gid m data h =
     (let F = he_flush E in
      case group_bulk (fe_codec F) (fe_key F) m gid data of
        Inl _ \<Rightarrow> (Inr (), h)
      | Inr bulk \<Rightarrow>
          and_then (on_cache (write_pages_scattered (fe_codec F) (ra_nonces a) (ra_now a) (group_page_nums m gid) bulk gid 0) h) (\<lambda>_ h.
          and_then (case get (subframe_overrides m) gid of
                      None \<Rightarrow> (Inr (), h)
                    | Some ovs \<Rightarrow> if 0 < sub_pages_per_frame m then overlay_local E a gid m ovs (fe_iter F (dom ovs)) h else (Inr (), h)) (\<lambda>_ h.
            (Inr (), with_cache (\<lambda>dc. touch_group gid (ra_now a) (mark_group_present (fe_iter F) (fe_chunk_iter F) (ra_now a) gid dc)) h))))"

definition read_local :: "handle_env \<Rightarrow> read_answers \<Rightarrow> nat \<Rightarrow> nat \<Rightarrow> bytes \<Rightarrow> handle \<Rightarrow> bytes io_result \<times> handle" where
  "read_local E a p gid buf h =
     (let m = hn_manifest h; missing = (\<lambda>h. (Inl (Io NotFound ''page not recoverable from local page groups''), h)) in
      case get (page_group_keys m) gid of
        None \<Rightarrow> missing h
      | Some key \<Rightarrow>
          if key = [] then missing h
          else case on_store (get_page_group key) h of
            (Inr (Some data), h) \<Rightarrow> and_then (install_local E a gid m data h) (\<lambda>_ h. serve_or a p gid (look E a 1 p buf h) missing)
          | (_, h) \<Rightarrow> missing h)"

subsection \<open>One frame\<close>

definition range_get_store :: "string \<Rightarrow> nat \<Rightarrow> nat \<Rightarrow> bytes option store_op" where
  "range_get_store key offset len b =
     (range_get (case bk_fault b (bk_ops b) of Some (e, _) \<Rightarrow> Inl e | None \<Rightarrow> Inr (map_option (bslice offset len) (bk_objects b key))) len, tick b)"

definition install_frame :: "handle_env \<Rightarrow> read_answers \<Rightarrow> nat \<Rightarrow> nat \<Rightarrow> nat \<Rightarrow> nat \<Rightarrow> manifest \<Rightarrow> bytes \<Rightarrow> bytes \<Rightarrow> handle \<Rightarrow> bytes option io_result \<times> handle" where
  "install_frame E a p gid f j m raw buf h =
     (let ps = page_size m; start = f * sub_pages_per_frame m;
          out = (if j * ps + length buf \<le> length raw then bslice (j * ps) (length buf) raw else zeros (length buf)) in
      case frame_page_nums m gid f of
        Inl e \<Rightarrow> (Inl e, h)
      | Inr nums \<Rightarrow>
          and_then (if nums \<noteq> [] \<and> length nums * ps \<le> length raw
                    then on_cache (write_pages_scattered (he_codec E) (ra_nonces a) (ra_now a) nums (take (length nums * ps) raw) gid (start mod U32_SIZE)) h
                    else (Inr (), h)) (\<lambda>_ h.
            (Inr (Some out), note_served a p gid out (with_cache (scan_frame gid ps (ra_now a) raw start 0 nums) h))))"

text \<open>The answer \<open>None\<close> sends the read to the download of the whole group.\<close>

definition fetch_frame :: "handle_env \<Rightarrow> read_answers \<Rightarrow> nat \<Rightarrow> nat \<Rightarrow> nat \<Rightarrow> bytes \<Rightarrow> handle \<Rightarrow> bytes option io_result \<times> handle" where
  "fetch_frame E a p gid idx buf h =
     (let m = hn_manifest h; f = idx div sub_pages_per_frame m; entry = frame_tables m ! gid ! f; ov = override_at m gid f in
      case get (page_group_keys m) gid of
        None \<Rightarrow> (panic ''gid must be valid index into page_group_keys'', h)
      | Some base_key \<Rightarrow>
          and_then (on_store (case ov of Some ov \<Rightarrow> get_page_group (so_key ov)
                                       | None \<Rightarrow> range_get_store base_key (fe_offset entry) (fe_len entry)) h) (\<lambda>fetched h.
            case fetched of
              None \<Rightarrow> if ov = None then (Inr None, h) else (Inl (Io NotFound ''seekable frame object missing''), h)
            | Some frame \<Rightarrow>
                (case decode_seekable_subchunk (he_codec E) frame (if ov = None then aad_page_group gid else aad_override_frame gid f)
                        (fe_key (he_flush E)) of
                   Inl e \<Rightarrow> (Inl e, h)
                 | Inr raw \<Rightarrow> install_frame E a p gid f (idx mod sub_pages_per_frame m) m raw buf h)))"

definition read_frame :: "handle_env \<Rightarrow> read_answers \<Rightarrow> nat \<Rightarrow> nat \<Rightarrow> nat \<Rightarrow> bytes \<Rightarrow> (handle \<Rightarrow> bytes io_result \<times> handle) \<Rightarrow> handle \<Rightarrow> bytes io_result \<times> handle" where
  "read_frame E a p gid idx buf download h =
     (let m = hn_manifest h in
      if has_frame_table m gid \<and> \<not> ra_scan a \<and> idx div sub_pages_per_frame m < length (frame_tables m ! gid) then
        if gid < length (page_group_keys m) then
          serve_or a p gid
            (if ra_group_wait a \<and> get_group_state gid (hn_cache h) = Fetching then look E a 3 p buf (wait_group a 2 gid h) else (Inr None, h)) (\<lambda>h.
          serve_or a p gid (if ra_frame_wait a then look E a 4 p buf h else (Inr None, h)) (\<lambda>h.
          and_then (fetch_frame E a p gid idx buf h) (\<lambda>out h. case out of Some out \<Rightarrow> (Inr out, h) | None \<Rightarrow> download h)))
        else (panic ''gid must be valid index into page_group_keys'', h)
      else download h)"

subsection \<open>A whole group\<close>

definition release :: "nat \<Rightarrow> handle \<Rightarrow> handle" where
  "release gid h = with_cache (\<lambda>dc. snd (unclaim_if_fetching gid dc)) h"

definition install_group :: "handle_env \<Rightarrow> read_answers \<Rightarrow> nat \<Rightarrow> manifest \<Rightarrow> bytes \<Rightarrow> handle \<Rightarrow> unit io_result \<times> handle" where
  "install_group E a gid m data h =
     (let F = he_flush E; gp = group_page_nums m gid; len = length gp * page_size m in
      case group_bulk (fe_codec F) (fe_key F) m gid data of
        Inl e \<Rightarrow> (Inl e, release gid h)
      | Inr bulk \<Rightarrow>
          if gp \<noteq> [] \<and> length bulk < len then (Inl (Io InvalidData ''decoded page group too short''), release gid h)
          else (case (if gp = [] then (Inr (), h) else on_cache (write_pages_scattered (fe_codec F) (ra_nonces a) (ra_now a) gp (take len bulk) gid 0) h) of
            (Inl e, h) \<Rightarrow> (Inl e, release gid h)
          | (Inr _, h) \<Rightarrow>
              (Inr (), with_cache (\<lambda>dc. touch_group gid (ra_now a) (mark_group_present (fe_iter F) (fe_chunk_iter F) (ra_now a) gid
                         (scan_interior gid (page_size m) (ra_now a) bulk 0 gp dc))) h)))"

definition download_group :: "handle_env \<Rightarrow> read_answers \<Rightarrow> nat \<Rightarrow> handle \<Rightarrow> unit io_result \<times> handle" where
  "download_group E a gid h =
     (let m = hn_manifest h in
      case get (page_group_keys m) gid of
        None \<Rightarrow> (Inr (), release gid h)
      | Some key \<Rightarrow>
          if key = [] then (Inr (), release gid h)
          else case on_store (get_page_group key) h of
            (Inl e, h) \<Rightarrow> (Inl (Io Other ''S3 GET failed''), release gid h)
          | (Inr None, h) \<Rightarrow> (Inr (), release gid h)
          | (Inr (Some data), h) \<Rightarrow> install_group E a gid m data h)"

definition fetch_group :: "handle_env \<Rightarrow> read_answers \<Rightarrow> nat \<Rightarrow> handle \<Rightarrow> unit io_result \<times> handle" where
  "fetch_group E a gid h =
     (let h = (if get_group_state gid (hn_cache h) = Fetching then wait_group a 5 gid h else h) in
      if get_group_state gid (hn_cache h) = Present then (Inr (), h)
      else case try_claim_group gid (hn_cache h) of
        (True, dc) \<Rightarrow> download_group E a gid (with_cache (\<lambda>_. dc) h)
      | (False, dc) \<Rightarrow> (Inr (), wait_group a 6 gid (with_cache (\<lambda>_. dc) h)))"

text \<open>The last resort reads the slot of an absent page and takes it if it holds anything but zeros.\<close>

definition read_raw_slot :: "handle_env \<Rightarrow> read_answers \<Rightarrow> nat \<Rightarrow> nat \<Rightarrow> bytes \<Rightarrow> handle \<Rightarrow> bytes io_result \<times> handle" where
  "read_raw_slot E a p gid buf h =
     (let F = he_flush E; missing = Inl (Io NotFound ''page missing from remote storage'') in
      case read_page (fe_codec F) p buf (hn_cache h) of
        Inl _ \<Rightarrow> (missing, h)
      | Inr out \<Rightarrow>
          if list_all (\<lambda>b. b = 0) out then (missing, h)
          else (case on_cache (write_page (fe_codec F) (ra_nonces a 0) (ra_now a) p out) h of
            (Inl e, h) \<Rightarrow> (Inl (Io Other ''fallback page re-install failed''), h)
          | (Inr _, h) \<Rightarrow> (Inr out, note_served a p gid out (with_cache (mark_group_present (fe_iter F) (fe_chunk_iter F) (ra_now a) gid) h))))"

definition read_group :: "handle_env \<Rightarrow> read_answers \<Rightarrow> nat \<Rightarrow> nat \<Rightarrow> bytes \<Rightarrow> handle \<Rightarrow> bytes io_result \<times> handle" where
  "read_group E a p gid buf h =
     and_then (fetch_group E a gid h) (\<lambda>_ h.
       serve_or a p gid (look E a 7 p buf h) (read_raw_slot E a p gid buf))"

subsection \<open>The read\<close>

definition read_remote :: "handle_env \<Rightarrow> read_answers \<Rightarrow> nat \<Rightarrow> page_loc \<Rightarrow> bytes \<Rightarrow> handle \<Rightarrow> bytes io_result \<times> handle" where
  "read_remote E a p loc buf h =
     serve_or a p (pl_group_id loc) (look E a 1 p buf h)
       (read_frame E a p (pl_group_id loc) (pl_index loc) buf (read_group E a p (pl_group_id loc) buf))"

definition read_clean :: "handle_env \<Rightarrow> read_answers \<Rightarrow> nat \<Rightarrow> bytes \<Rightarrow> handle \<Rightarrow> bytes io_result \<times> handle" where
  "read_clean E a p buf h =
     (let m = hn_manifest h in
      if page_count m \<le> p then (Inr (zeros (length buf)), h)
      else case page_location m p of
        None \<Rightarrow> (Inr (zeros (length buf)), h)
      | Some loc \<Rightarrow>
          let h = evict_between_queries E a h in
          serve_or a p (pl_group_id loc) (look E a 0 p buf h)
            (if fe_is_local (he_flush E) then read_local E a p (pl_group_id loc) buf else read_remote E a p loc buf))"

definition read_dirty :: "handle_env \<Rightarrow> nat \<Rightarrow> bytes \<Rightarrow> handle \<Rightarrow> bytes io_result \<times> handle" where
  "read_dirty E p buf h =
     (case read_page_if_present (he_codec E) p buf (hn_cache h) of
        Inl e \<Rightarrow> (Inl e, h)
      | Inr (Some out) \<Rightarrow> (Inr out, h)
      | Inr None \<Rightarrow> (Inl (Io NotFound ''dirty page was evicted before read; restart the VFS to recover''), h))"

definition read_fast :: "handle_env \<Rightarrow> read_answers \<Rightarrow> nat \<Rightarrow> bytes \<Rightarrow> handle \<Rightarrow> bytes option io_result" where
  "read_fast E a p buf h =
     (if \<not> hn_dirty_since_sync h \<and> \<not> ra_lookahead a \<and> dc_generation (hn_cache h) = hn_generation h \<and> p < page_count (hn_manifest h)
      then read_page_if_present (he_codec E) p buf (hn_cache h) else Inr None)"

definition handle_read :: "handle_env \<Rightarrow> read_answers \<Rightarrow> bytes \<Rightarrow> nat \<Rightarrow> handle \<Rightarrow> bytes io_result \<times> handle" where
  "handle_read E a buf offset h =
     (let ps = (if 0 < hn_page_size h then hn_page_size h else length buf); p = offset div ps in
      if ps = 0 then (panic ''attempt to divide by zero'', h)
      else case read_fast E a p buf h of
        Inl e \<Rightarrow> (Inl e, h)
      | Inr (Some out) \<Rightarrow> (Inr out, h)
      | Inr None \<Rightarrow> if p \<in> hn_dirty h then read_dirty E p buf h else read_clean E a p buf h)"

end
