(* ===== verification/Read_Correct.thy ===== *)
theory Read_Correct
  imports Handle_Read Handle_Checkpoint
begin

text \<open>
  What a read returns. \<open>cache_ready\<close> says that the cache shows, for every page without unsynced changes, the page
  the manifest stands for in the object store, and that a group marked present is complete. Every step of a
  read keeps it, whichever path the read takes, so a read returns the page whoever fetched it.
\<close>

subsection \<open>The cache between steps\<close>

definition cache_ready :: "codec \<Rightarrow> bytes option \<Rightarrow> manifest \<Rightarrow> (string \<rightharpoonup> bytes) \<Rightarrow> nat set \<Rightarrow> disk_cache \<Rightarrow> bool" where
  "cache_ready C key m objs D dc \<longleftrightarrow>
     cache_inv C dc \<and> no_faults (dc_disk dc) \<and> dc_page_size dc = page_size m \<and> dc_ttl_secs dc = 0 \<and> dc_budget_bytes dc = 0
     \<and> (dc_compression dc \<or> (\<forall>p < page_count m. slot_fits dc p))
     \<and> (\<forall>p loc d. p \<notin> D \<longrightarrow> page_location m p = Some loc \<longrightarrow> cache_view C dc p = Some d
          \<longrightarrow> remote_page C key m objs (pl_group_id loc) (pl_index loc) = Some d)
     \<and> (\<forall>gid. get_group_state gid dc = Present \<longrightarrow> (\<forall>p \<in> set (group_page_nums m gid). dc_is_present p dc))"

text \<open>An operation that changes no page and no setting, and marks no group present.\<close>

definition same_pages :: "disk_cache \<Rightarrow> disk_cache \<Rightarrow> bool" where
  "same_pages dc' dc \<longleftrightarrow> same_store dc' dc \<and> dc_mem dc' = dc_mem dc \<and> dc_ttl_secs dc' = dc_ttl_secs dc \<and> dc_budget_bytes dc' = dc_budget_bytes dc"

definition no_new_present :: "disk_cache \<Rightarrow> disk_cache \<Rightarrow> bool" where
  "no_new_present dc' dc \<longleftrightarrow> (\<forall>gid. get_group_state gid dc' = Present \<longrightarrow> get_group_state gid dc = Present)"

lemma same_pages_refl [simp]: "same_pages dc dc" "no_new_present dc dc"
  by (simp_all add: same_pages_def no_new_present_def)

lemma same_pages_trans: "same_pages a b \<Longrightarrow> same_pages b c \<Longrightarrow> same_pages a c"
  unfolding same_pages_def using same_store_trans [of a b c] by simp

lemma same_pages_view:
  assumes "same_pages dc' dc" "cache_inv C dc"
  shows "cache_inv C dc'" "cache_view C dc' = cache_view C dc" "dc_is_present p dc' = dc_is_present p dc" "slot_fits dc' p = slot_fits dc p"
    "dc_disk dc' = dc_disk dc" "dc_page_size dc' = dc_page_size dc" "dc_compression dc' = dc_compression dc"
proof -
  have s: "same_store dc' dc" "\<And>q. mem_hit q dc' = mem_hit q dc" using assms(1) by (simp_all add: same_pages_def mem_hit_def)
  show "cache_inv C dc'" "cache_view C dc' = cache_view C dc" using cache_inv_cong [OF s] assms(2) by simp_all
  show "dc_is_present p dc' = dc_is_present p dc" using same_store_facts(2) [OF s(1)] .
  show "slot_fits dc' p = slot_fits dc p" "dc_disk dc' = dc_disk dc" "dc_page_size dc' = dc_page_size dc" "dc_compression dc' = dc_compression dc"
    using s(1) by (simp_all add: same_store_def slot_fits_def slot_stride_def)
qed

lemma ready_same:
  assumes "cache_ready C key m objs D dc" "same_pages dc' dc"
    and "\<And>gid p. get_group_state gid dc' = Present \<Longrightarrow> get_group_state gid dc \<noteq> Present \<Longrightarrow> p \<in> set (group_page_nums m gid) \<Longrightarrow> dc_is_present p dc"
  shows "cache_ready C key m objs D dc'"
proof -
  have inv: "cache_inv C dc" using assms(1) by (simp add: cache_ready_def)
  note v = same_pages_view [OF assms(2) inv]
  have "dc_is_present p dc" if "get_group_state gid dc' = Present" "p \<in> set (group_page_nums m gid)" for gid p
    using that assms(1,3) unfolding cache_ready_def by blast
  then show ?thesis using assms(1,2) v by (simp add: cache_ready_def same_pages_def)
qed

lemma ready_meta: "cache_ready C key m objs D dc \<Longrightarrow> same_pages dc' dc \<Longrightarrow> no_new_present dc' dc \<Longrightarrow> cache_ready C key m objs D dc'"
  by (rule ready_same) (auto simp: no_new_present_def)

lemma meta_steps:
  "same_pages (touch_group gid now dc) dc" "no_new_present (touch_group gid now dc) dc"
  "same_pages (mark_interior_group gid p i now dc) dc" "no_new_present (mark_interior_group gid p i now dc) dc"
  "same_pages (mark_index_page p gid i now dc) dc" "no_new_present (mark_index_page p gid i now dc) dc"
  by (simp_all add: touch_group_def mark_interior_group_def mark_index_page_def same_pages_def same_store_def no_new_present_def get_group_state_def Let_def)

lemma claim_steps:
  "same_pages (snd (unclaim_if_fetching gid dc)) dc" "no_new_present (snd (unclaim_if_fetching gid dc)) dc"
  "same_pages (snd (try_claim_group gid dc)) dc" "no_new_present (snd (try_claim_group gid dc)) dc"
  by (auto simp: unclaim_if_fetching_def try_claim_group_def store_group_state_def ensure_group_capacity_def same_pages_def same_store_def
      no_new_present_def get_group_state_def Let_def nth_list_update nth_append split: if_splits)

lemma no_new_present_trans: "no_new_present a b \<Longrightarrow> no_new_present b c \<Longrightarrow> no_new_present a c"
  by (simp add: no_new_present_def)

lemma detect_steps: "same_pages (detect_interior_page m p out now dc) dc" "no_new_present (detect_interior_page m p out now dc) dc"
  by (simp_all add: detect_interior_page_def meta_steps split: option.split)

lemma scan_frame_steps: "same_pages (scan_frame gid ps now data start i pages dc) dc \<and> no_new_present (scan_frame gid ps now data start i pages dc) dc"
proof (induction pages arbitrary: i dc)
  case (Cons p pages)
  let ?d = "case get data (i * ps + header_offset p) of
          None \<Rightarrow> dc
        | Some b \<Rightarrow>
            if is_interior_type b then mark_interior_group gid p ((start + i) mod U32_SIZE) now dc
            else if b = 0x0A \<and> i * ps + ps \<le> length data \<and> is_valid_btree_page (bslice (i * ps) ps data) (header_offset p)
            then mark_index_page p gid ((start + i) mod U32_SIZE) now dc
            else dc"
  have "same_pages ?d dc \<and> no_new_present ?d dc" by (auto simp: meta_steps split: option.split)
  then show ?case using Cons.IH [of "i + 1" ?d] by (auto intro: same_pages_trans no_new_present_trans)
qed simp

lemma scan_interior_steps: "same_pages (scan_interior gid ps now data i pages dc) dc \<and> no_new_present (scan_interior gid ps now data i pages dc) dc"
proof (induction pages arbitrary: i dc)
  case (Cons p pages)
  let ?d = "case get data (i * ps + header_offset p) of
          None \<Rightarrow> dc
        | Some b \<Rightarrow> if is_interior_type b then mark_interior_group gid p (i mod U32_SIZE) now dc else dc"
  have "same_pages ?d dc \<and> no_new_present ?d dc" by (auto simp: meta_steps split: option.split)
  then show ?case using Cons.IH [of "i + 1" ?d] by (auto intro: same_pages_trans no_new_present_trans)
qed simp

text \<open>With neither a limit nor a time to live, marking a group present evicts nothing.\<close>

lemma mark_group_steps:
  assumes "dc_ttl_secs dc = 0" "dc_budget_bytes dc = 0"
  shows "same_pages (mark_group_present piter iter now gid dc) dc"
    "get_group_state g (mark_group_present piter iter now gid dc) = (if g = gid then Present else get_group_state g dc)"
  using assms
  by (auto simp: mark_group_present_def evict_expired_def store_group_state_def ensure_group_capacity_def same_pages_def same_store_def
      get_group_state_def Let_def nth_list_update nth_append)

subsection \<open>Batches\<close>

definition same_settings :: "disk_cache \<Rightarrow> disk_cache \<Rightarrow> bool" where
  "same_settings dc' dc \<longleftrightarrow> dc_page_size dc' = dc_page_size dc \<and> dc_compression dc' = dc_compression dc \<and> dc_key dc' = dc_key dc
     \<and> dc_ttl_secs dc' = dc_ttl_secs dc \<and> dc_budget_bytes dc' = dc_budget_bytes dc \<and> dc_group_states dc' = dc_group_states dc"

lemma same_settings_trans: "same_settings a b \<Longrightarrow> same_settings b c \<Longrightarrow> same_settings a c"
  by (simp add: same_settings_def)

lemma setting_steps [simp]:
  "same_settings dc dc" "same_settings (snd (on_disk f dc)) dc" "same_settings (bitmap_ensure p dc) dc" "same_settings (bitmap_marks ps dc) dc"
  "same_settings (track_chunks cs now dc) dc" "same_settings (dc\<lparr>dc_index := ix\<rparr>) dc" "same_settings (snd (ensure_file_len n dc)) dc"
  by (auto simp: same_settings_def on_disk_def bitmap_ensure_def bitmap_marks_def track_chunks_def ensure_file_len_def and_then_def
      split: prod.splits sum.splits)

lemma install_settings: "same_settings (install_pages pds dc) dc"
proof (induction pds arbitrary: dc)
  case (Cons pd pds)
  have "same_settings (install_mem_cache_page (fst pd) (snd pd) dc) dc"
    by (simp add: same_settings_def install_mem_cache_page_def ensure_mem_cache_capacity_def Let_def split: option.split)
  then show ?case using Cons.IH [of "install_mem_cache_page (fst pd) (snd pd) dc"] same_settings_trans
    by (auto simp: install_pages_def case_prod_beta)
qed (simp add: install_pages_def)

lemma write_frames_settings: "write_frames C nonces i pds dc = (r, dc') \<Longrightarrow> same_settings dc' dc"
proof (induction pds arbitrary: i dc)
  case (Cons pd pds)
  obtain p d where pd: "pd = (p, d)" by fastforce
  show ?case
  proof (cases "page_frame C (dc_key dc) (nonces i) d")
    case (Inr frame)
    obtain r1 d1 where d1: "on_disk (write_all_at (slot_offset dc p) frame) dc = (r1, d1)" by fastforce
    then have "same_settings d1 dc" using setting_steps(2) [of "write_all_at (slot_offset dc p) frame" dc] by simp
    then show ?thesis using Cons.prems Inr d1 by (cases r1) (auto simp: pd intro: same_settings_trans dest: Cons.IH)
  qed (use Cons.prems in \<open>simp add: pd\<close>)
qed simp

lemma scattered_settings:
  assumes "write_pages_scattered C nonces now ps data gid start dc = (Inr (), dc')"
  shows "same_settings dc' dc"
proof -
  let ?w = "take (writable_count ps data (dc_page_size dc)) ps"
  have taint: "\<not> dc_tainted dc" using assms by (auto simp: write_pages_scattered_def check_tainted_def split: if_splits)
  show ?thesis
  proof (cases "ps = [] \<or> dc_page_size dc = 0 \<or> ?w = []")
    case True
    then have "dc' = dc" using assms taint unfolding write_pages_scattered_def check_tainted_def Let_def by (simp split: if_splits)
    then show ?thesis by simp
  next
    case some: False
    show ?thesis
    proof (cases "dc_compression dc")
      case True
      then obtain d1 cs where d1: "append_blobs C nonces ?w (Max (set ?w)) data (dc_page_size dc) dc = (Inr (), d1)" "dc' = track_chunks cs now d1"
        using assms taint some by (auto simp: write_pages_scattered_def check_tainted_def write_pages_scattered_compressed_def Let_def and_then_ok)
      have "same_settings d1 dc" using d1(1)
        by (auto simp: append_blobs_def Let_def and_then_def same_settings_def ensure_file_len_def on_disk_def bitmap_ensure_def bitmap_marks_def
            split: sum.splits prod.splits if_splits)
      then show ?thesis using d1(2) same_settings_trans setting_steps(5) by blast
    next
      case False
      let ?pds = "zip ?w (map (page_slice (dc_page_size dc) data) [0..<length ?w])"
      obtain d0 where d0: "promote_scattered_to_mem_cache ?w data dc = (Inr (), d0)"
        using assms taint some False by (auto simp: write_pages_scattered_def check_tainted_def Let_def and_then_ok)
      then have s0: "same_settings d0 dc" by (auto simp: promote_scattered_to_mem_cache_def Let_def install_settings split: if_splits)
      obtain d1 d2 cs n where d: "ensure_file_len n (bitmap_ensure (Max (set ?w)) d0) = (Inr (), d1)" "write_frames C nonces 0 ?pds d1 = (Inr (), d2)"
        "dc' = track_chunks cs now (bitmap_marks ?w d2)"
        using assms taint some False d0 by (auto simp: write_pages_scattered_def check_tainted_def Let_def and_then_ok)
      have "same_settings d1 d0" using setting_steps(7) [of n "bitmap_ensure (Max (set ?w)) d0"] setting_steps(3) same_settings_trans d(1) by (metis snd_conv)
      moreover have "same_settings d2 d1" by (rule write_frames_settings [OF d(2)])
      moreover have "same_settings dc' d2" using d(3) same_settings_trans setting_steps(4,5) by blast
      ultimately show ?thesis using s0 same_settings_trans by blast
    qed
  qed
qed

text \<open>Pages that agree with the store may enter the cache.\<close>

lemma install_ready:
  assumes "cache_codec C" "\<And>k. length (nonces k) = 12" "cache_ready C key m objs D dc" "distinct nums"
    and "length nums * page_size m \<le> length data" "\<And>p. p \<in> set nums \<Longrightarrow> p < page_count m"
    and "\<And>i loc. i < length nums \<Longrightarrow> page_location m (nums ! i) = Some loc
           \<Longrightarrow> remote_page C key m objs (pl_group_id loc) (pl_index loc) = Some (bslice (i * page_size m) (page_size m) data)"
    and "write_pages_scattered C nonces now nums data gid start dc = (Inr (), dc')"
  shows "cache_ready C key m objs D dc'" "q \<notin> set nums \<Longrightarrow> cache_view C dc' q = cache_view C dc q"
    "i < length nums \<Longrightarrow> cache_view C dc' (nums ! i) = Some (bslice (i * page_size m) (page_size m) data)"
    "dc_is_present q dc \<Longrightarrow> dc_is_present q dc'" "get_group_state g dc' = get_group_state g dc"
proof -
  have r: "cache_inv C dc" "no_faults (dc_disk dc)" "dc_page_size dc = page_size m" "dc_compression dc \<or> (\<forall>p \<in> set nums. slot_fits dc p)"
    using assms(3,6) by (auto simp: cache_ready_def)
  note w = write_pages_scattered_view [OF assms(1,2) r(1,2) assms(4) _ r(4) assms(8)]
  have v: "cache_inv C dc'" "cache_view C dc' = cache_view C dc ++ batch (page_size m) nums data" "no_faults (dc_disk dc')"
    using w assms(5) r(3) by simp_all
  note b = batch_iff [OF assms(4), of "page_size m" data] batch_dom [of "page_size m" nums data]
  have sl: "page_slice (page_size m) data k = bslice (k * page_size m) (page_size m) data" for k by (simp add: page_slice_def)
  show old: "cache_view C dc' q = cache_view C dc q" if "q \<notin> set nums" for q
  proof -
    have "batch (page_size m) nums data q = None" using b(2) [of q] that by blast
    then show ?thesis by (simp add: v(2) map_add_def)
  qed
  show new: "cache_view C dc' (nums ! i) = Some (bslice (i * page_size m) (page_size m) data)" if "i < length nums" for i
  proof -
    have "batch (page_size m) nums data (nums ! i) = Some (bslice (i * page_size m) (page_size m) data)" unfolding b(1) by (rule exI [of _ i]) (simp add: that sl)
    then show ?thesis by (simp add: v(2))
  qed
  show pres: "dc_is_present q dc'" if "dc_is_present q dc" for q
  proof -
    have "cache_view C dc q \<noteq> None" using that view_present [OF r(1)] by simp
    then have "cache_view C dc' q \<noteq> None" unfolding v(2) map_add_def by (cases "batch (page_size m) nums data q") simp_all
    then show ?thesis using view_present [OF v(1)] by blast
  qed
  have set: "same_settings dc' dc" by (rule scattered_settings [OF assms(8)])
  then show st: "get_group_state g dc' = get_group_state g dc" for g by (simp add: same_settings_def get_group_state_def)
  have fits: "slot_fits dc' p = slot_fits dc p" for p using set by (simp add: same_settings_def slot_fits_def slot_stride_def)
  have agree: "remote_page C key m objs (pl_group_id loc) (pl_index loc) = Some d"
    if "p \<notin> D" "page_location m p = Some loc" "cache_view C dc' p = Some d" for p loc d
  proof (cases "p \<in> set nums")
    case True
    then obtain i where i: "i < length nums" "p = nums ! i" by (auto simp: in_set_conv_nth)
    then show ?thesis using assms(7) new [OF i(1)] that by simp
  next
    case False
    then show ?thesis using that old [OF False] assms(3) unfolding cache_ready_def by auto
  qed
  show "cache_ready C key m objs D dc'"
    using assms(3) v(1,3) set fits agree pres st unfolding cache_ready_def by (simp add: same_settings_def)
qed

subsection \<open>The object store\<close>

text \<open>A group whose object the program's own encoder wrote, with override frames that open and cover their pages.\<close>

definition written_group :: "codec \<Rightarrow> bytes option \<Rightarrow> manifest \<Rightarrow> (string \<rightharpoonup> bytes) \<Rightarrow> nat \<Rightarrow> bool" where
  "written_group C key m objs gid \<longleftrightarrow>
     group_limits (page_size m) (length (group_page_nums m gid)) (page_count m)
     \<and> (\<exists>nonces pages data k ft. (\<forall>i. length (nonces i) = 12) \<and> length pages = length (group_page_nums m gid)
          \<and> (\<forall>d \<in> set pages. length d = page_size m)
          \<and> encoded_group C nonces key (page_size m) (sub_pages_per_frame m) gid (map Some pages) data ft \<and> length data < U32_SIZE
          \<and> get (page_group_keys m) gid = Some k \<and> k \<noteq> [] \<and> objs k = Some data
          \<and> (0 < sub_pages_per_frame m \<longrightarrow> get (frame_tables m) gid = Some ft))
     \<and> (\<forall>f ov. override_at m gid f = Some ov \<longrightarrow>
          (\<exists>raw. override_frame C key m objs gid f = Some raw
             \<and> length (bslice (f * sub_pages_per_frame m) (sub_pages_per_frame m) (group_page_nums m gid)) * page_size m \<le> length raw))"

lemma page_bytes_exact: "length d = ps \<Longrightarrow> page_bytes ps (Some d) = d"
  by (simp add: page_bytes_def zeros_def)

lemma map_page_bytes: "(\<forall>d \<in> set pages. length d = ps) \<Longrightarrow> map (page_bytes ps) (map Some pages) = pages"
  by (induction pages) (simp_all add: page_bytes_exact)

lemma written_pages:
  assumes "codec_contract C" "written_group C key m objs gid" "group_page_nums m gid \<noteq> []"
  obtains pages data k where "length pages = length (group_page_nums m gid)" "\<forall>d \<in> set pages. length d = page_size m"
    "get (page_group_keys m) gid = Some k" "k \<noteq> []" "objs k = Some data"
    "\<And>pos. pos < length pages \<Longrightarrow> base_page C key m objs gid pos = Some (pages ! pos)"
    "group_bulk C key m gid data = Inr (concat pages)" "has_frame_table m gid \<longleftrightarrow> 0 < sub_pages_per_frame m"
    "0 < sub_pages_per_frame m \<Longrightarrow> length (frame_tables m ! gid) = div_ceil (length pages) (sub_pages_per_frame m)"
    "\<And>i. 0 < sub_pages_per_frame m \<Longrightarrow> i < length (frame_tables m ! gid)
       \<Longrightarrow> decode_seekable_subchunk C (bslice (fe_offset (frame_tables m ! gid ! i)) (fe_len (frame_tables m ! gid ! i)) data) (aad_page_group gid) key
         = Inr (concat (bslice (i * sub_pages_per_frame m) (sub_pages_per_frame m) pages))"
proof -
  let ?n = "length (group_page_nums m gid)" and ?ps = "page_size m" and ?spf = "sub_pages_per_frame m"
  from assms(2) have lim: "group_limits ?ps ?n (page_count m)" by (simp add: written_group_def)
  from assms(2) obtain nonces pages data k ft where all: "(\<forall>i. length (nonces i) = 12) \<and> length pages = ?n \<and> (\<forall>d \<in> set pages. length d = ?ps)
     \<and> encoded_group C nonces key ?ps ?spf gid (map Some pages) data ft \<and> length data < U32_SIZE
     \<and> get (page_group_keys m) gid = Some k \<and> k \<noteq> [] \<and> objs k = Some data \<and> (0 < ?spf \<longrightarrow> get (frame_tables m) gid = Some ft)"
    unfolding written_group_def by (elim conjE exE) (rule that, intro conjI)
  then have w: "\<And>i. length (nonces i) = 12" "length pages = ?n" "\<forall>d \<in> set pages. length d = ?ps"
    "encoded_group C nonces key ?ps ?spf gid (map Some pages) data ft" "length data < U32_SIZE"
    "get (page_group_keys m) gid = Some k" "k \<noteq> []" "objs k = Some data" "0 < ?spf \<Longrightarrow> get (frame_tables m) gid = Some ft"
    by blast+
  have fit: "list_all (fits_page ?ps) (map Some pages)" using w(3) by (simp add: list_all_iff fits_page_def)
  have lim': "group_limits ?ps (length (map Some pages)) (page_count m)" using lim w(2) by simp
  have bytes: "map (page_bytes ?ps) (map Some pages) = pages" by (rule map_page_bytes [OF w(3)])
  have base: "base_page C key m objs gid pos = Some (pages ! pos)" if "pos < length pages" for pos
  proof -
    have "base_page C key m objs gid pos = Some (page_bytes ?ps (map Some pages ! pos))"
      by (rule encoded_group_page [of C nonces key m gid _ data ft k]) (use assms(1) w(1,2,4-6,8,9) lim' fit that in simp_all)
    then show ?thesis using that page_bytes_exact w(3) by simp
  qed
  have pos: "0 < length pages" using assms(3) w(2) by simp
  show thesis
  proof (cases "0 < ?spf")
    case True
    have e: "encode_page_group_seekable C nonces (map Some pages) ?ps ?spf (aad_page_group gid) key = Inr (data, ft)"
      using w(4) True by (simp add: encoded_group_def)
    have "min (?n mod U32_SIZE) (page_count m - 0) = length (map Some pages)" using lim w(2) by (simp add: group_limits_def)
    from seekable_decodes [OF assms(1) e w(1) fit _ True _ _ w(5) this] lim w(2)
    have d: "length ft = div_ceil (length pages) ?spf"
      "\<And>i. i < length ft \<Longrightarrow> decode_seekable_subchunk C (bslice (fe_offset (ft ! i)) (fe_len (ft ! i)) data) (aad_page_group gid) key
         = Inr (concat (map (page_bytes ?ps) (bslice (i * ?spf) ?spf (map Some pages))))"
      "decode_page_group_seekable_full C data ft ?ps (?n mod U32_SIZE) (page_count m) 0 (aad_page_group gid) key = Inr (length pages, ?ps, concat pages)"
      unfolding bytes by (simp_all add: group_limits_def)
    have part: "map (page_bytes ?ps) (bslice a b (map Some pages)) = bslice a b pages" for a b
    proof -
      have "map (page_bytes ?ps) (bslice a b (map Some pages)) = bslice a b (map (page_bytes ?ps) (map Some pages))"
        by (simp add: bslice_def take_map drop_map)
      then show ?thesis by (simp only: bytes)
    qed
    have g: "frame_tables m ! gid = ft" using w(9) [OF True] by (simp add: get_def split: if_splits)
    have "0 < div_ceil (length pages) ?spf" using less_div_ceil_iff [OF True, of 0 "length pages"] pos by simp
    then have "ft \<noteq> []" using d(1) by auto
    then have hf: "has_frame_table m gid" unfolding has_frame_table_def w(9) [OF True] by (simp add: True)
    have bulk: "group_bulk C key m gid data = Inr (concat pages)" using hf d(3) g by (simp add: group_bulk_def seekable_bulk_def)
    show thesis by (rule that [OF w(2,3,6-8) base bulk]) (use True hf d(1,2) g part in simp_all)
  next
    case False
    have e: "encode_page_group C (nonces 0) (map Some pages) ?ps (aad_page_group gid) key = Inr data" using w(4) False by (simp add: encoded_group_def)
    have "decode_page_group_bulk C data (aad_page_group gid) key = Inr (length (map Some pages), ?ps, concat (map (page_bytes ?ps) (map Some pages)))"
      using page_group_decodes [OF assms(1) e w(1) fit] lim w(2) by (simp add: group_limits_def)
    then have bulk: "group_bulk C key m gid data = Inr (concat pages)" using False unfolding bytes by (simp add: group_bulk_def has_frame_table_def)
    show thesis by (rule that [OF w(2,3,6-8) base bulk]) (use False in \<open>simp_all add: has_frame_table_def\<close>)
  qed
qed

text \<open>The page at a position of a decoded frame.\<close>

lemma slice_of_frame:
  assumes "\<forall>d \<in> set pages. length d = ps" "i < length (bslice a b pages)"
  shows "(i + 1) * ps \<le> length (concat (bslice a b pages))" "bslice (i * ps) ps (concat (bslice a b pages)) = pages ! (a + i)"
proof -
  have len: "length d = ps" if "d \<in> set (bslice a b pages)" for d
    using that assms(1) by (auto simp: bslice_def dest: in_set_takeD in_set_dropD)
  show "(i + 1) * ps \<le> length (concat (bslice a b pages))"
    using length_concat_equal [of "bslice a b pages" ps, OF len] mult_le_mono1 [of "i + 1" "length (bslice a b pages)" ps] assms(2) by simp
  have "bslice (i * ps) ps (concat (bslice a b pages)) = bslice a b pages ! i"
    using bslice_concat_equal [of "bslice a b pages" ps i, OF len] assms(2) by simp
  moreover have "a \<le> length pages" "i < b" using assms(2) by auto
  ultimately show "bslice (i * ps) ps (concat (bslice a b pages)) = pages ! (a + i)" by (simp add: bslice_def)
qed

text \<open>What fetching one frame brings: the raw frame, and that it holds the pages the manifest stands for.\<close>

definition frame_holds :: "codec \<Rightarrow> bytes option \<Rightarrow> manifest \<Rightarrow> (string \<rightharpoonup> bytes) \<Rightarrow> nat \<Rightarrow> nat \<Rightarrow> bytes \<Rightarrow> bool" where
  "frame_holds C key m objs gid f raw \<longleftrightarrow>
     (\<forall>i < length (bslice (f * sub_pages_per_frame m) (sub_pages_per_frame m) (group_page_nums m gid)).
        (i + 1) * page_size m \<le> length raw
        \<and> remote_page C key m objs gid (f * sub_pages_per_frame m + i) = Some (bslice (i * page_size m) (page_size m) raw))"

lemma base_frame_holds:
  assumes "codec_contract C" "written_group C key m objs gid" "group_page_nums m gid \<noteq> []" "0 < sub_pages_per_frame m" "override_at m gid f = None"
    and "f < length (frame_tables m ! gid)" "get (page_group_keys m) gid = Some k" "objs k = Some data"
    and "decode_seekable_subchunk C (bslice (fe_offset (frame_tables m ! gid ! f)) (fe_len (frame_tables m ! gid ! f)) data) (aad_page_group gid) key = Inr raw"
  shows "frame_holds C key m objs gid f raw"
proof -
  let ?spf = "sub_pages_per_frame m" and ?gp = "group_page_nums m gid"
  obtain pages data' k' where w: "length pages = length ?gp" "\<forall>d \<in> set pages. length d = page_size m"
    "get (page_group_keys m) gid = Some k'" "objs k' = Some data'" "\<And>pos. pos < length pages \<Longrightarrow> base_page C key m objs gid pos = Some (pages ! pos)"
    "\<And>i. i < length (frame_tables m ! gid)
       \<Longrightarrow> decode_seekable_subchunk C (bslice (fe_offset (frame_tables m ! gid ! i)) (fe_len (frame_tables m ! gid ! i)) data') (aad_page_group gid) key
         = Inr (concat (bslice (i * ?spf) ?spf pages))"
    using written_pages [OF assms(1-3)] assms(4) by metis
  have raw: "raw = concat (bslice (f * ?spf) ?spf pages)" using w(3,4) w(6) [OF assms(6)] assms(7-9) by simp
  show ?thesis unfolding frame_holds_def
  proof (intro allI impI)
    fix i assume i: "i < length (bslice (f * ?spf) ?spf ?gp)"
    then have i': "i < length (bslice (f * ?spf) ?spf pages)" "f * ?spf + i < length pages" "i < ?spf" using w(1) by auto
    have "(f * ?spf + i) div ?spf = f" using i'(3) by simp
    then have "remote_page C key m objs gid (f * ?spf + i) = Some (pages ! (f * ?spf + i))" using w(5) [OF i'(2)] assms(5) by (simp add: remote_page_split)
    then show "(i + 1) * page_size m \<le> length raw \<and> remote_page C key m objs gid (f * ?spf + i) = Some (bslice (i * page_size m) (page_size m) raw)"
      using slice_of_frame [OF w(2) i'(1)] by (simp add: raw)
  qed
qed

lemma override_frame_holds:
  assumes "written_group C key m objs gid" "0 < sub_pages_per_frame m" "override_at m gid f = Some ov" "objs (so_key ov) = Some data"
    and "decode_seekable_subchunk C data (aad_override_frame gid f) key = Inr raw"
  shows "frame_holds C key m objs gid f raw"
proof -
  let ?spf = "sub_pages_per_frame m" and ?gp = "group_page_nums m gid"
  have ov: "override_frame C key m objs gid f = Some raw" using assms(3-5) by (simp add: override_frame_def open_override_def)
  then have len: "length (bslice (f * ?spf) ?spf ?gp) * page_size m \<le> length raw" using assms(1,3) unfolding written_group_def by force
  show ?thesis unfolding frame_holds_def
  proof (intro allI impI)
    fix i assume i: "i < length (bslice (f * ?spf) ?spf ?gp)"
    then have le: "(i + 1) * page_size m \<le> length raw" using mult_le_mono1 [of "i + 1" "length (bslice (f * ?spf) ?spf ?gp)" "page_size m"] len by simp
    have "(f * ?spf + i) div ?spf = f" "(f * ?spf + i) mod ?spf = i" using i by simp_all
    then have "remote_page C key m objs gid (f * ?spf + i) = overlaid (page_size m) i raw (base_page C key m objs gid (f * ?spf + i))"
      using assms(2,3) ov unfolding remote_page_split by simp
    then show "(i + 1) * page_size m \<le> length raw \<and> remote_page C key m objs gid (f * ?spf + i) = Some (bslice (i * page_size m) (page_size m) raw)"
      using le by (simp add: overlaid_def)
  qed
qed

subsection \<open>Steps of a read\<close>

text \<open>
  What other threads may do to the cache while a read runs: they keep it ready, take no page away, and leave
  the pages with unsynced changes alone. The last is an assumption on the prefetch workers that the code does not enforce: a worker that
  has fetched a whole group writes all its pages, also over unsynced ones (\<open>src/src/tiered/prefetch.rs:1460\<close>), so the
  theorems on reads are about the times when no worker fetches a group with unsynced pages.
\<close>

definition threads_ok :: "codec \<Rightarrow> bytes option \<Rightarrow> manifest \<Rightarrow> (string \<rightharpoonup> bytes) \<Rightarrow> nat set \<Rightarrow> (nat \<Rightarrow> disk_cache \<Rightarrow> disk_cache) \<Rightarrow> bool" where
  "threads_ok C key m objs D t \<longleftrightarrow>
     (\<forall>k dc. cache_ready C key m objs D dc \<longrightarrow> cache_ready C key m objs D (t k dc) \<and> (\<forall>q. dc_is_present q dc \<longrightarrow> dc_is_present q (t k dc))
        \<and> (\<forall>q \<in> D. cache_view C (t k dc) q = cache_view C dc q))"

text \<open>A manifest whose page map is consistent and whose groups are all in the store.\<close>

definition store_ready :: "codec \<Rightarrow> bytes option \<Rightarrow> manifest \<Rightarrow> (string \<rightharpoonup> bytes) \<Rightarrow> bool" where
  "store_ready C key m objs \<longleftrightarrow> codec_contract C \<and> cache_codec C \<and> flush_layout m
     \<and> (\<forall>p loc. page_location m p = Some loc \<longrightarrow> group_in_range m (pl_group_id loc) \<and> pl_index loc < length (group_page_nums m (pl_group_id loc))
          \<and> group_page_nums m (pl_group_id loc) ! pl_index loc = p)
     \<and> (\<forall>gid. group_in_range m gid \<longrightarrow> group_page_nums m gid \<noteq> [] \<longrightarrow> written_group C key m objs gid)"

definition read_env :: "handle_env \<Rightarrow> read_answers \<Rightarrow> manifest \<Rightarrow> (string \<rightharpoonup> bytes) \<Rightarrow> nat set \<Rightarrow> bool" where
  "read_env E a m objs D \<longleftrightarrow> store_ready (he_codec E) (fe_key (he_flush E)) m objs \<and> threads_ok (he_codec E) (fe_key (he_flush E)) m objs D (ra_threads a)
     \<and> (\<forall>k. length (ra_nonces a k) = 12) \<and> ra_limit a = None \<and> \<not> fe_is_local (he_flush E)"

definition read_state :: "handle_env \<Rightarrow> manifest \<Rightarrow> (string \<rightharpoonup> bytes) \<Rightarrow> nat set \<Rightarrow> handle \<Rightarrow> bool" where
  "read_state E m objs D h \<longleftrightarrow> hn_manifest h = m \<and> bk_objects (fs_backend (hn_shared h)) = objs \<and> hn_dirty h = D
     \<and> cache_ready (he_codec E) (fe_key (he_flush E)) m objs D (hn_cache h)"

text \<open>From \<open>h\<close> to \<open>h'\<close> only pages of group \<open>gid\<close> and clean pages of other groups may have entered the cache.\<close>

definition moved :: "handle_env \<Rightarrow> manifest \<Rightarrow> (string \<rightharpoonup> bytes) \<Rightarrow> nat set \<Rightarrow> nat \<Rightarrow> handle \<Rightarrow> handle \<Rightarrow> bool" where
  "moved E m objs D gid h h' \<longleftrightarrow> read_state E m objs D h'
     \<and> (\<forall>q \<in> D. q \<notin> set (group_page_nums m gid) \<longrightarrow> cache_view (he_codec E) (hn_cache h') q = cache_view (he_codec E) (hn_cache h) q)
     \<and> (\<forall>q. dc_is_present q (hn_cache h) \<longrightarrow> dc_is_present q (hn_cache h'))"

lemma moved_trans: "moved E m objs D gid a b \<Longrightarrow> moved E m objs D gid b c \<Longrightarrow> moved E m objs D gid a c"
  by (simp add: moved_def)

lemma moved_refl: "read_state E m objs D h \<Longrightarrow> moved E m objs D gid h h"
  by (simp add: moved_def)

lemma moved_cache:
  assumes "read_state E m objs D h" "cache_ready (he_codec E) (fe_key (he_flush E)) m objs D (f (hn_cache h))"
    and "\<And>q. q \<in> D \<Longrightarrow> q \<notin> set (group_page_nums m gid) \<Longrightarrow> cache_view (he_codec E) (f (hn_cache h)) q = cache_view (he_codec E) (hn_cache h) q"
    and "\<And>q. dc_is_present q (hn_cache h) \<Longrightarrow> dc_is_present q (f (hn_cache h))"
  shows "moved E m objs D gid h (with_cache f h)"
  using assms by (simp add: moved_def read_state_def)

lemma moved_meta:
  assumes "read_state E m objs D h" "same_pages (f (hn_cache h)) (hn_cache h)" "no_new_present (f (hn_cache h)) (hn_cache h)"
  shows "moved E m objs D gid h (with_cache f h)"
proof -
  have r: "cache_ready (he_codec E) (fe_key (he_flush E)) m objs D (hn_cache h)" using assms(1) by (simp add: read_state_def)
  then have inv: "cache_inv (he_codec E) (hn_cache h)" by (simp add: cache_ready_def)
  note v = same_pages_view [OF assms(2) inv]
  show ?thesis by (rule moved_cache) (use assms(1) ready_meta [OF r assms(2,3)] v in simp_all)
qed

lemma moved_threads:
  assumes "read_env E a m objs D" "read_state E m objs D h"
  shows "moved E m objs D gid h (with_cache (ra_threads a k) h)"
proof -
  have "cache_ready (he_codec E) (fe_key (he_flush E)) m objs D (hn_cache h)" using assms(2) by (simp add: read_state_def)
  then show ?thesis using assms(1) unfolding read_env_def threads_ok_def by (intro moved_cache [OF assms(2)]) blast+
qed

lemma moved_state: "moved E m objs D gid h h' \<Longrightarrow> read_state E m objs D h'"
  by (simp add: moved_def)

lemma moved_wait:
  assumes "read_env E a m objs D" "read_state E m objs D h"
  shows "moved E m objs D gid h (wait_group a k g h)"
proof -
  note t = moved_threads [OF assms, of gid k]
  have "wait_group a k g h = with_cache (\<lambda>dc. snd (unclaim_if_fetching g dc)) (with_cache (ra_threads a k) h)"
    by (simp add: wait_group_def with_cache_def)
  moreover have "moved E m objs D gid (with_cache (ra_threads a k) h) (with_cache (\<lambda>dc. snd (unclaim_if_fetching g dc)) (with_cache (ra_threads a k) h))"
    by (intro moved_meta moved_state [OF t] claim_steps)
  ultimately show ?thesis using moved_trans [OF t] by simp
qed

lemma moved_served:
  assumes "read_state E m objs D h"
  shows "moved E m objs D gid h (note_served a p g out h)"
proof -
  let ?f = "\<lambda>dc. touch_group g (ra_now a) (detect_interior_page (hn_manifest h) p out (ra_now a) dc)"
  have "same_pages (?f (hn_cache h)) (hn_cache h)" "no_new_present (?f (hn_cache h)) (hn_cache h)"
    using same_pages_trans [OF meta_steps(1) detect_steps(1)] no_new_present_trans [OF meta_steps(2) detect_steps(2)] by blast+
  then show ?thesis unfolding note_served_def by (intro moved_meta assms)
qed

lemma moved_backend:
  assumes "read_state E m objs D h" "bk_objects b = objs"
  shows "moved E m objs D gid h (with_backend b h)"
  using assms by (simp add: moved_def read_state_def with_backend_def)

text \<open>A successful part of the read returns the page at \<open>(gid, idx)\<close>.\<close>

definition reads_page :: "handle_env \<Rightarrow> manifest \<Rightarrow> (string \<rightharpoonup> bytes) \<Rightarrow> nat set \<Rightarrow> nat \<Rightarrow> nat \<Rightarrow> handle \<Rightarrow> bytes io_result \<times> handle \<Rightarrow> bool" where
  "reads_page E m objs D gid idx h r \<longleftrightarrow>
     (\<forall>out h'. r = (Inr out, h') \<longrightarrow> remote_page (he_codec E) (fe_key (he_flush E)) m objs gid idx = Some out \<and> moved E m objs D gid h h')"

lemma reads_page_after: "moved E m objs D gid h h1 \<Longrightarrow> reads_page E m objs D gid idx h1 r \<Longrightarrow> reads_page E m objs D gid idx h r"
  unfolding reads_page_def using moved_trans by blast

lemma look_view:
  assumes "read_env E a m objs D" "read_state E m objs D h" "length buf = page_size m"
  shows "look E a k p buf h = (Inr (cache_view (he_codec E) (hn_cache (with_cache (ra_threads a k) h)) p), with_cache (ra_threads a k) h)"
proof -
  have "read_state E m objs D (with_cache (ra_threads a k) h)" using moved_state moved_threads [OF assms(1,2)] by blast
  then have "cache_inv (he_codec E) (ra_threads a k (hn_cache h))" "dc_page_size (ra_threads a k (hn_cache h)) = page_size m"
    by (simp_all add: read_state_def cache_ready_def)
  then show ?thesis using assms(3) read_view [of "he_codec E" "ra_threads a k (hn_cache h)" buf p] by (simp add: look_def)
qed

lemma view_remote:
  assumes "read_state E m objs D h" "p \<notin> D" "page_location m p = Some loc" "cache_view (he_codec E) (hn_cache h) p = Some out"
  shows "remote_page (he_codec E) (fe_key (he_flush E)) m objs (pl_group_id loc) (pl_index loc) = Some out"
  using assms unfolding read_state_def cache_ready_def by blast

lemma serve_reads:
  assumes "read_env E a m objs D" "read_state E m objs D h" "length buf = page_size m" "p \<notin> D" "page_location m p = Some loc"
    and "\<And>h1. moved E m objs D (pl_group_id loc) h h1 \<Longrightarrow> cache_view (he_codec E) (hn_cache h1) p = None
           \<Longrightarrow> reads_page E m objs D (pl_group_id loc) (pl_index loc) h1 (next h1)"
  shows "reads_page E m objs D (pl_group_id loc) (pl_index loc) h (serve_or a p (pl_group_id loc) (look E a k p buf h) next)"
proof -
  let ?h = "with_cache (ra_threads a k) h"
  note t = moved_threads [OF assms(1,2), of "pl_group_id loc" k]
  note st = moved_state [OF t]
  show ?thesis
  proof (cases "cache_view (he_codec E) (hn_cache ?h) p")
    case None
    then have "serve_or a p (pl_group_id loc) (look E a k p buf h) next = next ?h" by (simp only: look_view [OF assms(1-3)] serve_or_def and_then_simps option.case)
    then show ?thesis using reads_page_after [OF t assms(6) [OF t None]] by simp
  next
    case (Some out)
    then have "serve_or a p (pl_group_id loc) (look E a k p buf h) next = (Inr out, note_served a p (pl_group_id loc) out ?h)"
      by (simp only: look_view [OF assms(1-3)] serve_or_def and_then_simps option.case)
    then show ?thesis using view_remote [OF st assms(4,5) Some] moved_trans [OF t moved_served [OF st]] by (simp add: reads_page_def)
  qed
qed

end
