(* ===== verification/Read_Paths.thy ===== *)
theory Read_Paths
  imports Read_Correct Handle_Published
begin

text \<open>
  The paths of a read, one by one: the frame brought by a range request, the whole group, and the way
  \<open>read_exact_at\<close> chooses between them. Each returns the page the manifest stands for and keeps the cache ready.
\<close>

lemma env_facts:
  assumes "read_env E a m objs D"
  shows "codec_contract (he_codec E)" "cache_codec (he_codec E)" "flush_layout m" "\<And>k. length (ra_nonces a k) = 12" "ra_limit a = None" "\<not> fe_is_local (he_flush E)"
    "\<And>gid. group_in_range m gid \<Longrightarrow> group_page_nums m gid \<noteq> [] \<Longrightarrow> written_group (he_codec E) (fe_key (he_flush E)) m objs gid"
  using assms by (simp_all add: read_env_def store_ready_def)

lemma env_location:
  assumes "read_env E a m objs D" "page_location m p = Some loc"
  shows "group_in_range m (pl_group_id loc)" "pl_index loc < length (group_page_nums m (pl_group_id loc))"
    "group_page_nums m (pl_group_id loc) ! pl_index loc = p" "group_page_nums m (pl_group_id loc) \<noteq> []"
    "written_group (he_codec E) (fe_key (he_flush E)) m objs (pl_group_id loc)"
proof -
  show l: "group_in_range m (pl_group_id loc)" "pl_index loc < length (group_page_nums m (pl_group_id loc))" "group_page_nums m (pl_group_id loc) ! pl_index loc = p"
    using assms by (simp_all add: read_env_def store_ready_def)
  then show ne: "group_page_nums m (pl_group_id loc) \<noteq> []" by auto
  show "written_group (he_codec E) (fe_key (he_flush E)) m objs (pl_group_id loc)" by (rule env_facts(7) [OF assms(1) l(1) ne])
qed

lemma layout_location:
  "flush_layout m \<Longrightarrow> group_in_range m gid \<Longrightarrow> pos < length (group_page_nums m gid)
    \<Longrightarrow> page_location m (group_page_nums m gid ! pos) = Some \<lparr>pl_group_id = gid, pl_index = pos\<rparr>"
  by (simp add: flush_layout_def)

text \<open>Pages of one group that hold what the manifest stands for enter the cache of the handle.\<close>

lemma moved_install:
  assumes "read_env E a m objs D" "read_state E m objs D h" "group_in_range m gid"
    and "set nums \<subseteq> set (group_page_nums m gid)" "distinct nums" "length nums * page_size m \<le> length data"
    and "\<And>i. i < length nums \<Longrightarrow> pos i < length (group_page_nums m gid) \<and> nums ! i = group_page_nums m gid ! pos i
           \<and> remote_page (he_codec E) (fe_key (he_flush E)) m objs gid (pos i) = Some (bslice (i * page_size m) (page_size m) data)"
    and "on_cache (write_pages_scattered (he_codec E) (ra_nonces a) now nums data g start) h = (Inr (), h')"
  shows "moved E m objs D gid h h'" "\<And>p. p \<in> set nums \<Longrightarrow> dc_is_present p (hn_cache h')"
proof -
  obtain dc' where w: "write_pages_scattered (he_codec E) (ra_nonces a) now nums data g start (hn_cache h) = (Inr (), dc')" "h' = with_cache (\<lambda>_. dc') h"
    using assms(8) by (auto simp: on_cache_def split: prod.splits)
  note f = env_facts [OF assms(1)]
  have r: "cache_ready (he_codec E) (fe_key (he_flush E)) m objs D (hn_cache h)" using assms(2) by (simp add: read_state_def)
  have bound: "p < page_count m" if "p \<in> set nums" for p using that assms(4) layout_bound [OF f(3)] by blast
  have rem: "remote_page (he_codec E) (fe_key (he_flush E)) m objs (pl_group_id loc) (pl_index loc) = Some (bslice (i * page_size m) (page_size m) data)"
    if "i < length nums" "page_location m (nums ! i) = Some loc" for i loc
    using assms(7) [OF that(1)] layout_location [OF f(3) assms(3), of "pos i"] that(2) by auto
  have n: "cache_ready (he_codec E) (fe_key (he_flush E)) m objs D dc'" "\<And>q. q \<notin> set nums \<Longrightarrow> cache_view (he_codec E) dc' q = cache_view (he_codec E) (hn_cache h) q"
    "\<And>i. i < length nums \<Longrightarrow> cache_view (he_codec E) dc' (nums ! i) = Some (bslice (i * page_size m) (page_size m) data)"
    "\<And>q. dc_is_present q (hn_cache h) \<Longrightarrow> dc_is_present q dc'"
    using install_ready [OF f(2,4) r assms(5,6) _ _ w(1)] bound rem by blast+
  show "moved E m objs D gid h h'" unfolding w(2)
  proof (rule moved_cache [OF assms(2)])
    show "cache_view (he_codec E) dc' q = cache_view (he_codec E) (hn_cache h) q" if nq: "q \<notin> set (group_page_nums m gid)" for q
      by (rule n(2)) (rule contra_subsetD [OF assms(4) nq])
  qed (rule n(1), rule n(4))
  show "dc_is_present p (hn_cache h')" if p: "p \<in> set nums" for p
  proof -
    obtain i where "i < length nums" "p = nums ! i" using p by (auto simp: in_set_conv_nth)
    then have "cache_view (he_codec E) dc' p \<noteq> None" using n(3) by simp
    moreover have "cache_inv (he_codec E) dc'" using n(1) by (simp add: cache_ready_def)
    ultimately show ?thesis unfolding w(2) using view_present by simp
  qed
qed

subsection \<open>One frame\<close>

lemma frame_nums:
  assumes "f * sub_pages_per_frame m \<le> length (group_page_nums m gid)"
  shows "frame_page_nums m gid f = Inr (bslice (f * sub_pages_per_frame m) (sub_pages_per_frame m) (group_page_nums m gid))"
  using assms by (auto simp: frame_page_nums_def Let_def bslice_def min_def)

lemma bslice_subset: "set (bslice a b xs) \<subseteq> set xs"
  by (auto simp: bslice_def dest: in_set_takeD in_set_dropD)

lemma distinct_bslice: "distinct xs \<Longrightarrow> distinct (bslice a b xs)"
  by (simp add: bslice_def)

lemma bslice_take: "off + k \<le> n \<Longrightarrow> bslice off k (take n xs) = bslice off k xs"
  by (simp add: bslice_def drop_take take_take min_def)

lemma install_frame_reads:
  assumes "read_env E a m objs D" "read_state E m objs D h" "length buf = page_size m" "page_location m p = Some loc"
    and "0 < sub_pages_per_frame m" "frame_holds (he_codec E) (fe_key (he_flush E)) m objs (pl_group_id loc) (pl_index loc div sub_pages_per_frame m) raw"
    and "install_frame E a p (pl_group_id loc) (pl_index loc div sub_pages_per_frame m) (pl_index loc mod sub_pages_per_frame m) m raw buf h = (Inr res, h')"
  shows "res = remote_page (he_codec E) (fe_key (he_flush E)) m objs (pl_group_id loc) (pl_index loc) \<and> res \<noteq> None \<and> moved E m objs D (pl_group_id loc) h h'"
proof -
  let ?spf = "sub_pages_per_frame m" and ?gid = "pl_group_id loc" and ?ps = "page_size m"
  let ?f = "pl_index loc div ?spf" and ?j = "pl_index loc mod ?spf" and ?gp = "group_page_nums m (pl_group_id loc)"
  let ?start = "?f * ?spf" let ?nums = "bslice ?start ?spf ?gp" let ?n = "length ?nums"
  note l = env_location [OF assms(1,4)] and fl = env_facts [OF assms(1)]
  have idx: "?start + ?j = pl_index loc" "?j < ?spf" using assms(5) by simp_all
  have start: "?start \<le> length ?gp" using idx(1) l(2) by linarith
  have "?j < length ?gp - ?start" using idx(1) l(2) by linarith
  then have j: "?j < ?n" using idx(2) by simp
  have hold: "(i + 1) * ?ps \<le> length raw" "remote_page (he_codec E) (fe_key (he_flush E)) m objs ?gid (?start + i) = Some (bslice (i * ?ps) ?ps raw)"
    if "i < ?n" for i using assms(6) that unfolding frame_holds_def by blast+
  let ?out = "bslice (?j * ?ps) ?ps raw"
  have out: "(if ?j * ?ps + length buf \<le> length raw then bslice (?j * ?ps) (length buf) raw else zeros (length buf)) = ?out"
    using hold(1) [OF j] assms(3) by (simp add: add.commute)
  have last: "?n - 1 < ?n" "?n - 1 + 1 = ?n" using j by linarith+
  have full: "?n * ?ps \<le> length raw" using hold(1) [OF last(1)] unfolding last(2) .
  have ne: "?nums \<noteq> []" using j by (metis less_nat_zero_code list.size(3))
  let ?data = "take (?n * ?ps) raw"
  obtain h1 where w: "on_cache (write_pages_scattered (he_codec E) (ra_nonces a) (ra_now a) ?nums ?data ?gid (?start mod U32_SIZE)) h = (Inr (), h1)"
    and h': "res = Some ?out" "h' = note_served a p ?gid ?out (with_cache (scan_frame ?gid ?ps (ra_now a) raw ?start 0 ?nums) h1)"
    using assms(7) out full ne frame_nums [OF start] by (auto simp: install_frame_def Let_def and_then_ok)
  have part: "bslice (i * ?ps) ?ps ?data = bslice (i * ?ps) ?ps raw" if "i < ?n" for i
    using mult_le_mono1 [of "i + 1" ?n ?ps] that by (intro bslice_take) simp
  have m1: "moved E m objs D ?gid h h1"
  proof (rule moved_install(1) [OF assms(1,2) l(1) bslice_subset _ _ _ w, where pos = "\<lambda>i. ?start + i"])
    show "distinct ?nums" using layout_distinct [OF fl(3)] by (rule distinct_bslice)
    show "?n * ?ps \<le> length ?data" using full by simp
    show "?start + i < length ?gp \<and> ?nums ! i = ?gp ! (?start + i) \<and> remote_page (he_codec E) (fe_key (he_flush E)) m objs ?gid (?start + i) = Some (bslice (i * ?ps) ?ps ?data)"
      if "i < ?n" for i using hold(2) [OF that] part [OF that] that start by (auto simp: bslice_def)
  qed
  have m2: "moved E m objs D ?gid h1 (with_cache (scan_frame ?gid ?ps (ra_now a) raw ?start 0 ?nums) h1)"
    using scan_frame_steps by (intro moved_meta moved_state [OF m1]) blast+
  have m3: "moved E m objs D ?gid (with_cache (scan_frame ?gid ?ps (ra_now a) raw ?start 0 ?nums) h1) h'"
    unfolding h'(2) by (rule moved_served [OF moved_state [OF m2]])
  show ?thesis using hold(2) [OF j] idx(1) h'(1) moved_trans [OF m1 moved_trans [OF m2 m3]] by simp
qed

lemma get_objects: "bk_objects (snd (get_page_group k b)) = bk_objects b" "get_page_group k b = (Inr r, b') \<Longrightarrow> r = bk_objects b k"
  by (auto simp: get_page_group_def tick_def split: option.splits prod.splits)

lemma range_objects:
  "bk_objects (snd (range_get_store k off len b)) = bk_objects b"
  "range_get_store k off len b = (Inr r, b') \<Longrightarrow> r = map_option (bslice off len) (bk_objects b k)"
  by (auto simp: range_get_store_def range_get_def validate_range_get_result_def tick_def split: option.splits prod.splits sum.splits if_splits)

lemma moved_store:
  assumes "read_state E m objs D h" "\<And>b. bk_objects (snd (f b)) = bk_objects b" "on_store f h = (r, h')"
  shows "moved E m objs D gid h h'"
proof -
  obtain b where b: "f (fs_backend (hn_shared h)) = (r, b)" "h' = with_backend b h" using assms(3) by (auto simp: on_store_def split: prod.splits)
  then have "bk_objects b = objs" using assms(1) assms(2) [of "fs_backend (hn_shared h)"] by (simp add: read_state_def)
  then show ?thesis unfolding b(2) by (rule moved_backend [OF assms(1)])
qed

lemma fetch_frame_reads:
  assumes "read_env E a m objs D" "read_state E m objs D h" "length buf = page_size m" "page_location m p = Some loc"
    and "0 < sub_pages_per_frame m" "pl_index loc div sub_pages_per_frame m < length (frame_tables m ! pl_group_id loc)"
    and "fetch_frame E a p (pl_group_id loc) (pl_index loc) buf h = (Inr res, h')"
  shows "res = remote_page (he_codec E) (fe_key (he_flush E)) m objs (pl_group_id loc) (pl_index loc) \<and> res \<noteq> None \<and> moved E m objs D (pl_group_id loc) h h'"
proof -
  let ?C = "he_codec E" and ?key = "fe_key (he_flush E)" and ?gid = "pl_group_id loc" and ?f = "pl_index loc div sub_pages_per_frame m"
  let ?entry = "frame_tables m ! ?gid ! ?f"
  note l = env_location [OF assms(1,4)] and fl = env_facts [OF assms(1)]
  have m: "hn_manifest h = m" and objs: "bk_objects (fs_backend (hn_shared h)) = objs" using assms(2) by (simp_all add: read_state_def)
  obtain k data where k: "get (page_group_keys m) ?gid = Some k" "objs k = Some data"
    by (rule written_pages [OF fl(1) l(5,4)]) blast
  define g where "g = (case override_at m ?gid ?f of Some ov \<Rightarrow> get_page_group (so_key ov) | None \<Rightarrow> range_get_store k (fe_offset ?entry) (fe_len ?entry))"
  have objs_g: "bk_objects (snd (g b)) = bk_objects b" for b by (simp add: g_def get_objects range_objects split: option.split)
  obtain r h1 where h1: "on_store g h = (r, h1)" by fastforce
  note m1 = moved_store [OF assms(2) objs_g h1, of ?gid]
  obtain b where b: "g (fs_backend (hn_shared h)) = (r, b)" using h1 by (auto simp: on_store_def split: prod.splits)
  let ?aad = "if override_at m ?gid ?f = None then aad_page_group ?gid else aad_override_frame ?gid ?f"
  have run: "fetch_frame E a p ?gid (pl_index loc) buf h = and_then (r, h1) (\<lambda>fetched h.
      case fetched of
        None \<Rightarrow> if override_at m ?gid ?f = None then (Inr None, h) else (Inl (Io NotFound ''seekable frame object missing''), h)
      | Some frame \<Rightarrow>
          (case decode_seekable_subchunk ?C frame ?aad ?key of
             Inl e \<Rightarrow> (Inl e, h)
           | Inr raw \<Rightarrow> install_frame E a p ?gid ?f (pl_index loc mod sub_pages_per_frame m) m raw buf h))"
    by (simp only: fetch_frame_def Let_def m k(1) option.case g_def [symmetric] h1)
  obtain fetched where r: "r = Inr fetched" using assms(7) unfolding run by (cases r) simp_all
  show ?thesis
  proof (cases "override_at m ?gid ?f")
    case None
    then have "range_get_store k (fe_offset ?entry) (fe_len ?entry) (fs_backend (hn_shared h)) = (Inr fetched, b)" using b r by (simp add: g_def)
    from range_objects(2) [OF this] have f: "fetched = Some (bslice (fe_offset ?entry) (fe_len ?entry) data)" using objs k(2) by simp
    obtain raw where raw: "decode_seekable_subchunk ?C (bslice (fe_offset ?entry) (fe_len ?entry) data) (aad_page_group ?gid) ?key = Inr raw"
      and inst: "install_frame E a p ?gid ?f (pl_index loc mod sub_pages_per_frame m) m raw buf h1 = (Inr res, h')"
      using assms(7) unfolding run r f
      by (cases "decode_seekable_subchunk ?C (bslice (fe_offset ?entry) (fe_len ?entry) data) (aad_page_group ?gid) ?key") (simp_all add: None)
    have "frame_holds ?C ?key m objs ?gid ?f raw" by (rule base_frame_holds [OF fl(1) l(5,4) assms(5) None assms(6) k raw])
    from install_frame_reads [OF assms(1) moved_state [OF m1] assms(3-5) this inst] m1 moved_trans show ?thesis by blast
  next
    case (Some ov)
    then have "get_page_group (so_key ov) (fs_backend (hn_shared h)) = (Inr fetched, b)" using b r by (simp add: g_def)
    from get_objects(2) [OF this] have f: "fetched = objs (so_key ov)" using objs by simp
    obtain d where d: "fetched = Some d" using assms(7) Some unfolding run r by (cases fetched) simp_all
    obtain raw where raw: "decode_seekable_subchunk ?C d (aad_override_frame ?gid ?f) ?key = Inr raw"
      and inst: "install_frame E a p ?gid ?f (pl_index loc mod sub_pages_per_frame m) m raw buf h1 = (Inr res, h')"
      using assms(7) unfolding run r d by (cases "decode_seekable_subchunk ?C d (aad_override_frame ?gid ?f) ?key") (simp_all add: Some)
    have "frame_holds ?C ?key m objs ?gid ?f raw" by (rule override_frame_holds [OF l(5) assms(5) Some _ raw]) (use f d in simp)
    from install_frame_reads [OF assms(1) moved_state [OF m1] assms(3-5) this inst] m1 moved_trans show ?thesis by blast
  qed
qed

subsection \<open>A whole group\<close>

text \<open>With no override frames the base object holds what the manifest stands for.\<close>

definition base_only :: "manifest \<Rightarrow> nat \<Rightarrow> bool" where
  "base_only m gid \<longleftrightarrow> sub_pages_per_frame m = 0 \<or> (\<forall>f. override_at m gid f = None)"

lemma release_moved: "read_state E m objs D h \<Longrightarrow> moved E m objs D gid h (release g h)"
  unfolding release_def by (intro moved_meta claim_steps)

lemma present_group:
  assumes "read_state E m objs D h" "get_group_state gid (hn_cache h) = Present" "p \<in> set (group_page_nums m gid)"
  shows "dc_is_present p (hn_cache h)"
  using assms unfolding read_state_def cache_ready_def by blast

lemma touch_state: "get_group_state g (touch_group gid now dc) = get_group_state g dc"
  by (simp add: touch_group_def get_group_state_def Let_def)

lemma install_group_moved:
  assumes "read_env E a m objs D" "read_state E m objs D h" "group_in_range m gid" "group_page_nums m gid \<noteq> []" "base_only m gid"
    and "get (page_group_keys m) gid = Some k" "objs k = Some data" "install_group E a gid m data h = (Inr (), h')"
  shows "moved E m objs D gid h h' \<and> get_group_state gid (hn_cache h') = Present"
proof -
  let ?F = "he_flush E" and ?gp = "group_page_nums m gid" and ?ps = "page_size m"
  note fl = env_facts [OF assms(1)]
  obtain pages k' data' where w: "length pages = length ?gp" "\<forall>d \<in> set pages. length d = ?ps" "get (page_group_keys m) gid = Some k'" "objs k' = Some data'"
    "\<And>pos. pos < length pages \<Longrightarrow> base_page (he_codec E) (fe_key ?F) m objs gid pos = Some (pages ! pos)"
    "group_bulk (he_codec E) (fe_key ?F) m gid data' = Inr (concat pages)"
    by (rule written_pages [OF fl(1) fl(7) [OF assms(3,4)] assms(4)]) blast
  have bulk: "group_bulk (he_codec E) (fe_key ?F) m gid data = Inr (concat pages)" using w(3,4,6) assms(6,7) by simp
  have len: "length (concat pages) = length ?gp * ?ps" using length_concat_equal [of pages ?ps] w(1,2) by simp
  obtain h1 where h1: "on_cache (write_pages_scattered (he_codec E) (ra_nonces a) (ra_now a) ?gp (concat pages) gid 0) h = (Inr (), h1)"
    and h': "h' = with_cache (\<lambda>dc. touch_group gid (ra_now a) (mark_group_present (fe_iter ?F) (fe_chunk_iter ?F) (ra_now a) gid
               (scan_interior gid ?ps (ra_now a) (concat pages) 0 ?gp dc))) h1"
    using assms(4,8) len bulk by (auto simp: install_group_def Let_def split: prod.splits sum.splits)
  have rem: "remote_page (he_codec E) (fe_key ?F) m objs gid i = Some (bslice (i * ?ps) ?ps (concat pages))" if "i < length ?gp" for i
  proof -
    have "remote_page (he_codec E) (fe_key ?F) m objs gid i = Some (pages ! i)"
      using w(1) w(5) [of i] that assms(5) by (auto simp: remote_page_split base_only_def)
    then show ?thesis using bslice_concat_equal [of pages ?ps i] w(1,2) that by simp
  qed
  have mi: "moved E m objs D gid h h1" "\<And>p. p \<in> set ?gp \<Longrightarrow> dc_is_present p (hn_cache h1)"
    using moved_install [OF assms(1-3) subset_refl layout_distinct [OF fl(3)] _ _ h1, of "\<lambda>i. i"] len rem by simp_all
  let ?d = "scan_interior gid ?ps (ra_now a) (concat pages) 0 ?gp (hn_cache h1)"
  let ?d2 = "mark_group_present (fe_iter ?F) (fe_chunk_iter ?F) (ra_now a) gid ?d"
  have r1: "cache_ready (he_codec E) (fe_key ?F) m objs D (hn_cache h1)" using moved_state [OF mi(1)] by (simp add: read_state_def)
  have sd: "same_pages ?d (hn_cache h1)" "no_new_present ?d (hn_cache h1)" using scan_interior_steps by blast+
  have ttl: "dc_ttl_secs ?d = 0" "dc_budget_bytes ?d = 0" using sd(1) r1 by (simp_all add: same_pages_def cache_ready_def)
  note mg = mark_group_steps [OF ttl, where piter = "fe_iter ?F" and iter = "fe_chunk_iter ?F" and now = "ra_now a" and gid = gid]
  have s3: "same_pages (touch_group gid (ra_now a) ?d2) (hn_cache h1)"
    using meta_steps(1) mg(1) sd(1) same_pages_trans by blast
  have st: "get_group_state g (touch_group gid (ra_now a) ?d2) = (if g = gid then Present else get_group_state g ?d)" for g
    unfolding touch_state by (rule mg(2))
  have inv: "cache_inv (he_codec E) (hn_cache h1)" using r1 by (simp add: cache_ready_def)
  note v = same_pages_view [OF s3 inv]
  have "cache_ready (he_codec E) (fe_key ?F) m objs D (touch_group gid (ra_now a) ?d2)"
    by (rule ready_same [OF r1 s3]) (use st sd(2) mi(2) in \<open>auto simp: no_new_present_def split: if_splits\<close>)
  then have "moved E m objs D gid h1 h'" unfolding h' by (intro moved_cache moved_state [OF mi(1)]) (use v in simp_all)
  then show ?thesis using moved_trans [OF mi(1)] st [of gid] by (simp add: h')
qed

lemma download_moved:
  assumes "read_env E a m objs D" "read_state E m objs D h" "group_in_range m gid" "group_page_nums m gid \<noteq> []" "base_only m gid"
    and "download_group E a gid h = (Inr (), h')"
  shows "moved E m objs D gid h h' \<and> get_group_state gid (hn_cache h') = Present"
proof -
  note fl = env_facts [OF assms(1)]
  obtain k data where k: "get (page_group_keys m) gid = Some k" "k \<noteq> []" "objs k = Some data"
    by (rule written_pages [OF fl(1) fl(7) [OF assms(3,4)] assms(4)]) blast
  have m: "hn_manifest h = m" and objs: "bk_objects (fs_backend (hn_shared h)) = objs" using assms(2) by (simp_all add: read_state_def)
  obtain r h1 where h1: "on_store (get_page_group k) h = (r, h1)" by fastforce
  note m1 = moved_store [OF assms(2) get_objects(1) h1, of gid]
  have run: "download_group E a gid h = (case r of Inl e \<Rightarrow> (Inl (Io Other ''S3 GET failed''), release gid h1)
      | Inr None \<Rightarrow> (Inr (), release gid h1) | Inr (Some data) \<Rightarrow> install_group E a gid m data h1)"
    using k(2) by (simp only: download_group_def Let_def m k(1) option.case if_False h1) (simp split: sum.split option.split)
  obtain found where r: "r = Inr found" using assms(6) unfolding run by (cases r) simp_all
  obtain b where "get_page_group k (fs_backend (hn_shared h)) = (Inr found, b)" using h1 r by (auto simp: on_store_def split: prod.splits)
  from get_objects(2) [OF this] have "found = Some data" using objs k(3) by simp
  then have "install_group E a gid m data h1 = (Inr (), h')" using assms(6) unfolding run r by simp
  from install_group_moved [OF assms(1) moved_state [OF m1] assms(3-5) k(1,3) this] m1 moved_trans show ?thesis by blast
qed

lemma fetch_group_moved:
  assumes "read_env E a m objs D" "read_state E m objs D h" "group_in_range m gid" "group_page_nums m gid \<noteq> []" "base_only m gid"
    and "fetch_group E a gid h = (Inr (), h')"
  shows "moved E m objs D gid h h' \<and> get_group_state gid (hn_cache h') = Present"
proof -
  define h1 where "h1 = (if get_group_state gid (hn_cache h) = Fetching then wait_group a 5 gid h else h)"
  have m1: "moved E m objs D gid h h1" using moved_wait [OF assms(1,2)] moved_refl [OF assms(2)] by (simp add: h1_def)
  have free: "get_group_state gid (hn_cache h1) \<noteq> Fetching"
    by (auto simp: h1_def wait_group_def unclaim_if_fetching_def get_group_state_def store_group_state_def split: if_splits)
  show ?thesis
  proof (cases "get_group_state gid (hn_cache h1) = Present")
    case True
    then show ?thesis using m1 assms(6) by (simp add: fetch_group_def h1_def Let_def)
  next
    case False
    then have "get_group_state gid (hn_cache h1) = GroupNone" using free by (cases "get_group_state gid (hn_cache h1)") simp_all
    then have "fst (try_claim_group gid (hn_cache h1))"
      by (auto simp: try_claim_group_def get_group_state_def ensure_group_capacity_def Let_def nth_append split: if_splits)
    then obtain dc where dc: "try_claim_group gid (hn_cache h1) = (True, dc)" by (cases "try_claim_group gid (hn_cache h1)") simp
    then have run: "download_group E a gid (with_cache (\<lambda>_. dc) h1) = (Inr (), h')" using assms(6) False by (simp add: fetch_group_def h1_def Let_def)
    have "moved E m objs D gid h1 (with_cache (\<lambda>_. dc) h1)"
      using claim_steps(3,4) [of gid "hn_cache h1"] dc by (intro moved_meta moved_state [OF m1]) simp_all
    then have m2: "moved E m objs D gid h (with_cache (\<lambda>_. dc) h1)" using m1 moved_trans by blast
    from download_moved [OF assms(1) moved_state [OF m2] assms(3-5) run] m2 moved_trans show ?thesis by blast
  qed
qed

lemma read_group_reads:
  assumes "read_env E a m objs D" "read_state E m objs D h" "length buf = page_size m" "p \<notin> D" "page_location m p = Some loc" "base_only m (pl_group_id loc)"
  shows "reads_page E m objs D (pl_group_id loc) (pl_index loc) h (read_group E a p (pl_group_id loc) buf h)"
proof -
  let ?gid = "pl_group_id loc"
  note l = env_location [OF assms(1,5)]
  obtain r h1 where f: "fetch_group E a ?gid h = (r, h1)" by fastforce
  show ?thesis
  proof (cases r)
    case (Inl e)
    then show ?thesis using f by (simp add: read_group_def reads_page_def)
  next
    case (Inr u)
    then have m1: "moved E m objs D ?gid h h1" and pr: "get_group_state ?gid (hn_cache h1) = Present"
      using fetch_group_moved [OF assms(1,2) l(1,4) assms(6)] f by simp_all
    have here: "dc_is_present p (hn_cache h1)" by (rule present_group [OF moved_state [OF m1] pr]) (use l(2,3) in \<open>metis nth_mem\<close>)
    have "reads_page E m objs D ?gid (pl_index loc) h1 (serve_or a p ?gid (look E a 7 p buf h1) (read_raw_slot E a p ?gid buf))"
    proof (rule serve_reads [OF assms(1) moved_state [OF m1] assms(3-5)])
      fix h2 assume m2: "moved E m objs D ?gid h1 h2" and none: "cache_view (he_codec E) (hn_cache h2) p = None"
      have "dc_is_present p (hn_cache h2)" using m2 here by (simp add: moved_def)
      moreover have "cache_inv (he_codec E) (hn_cache h2)" using moved_state [OF m2] by (simp add: read_state_def cache_ready_def)
      ultimately have False using none view_present [of "he_codec E" "hn_cache h2" p] by blast
      then show "reads_page E m objs D ?gid (pl_index loc) h2 (read_raw_slot E a p ?gid buf h2)" ..
    qed
    then show ?thesis using reads_page_after [OF m1] f Inr by (simp add: read_group_def)
  qed
qed

subsection \<open>The choice of the path\<close>

lemma reads_error: "reads_page E m objs D gid idx h (Inl e, h')"
  by (simp add: reads_page_def)

lemma serve_maybe:
  assumes "read_env E a m objs D" "read_state E m objs D h" "length buf = page_size m" "p \<notin> D" "page_location m p = Some loc"
    and "\<And>h1. moved E m objs D (pl_group_id loc) h h1 \<Longrightarrow> reads_page E m objs D (pl_group_id loc) (pl_index loc) h1 (next h1)"
    and "moved E m objs D (pl_group_id loc) h h0"
  shows "reads_page E m objs D (pl_group_id loc) (pl_index loc) h
    (serve_or a p (pl_group_id loc) (if c then look E a k p buf h0 else (Inr None, h)) next)"
proof (cases c)
  case True
  have "reads_page E m objs D (pl_group_id loc) (pl_index loc) h0 (serve_or a p (pl_group_id loc) (look E a k p buf h0) next)"
    by (rule serve_reads [OF assms(1) moved_state [OF assms(7)] assms(3-5)]) (use assms(6,7) moved_trans in blast)
  then show ?thesis using True reads_page_after [OF assms(7)] by simp
next
  case False
  then show ?thesis using assms(6) [OF moved_refl [OF assms(2)]] by (simp add: serve_or_def)
qed

lemma read_frame_reads:
  assumes "read_env E a m objs D" "read_state E m objs D h" "length buf = page_size m" "p \<notin> D" "page_location m p = Some loc"
    and "ra_scan a \<longrightarrow> base_only m (pl_group_id loc)"
  shows "reads_page E m objs D (pl_group_id loc) (pl_index loc) h
    (read_frame E a p (pl_group_id loc) (pl_index loc) buf (read_group E a p (pl_group_id loc) buf) h)"
proof -
  let ?gid = "pl_group_id loc" and ?spf = "sub_pages_per_frame m"
  note l = env_location [OF assms(1,5)] and fl = env_facts [OF assms(1)]
  have m: "hn_manifest h = m" using assms(2) by (simp add: read_state_def)
  have table: "has_frame_table m ?gid \<longleftrightarrow> 0 < ?spf" "0 < ?spf \<Longrightarrow> length (frame_tables m ! ?gid) = div_ceil (length (group_page_nums m ?gid)) ?spf"
    and key: "?gid < length (page_group_keys m)"
    by (rule written_pages [OF fl(1) l(5,4)], simp)+
  show ?thesis
  proof (cases "0 < ?spf \<and> \<not> ra_scan a")
    case True
    then have spf: "0 < ?spf" by simp
    have "pl_index loc div ?spf * ?spf \<le> pl_index loc" by simp
    then have "pl_index loc div ?spf * ?spf < length (group_page_nums m ?gid)" using l(2) by linarith
    then have f: "pl_index loc div ?spf < length (frame_tables m ! ?gid)" using table(2) [OF spf] less_div_ceil_iff [OF spf] by simp
    let ?fetch = "\<lambda>h. and_then (fetch_frame E a p ?gid (pl_index loc) buf h)
        (\<lambda>out h. case out of Some out \<Rightarrow> (Inr out, h) | None \<Rightarrow> read_group E a p ?gid buf h)"
    have fetch: "reads_page E m objs D ?gid (pl_index loc) h1 (?fetch h1)" if "read_state E m objs D h1" for h1
    proof (cases "fetch_frame E a p ?gid (pl_index loc) buf h1")
      case (Pair r h2)
      then show ?thesis using fetch_frame_reads [OF assms(1) that assms(3,5) spf f] by (cases r) (auto simp: reads_page_def)
    qed
    have run: "read_frame E a p ?gid (pl_index loc) buf (read_group E a p ?gid buf) h =
        serve_or a p ?gid (if ra_group_wait a \<and> get_group_state ?gid (hn_cache h) = Fetching then look E a 3 p buf (wait_group a 2 ?gid h) else (Inr None, h)) (\<lambda>h.
          serve_or a p ?gid (if ra_frame_wait a then look E a 4 p buf h else (Inr None, h)) ?fetch)"
      using True f key table(1) m by (simp add: read_frame_def Let_def)
    show ?thesis unfolding run
    proof (rule serve_maybe [OF assms(1-5) _ moved_wait [OF assms(1,2)]])
      fix h1 assume "moved E m objs D ?gid h h1"
      then have st: "read_state E m objs D h1" by (rule moved_state)
      show "reads_page E m objs D ?gid (pl_index loc) h1 (serve_or a p ?gid (if ra_frame_wait a then look E a 4 p buf h1 else (Inr None, h1)) ?fetch)"
        by (rule serve_maybe [OF assms(1) st assms(3-5) _ moved_refl [OF st]]) (use fetch moved_state in blast)
    qed
  next
    case False
    then have "base_only m ?gid" using assms(6) by (auto simp: base_only_def)
    moreover have "read_frame E a p ?gid (pl_index loc) buf (read_group E a p ?gid buf) h = read_group E a p ?gid buf h"
      using False table(1) m by (auto simp: read_frame_def Let_def)
    ultimately show ?thesis using read_group_reads [OF assms(1-5)] by simp
  qed
qed

text \<open>
  C2: A read returns the page. Take a remote database whose page map is consistent and whose groups and override
  frames were written by the program, a cache without a limit that agrees with it wherever a page has no unsynced
  change, and prefetching threads that keep it so. Whatever path a successful read of one page takes, by whichever
  combination of cache hits, waits, range requests and downloads, it returns: for a page with unsynced changes
  what the cache holds; past the end of the file zeros; for a page of a group the stored page with its override
  frames applied. A page inside the file that has no group reads as zeros or as what the cache holds. The read
  leaves the manifest and the dirty pages as they were, keeps the cache in agreement, and does not touch
  unsynced changes outside the group it read from. A planned scan must not meet a group with override frames.
\<close>

theorem read_returns_page:
  assumes "read_env E a (hn_manifest h) objs (hn_dirty h)" "read_state E (hn_manifest h) objs (hn_dirty h) h"
    and "hn_page_size h = page_size (hn_manifest h)" "length buf = page_size (hn_manifest h)" "p = offset div page_size (hn_manifest h)"
    and "\<And>loc. page_location (hn_manifest h) p = Some loc \<Longrightarrow> ra_scan a \<Longrightarrow> base_only (hn_manifest h) (pl_group_id loc)"
    and "handle_read E a buf offset h = (Inr out, h')"
  shows "(if p \<in> hn_dirty h then cache_view (he_codec E) (hn_cache h) p = Some out
      else if page_count (hn_manifest h) \<le> p then out = zeros (length buf)
      else case page_location (hn_manifest h) p of
        None \<Rightarrow> out = zeros (length buf) \<or> cache_view (he_codec E) (hn_cache h) p = Some out
      | Some loc \<Rightarrow> remote_page (he_codec E) (fe_key (he_flush E)) (hn_manifest h) objs (pl_group_id loc) (pl_index loc) = Some out)
    \<and> read_state E (hn_manifest h) objs (hn_dirty h) h'
    \<and> (\<forall>q \<in> hn_dirty h. (\<forall>loc. page_location (hn_manifest h) p = Some loc \<longrightarrow> q \<notin> set (group_page_nums (hn_manifest h) (pl_group_id loc)))
         \<longrightarrow> cache_view (he_codec E) (hn_cache h') q = cache_view (he_codec E) (hn_cache h) q)"
proof -
  let ?m = "hn_manifest h" and ?D = "hn_dirty h" and ?C = "he_codec E"
  note fl = env_facts [OF assms(1)]
  have r: "cache_inv ?C (hn_cache h)" "dc_page_size (hn_cache h) = page_size ?m" using assms(2) by (simp_all add: read_state_def cache_ready_def)
  then have ps: "0 < page_size ?m" by (simp add: cache_inv_def)
  have view: "read_page_if_present ?C p buf (hn_cache h) = Inr (cache_view ?C (hn_cache h) p)" using read_view [OF r(1)] assms(4) r(2) by simp
  have head: "handle_read E a buf offset h = (case read_fast E a p buf h of
        Inl e \<Rightarrow> (Inl e, h) | Inr (Some out) \<Rightarrow> (Inr out, h)
      | Inr None \<Rightarrow> if p \<in> ?D then read_dirty E p buf h else read_clean E a p buf h)"
    unfolding assms(5) using assms(3) ps by (simp add: handle_read_def Let_def)
  show ?thesis
  proof (cases "read_fast E a p buf h = Inr None")
    case False
    then have fast: "p < page_count ?m" "read_fast E a p buf h = Inr (cache_view ?C (hn_cache h) p)"
      using view by (auto simp: read_fast_def split: if_splits)
    then have hit: "cache_view ?C (hn_cache h) p = Some out" "h' = h" using False assms(7) unfolding head by (auto split: option.splits)
    have "remote_page ?C (fe_key (he_flush E)) ?m objs (pl_group_id loc) (pl_index loc) = Some out" if "p \<notin> ?D" "page_location ?m p = Some loc" for loc
      using view_remote [OF assms(2) that hit(1)] .
    then show ?thesis unfolding hit(2) using hit(1) fast(1) assms(2) by (simp split: option.split)
  next
    case True
    show ?thesis
    proof (cases "p \<in> ?D")
      case dirty: True
      then have "cache_view ?C (hn_cache h) p = Some out" "h' = h"
        using assms(7) True view unfolding head by (auto simp: read_dirty_def split: option.splits)
      then show ?thesis using dirty assms(2) by simp
    next
      case clean: False
      then have rd: "read_clean E a p buf h = (Inr out, h')" using assms(7) True unfolding head by simp
      show ?thesis
      proof (cases "page_count ?m \<le> p \<or> page_location ?m p = None")
        case True
        then have "read_clean E a p buf h = (Inr (zeros (length buf)), h)" by (auto simp: read_clean_def Let_def)
        then have "out = zeros (length buf)" "h' = h" using rd by simp_all
        then show ?thesis using True clean assms(2) by auto
      next
        case False
        then obtain loc where loc: "page_location ?m p = Some loc" and inside: "p < page_count ?m" by auto
        have scan: "ra_scan a \<longrightarrow> base_only ?m (pl_group_id loc)" using assms(6) loc by blast
        have "read_clean E a p buf h = serve_or a p (pl_group_id loc) (look E a 0 p buf h) (read_remote E a p loc buf)"
          using inside loc fl(5,6) by (simp add: read_clean_def Let_def evict_between_queries_def)
        moreover have "reads_page E ?m objs ?D (pl_group_id loc) (pl_index loc) h (serve_or a p (pl_group_id loc) (look E a 0 p buf h) (read_remote E a p loc buf))"
        proof (rule serve_reads [OF assms(1,2,4) clean loc])
          fix h1 assume m1: "moved E ?m objs ?D (pl_group_id loc) h h1"
          show "reads_page E ?m objs ?D (pl_group_id loc) (pl_index loc) h1 (read_remote E a p loc buf h1)"
            unfolding read_remote_def
          proof (rule serve_reads [OF assms(1) moved_state [OF m1] assms(4) clean loc])
            fix h2 assume m2: "moved E ?m objs ?D (pl_group_id loc) h1 h2"
            show "reads_page E ?m objs ?D (pl_group_id loc) (pl_index loc) h2
                (read_frame E a p (pl_group_id loc) (pl_index loc) buf (read_group E a p (pl_group_id loc) buf) h2)"
              by (rule read_frame_reads [OF assms(1) moved_state [OF m2] assms(4) clean loc scan])
          qed
        qed
        ultimately have "remote_page ?C (fe_key (he_flush E)) ?m objs (pl_group_id loc) (pl_index loc) = Some out \<and> moved E ?m objs ?D (pl_group_id loc) h h'"
          using rd unfolding reads_page_def by metis
        then show ?thesis using clean inside loc by (auto simp: moved_def)
      qed
    qed
  qed
qed

text \<open>A cold read of the second page of a database of two frames: a range request brings the frame.\<close>

definition cold_store :: "string \<rightharpoonup> bytes" where
  "cold_store = [''g'' \<mapsto> [40, 1, 2, 3, 4, 40, 5, 6, 7, 8]]"

definition cold_manifest :: manifest where
  "cold_manifest = empty_manifest\<lparr>version := 3, page_count := 2, page_size := 4, pages_per_group := 2, sub_pages_per_frame := 1, strategy := BTreeAware,
     group_pages := [[0, 1]], page_index := [0 \<mapsto> \<lparr>pl_group_id = 0, pl_index = 0\<rparr>, 1 \<mapsto> \<lparr>pl_group_id = 0, pl_index = 1\<rparr>],
     page_group_keys := [''g''], frame_tables := [[\<lparr>fe_offset = 0, fe_len = 5\<rparr>, \<lparr>fe_offset = 5, fe_len = 5\<rparr>]]\<rparr>"

definition cold_cache :: disk_cache where
  "cold_cache = (sample_cache False [] {} [])\<lparr>dc_group_states := [GroupNone], dc_group_pages := [[0, 1]]\<rparr>"

definition cold_handle :: handle where
  "cold_handle = \<lparr>hn_shared = \<lparr>fs_backend = \<lparr>bk_objects = cold_store, bk_fault = (\<lambda>_. None), bk_ops = 0\<rparr>,
       fs_cache = cold_cache, fs_manifest = cold_manifest, fs_dirty = {}, fs_pending = [], fs_logs = Map.empty, fs_local = None\<rparr>,
     hn_seq = 0, hn_dirty = {}, hn_page_size = 4, hn_pending_count = 2, hn_dirty_since_sync = False, hn_synced = True,
     hn_generation = 0, hn_cookie = None, hn_vacuum_keys = None, hn_writer = None\<rparr>"

definition idle_threads :: read_answers where
  "idle_threads = \<lparr>ra_now = 0, ra_nonces = (\<lambda>_. zeros 12), ra_lookahead = False, ra_limit = None, ra_scan = False, ra_group_wait = False,
     ra_frame_wait = False, ra_threads = (\<lambda>_ dc. dc)\<rparr>"

lemma cold_fields [simp]:
  "hn_manifest cold_handle = cold_manifest" "hn_cache cold_handle = cold_cache" "hn_dirty cold_handle = {}" "hn_page_size cold_handle = 4"
  "bk_objects (fs_backend (hn_shared cold_handle)) = cold_store" "page_size cold_manifest = 4" "page_count cold_manifest = 2"
  "sub_pages_per_frame cold_manifest = 1" "page_group_keys cold_manifest = [''g'']" "subframe_overrides cold_manifest = []"
  "frame_tables cold_manifest = [[\<lparr>fe_offset = 0, fe_len = 5\<rparr>, \<lparr>fe_offset = 5, fe_len = 5\<rparr>]]" "group_pages cold_manifest = [[0, 1]]" "strategy cold_manifest = BTreeAware"
  by (simp_all add: cold_handle_def cold_manifest_def empty_manifest_def)

lemma cold_groups: "group_page_nums cold_manifest gid = (if gid = 0 then [0, 1] else [])"
  by (auto simp: group_page_nums_def Let_def get_def split: if_splits)

lemma cold_location: "page_location cold_manifest p = (if p = 0 then Some \<lparr>pl_group_id = 0, pl_index = 0\<rparr> else if p = 1 then Some \<lparr>pl_group_id = 0, pl_index = 1\<rparr> else None)"
  by (simp add: page_location_def) (simp add: cold_manifest_def)

lemma cold_written: "written_group disk_codec None cold_manifest cold_store 0"
proof -
  have "encoded_group disk_codec (\<lambda>_. zeros 12) None 4 1 0 (map Some [[1, 2, 3, 4], [5, 6, 7, 8]]) [40, 1, 2, 3, 4, 40, 5, 6, 7, 8]
      [\<lparr>fe_offset = 0, fe_len = 5\<rparr>, \<lparr>fe_offset = 5, fe_len = 5\<rparr>]"
  proof -
    let ?pages = "[Some [1, 2, 3, 4], Some [5, 6, 7, 8]] :: bytes option list"
    have "frame_raw 4 (Suc 0) ?pages 0 = [1, 2, 3, 4]" "frame_raw 4 (Suc 0) ?pages (Suc 0) = [5, 6, 7, 8]"
      by (simp_all add: frame_raw_slice bslice_def page_bytes_def zeros_def)
    moreover have "[0..<div_ceil (Suc (Suc 0)) (Suc 0)] = [0, Suc 0]" by (simp add: div_ceil_def upt_rec)
    ultimately show ?thesis by (simp add: encoded_group_def encode_page_group_seekable_def seal_frame_def compress_def disk_codec_def)
  qed
  moreover have "length (zeros 12) = 12" by simp
  moreover have "\<not> override_at cold_manifest 0 f = Some ov" for f ov by (simp add: override_at_def get_def)
  ultimately show ?thesis unfolding written_group_def
    by (auto simp: cold_groups group_limits_def MAX_TIERED_DECOMPRESSED_BYTES_def get_def cold_store_def
        intro!: exI [of _ "\<lambda>_. zeros 12"] exI [of _ "[[1, 2, 3, 4], [5, 6, 7, 8]]"])
qed

lemma cold_env: "read_env db_env idle_threads cold_manifest cold_store {}"
proof -
  have "flush_layout cold_manifest" by (auto simp: flush_layout_def cold_groups cold_location group_in_range_def less_Suc_eq split: if_splits)
  moreover have "group_page_nums cold_manifest gid \<noteq> [] \<Longrightarrow> gid = 0" for gid by (simp add: cold_groups split: if_splits)
  moreover have "group_in_range cold_manifest gid" for gid by (simp add: group_in_range_def)
  moreover have "pl_index loc < length (group_page_nums cold_manifest (pl_group_id loc)) \<and> group_page_nums cold_manifest (pl_group_id loc) ! pl_index loc = p"
    if "page_location cold_manifest p = Some loc" for p loc
    using that unfolding cold_location by (auto simp: cold_groups split: if_splits)
  ultimately have "store_ready disk_codec None cold_manifest cold_store"
    unfolding store_ready_def using cold_written disk_codec_ok(1,2) by blast
  then show ?thesis by (simp add: read_env_def threads_ok_def idle_threads_def)
qed

lemma cold_cache_empty: "cache_inv disk_codec cold_cache" "cache_view disk_codec cold_cache p = None" "dc_page_size cold_cache = 4"
proof -
  show inv: "cache_inv disk_codec cold_cache"
    by (simp add: cold_cache_def cache_inv_def sample_cache_def index_ok_def empty_index_def index_in_file_def mem_hit_def dc_is_present_def no_bits)
  have "\<not> dc_is_present p cold_cache" by (simp add: cold_cache_def sample_cache_def dc_is_present_def no_bits)
  then show "cache_view disk_codec cold_cache p = None" using view_present [OF inv, of p] by simp
  show "dc_page_size cold_cache = 4" by (simp add: cold_cache_def sample_cache_def)
qed

lemma cold_state: "read_state db_env cold_manifest cold_store {} cold_handle"
proof -
  have "get_group_state gid cold_cache \<noteq> Present" for gid by (simp add: get_group_state_def cold_cache_def sample_cache_def)
  moreover have "slot_fits cold_cache p" if "p < 2" for p
    using that by (simp add: cold_cache_def slot_fits_def slot_stride_def stride_for_def sample_cache_def)
  moreover have "no_faults (dc_disk cold_cache)" "dc_ttl_secs cold_cache = 0" "dc_budget_bytes cold_cache = 0"
    by (simp_all add: cold_cache_def sample_cache_def no_faults_def)
  ultimately show ?thesis using cold_cache_empty by (simp add: read_state_def cache_ready_def)
qed

lemma cold_install: "fst (write_pages_scattered disk_codec (\<lambda>_. zeros 12) 0 [1] [5, 6, 7, 8] 0 1 cold_cache) = Inr ()"
  by (simp add: write_pages_scattered_def check_tainted_def cold_cache_def sample_cache_def writable_count_def promote_scattered_to_mem_cache_def
      install_pages_def install_mem_cache_page_def page_slice_def bslice_def ensure_file_len_def bitmap_ensure_def on_disk_def set_len_def page_frame_def
      write_all_at_def slot_stride_def stride_for_def Let_def)

lemma cold_look: "look db_env idle_threads k 1 (zeros 4) cold_handle = (Inr None, cold_handle)"
proof -
  have "with_cache (\<lambda>dc. dc) h = h" for h by (simp add: with_cache_def)
  then show ?thesis using read_view [OF cold_cache_empty(1), of "zeros 4" 1] cold_cache_empty by (simp add: look_def idle_threads_def)
qed

lemma cold_fetch: "fst (fetch_frame db_env idle_threads 1 0 1 (zeros 4) cold_handle) = Inr (Some [5, 6, 7, 8])"
proof -
  obtain dc where w: "write_pages_scattered disk_codec (\<lambda>_. zeros 12) 0 [1] [5, 6, 7, 8] 0 1 cold_cache = (Inr (), dc)"
    using cold_install by (metis prod.collapse)
  let ?b = "fs_backend (hn_shared cold_handle)"
  have "range_get_store ''g'' 5 5 ?b = (Inr (Some [40, 5, 6, 7, 8]), tick ?b)"
    by (simp add: range_get_store_def range_get_def validate_range_get_result_def cold_store_def bslice_def cold_handle_def)
  moreover have "decode_seekable_subchunk disk_codec [40, 5, 6, 7, 8] (aad_page_group 0) None = Inr [5, 6, 7, 8]"
    by (simp add: decode_seekable_subchunk_def open_frame_def decrypt_if_needed_def decompress_capped_def disk_codec_def MAX_TIERED_DECOMPRESSED_BYTES_def)
  moreover have "frame_page_nums cold_manifest 0 1 = Inr [1]" by (simp add: frame_page_nums_def cold_groups bslice_def Let_def)
  moreover have "hn_cache (with_backend b cold_handle) = cold_cache" for b by (simp add: with_backend_def cold_handle_def)
  moreover have "override_at cold_manifest 0 f = None" for f by (simp add: override_at_def get_def)
  ultimately show ?thesis using w
    by (simp add: fetch_frame_def install_frame_def Let_def on_store_def get_def on_cache_def idle_threads_def bslice_def)
qed

lemma cold_run: "fst (handle_read db_env idle_threads (zeros 4) 4 cold_handle) = Inr [5, 6, 7, 8]"
proof -
  obtain h where f: "fetch_frame db_env idle_threads 1 0 1 (zeros 4) cold_handle = (Inr (Some [5, 6, 7, 8]), h)"
    using cold_fetch by (metis prod.collapse)
  have "read_fast db_env idle_threads 1 (zeros 4) cold_handle = Inr None"
    using read_view [OF cold_cache_empty(1), of "zeros 4" 1] cold_cache_empty by (simp add: read_fast_def)
  moreover have "evict_between_queries db_env idle_threads cold_handle = cold_handle" by (simp add: evict_between_queries_def idle_threads_def)
  moreover have "has_frame_table cold_manifest 0" by (simp add: has_frame_table_def get_def)
  moreover have "\<not> ra_scan idle_threads" "\<not> ra_group_wait idle_threads" "\<not> ra_frame_wait idle_threads" by (simp_all add: idle_threads_def)
  ultimately show ?thesis using f cold_look
    by (simp add: handle_read_def read_clean_def read_remote_def read_frame_def serve_or_def Let_def cold_location)
qed

theorem read_returns_page_witness:
  "remote_page disk_codec None cold_manifest cold_store 0 1 = Some [5, 6, 7, 8]
     \<and> read_state db_env cold_manifest cold_store {} (snd (handle_read db_env idle_threads (zeros 4) 4 cold_handle))"
  using read_returns_page [of db_env idle_threads cold_handle cold_store "zeros 4" 1 4 "[5, 6, 7, 8]"
      "snd (handle_read db_env idle_threads (zeros 4) 4 cold_handle)"] cold_env cold_state cold_run
  by (simp add: cold_location idle_threads_def prod_eq_iff)

end
