(* ===== verification/Read_Succeeds.thy ===== *)
theory Read_Succeeds
  imports Read_Paths
begin

text \<open>
  A read returns: over a backend and a disk that do not fail, with encoders that accept their input, every path of
  \<open>read_exact_at\<close> ends with a page.
\<close>

subsection \<open>Batch writes\<close>

lemma ensure_file_len_total:
  assumes "no_faults (dc_disk dc)"
  shows "\<exists>dc'. ensure_file_len n dc = (Inr (), dc') \<and> no_faults (dc_disk dc')"
  using assms by (auto simp: ensure_file_len_def on_disk_def set_len_ok)

lemma write_frames_total:
  assumes "encoding_total C" "no_faults (dc_disk dc)"
  shows "\<exists>dc'. write_frames C nonces i frames dc = (Inr (), dc')"
  using assms(2)
proof (induction frames arbitrary: i dc)
  case (Cons f frames)
  obtain p d where f: "f = (p, d)" by fastforce
  obtain out where "page_frame C (dc_key dc) (nonces i) d = Inr out" using frame_total [OF assms(1)] by blast
  moreover obtain dc1 where "on_disk (write_all_at (slot_offset dc p) out) dc = (Inr (), dc1)" "no_faults (dc_disk dc1)"
    using Cons.prems by (simp add: on_disk_def write_all_at_ok)
  ultimately show ?case using Cons.IH [of dc1] by (simp add: f)
qed simp

lemma append_blobs_total:
  assumes "encoding_total C" "no_faults (dc_disk dc)"
  shows "\<exists>dc'. append_blobs C nonces ps lst data n dc = (Inr (), dc')"
proof -
  have "\<exists>xs. collect_results (map f is) = Inr xs" if total: "\<And>i. \<exists>x. f i = Inr x" for f :: "nat \<Rightarrow> bytes io_result" and "is"
  proof (induction "is")
    case (Cons i js)
    moreover obtain x where "f i = Inr x" using total by blast
    ultimately show ?case by auto
  qed simp
  then obtain blobs where blobs: "collect_results (map (\<lambda>i. compressed_blob C (dc_key dc) (nonces i) (page_slice n data i)) [0..<length ps]) = Inr blobs"
    using blob_total [OF assms(1)] by metis
  let ?dc = "bitmap_ensure lst (dc\<lparr>dc_index := index_blobs (zip ps blobs) (ci_next_offset (dc_index dc)) (dc_index dc)\<rparr>)"
  have "no_faults (dc_disk ?dc)" using assms(2) by (simp add: bitmap_ensure_def)
  then obtain d1 where "ensure_file_len (ci_next_offset (dc_index dc) + length (concat blobs)) ?dc = (Inr (), d1)" "no_faults (dc_disk d1)"
    using ensure_file_len_total by blast
  then show ?thesis using blobs by (simp add: append_blobs_def Let_def on_disk_def write_all_at_ok)
qed

lemma write_pages_scattered_total:
  assumes "encoding_total C" "cache_inv C dc" "no_faults (dc_disk dc)" "length ps * dc_page_size dc \<le> length data"
  shows "\<exists>dc'. write_pages_scattered C nonces now ps data gid start dc = (Inr (), dc')"
proof (cases "ps = []")
  case True
  then show ?thesis using assms(2) by (simp add: write_pages_scattered_def check_tainted_def cache_inv_def)
next
  case False
  let ?n = "dc_page_size dc"
  have i: "0 < ?n" "\<not> dc_tainted dc" using assms(2) by (simp_all add: cache_inv_def)
  have wc: "take (writable_count ps data ?n) ps = ps" using writable_all [OF assms(4)] by simp
  show ?thesis
  proof (cases "dc_compression dc")
    case True
    obtain d1 where "append_blobs C nonces ps (Max (set ps)) data ?n dc = (Inr (), d1)" using append_blobs_total [OF assms(1,3)] by blast
    then show ?thesis using True False i wc by (simp add: write_pages_scattered_def check_tainted_def write_pages_scattered_compressed_def Let_def)
  next
    case plain: False
    let ?frames = "zip ps (map (page_slice ?n data) [0..<length ps])"
    let ?d0 = "install_pages ?frames dc"
    have same: "same_store ?d0 dc" by (rule install_pages_same)
    have promote: "promote_scattered_to_mem_cache ps data dc = (Inr (), ?d0)"
      using False i assms(4) by (simp add: promote_scattered_to_mem_cache_def Let_def)
    have "no_faults (dc_disk (bitmap_ensure (Max (set ps)) ?d0))" using same assms(3) by (simp add: bitmap_ensure_def same_store_def)
    then obtain d1 where d1: "ensure_file_len (((Max (set ps) + 1) * slot_stride ?d0) mod U64_SIZE) (bitmap_ensure (Max (set ps)) ?d0) = (Inr (), d1)"
      and "no_faults (dc_disk d1)" using ensure_file_len_total by blast
    then obtain d2 where "write_frames C nonces 0 ?frames d1 = (Inr (), d2)" using write_frames_total [OF assms(1)] by blast
    then show ?thesis using d1 False i wc plain promote by (simp add: write_pages_scattered_def check_tainted_def Let_def)
  qed
qed

subsection \<open>The requests\<close>

lemma entries_from_len: "i < length ds \<Longrightarrow> fe_len (entries_from off ds ! i) = length (ds ! i) mod U32_SIZE"
proof (induction ds arbitrary: off i)
  case (Cons d ds)
  then show ?case by (cases i) simp_all
qed simp

lemma length_nth_concat: "i < length ds \<Longrightarrow> length (ds ! i) \<le> length (concat ds)"
proof (induction ds arbitrary: i)
  case (Cons d ds)
  then show ?case by (cases i) (auto intro: trans_le_add2)
qed simp

text \<open>The frame table of a written group points into its object.\<close>

lemma frame_in_object:
  assumes "written_group C key m objs gid" "get (page_group_keys m) gid = Some k" "objs k = Some data"
    and "0 < sub_pages_per_frame m" "f < length (frame_tables m ! gid)"
  shows "length (bslice (fe_offset (frame_tables m ! gid ! f)) (fe_len (frame_tables m ! gid ! f)) data) = fe_len (frame_tables m ! gid ! f)"
proof -
  obtain nonces pages data' k' ft where w: "encoded_group C nonces key (page_size m) (sub_pages_per_frame m) gid (map Some pages) data' ft"
    "length data' < U32_SIZE" "get (page_group_keys m) gid = Some k'" "objs k' = Some data'" "get (frame_tables m) gid = Some ft"
    using assms(1,4) unfolding written_group_def by blast
  have d: "data' = data" using w(3,4) assms(2,3) by simp
  have ft: "frame_tables m ! gid = ft" using w(5) by (simp add: get_def split: if_splits)
  have "encode_frames C nonces (aad_page_group gid) key 0
      (map (frame_raw (page_size m) (sub_pages_per_frame m) (map Some pages)) [0..<div_ceil (length (map Some pages)) (sub_pages_per_frame m)]) [] [] = Inr (data, ft)"
    using w(1) assms(4) by (simp add: encoded_group_def encode_page_group_seekable_def d)
  from encode_frames_result [OF this] obtain ds where ds: "data = concat ds" "ft = entries_from 0 ds" by auto
  have f: "f < length ds" using assms(5) unfolding ft ds(2) by simp
  have "length (ds ! f) \<le> length (concat ds)" by (rule length_nth_concat [OF f])
  then have small: "length (ds ! f) < U32_SIZE" using w(2) unfolding d ds(1) by linarith
  have "bslice (fe_offset (ft ! f)) (fe_len (ft ! f)) data = ds ! f"
    using entries_from_nth [OF f small, of "[]"] unfolding ds(1) ds(2) by simp
  then show ?thesis using entries_from_len [OF f, of 0] small unfolding ft ds(2) by simp
qed

definition steady :: "handle \<Rightarrow> bool" where
  "steady h \<longleftrightarrow> bk_fault (fs_backend (hn_shared h)) = (\<lambda>_. None)"

lemma steady_cache [simp]: "steady (with_cache f h) = steady h"
  by (simp add: steady_def with_cache_def)

lemma steady_wait [simp]: "steady (wait_group a k gid h) = steady h"
  by (simp add: wait_group_def)

lemma steady_get:
  assumes "steady h"
  shows "\<exists>h'. on_store (get_page_group k) h = (Inr (bk_objects (fs_backend (hn_shared h)) k), h') \<and> hn_cache h' = hn_cache h"
  using assms by (simp add: on_store_def get_page_group_def steady_def with_backend_def)

lemma steady_range:
  assumes "steady h" "bk_objects (fs_backend (hn_shared h)) k = Some data" "length (bslice off len data) = len"
  shows "\<exists>h'. on_store (range_get_store k off len) h = (Inr (Some (bslice off len data)), h') \<and> hn_cache h' = hn_cache h"
  using assms by (simp add: on_store_def range_get_store_def range_get_def validate_range_get_result_def steady_def with_backend_def)

subsection \<open>The paths\<close>

lemma install_frame_succeeds:
  assumes "encoding_total (he_codec E)" "read_state E m objs D h" "f * sub_pages_per_frame m \<le> length (group_page_nums m gid)"
  shows "\<exists>out h'. install_frame E a p gid f j m raw buf h = (Inr (Some out), h')"
proof -
  let ?nums = "bslice (f * sub_pages_per_frame m) (sub_pages_per_frame m) (group_page_nums m gid)"
  have c: "cache_inv (he_codec E) (hn_cache h)" "no_faults (dc_disk (hn_cache h))" "dc_page_size (hn_cache h) = page_size m"
    using assms(2) by (simp_all add: read_state_def cache_ready_def)
  show ?thesis
  proof (cases "?nums \<noteq> [] \<and> length ?nums * page_size m \<le> length raw")
    case True
    have "length ?nums * dc_page_size (hn_cache h) \<le> length (take (length ?nums * page_size m) raw)"
      unfolding c(3) using conjunct2 [OF True] by (simp only: length_take min.absorb2 order_refl)
    from write_pages_scattered_total [OF assms(1) c(1,2) this] obtain dc
      where w: "write_pages_scattered (he_codec E) (ra_nonces a) (ra_now a) ?nums (take (length ?nums * page_size m) raw) gid
        (f * sub_pages_per_frame m mod U32_SIZE) (hn_cache h) = (Inr (), dc)" by blast
    show ?thesis unfolding install_frame_def Let_def frame_nums [OF assms(3)] sum.case if_P [OF True] on_cache_def w prod.case and_then_simps by blast
  next
    case False
    show ?thesis unfolding install_frame_def Let_def frame_nums [OF assms(3)] sum.case if_not_P [OF False] and_then_simps by blast
  qed
qed

lemma fetch_frame_succeeds:
  assumes "read_env E a m objs D" "read_state E m objs D h" "page_location m p = Some loc" "encoding_total (he_codec E)" "steady h"
    and "0 < sub_pages_per_frame m" "pl_index loc div sub_pages_per_frame m < length (frame_tables m ! pl_group_id loc)"
  shows "\<exists>out h'. fetch_frame E a p (pl_group_id loc) (pl_index loc) buf h = (Inr (Some out), h')"
proof -
  let ?C = "he_codec E" and ?key = "fe_key (he_flush E)" and ?gid = "pl_group_id loc" and ?f = "pl_index loc div sub_pages_per_frame m"
  let ?entry = "frame_tables m ! ?gid ! ?f"
  note l = env_location [OF assms(1,3)] and fl = env_facts [OF assms(1)]
  have m: "hn_manifest h = m" and objs: "bk_objects (fs_backend (hn_shared h)) = objs" using assms(2) by (simp_all add: read_state_def)
  obtain k data where k: "get (page_group_keys m) ?gid = Some k" "objs k = Some data"
    and dec: "is_ok (decode_seekable_subchunk ?C (bslice (fe_offset ?entry) (fe_len ?entry) data) (aad_page_group ?gid) ?key)"
    by (rule written_pages [OF fl(1) l(5,4)]) (use assms(6,7) in \<open>auto simp: is_ok_iff\<close>)
  have start: "?f * sub_pages_per_frame m \<le> length (group_page_nums m ?gid)"
    using l(2) div_times_less_eq_dividend [of "pl_index loc" "sub_pages_per_frame m"] by linarith
  have inst: "\<exists>out h'. install_frame E a p ?gid ?f (pl_index loc mod sub_pages_per_frame m) m raw buf h1 = (Inr (Some out), h')"
    if "read_state E m objs D h1" for raw h1 by (rule install_frame_succeeds [OF assms(4) that start])
  show ?thesis
  proof (cases "override_at m ?gid ?f")
    case None
    obtain raw where raw: "decode_seekable_subchunk ?C (bslice (fe_offset ?entry) (fe_len ?entry) data) (aad_page_group ?gid) ?key = Inr raw"
      using dec by (auto simp: is_ok_iff)
    obtain h1 where h1: "on_store (range_get_store k (fe_offset ?entry) (fe_len ?entry)) h = (Inr (Some (bslice (fe_offset ?entry) (fe_len ?entry) data)), h1)"
      using steady_range [OF assms(5), of k data] objs k(2) frame_in_object [OF l(5) k assms(6,7)] by auto
    have "read_state E m objs D h1" by (rule moved_state [OF moved_store [OF assms(2) range_objects(1) h1]])
    from inst [OF this, of raw] show ?thesis
      by (simp add: fetch_frame_def Let_def m k(1) None h1 raw)
  next
    case (Some ov)
    obtain raw where "override_frame ?C ?key m objs ?gid ?f = Some raw" using l(5) Some unfolding written_group_def by blast
    then obtain d where d: "objs (so_key ov) = Some d" and raw: "decode_seekable_subchunk ?C d (aad_override_frame ?gid ?f) ?key = Inr raw"
      using Some by (auto simp: override_frame_def open_override_def split: option.splits sum.splits)
    obtain h1 where h1: "on_store (get_page_group (so_key ov)) h = (Inr (Some d), h1)" using steady_get [OF assms(5), of "so_key ov"] objs d by auto
    have "read_state E m objs D h1" by (rule moved_state [OF moved_store [OF assms(2) get_objects(1) h1]])
    from inst [OF this, of raw] show ?thesis
      by (simp add: fetch_frame_def Let_def m k(1) Some h1 raw)
  qed
qed

lemma download_succeeds:
  assumes "read_env E a m objs D" "read_state E m objs D h" "group_in_range m gid" "group_page_nums m gid \<noteq> []" "encoding_total (he_codec E)" "steady h"
  shows "\<exists>h'. download_group E a gid h = (Inr (), h')"
proof -
  let ?gp = "group_page_nums m gid" and ?F = "he_flush E"
  note fl = env_facts [OF assms(1)]
  have m: "hn_manifest h = m" and objs: "bk_objects (fs_backend (hn_shared h)) = objs" using assms(2) by (simp_all add: read_state_def)
  obtain pages k data where w: "length pages = length ?gp" "\<forall>d \<in> set pages. length d = page_size m" "get (page_group_keys m) gid = Some k" "k \<noteq> []"
    "objs k = Some data" "group_bulk (he_codec E) (fe_key ?F) m gid data = Inr (concat pages)"
    by (rule written_pages [OF fl(1) fl(7) [OF assms(3,4)] assms(4)]) blast
  have len: "length (concat pages) = length ?gp * page_size m" using length_concat_equal [of pages "page_size m"] w(1,2) by simp
  obtain h1 where h1: "on_store (get_page_group k) h = (Inr (Some data), h1)" "hn_cache h1 = hn_cache h" using steady_get [OF assms(6), of k] objs w(5) by auto
  have c: "cache_inv (he_codec E) (hn_cache h)" "no_faults (dc_disk (hn_cache h))" "dc_page_size (hn_cache h) = page_size m"
    using assms(2) by (simp_all add: read_state_def cache_ready_def)
  obtain dc where "write_pages_scattered (he_codec E) (ra_nonces a) (ra_now a) ?gp (concat pages) gid 0 (hn_cache h) = (Inr (), dc)"
    using write_pages_scattered_total [OF assms(5) c(1,2), of ?gp "concat pages"] len c(3) by fastforce
  then have "\<exists>h'. install_group E a gid m data h1 = (Inr (), h')"
    using assms(4) w(6) h1(2) len by (simp add: install_group_def Let_def on_cache_def)
  moreover have "download_group E a gid h = install_group E a gid m data h1"
    using w(4) by (simp only: download_group_def Let_def m w(3) option.case if_False h1(1) prod.case sum.case)
  ultimately show ?thesis by simp
qed

lemma fetch_group_succeeds:
  assumes "read_env E a m objs D" "read_state E m objs D h" "group_in_range m gid" "group_page_nums m gid \<noteq> []" "encoding_total (he_codec E)" "steady h"
  shows "\<exists>h'. fetch_group E a gid h = (Inr (), h')"
proof -
  define h1 where "h1 = (if get_group_state gid (hn_cache h) = Fetching then wait_group a 5 gid h else h)"
  have st: "read_state E m objs D h1" using moved_state [OF moved_wait [OF assms(1,2)]] assms(2) by (simp add: h1_def)
  have s: "steady h1" using assms(6) by (simp add: h1_def)
  obtain won dc where c: "try_claim_group gid (hn_cache h1) = (won, dc)" by fastforce
  have "moved E m objs D gid h1 (with_cache (\<lambda>_. dc) h1)"
    using claim_steps(3,4) [of gid "hn_cache h1"] c by (intro moved_meta st) simp_all
  from download_succeeds [OF assms(1) moved_state [OF this] assms(3-5)] s
  obtain h2 where "download_group E a gid (with_cache (\<lambda>_. dc) h1) = (Inr (), h2)" by auto
  then show ?thesis using c by (cases won) (auto simp: fetch_group_def h1_def [symmetric] Let_def)
qed

lemma read_group_succeeds:
  assumes "read_env E a m objs D" "read_state E m objs D h" "length buf = page_size m" "page_location m p = Some loc" "base_only m (pl_group_id loc)"
    and "encoding_total (he_codec E)" "steady h"
  shows "\<exists>out h'. read_group E a p (pl_group_id loc) buf h = (Inr out, h')"
proof -
  let ?gid = "pl_group_id loc"
  note l = env_location [OF assms(1,4)]
  obtain h1 where f: "fetch_group E a ?gid h = (Inr (), h1)" using fetch_group_succeeds [OF assms(1,2) l(1,4) assms(6,7)] by blast
  then have m1: "moved E m objs D ?gid h h1" and pr: "get_group_state ?gid (hn_cache h1) = Present"
    using fetch_group_moved [OF assms(1,2) l(1,4) assms(5)] by simp_all
  have here: "dc_is_present p (hn_cache h1)" by (rule present_group [OF moved_state [OF m1] pr]) (use l(2,3) in \<open>metis nth_mem\<close>)
  note m2 = moved_threads [OF assms(1) moved_state [OF m1], of ?gid 7]
  have "dc_is_present p (hn_cache (with_cache (ra_threads a 7) h1))" using m2 here unfolding moved_def by blast
  moreover have "cache_inv (he_codec E) (hn_cache (with_cache (ra_threads a 7) h1))"
    using moved_state [OF m2] by (simp only: read_state_def cache_ready_def)
  ultimately obtain out where "cache_view (he_codec E) (hn_cache (with_cache (ra_threads a 7) h1)) p = Some out" using view_present by blast
  then show ?thesis using f look_view [OF assms(1) moved_state [OF m1] assms(3), of 7 p]
    by (simp only: read_group_def and_then_simps serve_or_def option.case) blast
qed

lemma serve_succeeds:
  assumes "read_env E a m objs D" "read_state E m objs D h" "length buf = page_size m" "steady h"
    and "\<And>h1. read_state E m objs D h1 \<Longrightarrow> steady h1 \<Longrightarrow> \<exists>out h'. next h1 = (Inr out, h')"
  shows "\<exists>out h'. serve_or a p gid (look E a k p buf h) next = (Inr out, h')"
proof -
  let ?h = "with_cache (ra_threads a k) h"
  have "read_state E m objs D ?h" by (rule moved_state [OF moved_threads [OF assms(1,2)]])
  then have "\<exists>out h'. next ?h = (Inr out, h')" using assms(4,5) by simp
  then show ?thesis unfolding look_view [OF assms(1-3)] serve_or_def and_then_simps
    by (cases "cache_view (he_codec E) (hn_cache ?h) p") simp_all
qed

lemma read_frame_succeeds:
  assumes "read_env E a m objs D" "read_state E m objs D h" "length buf = page_size m" "page_location m p = Some loc"
    and "ra_scan a \<longrightarrow> base_only m (pl_group_id loc)" "encoding_total (he_codec E)" "steady h"
  shows "\<exists>out h'. read_frame E a p (pl_group_id loc) (pl_index loc) buf (read_group E a p (pl_group_id loc) buf) h = (Inr out, h')"
proof -
  let ?gid = "pl_group_id loc" and ?spf = "sub_pages_per_frame m"
  note l = env_location [OF assms(1,4)] and fl = env_facts [OF assms(1)]
  have m: "hn_manifest h = m" using assms(2) by (simp add: read_state_def)
  have table: "has_frame_table m ?gid \<longleftrightarrow> 0 < ?spf" "0 < ?spf \<Longrightarrow> length (frame_tables m ! ?gid) = div_ceil (length (group_page_nums m ?gid)) ?spf"
    and key: "?gid < length (page_group_keys m)"
    by (rule written_pages [OF fl(1) l(5,4)], simp)+
  show ?thesis
  proof (cases "0 < ?spf \<and> \<not> ra_scan a")
    case True
    then have spf: "0 < ?spf" by simp
    have "pl_index loc div ?spf * ?spf < length (group_page_nums m ?gid)"
      using l(2) div_times_less_eq_dividend [of "pl_index loc" ?spf] by linarith
    then have f: "pl_index loc div ?spf < length (frame_tables m ! ?gid)" using table(2) [OF spf] less_div_ceil_iff [OF spf] by simp
    let ?fetch = "\<lambda>h. and_then (fetch_frame E a p ?gid (pl_index loc) buf h)
        (\<lambda>out h. case out of Some out \<Rightarrow> (Inr out, h) | None \<Rightarrow> read_group E a p ?gid buf h)"
    have fetch: "\<exists>out h'. ?fetch h1 = (Inr out, h')" if "read_state E m objs D h1" "steady h1" for h1
      using fetch_frame_succeeds [OF assms(1) that(1) assms(4,6) that(2) spf f, of buf] by auto
    let ?second = "\<lambda>h. serve_or a p ?gid (if ra_frame_wait a then look E a 4 p buf h else (Inr None, h)) ?fetch"
    have second: "\<exists>out h'. ?second h1 = (Inr out, h')" if s: "read_state E m objs D h1" "steady h1" for h1
    proof (cases "ra_frame_wait a")
      case True
      then show ?thesis using serve_succeeds [OF assms(1) s(1) assms(3) s(2) fetch] by simp
    qed (use fetch [OF s] in \<open>simp add: serve_or_def\<close>)
    have run: "read_frame E a p ?gid (pl_index loc) buf (read_group E a p ?gid buf) h =
        serve_or a p ?gid (if ra_group_wait a \<and> get_group_state ?gid (hn_cache h) = Fetching then look E a 3 p buf (wait_group a 2 ?gid h) else (Inr None, h)) ?second"
      using True f key table(1) m by (simp add: read_frame_def Let_def)
    have "read_state E m objs D (wait_group a 2 ?gid h)" by (rule moved_state [OF moved_wait [OF assms(1,2)]])
    from serve_succeeds [OF assms(1) this assms(3) _ second] assms(7)
    have waited: "\<exists>out h'. serve_or a p ?gid (look E a 3 p buf (wait_group a 2 ?gid h)) ?second = (Inr out, h')" by simp
    show ?thesis
    proof (cases "ra_group_wait a \<and> get_group_state ?gid (hn_cache h) = Fetching")
      case True
      show ?thesis unfolding run if_P [OF True] by (rule waited)
    next
      case False
      show ?thesis unfolding run if_not_P [OF False] using second [OF assms(2,7)] by (simp only: serve_or_def and_then_simps option.case)
    qed
  next
    case False
    then have "base_only m ?gid" using assms(5) by (auto simp: base_only_def)
    moreover have "read_frame E a p ?gid (pl_index loc) buf (read_group E a p ?gid buf) h = read_group E a p ?gid buf h"
      using False table(1) m by (auto simp: read_frame_def Let_def)
    ultimately show ?thesis using read_group_succeeds [OF assms(1-4) _ assms(6,7)] by simp
  qed
qed

text \<open>
  Why a group that is marked present has to be complete: eviction to a budget drops pages of a group and leaves the mark
  (\<open>src/src/tiered/disk_cache.rs:2126\<close>). A read of such a page that takes the whole-group path, here during a planned
  scan, does not download the group again and finds nothing.
\<close>

definition evicted_handle :: handle where
  "evicted_handle = with_cache (\<lambda>dc. dc\<lparr>dc_group_states := [Present]\<rparr>) cold_handle"

definition scanning :: read_answers where
  "scanning = idle_threads\<lparr>ra_scan := True\<rparr>"

lemma evicted_page_missing:
  "fst (handle_read db_env scanning (zeros 4) 4 evicted_handle) = Inl (Io NotFound ''page missing from remote storage'')"
proof -
  let ?dc = "cold_cache\<lparr>dc_group_states := [Present]\<rparr>"
  have f: "hn_cache evicted_handle = ?dc" "hn_manifest evicted_handle = cold_manifest" "hn_dirty evicted_handle = {}" "hn_page_size evicted_handle = 4"
    by (simp_all add: evicted_handle_def with_cache_def cold_handle_def)
  have empty: "read_page_if_present disk_codec 1 (zeros 4) ?dc = Inr None"
    by (simp add: read_page_if_present_def dc_is_present_def cold_cache_def sample_cache_def no_bits)
  have look: "look db_env scanning k 1 (zeros 4) evicted_handle = (Inr None, evicted_handle)" for k
    using empty by (simp add: look_def scanning_def idle_threads_def f with_cache_def)
  have state: "get_group_state 0 ?dc = Present" by (simp add: get_group_state_def)
  have raw: "fst (read_raw_slot db_env scanning 1 0 (zeros 4) evicted_handle) = Inl (Io NotFound ''page missing from remote storage'')"
    by (simp add: read_raw_slot_def f read_page_def mem_hit_def read_exact_at_def cold_cache_def sample_cache_def)
  have "read_fast db_env scanning 1 (zeros 4) evicted_handle = Inr None" using empty by (simp add: read_fast_def f)
  moreover have "evict_between_queries db_env scanning evicted_handle = evicted_handle" by (simp add: evict_between_queries_def scanning_def idle_threads_def)
  ultimately show ?thesis using raw look state f
    by (simp add: handle_read_def read_clean_def read_remote_def read_frame_def read_group_def fetch_group_def serve_or_def Let_def cold_location scanning_def)
qed

text \<open>
  C3: A read returns. Take a remote database whose groups and override frames were written by the program, a cache
  that agrees with it and whose disk does not fail, and prefetching threads that keep it so and leave unsynced pages alone. The cache never drops
  a page on its own: there is no limit to enforce between queries, no time-to-live and no byte budget, and a group marked present
  has all its pages in the cache (with a limit the claim fails: \<open>evicted_page_missing\<close>). When no request to the backend fails, the encoders
  accept their input and a page with unsynced changes is still in the cache, every read of a page returns a page: no
  path ends in an error or a panic. A planned scan must not meet a group with override frames.
\<close>

theorem read_succeeds:
  assumes "read_env E a (hn_manifest h) objs (hn_dirty h)" "read_state E (hn_manifest h) objs (hn_dirty h) h"
    and "hn_page_size h = page_size (hn_manifest h)" "length buf = page_size (hn_manifest h)"
    and "\<And>loc. page_location (hn_manifest h) (offset div page_size (hn_manifest h)) = Some loc \<Longrightarrow> ra_scan a \<Longrightarrow> base_only (hn_manifest h) (pl_group_id loc)"
    and "\<And>k. bk_fault (fs_backend (hn_shared h)) k = None" "encoding_total (he_codec E)"
    and "offset div page_size (hn_manifest h) \<in> hn_dirty h \<Longrightarrow> dc_is_present (offset div page_size (hn_manifest h)) (hn_cache h)"
  shows "\<exists>out h'. handle_read E a buf offset h = (Inr out, h')"
proof -
  let ?m = "hn_manifest h" and ?D = "hn_dirty h" and ?C = "he_codec E" and ?p = "offset div page_size (hn_manifest h)"
  note fl = env_facts [OF assms(1)]
  have s: "steady h" using assms(6) by (simp add: steady_def fun_eq_iff)
  have r: "cache_inv ?C (hn_cache h)" "dc_page_size (hn_cache h) = page_size ?m" using assms(2) by (simp_all add: read_state_def cache_ready_def)
  then have ps: "0 < page_size ?m" by (simp add: cache_inv_def)
  have view: "read_page_if_present ?C ?p buf (hn_cache h) = Inr (cache_view ?C (hn_cache h) ?p)" using read_view [OF r(1)] assms(4) r(2) by simp
  have head: "handle_read E a buf offset h = (case read_fast E a ?p buf h of
        Inl e \<Rightarrow> (Inl e, h) | Inr (Some out) \<Rightarrow> (Inr out, h)
      | Inr None \<Rightarrow> if ?p \<in> ?D then read_dirty E ?p buf h else read_clean E a ?p buf h)"
    using assms(3) ps by (simp add: handle_read_def Let_def)
  have fast: "\<exists>v. read_fast E a ?p buf h = Inr v" unfolding read_fast_def view by simp
  have dirty: "\<exists>out h'. read_dirty E ?p buf h = (Inr out, h')" if "?p \<in> ?D"
    using view_present [OF r(1), of ?p] assms(8) [OF that] unfolding read_dirty_def view by auto
  have clean: "\<exists>out h'. read_clean E a ?p buf h = (Inr out, h')"
  proof (cases "page_count ?m \<le> ?p \<or> page_location ?m ?p = None")
    case True
    then show ?thesis by (auto simp: read_clean_def Let_def)
  next
    case False
    then obtain loc where loc: "page_location ?m ?p = Some loc" and inside: "?p < page_count ?m" by auto
    have scan: "ra_scan a \<longrightarrow> base_only ?m (pl_group_id loc)" using assms(5) loc by blast
    have run: "read_clean E a ?p buf h = serve_or a ?p (pl_group_id loc) (look E a 0 ?p buf h) (read_remote E a ?p loc buf)"
      using inside loc fl(5,6) by (simp add: read_clean_def Let_def evict_between_queries_def)
    show ?thesis unfolding run
    proof (rule serve_succeeds [OF assms(1,2,4) s])
      fix h1 assume h1: "read_state E ?m objs ?D h1" "steady h1"
      show "\<exists>out h'. read_remote E a ?p loc buf h1 = (Inr out, h')" unfolding read_remote_def
        by (rule serve_succeeds [OF assms(1) h1(1) assms(4) h1(2)]) (rule read_frame_succeeds [OF assms(1) _ assms(4) loc scan assms(7)])
    qed
  qed
  obtain v where v: "read_fast E a ?p buf h = Inr v" using fast by blast
  show ?thesis unfolding head v using dirty clean by (cases v) auto
qed

theorem read_succeeds_witness:
  "\<exists>out h'. handle_read db_env idle_threads (zeros 4) 4 cold_handle = (Inr out, h')"
  using read_succeeds [of db_env idle_threads cold_handle cold_store "zeros 4" 4] cold_env cold_state disk_codec_ok(4)
  by (simp add: idle_threads_def cold_handle_def)

end
