(* ===== verification/Spec2Isabelle.thy ===== *)
theory Spec2Isabelle
  imports Cache_Evict Replay_Atomic Flush_Theorems Btree_Walker Resize Passthrough Handle_Published Durable_Published Vacuum Local_File Read_Succeeds
begin

text \<open>
  Verification of turbolite, a SQLite VFS that keeps a database in object storage and a page cache on the local disk.

  \<^bold>\<open>The program.\<close> The pages of a database are put into page groups. Each group is one object of the backend, written
  whole or as independently compressed frames with a frame table; a frame that changed later may be
  an object of its own, an override. The manifest records page count, page map, object keys, frame tables and
  overrides. A handle serves SQLite: reads go to the local cache and, on a miss, to the backend; writes go to the cache
  and mark the page dirty. A sync either writes a staging log and leaves the upload to a later flush
  (local-then-flush), or uploads at once (durable). A replica receives pages by replay.
  WAL and journal files pass through to the local disk, encrypted when there is a key. A second, independent form of
  database keeps everything in one local compressed file.

  \<^bold>\<open>Foundations.\<close>
  \<^item> \<open>Prelude\<close>: bytes, fixed-width integers, slices, chunks, I/O results, and the order in which Rust's hash
    containers are iterated (locale \<open>hash_iteration\<close>, interpreted by the sorted order).
  \<^item> \<open>Keys\<close> (\<open>src/src/tiered/keys.rs\<close>): object keys and the identities that bind an encrypted object to its slot.
  \<^item> \<open>Staging\<close> (\<open>staging.rs\<close>): the append-only log with its writer, both readers and the recovery scan. Any prefix of
    a log gives exactly its complete records; the manifest at its end is found exactly when the log is complete.
  \<^item> \<open>Manifest\<close> (\<open>manifest.rs\<close>, parts of \<open>config.rs\<close> and \<open>mod.rs\<close>): the page map in both strategies, the reverse
    indexes, the validation, the choice of the replay cursor.
  \<^item> \<open>Resize\<close> (\<open>assign_new_pages_to_groups\<close> and \<open>set_len\<close> of \<open>handle.rs\<close>, \<open>set_replay_page_count\<close> of \<open>replay.rs\<close>): growth
    and truncation keep the page map sound, and the two growth loops agree.
  \<^item> \<open>Encoding\<close> (\<open>encoding.rs\<close>, \<open>compress.rs\<close>): groups, seekable groups, bundles and override frames; round trips, bounds
    on what a decoder returns, and the rejection of objects moved to another slot.
  \<^item> \<open>Storage\<close> (\<open>storage.rs\<close>): the typed calls over the backend, a map of objects that may fail at any call, also after
    the call took effect.

  \<^bold>\<open>The local cache.\<close>
  \<^item> \<open>Bitmap\<close> and \<open>Tracker\<close> (\<open>cache_tracking.rs\<close>): the packed bitmap as a set of pages (locale \<open>page_set\<close>), the
    sub-chunk tracker with its tiers, scores and byte count.
  \<^item> \<open>Local_State\<close> (\<open>local_state.rs\<close>), \<open>Cache_File\<close> and \<open>Disk_Cache\<close> (\<open>disk_cache.rs\<close>): the recovery file, the cache file
    with disk faults and its compaction, and every operation of \<open>DiskCache\<close>. The eviction counter is a
    process-wide static of the program and a field here.
  \<^item> \<open>Cache_View\<close>, \<open>Cache_Write\<close>, \<open>Cache_Batch\<close>, \<open>Cache_Evict\<close>: the cache as a partial map from pages to bytes, in
    all three layouts (plain slots, encrypted slots, compressed blobs), and what a single write, a batch write and an
    eviction do to it.

  \<^bold>\<open>The upload.\<close>
  \<^item> \<open>Overrides\<close> (\<open>compact.rs\<close> and the fetch of base objects in \<open>flush.rs\<close>): what a reader of the manifest gets for a page
    (\<open>remote_page\<close>: the base with the override frames over it); folding overrides into new bases keeps it.
  \<^item> \<open>Flush\<close> (\<open>flush.rs\<close>) with \<open>Flush_Safe\<close>, \<open>Flush_Publish\<close>, \<open>Flush_Correct\<close> and \<open>Flush_Theorems\<close>: what a
    flush that succeeds publishes, page by page: the local view, staged over cached over stored, but for the two kinds of pages
    (\<open>override_dropped\<close>, \<open>cached_left_behind\<close>) where the code publishes older bytes; one that fails at any call keeps
    every page and all pending work.

  \<^bold>\<open>The handle\<close> (\<open>handle.rs\<close>).
  \<^item> \<open>Handle_Lock\<close>: the five lock levels over byte-range locks (locale \<open>advisory_locks\<close>), with the step relation
    \<open>lock_runs\<close> over arbitrary answers; guards never conflict, and an exclusive handle is alone among the handles whose level
    agrees with their locks (a refused downgrade strands a handle).
  \<^item> \<open>Handle\<close>, \<open>Handle_Checkpoint\<close>, \<open>Handle_Published\<close>: writes, size, local checkpoint, close; what a run of in-place
    writes and checkpoints wrote is what the next flush publishes.
  \<^item> \<open>Handle_Durable\<close>, \<open>Durable_Published\<close>, \<open>Vacuum\<close>: what the durable sync of a database that did not grow
    publishes, with the same two exceptions as the flush; after a vacuum the rebuilt page map holds every page exactly once.
  \<^item> \<open>Handle_Read\<close>, \<open>Read_Correct\<close>, \<open>Read_Paths\<close>, \<open>Read_Succeeds\<close>: \<open>read_exact_at\<close> with all its paths; whichever it
    takes, the page it returns is the unsynced one, zeros past the end, or what \<open>remote_page\<close> says, and the cache stays
    in agreement; when neither backend nor disk fails and the cache has no limit it does return. What prefetching threads do is
    assumed to leave unsynced pages alone (\<open>threads_ok\<close>).
  \<^item> \<open>Passthrough\<close>: the nonce log of encrypted WAL and journal files.

  \<^bold>\<open>The rest.\<close>
  \<^item> \<open>Btree_Peek\<close> (\<open>btree_peek.rs\<close>) and \<open>Btree_Walker\<close> (\<open>btree_walker.rs\<close>): readers of SQLite pages, which
    read back pages of the file format, and the walk of all B-trees that decides the grouping of pages, against a
    specification of child pointers and overflow chains that is independent of the parser.
  \<^item> \<open>Replay\<close>, \<open>Replay_Atomic\<close> (\<open>replay.rs\<close>): a replay is installed, rolled back, or fenced with a complete
    log, or, when it shrinks the database and the truncation fails, exposed under the old manifest.
  \<^item> \<open>Local_File\<close> (\<open>src/src/local\<close>): the single-file database; a crash leaves the image of the last successful sync.

  \<^bold>\<open>Conventions.\<close> A fallible function returns \<open>Inl\<close> with the error or \<open>Inr\<close>; a panic of the program is an error
  value of its own. Stateful code passes the state explicitly and returns it on every branch, also after an
  error. Bytes are \<open>8 word\<close>; offsets, lengths and counters are natural numbers with the wrap-around of the Rust type
  written out where the code can reach it (\<open>mod U32_SIZE\<close>, \<open>mod U64_SIZE\<close>, checked and saturating
  operations). Loops are structural or have a termination proof, so no
  definition takes fuel: the walk of a B-tree is bounded by the 32-bit page numbers it has not visited, the listing of
  a backend by the limit of the code on the number of keys.

  \<^bold>\<open>Parameters.\<close> Code that is not part of the repository enters as arguments: zstd and AES-GCM (\<open>codec\<close>, with the laws
  \<open>codec_contract\<close>: what was encoded decodes, a sealed object opens under its own identity only, and
  \<open>cache_codec\<close>: the sizes of both), AES-CTR, msgpack and JSON (pairs of an encoder and a decoder), byte-range locks, the random
  nonces, the clock, and the order of hash iteration. The backend and the disk are maps and byte lists whose faults
  are arbitrary functions of the call number. Each law is shown to hold for a concrete instance in the witnesses.

  \<^bold>\<open>Not modelled.\<close> Threads: each operation is one step under the lock the code holds, and what prefetching threads do to
  the cache during a read is an argument. Prefetch scheduling, look-ahead and prediction:
  they choose which pages enter the cache early. The network clients behind the storage trait, the CBOR form of the
  manifest, opening and wiring of the VFS, bulk import and key rotation (one-shot tools over the encoders
  modelled here), WAL replication (an external crate), the C interfaces, the command line and the benchmarks.
\<close>

end
